(* ===== verification/Prelude.thy ===== *)
theory Prelude
  imports Main "HOL-Library.Word"
begin

unbundle bit_operations_syntax

text \<open>
  Shared vocabulary of the development: names for the machine types the sources use, the error
  values that stand for C++ exceptions, assertion failures and reads out of range, sequencing of
  computations that may fail, and the generic facts about lists, words and byte strings that the
  component theories rest on.
\<close>

section \<open>Machine types\<close>

type_synonym u8 = "8 word"
type_synonym u16 = "16 word"
type_synonym u32 = "32 word"
type_synonym u64 = "64 word"
type_synonym byte = "8 word"
type_synonym bytes = "8 word list"

section \<open>Failures as values\<close>

text \<open>
  \<open>RuntimeError\<close> is a thrown \<open>std::runtime_error\<close> with its message, \<open>StreamError\<close> the exception of
  \<open>common::Streams\<close>, \<open>InvariantViolated\<close> the \<open>std::logic_error\<close> thrown by the \<open>invariant\<close> macro,
  \<open>AssertFailed\<close> an \<open>assert\<close> that aborts the process, \<open>OutOfRange\<close> the exception of the checked
  accessors \<open>at\<close>, \<open>Undefined\<close> an operation without defined behaviour (a read past the end of an
  array, a division by zero) and \<open>DatabaseError\<close> the exception of the key-value store.
\<close>

datatype cpp_error =
    RuntimeError string
  | StreamError string
  | InvariantViolated string
  | AssertFailed
  | OutOfRange
  | Undefined
  | DatabaseError

type_synonym 'a result = "cpp_error + 'a"

definition bindR :: "'e + 'a \<Rightarrow> ('a \<Rightarrow> 'e + 'b) \<Rightarrow> 'e + 'b" where
  "bindR r f = (case r of Inl e \<Rightarrow> Inl e | Inr x \<Rightarrow> f x)"

definition ensure :: "'e \<Rightarrow> bool \<Rightarrow> 'e + unit" where
  "ensure e b = (if b then Inr () else Inl e)"

lemma bindR_simps [simp]:
  "bindR (Inl e) f = Inl e"
  "bindR (Inr x) f = f x"
  by (simp_all add: bindR_def)

lemma bindR_eq_Inr_iff: "bindR r f = Inr y \<longleftrightarrow> (\<exists>x. r = Inr x \<and> f x = Inr y)"
  by (cases r) auto

lemma bindR_assoc: "bindR (bindR r f) g = bindR r (\<lambda>x. bindR (f x) g)"
  by (cases r) auto

lemma bindR_cong [fundef_cong]:
  "r = r' \<Longrightarrow> (\<And>x. r' = Inr x \<Longrightarrow> f x = f' x) \<Longrightarrow> bindR r f = bindR r' f'"
  by (cases r') auto

lemma ensure_simps [simp]:
  "ensure e True = Inr ()"
  "ensure e False = Inl e"
  "(ensure e b = Inr u) = b"
  by (simp_all add: ensure_def)

primrec foldR :: "('s \<Rightarrow> 'a \<Rightarrow> 'e + 's) \<Rightarrow> 's \<Rightarrow> 'a list \<Rightarrow> 'e + 's" where
  "foldR f s [] = Inr s"
| "foldR f s (x # xs) = bindR (f s x) (\<lambda>s'. foldR f s' xs)"

lemma foldR_append: "foldR f s (xs @ ys) = bindR (foldR f s xs) (\<lambda>s'. foldR f s' ys)"
  by (induction xs arbitrary: s) (simp_all add: bindR_assoc)

lemma foldR_invariant:
  assumes "\<And>s x s'. x \<in> set xs \<Longrightarrow> P s \<Longrightarrow> f s x = Inr s' \<Longrightarrow> P s'"
    and "P s" and "foldR f s xs = Inr s'"
  shows "P s'"
  using assms
proof (induction xs arbitrary: s)
  case Nil
  then show ?case by simp
next
  case (Cons x xs)
  from Cons.prems(3) obtain t where t: "f s x = Inr t" "foldR f t xs = Inr s'"
    by (auto simp: bindR_eq_Inr_iff)
  have "P t" using Cons.prems(1)[of x s t] Cons.prems(2) t(1) by simp
  then show ?case using Cons.IH[of t] Cons.prems(1) t(2) by (meson list.set_intros(2))
qed

section \<open>Collections of facts\<close>

named_theorems codec_simps \<open>round-trip equations of the codecs\<close>
named_theorems bytes_simps \<open>numeric reading of byte-level operations\<close>

section \<open>Words and bytes\<close>

lemma unat_byte_less [simp]: "unat (b :: byte) < 256"
  using unsigned_less[of b] by simp

lemma u64_less [simp]: "unat (w :: u64) < 18446744073709551616"
  using unsigned_less[of w] by simp

lemma u32_less [simp]: "unat (w :: u32) < 4294967296"
  using unsigned_less[of w] by simp

lemma byte_of_nat_unat [simp]: "n < 256 \<Longrightarrow> unat (word_of_nat n :: byte) = n"
  by (simp add: unat_of_nat)

lemma unat_and_mask_eq_mod: "unat (w AND mask n) = unat w mod 2 ^ n"
  by (simp only: take_bit_eq_mask [symmetric] unsigned_take_bit_eq take_bit_nat_def)

lemma unat_drop_bit: "unat (drop_bit n (w :: 'a::len word)) = unat w div 2 ^ n"
  by (simp add: unat_drop_bit_eq drop_bit_nat_def)

lemma unat_ucast_less: "unat w < 2 ^ LENGTH('b) \<Longrightarrow> unat (ucast w :: 'b::len word) = unat w"
  by (simp add: unsigned_ucast_eq take_bit_nat_eq_self)

lemma add_mult_pow2_less:
  assumes "(t :: nat) < 2 ^ s" and "a < 2 ^ k"
  shows "t + a * 2 ^ s < 2 ^ (s + k)"
proof -
  have "t + a * 2 ^ s < (a + 1) * 2 ^ s" using assms(1) by simp
  also have "\<dots> \<le> 2 ^ k * 2 ^ s" using assms(2) by (intro mult_right_mono) auto
  finally show ?thesis by (simp add: power_add mult.commute)
qed

lemma word_of_nat_unatI: "unat w = n \<Longrightarrow> w = word_of_nat n"
  by auto

lemma ucast_byte_nat: "(ucast (w :: u64) :: byte) = word_of_nat (unat w mod 256)"
  by (rule word_of_nat_unatI) (simp add: unsigned_ucast_eq take_bit_nat_def)

lemma unat_or_disjoint:
  "x AND y = 0 \<Longrightarrow> unat (x OR y) = unat x + unat (y :: 'a::len word)"
  by (metis disjunctive_add_eq_or unsigned_0 unsigned_and_eq unsigned_or_eq)

lemma unat_push_bit_less:
  assumes "unat w * 2 ^ n < 2 ^ LENGTH('a)"
  shows "unat (push_bit n (w :: 'a::len word)) = unat w * 2 ^ n"
  using assms
  by (simp add: push_bit_eq_mult unat_word_ariths unsigned_push_bit_eq take_bit_nat_eq_self
      flip: push_bit_eq_mult)

lemma and_push_bit_eq_0:
  assumes "unat x < 2 ^ n"
  shows "x AND push_bit n y = (0 :: 'a::len word)"
proof -
  have "take_bit n x = x"
    using assms by (simp add: word_unat_eq_iff unsigned_take_bit_eq take_bit_nat_eq_self)
  then have "x AND push_bit n y = take_bit n x AND push_bit n y" by simp
  also have "\<dots> = 0"
    by (rule bit_word_eqI) (auto simp: bit_and_iff bit_push_bit_iff bit_take_bit_iff)
  finally show ?thesis .
qed

lemma unat_or_push_bit:
  assumes "unat x < 2 ^ n" and "unat y * 2 ^ n < 2 ^ LENGTH('a)"
  shows "unat (x OR push_bit n (y :: 'a::len word)) = unat x + unat y * 2 ^ n"
  using assms by (simp add: unat_or_disjoint and_push_bit_eq_0 unat_push_bit_less)

text \<open>
  Big-endian byte strings of a fixed length: the number they denote and the encoding of a number,
  which the DB key codec, Base58 blocks and the packed headers share.
\<close>

definition be_to_nat :: "bytes \<Rightarrow> nat" where
  "be_to_nat bs = foldl (\<lambda>r b. r * 256 + unat b) 0 bs"

fun nat_to_be :: "nat \<Rightarrow> nat \<Rightarrow> bytes" where
  "nat_to_be 0 n = []"
| "nat_to_be (Suc k) n = nat_to_be k (n div 256) @ [word_of_nat (n mod 256)]"

lemma length_nat_to_be [simp]: "length (nat_to_be k n) = k"
  by (induction k arbitrary: n) auto

lemma be_to_nat_simps [simp]:
  "be_to_nat [] = 0"
  "be_to_nat (bs @ [b]) = be_to_nat bs * 256 + unat b"
  by (simp_all add: be_to_nat_def)

lemma be_to_nat_less: "be_to_nat bs < 256 ^ length bs"
proof (induction bs rule: rev_induct)
  case Nil
  then show ?case by simp
next
  case (snoc b bs)
  have "unat b < 256" by simp
  then have "be_to_nat bs * 256 + unat b < (be_to_nat bs + 1) * 256" by simp
  also have "\<dots> \<le> 256 ^ length bs * 256" using snoc by (intro mult_right_mono) auto
  finally show ?case by (simp add: mult.commute)
qed

lemma be_to_nat_nat_to_be [simp]: "n < 256 ^ k \<Longrightarrow> be_to_nat (nat_to_be k n) = n"
  by (induction k arbitrary: n) (auto simp: less_mult_imp_div_less mult.commute)

lemma nat_to_be_be_to_nat [simp]: "length bs = k \<Longrightarrow> nat_to_be k (be_to_nat bs) = bs"
  by (induction bs arbitrary: k rule: rev_induct) auto

lemma be_to_nat_append: "be_to_nat (xs @ ys) = be_to_nat xs * 256 ^ length ys + be_to_nat ys"
proof (induction ys rule: rev_induct)
  case (snoc y ys)
  then show ?case by (simp flip: append_assoc add: algebra_simps)
qed simp

end
