(* ===== verification/IntUtil.thy ===== *)
theory IntUtil
  imports Prelude
begin

text \<open>
  Wide integer arithmetic: \<open>src/src/crypto/int-util.h\<close> (64 by 64 bit multiplication, division of a
  128-bit value by a 32-bit one, byte swaps), \<open>src/src/common/Int128.hpp\<close> (the two-limb \<open>Uint128\<close>)
  and the proof-of-work test \<open>check_hash\<close> of \<open>src/src/Core/Difficulty.cpp\<close>. Each routine is related
  to the arithmetic on natural numbers it stands for.
\<close>

section \<open>Definitions\<close>

definition hi_dword :: "u64 \<Rightarrow> u64" where
  "hi_dword val = drop_bit 32 val"

definition lo_dword :: "u64 \<Rightarrow> u64" where
  "lo_dword val = val AND 0xFFFFFFFF"

text \<open>The branch of \<open>mul128\<close> on the compiler's 128-bit type; the result is \<open>(product_hi, product_lo)\<close>.\<close>

definition mul128 :: "u64 \<Rightarrow> u64 \<Rightarrow> u64 \<times> u64" where
  "mul128 multiplier multiplicand =
     (let res = (ucast multiplier * ucast multiplicand :: 128 word)
      in (ucast (drop_bit 64 res), ucast res))"

text \<open>The portable branch of \<open>mul128\<close>, with its final assertion.\<close>

definition mul128_portable :: "u64 \<Rightarrow> u64 \<Rightarrow> (u64 \<times> u64) result" where
  "mul128_portable multiplier multiplicand =
     (let a = hi_dword multiplier; b = lo_dword multiplier;
          c = hi_dword multiplicand; d = lo_dword multiplicand;
          ac = a * c; ad = a * d; bc = b * c; bd = b * d;
          adbc = ad + bc;
          adbc_carry = (if adbc < ad then 1 else 0);
          product_lo = bd + push_bit 32 adbc;
          product_lo_carry = (if product_lo < bd then 1 else 0);
          product_hi = ac + drop_bit 32 adbc + push_bit 32 adbc_carry + product_lo_carry
      in if ac \<le> product_hi then Inr (product_hi, product_lo) else Inl AssertFailed)"

text \<open>Returns the quotient and the new remainder; a zero divisor traps.\<close>

definition div_with_reminder :: "u64 \<Rightarrow> u32 \<Rightarrow> u32 \<Rightarrow> (u64 \<times> u32) result" where
  "div_with_reminder dividend divisor remainder =
     (if divisor = 0 then Inl Undefined
      else let dividend' = dividend OR push_bit 32 (ucast remainder)
           in Inr (dividend' div ucast divisor, ucast (dividend' mod ucast divisor)))"

text \<open>Returns \<open>(quotient_hi, quotient_lo, remainder)\<close>.\<close>

definition div128_32 :: "u64 \<Rightarrow> u64 \<Rightarrow> u32 \<Rightarrow> (u64 \<times> u64 \<times> u32) result" where
  "div128_32 dividend_hi dividend_lo divisor =
     bindR (div_with_reminder (hi_dword dividend_hi) divisor 0) (\<lambda>(q3, r3).
     bindR (div_with_reminder (lo_dword dividend_hi) divisor r3) (\<lambda>(q2, r2).
     bindR (div_with_reminder (hi_dword dividend_lo) divisor r2) (\<lambda>(q1, r1).
     bindR (div_with_reminder (lo_dword dividend_lo) divisor r1) (\<lambda>(q0, r0).
       Inr (push_bit 32 q3 OR q2, push_bit 32 q1 OR q0, r0)))))"

definition SWAP64 :: "u64 \<Rightarrow> u64" where
  "SWAP64 x =
     push_bit 56 (x AND 0x00000000000000ff) OR push_bit 40 (x AND 0x000000000000ff00) OR
     push_bit 24 (x AND 0x0000000000ff0000) OR push_bit 8 (x AND 0x00000000ff000000) OR
     drop_bit 8 (x AND 0x000000ff00000000) OR drop_bit 24 (x AND 0x0000ff0000000000) OR
     drop_bit 40 (x AND 0x00ff000000000000) OR drop_bit 56 (x AND 0xff00000000000000)"

definition swap64 :: "u64 \<Rightarrow> u64" where
  "swap64 x0 =
     (let x1 = push_bit 8 (x0 AND 0x00ff00ff00ff00ff) OR drop_bit 8 (x0 AND 0xff00ff00ff00ff00);
          x2 = push_bit 16 (x1 AND 0x0000ffff0000ffff) OR drop_bit 16 (x1 AND 0xffff0000ffff0000)
      in push_bit 32 x2 OR drop_bit 32 x2)"

text \<open>Memory layout of a 64-bit word on the little-endian target.\<close>

definition load64 :: "bytes \<Rightarrow> nat \<Rightarrow> u64" where
  "load64 bs i = word_of_nat (be_to_nat (rev (take 8 (drop (8 * i) bs))))"

definition store64 :: "u64 \<Rightarrow> bytes" where
  "store64 w = rev (nat_to_be 8 (unat w))"

record uint128 =
  lo :: u64
  hi :: u64

definition uint128_add :: "uint128 \<Rightarrow> uint128 \<Rightarrow> uint128" where
  "uint128_add a other =
     (let hi' = hi a + hi other; lo' = lo a + lo other
      in \<lparr>lo = lo', hi = (if lo' < lo a then hi' + 1 else hi')\<rparr>)"

definition uint128_sub :: "uint128 \<Rightarrow> uint128 \<Rightarrow> uint128" where
  "uint128_sub a other =
     (let hi' = hi a - hi other
      in \<lparr>lo = lo a - lo other, hi = (if lo a < lo other then hi' - 1 else hi')\<rparr>)"

definition uint128_less :: "uint128 \<Rightarrow> uint128 \<Rightarrow> bool" where
  "uint128_less a b = (hi a < hi b \<or> hi a = hi b \<and> lo a < lo b)"

definition cadd :: "u64 \<Rightarrow> u64 \<Rightarrow> bool" where
  "cadd a b = (a + b < a)"

definition cadc :: "u64 \<Rightarrow> u64 \<Rightarrow> bool \<Rightarrow> bool" where
  "cadc a b c = (a + b < a \<or> c \<and> a + b = - 1)"

text \<open>The hash is its 32 bytes, read as four little-endian limbs.\<close>

definition check_hash :: "bytes \<Rightarrow> u64 \<Rightarrow> bool" where
  "check_hash h difficulty =
     (let (high3, top) = mul128 (load64 h 3) difficulty
      in if high3 \<noteq> 0 then False
         else
           let (cur0, _) = mul128 (load64 h 0) difficulty;
               (high1, low1) = mul128 (load64 h 1) difficulty;
               carry1 = cadd cur0 low1;
               (high2, low2) = mul128 (load64 h 2) difficulty;
               carry2 = cadc high1 low2 carry1;
               carry3 = cadc high2 top carry2
           in \<not> carry3)"

definition hash_to_nat :: "bytes \<Rightarrow> nat" where
  "hash_to_nat h = be_to_nat (rev h)"

definition uint128_to_nat :: "uint128 \<Rightarrow> nat" where
  "uint128_to_nat a = unat (lo a) + unat (hi a) * 2 ^ 64"

section \<open>Multiplication\<close>

lemma mul128_nat:
  assumes "mul128 a b = (h, l)"
  shows "unat a * unat b = unat l + unat h * 2 ^ 64"
proof -
  let ?r = "ucast a * ucast b :: 128 word"
  have c: "unat (ucast x :: 128 word) = unat x" for x :: u64
    using u64_less[of x] by (intro unat_ucast_less) (simp del: u64_less)
  have "unat a * unat b < 2 ^ 64 * 2 ^ 64"
    using u64_less[of a] u64_less[of b] by (intro mult_strict_mono) (auto simp del: u64_less)
  then have r: "unat ?r = unat a * unat b"
    by (simp add: unat_word_ariths c)
  have hl: "h = ucast (drop_bit 64 ?r)" "l = ucast ?r"
    using assms by (auto simp: mul128_def Let_def)
  have "unat ?r div 2 ^ 64 < 2 ^ 64"
    using r \<open>unat a * unat b < 2 ^ 64 * 2 ^ 64\<close> by (metis less_mult_imp_div_less)
  then have "unat h = unat ?r div 2 ^ 64" "unat l = unat ?r mod 2 ^ 64"
    unfolding hl by (simp_all add: unsigned_ucast_eq unat_drop_bit take_bit_nat_def)
  then show ?thesis by (simp add: r)
qed

lemma add_carry64:
  "unat (x :: u64) + unat y = unat (x + y) + (if x + y < x then 2 ^ 64 else 0)"
proof (cases "unat x + unat y < 2 ^ 64")
  case True
  then have "unat (x + y) = unat x + unat y" by (simp add: unat_word_ariths)
  then show ?thesis by (simp add: word_less_nat_alt)
next
  case False
  then have "unat (x + y) = unat x + unat y - 2 ^ 64"
    using u64_less[of x] u64_less[of y]
    by (simp add: unat_word_ariths le_mod_geq del: u64_less)
  then show ?thesis
    using False u64_less[of y] by (simp add: word_less_nat_alt del: u64_less)
qed

lemma hi_dword_nat: "unat (hi_dword w) = unat w div 2 ^ 32"
  by (simp add: hi_dword_def unat_drop_bit)

lemma lo_dword_nat: "unat (lo_dword w) = unat w mod 2 ^ 32"
  using unat_and_mask_eq_mod[of w 32] by (simp add: lo_dword_def mask_eq_exp_minus_1)


lemma mul128_exact: "(case mul128 a b of (h, l) \<Rightarrow> unat l + unat h * 2 ^ 64) = unat a * unat b"
  by (cases "mul128 a b") (simp add: mul128_nat)

lemma two_limbs_inject:
  "unat (l :: u64) + unat (h :: u64) * 2 ^ 64 = unat l' + unat h' * 2 ^ 64 \<Longrightarrow> l = l' \<and> h = h'"
proof -
  assume e: "unat l + unat h * 2 ^ 64 = unat l' + unat h' * 2 ^ 64"
  have "(unat l + unat h * 2 ^ 64) mod 2 ^ 64 = unat l" "(unat l' + unat h' * 2 ^ 64) mod 2 ^ 64 = unat l'"
    "(unat l + unat h * 2 ^ 64) div 2 ^ 64 = unat h" "(unat l' + unat h' * 2 ^ 64) div 2 ^ 64 = unat h'"
    by simp_all
  then show ?thesis using e by (metis word_unat_eq_iff)
qed

lemma dword_split: "unat w = unat (hi_dword w) * 2 ^ 32 + unat (lo_dword w)"
  by (simp add: hi_dword_nat lo_dword_nat)

lemma hi_dword_less: "unat (hi_dword w) < 2 ^ 32"
  using u64_less[of w] by (simp add: hi_dword_nat less_mult_imp_div_less del: u64_less)

lemma lo_dword_less: "unat (lo_dword w) < 2 ^ 32"
  by (simp add: lo_dword_nat)

lemma unat_mult_dwords:
  assumes "unat (x :: u64) < 2 ^ 32" and "unat y < 2 ^ 32"
  shows "unat (x * y) = unat x * unat y"
proof -
  have "unat x * unat y < 2 ^ 32 * 2 ^ 32" using assms by (intro mult_strict_mono) auto
  then show ?thesis by (simp add: unat_word_ariths)
qed

lemma unat_push_bit_32: "unat (push_bit 32 (w :: u64)) = (unat w mod 2 ^ 32) * 2 ^ 32"
proof -
  have "unat (push_bit 32 w) = (unat w * 2 ^ 32) mod (2 ^ 32 * 2 ^ 32)"
    by (simp add: push_bit_eq_mult unat_word_ariths mult.commute)
  then show ?thesis by (simp add: mult_mod_left)
qed

lemma unat_sum4:
  assumes "unat (p :: u64) + unat q + unat r + unat t < 2 ^ 64"
  shows "unat (p + q + r + t) = unat p + unat q + unat r + unat t"
  using assms by (simp add: unat_word_ariths mod_simps)

lemma mul128_portable_nat:
  "\<exists>h l. mul128_portable x y = Inr (h, l) \<and> unat x * unat y = unat l + unat h * 2 ^ 64"
proof -
  define a b c d where abcd: "a = hi_dword x" "b = lo_dword x" "c = hi_dword y" "d = lo_dword y"
  define adbc where "adbc = a * d + b * c"
  define cr where "cr = (if adbc < a * d then 1 else 0 :: u64)"
  define l where "l = b * d + push_bit 32 adbc"
  define lc where "lc = (if l < b * d then 1 else 0 :: u64)"
  define h where "h = a * c + drop_bit 32 adbc + push_bit 32 cr + lc"
  define q m where qm: "q = unat adbc div 2 ^ 32" "m = unat adbc mod 2 ^ 32"
  define H where "H = unat (a * c) + q + unat cr * 2 ^ 32 + unat lc"
  note less = hi_dword_less[of x, folded abcd] lo_dword_less[of x, folded abcd]
    hi_dword_less[of y, folded abcd] lo_dword_less[of y, folded abcd]
  have prods: "unat (a * c) = unat a * unat c" "unat (a * d) = unat a * unat d"
    "unat (b * c) = unat b * unat c" "unat (b * d) = unat b * unat d"
    using less by (simp_all add: unat_mult_dwords)
  have adbc: "unat a * unat d + unat b * unat c = unat adbc + unat cr * 2 ^ 64"
    using add_carry64[of "a * d" "b * c"] by (simp add: prods adbc_def cr_def)
  have lo: "unat b * unat d + m * 2 ^ 32 = unat l + unat lc * 2 ^ 64"
    using add_carry64[of "b * d" "push_bit 32 adbc"] by (simp add: prods l_def lc_def unat_push_bit_32 qm)
  have "unat x * unat y = (unat a * 2 ^ 32 + unat b) * (unat c * 2 ^ 32 + unat d)"
    using dword_split[of x] dword_split[of y] by (simp add: abcd)
  also have "\<dots> = unat a * unat c * 2 ^ 64 + (unat a * unat d + unat b * unat c) * 2 ^ 32 + unat b * unat d"
    by (simp add: algebra_simps)
  also have "\<dots> = unat a * unat c * 2 ^ 64 + (q * 2 ^ 32 + m) * 2 ^ 32 + unat cr * 2 ^ 32 * 2 ^ 64 + unat b * unat d"
    by (simp only: adbc qm div_mult_mod_eq) (simp add: algebra_simps)
  also have "\<dots> = unat l + H * 2 ^ 64"
    using lo by (simp add: H_def prods algebra_simps)
  finally have eq: "unat x * unat y = unat l + H * 2 ^ 64" .
  have "unat x * unat y < 2 ^ 64 * 2 ^ 64"
    using u64_less[of x] u64_less[of y] by (intro mult_strict_mono) (auto simp del: u64_less)
  then have "H < 2 ^ 64" using eq by simp
  moreover have "unat (push_bit 32 cr) = unat cr * 2 ^ 32"
    by (simp add: unat_push_bit_32 cr_def)
  ultimately have hH: "unat h = H"
    unfolding h_def by (subst unat_sum4) (simp_all add: H_def unat_drop_bit qm)
  then have "a * c \<le> h" by (simp add: word_le_nat_alt H_def)
  then have "mul128_portable x y = Inr (h, l)"
    by (simp add: mul128_portable_def Let_def abcd h_def l_def lc_def cr_def adbc_def)
  then show ?thesis using eq hH by blast
qed

text \<open>Both branches of \<open>mul128\<close> compute the full 128-bit product: the portable one never fails
  its assertion and agrees with the compiler's 128-bit multiplication for all operands.\<close>

theorem mul128_branches_agree:
  "mul128_portable x y = Inr (mul128 x y) \<and>
   (case mul128 x y of (h, l) \<Rightarrow> unat l + unat h * 2 ^ 64) = unat x * unat y"
proof -
  obtain h l where p: "mul128_portable x y = Inr (h, l)" "unat x * unat y = unat l + unat h * 2 ^ 64"
    using mul128_portable_nat by blast
  obtain h' l' where m: "mul128 x y = (h', l')" by force
  have "l = l' \<and> h = h'" using mul128_nat[OF m] p(2) by (intro two_limbs_inject) simp
  then show ?thesis using p m mul128_exact[of x y] by simp
qed

section \<open>Division of a 128-bit value by a 32-bit one\<close>

lemma div_with_reminder_nat:
  assumes "unat dv < 2 ^ 32" and "unat r < unat divisor"
  shows "\<exists>q r'. div_with_reminder dv divisor r = Inr (q, r') \<and> unat r' < unat divisor \<and> unat q < 2 ^ 32 \<and>
           unat r * 2 ^ 32 + unat dv = unat q * unat divisor + unat r'"
proof -
  let ?d = "ucast divisor :: u64"
  define x where "x = dv OR push_bit 32 (ucast r)"
  have c: "unat (ucast w :: u64) = unat w" for w :: u32
    using u32_less[of w] by (intro unat_ucast_less) (simp del: u32_less)
  have "unat (ucast r :: u64) * 2 ^ 32 < 2 ^ LENGTH(64)"
    using u32_less[of r] by (simp add: c del: u32_less)
  then have x: "unat x = unat r * 2 ^ 32 + unat dv"
    unfolding x_def using assms(1) by (simp add: unat_or_push_bit c)
  have "unat x < unat divisor * 2 ^ 32"
    using assms x by simp
  then have q: "unat (x div ?d) < 2 ^ 32"
    by (simp add: unat_div_distrib c less_mult_imp_div_less mult.commute)
  have "unat (x mod ?d) < unat divisor" using assms(2) by (simp add: unat_mod_distrib c)
  moreover have "unat (ucast (x mod ?d) :: u32) = unat (x mod ?d)"
    by (rule unat_ucast_less) (use calculation u32_less[of divisor] in \<open>simp del: u32_less\<close>)
  moreover have "unat x = unat (x div ?d) * unat divisor + unat (x mod ?d)"
    by (simp add: unat_div_distrib unat_mod_distrib c)
  moreover have "divisor \<noteq> 0" using assms(2) by auto
  ultimately show ?thesis using q x by (auto simp: div_with_reminder_def Let_def x_def)
qed

lemma dwords_or: "unat q < 2 ^ 32 \<Longrightarrow> unat p < 2 ^ 32 \<Longrightarrow> unat (push_bit 32 (p :: u64) OR q) = unat p * 2 ^ 32 + unat q"
  using unat_or_push_bit[of q 32 p] by (simp add: or.commute)

lemma div128_32_nat:
  assumes "divisor \<noteq> 0"
  shows "\<exists>qh ql r. div128_32 dh dl divisor = Inr (qh, ql, r) \<and> r < divisor \<and>
           unat dh * 2 ^ 64 + unat dl = (unat qh * 2 ^ 64 + unat ql) * unat divisor + unat r"
proof -
  have d: "unat (0 :: u32) < unat divisor" using assms by (simp add: unat_gt_0)
  obtain q3 r3 where 3: "div_with_reminder (hi_dword dh) divisor 0 = Inr (q3, r3)" "unat r3 < unat divisor"
      "unat q3 < 2 ^ 32" "unat (hi_dword dh) = unat q3 * unat divisor + unat r3"
    using div_with_reminder_nat[OF hi_dword_less[of dh] d] by auto
  obtain q2 r2 where 2: "div_with_reminder (lo_dword dh) divisor r3 = Inr (q2, r2)" "unat r2 < unat divisor"
      "unat q2 < 2 ^ 32" "unat r3 * 2 ^ 32 + unat (lo_dword dh) = unat q2 * unat divisor + unat r2"
    using div_with_reminder_nat[OF lo_dword_less[of dh] 3(2)] by auto
  obtain q1 r1 where 1: "div_with_reminder (hi_dword dl) divisor r2 = Inr (q1, r1)" "unat r1 < unat divisor"
      "unat q1 < 2 ^ 32" "unat r2 * 2 ^ 32 + unat (hi_dword dl) = unat q1 * unat divisor + unat r1"
    using div_with_reminder_nat[OF hi_dword_less[of dl] 2(2)] by auto
  obtain q0 r0 where 0: "div_with_reminder (lo_dword dl) divisor r1 = Inr (q0, r0)" "unat r0 < unat divisor"
      "unat q0 < 2 ^ 32" "unat r1 * 2 ^ 32 + unat (lo_dword dl) = unat q0 * unat divisor + unat r0"
    using div_with_reminder_nat[OF lo_dword_less[of dl] 1(2)] by auto
  have "unat dh * 2 ^ 64 + unat dl =
      ((unat q3 * 2 ^ 32 + unat q2) * 2 ^ 64 + (unat q1 * 2 ^ 32 + unat q0)) * unat divisor + unat r0"
    using dword_split[of dh] dword_split[of dl] 3(4) 2(4) 1(4) 0(4) by (simp add: algebra_simps)
  then show ?thesis
    using 0 1 2 3 by (auto simp: div128_32_def dwords_or word_less_nat_alt)
qed

text \<open>\<open>div128_32\<close> is exact division: for every 128-bit dividend and non-zero 32-bit divisor it returns
  the quotient in two limbs and a remainder below the divisor.\<close>

theorem div128_32_exact:
  assumes "divisor \<noteq> 0"
  shows "\<exists>qh ql r. div128_32 dh dl divisor = Inr (qh, ql, r) \<and> r < divisor \<and>
           unat dh * 2 ^ 64 + unat dl = (unat qh * 2 ^ 64 + unat ql) * unat divisor + unat r"
  using assms by (rule div128_32_nat)

theorem div128_32_exact_witness:
  "(10 :: u32) \<noteq> 0 \<and> (\<exists>qh ql r. div128_32 7 5 10 = Inr (qh, ql, r) \<and> r < 10 \<and>
     unat (7 :: u64) * 2 ^ 64 + unat (5 :: u64) = (unat qh * 2 ^ 64 + unat ql) * unat (10 :: u32) + unat r)"
  using div128_32_exact[of 10 7 5] by simp

section \<open>The proof-of-work test\<close>

lemma cadd_nat: "cadd a b \<longleftrightarrow> 2 ^ 64 \<le> unat a + unat b"
  using add_carry64[of a b] u64_less[of "a + b"]
  by (cases "a + b < a") (simp_all add: cadd_def del: u64_less)

lemma unat_eq_max64: "w = - 1 \<longleftrightarrow> unat (w :: u64) + 1 = 2 ^ 64"
  by (auto simp: word_unat_eq_iff unsigned_minus_1_eq_mask mask_eq_exp_minus_1)

lemma cadc_nat: "cadc a b c \<longleftrightarrow> 2 ^ 64 \<le> unat a + unat b + of_bool c"
  using add_carry64[of a b] u64_less[of "a + b"]
  by (cases "a + b < a") (auto simp: cadc_def unat_eq_max64 simp del: u64_less)

lemma load64_nat: "unat (load64 h i) = be_to_nat (rev (take 8 (drop (8 * i) h)))"
proof -
  have "be_to_nat (rev (take 8 (drop (8 * i) h))) < 256 ^ length (rev (take 8 (drop (8 * i) h)))"
    by (rule be_to_nat_less)
  also have "\<dots> \<le> (256 :: nat) ^ 8" by (intro power_increasing) auto
  finally show ?thesis by (simp add: load64_def unat_of_nat)
qed

lemma hash_to_nat_limbs:
  assumes "length h = 32"
  shows "hash_to_nat h = unat (load64 h 0) + unat (load64 h 1) * 2 ^ 64
           + unat (load64 h 2) * 2 ^ 128 + unat (load64 h 3) * 2 ^ 192"
proof -
  have "h = take 8 h @ take 8 (drop 8 h) @ take 8 (drop 16 h) @ take 8 (drop 24 h)"
    using assms append_take_drop_id[of 8 h] append_take_drop_id[of 8 "drop 8 h"] append_take_drop_id[of 8 "drop 16 h"]
    by simp
  then have "rev h = rev (take 8 (drop 24 h)) @ rev (take 8 (drop 16 h)) @ rev (take 8 (drop 8 h)) @ rev (take 8 h)"
    by (metis append.assoc rev_append)
  then show ?thesis
    using assms by (simp add: hash_to_nat_def load64_nat be_to_nat_append algebra_simps)
qed

text \<open>\<open>check_hash\<close> accepts a proof-of-work hash exactly when the 256-bit little-endian number it
  denotes times the difficulty does not overflow 256 bits.\<close>

theorem check_hash_correct:
  assumes "length h = 32"
  shows "check_hash h difficulty \<longleftrightarrow> hash_to_nat h * unat difficulty < 2 ^ 256"
proof -
  obtain c0 l0 where m0: "mul128 (load64 h 0) difficulty = (c0, l0)" by force
  obtain c1 l1 where m1: "mul128 (load64 h 1) difficulty = (c1, l1)" by force
  obtain c2 l2 where m2: "mul128 (load64 h 2) difficulty = (c2, l2)" by force
  obtain c3 l3 where m3: "mul128 (load64 h 3) difficulty = (c3, l3)" by force
  define k1 k2 k3 where k: "k1 = cadd c0 l1" "k2 = cadc c1 l2 k1" "k3 = cadc c2 l3 k2"
  have N: "hash_to_nat h * unat difficulty =
      unat l0 + (unat c0 + unat l1) * 2 ^ 64 + (unat c1 + unat l2) * 2 ^ 128
      + (unat c2 + unat l3) * 2 ^ 192 + unat c3 * 2 ^ 256"
    using mul128_nat[OF m0] mul128_nat[OF m1] mul128_nat[OF m2] mul128_nat[OF m3]
    by (simp add: hash_to_nat_limbs[OF assms] algebra_simps)
  have check: "check_hash h difficulty \<longleftrightarrow> unat c3 = 0 \<and> \<not> k3"
    using m0 m1 m2 m3 by (simp add: check_hash_def k unsigned_eq_0_iff)
  show ?thesis
    unfolding check N
    using u64_less[of l0] u64_less[of c0] u64_less[of l1] u64_less[of c1] u64_less[of l2]
      k[unfolded cadd_nat cadc_nat]
    by (cases k1; cases k2; cases k3) (auto simp del: u64_less)
qed

theorem check_hash_correct_witness:
  "length (replicate 31 0 @ [16 :: byte]) = 32 \<and>
   (check_hash (replicate 31 0 @ [16]) 15 \<longleftrightarrow> hash_to_nat (replicate 31 0 @ [16]) * unat (15 :: u64) < 2 ^ 256)"
  using check_hash_correct[of "replicate 31 0 @ [16]" 15] by simp

section \<open>Memory layout and byte order\<close>

lemma length_store64 [simp]: "length (store64 w) = 8"
  by (simp add: store64_def)

lemma nat_to_be_drop_bit: "nat_to_be k (unat (v :: u64)) = rev (map (\<lambda>i. ucast (drop_bit (8 * i) v)) [0..<k])"
proof (induction k arbitrary: v)
  case 0
  then show ?case by simp
next
  case (Suc k)
  have "unat v div 256 = unat (drop_bit 8 v)" by (simp add: unat_drop_bit)
  then show ?case
    using Suc.IH[of "drop_bit 8 v"]
    by (simp add: map_upt_Suc add.commute ucast_byte_nat del: upt_Suc)
qed

lemma upt_64: "[0..<64] =
    [0, 1, 2, 3, 4, 5, 6, 7, 8, 9, 10, 11, 12, 13, 14, 15, 16, 17, 18, 19, 20, 21, 22, 23, 24, 25, 26, 27, 28, 29, 30, 31, 32, 33, 34, 35, 36, 37, 38, 39, 40, 41, 42, 43, 44, 45, 46, 47, 48, 49, 50, 51, 52, 53, 54, 55, 56, 57, 58, 59, 60, 61, 62, 63]"
  by (simp add: upt_rec)

lemma all_less_64: "(\<forall>m < (64 :: nat). P m) = list_all P [0..<64]"
  by (auto simp: list_all_iff)

lemma bit_swap64: "\<forall>m < 64. bit (swap64 w) m = bit w (8 * (7 - m div 8) + m mod 8)"
  unfolding all_less_64 upt_64
  by (simp add: swap64_def Let_def bit_simps) (simp add: numeral_2_eq_2)

lemma bit_SWAP64: "\<forall>m < 64. bit (SWAP64 w) m = bit w (8 * (7 - m div 8) + m mod 8)"
  unfolding all_less_64 upt_64
  by (simp add: SWAP64_def bit_simps) (simp add: numeral_2_eq_2)

lemma swap64_eq_SWAP64: "swap64 w = SWAP64 w"
  by (rule bit_word_eqI) (simp add: bit_swap64 bit_SWAP64)

lemma swap64_swap64: "swap64 (swap64 w) = w"
proof (rule bit_word_eqI)
  fix n :: nat
  assume "n < LENGTH(64)"
  then have n: "n < 64" by simp
  let ?m = "8 * (7 - n div 8) + n mod 8"
  have d: "n div 8 \<le> 7" using n by simp
  then have "?m div 8 = 7 - n div 8" "?m mod 8 = n mod 8" by simp_all
  moreover have "?m < 64" using d by simp
  ultimately show "bit (swap64 (swap64 w)) n = bit w n"
    using n d bit_swap64[of w] bit_swap64[of "swap64 w"] by simp
qed

lemma store64_SWAP64: "store64 (SWAP64 w) = nat_to_be 8 (unat w)"
proof -
  have "(ucast (drop_bit (8 * i) (SWAP64 w)) :: byte) = ucast (drop_bit (8 * (7 - i)) w)" if "i < 8" for i
    using that bit_SWAP64[of w] by (intro bit_word_eqI) (auto simp: bit_simps)
  then show ?thesis
    by (auto simp: store64_def nat_to_be_drop_bit rev_map rev_nth intro!: nth_equalityI)
qed

section \<open>Two-limb integers\<close>

lemma uint128_to_nat_less: "uint128_to_nat a < 2 ^ 128"
  using add_mult_pow2_less[of "unat (lo a)" 64 "unat (hi a)" 64] by (simp add: uint128_to_nat_def)

lemma uint128_mod_eqI:
  "uint128_to_nat a + 2 ^ 128 * k = n \<Longrightarrow> uint128_to_nat a = n mod 2 ^ 128"
  using uint128_to_nat_less[of a] by (metis mod_less mod_mult_self2)

lemma uint128_add_nat:
  "uint128_to_nat (uint128_add a b) = (uint128_to_nat a + uint128_to_nat b) mod 2 ^ 128"
proof -
  let ?lc = "if lo a + lo b < lo a then 1 else 0 :: u64"
  have h: "hi (uint128_add a b) = hi a + hi b + ?lc" "lo (uint128_add a b) = lo a + lo b"
    by (simp_all add: uint128_add_def Let_def)
  note c = add_carry64[of "lo a" "lo b"] add_carry64[of "hi a" "hi b"] add_carry64[of "hi a + hi b" ?lc]
  have "\<exists>k. uint128_to_nat (uint128_add a b) + 2 ^ 128 * k = uint128_to_nat a + uint128_to_nat b"
    using c unfolding uint128_to_nat_def h
    by (intro exI[of _ "(if hi a + hi b < hi a then 1 else 0) + (if hi a + hi b + ?lc < hi a + hi b then 1 else 0)"])
      (auto split: if_splits)
  then show ?thesis using uint128_mod_eqI by blast
qed

lemma uint128_to_nat_inject: "uint128_to_nat a = uint128_to_nat b \<Longrightarrow> a = b"
  unfolding uint128_to_nat_def by (drule two_limbs_inject) simp

lemma uint128_add_sub: "uint128_add (uint128_sub a b) b = a"
proof -
  have "lo a - lo b + lo b = lo a" by simp
  moreover have "lo a < lo a - lo b \<longleftrightarrow> lo a < lo b"
    using add_carry64[of "lo a - lo b" "lo b"] u64_less[of "lo b"] u64_less[of "lo a - lo b"]
    by (auto simp: word_less_nat_alt simp del: u64_less split: if_splits)
  ultimately show ?thesis
    by (simp add: uint128_add_def uint128_sub_def Let_def)
qed

text \<open>\<open>Uint128\<close> with its hand-written carry and borrow is the ring of integers modulo \<open>2 ^ 128\<close> with its
  usual order: addition is addition of the denoted numbers, subtraction is its inverse, and the
  comparison compares the numbers.\<close>

theorem uint128_arithmetic:
  "uint128_to_nat (uint128_add a b) = (uint128_to_nat a + uint128_to_nat b) mod 2 ^ 128 \<and>
   uint128_add (uint128_sub a b) b = a \<and>
   (uint128_less a b \<longleftrightarrow> uint128_to_nat a < uint128_to_nat b)"
proof -
  have "uint128_less a b \<longleftrightarrow> uint128_to_nat a < uint128_to_nat b"
    using u64_less[of "lo a"] u64_less[of "lo b"] two_limbs_inject[of "lo a" "hi a" "lo b" "hi b"]
    by (auto simp: uint128_less_def uint128_to_nat_def word_less_nat_alt word_unat_eq_iff simp del: u64_less)
  then show ?thesis using uint128_add_nat uint128_add_sub by blast
qed

end
