(* ===== verification/Codec.thy ===== *)
theory Codec
  imports Prelude
begin

text \<open>
  The contract between the serialisers and their users. A decoder consumes a prefix of the bytes
  not yet read and returns the value with the rest of the input, or an error. The locales state
  what a pair of an encoder and a decoder promises, and derive from it what the composite codecs
  need: encodings are self-delimiting and injective, and a sequence of elements decodes back
  element by element.
\<close>

section \<open>Reading primitives\<close>

type_synonym 'a reader = "bytes \<Rightarrow> ('a \<times> bytes) result"

definition read_exact :: "nat \<Rightarrow> bytes reader" where
  "read_exact n bs =
     (if length bs < n then Inl (StreamError ''IInputStream reading from empty stream'')
      else Inr (take n bs, drop n bs))"

fun read_seq :: "'a reader \<Rightarrow> nat \<Rightarrow> 'a list reader" where
  "read_seq rd 0 bs = Inr ([], bs)"
| "read_seq rd (Suc n) bs =
     bindR (rd bs) (\<lambda>(x, bs'). bindR (read_seq rd n bs') (\<lambda>(xs, bs''). Inr (x # xs, bs'')))"

lemma read_exact_append [simp]: "length xs = n \<Longrightarrow> read_exact n (xs @ rest) = Inr (xs, rest)"
  by (simp add: read_exact_def)

lemma read_exact_Inr: "read_exact n bs = Inr (xs, rest) \<longleftrightarrow> bs = xs @ rest \<and> length xs = n"
  by (auto simp: read_exact_def not_less split: if_splits)

section \<open>Codec contracts\<close>

locale prefix_codec =
  fixes enc :: "'a \<Rightarrow> bytes"
    and dec :: "bytes \<Rightarrow> ('a \<times> bytes) result"
    and valid :: "'a \<Rightarrow> bool"
  assumes dec_enc: "valid v \<Longrightarrow> dec (enc v @ rest) = Inr (v, rest)"
begin

lemma dec_enc_nil: "valid v \<Longrightarrow> dec (enc v) = Inr (v, [])"
  using dec_enc[of v "[]"] by simp

lemma enc_prefix_free:
  assumes "valid v" and "valid w" and "enc v @ x = enc w @ y"
  shows "v = w \<and> x = y"
proof -
  have "Inr (v, x) = dec (enc w @ y)" using dec_enc[OF assms(1), of x] assms(3) by simp
  also have "\<dots> = Inr (w, y)" using assms(2) by (rule dec_enc)
  finally show ?thesis by simp
qed

lemma enc_inject: "valid v \<Longrightarrow> valid w \<Longrightarrow> enc v = enc w \<longleftrightarrow> v = w"
  using enc_prefix_free[of v w "[]" "[]"] by auto

lemma read_seq_enc:
  "\<forall>v \<in> set vs. valid v \<Longrightarrow> read_seq dec (length vs) (concat (map enc vs) @ rest) = Inr (vs, rest)"
  by (induction vs) (auto simp: dec_enc)

end

locale canonical_codec = prefix_codec +
  assumes enc_dec: "dec bs = Inr (v, rest) \<Longrightarrow> bs = enc v @ rest \<and> valid v"
begin

lemma dec_iff: "dec bs = Inr (v, rest) \<longleftrightarrow> bs = enc v @ rest \<and> valid v"
  using dec_enc enc_dec by auto

lemma read_seq_dec:
  "read_seq dec n bs = Inr (vs, rest) \<Longrightarrow>
     bs = concat (map enc vs) @ rest \<and> length vs = n \<and> (\<forall>v \<in> set vs. valid v)"
  by (induction n arbitrary: bs vs) (auto simp: bindR_eq_Inr_iff dest: enc_dec)

end

end
