(* ===== verification/Varint.thy ===== *)
theory Varint
  imports Codec
begin

text \<open>
  The variable-length integer codecs of \<open>src/src/common\<close>: the 7-bit groups of \<open>Varint.hpp\<close>, once
  over a pair of iterators (\<open>read_varint\<close>) and once over an input stream (\<open>read_varint_helper\<close> of
  \<open>Streams.cpp\<close>), and the sqlite4 codec of \<open>Varint.cpp\<close> that builds the keys of the block chain
  database. An input is the list of the bytes not yet read.
\<close>

section \<open>Definitions\<close>

subsection \<open>Groups of seven bits\<close>

function write_varint :: "'a::len word \<Rightarrow> bytes" where
  "write_varint i =
     (if 0x80 \<le> unat i then ((ucast i AND 0x7f) OR 0x80) # write_varint (drop_bit 7 i)
      else [ucast i])"
  by pat_completeness auto
termination
  by (relation "measure unat") (auto simp: unat_drop_bit)

declare write_varint.simps [simp del]

definition get_varint_data :: "'a::len word \<Rightarrow> bytes" where
  "get_varint_data v = write_varint v"

text \<open>
  \<open>read_varint\<close> of \<open>Varint.hpp\<close>. The loop keeps the shift, the number of bytes read and the value
  built so far; the result is the return code together with the value left in the reference
  parameter. Running into the end of the input returns the number of bytes read so far.
\<close>

fun read_varint_loop :: "nat \<Rightarrow> nat \<Rightarrow> int \<Rightarrow> 'a::len word \<Rightarrow> bytes \<Rightarrow> int \<times> 'a word" where
  "read_varint_loop bits shift rd i [] = (rd, i)"
| "read_varint_loop bits shift rd i (b # rest) =
     (if bits \<le> shift + 7 \<and> 2 ^ (bits - shift) \<le> unat b then (- 1, i)
      else if b = 0 \<and> shift \<noteq> 0 then (- 2, i)
      else
        let i' = i OR push_bit shift (ucast (b AND 0x7f))
        in if b AND 0x80 = 0 then (rd + 1, i')
           else read_varint_loop bits (shift + 7) (rd + 1) i' rest)"

definition read_varint :: "bytes \<Rightarrow> int \<times> 'a::len word" where
  "read_varint bs = read_varint_loop LENGTH('a) 0 0 0 bs"

text \<open>
  \<open>read_varint_helper\<close> of \<open>Streams.cpp\<close>: the end of the stream is an exception, and the test for a
  superfluous zero byte comes after the value has been extended.
\<close>

fun read_varint_stream_loop :: "nat \<Rightarrow> 'a::len word \<Rightarrow> bytes \<Rightarrow> ('a word \<times> bytes) result" where
  "read_varint_stream_loop shift temp [] =
     Inl (StreamError ''IInputStream reading from empty stream'')"
| "read_varint_stream_loop shift temp (piece # rest) =
     (if LENGTH('a) - 7 \<le> shift \<and> 2 ^ (LENGTH('a) - shift) \<le> unat piece
      then Inl (RuntimeError ''read_varint, value overflow'')
      else
        let temp' = temp OR push_bit shift (ucast (piece AND 0x7f))
        in if piece AND 0x80 = 0
           then (if piece = 0 \<and> shift \<noteq> 0
                 then Inl (RuntimeError ''read_varint, invalid value representation'')
                 else Inr (temp', rest))
           else read_varint_stream_loop (shift + 7) temp' rest)"

definition read_varint_stream :: "bytes \<Rightarrow> ('a::len word \<times> bytes) result" where
  "read_varint_stream bs = read_varint_stream_loop 0 0 bs"

text \<open>\<open>common::write_varint\<close> on streams always writes the 64-bit value.\<close>

definition write_varint_stream :: "u64 \<Rightarrow> bytes" where
  "write_varint_stream v = write_varint v"

subsection \<open>The sqlite4 codec\<close>

definition uint_be_from_bytes :: "bytes \<Rightarrow> u64" where
  "uint_be_from_bytes buf = foldl (\<lambda>r b. push_bit 8 r OR ucast b) 0 buf"

fun uint_be_to_bytes :: "nat \<Rightarrow> u64 \<Rightarrow> bytes" where
  "uint_be_to_bytes 0 val = []"
| "uint_be_to_bytes (Suc si) val = uint_be_to_bytes si (drop_bit 8 val) @ [ucast val]"

definition get_varint_sqlite4_size :: "u64 \<Rightarrow> nat" where
  "get_varint_sqlite4_size val =
     (if val \<le> 240 then 1
      else if val \<le> 2287 then 2
      else if val \<le> 67823 then 3
      else if val \<le> 16777215 then 4
      else if val \<le> 4294967295 then 5
      else if val \<le> 1099511627775 then 6
      else if val \<le> 281474976710655 then 7
      else if val \<le> 72057594037927935 then 8
      else 9)"

definition read_buf :: "bytes \<Rightarrow> nat \<Rightarrow> (bytes \<times> bytes) result" where
  "read_buf begin len =
     (if length begin < len then Inl (RuntimeError ''end of read'')
      else Inr (take len begin, drop len begin))"

text \<open>Returns the value and the position reached, as the reference parameter \<open>begin\<close> does.\<close>

definition read_varint_sqlite4 :: "bytes \<Rightarrow> (u64 \<times> bytes) result" where
  "read_varint_sqlite4 begin =
     bindR (read_buf begin 1) (\<lambda>(buf0, begin1).
       let a0 = hd buf0 in
       if a0 \<le> 240 then Inr (ucast a0, begin1)
       else if a0 \<le> 248 then
         bindR (read_buf begin1 1) (\<lambda>(buf1, begin2).
           Inr (240 + 256 * (ucast a0 - 241) + ucast (hd buf1), begin2))
       else if a0 = 249 then
         bindR (read_buf begin1 2) (\<lambda>(buf, begin2).
           Inr (2288 + 256 * ucast (buf ! 0) + ucast (buf ! 1), begin2))
       else
         bindR (read_buf begin1 (3 + unat a0 - 250)) (\<lambda>(buf, begin2).
           Inr (uint_be_from_bytes buf, begin2)))"

definition read_varint_sqlite4_str :: "bytes \<Rightarrow> u64 result" where
  "read_varint_sqlite4_str str =
     bindR (read_varint_sqlite4 str) (\<lambda>(val, be).
       if be \<noteq> [] then Inl (RuntimeError ''read_varint_sqlite4 excess symbols in string'')
       else Inr val)"

definition write_varint_sqlite4 :: "u64 \<Rightarrow> bytes" where
  "write_varint_sqlite4 val =
     (if val \<le> 240 then [ucast val]
      else if val \<le> 2287 then [ucast ((val - 240) div 256 + 241), ucast (val - 240)]
      else if val \<le> 67823 then [249, ucast ((val - 2288) div 256), ucast (val - 2288)]
      else if val \<le> 16777215 then 250 # uint_be_to_bytes 3 val
      else if val \<le> 4294967295 then 251 # uint_be_to_bytes 4 val
      else if val \<le> 1099511627775 then 252 # uint_be_to_bytes 5 val
      else if val \<le> 281474976710655 then 253 # uint_be_to_bytes 6 val
      else if val \<le> 72057594037927935 then 254 # uint_be_to_bytes 7 val
      else 255 # uint_be_to_bytes 8 val)"

section \<open>Groups of seven bits: what the reader and the writer compute\<close>

text \<open>The encoding as a function of the number alone, whatever the width of the C++ type.\<close>

fun varint_of_nat :: "nat \<Rightarrow> bytes" where
  "varint_of_nat n =
     (if n < 128 then [word_of_nat n] else word_of_nat (n mod 128 + 128) # varint_of_nat (n div 128))"

declare varint_of_nat.simps [simp del]

lemma length_varint_of_nat: "n < 128 ^ k \<Longrightarrow> 1 \<le> k \<Longrightarrow> length (varint_of_nat n) \<le> k"
proof (induction k arbitrary: n)
  case (Suc k)
  show ?case
  proof (cases "n < 128")
    case False
    then have "k \<noteq> 0" using Suc.prems(1) by (cases k) auto
    moreover have "n div 128 < 128 ^ k" using Suc.prems(1) by (simp add: less_mult_imp_div_less mult.commute)
    ultimately show ?thesis using Suc.IH[of "n div 128"] False by (subst varint_of_nat.simps) auto
  qed (subst varint_of_nat.simps, simp)
qed simp

lemma varint_byte_hi:
  "((ucast (i :: 'a::len word) AND 0x7f) OR 0x80 :: byte) = word_of_nat (unat i mod 128 + 128)"
proof -
  have m: "unat (ucast i AND 0x7f :: byte) = unat (ucast i :: byte) mod 128"
    using unat_and_mask_eq_mod[of "ucast i :: byte" 7] by (simp add: mask_eq_exp_minus_1)
  have "unat (ucast i :: byte) mod 128 = unat i mod 128"
    by (cases "8 \<le> LENGTH('a)") (simp_all add: unsigned_ucast_eq take_bit_nat_def mod_mod_cancel)
  with m have m: "unat (ucast i AND 0x7f :: byte) = unat i mod 128" by simp
  have "(ucast i AND 0x7f) OR 0x80 = (ucast i AND 0x7f) OR push_bit 7 (1 :: byte)" by simp
  also have "unat \<dots> = unat i mod 128 + 128"
    using unat_or_push_bit[of "ucast i AND 0x7f :: byte" 7 1] m by simp
  finally show ?thesis by (rule word_of_nat_unatI)
qed

lemma write_varint_nat: "write_varint i = varint_of_nat (unat i)"
proof (induction i rule: write_varint.induct)
  case (1 i)
  show ?case
  proof (cases "0x80 \<le> unat i")
    case True
    then have "write_varint (drop_bit 7 i) = varint_of_nat (unat i div 128)"
      using 1 by (simp add: unat_drop_bit)
    then show ?thesis
      using True
      by (simp add: write_varint.simps[of i] varint_of_nat.simps[of "unat i"] varint_byte_hi)
  next
    case False
    then show ?thesis
      by (simp add: write_varint.simps[of i] varint_of_nat.simps[of "unat i"] word_unat_eq_iff
          unsigned_ucast_eq take_bit_nat_eq_self unat_of_nat)
  qed
qed

lemma unat_and_7f: "unat ((b :: byte) AND 0x7f) = unat b mod 128"
  using unat_and_mask_eq_mod[of b 7] by (simp add: mask_eq_exp_minus_1)

lemma byte_msb_clear_iff: "((b :: byte) AND 0x80 = 0) = (unat b < 128)"
proof -
  have "(b AND 0x7f) AND (b AND 0x80) = (b AND b) AND (0x7f AND 0x80)"
    by (simp only: ac_simps)
  then have disj: "(b AND 0x7f) AND (b AND 0x80) = 0" by simp
  have "b AND 0x7f OR (b AND 0x80) = b AND (0x7f OR 0x80)"
    by (simp only: bit.conj_disj_distrib)
  also have "(0x7f OR 0x80 :: byte) = - 1" by simp
  finally have "unat b = unat (b AND 0x7f OR (b AND 0x80))" by simp
  also have "\<dots> = unat b mod 128 + unat (b AND 0x80)"
    using unat_or_disjoint[OF disj] by (simp only: unat_and_7f)
  finally have "(unat (b AND 0x80) = 0) = (unat b < 128)"
    using mod_less_divisor[of 128 "unat b"] by (cases "unat b < 128") auto
  then show ?thesis by (simp only: unsigned_eq_0_iff)
qed

text \<open>One step of either reader extends the value by the seven bits of the byte.\<close>

lemma varint_extend:
  assumes "unat (t :: 'a::len word) < 2 ^ s" and "unat b mod 128 * 2 ^ s < 2 ^ LENGTH('a)"
  shows "unat (t OR push_bit s (ucast ((b :: byte) AND 0x7f))) = unat t + unat b mod 128 * 2 ^ s"
proof -
  have "unat b mod 128 * 1 \<le> unat b mod 128 * 2 ^ s" by (intro mult_left_mono) auto
  with assms(2) have "unat b mod 128 < 2 ^ LENGTH('a)" by linarith
  then have "unat (ucast (b AND 0x7f) :: 'a word) = unat b mod 128"
    by (simp add: unat_ucast_less unat_and_7f)
  with assms show ?thesis by (simp add: unat_or_push_bit)
qed

lemma read_varint_stream_loop_write:
  assumes "unat (t :: 'a::len word) < 2 ^ s" and "unat t + n * 2 ^ s < 2 ^ LENGTH('a)"
    and "s < LENGTH('a)" and "n = 0 \<longrightarrow> s = 0"
  shows "\<exists>v. read_varint_stream_loop s t (varint_of_nat n @ rest) = Inr (v, rest) \<and>
             unat v = unat t + n * 2 ^ s"
  using assms
proof (induction n arbitrary: s t rule: varint_of_nat.induct)
  case (1 n)
  have n2: "n * 2 ^ s < 2 ^ (LENGTH('a) - s) * 2 ^ s"
    using "1.prems"(2,3) by (simp flip: power_add)
  then have n: "n < 2 ^ (LENGTH('a) - s)" by simp
  show ?case
  proof (cases "n < 128")
    case True
    then have b: "unat (word_of_nat n :: byte) = n" by simp
    have b0: "(word_of_nat n :: byte) = 0 \<longleftrightarrow> n = 0"
      using b by (metis unsigned_0 unsigned_eq_0_iff)
    have "unat (t OR push_bit s (ucast ((word_of_nat n :: byte) AND 0x7f))) = unat t + n * 2 ^ s"
      using "1.prems"(1,2) True b by (subst varint_extend) auto
    with True n b b0 "1.prems"(4) show ?thesis
      by (auto simp: varint_of_nat.simps[of n] byte_msb_clear_iff Let_def)
  next
    case False
    then have "(2 :: nat) ^ 7 < 2 ^ (LENGTH('a) - s)" using n by simp
    then have s7: "s + 7 < LENGTH('a)"
      by (metis less_diff_conv add.commute one_less_numeral_iff power_less_imp_less_exp
          semiring_norm(76))
    define b :: byte where "b = word_of_nat (n mod 128 + 128)"
    have b: "unat b = n mod 128 + 128" unfolding b_def by (rule byte_of_nat_unat) simp
    let ?t = "t OR push_bit s (ucast (b AND 0x7f))"
    have split: "n * 2 ^ s = n mod 128 * 2 ^ s + n div 128 * 2 ^ (s + 7)"
    proof -
      have "n * 2 ^ s = (n mod 128 + n div 128 * 128) * 2 ^ s" by simp
      then show ?thesis unfolding add_mult_distrib power_add by simp
    qed
    have t: "unat ?t = unat t + n mod 128 * 2 ^ s"
      using "1.prems"(1,2) split b by (subst varint_extend) auto
    have nd: "n div 128 > 0" using False by (simp add: div_greater_zero_iff)
    have "unat ?t < 2 ^ (s + 7)" using t "1.prems"(1) add_mult_pow2_less[of _ s "n mod 128" 7] by simp
    then obtain v where
      v: "read_varint_stream_loop (s + 7) ?t (varint_of_nat (n div 128) @ rest) = Inr (v, rest)"
        "unat v = unat ?t + n div 128 * 2 ^ (s + 7)"
      using "1.IH"[of ?t "s + 7"] False s7 t split nd "1.prems"(2) by auto
    have enc: "varint_of_nat n = b # varint_of_nat (n div 128)"
      unfolding b_def using False by (subst varint_of_nat.simps) (simp only: if_False)
    have "\<not> b AND 0x80 = 0" "\<not> LENGTH('a) - 7 \<le> s"
      using s7 b by (simp_all add: byte_msb_clear_iff)
    then have "read_varint_stream_loop s t (varint_of_nat n @ rest) = Inr (v, rest)"
      using v(1) by (simp add: enc Let_def)
    moreover have "unat v = unat t + n * 2 ^ s"
      unfolding v(2) t split by simp
    ultimately show ?thesis by blast
  qed
qed

lemma varint_split: "n < 128 \<Longrightarrow> varint_of_nat (n + 128 * m) =
    (if m = 0 then [word_of_nat n] else word_of_nat (n + 128) # varint_of_nat m)"
  by (subst varint_of_nat.simps) auto

lemma read_varint_stream_loop_canonical:
  assumes "8 \<le> LENGTH('a)" and "s < LENGTH('a)" and "unat (t :: 'a::len word) < 2 ^ s"
    and "read_varint_stream_loop s t bs = Inr (v, rest)"
  shows "\<exists>n. bs = varint_of_nat n @ rest \<and> unat v = unat t + n * 2 ^ s \<and> (n = 0 \<longrightarrow> s = 0)"
  using assms(2-)
proof (induction bs arbitrary: s t)
  case Nil
  then show ?case by simp
next
  case (Cons b bs)
  let ?t = "t OR push_bit s (ucast (b AND 0x7f))"
  have ok: "\<not> (LENGTH('a) - 7 \<le> s \<and> 2 ^ (LENGTH('a) - s) \<le> unat b)"
    using Cons.prems(3) by (auto simp: Let_def split: if_splits)
  have fits: "unat b mod 128 * 2 ^ s < 2 ^ LENGTH('a)"
  proof (cases "LENGTH('a) - 7 \<le> s")
    case True
    with ok have "unat b < 2 ^ (LENGTH('a) - s)" by simp
    moreover have "unat b mod 128 \<le> unat b" by simp
    ultimately have "unat b mod 128 < 2 ^ (LENGTH('a) - s)" by linarith
    then have "unat b mod 128 * 2 ^ s < 2 ^ (LENGTH('a) - s) * 2 ^ s" by simp
    with Cons.prems(1) show ?thesis by (simp flip: power_add)
  next
    case False
    have "unat b mod 128 * 2 ^ s < 2 ^ 7 * 2 ^ s" by simp
    also have "\<dots> \<le> 2 ^ LENGTH('a)"
      using False by (simp only: power_add [symmetric]) (intro power_increasing, auto)
    finally show ?thesis .
  qed
  have t: "unat ?t = unat t + unat b mod 128 * 2 ^ s"
    using Cons.prems(2) fits by (rule varint_extend)
  show ?case
  proof (cases "unat b < 128")
    case True
    then have "v = ?t" "rest = bs" "b = 0 \<longrightarrow> s = 0"
      using Cons.prems(3) ok by (auto simp: Let_def byte_msb_clear_iff split: if_splits)
    with True t show ?thesis
      by (intro exI[of _ "unat b"])
        (auto simp: varint_of_nat.simps[of "unat b"] unsigned_eq_0_iff)
  next
    case False
    have s7: "s + 7 < LENGTH('a)"
    proof (rule ccontr)
      assume "\<not> s + 7 < LENGTH('a)"
      then have "LENGTH('a) - 7 \<le> s" "LENGTH('a) - s \<le> 7" by auto
      with ok have "unat b < 2 ^ 7"
        by (meson linorder_not_less order_trans power_increasing one_le_numeral)
      with False show False by simp
    qed
    have rec: "read_varint_stream_loop (s + 7) ?t bs = Inr (v, rest)"
      using Cons.prems(3) ok False by (auto simp: Let_def byte_msb_clear_iff split: if_splits)
    have "unat ?t < 2 ^ (s + 7)"
      using t Cons.prems(2) add_mult_pow2_less[of _ s "unat b mod 128" 7] by simp
    then obtain m where m: "bs = varint_of_nat m @ rest" "unat v = unat ?t + m * 2 ^ (s + 7)" "m \<noteq> 0"
      using Cons.IH[OF s7 _ rec] by auto
    have b: "unat b = unat b mod 128 + 128"
      using False unat_byte_less[of b] le_mod_geq[of 128 "unat b"] by (simp del: unat_byte_less)
    have "b = word_of_nat (unat b mod 128 + 128)" using b by (rule word_of_nat_unatI)
    then have "varint_of_nat (unat b mod 128 + 128 * m) = b # varint_of_nat m"
      using m(3) by (subst varint_split) (simp_all only: if_False mod_less_divisor zero_less_numeral)
    moreover have "unat v = unat t + (unat b mod 128 + 128 * m) * 2 ^ s"
      unfolding m(2) t add_mult_distrib power_add by simp
    ultimately show ?thesis using m(1,3) by (intro exI[of _ "unat b mod 128 + 128 * m"]) auto
  qed
qed

lemma read_varint_stream_write:
  "read_varint_stream (write_varint (v :: 'a::len word) @ rest) = Inr (v, rest)"
  using read_varint_stream_loop_write[of "0 :: 'a word" 0 "unat v" rest]
  by (auto simp: read_varint_stream_def write_varint_nat word_unat_eq_iff)

lemma read_varint_stream_canonical:
  assumes "8 \<le> LENGTH('a)" and "read_varint_stream bs = Inr (v :: 'a::len word, rest)"
  shows "bs = write_varint v @ rest"
  using read_varint_stream_loop_canonical[OF assms(1), of 0 0 bs v rest] assms(2)
  by (auto simp: read_varint_stream_def write_varint_nat)

text \<open>Every unsigned type of the sources is a canonical codec of its own values.\<close>

interpretation varint8: canonical_codec "write_varint :: u8 \<Rightarrow> bytes" read_varint_stream "\<lambda>_. True"
  by unfold_locales (auto simp: read_varint_stream_write read_varint_stream_canonical)

interpretation varint16: canonical_codec "write_varint :: u16 \<Rightarrow> bytes" read_varint_stream "\<lambda>_. True"
  by unfold_locales (auto simp: read_varint_stream_write read_varint_stream_canonical)

interpretation varint32: canonical_codec "write_varint :: u32 \<Rightarrow> bytes" read_varint_stream "\<lambda>_. True"
  by unfold_locales (auto simp: read_varint_stream_write read_varint_stream_canonical)

interpretation varint64: canonical_codec "write_varint :: u64 \<Rightarrow> bytes" read_varint_stream "\<lambda>_. True"
  by unfold_locales (auto simp: read_varint_stream_write read_varint_stream_canonical)

text \<open>Writing through the 64-bit \<open>write_varint\<close> of the streams and reading at the field's own width.\<close>

lemma write_varint_stream_narrow:
  "LENGTH('a) \<le> 64 \<Longrightarrow> write_varint_stream (ucast (v :: 'a::len word)) = write_varint v"
proof -
  assume "LENGTH('a) \<le> 64"
  then have "(2 :: nat) ^ LENGTH('a) \<le> 2 ^ 64" by (intro power_increasing) auto
  with unsigned_less[of v] have "unat v < 2 ^ 64" by (rule less_le_trans)
  then have "unat v < 2 ^ LENGTH(64)" by simp
  then have "unat (ucast v :: u64) = unat v" by (rule unat_ucast_less)
  then show ?thesis by (simp add: write_varint_stream_def write_varint_nat)
qed

lemma length_write_varint_stream: "length (write_varint_stream v) \<le> 10"
proof -
  have "unat v < 128 ^ 10" using u64_less[of v] by (rule less_le_trans) simp
  then show ?thesis by (simp add: write_varint_stream_def write_varint_nat length_varint_of_nat)
qed

subsection \<open>The reader over iterators against the reader over streams\<close>

lemma read_varint_loop_stream:
  assumes "7 \<le> LENGTH('a)"
  shows "case read_varint_stream_loop s (t :: 'a::len word) bs of
      Inr (v, rest) \<Rightarrow> read_varint_loop LENGTH('a) s rd t bs = (rd + int (length bs - length rest), v) \<and>
                      length rest < length bs
    | Inl (StreamError _) \<Rightarrow> fst (read_varint_loop LENGTH('a) s rd t bs) = rd + int (length bs)
    | Inl (RuntimeError m) \<Rightarrow> fst (read_varint_loop LENGTH('a) s rd t bs) =
        (if m = ''read_varint, value overflow'' then - 1 else - 2)
    | Inl _ \<Rightarrow> False"
proof (induction bs arbitrary: s t rd)
  case Nil
  then show ?case by simp
next
  case (Cons b bs)
  let ?t = "t OR push_bit s (ucast (b AND 0x7f))"
  have eq: "LENGTH('a) \<le> s + 7 \<longleftrightarrow> LENGTH('a) - 7 \<le> s" using assms by auto
  note IH = Cons.IH[of "s + 7" "rd + 1" ?t]
  show ?case
  proof (cases "LENGTH('a) - 7 \<le> s \<and> 2 ^ (LENGTH('a) - s) \<le> unat b")
    case True
    then show ?thesis using eq by simp
  next
    case False
    then show ?thesis
      using IH eq
      by (cases "b = 0"; cases "b AND 0x80 = 0")
        (auto simp: Let_def split: sum.splits cpp_error.splits)
  qed
qed

section \<open>The sqlite4 codec: round trip and order\<close>

lemma uint_be_to_bytes_nat: "uint_be_to_bytes k v = nat_to_be k (unat v)"
proof (induction k arbitrary: v)
  case 0
  then show ?case by simp
next
  case (Suc k)
  have "unat (ucast v :: byte) = unat v mod 256"
    by (simp add: unsigned_ucast_eq take_bit_nat_def)
  then have "(ucast v :: byte) = word_of_nat (unat v mod 256)" by (rule word_of_nat_unatI)
  with Suc show ?case by (simp add: unat_drop_bit)
qed

lemma uint_be_from_bytes_nat:
  "length bs \<le> 8 \<Longrightarrow> unat (uint_be_from_bytes bs) = be_to_nat bs"
proof (induction bs rule: rev_induct)
  case Nil
  then show ?case by (simp add: uint_be_from_bytes_def)
next
  case (snoc b bs)
  then have IH: "unat (uint_be_from_bytes bs) = be_to_nat bs" by simp
  have "be_to_nat bs < 256 ^ length bs" by (rule be_to_nat_less)
  also have "\<dots> \<le> (256 :: nat) ^ 7" using snoc.prems by (intro power_increasing) auto
  finally have lt: "be_to_nat bs < 256 ^ 7" .
  have b: "unat (ucast b :: u64) = unat b"
    using unat_byte_less[of b] by (intro unat_ucast_less) (simp del: unat_byte_less)
  have "uint_be_from_bytes (bs @ [b]) = ucast b OR push_bit 8 (uint_be_from_bytes bs)"
    by (simp add: uint_be_from_bytes_def or.commute)
  also have "unat \<dots> = unat b + be_to_nat bs * 256"
    using lt b IH unat_or_push_bit[of "ucast b :: u64" 8 "uint_be_from_bytes bs"] by simp
  finally show ?case by simp
qed

text \<open>The encoding as a function of the number, one line per length.\<close>

definition sqlite4_nat :: "nat \<Rightarrow> bytes" where
  "sqlite4_nat n =
     (if n \<le> 240 then [word_of_nat n]
      else if n \<le> 2287 then [word_of_nat ((n - 240) div 256 + 241), word_of_nat ((n - 240) mod 256)]
      else if n \<le> 67823 then [249, word_of_nat ((n - 2288) div 256), word_of_nat ((n - 2288) mod 256)]
      else if n \<le> 16777215 then 250 # nat_to_be 3 n
      else if n \<le> 4294967295 then 251 # nat_to_be 4 n
      else if n \<le> 1099511627775 then 252 # nat_to_be 5 n
      else if n \<le> 281474976710655 then 253 # nat_to_be 6 n
      else if n \<le> 72057594037927935 then 254 # nat_to_be 7 n
      else 255 # nat_to_be 8 n)"

lemma write_varint_sqlite4_nat: "write_varint_sqlite4 v = sqlite4_nat (unat v)"
proof (cases "v \<le> 67823")
  case False
  then show ?thesis
    by (simp add: write_varint_sqlite4_def sqlite4_nat_def word_le_nat_alt uint_be_to_bytes_nat)
next
  case True
  have sub: "k \<le> v \<Longrightarrow> unat (v - k) = unat v - unat k" for k :: u64
    by (rule unat_sub)
  show ?thesis
  proof (cases "v \<le> 2287")
    case F2: False
    have "unat (v - 2288) = unat v - 2288"
      using F2 by (subst sub) (simp_all add: word_le_nat_alt)
    moreover have "(unat v - 2288) div 256 < 256" using True by (simp add: word_le_nat_alt)
    ultimately show ?thesis
      using True F2
      by (simp add: write_varint_sqlite4_def sqlite4_nat_def word_le_nat_alt ucast_byte_nat
          unat_div_distrib)
  next
    case T2: True
    show ?thesis
    proof (cases "v \<le> 240")
      case F1: False
      have s1: "unat (v - 240) = unat v - 240"
        using F1 by (subst sub) (simp_all add: word_le_nat_alt)
      have "(unat v - 240) div 256 + 241 < 256" using T2 by (simp add: word_le_nat_alt)
      moreover have "unat ((v - 240) div 256 + 241) = (unat v - 240) div 256 + 241"
        using calculation by (simp add: unat_word_ariths unat_div_distrib s1)
      ultimately show ?thesis
        using T2 F1
        by (simp add: write_varint_sqlite4_def sqlite4_nat_def word_le_nat_alt ucast_byte_nat s1
            del: of_nat_add)
    qed (simp add: write_varint_sqlite4_def sqlite4_nat_def word_le_nat_alt)
  qed
qed

lemma read_buf_append [simp]: "length xs = n \<Longrightarrow> read_buf (xs @ rest) n = Inr (xs, rest)"
  by (simp add: read_buf_def)

lemma read_buf_Cons [simp]: "read_buf (x # rest) (Suc 0) = Inr ([x], rest)"
  by (simp add: read_buf_def)

lemma read_be_tag:
  assumes "unat tag = 247 + k" and "3 \<le> k" and "k \<le> 8" and "unat v < 256 ^ k"
  shows "read_varint_sqlite4 (tag # nat_to_be k (unat v) @ rest) = Inr (v, rest)"
proof -
  have "unat (uint_be_from_bytes (nat_to_be k (unat v))) = unat v"
    using assms(3,4) by (simp add: uint_be_from_bytes_nat)
  then have "uint_be_from_bytes (nat_to_be k (unat v)) = v" by (simp add: word_unat_eq_iff)
  moreover have "\<not> tag \<le> 240" "\<not> tag \<le> 248" "tag \<noteq> 249"
    using assms(1,2) by (auto simp: word_le_nat_alt word_unat_eq_iff)
  ultimately show ?thesis
    using assms(1,2) by (simp add: read_varint_sqlite4_def)
qed

lemma read_write_sqlite4_small:
  assumes "v \<le> 67823"
  shows "read_varint_sqlite4 (write_varint_sqlite4 v @ rest) = Inr (v, rest)"
proof -
  let ?n = "unat v"
  have le: "?n \<le> 67823" using assms by (simp add: word_le_nat_alt)
  consider "?n \<le> 240" | "240 < ?n" "?n \<le> 2287" | "2287 < ?n" by linarith
  then show ?thesis
  proof cases
    case 1
    define k where "k = ?n"
    have k: "k < 256" and k240: "k \<le> 240" using 1 by (simp_all add: k_def)
    have enc: "write_varint_sqlite4 v = [word_of_nat k]"
      using 1 unfolding k_def by (simp only: write_varint_sqlite4_nat sqlite4_nat_def if_True)
    have b: "unat (word_of_nat k :: byte) = k" using k by simp
    have "(ucast (word_of_nat k :: byte) :: u64) = word_of_nat k"
      using k b by (intro word_of_nat_unatI) (simp add: unat_ucast_less)
    moreover have "v = word_of_nat k" unfolding k_def by (rule word_of_nat_unatI) simp
    moreover have "read_varint_sqlite4 (write_varint_sqlite4 v @ rest) =
        Inr (ucast (word_of_nat k :: byte), rest)"
      unfolding enc using k240 b by (simp add: read_varint_sqlite4_def word_le_nat_alt)
    ultimately show ?thesis by simp
  next
    case 2
    define q where "q = (?n - 240) div 256"
    define r where "r = (?n - 240) mod 256"
    have q: "q < 8" using 2 by (simp add: q_def less_mult_imp_div_less)
    have r: "r < 256" by (simp add: r_def)
    have n: "?n = 240 + (256 * q + r)" using 2 by (simp add: q_def r_def)
    have enc: "write_varint_sqlite4 v = [word_of_nat (q + 241), word_of_nat r]"
      using 2 by (simp add: write_varint_sqlite4_nat sqlite4_nat_def q_def r_def del: of_nat_add)
    have a: "unat (word_of_nat (q + 241) :: byte) = q + 241" using q by (intro byte_of_nat_unat) simp
    have b: "unat (word_of_nat r :: byte) = r" using r by simp
    have v: "(240 + 256 * (ucast (word_of_nat (q + 241) :: byte) - 241) +
        ucast (word_of_nat r :: byte) :: u64) = v"
    proof -
      have "(ucast (word_of_nat (q + 241) :: byte) :: u64) = word_of_nat (q + 241)"
        using a q by (intro word_of_nat_unatI) (simp add: unat_ucast_less del: of_nat_add)
      moreover have "(ucast (word_of_nat r :: byte) :: u64) = word_of_nat r"
        using b r by (intro word_of_nat_unatI) (simp add: unat_ucast_less)
      moreover have "v = word_of_nat (240 + (256 * q + r))"
        using n by (rule word_of_nat_unatI)
      ultimately show ?thesis by simp
    qed
    show ?thesis
      using a q v by (simp add: enc read_varint_sqlite4_def word_le_nat_alt del: of_nat_add)
  next
    case 3
    define q where "q = (?n - 2288) div 256"
    define r where "r = (?n - 2288) mod 256"
    have q: "q < 256" using le 3 by (simp add: q_def less_mult_imp_div_less)
    have r: "r < 256" by (simp add: r_def)
    have n: "?n = 2288 + (256 * q + r)" using 3 by (simp add: q_def r_def)
    have enc: "write_varint_sqlite4 v = [249, word_of_nat q, word_of_nat r]"
      using 3 le by (simp add: write_varint_sqlite4_nat sqlite4_nat_def q_def r_def)
    have v: "(2288 + 256 * ucast (word_of_nat q :: byte) + ucast (word_of_nat r :: byte) :: u64) = v"
    proof -
      have "(ucast (word_of_nat k :: byte) :: u64) = word_of_nat k" if "k < 256" for k
        using that by (intro word_of_nat_unatI) (simp add: unat_ucast_less)
      moreover have "v = word_of_nat (2288 + (256 * q + r))"
        using n by (rule word_of_nat_unatI)
      ultimately show ?thesis using q r by simp
    qed
    show ?thesis
      using v by (simp add: enc read_varint_sqlite4_def read_buf_def word_le_nat_alt)
  qed
qed

lemma read_write_sqlite4:
  "read_varint_sqlite4 (write_varint_sqlite4 v @ rest) = Inr (v, rest)"
proof (cases "v \<le> 67823")
  case True
  then show ?thesis by (rule read_write_sqlite4_small)
next
  case False
  have big: "unat v < 256 ^ 8" using unsigned_less[of v] by simp
  consider "unat v \<le> 16777215" | "16777215 < unat v" "unat v \<le> 4294967295"
    | "4294967295 < unat v" "unat v \<le> 1099511627775"
    | "1099511627775 < unat v" "unat v \<le> 281474976710655"
    | "281474976710655 < unat v" "unat v \<le> 72057594037927935" | "72057594037927935 < unat v"
    by linarith
  then show ?thesis
    using False big read_be_tag[of 250 3 v rest] read_be_tag[of 251 4 v rest]
      read_be_tag[of 252 5 v rest] read_be_tag[of 253 6 v rest]
      read_be_tag[of 254 7 v rest] read_be_tag[of 255 8 v rest]
    by cases (simp_all add: write_varint_sqlite4_nat sqlite4_nat_def word_le_nat_alt)
qed

interpretation sqlite4: prefix_codec write_varint_sqlite4 read_varint_sqlite4 "\<lambda>_. True"
  by unfold_locales (rule read_write_sqlite4)

text \<open>
  Byte strings are compared as the database compares its keys: the first difference decides, and a
  proper prefix comes first.
\<close>

fun key_less :: "bytes \<Rightarrow> bytes \<Rightarrow> bool" where
  "key_less xs [] = False"
| "key_less [] (y # ys) = True"
| "key_less (x # xs) (y # ys) = (x < y \<or> x = y \<and> key_less xs ys)"

lemma key_less_append_same [simp]: "key_less (xs @ ys) (xs @ zs) = key_less ys zs"
  by (induction xs) auto

lemma key_less_be:
  assumes "m < n" and "n < 256 ^ k"
  shows "key_less (nat_to_be k m @ x) (nat_to_be k n @ y)"
  using assms
proof (induction k arbitrary: m n x y)
  case 0
  then show ?case by simp
next
  case (Suc k)
  show ?case
  proof (cases "m div 256 < n div 256")
    case True
    moreover have "n div 256 < 256 ^ k"
      using Suc.prems(2) by (simp add: less_mult_imp_div_less mult.commute)
    ultimately show ?thesis using Suc.IH[of "m div 256" "n div 256"] by simp
  next
    case False
    then have d: "m div 256 = n div 256" using Suc.prems(1) by (meson div_le_mono le_neq_implies_less less_imp_le)
    have "m = m div 256 * 256 + m mod 256" "n = n div 256 * 256 + n mod 256" by simp_all
    with d Suc.prems(1) have "m mod 256 < n mod 256" by linarith
    then have "(word_of_nat (m mod 256) :: byte) < word_of_nat (n mod 256)"
      by (simp add: word_less_nat_alt)
    then show ?thesis by (simp add: d)
  qed
qed

lemma nat_to_be_2: "a div 256 + c < 256 \<Longrightarrow>
    nat_to_be 2 (a + c * 256) = [word_of_nat (a div 256 + c), word_of_nat (a mod 256)]"
  by (simp add: numeral_2_eq_2 add.commute del: of_nat_add)

lemma sqlite4_nat_less_small:
  assumes "m < n" and "n \<le> 67823"
  shows "key_less (sqlite4_nat m @ x) (sqlite4_nat n @ y)"
proof -
  have less: "(word_of_nat a :: byte) < word_of_nat b" if "a < b" "b < 256" for a b
    using that by (simp add: word_less_nat_alt)
  consider "n \<le> 240" | "240 < n" "n \<le> 2287" "m \<le> 240" | "240 < m" "n \<le> 2287"
    | "2287 < n" "m \<le> 2287" | "2287 < m" using assms by linarith
  then show ?thesis
  proof cases
    case 1
    then show ?thesis using assms less[of m n] by (simp add: sqlite4_nat_def)
  next
    case 2
    have "(n - 240) div 256 + 241 < 256" using 2 by (simp add: less_mult_imp_div_less)
    then show ?thesis
      using 2 less[of m "(n - 240) div 256 + 241"] by (simp add: sqlite4_nat_def del: of_nat_add)
  next
    case 3
    have q: "(k - 240) div 256 + 241 < 256" if "k \<le> 2287" for k :: nat
      using that by (simp add: less_mult_imp_div_less)
    have "key_less (nat_to_be 2 (m - 240 + 241 * 256) @ x) (nat_to_be 2 (n - 240 + 241 * 256) @ y)"
      using assms 3 by (intro key_less_be) auto
    then have "key_less ([word_of_nat ((m - 240) div 256 + 241), word_of_nat ((m - 240) mod 256)] @ x)
        ([word_of_nat ((n - 240) div 256 + 241), word_of_nat ((n - 240) mod 256)] @ y)"
      using 3 assms q[of m] q[of n] by (simp only: nat_to_be_2)
    then show ?thesis using 3 assms by (simp add: sqlite4_nat_def del: of_nat_add)
  next
    case 4
    have "(m - 240) div 256 + 241 < 249" if "240 < m" using 4 that by (simp add: less_mult_imp_div_less)
    then show ?thesis
      using 4 assms less[of m 249] less[of "(m - 240) div 256 + 241" 249]
      by (auto simp: sqlite4_nat_def simp del: of_nat_add)
  next
    case 5
    have "(k - 2288) div 256 < 256" if "k \<le> 67823" for k :: nat
      using that by (simp add: less_mult_imp_div_less)
    moreover have "key_less (nat_to_be 2 (m - 2288 + 0 * 256) @ x) (nat_to_be 2 (n - 2288 + 0 * 256) @ y)"
      using assms 5 by (intro key_less_be) auto
    ultimately show ?thesis using 5 assms by (simp add: sqlite4_nat_def nat_to_be_2[where c = 0, simplified])
  qed
qed

text \<open>Beyond 67823 the first byte is a tag that grows with the length.\<close>

definition sqlite4_len :: "nat \<Rightarrow> nat" where
  "sqlite4_len n =
     (if n \<le> 16777215 then 3 else if n \<le> 4294967295 then 4 else if n \<le> 1099511627775 then 5
      else if n \<le> 281474976710655 then 6 else if n \<le> 72057594037927935 then 7 else 8)"

lemma sqlite4_nat_big: "67823 < n \<Longrightarrow> sqlite4_nat n = word_of_nat (247 + sqlite4_len n) # nat_to_be (sqlite4_len n) n"
  by (simp add: sqlite4_nat_def sqlite4_len_def)

lemma sqlite4_len_mono: "m \<le> n \<Longrightarrow> sqlite4_len m \<le> sqlite4_len n"
  by (simp add: sqlite4_len_def)

lemma sqlite4_len_fits: "n < 256 ^ 8 \<Longrightarrow> n < 256 ^ sqlite4_len n"
  by (simp add: sqlite4_len_def)

lemma sqlite4_len_bounds: "3 \<le> sqlite4_len n" "sqlite4_len n \<le> 8"
  by (simp_all add: sqlite4_len_def)

lemma sqlite4_nat_hd_small:
  assumes "n \<le> 67823"
  shows "\<exists>b bs. sqlite4_nat n = b # bs \<and> unat b \<le> 249"
proof -
  have "(n - 240) div 256 + 241 < 249" if "n \<le> 2287" using that by (simp add: less_mult_imp_div_less)
  then have "unat (word_of_nat ((n - 240) div 256 + 241) :: byte) \<le> 249" if "n \<le> 2287"
    using that by (subst byte_of_nat_unat) auto
  then show ?thesis using assms by (auto simp: sqlite4_nat_def)
qed

lemma sqlite4_nat_less:
  assumes "m < n" and "n < 256 ^ 8"
  shows "key_less (sqlite4_nat m @ x) (sqlite4_nat n @ y)"
proof (cases "n \<le> 67823")
  case True
  with assms(1) show ?thesis by (rule sqlite4_nat_less_small)
next
  case n: False
  have tn: "unat (word_of_nat (247 + sqlite4_len k) :: byte) = 247 + sqlite4_len k" for k
    using sqlite4_len_bounds[of k] by (intro byte_of_nat_unat) simp
  show ?thesis
  proof (cases "m \<le> 67823")
    case True
    then obtain b bs where b: "sqlite4_nat m = b # bs" "unat b \<le> 249"
      using sqlite4_nat_hd_small by blast
    then have "b < word_of_nat (247 + sqlite4_len n)"
      using tn[of n] sqlite4_len_bounds(1)[of n] by (simp only: word_less_nat_alt)
    then show ?thesis using n b(1) by (simp add: sqlite4_nat_big del: of_nat_add)
  next
    case m: False
    show ?thesis
    proof (cases "sqlite4_len m = sqlite4_len n")
      case True
      have "key_less (nat_to_be (sqlite4_len n) m @ x) (nat_to_be (sqlite4_len n) n @ y)"
        using assms sqlite4_len_fits by (intro key_less_be) auto
      then show ?thesis using m n True by (simp add: sqlite4_nat_big del: of_nat_add)
    next
      case False
      then have "sqlite4_len m < sqlite4_len n" using assms(1) sqlite4_len_mono[of m n] by simp
      then have "(word_of_nat (247 + sqlite4_len m) :: byte) < word_of_nat (247 + sqlite4_len n)"
        by (simp only: word_less_nat_alt tn)
      then show ?thesis using m n by (simp add: sqlite4_nat_big del: of_nat_add)
    qed
  qed
qed

lemma write_varint_sqlite4_less:
  assumes "a < b"
  shows "key_less (write_varint_sqlite4 a @ x) (write_varint_sqlite4 b @ y)"
proof -
  have "unat b < 256 ^ 8" using unsigned_less[of b] by simp
  with assms show ?thesis
    unfolding write_varint_sqlite4_nat word_less_nat_alt by (intro sqlite4_nat_less)
qed

lemma length_write_varint_sqlite4: "length (write_varint_sqlite4 v) = get_varint_sqlite4_size v"
  by (simp add: write_varint_sqlite4_def get_varint_sqlite4_size_def uint_be_to_bytes_nat)

section \<open>Properties\<close>

text \<open>
  Reading back what the stream writer wrote returns the value and leaves exactly the bytes that
  followed it, for every unsigned type of at most 64 bits (the writer always widens to 64 bits).
\<close>

theorem varint_stream_roundtrip:
  assumes "LENGTH('a) \<le> 64"
  shows "read_varint_stream (write_varint_stream (ucast (v :: 'a::len word)) @ rest) = Inr (v, rest)"
  using assms by (simp add: write_varint_stream_narrow read_varint_stream_write)

theorem varint_stream_roundtrip_witness:
  "LENGTH(16) \<le> 64 \<and>
   read_varint_stream (write_varint_stream (ucast (300 :: u16)) @ [7]) = Inr (300 :: u16, [7])"
  using varint_stream_roundtrip[of "300 :: u16" "[7]"] by simp

text \<open>
  The stream reader accepts canonical encodings only. Whatever it consumed is the encoding the
  writer produces for the value it returned, so no value has two accepted encodings.
\<close>

theorem varint_stream_canonical:
  assumes "8 \<le> LENGTH('a)" and "read_varint_stream bs = Inr (v :: 'a::len word, rest)"
  shows "bs = write_varint v @ rest"
  using assms by (rule read_varint_stream_canonical)

theorem varint_stream_canonical_witness:
  "read_varint_stream [0xac, 0x02, 9] = Inr (300 :: u32, [9]) \<and>
   [0xac, 0x02, 9] = write_varint (300 :: u32) @ [9]"
proof -
  have r: "read_varint_stream [0xac, 0x02, 9] = Inr (300 :: u32, [9])"
    by (simp add: read_varint_stream_def)
  have "[0xac, 0x02, 9] = write_varint (300 :: u32) @ [9]"
    by (rule varint_stream_canonical[OF _ r]) simp
  with r show ?thesis by (rule conjI)
qed

text \<open>
  The reader over iterators agrees with the stream reader: the same value and count on success,
  -1 on overflow, -2 on a superfluous zero byte. Only a truncated input differs: where the stream
  reader throws, the iterator reader returns the number of bytes as if it had succeeded.
\<close>

theorem read_varint_agrees_with_stream:
  assumes "8 \<le> LENGTH('a)"
  shows "case (read_varint_stream bs :: ('a::len word \<times> bytes) result) of
      Inr (v, rest) \<Rightarrow> read_varint bs = (int (length bs - length rest), v)
    | Inl (StreamError _) \<Rightarrow> fst (read_varint bs :: int \<times> 'a word) = int (length bs)
    | Inl e \<Rightarrow> fst (read_varint bs :: int \<times> 'a word) =
        (if e = RuntimeError ''read_varint, value overflow'' then - 1 else - 2)"
  using read_varint_loop_stream[where s = 0 and t = "0 :: 'a word" and bs = bs and rd = 0] assms
  by (auto simp: read_varint_def read_varint_stream_def split: sum.splits cpp_error.splits)

theorem read_varint_agrees_with_stream_witness:
  "(read_varint_stream [0x80] :: (u64 \<times> bytes) result) =
     Inl (StreamError ''IInputStream reading from empty stream'') \<and>
   fst (read_varint [0x80] :: int \<times> u64) = 1"
  using read_varint_agrees_with_stream[where 'a = 64, of "[0x80]"]
  by (simp add: read_varint_stream_def)

text \<open>
  The sqlite4 codec reads back what it wrote, whatever follows, and the encoding has the length
  that \<open>get_varint_sqlite4_size\<close> announces.
\<close>

theorem varint_sqlite4_roundtrip:
  "read_varint_sqlite4 (write_varint_sqlite4 v @ rest) = Inr (v, rest) \<and>
   read_varint_sqlite4_str (write_varint_sqlite4 v) = Inr v \<and>
   length (write_varint_sqlite4 v) = get_varint_sqlite4_size v"
  using sqlite4.dec_enc_nil[of v]
  by (simp add: sqlite4.dec_enc length_write_varint_sqlite4 read_varint_sqlite4_str_def)

text \<open>
  Sqlite4 keys sort as the numbers they encode, even with arbitrary suffixes, so walking the
  database keys under a prefix visits heights and output indices in numeric order.
\<close>

theorem varint_sqlite4_order:
  assumes "a < b"
  shows "key_less (write_varint_sqlite4 a @ x) (write_varint_sqlite4 b @ y)"
  using assms by (rule write_varint_sqlite4_less)

theorem varint_sqlite4_order_witness:
  "(255 :: u64) < 256 \<and> key_less (write_varint_sqlite4 255 @ [9, 9]) (write_varint_sqlite4 256 @ [])"
  using varint_sqlite4_order[of 255 256 "[9, 9]" "[]"] by simp

end
