(* ===== verification/Keccak.thy ===== *)
theory Keccak
  imports IntUtil
begin

text \<open>
  \<open>cn_fast_hash\<close>: the permutation and the sponge of \<open>src/src/crypto/keccak.c\<close>, the wrappers of
  \<open>src/src/crypto/hash.c\<close>. The state is the list of the 25 lanes of \<open>st\<close>, updated in place as the loops
  do; words are laid out in memory little end first. A \<open>Hash\<close> is its 32 bytes.
\<close>

section \<open>Definitions\<close>

definition keccakf_rndc :: "u64 list" where
  "keccakf_rndc =
    [0x0000000000000001, 0x0000000000008082, 0x800000000000808a,
     0x8000000080008000, 0x000000000000808b, 0x0000000080000001,
     0x8000000080008081, 0x8000000000008009, 0x000000000000008a,
     0x0000000000000088, 0x0000000080008009, 0x000000008000000a,
     0x000000008000808b, 0x800000000000008b, 0x8000000000008089,
     0x8000000000008003, 0x8000000000008002, 0x8000000000000080,
     0x000000000000800a, 0x800000008000000a, 0x8000000080008081,
     0x8000000000008080, 0x0000000080000001, 0x8000000080008008]"

definition keccakf_rotc :: "nat list" where
  "keccakf_rotc =
    [1, 3, 6, 10, 15, 21, 28, 36, 45, 55, 2, 14,
     27, 41, 56, 8, 25, 43, 62, 18, 39, 61, 20, 44]"

definition keccakf_piln :: "nat list" where
  "keccakf_piln =
    [10, 7, 11, 17, 18, 3, 5, 16, 8, 21, 24, 4,
     15, 23, 19, 13, 12, 2, 20, 14, 22, 9, 6, 1]"

definition ROTL64 :: "u64 \<Rightarrow> nat \<Rightarrow> u64" where
  "ROTL64 x y = push_bit y x OR drop_bit (64 - y) x"

type_synonym keccak_state = "u64 list"

definition keccak_theta :: "keccak_state \<Rightarrow> keccak_state" where
  "keccak_theta st =
     (let bc = map (\<lambda>i. st ! i XOR st ! (i + 5) XOR st ! (i + 10) XOR st ! (i + 15) XOR st ! (i + 20)) [0..<5]
      in foldl (\<lambda>st i. let t = bc ! ((i + 4) mod 5) XOR ROTL64 (bc ! ((i + 1) mod 5)) 1
                       in foldl (\<lambda>st j. st[j + i := st ! (j + i) XOR t]) st [0, 5, 10, 15, 20])
           st [0..<5])"

definition keccak_rho_pi :: "keccak_state \<Rightarrow> keccak_state" where
  "keccak_rho_pi st =
     fst (foldl (\<lambda>(st, t) i. let j = keccakf_piln ! i
                            in (st[j := ROTL64 t (keccakf_rotc ! i)], st ! j))
            (st, st ! 1) [0..<24])"

definition keccak_chi :: "keccak_state \<Rightarrow> keccak_state" where
  "keccak_chi st =
     foldl (\<lambda>st j. let bc = map (\<lambda>i. st ! (j + i)) [0..<5]
                   in foldl (\<lambda>st i. st[j + i := st ! (j + i) XOR (NOT (bc ! ((i + 1) mod 5)) AND bc ! ((i + 2) mod 5))])
                        st [0..<5])
       st [0, 5, 10, 15, 20]"

definition keccak_iota :: "nat \<Rightarrow> keccak_state \<Rightarrow> keccak_state" where
  "keccak_iota round st = st[0 := st ! 0 XOR keccakf_rndc ! round]"

definition keccakf :: "keccak_state \<Rightarrow> nat \<Rightarrow> keccak_state" where
  "keccakf st rounds =
     foldl (\<lambda>st round. keccak_iota round (keccak_chi (keccak_rho_pi (keccak_theta st)))) st [0..<rounds]"

definition keccak_absorb :: "nat \<Rightarrow> bytes \<Rightarrow> keccak_state \<Rightarrow> keccak_state" where
  "keccak_absorb rsizw inp st = foldl (\<lambda>st i. st[i := st ! i XOR load64 inp i]) st [0..<rsizw]"

text \<open>
  The loop over the whole blocks, then the last block with its padding. \<open>rsiz\<close> is the rate in bytes;
  the buffer \<open>temp\<close> has room for rates from 1 to 144.
\<close>

definition keccak_last :: "nat \<Rightarrow> bytes \<Rightarrow> bytes" where
  "keccak_last rsiz inp =
     (let temp = inp @ [1] @ replicate (rsiz - (length inp + 1)) 0
      in temp[rsiz - 1 := temp ! (rsiz - 1) OR 0x80])"

function keccak_loop :: "nat \<Rightarrow> bytes \<Rightarrow> keccak_state \<Rightarrow> keccak_state" where
  "keccak_loop rsiz inp st =
     (if 0 < rsiz \<and> rsiz \<le> length inp
      then keccak_loop rsiz (drop rsiz inp) (keccakf (keccak_absorb (rsiz div 8) inp st) 24)
      else keccakf (keccak_absorb (rsiz div 8) (keccak_last rsiz inp) st) 24)"
  by pat_completeness auto
termination
  by (relation "measure (\<lambda>(rsiz, inp, st). length inp)") auto

declare keccak_loop.simps [simp del]

definition keccak :: "bytes \<Rightarrow> nat \<Rightarrow> bytes" where
  "keccak inp mdlen =
     (let rsiz = (if mdlen = 200 then 136 else 200 - 2 * mdlen)
      in take mdlen (concat (map store64 (keccak_loop rsiz inp (replicate 25 0)))))"

definition keccak1600 :: "bytes \<Rightarrow> bytes" where
  "keccak1600 inp = keccak inp 200"

definition hash_process :: "bytes \<Rightarrow> bytes" where
  "hash_process buf = keccak1600 buf"

definition cn_fast_hash :: "bytes \<Rightarrow> bytes" where
  "cn_fast_hash data = take 32 (hash_process data)"

section \<open>Lengths\<close>

lemma foldl_length_inv:
  "(\<And>s x. length (f s x) = length s) \<Longrightarrow> length (foldl f s xs) = length s"
  by (induction xs arbitrary: s) auto

lemma length_keccak_theta [simp]: "length (keccak_theta st) = length st"
  unfolding keccak_theta_def Let_def by (intro foldl_length_inv) simp

lemma length_keccak_chi [simp]: "length (keccak_chi st) = length st"
  unfolding keccak_chi_def Let_def by (intro foldl_length_inv) simp

lemma length_keccak_rho_pi [simp]: "length (keccak_rho_pi st) = length st"
proof -
  have "length (fst (foldl (\<lambda>(st, t) i. let j = keccakf_piln ! i
          in (st[j := ROTL64 t (keccakf_rotc ! i)], st ! j)) p xs)) = length (fst p)" for p :: "keccak_state \<times> u64" and xs
    by (induction xs arbitrary: p) (auto simp: Let_def split: prod.splits)
  then show ?thesis by (simp add: keccak_rho_pi_def)
qed

lemma length_keccakf [simp]: "length (keccakf st rounds) = length st"
  unfolding keccakf_def by (intro foldl_length_inv) (simp add: keccak_iota_def)

lemma length_keccak_absorb [simp]: "length (keccak_absorb n inp st) = length st"
  unfolding keccak_absorb_def by (intro foldl_length_inv) simp

lemma length_keccak_loop [simp]: "length (keccak_loop rsiz inp st) = length st"
  by (induction rsiz inp st rule: keccak_loop.induct) (subst keccak_loop.simps, simp)

lemma length_concat_store64: "length (concat (map store64 ws)) = 8 * length ws"
  by (induction ws) auto

lemma length_cn_fast_hash [simp]: "length (cn_fast_hash d) = 32"
  by (simp add: cn_fast_hash_def hash_process_def keccak1600_def keccak_def length_concat_store64)

section \<open>The permutation against its specification\<close>

text \<open>
  The step mappings of the Keccak specification on the 5 by 5 array of lanes, lane \<open>(x, y)\<close> being
  element \<open>x + 5 * y\<close>. The rotation offset of a lane is the triangular number of its place on the
  walk \<open>(x, y) \<mapsto> (y, 2 * x + 3 * y)\<close> from \<open>(1, 0)\<close>.
\<close>

definition lane :: "keccak_state \<Rightarrow> nat \<Rightarrow> nat \<Rightarrow> u64" where
  "lane st x y = st ! (x mod 5 + 5 * (y mod 5))"

definition of_lanes :: "(nat \<Rightarrow> nat \<Rightarrow> u64) \<Rightarrow> keccak_state" where
  "of_lanes f = map (\<lambda>k. f (k mod 5) (k div 5)) [0..<25]"

definition spec_theta :: "keccak_state \<Rightarrow> keccak_state" where
  "spec_theta st =
     (let C = (\<lambda>x. lane st x 0 XOR lane st x 1 XOR lane st x 2 XOR lane st x 3 XOR lane st x 4)
      in of_lanes (\<lambda>x y. lane st x y XOR (C ((x + 4) mod 5) XOR ROTL64 (C ((x + 1) mod 5)) 1)))"

fun walk :: "nat \<Rightarrow> nat \<times> nat" where
  "walk 0 = (1, 0)"
| "walk (Suc t) = (case walk t of (x, y) \<Rightarrow> (y, (2 * x + 3 * y) mod 5))"

definition offset :: "nat \<Rightarrow> nat \<Rightarrow> nat" where
  "offset x y =
     (case List.find (\<lambda>t. walk t = (x, y)) [0..<24] of
        Some t \<Rightarrow> ((t + 1) * (t + 2) div 2) mod 64
      | None \<Rightarrow> 0)"

text \<open>Lane \<open>(x, y)\<close> goes to \<open>(y, 2 * x + 3 * y)\<close>; conversely \<open>(x, y)\<close> comes from \<open>(x + 3 * y, x)\<close>.\<close>

definition spec_rho_pi :: "keccak_state \<Rightarrow> keccak_state" where
  "spec_rho_pi st =
     of_lanes (\<lambda>x y. let x0 = (x + 3 * y) mod 5
                     in if (x0, x) = (0, 0) then lane st 0 0 else ROTL64 (lane st x0 x) (offset x0 x))"

definition spec_chi :: "keccak_state \<Rightarrow> keccak_state" where
  "spec_chi st = of_lanes (\<lambda>x y. lane st x y XOR (NOT (lane st (x + 1) y) AND lane st (x + 2) y))"

lemma list25_cases:
  assumes "length st = 25"
  obtains a0 a1 a2 a3 a4 a5 a6 a7 a8 a9 a10 a11 a12 a13 a14 a15 a16 a17 a18 a19 a20 a21 a22 a23 a24
  where "st = [a0, a1, a2, a3, a4, a5, a6, a7, a8, a9, a10, a11, a12, a13, a14, a15, a16, a17, a18, a19,
    a20, a21, a22, a23, a24]"
  using assms by (auto simp: numeral_eq_Suc length_Suc_conv)

lemma upt_5: "[0..<5] = [0, 1, 2, 3, 4]"
  by (simp add: upt_rec)

lemma upt_24: "[0..<24] = [0, 1, 2, 3, 4, 5, 6, 7, 8, 9, 10, 11, 12, 13, 14, 15, 16, 17, 18, 19, 20, 21, 22, 23]"
  by (simp add: upt_rec)

lemma upt_25: "[0..<25] = [0, 1, 2, 3, 4, 5, 6, 7, 8, 9, 10, 11, 12, 13, 14, 15, 16, 17, 18, 19, 20, 21, 22, 23, 24]"
  by (simp add: upt_rec)

lemma keccak_theta_spec: "length st = 25 \<Longrightarrow> keccak_theta st = spec_theta st"
  by (erule list25_cases)
    (simp add: keccak_theta_def spec_theta_def of_lanes_def lane_def upt_5 upt_25 Let_def)

lemma keccak_chi_spec: "length st = 25 \<Longrightarrow> keccak_chi st = spec_chi st"
  by (erule list25_cases)
    (simp add: keccak_chi_def spec_chi_def of_lanes_def lane_def upt_5 upt_25 Let_def)

lemma offset_values:
  "offset 1 0 = 1" "offset 2 0 = 62" "offset 3 0 = 28" "offset 4 0 = 27"
  "offset 0 1 = 36" "offset 1 1 = 44" "offset 2 1 = 6" "offset 3 1 = 55" "offset 4 1 = 20"
  "offset 0 2 = 3" "offset 1 2 = 10" "offset 2 2 = 43" "offset 3 2 = 25" "offset 4 2 = 39"
  "offset 0 3 = 41" "offset 1 3 = 45" "offset 2 3 = 15" "offset 3 3 = 21" "offset 4 3 = 8"
  "offset 0 4 = 18" "offset 1 4 = 2" "offset 2 4 = 61" "offset 3 4 = 56" "offset 4 4 = 14"
  by code_simp+

lemmas offset_simps [simp] = offset_values offset_values [unfolded One_nat_def]

lemma keccak_rho_pi_spec: "length st = 25 \<Longrightarrow> keccak_rho_pi st = spec_rho_pi st"
  by (erule list25_cases)
    (simp add: keccak_rho_pi_def spec_rho_pi_def of_lanes_def lane_def upt_24 upt_25 Let_def
      keccakf_piln_def keccakf_rotc_def)

text \<open>A state of 25 lanes under \<open>keccakf\<close> goes through the step mappings of the Keccak specification: the
  in-place loops of each round compute theta, rho with pi, chi and iota on the 5 by 5 array of lanes,
  with the rotation offsets and the order of lanes the specification prescribes.\<close>

theorem keccakf_follows_specification:
  assumes "length st = 25"
  shows "keccakf st (Suc r) = keccak_iota r (spec_chi (spec_rho_pi (spec_theta (keccakf st r))))"
proof -
  let ?s = "keccakf st r"
  have "keccakf st (Suc r) = keccak_iota r (keccak_chi (keccak_rho_pi (keccak_theta ?s)))"
    by (simp add: keccakf_def)
  moreover have "length ?s = 25" using assms by simp
  ultimately show ?thesis
    by (simp flip: keccak_theta_spec keccak_rho_pi_spec keccak_chi_spec)
qed

theorem keccakf_follows_specification_witness:
  "length (replicate 25 (7 :: u64)) = 25 \<and>
   keccakf (replicate 25 7) (Suc 3) =
     keccak_iota 3 (spec_chi (spec_rho_pi (spec_theta (keccakf (replicate 25 7) 3))))"
  using keccakf_follows_specification[of "replicate 25 7" 3] by simp

end
