(* ===== verification/Base58.thy ===== *)
theory Base58
  imports IntUtil Varint Keccak
begin

text \<open>
  \<open>src/src/common/Base58.cpp\<close>: the block-wise base 58 codec and the checksummed address format built
  on it. Encoding works on blocks of 8 bytes, each written as 11 characters, with a shorter last
  block; the tables are built the way the static constructors build them. A \<open>false\<close> of the decoders
  is \<open>None\<close>; \<open>Inl\<close> stands for a failed assertion or a write outside the result.
\<close>

section \<open>Definitions\<close>

definition alphabet :: string where
  "alphabet = ''123456789ABCDEFGHJKLMNPQRSTUVWXYZabcdefghijkmnopqrstuvwxyz''"

definition alphabet_size :: nat where
  "alphabet_size = 58"

definition encoded_block_sizes :: "nat list" where
  "encoded_block_sizes = [0, 2, 3, 5, 6, 7, 9, 10, 11]"

definition reverse_alphabet_data :: "int list" where
  "reverse_alphabet_data =
     foldl (\<lambda>m i. m[of_char (alphabet ! i) - of_char (alphabet ! 0) := int i])
       (replicate (of_char (alphabet ! (alphabet_size - 1)) - of_char (alphabet ! 0) + 1) (- 1))
       [0..<alphabet_size]"

text \<open>Characters below the first letter give a huge index in the source.\<close>

definition reverse_alphabet :: "char \<Rightarrow> int" where
  "reverse_alphabet letter =
     (if of_char letter < (of_char (alphabet ! 0) :: nat) then - 1
      else let idx = of_char letter - of_char (alphabet ! 0)
           in if idx < length reverse_alphabet_data then reverse_alphabet_data ! idx else - 1)"

definition decoded_block_sizes_data :: "int list" where
  "decoded_block_sizes_data =
     foldl (\<lambda>m i. m[encoded_block_sizes ! i := int i]) (replicate (encoded_block_sizes ! 8 + 1) (- 1)) [0..<9]"

definition decoded_block_sizes :: "nat \<Rightarrow> int result" where
  "decoded_block_sizes encoded_block_size =
     (if encoded_block_size \<le> 11 then Inr (decoded_block_sizes_data ! encoded_block_size)
      else Inl AssertFailed)"

definition uint_8be_to_64 :: "bytes \<Rightarrow> u64 result" where
  "uint_8be_to_64 data =
     (if 1 \<le> length data \<and> length data \<le> 8
      then Inr (foldl (\<lambda>res b. push_bit 8 res OR ucast b) 0 data)
      else Inl AssertFailed)"

definition uint_64_to_8be :: "u64 \<Rightarrow> nat \<Rightarrow> bytes result" where
  "uint_64_to_8be num sz =
     (if 1 \<le> sz \<and> sz \<le> 8 then Inr (drop (8 - sz) (store64 (SWAP64 num))) else Inl AssertFailed)"

text \<open>The digits are written from the end of the block; \<open>i\<close> characters are still free.\<close>

function encode_block_loop :: "u64 \<Rightarrow> nat \<Rightarrow> string \<Rightarrow> string result" where
  "encode_block_loop num i res =
     (if 0 < num then
        (if i = 0 then Inl Undefined
         else encode_block_loop (num div 58) (i - 1) (res[i - 1 := alphabet ! unat (num mod 58)]))
      else Inr res)"
  by pat_completeness auto
termination
  by (relation "measure (\<lambda>(num, i, res). i)") auto

declare encode_block_loop.simps [simp del]

definition encode_block :: "bytes \<Rightarrow> string \<Rightarrow> string result" where
  "encode_block block res =
     (if 1 \<le> length block \<and> length block \<le> 8
      then bindR (uint_8be_to_64 block) (\<lambda>num.
             encode_block_loop num (encoded_block_sizes ! length block) res)
      else Inl AssertFailed)"

text \<open>The characters of the block come last first.\<close>

fun decode_block_loop :: "string \<Rightarrow> u64 \<Rightarrow> u64 \<Rightarrow> u64 option" where
  "decode_block_loop [] res_num order = Some res_num"
| "decode_block_loop (c # cs) res_num order =
     (let digit = reverse_alphabet c in
      if digit < 0 then None
      else
        let (product_hi, product_lo) = mul128 order (word_of_int digit);
            tmp = res_num + product_lo
        in if tmp < res_num \<or> product_hi \<noteq> 0 then None
           else decode_block_loop cs tmp (order * 58))"

definition decode_block :: "string \<Rightarrow> bytes option result" where
  "decode_block block =
     (if 1 \<le> length block \<and> length block \<le> 11
      then bindR (decoded_block_sizes (length block)) (\<lambda>res_size.
        if res_size \<le> 0 then Inr None
        else case decode_block_loop (rev block) 0 1 of
            None \<Rightarrow> Inr None
          | Some res_num \<Rightarrow>
              if nat res_size < 8 \<and> push_bit (8 * nat res_size) 1 \<le> res_num then Inr None
              else bindR (uint_64_to_8be res_num (nat res_size)) (\<lambda>bs. Inr (Some bs)))
      else Inl AssertFailed)"

text \<open>Both directions take one whole block after the other, then the last, shorter block if any.\<close>

function encode_blocks :: "bytes \<Rightarrow> string result" where
  "encode_blocks data =
     (if 8 \<le> length data
      then bindR (encode_block (take 8 data) (replicate (encoded_block_sizes ! 8) (alphabet ! 0))) (\<lambda>s.
           bindR (encode_blocks (drop 8 data)) (\<lambda>t. Inr (s @ t)))
      else if 0 < length data
      then encode_block data (replicate (encoded_block_sizes ! length data) (alphabet ! 0))
      else Inr [])"
  by pat_completeness auto
termination
  by (relation "measure length") auto

declare encode_blocks.simps [simp del]

definition encode :: "bytes \<Rightarrow> string result" where
  "encode data = (if data = [] then Inr [] else encode_blocks data)"

function decode_blocks :: "string \<Rightarrow> bytes option result" where
  "decode_blocks enc =
     (if 11 \<le> length enc
      then bindR (decode_block (take 11 enc)) (\<lambda>r. case r of
           None \<Rightarrow> Inr None
         | Some d \<Rightarrow> bindR (decode_blocks (drop 11 enc)) (\<lambda>r'. case r' of
               None \<Rightarrow> Inr None
             | Some d' \<Rightarrow> Inr (Some (d @ d'))))
      else if 0 < length enc then decode_block enc
      else Inr (Some []))"
  by pat_completeness auto
termination
  by (relation "measure length") auto

declare decode_blocks.simps [simp del]

definition decode :: "string \<Rightarrow> bytes option result" where
  "decode enc =
     (if enc = [] then Inr (Some [])
      else bindR (decoded_block_sizes (length enc mod 11)) (\<lambda>last_block_decoded_size.
        if last_block_decoded_size < 0 then Inr None else decode_blocks enc))"

definition encode_addr :: "u64 \<Rightarrow> bytes \<Rightarrow> string result" where
  "encode_addr tag data =
     (let buf = get_varint_data tag @ data
      in encode (buf @ take 4 (cn_fast_hash buf)))"

definition decode_addr :: "string \<Rightarrow> (u64 \<times> bytes) option result" where
  "decode_addr addr =
     bindR (decode addr) (\<lambda>r. case r of
       None \<Rightarrow> Inr None
     | Some addr_data \<Rightarrow>
         if length addr_data \<le> 4 then Inr None
         else
           let checksum = drop (length addr_data - 4) addr_data;
               addr_data' = take (length addr_data - 4) addr_data
           in if take 4 (cn_fast_hash addr_data') \<noteq> checksum then Inr None
              else
                let (rd, tag) = read_varint addr_data'
                in if rd \<le> 0 then Inr None else Inr (Some (tag, drop (nat rd) addr_data')))"

section \<open>Digits\<close>

lemma upt_58: "[0..<58] = [0, 1, 2, 3, 4, 5, 6, 7, 8, 9, 10, 11, 12, 13, 14, 15, 16, 17, 18, 19, 20,
    21, 22, 23, 24, 25, 26, 27, 28, 29, 30, 31, 32, 33, 34, 35, 36, 37, 38, 39, 40, 41, 42, 43, 44,
    45, 46, 47, 48, 49, 50, 51, 52, 53, 54, 55, 56, 57]"
  by (simp add: upt_rec)

lemma upt_74: "[0..<74] = [0, 1, 2, 3, 4, 5, 6, 7, 8, 9, 10, 11, 12, 13, 14, 15, 16, 17, 18, 19, 20,
    21, 22, 23, 24, 25, 26, 27, 28, 29, 30, 31, 32, 33, 34, 35, 36, 37, 38, 39, 40, 41, 42, 43, 44,
    45, 46, 47, 48, 49, 50, 51, 52, 53, 54, 55, 56, 57, 58, 59, 60, 61, 62, 63, 64, 65, 66, 67, 68,
    69, 70, 71, 72, 73]"
  by (simp add: upt_rec)

lemma replicate_74: "replicate 74 x = [x, x, x, x, x, x, x, x, x, x, x, x, x, x, x, x, x, x, x, x,
    x, x, x, x, x, x, x, x, x, x, x, x, x, x, x, x, x, x, x, x, x, x, x, x, x, x, x, x, x, x, x, x,
    x, x, x, x, x, x, x, x, x, x, x, x, x, x, x, x, x, x, x, x, x, x]"
  by (simp add: numeral_eq_Suc)

lemma reverse_alphabet_data_eq:
  "reverse_alphabet_data =
    [0, 1, 2, 3, 4, 5, 6, 7, 8, - 1, - 1, - 1, - 1, - 1, - 1, - 1, 9, 10, 11, 12, 13, 14, 15, 16, -
     1, 17, 18, 19, 20, 21, - 1, 22, 23, 24, 25, 26, 27, 28, 29, 30, 31, 32, - 1, - 1, - 1, - 1, -
     1, - 1, 33, 34, 35, 36, 37, 38, 39, 40, 41, 42, 43, - 1, 44, 45, 46, 47, 48, 49, 50, 51, 52,
     53, 54, 55, 56, 57]"
  by (simp add: reverse_alphabet_data_def alphabet_def alphabet_size_def upt_58 replicate_74)

lemma reverse_alphabet_table:
  "list_all (\<lambda>i. reverse_alphabet (alphabet ! i) = int i) [0..<58]"
  "list_all (\<lambda>k. reverse_alphabet_data ! k < 0 \<or> reverse_alphabet_data ! k < 58 \<and>
       alphabet ! nat (reverse_alphabet_data ! k) = char_of (49 + k)) [0..<74]"
  "length reverse_alphabet_data = 74"
  "of_char (alphabet ! 0) = (49 :: nat)"
  by (simp_all add: upt_58 upt_74 reverse_alphabet_data_eq reverse_alphabet_def alphabet_def char_of_def bit_0)

lemma reverse_alphabet_nth: "i < 58 \<Longrightarrow> reverse_alphabet (alphabet ! i) = int i"
  using reverse_alphabet_table(1) by (simp add: list_all_iff)

lemma reverse_alphabet_inv:
  assumes "0 \<le> reverse_alphabet c"
  shows "reverse_alphabet c < 58 \<and> alphabet ! nat (reverse_alphabet c) = c"
proof -
  define k where "k = of_char c - (49 :: nat)"
  have k: "k < 74" "of_char c = 49 + k" "reverse_alphabet c = reverse_alphabet_data ! k"
    using assms by (auto simp: k_def reverse_alphabet_def Let_def reverse_alphabet_table(3,4) split: if_splits)
  have "char_of (49 + k) = c" using k(2) by (metis char_of_char)
  moreover have "reverse_alphabet_data ! k < 58 \<and> alphabet ! nat (reverse_alphabet_data ! k) = char_of (49 + k)"
    using reverse_alphabet_table(2) k assms by (force simp: list_all_iff)
  ultimately show ?thesis using k(3) by simp
qed

text \<open>The base 58 value of a block and the block of a value.\<close>

fun b58 :: "nat \<Rightarrow> nat \<Rightarrow> string" where
  "b58 0 n = []"
| "b58 (Suc k) n = b58 k (n div 58) @ [alphabet ! (n mod 58)]"

fun b58_rval :: "string \<Rightarrow> nat" where
  "b58_rval [] = 0"
| "b58_rval (c # cs) = nat (reverse_alphabet c) + 58 * b58_rval cs"

definition b58_ok :: "string \<Rightarrow> bool" where
  "b58_ok cs = (\<forall>c \<in> set cs. 0 \<le> reverse_alphabet c)"

lemma length_b58 [simp]: "length (b58 k n) = k"
  by (induction k arbitrary: n) auto

lemma b58_0: "b58 k 0 = replicate k (alphabet ! 0)"
  by (induction k) (auto simp: replicate_append_same)

lemma b58_rval_b58: "n < 58 ^ k \<Longrightarrow> b58_rval (rev (b58 k n)) = n"
  by (induction k arbitrary: n) (auto simp: reverse_alphabet_nth less_mult_imp_div_less mult.commute)

lemma b58_ok_b58: "b58_ok (b58 k n)"
  by (induction k arbitrary: n) (auto simp: b58_ok_def reverse_alphabet_nth)

lemma b58_b58_rval: "b58_ok cs \<Longrightarrow> b58 (length cs) (b58_rval (rev cs)) = cs"
  using reverse_alphabet_inv
  by (induction cs rule: rev_induct) (auto simp: b58_ok_def nat_less_iff)


section \<open>Blocks\<close>

lemma encode_block_loop_b58:
  "unat num < 58 ^ i \<Longrightarrow>
   encode_block_loop num i (replicate i (alphabet ! 0) @ ts) = Inr (b58 i (unat num) @ ts)"
proof (induction i arbitrary: num ts)
  case 0
  then show ?case by (simp add: encode_block_loop.simps unat_eq_zero)
next
  case (Suc i)
  show ?case
  proof (cases "0 < num")
    case False
    then have "num = 0" by (simp add: word_gt_0)
    then show ?thesis using b58_0[of "Suc i"] by (simp add: encode_block_loop.simps)
  next
    case True
    have "(replicate (Suc i) (alphabet ! 0) @ ts)[i := c] = replicate i (alphabet ! 0) @ c # ts" for c
      using list_update_length[of "replicate i (alphabet ! 0)" "alphabet ! 0" ts c]
      by (simp add: replicate_app_Cons_same)
    moreover have "unat (num div 58) < 58 ^ i"
      using Suc.prems by (simp add: unat_div_distrib less_mult_imp_div_less mult.commute)
    ultimately show ?thesis
      using True Suc.IH[of "num div 58" "alphabet ! unat (num mod 58) # ts"]
      by (subst encode_block_loop.simps) (simp add: unat_div_distrib unat_mod_distrib)
  qed
qed

lemma decode_block_loop_value:
  assumes "cs \<noteq> [] \<longrightarrow> unat order = 58 ^ j" and "j + length cs \<le> 11"
  shows "decode_block_loop cs res order =
    (if b58_ok cs \<and> unat res + 58 ^ j * b58_rval cs < 2 ^ 64
     then Some (word_of_nat (unat res + 58 ^ j * b58_rval cs)) else None)"
  using assms
proof (induction cs arbitrary: res order j)
  case Nil
  then show ?case by (simp add: b58_ok_def)
next
  case (Cons c cs)
  show ?case
  proof (cases "0 \<le> reverse_alphabet c")
    case False
    then show ?thesis by (simp add: b58_ok_def)
  next
    case True
    define d where "d = nat (reverse_alphabet c)"
    have d: "d < 58" "word_of_int (reverse_alphabet c) = (word_of_nat d :: u64)" "\<not> reverse_alphabet c < 0"
      using reverse_alphabet_inv[OF True] True by (auto simp: d_def nat_less_iff)
    have ud: "unat (word_of_nat d :: u64) = d" using d by (simp add: unat_of_nat)
    obtain h l where m: "mul128 order (word_of_nat d) = (h, l)" by force
    have o: "unat order = 58 ^ j" "j \<le> 10" using Cons.prems by auto
    have hl: "58 ^ j * d = unat l + unat h * 2 ^ 64" using mul128_nat[OF m] by (simp add: ud o)
    let ?tmp = "res + l"
    have bad: "?tmp < res \<or> h \<noteq> 0 \<longleftrightarrow> 2 ^ 64 \<le> unat res + 58 ^ j * d"
      using add_carry64[of res l] u64_less[of ?tmp] hl unat_eq_zero[of h]
      by (cases "h = 0") (auto simp del: u64_less split: if_splits)
    have ok: "b58_ok (c # cs) = b58_ok cs" using True by (simp add: b58_ok_def)
    have val: "58 ^ j * b58_rval (c # cs) = 58 ^ j * d + 58 ^ Suc j * b58_rval cs"
      by (simp add: d_def algebra_simps)
    show ?thesis
    proof (cases "2 ^ 64 \<le> unat res + 58 ^ j * d")
      case True
      then show ?thesis using bad m d val by (simp add: Let_def del: b58_rval.simps)
    next
      case False
      then have nb: "\<not> ?tmp < res" "h = 0" using bad by auto
      have t: "unat ?tmp = unat res + 58 ^ j * d"
        using add_carry64[of res l] nb hl by simp
      have "cs \<noteq> [] \<longrightarrow> unat (order * 58) = 58 ^ Suc j"
      proof
        assume "cs \<noteq> []"
        then have "Suc j \<le> 10" using Cons.prems(2) by (cases cs) auto
        then have "(58 :: nat) ^ Suc j \<le> 58 ^ 10" by (intro power_increasing) auto
        then show "unat (order * 58) = 58 ^ Suc j" by (simp add: unat_word_ariths o)
      qed
      then have "decode_block_loop cs ?tmp (order * 58) =
        (if b58_ok cs \<and> unat ?tmp + 58 ^ Suc j * b58_rval cs < 2 ^ 64
         then Some (word_of_nat (unat ?tmp + 58 ^ Suc j * b58_rval cs)) else None)"
        using Cons.prems(2) by (intro Cons.IH) auto
      then show ?thesis
        using nb m d ok val t by (simp add: Let_def add.assoc del: b58_rval.simps)
    qed
  qed
qed


text \<open>\<open>block_sizes n k\<close>: a block of \<open>n\<close> bytes is written as \<open>k\<close> characters.\<close>

definition block_sizes :: "nat \<Rightarrow> nat \<Rightarrow> bool" where
  "block_sizes n k \<longleftrightarrow> (n, k) \<in> {(1, 2), (2, 3), (3, 5), (4, 6), (5, 7), (6, 9), (7, 10), (8, 11)}"

lemma decoded_block_sizes_data_eq: "decoded_block_sizes_data = [0, - 1, 1, 2, - 1, 3, 4, 5, - 1, 6, 7, 8]"
  by code_simp

lemma block_sizes_facts:
  assumes "block_sizes n k"
  shows "1 \<le> n" "n \<le> 8" "1 \<le> k" "k \<le> 11" "encoded_block_sizes ! n = k"
    "decoded_block_sizes k = Inr (int n)" "(256 :: nat) ^ n \<le> 58 ^ k"
proof -
  have c: "n = 1 \<and> k = 2 \<or> n = 2 \<and> k = 3 \<or> n = 3 \<and> k = 5 \<or> n = 4 \<and> k = 6 \<or> n = 5 \<and> k = 7 \<or>
      n = 6 \<and> k = 9 \<or> n = 7 \<and> k = 10 \<or> n = 8 \<and> k = 11"
    using assms unfolding block_sizes_def by simp
  show "1 \<le> n" "n \<le> 8" "1 \<le> k" "k \<le> 11" using c by linarith+
  show "encoded_block_sizes ! n = k" "decoded_block_sizes k = Inr (int n)"
    using c by (elim disjE conjE; simp add: encoded_block_sizes_def decoded_block_sizes_def decoded_block_sizes_data_eq)+
  show "(256 :: nat) ^ n \<le> 58 ^ k" using c by (elim disjE conjE; simp)
qed

lemma block_sizes_enc:
  assumes "1 \<le> n" "n \<le> 8"
  shows "block_sizes n (encoded_block_sizes ! n)"
proof -
  have "n = 1 \<or> n = 2 \<or> n = 3 \<or> n = 4 \<or> n = 5 \<or> n = 6 \<or> n = 7 \<or> n = 8" using assms by arith
  then show ?thesis by (elim disjE) (simp_all add: block_sizes_def encoded_block_sizes_def)
qed

lemma block_sizes_dec:
  assumes "k \<le> 11" and "0 < decoded_block_sizes_data ! k"
  shows "block_sizes (nat (decoded_block_sizes_data ! k)) k"
proof -
  have "k = 0 \<or> k = 1 \<or> k = 2 \<or> k = 3 \<or> k = 4 \<or> k = 5 \<or> k = 6 \<or> k = 7 \<or> k = 8 \<or> k = 9 \<or> k = 10 \<or> k = 11"
    using assms(1) by arith
  then show ?thesis
    using assms(2) by (elim disjE) (simp_all add: block_sizes_def decoded_block_sizes_data_eq)
qed

lemma encode_block_eq:
  assumes "block_sizes (length d) k"
  shows "encode_block d (replicate k (alphabet ! 0)) = Inr (b58 k (be_to_nat d))"
proof -
  note f = block_sizes_facts[OF assms]
  let ?n = "foldl (\<lambda>res b. push_bit 8 res OR ucast b) 0 d :: u64"
  have n: "unat ?n = be_to_nat d"
    using uint_be_from_bytes_nat[of d] f(2) by (simp add: uint_be_from_bytes_def)
  have "be_to_nat d < 58 ^ k" using be_to_nat_less[of d] f(7) by (rule less_le_trans)
  then have "encode_block_loop ?n k (replicate k (alphabet ! 0) @ []) = Inr (b58 k (unat ?n) @ [])"
    by (intro encode_block_loop_b58) (simp only: n)
  then show ?thesis using f by (simp add: encode_block_def uint_8be_to_64_def n)
qed

lemma uint_64_to_8be_eq:
  assumes "1 \<le> n" "n \<le> 8" "v < 256 ^ n"
  shows "uint_64_to_8be (word_of_nat v) n = Inr (nat_to_be n v)"
proof -
  have "v < 256 ^ 8" using assms(2,3) by (meson less_le_trans one_le_numeral power_increasing)
  then have u: "unat (word_of_nat v :: u64) = v" by (simp add: unat_of_nat)
  have "drop k (nat_to_be (k + n) v) = nat_to_be n v" if "v < 256 ^ n" for k n v
    using that
    by (induction n arbitrary: v) (auto simp: less_mult_imp_div_less mult.commute)
  from this[of v n "8 - n"] show ?thesis
    using assms by (simp add: uint_64_to_8be_def store64_SWAP64 u)
qed

lemma decode_block_eq:
  assumes "block_sizes n (length cs)"
  shows "decode_block cs =
    Inr (if b58_ok cs \<and> b58_rval (rev cs) < 256 ^ n then Some (nat_to_be n (b58_rval (rev cs))) else None)"
proof -
  note f = block_sizes_facts[OF assms]
  let ?v = "b58_rval (rev cs)"
  have loop: "decode_block_loop (rev cs) 0 1 = (if b58_ok cs \<and> ?v < 2 ^ 64 then Some (word_of_nat ?v) else None)"
    using decode_block_loop_value[of "rev cs" 1 0 0] f(4) by (simp add: b58_ok_def)
  have p: "(256 :: nat) ^ n = 2 ^ (8 * n)" by (simp add: power_mult)
  have le: "(256 :: nat) ^ n \<le> 2 ^ 64" using f(2) unfolding p by (intro power_increasing) auto
  show ?thesis
  proof (cases "b58_ok cs \<and> ?v < 2 ^ 64")
    case False
    then show ?thesis using f loop le by (auto simp: decode_block_def)
  next
    case True
    have u: "unat (word_of_nat ?v :: u64) = ?v" using True by (simp add: unat_of_nat)
    have "n < 8 \<and> push_bit (8 * n) 1 \<le> (word_of_nat ?v :: u64) \<longleftrightarrow> \<not> ?v < 256 ^ n"
    proof (cases "n < 8")
      case True
      then have "unat (push_bit (8 * n) (1 :: u64)) = 256 ^ n"
        using power_strict_increasing[of "8 * n" 64 "2 :: nat"] unfolding p by (subst unat_push_bit_less) auto
      then show ?thesis using True by (simp add: word_le_nat_alt u not_less)
    next
      case False
      then have "n = 8" using f(2) by simp
      then show ?thesis using \<open>b58_ok cs \<and> ?v < 2 ^ 64\<close> by simp
    qed
    then show ?thesis
      using f loop True uint_64_to_8be_eq[of n ?v] by (auto simp: decode_block_def)
  qed
qed

lemma decode_block_invalid:
  assumes "1 \<le> length cs" and "length cs \<le> 11" and "\<And>n. \<not> block_sizes n (length cs)"
  shows "decode_block cs = Inr None"
  using assms block_sizes_dec[of "length cs"]
  by (auto simp: decode_block_def decoded_block_sizes_def)


section \<open>Whole strings\<close>

lemma decode_block_encode:
  assumes "block_sizes (length d) k"
  shows "decode_block (b58 k (be_to_nat d)) = Inr (Some d)"
proof -
  note f = block_sizes_facts[OF assms]
  have "be_to_nat d < 58 ^ k" using be_to_nat_less[of d] f(7) by (rule less_le_trans)
  then show ?thesis
    using decode_block_eq[of "length d" "b58 k (be_to_nat d)"] assms be_to_nat_less[of d]
    by (simp add: b58_ok_b58 b58_rval_b58)
qed

lemma encode_block_decode:
  assumes "1 \<le> length cs" "length cs \<le> 11" "decode_block cs = Inr (Some d)"
  shows "block_sizes (length d) (length cs) \<and> encode_block d (replicate (length cs) (alphabet ! 0)) = Inr cs"
proof -
  obtain n where n: "block_sizes n (length cs)"
    using assms decode_block_invalid by force
  have d: "b58_ok cs" "b58_rval (rev cs) < 256 ^ n" "d = nat_to_be n (b58_rval (rev cs))"
    using assms(3) decode_block_eq[OF n] by (auto split: if_splits)
  then show ?thesis using encode_block_eq[of d "length cs"] n by (simp add: b58_b58_rval)
qed

lemma block_size_full: "encoded_block_sizes ! 8 = 11"
  by (simp add: encoded_block_sizes_def)

lemma block_size_8_11: "block_sizes 8 k \<longleftrightarrow> k = 11" "block_sizes n 11 \<longleftrightarrow> n = 8"
  by (auto simp: block_sizes_def)

lemma decode_blocks_encode:
  "\<exists>s. encode_blocks d = Inr s \<and> decode_blocks s = Inr (Some d) \<and>
      decoded_block_sizes (length s mod 11) = Inr (int (length d mod 8)) \<and> (s = [] \<longleftrightarrow> d = [])"
proof (induction d rule: encode_blocks.induct)
  case (1 d)
  show ?case
  proof (cases "8 \<le> length d")
    case True
    have b: "block_sizes (length (take 8 d)) 11" using True by (simp add: block_size_8_11)
    obtain s where s: "encode_blocks (drop 8 d) = Inr s" "decode_blocks s = Inr (Some (drop 8 d))"
      "decoded_block_sizes (length s mod 11) = Inr (int (length (drop 8 d) mod 8))"
      using 1[OF True] encode_block_eq[OF b] unfolding block_size_full by blast
    let ?b = "b58 11 (be_to_nat (take 8 d))"
    have "encode_blocks d = Inr (?b @ s)"
      using True s(1) encode_block_eq[OF b] by (subst encode_blocks.simps) (simp add: block_size_full)
    moreover have "decode_blocks (?b @ s) = Inr (Some d)"
      using s(2) decode_block_encode[OF b] by (subst decode_blocks.simps) simp
    moreover have "length (?b @ s) mod 11 = length s mod 11" "length (drop 8 d) mod 8 = length d mod 8"
      using True by (simp_all add: le_mod_geq)
    moreover have "?b \<noteq> []" by (metis length_b58 list.size(3) zero_neq_numeral)
    ultimately show ?thesis using s(3) True by (intro exI[of _ "?b @ s"]) auto
  next
    case short: False
    show ?thesis
    proof (cases "d = []")
      case True
      then show ?thesis
        by (simp add: encode_blocks.simps decode_blocks.simps decoded_block_sizes_def decoded_block_sizes_data_eq)
    next
      case False
      define k where "k = encoded_block_sizes ! length d"
      have b: "block_sizes (length d) k" using False short by (simp add: k_def block_sizes_enc Suc_le_eq)
      have "k \<noteq> 11" using b short block_size_8_11(2)[of "length d"] by auto
      then have k: "1 \<le> k" "k < 11" using block_sizes_facts[OF b] by auto
      have "encode_blocks d = Inr (b58 k (be_to_nat d))"
        using False short encode_block_eq[OF b] by (subst encode_blocks.simps) (simp add: k_def)
      moreover have "decode_blocks (b58 k (be_to_nat d)) = Inr (Some d)"
        using k decode_block_encode[OF b] by (subst decode_blocks.simps) simp
      moreover have "b58 k (be_to_nat d) \<noteq> []" using k by (metis length_b58 list.size(3) not_one_le_zero)
      ultimately show ?thesis
        using False k short block_sizes_facts(6)[OF b] by (intro exI[of _ "b58 k (be_to_nat d)"]) simp
    qed
  qed
qed

lemma encode_decode_blocks:
  "decode_blocks s = Inr (Some d) \<Longrightarrow> encode_blocks d = Inr s"
proof (induction s arbitrary: d rule: decode_blocks.induct)
  case (1 s)
  show ?case
  proof (cases "11 \<le> length s")
    case True
    from 1(2) obtain b r where br: "decode_block (take 11 s) = Inr (Some b)"
      "decode_blocks (drop 11 s) = Inr (Some r)" "d = b @ r"
      using True by (subst (asm) (1) decode_blocks.simps) (auto simp: bindR_eq_Inr_iff split: option.splits)
    have b: "length b = 8" "encode_block b (replicate 11 (alphabet ! 0)) = Inr (take 11 s)"
      using encode_block_decode[OF _ _ br(1)] True by (simp_all add: block_size_8_11)
    have "encode_blocks r = Inr (drop 11 s)" using 1(1)[OF True br(1)] br(2) by simp
    then show ?thesis using b br(3) by (subst encode_blocks.simps) (simp add: block_size_full)
  next
    case short: False
    show ?thesis
    proof (cases "s = []")
      case True
      then show ?thesis using 1(2) by (simp add: encode_blocks.simps decode_blocks.simps)
    next
      case False
      then have db: "decode_block s = Inr (Some d)" using 1(2) short by (simp add: decode_blocks.simps)
      have b: "block_sizes (length d) (length s)" "encode_block d (replicate (length s) (alphabet ! 0)) = Inr s"
        using encode_block_decode[OF _ _ db] False short by (simp_all add: Suc_le_eq)
      have "length d \<noteq> 8" using b(1) short by (auto simp: block_size_8_11)
      then show ?thesis using b block_sizes_facts[OF b(1)] by (subst encode_blocks.simps) auto
    qed
  qed
qed

lemma decode_block_total: "1 \<le> length cs \<Longrightarrow> length cs \<le> 11 \<Longrightarrow> \<exists>r. decode_block cs = Inr r"
  using decode_block_eq decode_block_invalid by blast

lemma decode_blocks_total: "\<exists>r. decode_blocks s = Inr r"
proof (induction s rule: decode_blocks.induct)
  case (1 s)
  show ?case
  proof (cases "11 \<le> length s")
    case True
    obtain r where r: "decode_block (take 11 s) = Inr r" using decode_block_total[of "take 11 s"] True by auto
    show ?thesis
      using True r 1[OF True r] by (subst decode_blocks.simps) (auto split: option.splits)
  next
    case False
    then show ?thesis using decode_block_total[of s] by (subst decode_blocks.simps) (auto simp: Suc_le_eq)
  qed
qed

lemma decode_total: "\<exists>r. decode s = Inr r"
proof -
  have "length s mod 11 \<le> 11" by (simp add: less_imp_le)
  then have "decoded_block_sizes (length s mod 11) = Inr (decoded_block_sizes_data ! (length s mod 11))"
    by (simp only: decoded_block_sizes_def if_True)
  then show ?thesis using decode_blocks_total[of s] by (simp add: decode_def)
qed

lemma decode_encode: "\<exists>s. encode d = Inr s \<and> decode s = Inr (Some d)"
proof -
  obtain s where s: "encode_blocks d = Inr s" "decode_blocks s = Inr (Some d)"
      "decoded_block_sizes (length s mod 11) = Inr (int (length d mod 8))" "s = [] \<longleftrightarrow> d = []"
    using decode_blocks_encode[of d] by blast
  then show ?thesis
    by (cases "d = []") (simp_all add: encode_def decode_def)
qed

lemma encode_decode:
  assumes "decode s = Inr (Some d)"
  shows "encode d = Inr s"
proof (cases "s = []")
  case True
  then show ?thesis using assms by (simp add: encode_def decode_def)
next
  case False
  then have "decode_blocks s = Inr (Some d)"
    using assms by (auto simp: decode_def bindR_eq_Inr_iff split: if_splits)
  then have "encode_blocks d = Inr s" by (rule encode_decode_blocks)
  moreover from this have "d \<noteq> []" using False by (auto simp: encode_blocks.simps)
  ultimately show ?thesis by (simp add: encode_def)
qed

lemma read_varint_get_varint_data:
  "read_varint (get_varint_data (v :: u64) @ rest) = (int (length (get_varint_data v)), v)"
  using read_varint_loop_stream[where s = 0 and t = "0 :: u64" and rd = 0 and bs = "write_varint v @ rest"]
    read_varint_stream_write[of v rest]
  by (simp add: read_varint_def read_varint_stream_def get_varint_data_def)

lemma decode_addr_accepts:
  assumes "decode_addr s = Inr (Some (tag, d))"
  shows "\<exists>body. encode (body @ take 4 (cn_fast_hash body)) = Inr s \<and> body \<noteq> [] \<and>
           (encode_addr tag d = Inr s \<or> d = [] \<and> (\<forall>v rest. read_varint_stream body \<noteq> Inr (v :: u64, rest)))"
proof -
  from assms obtain a where a: "decode s = Inr (Some a)" "4 < length a"
    by (auto simp: decode_addr_def bindR_eq_Inr_iff split: option.splits if_splits)
  define body where "body = take (length a - 4) a"
  obtain rd where r: "take 4 (cn_fast_hash body) = drop (length a - 4) a" "read_varint body = (rd, tag)"
      "0 < rd" "d = drop (nat rd) body"
    using assms a by (auto simp: decode_addr_def body_def Let_def split: if_splits prod.splits)
  have "a = body @ take 4 (cn_fast_hash body)" unfolding r(1) by (simp add: body_def)
  then have enc: "encode (body @ take 4 (cn_fast_hash body)) = Inr s" using encode_decode[OF a(1)] by simp
  have ne: "body \<noteq> []" using a(2) by (auto simp: body_def)
  show ?thesis
  proof (cases "\<exists>v rest. read_varint_stream body = Inr (v :: u64, rest)")
    case True
    then obtain v rest where v: "read_varint_stream body = Inr (v :: u64, rest)" by blast
    have b: "body = get_varint_data v @ rest"
      using varint64.enc_dec[OF v] by (simp add: get_varint_data_def)
    then have "v = tag" "d = rest" using r(2,4) by (auto simp: read_varint_get_varint_data)
    then have "encode_addr tag d = Inr s" using enc b by (simp add: encode_addr_def Let_def)
    then show ?thesis using enc ne by blast
  next
    case False
    then have "int (length body) \<le> rd"
      using read_varint_loop_stream[where s = 0 and t = "0 :: u64" and rd = 0 and bs = body] r(2,3)
      by (auto simp: read_varint_def read_varint_stream_def split: sum.splits cpp_error.splits if_splits)
    then have "d = []" using r(4) by simp
    then show ?thesis using False enc ne by blast
  qed
qed

section \<open>Properties\<close>

text \<open>
  C36: base 58 is a bijection between byte strings and the strings \<open>decode\<close> accepts. Every byte string
  encodes without error and decodes to itself; a string that decodes is the encoding of its result,
  so nothing has two accepted spellings; and decoding never runs into a failed assertion.
\<close>

theorem base58_bijective:
  "(\<exists>s. encode d = Inr s \<and> decode s = Inr (Some d)) \<and>
   (\<exists>r. decode t = Inr r \<and> (case r of None \<Rightarrow> True | Some e \<Rightarrow> encode e = Inr t))"
  using decode_encode[of d] decode_total[of t] encode_decode[of t] by (auto split: option.splits)

text \<open>
  C38: an address encodes its tag and its data: \<open>decode_addr\<close> returns both from what \<open>encode_addr\<close>
  wrote, for every tag and every data, the empty one included.
\<close>

theorem base58_addr_roundtrip:
  "\<exists>s. encode_addr tag d = Inr s \<and> decode_addr s = Inr (Some (tag, d))"
proof -
  let ?b = "get_varint_data tag @ d"
  let ?d = "?b @ take 4 (cn_fast_hash ?b)"
  obtain s where s: "encode ?d = Inr s" "decode s = Inr (Some ?d)" using decode_encode by blast
  have "get_varint_data tag \<noteq> []"
    by (simp add: get_varint_data_def write_varint.simps[of tag])
  then have "decode_addr s = Inr (Some (tag, d))"
    by (simp add: decode_addr_def s(2) read_varint_get_varint_data Let_def)
  then show ?thesis using s(1) by (auto simp: encode_addr_def Let_def)
qed

text \<open>
  C40: an address is authentic in its checksum: what \<open>decode_addr\<close> accepts is the base 58 form of some
  bytes followed by the first four bytes of their hash, and it re-encodes to the same string unless
  its tag is truncated (the iterator reader takes the end of the data for the end of the number).
\<close>

theorem base58_addr_accepts:
  "case decode_addr s of
     Inl _ \<Rightarrow> False
   | Inr None \<Rightarrow> True
   | Inr (Some (tag, d)) \<Rightarrow>
       (\<exists>body. encode (body @ take 4 (cn_fast_hash body)) = Inr s \<and> body \<noteq> [] \<and>
         (encode_addr tag d = Inr s \<or> d = [] \<and> (\<forall>v rest. read_varint_stream body \<noteq> Inr (v :: u64, rest))))"
proof -
  have "\<exists>r. decode_addr s = Inr r"
    using decode_total[of s] by (auto simp: decode_addr_def Let_def split: option.splits prod.splits)
  then show ?thesis
    using decode_addr_accepts[of s] by (auto split: sum.splits option.splits)
qed

end
