(* ===== verification/Streams.thy ===== *)
theory Streams
  imports Codec
begin

text \<open>
  The byte streams of \<open>src/src/common/Streams.cpp\<close> and \<open>src/src/common/MemoryStreams.cpp\<close>. The generic
  loops \<open>IInputStream::read\<close> and \<open>IOutputStream::write\<close> are written over the virtual \<open>read_some\<close> and
  \<open>write_some\<close>, which are arguments here; the contract those must honour is a locale, interpreted on
  the memory, string and vector streams and on the circular buffer of the network code. The serialisers
  of the other theories work on the list of bytes still to be read, which the refinement lemmas below
  justify.
\<close>

section \<open>Definitions\<close>

subsection \<open>Loops over partial reads and writes\<close>

text \<open>\<open>read_some s n\<close> returns the bytes copied into the caller's buffer and the new stream.\<close>

type_synonym 's read_some = "'s \<Rightarrow> nat \<Rightarrow> (bytes \<times> 's) result"
type_synonym 's write_some = "'s \<Rightarrow> bytes \<Rightarrow> (nat \<times> 's) result"

function istream_read :: "'s read_some \<Rightarrow> nat \<Rightarrow> 's \<Rightarrow> (bytes \<times> 's) result" where
  "istream_read read_some count s =
     (if count = 0 then Inr ([], s)
      else bindR (read_some s count) (\<lambda>(d, s').
        if length d = 0 then Inl (StreamError ''IInputStream reading from empty stream'')
        else bindR (istream_read read_some (count - length d) s') (\<lambda>(d', s''). Inr (d @ d', s''))))"
  by pat_completeness auto
termination
  by (relation "measure (\<lambda>(r, count, s). count)") auto

declare istream_read.simps [simp del]

function ostream_write :: "'s write_some \<Rightarrow> bytes \<Rightarrow> 's \<Rightarrow> 's result" where
  "ostream_write write_some data s =
     (if data = [] then Inr s
      else bindR (write_some s data) (\<lambda>(wc, s').
        if wc = 0 then Inl (StreamError ''IOutputStream error writing to full stream'')
        else ostream_write write_some (drop wc data) s'))"
  by pat_completeness auto
termination
  by (relation "measure (\<lambda>(w, data, s). length data)") auto

declare ostream_write.simps [simp del]

text \<open>Reading a block of an announced size grows the result by at most \<open>CHUNK\<close> bytes at a time.\<close>

definition CHUNK :: nat where
  "CHUNK = 1024 * 1024"

function read_chunks :: "'s read_some \<Rightarrow> bytes \<Rightarrow> nat \<Rightarrow> 's \<Rightarrow> (bytes \<times> 's) result" where
  "read_chunks read_some data sz s =
     (if sz \<le> length data then Inr (data, s)
      else bindR (istream_read read_some (min CHUNK (sz - length data)) s) (\<lambda>(d, s').
        if length d = min CHUNK (sz - length data) then read_chunks read_some (data @ d) sz s'
        else Inl Undefined))"
  by pat_completeness auto
termination
  by (relation "measure (\<lambda>(r, data, sz, s). sz - length data)") (auto simp: CHUNK_def)

declare read_chunks.simps [simp del]

definition read_block :: "'s read_some \<Rightarrow> nat \<Rightarrow> 's \<Rightarrow> (bytes \<times> 's) result" where
  "read_block read_some sz s =
     bindR (istream_read read_some (min CHUNK sz) s) (\<lambda>(d, s'). read_chunks read_some d sz s')"

subsection \<open>Streams over a buffer in memory\<close>

record mem_stream =
  buffer :: bytes
  in_position :: nat

definition memory_read_some :: "mem_stream read_some" where
  "memory_read_some s sz =
     (if in_position s \<le> length (buffer s)
      then let n = min sz (length (buffer s) - in_position s)
           in Inr (take n (drop (in_position s) (buffer s)), s\<lparr>in_position := in_position s + n\<rparr>)
      else Inl (InvariantViolated ''jump over the end of buffer''))"

definition memory_empty :: "mem_stream \<Rightarrow> bool" where
  "memory_empty s = (length (buffer s) - in_position s = 0)"

text \<open>A \<open>StringStream\<close> or \<open>VectorStream\<close> reads from the buffer its writer appends to.\<close>

definition string_read_some :: "mem_stream read_some" where
  "string_read_some s sz =
     (if in_position s \<le> length (buffer s)
      then let n = min sz (length (buffer s) - in_position s)
           in Inr (take n (drop (in_position s) (buffer s)), s\<lparr>in_position := in_position s + n\<rparr>)
      else Inl (InvariantViolated ''jump over the end of buffer''))"

definition string_write_some :: "mem_stream write_some" where
  "string_write_some s data = Inr (length data, s\<lparr>buffer := buffer s @ data\<rparr>)"

definition string_clear :: "mem_stream \<Rightarrow> mem_stream" where
  "string_clear s = s\<lparr>in_position := 0, buffer := []\<rparr>"

text \<open>\<open>copy_to\<close> offers what is left, at most \<open>max_count\<close> bytes, until the sink takes nothing.\<close>

function string_copy_to :: "'o write_some \<Rightarrow> nat \<Rightarrow> mem_stream \<Rightarrow> 'o \<Rightarrow> (nat \<times> mem_stream \<times> 'o) result" where
  "string_copy_to write_some max_count s out =
     (let rc = min (length (buffer s) - in_position s) max_count
      in if rc = 0 then Inr (0, s, out)
         else bindR (write_some out (take rc (drop (in_position s) (buffer s)))) (\<lambda>(count, out').
           let s' = s\<lparr>in_position := in_position s + count\<rparr>
           in if count = 0 then Inr (0, s', out')
              else bindR (string_copy_to write_some (max_count - count) s' out') (\<lambda>(total, s'', out'').
                Inr (count + total, s'', out''))))"
  by pat_completeness auto
termination
  by (relation "measure (\<lambda>(w, max_count, s, out). max_count)") auto

declare string_copy_to.simps [simp del]

subsection \<open>The circular buffer\<close>

record circular_buffer =
  impl :: bytes
  read_pos :: nat
  write_pos :: nat

definition read_count :: "circular_buffer \<Rightarrow> nat" where
  "read_count b = (if write_pos b < length (impl b) then write_pos b - read_pos b else length (impl b) - read_pos b)"

definition read_count2 :: "circular_buffer \<Rightarrow> nat" where
  "read_count2 b = (if write_pos b < length (impl b) then 0 else write_pos b - length (impl b))"

definition write_count :: "circular_buffer \<Rightarrow> nat" where
  "write_count b =
     (if write_pos b < length (impl b) then length (impl b) - write_pos b
      else read_pos b - (write_pos b - length (impl b)))"

definition write_count2 :: "circular_buffer \<Rightarrow> nat" where
  "write_count2 b = (if write_pos b < length (impl b) then read_pos b else 0)"

definition circular_size :: "circular_buffer \<Rightarrow> nat" where
  "circular_size b = read_count b + read_count2 b"

definition circular_capacity :: "circular_buffer \<Rightarrow> nat" where
  "circular_capacity b = write_count b + write_count2 b"

definition write_offset :: "circular_buffer \<Rightarrow> nat" where
  "write_offset b = (if write_pos b < length (impl b) then write_pos b else write_pos b - length (impl b))"

definition did_write :: "circular_buffer \<Rightarrow> nat \<Rightarrow> circular_buffer result" where
  "did_write b count =
     (let b' = b\<lparr>write_pos := write_pos b + count\<rparr>
      in if write_pos b' \<le> read_pos b' + length (impl b') then Inr b'
         else Inl (InvariantViolated ''Writing past end of Buffer''))"

definition did_read :: "circular_buffer \<Rightarrow> nat \<Rightarrow> circular_buffer result" where
  "did_read b count =
     (let b' = b\<lparr>read_pos := read_pos b + count\<rparr>
      in if read_pos b' \<le> write_pos b' then
           Inr (if length (impl b') \<le> read_pos b'
                then b'\<lparr>read_pos := read_pos b' - length (impl b'), write_pos := write_pos b' - length (impl b')\<rparr>
                else b')
         else Inl (InvariantViolated ''Reading past end of Buffer''))"

definition circular_read_some :: "circular_buffer read_some" where
  "circular_read_some b sz =
     (let rc = min sz (read_count b)
      in bindR (did_read b rc) (\<lambda>b'. Inr (take rc (drop (read_pos b) (impl b)), b')))"

definition poke :: "bytes \<Rightarrow> nat \<Rightarrow> bytes \<Rightarrow> bytes" where
  "poke m off d = take off m @ d @ drop (off + length d) m"

definition circular_write_some :: "circular_buffer write_some" where
  "circular_write_some b data =
     (let rc = min (length data) (write_count b);
          b' = b\<lparr>impl := poke (impl b) (write_offset b) (take rc data)\<rparr>
      in bindR (did_write b' rc) (\<lambda>b''. Inr (rc, b'')))"

definition circular_clear :: "circular_buffer \<Rightarrow> circular_buffer" where
  "circular_clear b = b\<lparr>read_pos := 0, write_pos := 0\<rparr>"

text \<open>\<open>copy_from\<close>: each round reads straight into the free space.\<close>

function circular_copy_from :: "'i read_some \<Rightarrow> circular_buffer \<Rightarrow> 'i \<Rightarrow> (circular_buffer \<times> 'i) result" where
  "circular_copy_from read_some b inp =
     (if write_count b = 0 then Inr (b, inp)
      else bindR (read_some inp (write_count b)) (\<lambda>(d, inp').
        bindR (did_write (b\<lparr>impl := poke (impl b) (write_offset b) d\<rparr>) (length d)) (\<lambda>b'.
          if length d = 0 then Inr (b', inp')
          else if length (impl b') = length (impl b) then circular_copy_from read_some b' inp'
          else Inl Undefined)))"
  by pat_completeness auto
termination
  by (relation "measure (\<lambda>(r, b, inp). read_pos b + length (impl b) - write_pos b)")
    (auto simp: did_write_def Let_def write_count_def neq_Nil_conv split: if_splits)

declare circular_copy_from.simps [simp del]

function circular_copy_to :: "'o write_some \<Rightarrow> nat \<Rightarrow> circular_buffer \<Rightarrow> 'o \<Rightarrow> (nat \<times> circular_buffer \<times> 'o) result" where
  "circular_copy_to write_some max_count b out =
     (let rc = min (read_count b) max_count
      in if rc = 0 then Inr (0, b, out)
         else bindR (write_some out (take rc (drop (read_pos b) (impl b)))) (\<lambda>(count, out').
           bindR (did_read b count) (\<lambda>b'.
             if count = 0 then Inr (0, b', out')
             else bindR (circular_copy_to write_some (max_count - count) b' out') (\<lambda>(total, b'', out'').
               Inr (count + total, b'', out'')))))"
  by pat_completeness auto
termination
  by (relation "measure (\<lambda>(w, max_count, b, out). max_count)") auto

declare circular_copy_to.simps [simp del]

section \<open>The contract of the streams\<close>

locale input_stream =
  fixes rd :: "'s read_some"
    and pending :: "'s \<Rightarrow> bytes"
    and wf :: "'s \<Rightarrow> bool"
  assumes rd_spec: "wf s \<Longrightarrow> \<exists>d s'. rd s n = Inr (d, s') \<and> wf s' \<and> pending s = d @ pending s' \<and> length d \<le> n"
    and rd_progress: "wf s \<Longrightarrow> rd s (Suc n) = Inr ([], s') \<Longrightarrow> pending s = []"
begin

lemma istream_read_empty:
  assumes "wf s" and "0 < n" and "rd s n = Inr ([], s')"
  shows "pending s = []"
  using rd_progress[of s "n - 1" s'] assms by simp

text \<open>The loop delivers exactly the next \<open>n\<close> bytes, or fails because fewer are left.\<close>

lemma istream_read_refines:
  assumes "wf s"
  shows "case read_exact n (pending s) of
      Inl e \<Rightarrow> istream_read rd n s = Inl e
    | Inr (d, r) \<Rightarrow> \<exists>s'. istream_read rd n s = Inr (d, s') \<and> wf s' \<and> pending s' = r"
  using assms
proof (induction n arbitrary: s rule: less_induct)
  case (less n)
  show ?case
  proof (cases "n = 0")
    case True
    then show ?thesis using less.prems by (simp add: read_exact_def istream_read.simps)
  next
    case False
    obtain d s' where d: "rd s n = Inr (d, s')" "wf s'" "pending s = d @ pending s'" "length d \<le> n"
      using rd_spec[OF less.prems] by blast
    show ?thesis
    proof (cases "d = []")
      case True
      then have "pending s = []" using istream_read_empty[OF less.prems] d(1) False by simp
      then show ?thesis using False d(1) True by (simp add: read_exact_def istream_read.simps)
    next
      case ne: False
      then have "n - length d < n" using False by simp
      from less.IH[OF this d(2)]
      show ?thesis
        using False ne d by (auto simp: read_exact_def istream_read.simps[of rd n s] split: if_splits)
    qed
  qed
qed

lemma istream_read_length:
  assumes "wf s" and "istream_read rd n s = Inr (d, s')"
  shows "pending s = d @ pending s'" "length d = n" "wf s'"
  using istream_read_refines[OF assms(1), of n] assms(2)
  by (auto simp: read_exact_Inr split: sum.splits prod.splits)

lemma read_chunks_refines:
  assumes "wf s" and "length data \<le> sz"
  shows "case read_exact (sz - length data) (pending s) of
      Inl e \<Rightarrow> read_chunks rd data sz s = Inl e
    | Inr (d, r) \<Rightarrow> \<exists>s'. read_chunks rd data sz s = Inr (data @ d, s') \<and> wf s' \<and> pending s' = r"
  using assms
proof (induction "sz - length data" arbitrary: data s rule: less_induct)
  case less
  show ?case
  proof (cases "length data = sz")
    case True
    then show ?thesis using less.prems by (simp add: read_exact_def read_chunks.simps)
  next
    case False
    define k where "k = min CHUNK (sz - length data)"
    have k: "0 < k" "k \<le> sz - length data" using False less.prems(2) by (auto simp: k_def CHUNK_def)
    note r = istream_read_refines[OF less.prems(1), of k]
    show ?thesis
    proof (cases "length (pending s) < k")
      case True
      then show ?thesis
        using k r False less.prems(2) by (auto simp: read_exact_def read_chunks.simps[of rd data sz s] k_def[symmetric])
    next
      case enough: False
      then obtain s' where s': "istream_read rd k s = Inr (take k (pending s), s')" "wf s'"
          "pending s' = drop k (pending s)"
        using r by (auto simp: read_exact_def)
      let ?data = "data @ take k (pending s)"
      have len: "length ?data \<le> sz" "length ?data = length data + k" using k enough less.prems(2) False by auto
      then have "sz - length ?data < sz - length data" using k False less.prems(2) by linarith
      from less.hyps[OF this s'(2) len(1)]
      have IH: "case read_exact (sz - length ?data) (drop k (pending s)) of
          Inl e \<Rightarrow> read_chunks rd ?data sz s' = Inl e
        | Inr (d, r) \<Rightarrow> \<exists>s''. read_chunks rd ?data sz s' = Inr (?data @ d, s'') \<and> wf s'' \<and> pending s'' = r"
        by (simp only: s'(3))
      have step: "read_chunks rd data sz s = read_chunks rd ?data sz s'"
        using False less.prems(2) enough s'(1) by (subst read_chunks.simps) (simp add: k_def[symmetric] min_absorb2)
      have "take k (pending s) @ take (sz - length ?data) (drop k (pending s)) = take (sz - length data) (pending s)"
        using len k by (simp flip: take_add)
      then show ?thesis
        using IH len k enough unfolding step by (auto simp: read_exact_def add.commute split: if_splits)
    qed
  qed
qed

text \<open>Growing the result in chunks is the same as one exact read.\<close>

lemma read_block_refines:
  assumes "wf s"
  shows "case read_exact sz (pending s) of
      Inl e \<Rightarrow> read_block rd sz s = Inl e
    | Inr (d, r) \<Rightarrow> \<exists>s'. read_block rd sz s = Inr (d, s') \<and> wf s' \<and> pending s' = r"
proof (cases "length (pending s) < min CHUNK sz")
  case True
  then show ?thesis
    using istream_read_refines[OF assms, of "min CHUNK sz"] by (auto simp: read_block_def read_exact_def)
next
  case False
  let ?k = "min CHUNK sz"
  obtain s' where s': "istream_read rd ?k s = Inr (take ?k (pending s), s')" "wf s'"
      "pending s' = drop ?k (pending s)"
    using istream_read_refines[OF assms, of ?k] False by (auto simp: read_exact_def)
  have "length (take ?k (pending s)) = ?k" using False unfolding length_take by linarith
  moreover have "take ?k (pending s) @ take (sz - ?k) (drop ?k (pending s)) = take sz (pending s)"
    by (simp flip: take_add)
  ultimately show ?thesis
    using read_chunks_refines[OF s'(2), of "take ?k (pending s)" sz] s' False
    by (auto simp: read_block_def read_exact_def split: if_splits)
qed

end

locale output_stream =
  fixes wr :: "'s write_some"
    and written :: "'s \<Rightarrow> bytes"
    and wf :: "'s \<Rightarrow> bool"
  assumes wr_spec: "wf s \<Longrightarrow> \<exists>n s'. wr s d = Inr (n, s') \<and> wf s' \<and> n \<le> length d \<and> written s' = written s @ take n d"
begin

text \<open>The loop appends all of its data, or fails because the sink is full.\<close>

lemma ostream_write_spec:
  assumes "wf s"
  shows "(\<exists>s'. ostream_write wr d s = Inr s' \<and> wf s' \<and> written s' = written s @ d) \<or>
    ostream_write wr d s = Inl (StreamError ''IOutputStream error writing to full stream'')"
  using assms
proof (induction "length d" arbitrary: d s rule: less_induct)
  case less
  show ?case
  proof (cases "d = []")
    case True
    then show ?thesis using less.prems by (simp add: ostream_write.simps)
  next
    case False
    obtain n s' where n: "wr s d = Inr (n, s')" "wf s'" "n \<le> length d" "written s' = written s @ take n d"
      using wr_spec[OF less.prems] by blast
    show ?thesis
    proof (cases "n = 0")
      case True
      then show ?thesis using False n(1) by (simp add: ostream_write.simps)
    next
      case pos: False
      then have "length (drop n d) < length d" using False by simp
      from less.hyps[OF this n(2)] show ?thesis
        using False pos n by (simp add: ostream_write.simps[of wr d s])
    qed
  qed
qed

end

text \<open>A stream that is read where it is written is a queue of bytes.\<close>

locale byte_queue = input_stream rd pending wf + output_stream wr pending wf
  for rd :: "'s read_some" and wr :: "'s write_some" and pending :: "'s \<Rightarrow> bytes" and wf :: "'s \<Rightarrow> bool"
begin

lemma write_then_read:
  assumes "wf s" and "ostream_write wr d s = Inr s'"
  shows "\<exists>s''. istream_read rd (length (pending s) + length d) s' = Inr (pending s @ d, s'') \<and> pending s'' = [] \<and> wf s''"
proof -
  have s': "wf s'" "pending s' = pending s @ d" using ostream_write_spec[OF assms(1), of d] assms(2) by auto
  then show ?thesis
    using istream_read_refines[OF s'(1), of "length (pending s) + length d"] by (auto simp: read_exact_def)
qed

end

section \<open>Streams over a buffer in memory keep the contract\<close>

definition mem_pending :: "mem_stream \<Rightarrow> bytes" where
  "mem_pending s = drop (in_position s) (buffer s)"

definition mem_wf :: "mem_stream \<Rightarrow> bool" where
  "mem_wf s = (in_position s \<le> length (buffer s))"

lemma mem_take_drop: "drop p xs = take n (drop p xs) @ drop (n + p) xs"
  by (metis append_take_drop_id drop_drop)

interpretation memory: input_stream memory_read_some mem_pending mem_wf
  by unfold_locales (auto simp: memory_read_some_def mem_pending_def mem_wf_def Let_def min_def add.commute
      intro: mem_take_drop split: if_splits)

interpretation string_stream: byte_queue string_read_some string_write_some mem_pending mem_wf
  by unfold_locales (auto simp: string_read_some_def string_write_some_def mem_pending_def mem_wf_def Let_def
      min_def add.commute intro: mem_take_drop split: if_splits)

lemma memory_empty_pending: "mem_wf s \<Longrightarrow> memory_empty s \<longleftrightarrow> mem_pending s = []"
  by (auto simp: memory_empty_def mem_pending_def mem_wf_def)

section \<open>The circular buffer is a bounded queue\<close>

definition circular_wf :: "circular_buffer \<Rightarrow> bool" where
  "circular_wf b = (read_pos b \<le> write_pos b \<and> write_pos b \<le> read_pos b + length (impl b) \<and>
     read_pos b < length (impl b))"

definition circular_pending :: "circular_buffer \<Rightarrow> bytes" where
  "circular_pending b =
     map (\<lambda>k. impl b ! ((read_pos b + k) mod length (impl b))) [0..<write_pos b - read_pos b]"

lemma length_circular_pending [simp]: "length (circular_pending b) = write_pos b - read_pos b"
  by (simp add: circular_pending_def)

lemma circular_size_pending: "circular_wf b \<Longrightarrow> circular_size b = length (circular_pending b)"
  by (auto simp: circular_wf_def circular_size_def read_count_def read_count2_def)

lemma circular_capacity_free:
  "circular_wf b \<Longrightarrow> circular_capacity b + circular_size b = length (impl b)"
  by (auto simp: circular_wf_def circular_size_def circular_capacity_def read_count_def read_count2_def
      write_count_def write_count2_def)

lemma length_poke: "off + length d \<le> length m \<Longrightarrow> length (poke m off d) = length m"
  by (simp add: poke_def)

lemma nth_poke:
  "off + length d \<le> length m \<Longrightarrow> i < length m \<Longrightarrow>
   poke m off d ! i = (if off \<le> i \<and> i < off + length d then d ! (i - off) else m ! i)"
  by (auto simp: poke_def nth_append)

lemma did_read_spec:
  assumes "circular_wf b" and "count \<le> read_count b"
  shows "\<exists>b'. did_read b count = Inr b' \<and> circular_wf b' \<and> length (impl b') = length (impl b) \<and>
    circular_pending b = take count (drop (read_pos b) (impl b)) @ circular_pending b'"
proof -
  let ?n = "length (impl b)"
  have b: "read_pos b \<le> write_pos b" "write_pos b \<le> read_pos b + ?n" "read_pos b < ?n"
    "read_pos b + count \<le> ?n" "read_pos b + count \<le> write_pos b"
    using assms by (auto simp: circular_wf_def read_count_def split: if_splits)
  define b' where "b' = (if ?n \<le> read_pos b + count
      then b\<lparr>read_pos := read_pos b + count - ?n, write_pos := write_pos b - ?n\<rparr>
      else b\<lparr>read_pos := read_pos b + count\<rparr>)"
  have r: "did_read b count = Inr b'" using b(5) by (auto simp: did_read_def Let_def b'_def)
  have wf: "circular_wf b'" using b by (auto simp: circular_wf_def b'_def)
  have i: "impl b' = impl b" "write_pos b' - read_pos b' = write_pos b - read_pos b - count"
    "(read_pos b' + k) mod ?n = (read_pos b + count + k) mod ?n" for k
    using b by (auto simp: b'_def le_mod_geq)
  have "circular_pending b = take count (drop (read_pos b) (impl b)) @ circular_pending b'"
  proof (rule nth_equalityI)
    show "length (circular_pending b) = length (take count (drop (read_pos b) (impl b)) @ circular_pending b')"
      using b i(2) by simp
    fix k
    assume "k < length (circular_pending b)"
    then have k: "k < write_pos b - read_pos b" by simp
    show "circular_pending b ! k = (take count (drop (read_pos b) (impl b)) @ circular_pending b') ! k"
    proof (cases "k < count")
      case True
      then show ?thesis using b k by (simp add: circular_pending_def nth_append)
    next
      case False
      then have "(read_pos b' + (k - count)) mod ?n = (read_pos b + k) mod ?n" using i(3)[of "k - count"] by simp
      moreover have "min (?n - read_pos b) count = count" using b(4) by linarith
      ultimately show ?thesis using b k i(1,2) False by (simp add: circular_pending_def nth_append)
    qed
  qed
  then show ?thesis using r wf i(1) by auto
qed

lemma did_write_spec:
  assumes "circular_wf b" and "length d \<le> write_count b"
  shows "\<exists>b'. did_write (b\<lparr>impl := poke (impl b) (write_offset b) d\<rparr>) (length d) = Inr b' \<and> circular_wf b' \<and>
    length (impl b') = length (impl b) \<and> circular_pending b' = circular_pending b @ d"
proof -
  let ?n = "length (impl b)"
  have b: "read_pos b \<le> write_pos b" "write_pos b \<le> read_pos b + ?n" "read_pos b < ?n"
    using assms(1) by (auto simp: circular_wf_def)
  have off: "write_offset b + length d \<le> ?n" "write_pos b + length d \<le> read_pos b + ?n"
    using assms b by (auto simp: write_offset_def write_count_def split: if_splits)
  define b' where "b' = b\<lparr>impl := poke (impl b) (write_offset b) d, write_pos := write_pos b + length d\<rparr>"
  have len: "length (impl b') = ?n" using off(1) by (simp add: b'_def length_poke)
  have w: "did_write (b\<lparr>impl := poke (impl b) (write_offset b) d\<rparr>) (length d) = Inr b'"
    using off by (simp add: did_write_def Let_def b'_def length_poke)
  have wf: "circular_wf b'" using b off(2) len by (simp add: circular_wf_def b'_def)
  have old: "\<not> (write_offset b \<le> (read_pos b + k) mod ?n \<and> (read_pos b + k) mod ?n < write_offset b + length d)"
    if "k < write_pos b - read_pos b" for k
    using that b off assms(2)
    by (cases "read_pos b + k < ?n") (auto simp: write_offset_def write_count_def le_mod_geq split: if_splits)
  have new: "(write_pos b + j) mod ?n = write_offset b + j" if "j < length d" for j
    using that b off by (auto simp: write_offset_def le_mod_geq split: if_splits)
  have m: "(read_pos b + k) mod ?n < ?n" for k using b(3) by (intro mod_less_divisor) linarith
  have "circular_pending b' = circular_pending b @ d"
  proof (rule nth_equalityI)
    show "length (circular_pending b') = length (circular_pending b @ d)"
      using b by (simp add: b'_def)
    fix k
    assume "k < length (circular_pending b')"
    then have k: "k < write_pos b + length d - read_pos b" by (simp add: b'_def)
    have e: "circular_pending b' ! k = poke (impl b) (write_offset b) d ! ((read_pos b + k) mod ?n)"
      using k off(1) by (simp add: circular_pending_def b'_def length_poke)
    show "circular_pending b' ! k = (circular_pending b @ d) ! k"
    proof (cases "k < write_pos b - read_pos b")
      case True
      have "poke (impl b) (write_offset b) d ! ((read_pos b + k) mod ?n) = impl b ! ((read_pos b + k) mod ?n)"
        unfolding nth_poke[OF off(1) m] by (rule if_not_P[OF old[OF True]])
      then show ?thesis unfolding e using True by (simp add: nth_append circular_pending_def)
    next
      case False
      define j where "j = k - (write_pos b - read_pos b)"
      have j: "j < length d" "read_pos b + k = write_pos b + j" using False k b by (auto simp: j_def)
      have "poke (impl b) (write_offset b) d ! ((read_pos b + k) mod ?n) = d ! j"
        unfolding j(2) new[OF j(1)] using j(1) off(1) by (subst nth_poke[OF off(1)]) auto
      then show ?thesis unfolding e using False by (simp add: nth_append j_def)
    qed
  qed
  then show ?thesis using w wf len by auto
qed

lemma circular_read_spec:
  assumes "circular_wf b"
  shows "\<exists>d b'. circular_read_some b n = Inr (d, b') \<and> circular_wf b' \<and>
    circular_pending b = d @ circular_pending b' \<and> length d = min n (read_count b)"
proof -
  let ?c = "min n (read_count b)"
  have "?c \<le> length (impl b) - read_pos b"
    using assms by (auto simp: circular_wf_def read_count_def)
  then have "length (take ?c (drop (read_pos b) (impl b))) = ?c" by simp
  then show ?thesis
    using did_read_spec[OF assms, of ?c] by (auto simp: circular_read_some_def Let_def)
qed

lemma read_count_0: "circular_wf b \<Longrightarrow> read_count b = 0 \<Longrightarrow> circular_pending b = []"
  by (auto simp: circular_wf_def read_count_def circular_pending_def split: if_splits)

lemma circular_write_spec:
  assumes "circular_wf b"
  shows "\<exists>b'. circular_write_some b d = Inr (min (length d) (write_count b), b') \<and> circular_wf b' \<and>
    length (impl b') = length (impl b) \<and>
    circular_pending b' = circular_pending b @ take (min (length d) (write_count b)) d"
proof -
  let ?d = "take (min (length d) (write_count b)) d"
  have "length ?d = min (length d) (write_count b)" by simp
  then show ?thesis
    using did_write_spec[OF assms, of ?d] by (auto simp: circular_write_some_def Let_def)
qed

interpretation circular: byte_queue circular_read_some circular_write_some circular_pending circular_wf
proof
  fix b n
  assume wf: "circular_wf b"
  show "\<exists>d b'. circular_read_some b n = Inr (d, b') \<and> circular_wf b' \<and> circular_pending b = d @ circular_pending b' \<and>
      length d \<le> n"
    using circular_read_spec[OF wf, of n] by auto
next
  fix b n b'
  assume wf: "circular_wf b" and e: "circular_read_some b (Suc n) = Inr ([], b')"
  have "read_count b = 0" using circular_read_spec[OF wf, of "Suc n"] e by auto
  then show "circular_pending b = []" using read_count_0[OF wf] by simp
next
  fix b d
  assume "circular_wf b"
  from circular_write_spec[OF this, of d]
  show "\<exists>n b'. circular_write_some b d = Inr (n, b') \<and> circular_wf b' \<and> n \<le> length d \<and>
      circular_pending b' = circular_pending b @ take n d" by auto
qed

text \<open>Filling the buffer from a stream and emptying it into one neither lose nor reorder bytes.\<close>

context input_stream begin

lemma circular_copy_from_conserves:
  assumes "circular_wf b" and "wf inp"
  shows "\<exists>b' inp'. circular_copy_from rd b inp = Inr (b', inp') \<and> circular_wf b' \<and> wf inp' \<and>
    circular_pending b' @ pending inp' = circular_pending b @ pending inp"
  using assms
proof (induction "read_pos b + length (impl b) - write_pos b" arbitrary: b inp rule: less_induct)
  case less
  show ?case
  proof (cases "write_count b = 0")
    case True
    then show ?thesis using less.prems by (simp add: circular_copy_from.simps)
  next
    case False
    obtain d i where d: "rd inp (write_count b) = Inr (d, i)" "wf i" "pending inp = d @ pending i"
        "length d \<le> write_count b"
      using rd_spec[OF less.prems(2)] by blast
    obtain c where c: "did_write (b\<lparr>impl := poke (impl b) (write_offset b) d\<rparr>) (length d) = Inr c" "circular_wf c"
        "length (impl c) = length (impl b)" "circular_pending c = circular_pending b @ d"
      using did_write_spec[OF less.prems(1) d(4)] by blast
    have pos: "read_pos c = read_pos b" "write_pos c = write_pos b + length d"
      using c(1) by (auto simp: did_write_def Let_def split: if_splits)
    show ?thesis
    proof (cases "d = []")
      case True
      then show ?thesis using d c False by (simp add: circular_copy_from.simps[of rd b])
    next
      case ne: False
      have "write_pos c \<le> read_pos c + length (impl c)" using c(2) by (simp add: circular_wf_def)
      then have "read_pos c + length (impl c) - write_pos c < read_pos b + length (impl b) - write_pos b"
        using ne pos c(3) by (cases d) auto
      moreover have "circular_copy_from rd b inp = circular_copy_from rd c i"
        using False d(1) c(1,3) ne by (simp add: circular_copy_from.simps[of rd b])
      ultimately show ?thesis using less.hyps[OF _ c(2) d(2)] c(4) d(3) by simp
    qed
  qed
qed

end

context output_stream begin

lemma circular_copy_to_conserves:
  assumes "circular_wf b" and "wf out"
  shows "\<exists>moved b' out'. circular_copy_to wr max_count b out = Inr (length moved, b', out') \<and>
    circular_wf b' \<and> wf out' \<and> length moved \<le> max_count \<and>
    circular_pending b = moved @ circular_pending b' \<and> written out' = written out @ moved"
  using assms
proof (induction max_count arbitrary: b out rule: less_induct)
  case (less max_count)
  define rc where "rc = min (read_count b) max_count"
  let ?chunk = "take rc (drop (read_pos b) (impl b))"
  show ?case
  proof (cases "rc = 0")
    case True
    then show ?thesis using less.prems by (simp add: circular_copy_to.simps[of wr max_count b] rc_def)
  next
    case False
    obtain n o1 where n: "wr out ?chunk = Inr (n, o1)" "wf o1" "n \<le> length ?chunk" "written o1 = written out @ take n ?chunk"
      using wr_spec[OF less.prems(2)] by blast
    have nrc: "n \<le> rc" "n \<le> read_count b" using n(3) by (auto simp: rc_def)
    obtain c where c: "did_read b n = Inr c" "circular_wf c"
        "circular_pending b = take n (drop (read_pos b) (impl b)) @ circular_pending c"
      using did_read_spec[OF less.prems(1) nrc(2)] by blast
    have tk: "take n ?chunk = take n (drop (read_pos b) (impl b))" using nrc(1) by (simp add: min_absorb1)
    have ln: "length (take n ?chunk) = n" using n(3) by simp
    have e: "circular_copy_to wr max_count b out = (if n = 0 then Inr (0, c, o1)
        else bindR (circular_copy_to wr (max_count - n) c o1) (\<lambda>(t, b2, o2). Inr (n + t, b2, o2)))"
      using False n(1) c(1)
      by (cases "n = 0") (simp_all add: circular_copy_to.simps[of wr max_count b out] rc_def[symmetric] Let_def)
    show ?thesis
    proof (cases "n = 0")
      case True
      then show ?thesis using e n c by (intro exI[of _ "[]"]) simp
    next
      case ne: False
      have "max_count - n < max_count" using ne nrc(1) False by (auto simp: rc_def)
      from less.IH[OF this c(2) n(2)] obtain mv b' out' where
          t: "circular_copy_to wr (max_count - n) c o1 = Inr (length mv, b', out')" and
          mv: "circular_wf b'" "wf out'" "length mv \<le> max_count - n"
          "circular_pending c = mv @ circular_pending b'" "written out' = written o1 @ mv"
        by blast
      let ?mv = "take n ?chunk @ mv"
      have "length ?mv \<le> max_count" using ln mv(3) nrc(1) by (auto simp: rc_def)
      moreover have "circular_pending b = ?mv @ circular_pending b'" using c(3) mv(4) unfolding tk by simp
      moreover have "written out' = written out @ ?mv" using n(4) mv(5) by simp
      moreover have "circular_copy_to wr max_count b out = Inr (length ?mv, b', out')"
        using e ne t ln by simp
      ultimately show ?thesis using mv(1,2) by blast
    qed
  qed
qed

end

section \<open>Properties\<close>

text \<open>
  The circular buffer of the network code is a bounded queue. Writing takes as many bytes as fit
  contiguously and appends them, reading takes them from the front, no invariant check fires, and used
  and free space always add up to the buffer's size.
\<close>

theorem circular_buffer_is_queue:
  assumes "circular_wf b"
  shows "(\<exists>b'. circular_write_some b d = Inr (min (length d) (write_count b), b') \<and> circular_wf b' \<and>
      circular_pending b' = circular_pending b @ take (min (length d) (write_count b)) d) \<and>
    (\<exists>x b'. circular_read_some b n = Inr (x, b') \<and> circular_wf b' \<and>
      circular_pending b = x @ circular_pending b' \<and> length x = min n (read_count b)) \<and>
    circular_capacity b + length (circular_pending b) = length (impl b)"
  using circular_write_spec[OF assms, of d] circular_read_spec[OF assms, of n] circular_capacity_free[OF assms]
    circular_size_pending[OF assms] by auto

theorem circular_buffer_is_queue_witness:
  "circular_wf \<lparr>impl = [1, 2, 3, 4], read_pos = 3, write_pos = 6\<rparr> \<and>
   circular_pending \<lparr>impl = [1, 2, 3, 4], read_pos = 3, write_pos = 6\<rparr> = [4, 1, 2] \<and>
   (\<exists>b'. circular_write_some \<lparr>impl = [1, 2, 3, 4], read_pos = 3, write_pos = 6\<rparr> [7, 8] = Inr (1, b') \<and>
      circular_pending b' = [4, 1, 2, 7])"
proof -
  let ?b = "\<lparr>impl = [1, 2, 3, 4], read_pos = 3, write_pos = 6\<rparr>"
  have wf: "circular_wf ?b" by (simp add: circular_wf_def)
  have p: "circular_pending ?b = [4, 1, 2]" by (simp add: circular_pending_def upt_rec)
  show ?thesis
    using circular_buffer_is_queue[OF wf, of "[7, 8]" 0] wf p by (auto simp: write_count_def)
qed

text \<open>
  The loops that fill the circular buffer from a stream and drain it into another always return
  and conserve the data: what the sink received, then what the buffer holds, then what the source still
  has to offer is the same sequence of bytes before and after.
\<close>

theorem circular_transfer_conserves:
  assumes "circular_wf b" and "mem_wf src" and "mem_wf out"
  shows "\<exists>b1 src1 n b2 out2.
    circular_copy_from string_read_some b src = Inr (b1, src1) \<and>
    circular_copy_to string_write_some max_count b1 out = Inr (n, b2, out2) \<and> n \<le> max_count \<and>
    mem_pending out2 @ circular_pending b2 @ mem_pending src1 = mem_pending out @ circular_pending b @ mem_pending src"
proof -
  obtain b1 src1 where 1: "circular_copy_from string_read_some b src = Inr (b1, src1)" "circular_wf b1"
      "circular_pending b1 @ mem_pending src1 = circular_pending b @ mem_pending src"
    using string_stream.circular_copy_from_conserves[OF assms(1,2)] by blast
  from string_stream.circular_copy_to_conserves[OF 1(2) assms(3), of max_count] 1(1,3) show ?thesis
    by fastforce
qed

theorem circular_transfer_conserves_witness:
  "\<exists>b1 src1 n b2 out2.
    circular_copy_from string_read_some \<lparr>impl = [0, 0], read_pos = 0, write_pos = 0\<rparr> \<lparr>buffer = [5, 6, 7], in_position = 0\<rparr>
      = Inr (b1, src1) \<and>
    circular_copy_to string_write_some 1 b1 \<lparr>buffer = [], in_position = 0\<rparr> = Inr (n, b2, out2) \<and> n \<le> 1 \<and>
    mem_pending out2 @ circular_pending b2 @ mem_pending src1 = [5, 6, 7]"
  using circular_transfer_conserves[of "\<lparr>impl = [0, 0], read_pos = 0, write_pos = 0\<rparr>"
      "\<lparr>buffer = [5, 6, 7], in_position = 0\<rparr>" "\<lparr>buffer = [], in_position = 0\<rparr>" 1]
  by (simp add: circular_wf_def mem_wf_def mem_pending_def circular_pending_def)

text \<open>
  Reading a block of an announced size from a memory stream in chunks returns exactly the next
  bytes of the stream and leaves the rest, or fails with the end-of-stream error when fewer are left.
  This is what lets the serialisers be read as functions on the bytes still pending.
\<close>

theorem read_block_exact:
  assumes "mem_wf s"
  shows "(sz \<le> length (mem_pending s) \<longrightarrow>
      (\<exists>s'. read_block memory_read_some sz s = Inr (take sz (mem_pending s), s') \<and> mem_wf s' \<and>
        mem_pending s' = drop sz (mem_pending s))) \<and>
    (length (mem_pending s) < sz \<longrightarrow>
      read_block memory_read_some sz s = Inl (StreamError ''IInputStream reading from empty stream''))"
  using memory.read_block_refines[OF assms, of sz] by (auto simp: read_exact_def split: if_splits)

theorem read_block_exact_witness:
  "mem_wf \<lparr>buffer = [1, 2, 3], in_position = 1\<rparr> \<and>
   (\<exists>s'. read_block memory_read_some 1 \<lparr>buffer = [1, 2, 3], in_position = 1\<rparr> = Inr ([2], s') \<and> mem_pending s' = [3])"
  using read_block_exact[of "\<lparr>buffer = [1, 2, 3], in_position = 1\<rparr>" 1] by (auto simp: mem_wf_def mem_pending_def)

end
