(* ===== verification/BinarySeria.thy ===== *)
theory BinarySeria
  imports Streams Varint
begin

text \<open>
  The data of the chain (\<open>src/src/CryptoNote.hpp\<close>) and its binary form: the primitives of
  \<open>seria::BinaryOutputStream\<close> and \<open>seria::BinaryInputStream\<close>, the containers of \<open>ISeria.hpp\<close> and the
  \<open>ser_members\<close> functions of \<open>src/src/Core/rpc_api_serialization.cpp\<close> for transactions. A \<open>ser_members\<close>
  serves both directions in the source; here it is a writer and a reader. Readers consume a prefix of
  the bytes pending in the stream; hashes, keys and signatures are byte strings of 32 and 64 bytes.
  A vector of an announced length is read element by element, the memory \<open>resize\<close> reserves for it
  is not modelled.
\<close>

section \<open>Definitions\<close>

subsection \<open>Data\<close>

datatype transaction_input =
    CoinbaseInput (block_index: u32)
  | KeyInput (in_amount: u64) (output_indexes: "u32 list") (key_image: bytes)

datatype transaction_output_target =
    KeyOutput (out_key: bytes)

record transaction_output =
  out_amount :: u64
  out_target :: transaction_output_target

record transaction_prefix =
  version :: u8
  unlock_time :: u64
  inputs :: "transaction_input list"
  outputs :: "transaction_output list"
  extra :: bytes

record transaction = transaction_prefix +
  signatures :: "bytes list list"

type_synonym base_transaction = transaction_prefix

record account_public_address =
  spend_public_key :: bytes
  view_public_key :: bytes

subsection \<open>Primitives and containers\<close>

definition ser_binary :: "nat \<Rightarrow> bytes reader" where
  "ser_binary n bs = read_exact n bs"

definition write_binary_array :: "bytes \<Rightarrow> bytes" where
  "write_binary_array v = write_varint_stream (word_of_nat (length v)) @ v"

definition read_binary_array :: "bytes reader" where
  "read_binary_array bs =
     bindR (read_varint_stream bs) (\<lambda>(sz :: u64, bs'). read_exact (unat sz) bs')"

definition write_container :: "('a \<Rightarrow> bytes) \<Rightarrow> 'a list \<Rightarrow> bytes" where
  "write_container wr xs = write_varint_stream (word_of_nat (length xs)) @ concat (map wr xs)"

definition read_container :: "'a reader \<Rightarrow> 'a list reader" where
  "read_container rd bs =
     bindR (read_varint_stream bs) (\<lambda>(sz :: u64, bs'). read_seq rd (unat sz) bs')"

definition read_u8 :: "u8 reader" where "read_u8 bs = read_varint_stream bs"
definition read_u32 :: "u32 reader" where "read_u32 bs = read_varint_stream bs"
definition read_u64 :: "u64 reader" where "read_u64 bs = read_varint_stream bs"
definition write_u8 :: "u8 \<Rightarrow> bytes" where "write_u8 v = write_varint_stream (ucast v)"
definition write_u32 :: "u32 \<Rightarrow> bytes" where "write_u32 v = write_varint_stream (ucast v)"
definition write_u64 :: "u64 \<Rightarrow> bytes" where "write_u64 v = write_varint_stream v"

text \<open>\<open>from_binary\<close> refuses bytes left over after the object.\<close>

definition from_binary :: "'a reader \<Rightarrow> bytes \<Rightarrow> 'a result" where
  "from_binary rd blob =
     bindR (rd blob) (\<lambda>(x, rest).
       if rest = [] then Inr x else Inl (RuntimeError ''Excess data in from_binary''))"

subsection \<open>Transactions\<close>

definition tag_base :: byte where "tag_base = 0xff"
definition tag_key :: byte where "tag_key = 0x2"

definition write_input :: "transaction_input \<Rightarrow> bytes" where
  "write_input v =
     (case v of
        CoinbaseInput bi \<Rightarrow> tag_base # write_u32 bi
      | KeyInput a idx ki \<Rightarrow> tag_key # (write_u64 a @ write_container write_u32 idx @ ki))"

definition read_key_input :: "transaction_input reader" where
  "read_key_input bs =
     bindR (read_u64 bs) (\<lambda>(a, bs1).
     bindR (read_container read_u32 bs1) (\<lambda>(idx, bs2).
     bindR (ser_binary 32 bs2) (\<lambda>(ki, bs3). Inr (KeyInput a idx ki, bs3))))"

definition read_input :: "transaction_input reader" where
  "read_input bs =
     bindR (ser_binary 1 bs) (\<lambda>(tag, bs1).
       if hd tag = tag_base then bindR (read_u32 bs1) (\<lambda>(bi, bs2). Inr (CoinbaseInput bi, bs2))
       else if hd tag = tag_key then read_key_input bs1
       else Inl (RuntimeError ''Deserialization error - unknown input tag''))"

definition write_output_target :: "transaction_output_target \<Rightarrow> bytes" where
  "write_output_target v = (case v of KeyOutput k \<Rightarrow> tag_key # k)"

definition read_output_target :: "transaction_output_target reader" where
  "read_output_target bs =
     bindR (ser_binary 1 bs) (\<lambda>(tag, bs1).
       if hd tag = tag_key then bindR (ser_binary 32 bs1) (\<lambda>(k, bs2). Inr (KeyOutput k, bs2))
       else Inl (RuntimeError ''Deserialization error - unknown output tag''))"

definition write_output :: "transaction_output \<Rightarrow> bytes" where
  "write_output v = write_u64 (out_amount v) @ write_output_target (out_target v)"

definition read_output :: "transaction_output reader" where
  "read_output bs =
     bindR (read_u64 bs) (\<lambda>(a, bs1).
     bindR (read_output_target bs1) (\<lambda>(t, bs2). Inr (\<lparr>out_amount = a, out_target = t\<rparr>, bs2)))"

definition write_prefix :: "('z) transaction_prefix_scheme \<Rightarrow> bytes" where
  "write_prefix v =
     write_u8 (version v) @ write_u64 (unlock_time v) @ write_container write_input (inputs v) @
     write_container write_output (outputs v) @ write_binary_array (extra v)"

definition read_prefix :: "transaction_prefix reader" where
  "read_prefix bs =
     bindR (read_u8 bs) (\<lambda>(ver, bs1).
     bindR (read_u64 bs1) (\<lambda>(ut, bs2).
     bindR (read_container read_input bs2) (\<lambda>(ins, bs3).
     bindR (read_container read_output bs3) (\<lambda>(outs, bs4).
     bindR (read_binary_array bs4) (\<lambda>(ex, bs5).
       Inr (\<lparr>version = ver, unlock_time = ut, inputs = ins, outputs = outs, extra = ex\<rparr>, bs5))))))"

text \<open>A version 2 base transaction carries one more number, which the reader ignores.\<close>

definition write_base_transaction :: "base_transaction \<Rightarrow> bytes" where
  "write_base_transaction v = write_prefix v @ (if 2 \<le> version v then write_u64 0 else [])"

definition read_base_transaction :: "base_transaction reader" where
  "read_base_transaction bs =
     bindR (read_prefix bs) (\<lambda>(v, bs1).
       if 2 \<le> version v then bindR (read_u64 bs1) (\<lambda>(ignored, bs2). Inr (v, bs2)) else Inr (v, bs1))"

definition get_signatures_count :: "transaction_input \<Rightarrow> nat" where
  "get_signatures_count i = (case i of CoinbaseInput _ \<Rightarrow> 0 | KeyInput _ idx _ \<Rightarrow> length idx)"

definition is_base :: "('z) transaction_prefix_scheme \<Rightarrow> bool" where
  "is_base v =
     (case inputs v of [i] \<Rightarrow> (case i of CoinbaseInput _ \<Rightarrow> True | KeyInput _ _ _ \<Rightarrow> False) | _ \<Rightarrow> False)"

definition sig_size :: "('z) transaction_prefix_scheme \<Rightarrow> nat" where
  "sig_size v = (if is_base v then 0 else length (inputs v))"

fun write_signatures :: "transaction_input list \<Rightarrow> bytes list list \<Rightarrow> bytes result" where
  "write_signatures [] sigs = Inr []"
| "write_signatures (i # ins) [] = Inl OutOfRange"
| "write_signatures (i # ins) (s # sigs) =
     (if get_signatures_count i \<noteq> length s
      then Inl (RuntimeError ''Serialization error: unexpected signatures size'')
      else bindR (write_signatures ins sigs) (\<lambda>bs. Inr (concat s @ bs)))"

definition write_transaction :: "transaction \<Rightarrow> bytes result" where
  "write_transaction v =
     (let n = sig_size v
      in if n \<noteq> 0 \<and> length (inputs v) \<noteq> length (signatures v)
         then Inl (RuntimeError ''Serialization error: unexpected signatures size'')
         else bindR (write_signatures (take n (inputs v)) (signatures v)) (\<lambda>bs. Inr (write_prefix v @ bs)))"

fun read_signatures :: "transaction_input list \<Rightarrow> bytes list list reader" where
  "read_signatures [] bs = Inr ([], bs)"
| "read_signatures (i # ins) bs =
     bindR (read_seq (ser_binary 64) (get_signatures_count i) bs) (\<lambda>(s, bs1).
     bindR (read_signatures ins bs1) (\<lambda>(ss, bs2). Inr (s # ss, bs2)))"

definition read_transaction :: "transaction reader" where
  "read_transaction bs =
     bindR (read_prefix bs) (\<lambda>(p, bs1).
     bindR (read_signatures (take (sig_size p) (inputs p)) bs1) (\<lambda>(ss, bs2).
       Inr (transaction_prefix.extend p (transaction.fields ss), bs2)))"

definition write_address :: "account_public_address \<Rightarrow> bytes" where
  "write_address v = spend_public_key v @ view_public_key v"

definition read_address :: "account_public_address reader" where
  "read_address bs =
     bindR (ser_binary 32 bs) (\<lambda>(s, bs1).
     bindR (ser_binary 32 bs1) (\<lambda>(v, bs2). Inr (\<lparr>spend_public_key = s, view_public_key = v\<rparr>, bs2)))"

section \<open>Codecs of the parts\<close>

text \<open>What a value must satisfy for its fixed-size members to fit their C++ types.\<close>

definition input_ok :: "transaction_input \<Rightarrow> bool" where
  "input_ok i = (case i of CoinbaseInput _ \<Rightarrow> True | KeyInput _ idx ki \<Rightarrow> length idx < 2 ^ 64 \<and> length ki = 32)"

definition output_ok :: "transaction_output \<Rightarrow> bool" where
  "output_ok v = (case out_target v of KeyOutput k \<Rightarrow> length k = 32)"

definition prefix_ok :: "('z) transaction_prefix_scheme \<Rightarrow> bool" where
  "prefix_ok v \<longleftrightarrow> length (inputs v) < 2 ^ 64 \<and> list_all input_ok (inputs v) \<and>
     length (outputs v) < 2 ^ 64 \<and> list_all output_ok (outputs v) \<and> length (extra v) < 2 ^ 64"

definition signatures_ok :: "transaction \<Rightarrow> bool" where
  "signatures_ok v \<longleftrightarrow> length (signatures v) = sig_size v \<and>
     list_all2 (\<lambda>i s. length s = get_signatures_count i \<and> list_all (\<lambda>x. length x = 64) s)
       (take (sig_size v) (inputs v)) (signatures v)"

definition transaction_ok :: "transaction \<Rightarrow> bool" where
  "transaction_ok v \<longleftrightarrow> prefix_ok v \<and> signatures_ok v"

lemma u64_of_nat [simp]: "n < 18446744073709551616 \<Longrightarrow> unat (word_of_nat n :: u64) = n"
  by (simp add: unat_of_nat)

interpretation fixed: canonical_codec "\<lambda>v. v" "ser_binary n" "\<lambda>v. length v = n" for n
  by unfold_locales (auto simp: ser_binary_def read_exact_Inr)

interpretation cu8: canonical_codec write_u8 read_u8 "\<lambda>_. True"
  by unfold_locales
    (auto simp: write_u8_def read_u8_def write_varint_stream_narrow read_varint_stream_write
      dest: varint8.enc_dec)

interpretation cu32: canonical_codec write_u32 read_u32 "\<lambda>_. True"
  by unfold_locales
    (auto simp: write_u32_def read_u32_def write_varint_stream_narrow read_varint_stream_write
      dest: varint32.enc_dec)

interpretation cu64: canonical_codec write_u64 read_u64 "\<lambda>_. True"
  by unfold_locales
    (auto simp: write_u64_def read_u64_def write_varint_stream_def read_varint_stream_write
      dest: varint64.enc_dec)

lemma read_varint_stream_count:
  "n < 2 ^ 64 \<Longrightarrow> read_varint_stream (write_varint_stream (word_of_nat n) @ rest) = Inr (word_of_nat n :: u64, rest)"
  by (simp add: write_varint_stream_def read_varint_stream_write)

interpretation barray: canonical_codec write_binary_array read_binary_array "\<lambda>v. length v < 2 ^ 64"
proof
  fix v rest
  assume "length (v :: bytes) < 2 ^ 64"
  then show "read_binary_array (write_binary_array v @ rest) = Inr (v, rest)"
    by (simp add: read_binary_array_def write_binary_array_def read_varint_stream_count)
next
  fix bs v rest
  assume "read_binary_array bs = Inr (v, rest)"
  then show "bs = write_binary_array v @ rest \<and> length v < 2 ^ 64"
    using u64_less
    by (auto simp: read_binary_array_def write_binary_array_def bindR_eq_Inr_iff read_exact_Inr
        write_varint_stream_def dest!: varint64.enc_dec simp del: u64_less)
qed

context prefix_codec begin

lemma container_codec:
  "prefix_codec (write_container enc) (read_container dec) (\<lambda>vs. length vs < 2 ^ 64 \<and> list_all valid vs)"
proof
  fix vs rest
  assume "length (vs :: 'a list) < 2 ^ 64 \<and> list_all valid vs"
  then show "read_container dec (write_container enc vs @ rest) = Inr (vs, rest)"
    by (simp add: read_container_def write_container_def read_varint_stream_count read_seq_enc list_all_iff)
qed

end

context canonical_codec begin

lemma container_canonical:
  "canonical_codec (write_container enc) (read_container dec) (\<lambda>vs. length vs < 2 ^ 64 \<and> list_all valid vs)"
proof (rule canonical_codec.intro[OF container_codec], unfold_locales)
  fix bs vs rest
  assume "read_container dec bs = Inr (vs, rest)"
  then obtain sz b1 where sz: "read_varint_stream bs = Inr (sz :: u64, b1)" "read_seq dec (unat sz) b1 = Inr (vs, rest)"
    by (auto simp: read_container_def bindR_eq_Inr_iff)
  have "bs = write_varint sz @ b1" using varint64.enc_dec[OF sz(1)] by simp
  moreover have "b1 = concat (map enc vs) @ rest" "length vs = unat sz" "\<forall>v \<in> set vs. valid v"
    using read_seq_dec[OF sz(2)] by auto
  moreover have "unat sz < 2 ^ 64" by simp
  ultimately show "bs = write_container enc vs @ rest \<and> length vs < 2 ^ 64 \<and> list_all valid vs"
    by (simp add: write_container_def write_varint_stream_def list_all_iff)
qed

end

interpretation cindexes: canonical_codec "write_container write_u32" "read_container read_u32"
  "\<lambda>vs. length vs < 2 ^ 64 \<and> list_all (\<lambda>_. True) vs"
  by (rule cu32.container_canonical)

lemma ser_binary_1: "ser_binary 1 bs = Inr (t, rest) \<longleftrightarrow> (\<exists>b. t = [b] \<and> bs = b # rest)"
  by (auto simp: fixed.dec_iff length_Suc_conv)

lemma ser_binary_Cons [simp]: "ser_binary 1 (b # rest) = Inr ([b], rest)" "ser_binary (Suc 0) (b # rest) = Inr ([b], rest)"
  using ser_binary_1[of "b # rest" "[b]" rest] by simp_all

lemma tags_differ [simp]: "tag_base \<noteq> tag_key" "tag_key \<noteq> tag_base"
  by (simp_all add: tag_base_def tag_key_def)

lemmas part_codec_simps = cu8.dec_enc cu32.dec_enc cu64.dec_enc fixed.dec_enc barray.dec_enc cindexes.dec_enc
lemmas part_codec_dests = cu8.enc_dec cu32.enc_dec cu64.enc_dec fixed.enc_dec barray.enc_dec cindexes.enc_dec

lemma read_key_input_iff:
  "read_key_input bs = Inr (i, rest) \<longleftrightarrow>
    (\<exists>a idx ki. i = KeyInput a idx ki \<and> length idx < 2 ^ 64 \<and> length ki = 32 \<and>
      bs = write_u64 a @ write_container write_u32 idx @ ki @ rest)"
  by (auto simp: read_key_input_def bindR_eq_Inr_iff cu64.dec_iff cindexes.dec_iff fixed.dec_iff
      list_all_iff)

interpretation cinput: canonical_codec write_input read_input input_ok
proof
  fix v rest
  assume "input_ok v"
  then show "read_input (write_input v @ rest) = Inr (v, rest)"
    by (cases v) (auto simp: input_ok_def write_input_def read_input_def cu32.dec_enc read_key_input_iff)
next
  fix bs v rest
  assume "read_input bs = Inr (v, rest)"
  then show "bs = write_input v @ rest \<and> input_ok v"
    by (auto simp: read_input_def write_input_def input_ok_def bindR_eq_Inr_iff fixed.dec_iff read_key_input_iff
        cu32.dec_iff length_Suc_conv split: if_splits)
qed

interpretation coutput: canonical_codec write_output read_output output_ok
proof
  fix v rest
  assume "output_ok v"
  then show "read_output (write_output v @ rest) = Inr (v, rest)"
    by (cases "out_target v")
      (auto simp: output_ok_def write_output_def read_output_def write_output_target_def read_output_target_def
        cu64.dec_enc fixed.dec_enc)
next
  fix bs v rest
  assume "read_output bs = Inr (v, rest)"
  then show "bs = write_output v @ rest \<and> output_ok v"
    by (auto simp: output_ok_def write_output_def read_output_def write_output_target_def read_output_target_def
        bindR_eq_Inr_iff cu64.dec_iff fixed.dec_iff length_Suc_conv split: if_splits)
qed

interpretation cinputs: canonical_codec "write_container write_input" "read_container read_input"
  "\<lambda>vs. length vs < 2 ^ 64 \<and> list_all input_ok vs"
  by (rule cinput.container_canonical)

interpretation coutputs: canonical_codec "write_container write_output" "read_container read_output"
  "\<lambda>vs. length vs < 2 ^ 64 \<and> list_all output_ok vs"
  by (rule coutput.container_canonical)

interpretation cprefix: canonical_codec "write_prefix :: transaction_prefix \<Rightarrow> bytes" read_prefix prefix_ok
proof
  fix v :: transaction_prefix and rest
  assume "prefix_ok v"
  then show "read_prefix (write_prefix v @ rest) = Inr (v, rest)"
    by (simp add: prefix_ok_def write_prefix_def read_prefix_def cu8.dec_enc cu64.dec_enc cinputs.dec_enc
        coutputs.dec_enc barray.dec_enc)
next
  fix bs v rest
  assume "read_prefix bs = Inr (v, rest)"
  then show "bs = write_prefix v @ rest \<and> prefix_ok v"
    by (auto simp: prefix_ok_def write_prefix_def read_prefix_def bindR_eq_Inr_iff cu8.dec_iff cu64.dec_iff
        cinputs.dec_iff coutputs.dec_iff barray.dec_iff)
qed

section \<open>Transactions with their signatures\<close>

text \<open>The prefix of an extended record and back.\<close>

lemma extend_truncate:
  "transaction_prefix.extend (transaction_prefix.truncate t) (transaction.fields (signatures t)) = (t :: transaction)"
  by (cases t) (simp add: transaction_prefix.defs transaction.defs)

lemma truncate_extend [simp]:
  "transaction_prefix.truncate (transaction_prefix.extend p (transaction.fields ss)) = p"
  by (cases p) (simp add: transaction_prefix.defs transaction.defs)

lemma extend_selects [simp]:
  "signatures (transaction_prefix.extend p (transaction.fields ss)) = ss"
  "inputs (transaction_prefix.extend p (transaction.fields ss)) = inputs p"
  by (cases p, simp add: transaction_prefix.defs transaction.defs)+

lemma truncate_same [simp]:
  "write_prefix (transaction_prefix.truncate t) = write_prefix t"
  "prefix_ok (transaction_prefix.truncate t) = prefix_ok t"
  "sig_size (transaction_prefix.truncate t) = sig_size t"
  "inputs (transaction_prefix.truncate t) = inputs t"
  by (cases t, simp add: transaction_prefix.defs write_prefix_def prefix_ok_def sig_size_def is_base_def)+

lemma extend_same [simp]:
  "write_prefix (transaction_prefix.extend p (transaction.fields ss)) = write_prefix p"
  "prefix_ok (transaction_prefix.extend p (transaction.fields ss)) = prefix_ok p"
  "sig_size (transaction_prefix.extend p (transaction.fields ss)) = sig_size p"
  using truncate_same[of "transaction_prefix.extend p (transaction.fields ss)"] by simp_all

definition sigs_match :: "transaction_input list \<Rightarrow> bytes list list \<Rightarrow> bool" where
  "sigs_match = list_all2 (\<lambda>i s. length s = get_signatures_count i \<and> list_all (\<lambda>x. length x = 64) s)"

lemma read_signature_list:
  "read_seq (ser_binary 64) n bs = Inr (s, rest) \<longleftrightarrow>
    bs = concat s @ rest \<and> length s = n \<and> list_all (\<lambda>x. length x = 64) s"
  using fixed.read_seq_enc[of s 64 rest] fixed.read_seq_dec[of 64 n bs s rest] by (auto simp: list_all_iff)

lemma read_signatures_iff:
  "read_signatures ins bs = Inr (ss, rest) \<longleftrightarrow>
    sigs_match ins ss \<and> (\<exists>b. write_signatures ins ss = Inr b \<and> bs = b @ rest)"
proof (induction ins arbitrary: bs ss)
  case Nil
  then show ?case by (auto simp: sigs_match_def)
next
  case (Cons i ins)
  show ?case
    by (cases ss)
      (auto simp: sigs_match_def bindR_eq_Inr_iff read_signature_list Cons.IH[unfolded sigs_match_def])
qed

lemma signatures_ok_match:
  "signatures_ok t \<longleftrightarrow> sigs_match (take (sig_size t) (inputs t)) (signatures t)"
  by (auto simp: signatures_ok_def sigs_match_def sig_size_def is_base_def list_all2_lengthD)

lemma sigs_match_length: "sigs_match ins ss \<Longrightarrow> length ss = length ins"
  by (simp add: sigs_match_def list_all2_lengthD)

lemma write_transaction_ok:
  assumes "signatures_ok t"
  shows "write_transaction t = bindR (write_signatures (take (sig_size t) (inputs t)) (signatures t))
    (\<lambda>bs. Inr (write_prefix t @ bs))"
  using sigs_match_length[OF assms[unfolded signatures_ok_match]]
  by (auto simp: write_transaction_def Let_def sig_size_def split: if_splits)

lemma write_signatures_match: "sigs_match ins ss \<Longrightarrow> \<exists>b. write_signatures ins ss = Inr b"
  by (induction ins ss rule: write_signatures.induct) (auto simp: sigs_match_def)

lemma read_transaction_iff:
  "read_transaction bs = Inr (t, rest) \<longleftrightarrow>
    transaction_ok t \<and> (\<exists>b. write_transaction t = Inr b \<and> bs = b @ rest)"
proof
  assume "read_transaction bs = Inr (t, rest)"
  then obtain p bs1 ss where p: "read_prefix bs = Inr (p, bs1)"
      "read_signatures (take (sig_size p) (inputs p)) bs1 = Inr (ss, rest)"
      "t = transaction_prefix.extend p (transaction.fields ss)"
    by (auto simp: read_transaction_def bindR_eq_Inr_iff)
  have ok: "prefix_ok t" "signatures_ok t"
    using cprefix.enc_dec[OF p(1)] p(2) by (auto simp: p(3) signatures_ok_match read_signatures_iff)
  then show "transaction_ok t \<and> (\<exists>b. write_transaction t = Inr b \<and> bs = b @ rest)"
    using p(2) cprefix.enc_dec[OF p(1)]
    by (auto simp: transaction_ok_def write_transaction_ok[OF ok(2)[unfolded p(3)]] p(3) read_signatures_iff)
next
  assume "transaction_ok t \<and> (\<exists>b. write_transaction t = Inr b \<and> bs = b @ rest)"
  then obtain b where ok: "prefix_ok t" "signatures_ok t" and b: "write_transaction t = Inr b" "bs = b @ rest"
    by (auto simp: transaction_ok_def)
  obtain c where c: "write_signatures (take (sig_size t) (inputs t)) (signatures t) = Inr c" "b = write_prefix t @ c"
    using b(1) by (auto simp: write_transaction_ok[OF ok(2)] bindR_eq_Inr_iff)
  have "read_prefix bs = Inr (transaction_prefix.truncate t, c @ rest)"
    using cprefix.dec_enc[of "transaction_prefix.truncate t" "c @ rest"] ok(1) b(2) c(2) by simp
  moreover have "read_signatures (take (sig_size t) (inputs t)) (c @ rest) = Inr (signatures t, rest)"
    using ok(2) c(1) by (simp add: read_signatures_iff signatures_ok_match)
  ultimately show "read_transaction bs = Inr (t, rest)"
    by (simp add: read_transaction_def extend_truncate)
qed

section \<open>Properties\<close>

lemma from_binary_Inr: "from_binary rd b = Inr x \<longleftrightarrow> rd b = Inr (x, [])"
  by (auto simp: from_binary_def bindR_eq_Inr_iff split: if_splits)

text \<open>
  C26: the binary form of transactions is canonical. A blob deserialises to a transaction exactly when it
  is what serialising that transaction yields, so a transaction has one blob and one hash, and every
  transaction whose members fit their types and whose signature counts match its inputs can be written.
\<close>

theorem transaction_binary_canonical:
  "(from_binary read_transaction b = Inr t \<longleftrightarrow> transaction_ok t \<and> write_transaction t = Inr b) \<and>
   (transaction_ok t \<longrightarrow> (\<exists>b. write_transaction t = Inr b))"
proof -
  have "\<exists>b. write_transaction t = Inr b" if "transaction_ok t"
    using that write_signatures_match[of "take (sig_size t) (inputs t)" "signatures t"]
    by (auto simp: transaction_ok_def write_transaction_ok signatures_ok_match)
  then show ?thesis using read_transaction_iff[of b t "[]"] by (auto simp: from_binary_Inr)
qed

definition sample_transaction :: transaction where
  "sample_transaction =
     \<lparr>version = 1, unlock_time = 70, inputs = [KeyInput 9 [3] (replicate 32 7)],
      outputs = [\<lparr>out_amount = 8, out_target = KeyOutput (replicate 32 5)\<rparr>], extra = [1, 2],
      signatures = [[replicate 64 6]]\<rparr>"

theorem transaction_binary_canonical_witness:
  "transaction_ok sample_transaction \<and>
   (\<exists>b. write_transaction sample_transaction = Inr b \<and> from_binary read_transaction b = Inr sample_transaction)"
proof -
  have ok: "transaction_ok sample_transaction"
    by (simp add: sample_transaction_def transaction_ok_def prefix_ok_def signatures_ok_def input_ok_def output_ok_def
        sig_size_def is_base_def get_signatures_count_def)
  then obtain b where "write_transaction sample_transaction = Inr b"
    using transaction_binary_canonical[of "[]" sample_transaction] by blast
  then show ?thesis using ok transaction_binary_canonical[of b sample_transaction] by blast
qed

end
