(* ===== verification/TransactionExtra.thy ===== *)
theory TransactionExtra
  imports BinarySeria
begin

text \<open>
  \<open>src/src/Core/TransactionExtra.cpp\<close>: the tagged fields in the \<open>extra\<close> bytes of a transaction. The parser
  returns whether it went through together with the fields found so far, because the look-ups of the
  source ignore its verdict and search what was collected. Bytes with an unknown tag are skipped one at
  a time.
\<close>

section \<open>Definitions\<close>

datatype extra_field =
    ExtraPadding nat
  | ExtraPublicKey bytes
  | ExtraNonce bytes
  | ExtraMergeMiningTag (mm_depth: u64) (mm_merkle_root: bytes)

text \<open>The loop that counts zero bytes; \<open>None\<close> is the \<open>return false\<close> on another byte.\<close>

fun padding_loop :: "nat \<Rightarrow> bytes \<Rightarrow> (nat \<times> bytes) option" where
  "padding_loop sz [] = Some (sz, [])"
| "padding_loop sz (b # bs) =
     (if sz \<le> 255 then (if b \<noteq> 0 then None else padding_loop (sz + 1) bs) else Some (sz, b # bs))"

text \<open>The merge mining tag is a length-prefixed field whose own excess bytes are ignored.\<close>

definition do_serialize_read :: "(u64 \<times> bytes) reader" where
  "do_serialize_read bs =
     bindR (read_u64 bs) (\<lambda>(depth, bs1).
     bindR (ser_binary 32 bs1) (\<lambda>(root, bs2). Inr ((depth, root), bs2)))"

definition do_serialize_write :: "u64 \<Rightarrow> bytes \<Rightarrow> bytes" where
  "do_serialize_write depth root = write_u64 depth @ root"

definition read_merge_mining_tag :: "(u64 \<times> bytes) reader" where
  "read_merge_mining_tag bs =
     bindR (read_binary_array bs) (\<lambda>(field, bs1).
     bindR (do_serialize_read field) (\<lambda>(tag, _). Inr (tag, bs1)))"

definition write_merge_mining_tag :: "u64 \<Rightarrow> bytes \<Rightarrow> bytes" where
  "write_merge_mining_tag depth root = write_binary_array (do_serialize_write depth root)"

lemma padding_loop_length: "padding_loop sz bs = Some (n, r) \<Longrightarrow> length r \<le> length bs"
  by (induction sz bs rule: padding_loop.induct) (auto split: if_splits)

lemma read_merge_mining_tag_length: "read_merge_mining_tag bs = Inr (t, r) \<Longrightarrow> length r \<le> length bs"
  by (auto simp: read_merge_mining_tag_def bindR_eq_Inr_iff dest!: barray.enc_dec)

function parse_extra_loop :: "extra_field list \<Rightarrow> bytes \<Rightarrow> bool \<times> extra_field list" where
  "parse_extra_loop flds [] = (True, flds)"
| "parse_extra_loop flds (c # iss) =
     (if c = 0 then
        (case padding_loop 1 iss of
           None \<Rightarrow> (False, flds)
         | Some (sz, iss') \<Rightarrow>
             if 255 < sz then (False, flds)
             else parse_extra_loop (flds @ [ExtraPadding sz]) iss')
      else if c = 1 then
        (case read_exact 32 iss of
           Inl _ \<Rightarrow> (False, flds)
         | Inr (k, iss') \<Rightarrow> parse_extra_loop (flds @ [ExtraPublicKey k]) iss')
      else if c = 2 then
        (case iss of
           [] \<Rightarrow> (False, flds)
         | sz # iss1 \<Rightarrow>
             (case read_exact (unat sz) iss1 of
                Inl _ \<Rightarrow> (False, flds)
              | Inr (n, iss') \<Rightarrow> parse_extra_loop (flds @ [ExtraNonce n]) iss'))
      else if c = 3 then
        (case read_merge_mining_tag iss of
           Inl _ \<Rightarrow> (False, flds)
         | Inr ((d, r), iss') \<Rightarrow> parse_extra_loop (flds @ [ExtraMergeMiningTag d r]) iss')
      else parse_extra_loop flds iss)"
  by pat_completeness auto
termination
  by (relation "measure (\<lambda>(f, bs). length bs)") (auto simp: read_exact_Inr dest!: padding_loop_length read_merge_mining_tag_length)

definition parse_transaction_extra :: "bytes \<Rightarrow> bool \<times> extra_field list" where
  "parse_transaction_extra ext = (if ext = [] then (True, []) else parse_extra_loop [] ext)"

definition add_transaction_public_key_to_extra :: "bytes \<Rightarrow> bytes \<Rightarrow> bool \<times> bytes" where
  "add_transaction_public_key_to_extra tx_extra pub_key = (True, tx_extra @ [1] @ pub_key)"

definition add_extra_nonce_to_transaction_extra :: "bytes \<Rightarrow> bytes \<Rightarrow> bool \<times> bytes" where
  "add_extra_nonce_to_transaction_extra tx_extra extra_nonce =
     (if 255 < length extra_nonce then (False, tx_extra)
      else (True, tx_extra @ [2] @ [word_of_nat (length extra_nonce)] @ extra_nonce))"

definition append_merge_mining_tag_to_extra :: "bytes \<Rightarrow> u64 \<Rightarrow> bytes \<Rightarrow> bool \<times> bytes" where
  "append_merge_mining_tag_to_extra tx_extra depth root =
     (True, tx_extra @ [3] @ write_merge_mining_tag depth root)"

definition write_extra_field :: "bytes \<Rightarrow> extra_field \<Rightarrow> bool \<times> bytes" where
  "write_extra_field ext f =
     (case f of
        ExtraPadding sz \<Rightarrow> if 255 < sz then (False, ext) else (True, ext @ replicate sz 0)
      | ExtraPublicKey k \<Rightarrow> add_transaction_public_key_to_extra ext k
      | ExtraNonce n \<Rightarrow> add_extra_nonce_to_transaction_extra ext n
      | ExtraMergeMiningTag d r \<Rightarrow> append_merge_mining_tag_to_extra ext d r)"

fun write_transaction_extra :: "bytes \<Rightarrow> extra_field list \<Rightarrow> bool \<times> bytes" where
  "write_transaction_extra ext [] = (True, ext)"
| "write_transaction_extra ext (f # fs) =
     (case write_extra_field ext f of
        (False, ext') \<Rightarrow> (False, ext')
      | (True, ext') \<Rightarrow> write_transaction_extra ext' fs)"

definition find_public_key :: "extra_field list \<Rightarrow> bytes option" where
  "find_public_key flds =
     map_option (\<lambda>f. case f of ExtraPublicKey k \<Rightarrow> k | _ \<Rightarrow> []) (List.find (\<lambda>f. case f of ExtraPublicKey _ \<Rightarrow> True | _ \<Rightarrow> False) flds)"

definition find_nonce :: "extra_field list \<Rightarrow> bytes option" where
  "find_nonce flds =
     map_option (\<lambda>f. case f of ExtraNonce n \<Rightarrow> n | _ \<Rightarrow> []) (List.find (\<lambda>f. case f of ExtraNonce _ \<Rightarrow> True | _ \<Rightarrow> False) flds)"

definition find_merge_mining_tag :: "extra_field list \<Rightarrow> (u64 \<times> bytes) option" where
  "find_merge_mining_tag flds =
     map_option (\<lambda>f. case f of ExtraMergeMiningTag d r \<Rightarrow> (d, r) | _ \<Rightarrow> (0, []))
       (List.find (\<lambda>f. case f of ExtraMergeMiningTag _ _ \<Rightarrow> True | _ \<Rightarrow> False) flds)"

definition get_transaction_public_key_from_extra :: "bytes \<Rightarrow> bytes" where
  "get_transaction_public_key_from_extra tx_extra =
     (case find_public_key (snd (parse_transaction_extra tx_extra)) of None \<Rightarrow> replicate 32 0 | Some k \<Rightarrow> k)"

definition get_merge_mining_tag_from_extra :: "bytes \<Rightarrow> (u64 \<times> bytes) option" where
  "get_merge_mining_tag_from_extra tx_extra = find_merge_mining_tag (snd (parse_transaction_extra tx_extra))"

definition set_payment_id_to_transaction_extra_nonce :: "bytes \<Rightarrow> bytes" where
  "set_payment_id_to_transaction_extra_nonce payment_id = 0 # payment_id"

definition get_payment_id_from_transaction_extra_nonce :: "bytes \<Rightarrow> bytes option" where
  "get_payment_id_from_transaction_extra_nonce extra_nonce =
     (if length extra_nonce \<noteq> 33 then None else if hd extra_nonce \<noteq> 0 then None else Some (tl extra_nonce))"

definition get_payment_id_from_tx_extra :: "bytes \<Rightarrow> bytes option" where
  "get_payment_id_from_tx_extra ext =
     (case find_nonce (snd (parse_transaction_extra ext)) of
        None \<Rightarrow> None
      | Some n \<Rightarrow> get_payment_id_from_transaction_extra_nonce n)"

section \<open>Fields one at a time\<close>

definition field_ok :: "extra_field \<Rightarrow> bool" where
  "field_ok f =
     (case f of
        ExtraPadding sz \<Rightarrow> False
      | ExtraPublicKey k \<Rightarrow> length k = 32
      | ExtraNonce n \<Rightarrow> length n \<le> 255
      | ExtraMergeMiningTag d r \<Rightarrow> length r = 32)"

text \<open>Padding runs to the end of the ext, so it can only come last.\<close>

definition extra_ok :: "extra_field list \<Rightarrow> bool" where
  "extra_ok fs \<longleftrightarrow> list_all field_ok fs \<or>
     (\<exists>gs n. fs = gs @ [ExtraPadding n] \<and> list_all field_ok gs \<and> 1 \<le> n \<and> n \<le> 255)"

definition field_bytes :: "extra_field \<Rightarrow> bytes" where
  "field_bytes f = snd (write_extra_field [] f)"

lemma write_extra_field_ok: "field_ok f \<Longrightarrow> write_extra_field ext f = (True, ext @ field_bytes f)"
  by (cases f)
    (auto simp: field_ok_def field_bytes_def write_extra_field_def add_transaction_public_key_to_extra_def
      add_extra_nonce_to_transaction_extra_def append_merge_mining_tag_to_extra_def)

lemma write_transaction_extra_ok:
  "list_all field_ok fs \<Longrightarrow>
   write_transaction_extra ext (fs @ gs) = write_transaction_extra (ext @ concat (map field_bytes fs)) gs"
  by (induction fs arbitrary: ext) (auto simp: write_extra_field_ok)

lemma merge_mining_tag_roundtrip:
  assumes "length root = 32"
  shows "read_merge_mining_tag (write_merge_mining_tag depth root @ rest) = Inr ((depth, root), rest)"
proof -
  have "length (do_serialize_write depth root) < 2 ^ 64"
    using length_write_varint_stream[of depth] assms by (simp add: do_serialize_write_def write_u64_def)
  moreover have "do_serialize_read (do_serialize_write depth root) = Inr ((depth, root), [])"
    using fixed.dec_enc_nil[of root 32] assms
    by (simp add: do_serialize_read_def do_serialize_write_def cu64.dec_enc)
  ultimately show ?thesis
    by (simp add: read_merge_mining_tag_def write_merge_mining_tag_def barray.dec_enc)
qed

lemma parse_field:
  assumes "field_ok f"
  shows "parse_extra_loop flds (field_bytes f @ rest) = parse_extra_loop (flds @ [f]) rest"
proof (cases f)
  case (ExtraNonce n)
  then have "length n \<le> 255" using assms by (simp add: field_ok_def)
  then have "unat (word_of_nat (length n) :: byte) = length n" by (intro byte_of_nat_unat) simp
  then show ?thesis
    using assms ExtraNonce
    by (simp add: field_ok_def field_bytes_def write_extra_field_def add_extra_nonce_to_transaction_extra_def)
qed (use assms in \<open>simp_all add: field_ok_def field_bytes_def write_extra_field_def
      add_transaction_public_key_to_extra_def append_merge_mining_tag_to_extra_def merge_mining_tag_roundtrip\<close>)

lemma parse_fields:
  "list_all field_ok fs \<Longrightarrow>
   parse_extra_loop flds (concat (map field_bytes fs) @ rest) = parse_extra_loop (flds @ fs) rest"
  by (induction fs arbitrary: flds) (simp_all add: parse_field)

lemma padding_loop_zeros: "sz + n \<le> 256 \<Longrightarrow> padding_loop sz (replicate n 0) = Some (sz + n, [])"
  by (induction n arbitrary: sz) auto

lemma parse_padding:
  assumes "1 \<le> n" "n \<le> 255"
  shows "parse_extra_loop flds (replicate n 0) = (True, flds @ [ExtraPadding n])"
proof -
  obtain k where k: "n = Suc k" using assms(1) by (cases n) auto
  then show ?thesis using padding_loop_zeros[of 1 k] assms(2) by simp
qed

lemma parse_transaction_extra_loop: "parse_transaction_extra e = parse_extra_loop [] e"
  by (simp add: parse_transaction_extra_def)

lemma extra_roundtrip:
  assumes "extra_ok fs"
  shows "\<exists>e. write_transaction_extra [] fs = (True, e) \<and> parse_transaction_extra e = (True, fs)"
  using assms unfolding extra_ok_def
proof
  assume ok: "list_all field_ok fs"
  then show ?thesis
    using write_transaction_extra_ok[OF ok, of "[]" "[]"] parse_fields[OF ok, of "[]" "[]"]
    by (simp add: parse_transaction_extra_loop)
next
  assume "\<exists>gs n. fs = gs @ [ExtraPadding n] \<and> list_all field_ok gs \<and> 1 \<le> n \<and> n \<le> 255"
  then obtain gs n where gs: "fs = gs @ [ExtraPadding n]" "list_all field_ok gs" "1 \<le> n" "n \<le> 255" by blast
  then show ?thesis
    using write_transaction_extra_ok[OF gs(2), of "[]" "[ExtraPadding n]"]
      parse_fields[OF gs(2), of "[]" "replicate n 0"] parse_padding[OF gs(3,4), of gs]
    by (simp add: parse_transaction_extra_loop write_extra_field_def)
qed

lemma find_append:
  "List.find P (xs @ ys) = (case List.find P xs of None \<Rightarrow> List.find P ys | Some x \<Rightarrow> Some x)"
  by (induction xs) auto

section \<open>Properties\<close>

text \<open>
  Writing the fields of an extra and parsing the result gives the fields back, for every list of
  public keys, nonces of at most 255 bytes and merge mining tags, with padding of 1 to 255 bytes at the
  end or none.
\<close>

theorem transaction_extra_roundtrip:
  assumes "extra_ok fs"
  shows "\<exists>e. write_transaction_extra [] fs = (True, e) \<and> parse_transaction_extra e = (True, fs)"
  using assms by (rule extra_roundtrip)

theorem transaction_extra_roundtrip_witness:
  "extra_ok [ExtraPublicKey (replicate 32 9), ExtraNonce [1, 2], ExtraPadding 3] \<and>
   (\<exists>e. write_transaction_extra [] [ExtraPublicKey (replicate 32 9), ExtraNonce [1, 2], ExtraPadding 3] = (True, e) \<and>
      parse_transaction_extra e = (True, [ExtraPublicKey (replicate 32 9), ExtraNonce [1, 2], ExtraPadding 3]))"
proof -
  have "extra_ok ([ExtraPublicKey (replicate 32 9), ExtraNonce [1, 2]] @ [ExtraPadding 3])"
    unfolding extra_ok_def
    by (intro disjI2 exI[of _ "[ExtraPublicKey (replicate 32 9), ExtraNonce [1, 2]]"] exI[of _ 3])
      (simp add: field_ok_def)
  then show ?thesis
    using transaction_extra_roundtrip[of "[ExtraPublicKey (replicate 32 9), ExtraNonce [1, 2], ExtraPadding 3]"]
    by simp
qed

text \<open>
  A payment id put into an extra is found again. Whatever well-formed fields without a nonce stand
  before it, appending the nonce that carries the payment id and looking the id up returns it, and
  appending a merge mining tag to them and looking it up returns the tag.
\<close>

theorem payment_id_found:
  assumes "list_all field_ok fs" and "find_nonce fs = None" and "find_merge_mining_tag fs = None"
    and "length payment_id = 32" and "length root = 32"
    and "write_transaction_extra [] fs = (True, ext)"
  shows "(\<exists>e. add_extra_nonce_to_transaction_extra ext (set_payment_id_to_transaction_extra_nonce payment_id) = (True, e) \<and>
      get_payment_id_from_tx_extra e = Some payment_id) \<and>
    (\<exists>e. append_merge_mining_tag_to_extra ext depth root = (True, e) \<and>
      get_merge_mining_tag_from_extra e = Some (depth, root))"
proof -
  have e: "ext = concat (map field_bytes fs)"
    using write_transaction_extra_ok[OF assms(1), of "[]" "[]"] assms(6) by simp
  let ?n = "ExtraNonce (0 # payment_id)" and ?m = "ExtraMergeMiningTag depth root"
  have ok: "field_ok ?n" "field_ok ?m" using assms(4,5) by (simp_all add: field_ok_def)
  have p: "parse_transaction_extra (ext @ field_bytes f) = (True, fs @ [f])" if "field_ok f" for f
    using parse_fields[OF assms(1), of "[]" "field_bytes f"] parse_field[OF that, of fs "[]"]
    by (simp add: parse_transaction_extra_loop e)
  have fn: "find_nonce (fs @ [?n]) = Some (0 # payment_id)"
    using assms(2) by (simp add: find_nonce_def find_append)
  have fm: "find_merge_mining_tag (fs @ [?m]) = Some (depth, root)"
    using assms(3) by (simp add: find_merge_mining_tag_def find_append)
  have "add_extra_nonce_to_transaction_extra ext (set_payment_id_to_transaction_extra_nonce payment_id) =
      (True, ext @ field_bytes ?n)"
    using write_extra_field_ok[OF ok(1), of ext]
    by (simp add: write_extra_field_def set_payment_id_to_transaction_extra_nonce_def)
  moreover have "get_payment_id_from_tx_extra (ext @ field_bytes ?n) = Some payment_id"
    using assms(4) by (simp add: get_payment_id_from_tx_extra_def p[OF ok(1)] fn get_payment_id_from_transaction_extra_nonce_def)
  moreover have "append_merge_mining_tag_to_extra ext depth root = (True, ext @ field_bytes ?m)"
    using write_extra_field_ok[OF ok(2), of ext] by (simp add: write_extra_field_def)
  moreover have "get_merge_mining_tag_from_extra (ext @ field_bytes ?m) = Some (depth, root)"
    by (simp add: get_merge_mining_tag_from_extra_def p[OF ok(2)] fm)
  ultimately show ?thesis by blast
qed

theorem payment_id_found_witness:
  "(\<exists>e. add_extra_nonce_to_transaction_extra (1 # replicate 32 4)
        (set_payment_id_to_transaction_extra_nonce (replicate 32 8)) = (True, e) \<and>
      get_payment_id_from_tx_extra e = Some (replicate 32 8)) \<and>
   (\<exists>e. append_merge_mining_tag_to_extra (1 # replicate 32 4) 0 (replicate 32 8) = (True, e) \<and>
      get_merge_mining_tag_from_extra e = Some (0, replicate 32 8))"
  by (rule payment_id_found[of "[ExtraPublicKey (replicate 32 4)]"])
    (simp_all add: field_ok_def find_nonce_def find_merge_mining_tag_def write_extra_field_def
      add_transaction_public_key_to_extra_def)

end
