(* ===== verification/TreeHash.thy ===== *)
theory TreeHash
  imports Keccak
begin

text \<open>
  \<open>src/src/crypto/tree-hash.c\<close>: the Merkle tree over transaction hashes, the branch of its first leaf
  and the root computed back from a branch. Hashes are byte strings; the arrays \<open>ints\<close> are updated in
  place as in the source. The number of hashes is a \<open>size_t\<close>, kept as a word where the code works on
  its bits; indices are natural numbers.
\<close>

section \<open>Definitions\<close>

text \<open>The largest power of two below \<open>count\<close>: smear the highest bit down, then keep only the top bit.\<close>

definition tree_cnt :: "u64 \<Rightarrow> u64" where
  "tree_cnt count =
     (let cnt = foldl (\<lambda>cnt i. cnt OR drop_bit i cnt) (count - 1) [1, 2, 4, 8, 16, 32]
      in cnt AND NOT (drop_bit 1 cnt))"

text \<open>One level up, in place: \<open>ints[j] = H (ints[a + 2 * j], ints[a + 2 * j + 1])\<close> for \<open>j < n\<close>.\<close>

definition hash_level :: "nat \<Rightarrow> nat \<Rightarrow> bytes list \<Rightarrow> bytes list" where
  "hash_level a n ints =
     foldl (\<lambda>ints j. ints[j := cn_fast_hash (ints ! (a + 2 * j) @ ints ! (a + 2 * j + 1))]) ints [0..<n]"

function tree_hash_loop :: "nat \<Rightarrow> bytes list \<Rightarrow> bytes" where
  "tree_hash_loop cnt ints =
     (if 2 < cnt then tree_hash_loop (cnt div 2) (hash_level 0 (cnt div 2) ints)
      else cn_fast_hash (ints ! 0 @ ints ! 1))"
  by pat_completeness auto
termination
  by (relation "measure fst") auto

declare tree_hash_loop.simps [simp del]

text \<open>The first level: the leading hashes stay, the others are hashed in pairs.\<close>

definition first_level :: "nat \<Rightarrow> bytes list \<Rightarrow> bytes list" where
  "first_level cnt hashes =
     (let k = 2 * cnt - length hashes
      in take k hashes @ map (\<lambda>j. cn_fast_hash (hashes ! (k + 2 * j) @ hashes ! (k + 2 * j + 1))) [0..<cnt - k])"

definition tree_hash :: "bytes list \<Rightarrow> bytes result" where
  "tree_hash hashes =
     (let count = length hashes
      in if count = 0 then Inl AssertFailed
         else if count = 1 then Inr (hashes ! 0)
         else if count = 2 then Inr (cn_fast_hash (hashes ! 0 @ hashes ! 1))
         else
           let cnt = unat (tree_cnt (word_of_nat count));
               k = 2 * cnt - count;
               i = k + 2 * (cnt - k)
           in if i \<noteq> count then Inl AssertFailed
              else Inr (tree_hash_loop cnt (first_level cnt hashes)))"

definition tree_depth_steps :: "u64 \<Rightarrow> u64 \<times> nat" where
  "tree_depth_steps count =
     foldl (\<lambda>(c, depth) i. if 0 < drop_bit i c then (drop_bit i c, depth + i) else (c, depth))
       (count, 0) [32, 16, 8, 4, 2, 1]"

definition tree_depth :: "u64 \<Rightarrow> nat result" where
  "tree_depth count = (if count = 0 then Inl AssertFailed else Inr (snd (tree_depth_steps count)))"

definition branch_cnt :: "u64 \<Rightarrow> u64 \<times> nat" where
  "branch_cnt count =
     foldl (\<lambda>(cnt, depth) i. if push_bit i cnt \<le> count then (push_bit i cnt, depth + i) else (cnt, depth))
       (1, 0) [32, 16, 8, 4, 2, 1]"

text \<open>The loop from the leaves to the root; \<open>branch\<close> grows from its end.\<close>

fun tree_branch_loop :: "nat \<Rightarrow> nat \<Rightarrow> bytes list \<Rightarrow> bytes list \<Rightarrow> bytes list result" where
  "tree_branch_loop 0 cnt ints branch = Inr branch"
| "tree_branch_loop (Suc depth) cnt ints branch =
     (if cnt \<noteq> 2 ^ Suc depth then Inl AssertFailed
      else tree_branch_loop depth (cnt div 2) (hash_level 1 (cnt div 2 - 1) ints) (ints ! 0 # branch))"

definition tree_branch :: "bytes list \<Rightarrow> bytes list result" where
  "tree_branch hashes =
     (let count = word_of_nat (length hashes)
      in if length hashes = 0 then Inl AssertFailed
         else
           let (cntw, depth) = branch_cnt count; cnt = unat cntw
           in if cnt \<noteq> 2 ^ depth then Inl AssertFailed
              else bindR (tree_depth count) (\<lambda>d.
                if depth \<noteq> d then Inl AssertFailed
                else
                  let k = 2 * cnt - length hashes;
                      i = k + 2 * (cnt - k)
                  in if i \<noteq> length hashes then Inl AssertFailed
                     else tree_branch_loop depth cnt (tl (first_level cnt hashes)) []))"

definition path_bit :: "bytes option \<Rightarrow> nat \<Rightarrow> bool" where
  "path_bit path depth = (case path of None \<Rightarrow> False | Some p \<Rightarrow> bit (p ! (depth div 8)) (depth mod 8))"

fun from_branch_loop :: "bytes list \<Rightarrow> nat \<Rightarrow> bytes option \<Rightarrow> bytes \<Rightarrow> bool \<Rightarrow> bytes \<times> bytes \<Rightarrow> bytes \<times> bytes" where
  "from_branch_loop branch 0 path leaf from_leaf buf = buf"
| "from_branch_loop branch (Suc depth) path leaf from_leaf buf =
     (let x = (if from_leaf then leaf else cn_fast_hash (fst buf @ snd buf));
          b = branch ! depth
      in from_branch_loop branch depth path leaf False (if path_bit path depth then (b, x) else (x, b)))"

definition tree_hash_from_branch :: "bytes list \<Rightarrow> nat \<Rightarrow> bytes \<Rightarrow> bytes option \<Rightarrow> bytes" where
  "tree_hash_from_branch branch depth leaf path =
     (if depth = 0 then leaf
      else let buf = from_branch_loop branch depth path leaf True ([], [])
           in cn_fast_hash (fst buf @ snd buf))"

section \<open>The Merkle root as a specification\<close>

definition pairs :: "bytes list \<Rightarrow> bytes list" where
  "pairs xs = map (\<lambda>j. cn_fast_hash (xs ! (2 * j) @ xs ! (2 * j + 1))) [0..<length xs div 2]"

fun merkle_root :: "nat \<Rightarrow> bytes list \<Rightarrow> bytes" where
  "merkle_root 0 xs = xs ! 0"
| "merkle_root (Suc k) xs = merkle_root k (pairs xs)"

lemma length_pairs [simp]: "length (pairs xs) = length xs div 2"
  by (simp add: pairs_def)

lemma length_hash_level [simp]: "length (hash_level a n ints) = length ints"
  unfolding hash_level_def by (rule foldl_length_inv) simp

lemma hash_level_nth:
  assumes "a + 2 * n \<le> length ints" and "i < length ints"
  shows "hash_level a n ints ! i =
    (if i < n then cn_fast_hash (ints ! (a + 2 * i) @ ints ! (a + 2 * i + 1)) else ints ! i)"
  using assms
proof (induction n arbitrary: i)
  case 0
  then show ?case by (simp add: hash_level_def)
next
  case (Suc n)
  have step: "hash_level a (Suc n) ints = (hash_level a n ints)[n := cn_fast_hash
      (hash_level a n ints ! (a + 2 * n) @ hash_level a n ints ! (a + 2 * n + 1))]"
    by (simp add: hash_level_def)
  have "hash_level a n ints ! (a + 2 * n) = ints ! (a + 2 * n)" "hash_level a n ints ! (a + 2 * n + 1) = ints ! (a + 2 * n + 1)"
    using Suc.IH[of "a + 2 * n"] Suc.IH[of "a + 2 * n + 1"] Suc.prems by (auto split: if_splits)
  then show ?case
    using Suc.IH[of i] Suc.prems unfolding step by (auto simp: nth_list_update less_Suc_eq)
qed

lemma hash_level_pairs:
  assumes "2 * n \<le> length ints"
  shows "take n (hash_level 0 n ints) = pairs (take (2 * n) ints)"
proof -
  have "min (length ints) (2 * n) = 2 * n" "min (length ints) n = n" using assms by simp_all
  then show ?thesis by (intro nth_equalityI) (use assms in \<open>auto simp: pairs_def hash_level_nth\<close>)
qed

lemma tree_hash_loop_root:
  "length ints \<ge> 2 ^ Suc k \<Longrightarrow> tree_hash_loop (2 ^ Suc k) ints = merkle_root (Suc k) (take (2 ^ Suc k) ints)"
proof (induction k arbitrary: ints)
  case 0
  then show ?case by (simp add: tree_hash_loop.simps pairs_def)
next
  case (Suc k)
  have "1 \<le> (2 :: nat) ^ k" by simp
  then have "(2 :: nat) < 2 ^ Suc (Suc k)" unfolding power_Suc by linarith
  then have "tree_hash_loop (2 ^ Suc (Suc k)) ints = tree_hash_loop (2 ^ Suc k) (hash_level 0 (2 ^ Suc k) ints)"
    by (subst tree_hash_loop.simps) simp
  also have "\<dots> = merkle_root (Suc k) (take (2 ^ Suc k) (hash_level 0 (2 ^ Suc k) ints))"
    using Suc.prems by (intro Suc.IH) simp
  also have "take (2 ^ Suc k) (hash_level 0 (2 ^ Suc k) ints) = pairs (take (2 ^ Suc (Suc k)) ints)"
    using hash_level_pairs[of "2 ^ Suc k" ints] Suc.prems by simp
  finally show ?case by simp
qed

section \<open>Branches\<close>

definition climb :: "bytes \<Rightarrow> bytes list \<Rightarrow> bytes" where
  "climb x bs = foldl (\<lambda>x b. cn_fast_hash (x @ b)) x (rev bs)"

lemma pairs_Cons:
  assumes "length ints = 2 ^ Suc k - 1"
  shows "pairs (x # ints) = cn_fast_hash (x @ ints ! 0) # take (2 ^ k - 1) (hash_level 1 (2 ^ k - 1) ints)"
    (is "?l = ?r")
proof (rule nth_equalityI)
  have p: "1 \<le> (2 :: nat) ^ k" by simp
  then have l: "Suc (length ints) div 2 = 2 ^ k" using assms by simp
  show "length ?l = length ?r" using assms p l by simp
  fix i
  assume "i < length ?l"
  then have i: "i < 2 ^ k" using l by simp
  show "?l ! i = ?r ! i"
  proof (cases i)
    case 0
    then show ?thesis using l p by (simp add: pairs_def)
  next
    case (Suc j)
    then have "hash_level 1 (2 ^ k - 1) ints ! j = cn_fast_hash (ints ! (1 + 2 * j) @ ints ! (1 + 2 * j + 1))"
      using i assms by (subst hash_level_nth) auto
    then show ?thesis using i l Suc by (simp add: pairs_def)
  qed
qed

lemma tree_branch_loop_climb:
  "length ints \<ge> 2 ^ k - 1 \<Longrightarrow>
   \<exists>bs. tree_branch_loop k (2 ^ k) ints br = Inr (bs @ br) \<and> length bs = k \<and>
     (\<forall>x. climb x bs = merkle_root k (x # take (2 ^ k - 1) ints))"
proof (induction k arbitrary: ints br)
  case 0
  then show ?case by (simp add: climb_def)
next
  case (Suc k)
  let ?i = "take (2 ^ Suc k - 1) ints"
  have p: "1 \<le> (2 :: nat) ^ k" by simp
  have len: "length ?i = 2 ^ Suc k - 1" using Suc.prems by simp
  have "2 ^ k - 1 \<le> length (hash_level 1 (2 ^ k - 1) ints)" using Suc.prems by simp
  from Suc.IH[OF this, of "ints ! 0 # br"] obtain bs where
    bs: "tree_branch_loop k (2 ^ k) (hash_level 1 (2 ^ k - 1) ints) (ints ! 0 # br) = Inr (bs @ ints ! 0 # br)"
      "length bs = k" "\<And>x. climb x bs = merkle_root k (x # take (2 ^ k - 1) (hash_level 1 (2 ^ k - 1) ints))"
    by blast
  have same: "take (2 ^ k - 1) (hash_level 1 (2 ^ k - 1) ints) = take (2 ^ k - 1) (hash_level 1 (2 ^ k - 1) ?i)"
    using Suc.prems len by (intro nth_equalityI) (auto simp: hash_level_nth)
  have "climb x (bs @ [ints ! 0]) = merkle_root (Suc k) (x # ?i)" for x
  proof -
    have "(1 :: nat) \<le> 2 ^ Suc k - 1" using p unfolding power_Suc by linarith
    then have b: "?i ! 0 = ints ! 0" by simp
    have "climb x (bs @ [ints ! 0]) = climb (cn_fast_hash (x @ ints ! 0)) bs" by (simp add: climb_def)
    also have "\<dots> = merkle_root k (pairs (x # ?i))"
      unfolding bs(3) same pairs_Cons[OF len] b ..
    finally show ?thesis by simp
  qed
  then show ?case using bs(1,2) by (intro exI[of _ "bs @ [ints ! 0]"]) simp
qed

lemma from_branch_loop_climb:
  "d \<le> length bs \<Longrightarrow>
   (let buf' = from_branch_loop bs d None leaf False buf in cn_fast_hash (fst buf' @ snd buf')) =
     climb (cn_fast_hash (fst buf @ snd buf)) (take d bs)"
  by (induction d arbitrary: buf) (auto simp: climb_def Let_def path_bit_def take_Suc_conv_app_nth)

lemma tree_hash_from_branch_climb:
  "tree_hash_from_branch bs (length bs) leaf None = climb leaf bs"
proof (cases "length bs")
  case 0
  then show ?thesis by (simp add: tree_hash_from_branch_def climb_def)
next
  case (Suc d)
  then have e: "take d bs @ [bs ! d] = bs" by (metis lessI take_Suc_conv_app_nth take_all order_refl)
  have "climb leaf (take d bs @ [bs ! d]) = climb (cn_fast_hash (leaf @ bs ! d)) (take d bs)"
    by (simp add: climb_def)
  then have "climb leaf bs = climb (cn_fast_hash (leaf @ bs ! d)) (take d bs)" by (simp only: e)
  moreover have "d \<le> length bs" using Suc by simp
  ultimately show ?thesis
    using from_branch_loop_climb[of d bs leaf "(leaf, bs ! d)"] Suc
    by (simp add: tree_hash_from_branch_def path_bit_def Let_def)
qed

section \<open>Counting\<close>

lemma power_interval: "1 \<le> n \<Longrightarrow> \<exists>k. 2 ^ k \<le> n \<and> n < 2 ^ Suc k" for n :: nat
proof (induction n rule: less_induct)
  case (less n)
  show ?case
  proof (cases "n = 1")
    case True
    then show ?thesis by (intro exI[of _ 0]) simp
  next
    case False
    then have "1 \<le> n div 2" "n div 2 < n" using less.prems by auto
    then obtain k where "2 ^ k \<le> n div 2" "n div 2 < 2 ^ Suc k" using less.IH by blast
    then show ?thesis by (intro exI[of _ "Suc k"]) auto
  qed
qed

lemma div_one_bounds:
  assumes "(n :: nat) div 2 ^ k = 1"
  shows "2 ^ k \<le> n" and "n < 2 ^ Suc k"
proof -
  have p: "0 < (2 :: nat) ^ k" by simp
  have "n = 2 ^ k + n mod 2 ^ k" using div_mult_mod_eq[of n "2 ^ k"] assms by simp
  moreover have "n mod 2 ^ k < 2 ^ k" using p by (rule mod_less_divisor)
  ultimately show "2 ^ k \<le> n" "n < 2 ^ Suc k" unfolding power_Suc by linarith+
qed

lemma power_interval_unique: "2 ^ j \<le> n \<Longrightarrow> n < 2 ^ Suc j \<Longrightarrow> 2 ^ k \<le> n \<Longrightarrow> n < 2 ^ Suc k \<Longrightarrow> j = k" for n :: nat
  by (metis le_less_trans less_Suc_eq_le linorder_neqE_nat not_less power_less_imp_less_exp one_less_numeral_iff
      semiring_norm(76))

definition smeared :: "nat \<Rightarrow> u64 \<Rightarrow> u64 \<Rightarrow> bool" where
  "smeared j w s \<longleftrightarrow> (\<forall>n. bit s n \<longleftrightarrow> (\<exists>m \<ge> n. m < n + j \<and> bit w m))"

lemma smeared_double: "smeared j w s \<Longrightarrow> smeared (j + j) w (s OR drop_bit j s)"
  unfolding smeared_def bit_or_iff bit_drop_bit_eq comp_def
proof (intro allI iffI)
  fix n
  assume s: "\<forall>n. bit s n \<longleftrightarrow> (\<exists>m \<ge> n. m < n + j \<and> bit w m)"
  show "\<exists>m \<ge> n. m < n + (j + j) \<and> bit w m" if "bit s n \<or> bit s (j + n)"
  proof -
    from that obtain m where "(n \<le> m \<and> m < n + j \<or> j + n \<le> m \<and> m < j + n + j) \<and> bit w m"
      unfolding s[rule_format] by blast
    then have "n \<le> m" "m < n + (j + j)" "bit w m" by auto
    then show ?thesis by blast
  qed
  show "bit s n \<or> bit s (j + n)" if "\<exists>m \<ge> n. m < n + (j + j) \<and> bit w m"
  proof -
    from that obtain m where m: "n \<le> m" "m < n + (j + j)" "bit w m" by blast
    show ?thesis
      unfolding s[rule_format] using m by (cases "m < n + j") (auto simp: not_less intro: exI[of _ m])
  qed
qed

lemma smeared_step: "smeared j w s \<Longrightarrow> k = j + j \<Longrightarrow> smeared k w (s OR drop_bit j s)"
  using smeared_double by simp

lemma smeared_all: "smeared 64 w (foldl (\<lambda>cnt i. cnt OR drop_bit i cnt) w [1, 2, 4, 8, 16, 32])"
proof -
  have base: "smeared 1 w w" unfolding smeared_def by (metis Suc_eq_plus1 le_antisym less_Suc_eq_le order_refl)
  show ?thesis
    unfolding foldl_Cons foldl_Nil by (intro smeared_step base) simp_all
qed

lemma bit_nat_top:
  assumes "2 ^ k \<le> unat (w :: u64)" and "unat w < 2 ^ Suc k"
  shows "bit w k" and "k < m \<Longrightarrow> \<not> bit w m"
proof -
  have b: "bit w m \<longleftrightarrow> odd (unat w div 2 ^ m)" for m
  proof -
    have "bit w m \<longleftrightarrow> bit (unat w) m" by (simp add: bit_unsigned_iff)
    then show ?thesis by (simp add: bit_iff_odd)
  qed
  have "unat w div 2 ^ k = 1" using assms by (simp add: div_nat_eqI)
  then show "bit w k" by (simp add: b)
  assume "k < m"
  then have "(2 :: nat) ^ Suc k \<le> 2 ^ m" by (intro power_increasing) auto
  then have "unat w < 2 ^ m" using assms(2) by simp
  then show "\<not> bit w m" by (simp add: b)
qed

lemma tree_cnt_power:
  assumes "2 ^ k < n" and "n \<le> 2 ^ Suc k" and "n < 2 ^ 64"
  shows "unat (tree_cnt (word_of_nat n)) = 2 ^ k"
proof -
  let ?w = "word_of_nat n - 1 :: u64"
  have u: "unat (word_of_nat n :: u64) = n" using assms(3) by (simp add: unat_of_nat)
  have "1 \<le> n" using assms(1) by simp
  then have "(1 :: u64) \<le> word_of_nat n" by (simp add: word_le_nat_alt u)
  then have w: "unat ?w = n - 1" by (simp add: unat_sub u)
  have iv: "2 ^ k \<le> unat ?w" "unat ?w < 2 ^ Suc k" using assms(1,2) w by auto
  have "2 ^ k < (2 :: nat) ^ 64" using iv(1) u64_less[of ?w] by (simp del: u64_less)
  then have k: "k < 64" by (simp only: power_strict_increasing_iff)
  define S where "S = foldl (\<lambda>cnt i. cnt OR drop_bit i cnt) ?w [1, 2, 4, 8, 16, 32]"
  have s: "bit S j \<longleftrightarrow> j \<le> k" for j
  proof -
    have "bit S j \<longleftrightarrow> (\<exists>m \<ge> j. m < j + 64 \<and> bit ?w m)"
      using smeared_all[of ?w] unfolding smeared_def S_def by blast
    moreover have "m \<le> k" if "bit ?w m" for m using bit_nat_top(2)[OF iv] that by (meson not_less)
    moreover have "bit ?w k" using bit_nat_top(1)[OF iv] .
    ultimately show ?thesis using k by (meson le_trans trans_less_add2 order.strict_trans2 le_add1)
  qed
  have "S AND NOT (drop_bit 1 S) = push_bit k 1"
    by (rule bit_word_eqI) (use k in \<open>auto simp: bit_simps s\<close>)
  then have "tree_cnt (word_of_nat n) = push_bit k 1" unfolding tree_cnt_def Let_def S_def .
  then show ?thesis using unat_push_bit_less[of "1 :: u64" k] \<open>2 ^ k < 2 ^ 64\<close> by simp
qed

text \<open>Binary search for the depth, from both sides.\<close>

definition branch_step :: "u64 \<Rightarrow> u64 \<times> nat \<Rightarrow> nat \<Rightarrow> u64 \<times> nat" where
  "branch_step count = (\<lambda>(cnt, depth) i. if push_bit i cnt \<le> count then (push_bit i cnt, depth + i) else (cnt, depth))"

definition branch_inv :: "u64 \<Rightarrow> nat \<Rightarrow> nat \<Rightarrow> u64 \<times> nat \<Rightarrow> bool" where
  "branch_inv count b i p \<longleftrightarrow> unat (fst p) = 2 ^ snd p \<and> 2 ^ snd p \<le> unat count \<and>
     unat count < 2 ^ (snd p + i) \<and> snd p \<le> b"

lemma branch_step_inv:
  assumes "branch_inv count b (i + i) p" and "b + i < 64"
  shows "branch_inv count (b + i) i (branch_step count p i)"
proof -
  obtain cnt d where p: "p = (cnt, d)" by (cases p)
  have h: "unat cnt = 2 ^ d" "2 ^ d \<le> unat count" "unat count < 2 ^ (d + (i + i))" "d \<le> b"
    using assms(1) by (auto simp: branch_inv_def p)
  have "(2 :: nat) ^ (d + i) < 2 ^ 64" using h(4) assms(2) by (intro power_strict_increasing) auto
  then have u: "unat (push_bit i cnt) = 2 ^ (d + i)"
    using unat_push_bit_less[of cnt i] h(1) by (simp add: power_add)
  show ?thesis
    using h by (auto simp: branch_inv_def branch_step_def p word_le_nat_alt u not_le add.assoc)
qed

lemma branch_cnt_power:
  assumes "count \<noteq> 0"
  shows "\<exists>k. branch_cnt count = (push_bit k 1, k) \<and> unat (push_bit k 1 :: u64) = 2 ^ k \<and>
    2 ^ k \<le> unat count \<and> unat count < 2 ^ Suc k \<and> k < 64"
proof -
  have "branch_inv count 0 64 (1, 0)" using assms by (simp add: branch_inv_def unat_gt_0 Suc_le_eq)
  then have "branch_inv count 0 (32 + 32) (1, 0)" by simp
  from branch_step_inv[OF this]
  have "branch_inv count 32 (16 + 16) (branch_step count (1, 0) 32)" by simp
  from branch_step_inv[OF this]
  have "branch_inv count 48 (8 + 8) (branch_step count (branch_step count (1, 0) 32) 16)" by simp
  from branch_step_inv[OF this]
  have "branch_inv count 56 (4 + 4) (branch_step count (branch_step count (branch_step count (1, 0) 32) 16) 8)" by simp
  from branch_step_inv[OF this]
  have "branch_inv count 60 (2 + 2)
      (branch_step count (branch_step count (branch_step count (branch_step count (1, 0) 32) 16) 8) 4)" by simp
  from branch_step_inv[OF this]
  have "branch_inv count 62 (1 + 1)
      (branch_step count (branch_step count (branch_step count (branch_step count (branch_step count (1, 0) 32) 16) 8) 4) 2)"
    by (simp del: One_nat_def)
  from branch_step_inv[OF this]
  have "branch_inv count 63 1 (branch_cnt count)"
    by (simp add: branch_cnt_def branch_step_def[symmetric])
  then have b: "unat (fst (branch_cnt count)) = 2 ^ snd (branch_cnt count)" "2 ^ snd (branch_cnt count) \<le> unat count"
      "unat count < 2 ^ Suc (snd (branch_cnt count))" "snd (branch_cnt count) \<le> 63"
    by (auto simp: branch_inv_def)
  let ?k = "snd (branch_cnt count)"
  have "(2 :: nat) ^ ?k < 2 ^ 64" using b(4) by (intro power_strict_increasing) auto
  then have u: "unat (push_bit ?k 1 :: u64) = 2 ^ ?k" using unat_push_bit_less[of "1 :: u64" ?k] by simp
  then have "fst (branch_cnt count) = push_bit ?k 1" using b(1) by (simp add: word_unat_eq_iff)
  then show ?thesis using b u by (intro exI[of _ ?k]) (simp add: prod_eq_iff)
qed

definition depth_step :: "u64 \<times> nat \<Rightarrow> nat \<Rightarrow> u64 \<times> nat" where
  "depth_step = (\<lambda>(c, depth) i. if 0 < drop_bit i c then (drop_bit i c, depth + i) else (c, depth))"

definition depth_inv :: "u64 \<Rightarrow> nat \<Rightarrow> u64 \<times> nat \<Rightarrow> bool" where
  "depth_inv count i p \<longleftrightarrow> unat (fst p) = unat count div 2 ^ snd p \<and> 0 < unat (fst p) \<and> unat (fst p) < 2 ^ i"

lemma depth_step_inv:
  assumes "depth_inv count (i + i) p"
  shows "depth_inv count i (depth_step p i)"
proof -
  obtain c d where p: "p = (c, d)" by (cases p)
  have h: "unat c = unat count div 2 ^ d" "0 < unat c" "unat c < 2 ^ i * 2 ^ i"
    using assms by (auto simp: depth_inv_def p power_add)
  have "unat c div 2 ^ i < 2 ^ i" using h(3) by (rule less_mult_imp_div_less)
  then show ?thesis
    using h by (auto simp: depth_inv_def depth_step_def p unat_drop_bit word_less_nat_alt power_add div_mult2_eq
        div_eq_0_iff)
qed

lemma tree_depth_power:
  assumes "2 ^ k \<le> unat count" and "unat count < 2 ^ Suc k"
  shows "tree_depth count = Inr k"
proof -
  have "0 < (2 :: nat) ^ k" by simp
  then have c: "0 < unat count" using assms(1) by (rule less_le_trans)
  then have "depth_inv count (32 + 32) (count, 0)" by (simp add: depth_inv_def)
  from depth_step_inv[OF this] have "depth_inv count (16 + 16) (depth_step (count, 0) 32)" by simp
  from depth_step_inv[OF this] have "depth_inv count (8 + 8) (depth_step (depth_step (count, 0) 32) 16)" by simp
  from depth_step_inv[OF this] have "depth_inv count (4 + 4) (depth_step (depth_step (depth_step (count, 0) 32) 16) 8)"
    by simp
  from depth_step_inv[OF this]
  have "depth_inv count (2 + 2) (depth_step (depth_step (depth_step (depth_step (count, 0) 32) 16) 8) 4)" by simp
  from depth_step_inv[OF this]
  have "depth_inv count (1 + 1) (depth_step (depth_step (depth_step (depth_step (depth_step (count, 0) 32) 16) 8) 4) 2)"
    by (simp del: One_nat_def)
  from depth_step_inv[OF this] have "depth_inv count 1 (tree_depth_steps count)"
    by (simp add: tree_depth_steps_def depth_step_def[symmetric])
  then have "unat count div 2 ^ snd (tree_depth_steps count) = 1" by (simp add: depth_inv_def)
  then have "2 ^ snd (tree_depth_steps count) \<le> unat count" "unat count < 2 ^ Suc (snd (tree_depth_steps count))"
    by (rule div_one_bounds, rule div_one_bounds)
  then have "snd (tree_depth_steps count) = k" using power_interval_unique assms by blast
  then show ?thesis using c by (auto simp: tree_depth_def)
qed

section \<open>Root and branch\<close>

lemma first_level_length:
  assumes "cnt \<le> length hashes" and "length hashes \<le> 2 * cnt"
  shows "length (first_level cnt hashes) = cnt"
    "(2 * cnt - length hashes) + 2 * (cnt - (2 * cnt - length hashes)) = length hashes"
  using assms by (auto simp: first_level_def Let_def)

lemma first_level_full: "length hashes = cnt \<Longrightarrow> first_level cnt hashes = hashes"
  by (simp add: first_level_def)

lemma first_level_half: "length hashes = 2 * cnt \<Longrightarrow> first_level cnt hashes = pairs hashes"
  by (simp add: first_level_def pairs_def)

lemma merkle_root_first_level:
  assumes "2 ^ j \<le> length hashes" "length hashes < 2 ^ Suc j" "2 ^ k < length hashes" "length hashes \<le> 2 ^ Suc k"
  shows "merkle_root j (first_level (2 ^ j) hashes) = merkle_root k (first_level (2 ^ k) hashes)"
proof (cases "length hashes = 2 ^ Suc k")
  case True
  then have "j = Suc k" using power_interval_unique[of j "length hashes" "Suc k"] assms(1,2) by simp
  then show ?thesis using True by (simp add: first_level_full first_level_half)
next
  case False
  then have "j = k" using power_interval_unique[of j "length hashes" k] assms by simp
  then show ?thesis by simp
qed

lemma tree_hash_root:
  assumes "2 ^ j \<le> length hashes" and "length hashes < 2 ^ Suc j" and "length hashes < 2 ^ 64"
  shows "tree_hash hashes = Inr (merkle_root j (first_level (2 ^ j) hashes))"
proof -
  have pos: "0 < length hashes" using assms(1) by (metis less_le_trans zero_less_power zero_less_numeral)
  consider "length hashes = 1" | "length hashes = 2" | "3 \<le> length hashes" using pos by linarith
  then show ?thesis
  proof cases
    case 1
    then have "j = 0" using power_interval_unique[of j 1 0] assms(1,2) by simp
    then show ?thesis using 1 by (simp add: tree_hash_def first_level_full)
  next
    case 2
    then have "j = 1" using power_interval_unique[of j 2 1] assms(1,2) by simp
    then show ?thesis using 2 by (simp add: tree_hash_def first_level_full pairs_def)
  next
    case 3
    then have "1 \<le> length hashes - 1" by simp
    then obtain k where "2 ^ k \<le> length hashes - 1" "length hashes - 1 < 2 ^ Suc k"
      using power_interval by blast
    then have k: "2 ^ k < length hashes" "length hashes \<le> 2 ^ Suc k" using 3 by auto
    obtain k' where k': "k = Suc k'" using k(2) 3 by (cases k) auto
    have len: "length (first_level (2 ^ k) hashes) = 2 ^ k"
      using first_level_length(1)[of "2 ^ k" hashes] k by simp
    have "tree_hash hashes = Inr (tree_hash_loop (2 ^ k) (first_level (2 ^ k) hashes))"
      using 3 pos first_level_length(2)[of "2 ^ k" hashes] k tree_cnt_power[OF k assms(3)]
      by (simp add: tree_hash_def Let_def)
    also have "\<dots> = Inr (merkle_root k (first_level (2 ^ k) hashes))"
      using tree_hash_loop_root[of k' "first_level (2 ^ k) hashes"] len by (simp only: k') simp
    finally show ?thesis using merkle_root_first_level[OF assms(1,2) k] by simp
  qed
qed

lemma tree_branch_climb:
  assumes "2 ^ j \<le> length hashes" and "length hashes < 2 ^ Suc j" and "length hashes < 2 ^ 64"
  shows "\<exists>bs. tree_branch hashes = Inr bs \<and> length bs = j \<and>
    climb (hashes ! 0) bs = merkle_root j (first_level (2 ^ j) hashes)"
proof -
  let ?count = "word_of_nat (length hashes) :: u64" and ?L = "first_level (2 ^ j) hashes"
  have u: "unat ?count = length hashes" using assms(3) by (simp add: unat_of_nat)
  have pos: "0 < length hashes" using assms(1) by (metis less_le_trans zero_less_power zero_less_numeral)
  then have "?count \<noteq> 0" using u by auto
  from branch_cnt_power[OF this] obtain k where
    k: "branch_cnt ?count = (push_bit k 1, k)" "unat (push_bit k 1 :: u64) = 2 ^ k"
      "2 ^ k \<le> length hashes" "length hashes < 2 ^ Suc k"
    unfolding u by blast
  have "k = j" using power_interval_unique[OF k(3,4) assms(1,2)] .
  note kj = k[unfolded this]
  have len: "length ?L = 2 ^ j" using first_level_length(1)[of "2 ^ j" hashes] assms(1,2) by simp
  have "0 < 2 * 2 ^ j - length hashes" using assms(2) by simp
  then have hd: "?L ! 0 = hashes ! 0" using pos by (simp add: first_level_def Let_def nth_append)
  have L: "?L = hashes ! 0 # take (2 ^ j - 1) (tl ?L)"
    using len hd by (cases ?L) auto
  have "2 ^ j - 1 \<le> length (tl ?L)" using len by simp
  from tree_branch_loop_climb[OF this, of "[]"] obtain bs where
    bs: "tree_branch_loop j (2 ^ j) (tl ?L) [] = Inr bs" "length bs = j"
      "climb (hashes ! 0) bs = merkle_root j (hashes ! 0 # take (2 ^ j - 1) (tl ?L))"
    by auto
  have "tree_branch hashes = tree_branch_loop j (2 ^ j) (tl ?L) []"
    using pos kj first_level_length(2)[of "2 ^ j" hashes] assms(1,2) tree_depth_power[of j ?count]
    by (simp add: tree_branch_def Let_def u)
  then show ?thesis using bs L by (intro exI[of _ bs]) simp
qed

section \<open>Properties\<close>

text \<open>
  C34: Merkle branches verify. For any non-empty list of hashes, \<open>tree_hash\<close> and \<open>tree_branch\<close> return
  without failing an assertion, the branch has the length \<open>tree_depth\<close> announces, and recomputing the
  root from the first hash along that branch gives the root of the whole list.
\<close>

theorem tree_branch_verifies:
  assumes "hashes \<noteq> []" and "length hashes < 2 ^ 64"
  shows "\<exists>root branch. tree_hash hashes = Inr root \<and> tree_branch hashes = Inr branch \<and>
    tree_depth (word_of_nat (length hashes)) = Inr (length branch) \<and>
    tree_hash_from_branch branch (length branch) (hashes ! 0) None = root"
proof -
  have "1 \<le> length hashes" using assms(1) by (cases hashes) auto
  then obtain j where j: "2 ^ j \<le> length hashes" "length hashes < 2 ^ Suc j" using power_interval by blast
  have "unat (word_of_nat (length hashes) :: u64) = length hashes" using assms(2) by (simp add: unat_of_nat)
  then have "tree_depth (word_of_nat (length hashes)) = Inr j" using j by (intro tree_depth_power) simp_all
  then show ?thesis
    using tree_hash_root[OF j assms(2)] tree_branch_climb[OF j assms(2)] tree_hash_from_branch_climb by auto
qed

theorem tree_branch_verifies_witness:
  "\<exists>root branch. tree_hash [[1], [2], [3]] = Inr root \<and> tree_branch [[1], [2], [3]] = Inr branch \<and>
    tree_depth (word_of_nat (length [[1 :: byte], [2], [3]])) = Inr (length branch) \<and>
    tree_hash_from_branch branch (length branch) ([[1], [2], [3]] ! 0) None = root"
  by (rule tree_branch_verifies) simp_all

end
