(* ===== verification/BlockSeria.thy ===== *)
theory BlockSeria
  imports TransactionExtra TreeHash
begin

text \<open>
  Blocks: the records \<open>ParentBlock\<close>, \<open>BlockHeader\<close> and \<open>BlockTemplate\<close> of \<open>CryptoNote.hpp\<close>, their binary
  form (\<open>rpc_api_serialization.cpp\<close>, and the \<open>ParentBlockSerializer\<close> of \<open>CryptoNoteTools.cpp\<close>), the hashes
  of transactions and blocks (\<open>Currency.cpp\<close>) and the merge mining tag of a block that is mined alone.
  The slow hash of the proof of work is an argument where it is used.
\<close>

section \<open>Definitions\<close>

record parent_block =
  pb_major_version :: u8
  pb_minor_version :: u8
  pb_previous_block_hash :: bytes
  transaction_count :: u16
  base_transaction_branch :: "bytes list"
  pb_base_transaction :: base_transaction
  blockchain_branch :: "bytes list"

record block_header =
  major_version :: u8
  minor_version :: u8
  nonce :: u32
  timestamp :: u32
  previous_block_hash :: bytes

record block_template = block_header +
  parent :: parent_block
  base_tx :: transaction
  transaction_hashes :: "bytes list"

definition empty_parent_block :: parent_block where
  "empty_parent_block =
     \<lparr>pb_major_version = 0, pb_minor_version = 0, pb_previous_block_hash = replicate 32 0, transaction_count = 0,
      base_transaction_branch = [],
      pb_base_transaction = \<lparr>version = 0, unlock_time = 0, inputs = [], outputs = [], extra = []\<rparr>,
      blockchain_branch = []\<rparr>"

text \<open>Four bytes in memory order, as \<open>binary\<close> writes a \<open>uint32_t\<close>.\<close>

definition store32 :: "u32 \<Rightarrow> bytes" where
  "store32 w = rev (nat_to_be 4 (unat w))"

definition load32 :: "bytes \<Rightarrow> u32" where
  "load32 bs = word_of_nat (be_to_nat (rev bs))"

definition get_base_transaction_hash :: "base_transaction \<Rightarrow> bytes" where
  "get_base_transaction_hash tx =
     (if version tx < 2 then cn_fast_hash (write_base_transaction tx)
      else
        let data = replicate 32 0 @
          [0xbc, 0x36, 0x78, 0x9e, 0x7a, 0x1e, 0x28, 0x14, 0x36, 0x46, 0x42, 0x29, 0x82, 0x8f, 0x81, 0x7d,
           0x66, 0x12, 0xf7, 0xb4, 0x77, 0xd6, 0x65, 0x91, 0xff, 0x96, 0xa9, 0xe0, 0x64, 0xbc, 0xc9, 0x8a] @
          replicate 32 0
        in cn_fast_hash (cn_fast_hash (write_prefix tx) @ drop 32 data))"

definition write_parent_block :: "bool \<Rightarrow> bool \<Rightarrow> parent_block \<Rightarrow> u32 \<Rightarrow> u32 \<Rightarrow> bytes result" where
  "write_parent_block hashing header_only pb ts n =
     (let head = write_u8 (pb_major_version pb) @ write_u8 (pb_minor_version pb) @ write_u32 ts @
            pb_previous_block_hash pb @ store32 n @
            (if hashing
             then tree_hash_from_branch (base_transaction_branch pb) (length (base_transaction_branch pb))
                    (get_base_transaction_hash (pb_base_transaction pb)) None
             else []) @
            write_u64 (ucast (transaction_count pb))
      in if transaction_count pb < 1 then Inl (RuntimeError ''Wrong transactions number'')
         else if header_only then Inr head
         else
           bindR (tree_depth (ucast (transaction_count pb))) (\<lambda>branch_size.
             if length (base_transaction_branch pb) \<noteq> branch_size
             then Inl (RuntimeError ''Wrong miner transaction branch size'')
             else
               case get_merge_mining_tag_from_extra (extra (pb_base_transaction pb)) of
                 None \<Rightarrow> Inl (RuntimeError ''Can't get extra merge mining tag'')
               | Some (depth, root) \<Rightarrow>
                   if 256 < depth then Inl (RuntimeError ''Wrong merge mining tag depth'')
                   else if unat depth \<noteq> length (blockchain_branch pb)
                   then Inl (RuntimeError ''Blockchain branch size must be equal to merge mining tag depth'')
                   else Inr (head @ concat (base_transaction_branch pb) @
                          write_base_transaction (pb_base_transaction pb) @ concat (blockchain_branch pb))))"

text \<open>The reader is only used without the hashing and header-only modes; it returns timestamp and nonce too.\<close>

definition read_parent_block :: "(parent_block \<times> u32 \<times> u32) reader" where
  "read_parent_block bs =
     bindR (read_u8 bs) (\<lambda>(maj, bs1).
     bindR (read_u8 bs1) (\<lambda>(mi, bs2).
     bindR (read_u32 bs2) (\<lambda>(ts, bs3).
     bindR (ser_binary 32 bs3) (\<lambda>(prev, bs4).
     bindR (ser_binary 4 bs4) (\<lambda>(n, bs5).
     bindR (read_u64 bs5) (\<lambda>(tx_num, bs6).
       let count = (ucast tx_num :: u16)
       in if count < 1 then Inl (RuntimeError ''Wrong transactions number'')
          else
            bindR (tree_depth (ucast count)) (\<lambda>branch_size.
            bindR (read_seq (ser_binary 32) branch_size bs6) (\<lambda>(btb, bs7).
            bindR (read_base_transaction bs7) (\<lambda>(btx, bs8).
              case get_merge_mining_tag_from_extra (extra btx) of
                None \<Rightarrow> Inl (RuntimeError ''Can't get extra merge mining tag'')
              | Some (depth, root) \<Rightarrow>
                  if 256 < depth then Inl (RuntimeError ''Wrong merge mining tag depth'')
                  else bindR (read_seq (ser_binary 32) (unat depth) bs8) (\<lambda>(bcb, bs9).
                    Inr ((\<lparr>pb_major_version = maj, pb_minor_version = mi, pb_previous_block_hash = prev,
                           transaction_count = count, base_transaction_branch = btb, pb_base_transaction = btx,
                           blockchain_branch = bcb\<rparr>, ts, load32 n), bs9)))))))))))"

definition write_block_header :: "('z) block_header_scheme \<Rightarrow> bytes result" where
  "write_block_header v =
     (if major_version v = 1
      then Inr (write_u8 (major_version v) @ write_u8 (minor_version v) @ write_u32 (timestamp v) @
             previous_block_hash v @ store32 (nonce v))
      else if 2 \<le> major_version v
      then Inr (write_u8 (major_version v) @ write_u8 (minor_version v) @ previous_block_hash v)
      else Inl (RuntimeError ''Wrong major version''))"

definition read_block_header :: "block_header reader" where
  "read_block_header bs =
     bindR (read_u8 bs) (\<lambda>(maj, bs1).
     bindR (read_u8 bs1) (\<lambda>(mi, bs2).
       if maj = 1 then
         bindR (read_u32 bs2) (\<lambda>(ts, bs3).
         bindR (ser_binary 32 bs3) (\<lambda>(prev, bs4).
         bindR (ser_binary 4 bs4) (\<lambda>(n, bs5).
           Inr (\<lparr>major_version = maj, minor_version = mi, nonce = load32 n, timestamp = ts, previous_block_hash = prev\<rparr>, bs5))))
       else if 2 \<le> maj then
         bindR (ser_binary 32 bs2) (\<lambda>(prev, bs3).
           Inr (\<lparr>major_version = maj, minor_version = mi, nonce = 0, timestamp = 0, previous_block_hash = prev\<rparr>, bs3))
       else Inl (RuntimeError ''Wrong major version'')))"

definition write_block_template :: "block_template \<Rightarrow> bytes result" where
  "write_block_template v =
     bindR (write_block_header v) (\<lambda>hd.
     bindR (if 2 \<le> major_version v then write_parent_block False False (parent v) (timestamp v) (nonce v) else Inr []) (\<lambda>pb.
     bindR (write_transaction (base_tx v)) (\<lambda>tx.
       Inr (hd @ pb @ tx @ write_container (\<lambda>h. h) (transaction_hashes v)))))"

definition read_block_template :: "block_template reader" where
  "read_block_template bs =
     bindR (read_block_header bs) (\<lambda>(h, bs1).
     bindR (if 2 \<le> major_version h then read_parent_block bs1
            else Inr ((empty_parent_block, timestamp h, nonce h), bs1)) (\<lambda>((pb, ts, n), bs2).
     bindR (read_transaction bs2) (\<lambda>(tx, bs3).
     bindR (read_container (ser_binary 32) bs3) (\<lambda>(hs, bs4).
       Inr (block_header.extend (h\<lparr>timestamp := ts, nonce := n\<rparr>) (block_template.fields pb tx hs), bs4)))))"

section \<open>Hashes\<close>

definition get_transaction_inputs_hash :: "('z) transaction_prefix_scheme \<Rightarrow> bytes" where
  "get_transaction_inputs_hash tx = cn_fast_hash (write_container write_input (inputs tx))"

definition get_transaction_prefix_hash :: "('z) transaction_prefix_scheme \<Rightarrow> bytes" where
  "get_transaction_prefix_hash tx = cn_fast_hash (write_prefix tx)"

definition get_transaction_hash :: "transaction \<Rightarrow> bytes result" where
  "get_transaction_hash tx = bindR (write_transaction tx) (\<lambda>ba. Inr (cn_fast_hash ba))"

definition get_transaction_tree_hash :: "block_template \<Rightarrow> bytes result" where
  "get_transaction_tree_hash bh =
     bindR (get_transaction_hash (base_tx bh)) (\<lambda>h. tree_hash (h # transaction_hashes bh))"

definition get_block_hashing_binary_array :: "block_template \<Rightarrow> bytes result" where
  "get_block_hashing_binary_array bh =
     bindR (write_block_header bh) (\<lambda>ba.
     bindR (get_transaction_tree_hash bh) (\<lambda>th.
       Inr (ba @ th @ get_varint_data (word_of_nat (length (transaction_hashes bh) + 1) :: u64))))"

text \<open>\<open>get_object_hash\<close> of a byte array hashes its binary form, which starts with the length.\<close>

definition get_block_hash :: "block_template \<Rightarrow> bytes result" where
  "get_block_hash bh =
     bindR (get_block_hashing_binary_array bh) (\<lambda>ba.
     bindR (if 2 \<le> major_version bh then write_parent_block True False (parent bh) (timestamp bh) (nonce bh) else Inr []) (\<lambda>pb.
       Inr (cn_fast_hash (write_binary_array (ba @ pb)))))"

definition get_auxiliary_block_header_hash :: "block_template \<Rightarrow> bytes result" where
  "get_auxiliary_block_header_hash bh =
     bindR (get_block_hashing_binary_array bh) (\<lambda>ba. Inr (cn_fast_hash (write_binary_array ba)))"

definition get_block_long_hash :: "(bytes \<Rightarrow> bytes) \<Rightarrow> (bytes \<Rightarrow> bytes) \<Rightarrow> block_template \<Rightarrow> bytes result" where
  "get_block_long_hash cn_slow_hash cn_lite_slow_hash_v1 bh =
     (if major_version bh = 1 then bindR (get_block_hashing_binary_array bh) (\<lambda>ba. Inr (cn_slow_hash ba))
      else if 2 \<le> major_version bh \<and> major_version bh < 4
      then bindR (write_parent_block True True (parent bh) (timestamp bh) (nonce bh)) (\<lambda>ba. Inr (cn_slow_hash ba))
      else if 4 \<le> major_version bh
      then bindR (write_parent_block True True (parent bh) (timestamp bh) (nonce bh)) (\<lambda>ba. Inr (cn_lite_slow_hash_v1 ba))
      else Inl (RuntimeError ''Unknown block major version.''))"

definition fix_merge_mining_tag :: "block_template \<Rightarrow> block_template result" where
  "fix_merge_mining_tag b =
     (if 2 \<le> major_version b
      then
        let b' = b\<lparr>parent := (parent b)\<lparr>pb_base_transaction := (pb_base_transaction (parent b))\<lparr>extra := []\<rparr>\<rparr>\<rparr>
        in bindR (get_auxiliary_block_header_hash b') (\<lambda>root.
             case append_merge_mining_tag_to_extra [] 0 root of
               (False, _) \<Rightarrow> Inl (RuntimeError ''append_merge_mining_tag_to_extra failed'')
             | (True, e) \<Rightarrow>
                 Inr (b\<lparr>parent := (parent b)\<lparr>pb_base_transaction := (pb_base_transaction (parent b))\<lparr>extra := e\<rparr>\<rparr>\<rparr>))
      else Inr b)"

text \<open>Proof of work of the two generations of blocks (\<open>Currency.cpp\<close>).\<close>

definition check_proof_of_work_v1 :: "bytes \<Rightarrow> block_template \<Rightarrow> u64 \<Rightarrow> bool" where
  "check_proof_of_work_v1 long_block_hash b current_difficulty =
     (if major_version b \<noteq> 1 then False else check_hash long_block_hash current_difficulty)"

definition check_proof_of_work_v2 :: "bytes \<Rightarrow> bytes \<Rightarrow> block_template \<Rightarrow> u64 \<Rightarrow> bool result" where
  "check_proof_of_work_v2 genesis_block_hash long_block_hash b current_difficulty =
     (if major_version b < 2 then Inr False
      else
        case get_merge_mining_tag_from_extra (extra (pb_base_transaction (parent b))) of
          None \<Rightarrow> Inr False
        | Some (depth, root) \<Rightarrow>
            if 256 < length (blockchain_branch (parent b)) then Inr False
            else
              bindR (get_auxiliary_block_header_hash b) (\<lambda>aux.
                if tree_hash_from_branch (blockchain_branch (parent b)) (length (blockchain_branch (parent b))) aux
                     (Some genesis_block_hash) \<noteq> root
                then Inr False
                else Inr (check_hash long_block_hash current_difficulty)))"

definition check_proof_of_work :: "bytes \<Rightarrow> bytes \<Rightarrow> block_template \<Rightarrow> u64 \<Rightarrow> bool result" where
  "check_proof_of_work genesis_block_hash long_block_hash b current_difficulty =
     (if major_version b = 1 then Inr (check_proof_of_work_v1 long_block_hash b current_difficulty)
      else if major_version b = 2 \<or> major_version b = 3 \<or> major_version b = 4
      then check_proof_of_work_v2 genesis_block_hash long_block_hash b current_difficulty
      else Inr False)"

section \<open>Round trip of blocks\<close>

lemma version_simps [simp]: "\<not> (2 :: u8) \<le> 1"
  by (simp add: word_le_nat_alt)

lemma load32_store32 [simp]: "load32 (store32 w) = w" "length (store32 w) = 4"
proof -
  have "unat w < 256 ^ 4" using u32_less[of w] by (simp del: u32_less)
  then have "be_to_nat (nat_to_be 4 (unat w)) = unat w" by (rule be_to_nat_nat_to_be)
  then show "load32 (store32 w) = w" by (simp add: load32_def store32_def)
  show "length (store32 w) = 4" by (simp add: store32_def)
qed

interpretation cbase: prefix_codec write_base_transaction read_base_transaction prefix_ok
  by unfold_locales
    (simp add: write_base_transaction_def read_base_transaction_def cprefix.dec_enc cu64.dec_enc)

interpretation chashes: canonical_codec "write_container (\<lambda>h. h)" "read_container (ser_binary 32)"
  "\<lambda>vs. length vs < 2 ^ 64 \<and> list_all (\<lambda>h. length h = 32) vs"
  by (rule fixed.container_canonical)

definition hashes_ok :: "bytes list \<Rightarrow> bool" where
  "hashes_ok hs = list_all (\<lambda>h. length h = 32) hs"

lemma read_hash_list: "hashes_ok hs \<Longrightarrow> read_seq (ser_binary 32) (length hs) (concat hs @ rest) = Inr (hs, rest)"
  using fixed.read_seq_enc[of hs 32 rest] by (simp add: hashes_ok_def list_all_iff)

definition parent_block_ok :: "parent_block \<Rightarrow> bool" where
  "parent_block_ok pb \<longleftrightarrow> length (pb_previous_block_hash pb) = 32 \<and> hashes_ok (base_transaction_branch pb) \<and>
     prefix_ok (pb_base_transaction pb) \<and> hashes_ok (blockchain_branch pb)"

lemma parent_block_roundtrip:
  assumes "parent_block_ok pb" and "write_parent_block False False pb ts n = Inr bs"
  shows "read_parent_block (bs @ rest) = Inr ((pb, ts, n), rest)"
proof -
  let ?c = "transaction_count pb"
  have c: "(ucast (ucast ?c :: u64) :: u16) = ?c" by (rule bit_word_eqI) (simp add: bit_simps)
  have pos: "\<not> ?c < 1" using assms(2) by (auto simp: write_parent_block_def Let_def split: if_splits)
  obtain depth root where w:
    "tree_depth (ucast ?c) = Inr (length (base_transaction_branch pb))"
    "get_merge_mining_tag_from_extra (extra (pb_base_transaction pb)) = Some (depth, root)"
    "\<not> 256 < depth" "unat depth = length (blockchain_branch pb)"
    "bs = write_u8 (pb_major_version pb) @ write_u8 (pb_minor_version pb) @ write_u32 ts @
          pb_previous_block_hash pb @ store32 n @ write_u64 (ucast ?c) @ concat (base_transaction_branch pb) @
          write_base_transaction (pb_base_transaction pb) @ concat (blockchain_branch pb)"
    using assms(2) by (auto simp: write_parent_block_def Let_def bindR_eq_Inr_iff split: if_splits option.splits)
  show ?thesis
    using assms(1) w(1-4) pos
    by (simp add: w(5) read_parent_block_def parent_block_ok_def cu8.dec_enc cu32.dec_enc cu64.dec_enc fixed.dec_enc
        c read_hash_list cbase.dec_enc)
qed

definition block_ok :: "block_template \<Rightarrow> bool" where
  "block_ok b \<longleftrightarrow> length (previous_block_hash b) = 32 \<and> transaction_ok (base_tx b) \<and>
     hashes_ok (transaction_hashes b) \<and> length (transaction_hashes b) < 2 ^ 64 \<and>
     (if major_version b = 1 then parent b = empty_parent_block else parent_block_ok (parent b))"

lemma block_header_roundtrip:
  assumes "write_block_header v = Inr bs" and "length (previous_block_hash v) = 32"
  shows "read_block_header (bs @ rest) =
    Inr (\<lparr>major_version = major_version v, minor_version = minor_version v,
          nonce = (if major_version v = 1 then nonce v else 0),
          timestamp = (if major_version v = 1 then timestamp v else 0),
          previous_block_hash = previous_block_hash v\<rparr>, rest)"
  using assms
  by (auto simp: write_block_header_def read_block_header_def cu8.dec_enc cu32.dec_enc fixed.dec_enc split: if_splits)

lemma block_template_roundtrip:
  assumes "block_ok b" and "write_block_template b = Inr bs"
  shows "read_block_template (bs @ rest) = Inr (b, rest)"
proof -
  obtain hd pb tx where w: "write_block_header b = Inr hd"
      "(if 2 \<le> major_version b then write_parent_block False False (parent b) (timestamp b) (nonce b) else Inr []) = Inr pb"
      "write_transaction (base_tx b) = Inr tx"
      "bs = hd @ pb @ tx @ write_container (\<lambda>h. h) (transaction_hashes b)"
    using assms(2) by (auto simp: write_block_template_def bindR_eq_Inr_iff)
  have ok: "length (previous_block_hash b) = 32" "transaction_ok (base_tx b)" "hashes_ok (transaction_hashes b)"
      "length (transaction_hashes b) < 2 ^ 64"
    using assms(1) by (auto simp: block_ok_def)
  have maj: "major_version b = 1 \<and> \<not> 2 \<le> major_version b \<or> major_version b \<noteq> 1 \<and> 2 \<le> major_version b"
    using w(1) by (auto simp: write_block_header_def split: if_splits)
  have tx: "read_transaction (tx @ r) = Inr (base_tx b, r)" for r
    using ok(2) w(3) by (simp add: read_transaction_iff)
  have hs: "read_container (ser_binary 32) (write_container (\<lambda>h. h) (transaction_hashes b) @ rest) =
      Inr (transaction_hashes b, rest)"
    using chashes.dec_enc[of "transaction_hashes b" rest] ok(3,4) by (simp add: hashes_ok_def)
  from maj show ?thesis
  proof
    assume m: "major_version b = 1 \<and> \<not> 2 \<le> major_version b"
    then have "pb = []" "parent b = empty_parent_block" using w(2) assms(1) by (auto simp: block_ok_def)
    then show ?thesis
      using m block_header_roundtrip[OF w(1) ok(1)] tx hs
      by (cases b) (simp add: read_block_template_def w(4) block_header.defs block_template.defs)
  next
    assume m: "major_version b \<noteq> 1 \<and> 2 \<le> major_version b"
    then have p: "parent_block_ok (parent b)" "write_parent_block False False (parent b) (timestamp b) (nonce b) = Inr pb"
      using w(2) assms(1) by (auto simp: block_ok_def)
    show ?thesis
      using m block_header_roundtrip[OF w(1) ok(1)] parent_block_roundtrip[OF p] tx hs
      by (cases b) (simp add: read_block_template_def w(4) block_header.defs block_template.defs)
  qed
qed

section \<open>Properties\<close>

text \<open>
  C27: a block that serialises deserialises to itself, with its parent block, its base transaction and
  its transaction hashes, in every version: timestamp and nonce come from the header in version 1
  and from the parent block from version 2 on.
\<close>

theorem block_template_binary_roundtrip:
  assumes "block_ok b" and "write_block_template b = Inr bs"
  shows "from_binary read_block_template bs = Inr b"
  using block_template_roundtrip[OF assms, of "[]"] by (simp add: from_binary_Inr)

definition sample_block :: block_template where
  "sample_block =
     \<lparr>major_version = 1, minor_version = 0, nonce = 70, timestamp = 5, previous_block_hash = replicate 32 0,
      parent = empty_parent_block,
      base_tx = \<lparr>version = 1, unlock_time = 10, inputs = [CoinbaseInput 0], outputs = [], extra = [], signatures = []\<rparr>,
      transaction_hashes = [replicate 32 3]\<rparr>"

theorem block_template_binary_roundtrip_witness:
  "block_ok sample_block \<and>
   (\<exists>bs. write_block_template sample_block = Inr bs \<and> from_binary read_block_template bs = Inr sample_block)"
proof -
  have ok: "block_ok sample_block"
    by (simp add: sample_block_def block_ok_def transaction_ok_def prefix_ok_def signatures_ok_def input_ok_def
        sig_size_def is_base_def hashes_ok_def)
  have "\<exists>bs. write_block_template sample_block = Inr bs"
    by (simp add: sample_block_def write_block_template_def write_block_header_def write_transaction_def sig_size_def
        is_base_def)
  then show ?thesis using ok block_template_binary_roundtrip[OF ok] by blast
qed

lemma auxiliary_hash_parent [simp]:
  "get_auxiliary_block_header_hash (b\<lparr>parent := p\<rparr>) = get_auxiliary_block_header_hash b"
  by (simp add: get_auxiliary_block_header_hash_def get_block_hashing_binary_array_def write_block_header_def
      get_transaction_tree_hash_def)

lemma auxiliary_hash_length: "get_auxiliary_block_header_hash b = Inr h \<Longrightarrow> length h = 32"
  by (auto simp: get_auxiliary_block_header_hash_def bindR_eq_Inr_iff)

lemma single_merge_mining_tag:
  "length root = 32 \<Longrightarrow> get_merge_mining_tag_from_extra (snd (append_merge_mining_tag_to_extra [] depth root)) = Some (depth, root)"
  using parse_field[of "ExtraMergeMiningTag depth root" "[]" "[]"]
  by (simp add: field_ok_def field_bytes_def write_extra_field_def append_merge_mining_tag_to_extra_def
      get_merge_mining_tag_from_extra_def parse_transaction_extra_loop find_merge_mining_tag_def)

text \<open>
  C35: a block mined alone carries a valid merge mining tag. After \<open>fix_merge_mining_tag\<close> the version 2
  proof-of-work check finds the tag and its Merkle root matches, so only the difficulty test of the long
  hash is left to decide.
\<close>

theorem solo_merge_mining_tag_valid:
  assumes "2 \<le> major_version b" and "blockchain_branch (parent b) = []" and "fix_merge_mining_tag b = Inr b'"
  shows "check_proof_of_work_v2 genesis_block_hash long_block_hash b' difficulty = Inr (check_hash long_block_hash difficulty)"
proof -
  obtain root where r: "get_auxiliary_block_header_hash b = Inr root"
      "b' = b\<lparr>parent := (parent b)\<lparr>pb_base_transaction := (pb_base_transaction (parent b))
        \<lparr>extra := snd (append_merge_mining_tag_to_extra [] 0 root)\<rparr>\<rparr>\<rparr>"
    using assms(1,3)
    by (auto simp: fix_merge_mining_tag_def bindR_eq_Inr_iff append_merge_mining_tag_to_extra_def Let_def)
  have "get_auxiliary_block_header_hash b' = Inr root" by (simp add: r)
  then show ?thesis
    using assms(1,2) single_merge_mining_tag[OF auxiliary_hash_length[OF r(1)], of 0]
    by (auto simp: check_proof_of_work_v2_def r(2) tree_hash_from_branch_def)
qed

theorem solo_merge_mining_tag_valid_witness:
  "\<exists>b'. fix_merge_mining_tag (sample_block\<lparr>major_version := 2\<rparr>) = Inr b' \<and>
     check_proof_of_work_v2 (replicate 32 0) (replicate 32 0) b' 1 = Inr (check_hash (replicate 32 0) 1)"
proof -
  let ?b = "sample_block\<lparr>major_version := 2\<rparr>"
  have "\<exists>b'. fix_merge_mining_tag ?b = Inr b'"
    by (simp add: fix_merge_mining_tag_def get_auxiliary_block_header_hash_def get_block_hashing_binary_array_def
        get_transaction_tree_hash_def get_transaction_hash_def write_transaction_def write_block_header_def
        sample_block_def sig_size_def is_base_def tree_hash_def append_merge_mining_tag_to_extra_def)
  then obtain b' where b': "fix_merge_mining_tag ?b = Inr b'" by blast
  have "check_proof_of_work_v2 (replicate 32 0) (replicate 32 0) b' 1 = Inr (check_hash (replicate 32 0) 1)"
    by (rule solo_merge_mining_tag_valid[OF _ _ b']) (simp_all add: sample_block_def empty_parent_block_def)
  then show ?thesis using b' by blast
qed

end
