(* ===== verification/Currency.thy ===== *)
theory Currency
  imports BlockSeria Base58 TextBase
begin

text \<open>
  The monetary rules: \<open>src/src/Core/Currency.cpp\<close> with the constants of \<open>CryptoNoteConfig.hpp\<close>, and the
  amount helpers of \<open>src/src/Core/CryptoNoteTools.cpp\<close>. The object \<open>Currency\<close> is a record of its
  parameters, filled for the main and the test network the way the constructor does; the hash of the
  genesis block and the list of checkpoints are arguments. Assertions are errors of the result type.
  Random keys and the elliptic curve operations of the coinbase transaction are arguments.
\<close>

section \<open>Definitions\<close>

subsection \<open>Parameters\<close>

record currency =
  is_testnet :: bool
  genesis_block_hash :: bytes
  checkpoints :: "(u32 \<times> bytes) list"
  max_block_height :: u32
  max_block_blob_size :: u32
  max_tx_size :: u32
  public_address_base58_prefix :: u64
  mined_money_unlock_window :: u32
  timestamp_check_window :: u32
  block_future_time_limit :: u32
  money_supply :: u64
  emission_speed_factor :: nat
  reward_blocks_window :: u32
  block_granted_full_reward_zone :: u32
  miner_tx_blob_reserved_size :: u32
  number_of_decimal_places :: nat
  minimum_fee :: u64
  default_dust_threshold :: u64
  difficulty_target :: u32
  difficulty_window :: u32
  difficulty_lag :: u32
  difficulty_cut :: nat
  max_block_size_initial :: u64
  max_block_size_growth_speed_numerator :: u64
  max_block_size_growth_speed_denominator :: u64
  locked_tx_allowed_delta_seconds :: u32
  locked_tx_allowed_delta_blocks :: u32
  upgrade_height_v2 :: u32
  upgrade_height_v3 :: u32
  upgrade_height_v4 :: u32
  current_transaction_version :: u8
  hardfork_v1_height :: u32
  hardfork_v2_height :: u32
  timestamp_check_window_v2 :: u32
  block_future_time_limit_v2 :: u32
  difficulty_window_v2 :: u32
  difficulty_blocks_count_v2 :: u32

definition mk_currency :: "bool \<Rightarrow> bytes \<Rightarrow> (u32 \<times> bytes) list \<Rightarrow> currency" where
  "mk_currency testnet genesis cps =
     (let target = (if testnet then 1 else 60 :: u32)
      in \<lparr>is_testnet = testnet, genesis_block_hash = genesis, checkpoints = cps,
          max_block_height = 500000000, max_block_blob_size = 500000000, max_tx_size = 1000000000,
          public_address_base58_prefix = 126, mined_money_unlock_window = 10, timestamp_check_window = 60,
          block_future_time_limit = 60 * 60 * 2, money_supply = 0xFFFFFFFFFFFFFFFF, emission_speed_factor = 16,
          reward_blocks_window = 100, block_granted_full_reward_zone = 100000, miner_tx_blob_reserved_size = 600,
          number_of_decimal_places = 10, minimum_fee = 1000000, default_dust_threshold = 1000000,
          difficulty_target = target, difficulty_window = (24 * 60 * 60) div target, difficulty_lag = 15,
          difficulty_cut = 60, max_block_size_initial = 20 * 1024,
          max_block_size_growth_speed_numerator = 100 * 1024,
          max_block_size_growth_speed_denominator = ucast ((365 * 24 * 60 * 60) div target),
          locked_tx_allowed_delta_seconds = target * 1, locked_tx_allowed_delta_blocks = 1,
          upgrade_height_v2 = (if testnet then 0 else 1), upgrade_height_v3 = (if testnet then - 1 else 2),
          upgrade_height_v4 = 7080, current_transaction_version = 1, hardfork_v1_height = 7070,
          hardfork_v2_height = 7080, timestamp_check_window_v2 = 11, block_future_time_limit_v2 = 60 * 3,
          difficulty_window_v2 = 60, difficulty_blocks_count_v2 = 61\<rparr>)"

definition DECIMAL_PLACES :: "u64 list" where
  "DECIMAL_PLACES = map (\<lambda>k. 10 ^ k) [0..<20]"

definition PRETTY_AMOUNTS :: "u64 list" where
  "PRETTY_AMOUNTS = concat (map (\<lambda>k. map (\<lambda>d. word_of_nat d * 10 ^ k) [1..<10]) [0..<19]) @ [10000000000000000000]"

subsection \<open>Checkpoints, versions and time limits\<close>

definition sw_checkpoint_count :: "currency \<Rightarrow> nat" where
  "sw_checkpoint_count c = (if is_testnet c then 1 else length (checkpoints c))"

text \<open>The last element of an empty array does not exist.\<close>

definition is_in_sw_checkpoint_zone :: "currency \<Rightarrow> u32 \<Rightarrow> bool result" where
  "is_in_sw_checkpoint_zone c index =
     (if is_testnet c then Inr (index = 0)
      else if sw_checkpoint_count c = 0 then Inl Undefined
      else Inr (index \<le> fst (checkpoints c ! (sw_checkpoint_count c - 1))))"

text \<open>\<open>std::lower_bound\<close>: the first element not below; the result is \<open>(accepted, is_sw_checkpoint)\<close>.\<close>

definition check_sw_checkpoint :: "currency \<Rightarrow> u32 \<Rightarrow> bytes \<Rightarrow> bool \<times> bool" where
  "check_sw_checkpoint c index h =
     (if is_testnet c \<or> index = 0
      then (if index = 0 then h = genesis_block_hash c else True, index = 0)
      else case List.find (\<lambda>da. \<not> fst da < index) (checkpoints c) of
          None \<Rightarrow> (True, False)
        | Some da \<Rightarrow> if fst da \<noteq> index then (True, False) else (h = snd da, True))"

definition last_sw_checkpoint :: "currency \<Rightarrow> u32 \<times> bytes" where
  "last_sw_checkpoint c =
     (if is_testnet c \<or> sw_checkpoint_count c = 0 then (0, genesis_block_hash c)
      else checkpoints c ! (sw_checkpoint_count c - 1))"

definition get_block_major_version_for_height :: "currency \<Rightarrow> u32 \<Rightarrow> u8" where
  "get_block_major_version_for_height c height =
     (if height \<le> upgrade_height_v2 c then 1
      else if upgrade_height_v2 c < height \<and> height \<le> upgrade_height_v3 c then 2
      else if upgrade_height_v3 c < height \<and> height \<le> upgrade_height_v4 c then 3
      else 4)"

definition block_granted_full_reward_zone_by_block_version :: "currency \<Rightarrow> u8 \<Rightarrow> u32" where
  "block_granted_full_reward_zone_by_block_version c v =
     (if 3 \<le> v then block_granted_full_reward_zone c else if v = 2 then 20000 else 10000)"

definition get_timestamp_check_window :: "currency \<Rightarrow> u32 \<Rightarrow> u32" where
  "get_timestamp_check_window c height =
     (if hardfork_v2_height c \<le> height then timestamp_check_window_v2 c else timestamp_check_window c)"

definition get_block_future_time_limit :: "currency \<Rightarrow> u32 \<Rightarrow> u32" where
  "get_block_future_time_limit c height =
     (if hardfork_v2_height c \<le> height then block_future_time_limit_v2 c else block_future_time_limit c)"

definition get_difficulty_blocks_count :: "currency \<Rightarrow> u32 \<Rightarrow> u32" where
  "get_difficulty_blocks_count c height =
     (if height \<le> hardfork_v2_height c then difficulty_window c + difficulty_lag c else difficulty_blocks_count_v2 c)"

text \<open>The sums are 32-bit sums.\<close>

definition is_transaction_spend_time_unlocked :: "currency \<Rightarrow> u64 \<Rightarrow> u32 \<Rightarrow> u32 \<Rightarrow> bool" where
  "is_transaction_spend_time_unlocked c ut height block_time =
     (if ut < ucast (max_block_height c)
      then ut \<le> ucast (height + locked_tx_allowed_delta_blocks c)
      else ut \<le> ucast (block_time + locked_tx_allowed_delta_seconds c))"

subsection \<open>Rewards and sizes\<close>

definition calc_base_reward :: "currency \<Rightarrow> u8 \<Rightarrow> u64 \<Rightarrow> u64" where
  "calc_base_reward c v already_generated_coins =
     (let base_reward = drop_bit (emission_speed_factor c) (money_supply c - already_generated_coins)
      in if 4 \<le> v \<and> 32 \<le> base_reward then base_reward div 32 else base_reward)"

definition get_penalized_amount :: "u64 \<Rightarrow> u64 \<Rightarrow> u64 \<Rightarrow> u64 result" where
  "get_penalized_amount amount median_size current_block_size =
     (if \<not> current_block_size \<le> 2 * median_size \<or> \<not> median_size \<le> 0xFFFFFFFF \<or> \<not> current_block_size \<le> 0xFFFFFFFF
      then Inl AssertFailed
      else if amount = 0 then Inr 0
      else if current_block_size \<le> median_size then Inr amount
      else
        let (product_hi, product_lo) = mul128 amount (current_block_size * (2 * median_size - current_block_size))
        in bindR (div128_32 product_hi product_lo (ucast median_size)) (\<lambda>(hi1, lo1, _).
           bindR (div128_32 hi1 lo1 (ucast median_size)) (\<lambda>(hi2, lo2, _).
             if hi2 \<noteq> 0 \<or> \<not> lo2 < amount then Inl AssertFailed else Inr lo2)))"

text \<open>Returns the reward and the change of the emission (a signed amount, in two's complement).\<close>

definition get_block_reward :: "currency \<Rightarrow> u8 \<Rightarrow> u64 \<Rightarrow> u64 \<Rightarrow> u64 \<Rightarrow> u64 \<Rightarrow> (u64 \<times> u64) result" where
  "get_block_reward c v effective_median_size current_block_size already_generated_coins fee =
     (if \<not> already_generated_coins \<le> money_supply c \<or> \<not> (0 < emission_speed_factor c \<and> emission_speed_factor c \<le> 64)
      then Inl AssertFailed
      else
        bindR (get_penalized_amount (calc_base_reward c v already_generated_coins) effective_median_size current_block_size) (\<lambda>pb.
        bindR (if 2 \<le> v then get_penalized_amount fee effective_median_size current_block_size else Inr fee) (\<lambda>pf.
          Inr (pb + pf, pb - (fee - pf)))))"

definition max_block_cumulative_size :: "currency \<Rightarrow> u32 \<Rightarrow> u32 result" where
  "max_block_cumulative_size c height =
     (if max_block_size_growth_speed_numerator c = 0 \<or> max_block_size_growth_speed_denominator c = 0 then Inl Undefined
      else if \<not> ucast height \<le> (0xFFFFFFFFFFFFFFFF :: u64) div max_block_size_growth_speed_numerator c then Inl AssertFailed
      else
        let max_size = max_block_size_initial c +
              (ucast height * max_block_size_growth_speed_numerator c) div max_block_size_growth_speed_denominator c
        in if \<not> max_block_size_initial c \<le> max_size then Inl AssertFailed else Inr (ucast max_size))"

definition max_transaction_allowed_size :: "currency \<Rightarrow> u32 \<Rightarrow> u32 result" where
  "max_transaction_allowed_size c effective_block_size_median =
     (if \<not> miner_tx_blob_reserved_size c < effective_block_size_median * 2 then Inl AssertFailed
      else Inr (min (max_tx_size c) (effective_block_size_median * 2 - miner_tx_blob_reserved_size c)))"

subsection \<open>Amounts\<close>

text \<open>The dust handler pushes the part below a thousand and the rest.\<close>

definition push_dust :: "u64 \<Rightarrow> u64 list" where
  "push_dust dust =
     (let du0 = dust mod 1000; du1 = dust - du0
      in (if du0 \<noteq> 0 then [du0] else []) @ (if du1 \<noteq> 0 then [du1] else []))"

function decompose_loop :: "u64 \<Rightarrow> u64 \<Rightarrow> bool \<Rightarrow> u64 \<Rightarrow> u64 \<Rightarrow> u64 list \<Rightarrow> u64 list" where
  "decompose_loop amount dust_threshold is_dust_handled dust order acc =
     (if amount \<noteq> 0 then
        let chunk = (amount mod 10) * order
        in if dust + chunk \<le> dust_threshold
           then decompose_loop (amount div 10) dust_threshold is_dust_handled (dust + chunk) (order * 10) acc
           else
             let acc1 = (if \<not> is_dust_handled \<and> dust \<noteq> 0 then acc @ push_dust dust else acc)
             in decompose_loop (amount div 10) dust_threshold (is_dust_handled \<or> dust \<noteq> 0) dust (order * 10)
                  (if chunk \<noteq> 0 then acc1 @ [chunk] else acc1)
      else if \<not> is_dust_handled \<and> dust \<noteq> 0 then acc @ push_dust dust
      else acc)"
  by pat_completeness auto
termination
  by (relation "measure (\<lambda>(amount, _). unat amount)") (auto simp: unat_div_distrib unat_gt_0)

declare decompose_loop.simps [simp del]

definition decompose_amount :: "u64 \<Rightarrow> u64 \<Rightarrow> u64 list" where
  "decompose_amount amount dust_threshold =
     (if amount = 0 then [] else decompose_loop amount dust_threshold False 0 1 [])"

definition get_maximum_tx_size :: "nat \<Rightarrow> nat \<Rightarrow> nat \<Rightarrow> nat" where
  "get_maximum_tx_size input_count output_count mixin_count =
     (let outputs_size = output_count * (1 + 32 + (8 + 2));
          header_size = 1 + 8 + 1 + 32;
          input_size = 1 + (8 + 2) + 32 + 64 + 1 + 4 + mixin_count * (4 + 64)
      in header_size + outputs_size + input_size * input_count)"

definition get_tx_fee :: "('z) transaction_prefix_scheme \<Rightarrow> u64 option" where
  "get_tx_fee tx =
     (let amount_in = foldl (\<lambda>a i. case i of KeyInput x _ _ \<Rightarrow> a + x | CoinbaseInput _ \<Rightarrow> a) 0 (inputs tx);
          amount_out = foldl (\<lambda>a out. a + out_amount out) 0 (outputs tx)
      in if amount_in < amount_out then None else Some (amount_in - amount_out))"

definition get_tx_fee_or_0 :: "('z) transaction_prefix_scheme \<Rightarrow> u64" where
  "get_tx_fee_or_0 tx = (case get_tx_fee tx of None \<Rightarrow> 0 | Some r \<Rightarrow> r)"

text \<open>\<open>std::lower_bound\<close> on the sorted table.\<close>

definition is_dust :: "u64 \<Rightarrow> bool" where
  "is_dust amount =
     (case List.find (\<lambda>x. amount \<le> x) PRETTY_AMOUNTS of
        None \<Rightarrow> True
      | Some x \<Rightarrow> x \<noteq> amount \<or> amount < 1000000)"

subsection \<open>The coinbase transaction\<close>

function merge_outs :: "nat \<Rightarrow> u64 list \<Rightarrow> u64 list" where
  "merge_outs max_outs out_amounts =
     (if max_outs < length out_amounts \<and> 2 \<le> length out_amounts
      then merge_outs max_outs
             (butlast (out_amounts[length out_amounts - 2 := out_amounts ! (length out_amounts - 2) + last out_amounts]))
      else out_amounts)"
  by pat_completeness auto
termination
  by (relation "measure (\<lambda>(m, xs). length xs)") auto

declare merge_outs.simps [simp del]

text \<open>
  \<open>construct_miner_tx\<close>: \<open>None\<close> is its \<open>false\<close>. The key pair, the key derivation and the derived output
  keys come from the crypto library.
\<close>

definition construct_miner_tx ::
  "currency \<Rightarrow> bytes \<times> bytes \<Rightarrow> (bytes \<Rightarrow> bytes \<Rightarrow> bytes option) \<Rightarrow> (bytes \<Rightarrow> nat \<Rightarrow> bytes \<Rightarrow> bytes option) \<Rightarrow>
   u8 \<Rightarrow> u32 \<Rightarrow> u64 \<Rightarrow> u64 \<Rightarrow> u64 \<Rightarrow> u64 \<Rightarrow> account_public_address \<Rightarrow> transaction \<Rightarrow> bytes \<Rightarrow> nat \<Rightarrow> transaction option result" where
  "construct_miner_tx c txkey generate_key_derivation derive_public_key block_major_version height effective_median_size
     already_generated_coins current_block_size fee miner_address tx extra_nonce max_outs =
     (let extra1 = snd (add_transaction_public_key_to_extra [] (fst txkey));
          (ok, extra2) = (if extra_nonce \<noteq> [] then add_extra_nonce_to_transaction_extra extra1 extra_nonce else (True, extra1))
      in if \<not> ok then Inr None
         else
           bindR (get_block_reward c block_major_version effective_median_size current_block_size already_generated_coins fee)
             (\<lambda>(block_reward, _).
               let out_amounts = merge_outs (if max_outs = 0 then 1 else max_outs)
                     (decompose_amount block_reward (default_dust_threshold c));
                   keys = map (\<lambda>no. case generate_key_derivation (view_public_key miner_address) (snd txkey) of
                       None \<Rightarrow> None
                     | Some derivation \<Rightarrow> derive_public_key derivation no (spend_public_key miner_address)) [0..<length out_amounts]
               in if list_ex (\<lambda>k. k = None) keys then Inr None
                  else if foldl (+) 0 out_amounts \<noteq> block_reward then Inr None
                  else Inr (Some (tx\<lparr>
                    version := current_transaction_version c,
                    unlock_time := ucast (height + mined_money_unlock_window c),
                    inputs := [CoinbaseInput height],
                    outputs := map2 (\<lambda>a k. \<lparr>out_amount = a, out_target = KeyOutput (the k)\<rparr>) out_amounts keys,
                    extra := extra2\<rparr>))))"

subsection \<open>Addresses\<close>

definition get_account_address_as_str :: "u64 \<Rightarrow> account_public_address \<Rightarrow> string result" where
  "get_account_address_as_str prefix adr = encode_addr prefix (write_address adr)"

text \<open>\<open>key_isvalid\<close> is the curve check of the crypto library; \<open>None\<close> is \<open>false\<close>.\<close>

definition parse_account_address_string_raw ::
  "(bytes \<Rightarrow> bool) \<Rightarrow> string \<Rightarrow> (u64 \<times> account_public_address) option result" where
  "parse_account_address_string_raw key_isvalid str =
     bindR (decode_addr str) (\<lambda>r. case r of
         None \<Rightarrow> Inr None
       | Some (prefix, data) \<Rightarrow>
           (case from_binary read_address data of
              Inl _ \<Rightarrow> Inr None
            | Inr adr \<Rightarrow>
                if key_isvalid (spend_public_key adr) \<and> key_isvalid (view_public_key adr)
                then Inr (Some (prefix, adr)) else Inr None))"

definition account_address_as_string :: "currency \<Rightarrow> account_public_address \<Rightarrow> string result" where
  "account_address_as_string c adr = get_account_address_as_str (public_address_base58_prefix c) adr"

definition parse_account_address_string ::
  "currency \<Rightarrow> (bytes \<Rightarrow> bool) \<Rightarrow> string \<Rightarrow> account_public_address option result" where
  "parse_account_address_string c key_isvalid str =
     bindR (parse_account_address_string_raw key_isvalid str) (\<lambda>r. case r of
         None \<Rightarrow> Inr None
       | Some (prefix, adr) \<Rightarrow> if prefix \<noteq> public_address_base58_prefix c then Inr None else Inr (Some adr))"

subsection \<open>Amounts as text\<close>

definition ffw :: "u64 \<Rightarrow> nat \<Rightarrow> string" where
  "ffw am digs =
     (let result = nat_to_string (unat am)
      in if length result < digs then replicate (digs - length result) (CHR ''0'') @ result else result)"

definition decimal_place :: "int \<Rightarrow> u64 result" where
  "decimal_place i = (if 0 \<le> i \<and> nat i < length DECIMAL_PLACES then Inr (DECIMAL_PLACES ! nat i) else Inl OutOfRange)"

function format_thousands :: "u64 \<Rightarrow> string \<Rightarrow> u64 \<times> string" where
  "format_thousands ia result =
     (if 1000 \<le> ia then format_thousands (ia div 1000) (CHR 0x27 # ffw (ia mod 1000) 3 @ result) else (ia, result))"
  by pat_completeness auto
termination
  by (relation "measure (\<lambda>(ia, r). unat ia)") (auto simp: unat_div_distrib word_le_nat_alt)

declare format_thousands.simps [simp del]

definition format_amount :: "nat \<Rightarrow> u64 \<Rightarrow> string result" where
  "format_amount places amount =
     bindR (decimal_place (int places)) (\<lambda>dp.
       let ia = amount div dp;
           fa = amount - ia * dp;
           (ia', tail) = format_thousands ia [];
           r0 = nat_to_string (unat ia') @ tail
       in bindR (if fa \<noteq> 0
                 then bindR (decimal_place (int places - 2)) (\<lambda>cents. Inr (r0 @ ''.'' @ ffw (fa div cents) 2, fa mod cents))
                 else Inr (r0, fa)) (\<lambda>(r1, fa1).
            let (r2, fa2) = (if fa1 \<noteq> 0 then (r1 @ [CHR 0x27] @ ffw (fa1 div 1000) 3, fa1 mod 1000) else (r1, fa1))
            in Inr (if fa2 \<noteq> 0 then r2 @ [CHR 0x27] @ ffw fa2 3 else r2)))"

definition trim :: "string \<Rightarrow> string" where
  "trim s = rev (dropWhile is_space (rev (dropWhile is_space s)))"

fun erase_zeros :: "nat \<Rightarrow> string \<Rightarrow> nat \<Rightarrow> string \<times> nat" where
  "erase_zeros places s 0 = (s, 0)"
| "erase_zeros places s (Suc fraction_size) =
     (if places < Suc fraction_size \<and> s \<noteq> [] \<and> last s = CHR ''0''
      then erase_zeros places (butlast s) fraction_size else (s, Suc fraction_size))"

text \<open>\<open>None\<close> is \<open>false\<close>; extracting from the stream fails on values that do not fit.\<close>

definition parse_amount :: "nat \<Rightarrow> string \<Rightarrow> u64 option" where
  "parse_amount places str =
     (let s0 = filter (\<lambda>ch. ch \<noteq> CHR 0x27) (trim str);
          point = length (takeWhile (\<lambda>ch. ch \<noteq> CHR ''.'') s0);
          (s1, fraction_size, ok) =
            (if point < length s0
             then let (s', f) = erase_zeros places s0 (length s0 - point - 1)
                  in if places < f then (s', f, False) else (take point s' @ drop (point + 1) s', f, True)
             else (s0, 0, True))
      in if \<not> ok \<or> s1 = [] \<or> \<not> list_all is_digit s1 then None
         else let v = digits_value (s1 @ replicate (places - fraction_size) (CHR ''0''))
              in if v < 2 ^ 64 then Some (word_of_nat v) else None)"

subsection \<open>Difficulty\<close>

definition resize :: "nat \<Rightarrow> 'a::zero list \<Rightarrow> 'a list" where
  "resize n xs = take n xs @ replicate (n - length xs) 0"

definition difficulty_cuts :: "nat \<Rightarrow> nat \<Rightarrow> nat \<Rightarrow> nat \<times> nat" where
  "difficulty_cuts len window cut_n =
     (if len \<le> window - 2 * cut_n then (0, len)
      else let cut_begin = (len - (window - 2 * cut_n) + 1) div 2
           in (cut_begin, cut_begin + (window - 2 * cut_n)))"

text \<open>
  The computation \<open>next_difficulty_v1\<close> runs once over the long window and, after the first hard fork,
  again over the last 17 blocks: \<open>Inl d\<close> is an early return, \<open>Inr\<close> the low product and the time span.
\<close>

definition difficulty_pass :: "u32 \<Rightarrow> nat \<Rightarrow> nat \<Rightarrow> u32 list \<Rightarrow> u64 list \<Rightarrow> (u64 + u64 \<times> u32) result" where
  "difficulty_pass target window cut_n timestamps cds =
     (let len = length timestamps
      in if len \<noteq> length cds \<or> \<not> len \<le> window then Inl AssertFailed
         else if len \<le> 1 then Inr (Inl 1)
         else if \<not> 2 * cut_n \<le> window - 2 then Inl AssertFailed
         else
           let ts = sort timestamps;
               (cut_begin, cut_end) = difficulty_cuts len window cut_n
           in if \<not> (cut_begin + 2 \<le> cut_end \<and> cut_end \<le> len) then Inl AssertFailed
              else
                let span0 = ts ! (cut_end - 1) - ts ! cut_begin;
                    time_span = (if span0 = 0 then 1 else span0);
                    total_work = cds ! (cut_end - 1) - cds ! cut_begin
                in if \<not> 0 < total_work then Inl AssertFailed
                   else
                     let (high, low) = mul128 total_work (ucast target)
                     in if high \<noteq> 0 \<or> (0xFFFFFFFFFFFFFFFF :: u64) - low < ucast (time_span - 1) then Inr (Inl 0)
                        else Inr (Inr (low, time_span)))"

text \<open>Integer division of the code: dividing by zero is undefined.\<close>

definition checked_div :: "u64 \<Rightarrow> u64 \<Rightarrow> u64 result" where
  "checked_div x y = (if y = 0 then Inl Undefined else Inr (x div y))"

definition next_difficulty_v1 :: "currency \<Rightarrow> u32 \<Rightarrow> u32 list \<Rightarrow> u64 list \<Rightarrow> u64 result" where
  "next_difficulty_v1 c height timestamps_o cds_o =
     (let window = unat (difficulty_window c)
      in if \<not> 2 \<le> window then Inl AssertFailed
         else
           let (timestamps, cds) =
                 (if window < length timestamps_o then (resize window timestamps_o, resize window cds_o)
                  else (timestamps_o, cds_o))
           in bindR (difficulty_pass (difficulty_target c) window (difficulty_cut c) timestamps cds) (\<lambda>r.
             case r of
               Inl d \<Rightarrow> Inr d
             | Inr (low, time_span) \<Rightarrow>
                 if hardfork_v1_height c \<le> height then
                   let t = min 17 (length timestamps)
                   in if length cds_o < t then Inl Undefined
                      else bindR (difficulty_pass (difficulty_target c) 17 0
                          (drop (length timestamps_o - t) timestamps_o) (drop (length cds_o - t) cds_o)) (\<lambda>r'.
                        case r' of
                          Inl d \<Rightarrow> Inr d
                        | Inr (low', time_span') \<Rightarrow>
                            bindR (checked_div low' (ucast time_span')) (\<lambda>z. Inr (if z \<le> 100 then 100 else z)))
                 else checked_div (low + ucast time_span - 1) (ucast time_span)))"

text \<open>
  \<open>next_difficulty_v2\<close>: the weighted solve times are small signed integers; the quotient is an unsigned
  64-bit division, by zero when the weighted sum is zero; the correction by ten percent is signed 64-bit
  arithmetic.
\<close>

definition solve_time :: "currency \<Rightarrow> u32 list \<Rightarrow> nat \<Rightarrow> int" where
  "solve_time c ts i =
     max (- uint (block_future_time_limit_v2 c)) (min (uint (ts ! i) - uint (ts ! (i - 1))) (6 * uint (difficulty_target c)))"

definition next_difficulty_v2 :: "currency \<Rightarrow> u32 list \<Rightarrow> u64 list \<Rightarrow> u64 result" where
  "next_difficulty_v2 c timestamps cds =
     (let T = difficulty_target c; N = unat (difficulty_window_v2 c)
      in if length timestamps \<le> N then Inr 1000
         else if length cds \<le> N then Inl Undefined
         else
           let L = sum_list (map (\<lambda>i. solve_time c timestamps i * int i) [1..<N + 1]);
               sum_3_ST = sum_list (map (solve_time c timestamps) (filter (\<lambda>i. int N - 3 < int i) [1..<N + 1]));
               den = (word_of_int (100 * 2 * L) :: u64);
               prev_D = cds ! N - cds ! (N - 1)
           in if den = 0 then Inl Undefined
              else
                let next_D = ((cds ! N - cds ! 0) * ucast T * word_of_nat (N + 1) * 99) div den
                in if sum_3_ST < (8 * uint T) div 10
                   then (let p = sint prev_D * 110
                         in if - (2 ^ 63) \<le> p \<and> p < 2 ^ 63
                            then Inr (word_of_int (if 0 \<le> p then p div 100 else - ((- p) div 100)))
                            else Inl Undefined)
                   else Inr next_D)"

definition next_difficulty :: "currency \<Rightarrow> u32 \<Rightarrow> u32 list \<Rightarrow> u64 list \<Rightarrow> u64 result" where
  "next_difficulty c height timestamps cds =
     (if height \<le> hardfork_v2_height c then next_difficulty_v1 c height timestamps cds
      else next_difficulty_v2 c timestamps cds)"

section \<open>The penalty\<close>

lemma penalty_product_bound:
  assumes "m < (cur :: nat)" and "cur \<le> 2 * m"
  shows "cur * (2 * m - cur) < m * m"
proof -
  obtain d where d: "cur = m + d" "0 < d" "d \<le> m" using assms by (metis add_diff_cancel_left' le_add_diff_inverse less_imp_le
        mult_2 nat_add_left_cancel_le zero_less_diff)
  have "cur * (2 * m - cur) = (m + d) * (m - d)" using d by simp
  also have "\<dots> = m * m - d * d" using d(3) by (simp add: algebra_simps diff_mult_distrib2)
  also have "\<dots> < m * m" using d by (simp add: diff_less)
  finally show ?thesis .
qed

lemma limb_div:
  assumes "n = (unat (h :: u64) * 2 ^ 64 + unat (l :: u64)) * k + (r :: nat)" and "r < k"
  shows "unat h * 2 ^ 64 + unat l = n div k"
  using assms by simp

lemma get_penalized_amount_spec:
  assumes "unat m < 2 ^ 32" and "unat cur < 2 ^ 32" and "unat cur \<le> 2 * unat m"
  shows "\<exists>p. get_penalized_amount amount m cur = Inr p \<and>
    unat p = (if cur \<le> m then unat amount else unat amount * (unat cur * (2 * unat m - unat cur)) div (unat m * unat m)) \<and>
    p \<le> amount"
proof -
  have m2: "unat (2 * m) = 2 * unat m" using assms(1) by (simp add: unat_word_ariths)
  have g: "cur \<le> 2 * m" "m \<le> 0xFFFFFFFF" "cur \<le> 0xFFFFFFFF" using assms m2 by (simp_all add: word_le_nat_alt)
  show ?thesis
  proof (cases "amount = 0 \<or> cur \<le> m")
    case True
    then show ?thesis using g by (auto simp: get_penalized_amount_def)
  next
    case False
    then have a: "amount \<noteq> 0" "0 < unat amount" and c: "unat m < unat cur" by (auto simp: word_le_nat_alt unat_gt_0)
    define X where "X = unat cur * (2 * unat m - unat cur)"
    have X: "X < unat m * unat m" unfolding X_def using c assms(3) by (rule penalty_product_bound)
    have mm: "unat m * unat m < 2 ^ 32 * 2 ^ 32" using assms(1) by (intro mult_strict_mono) auto
    have "unat (2 * m - cur) = 2 * unat m - unat cur" using g(1) m2 by (simp add: unat_sub)
    then have uX: "unat (cur * (2 * m - cur)) = X" using X mm by (simp add: unat_word_ariths X_def)
    have ud: "unat (ucast m :: u32) = unat m" using assms(1) by (intro unat_ucast_less) simp
    then have d: "(ucast m :: u32) \<noteq> 0" using c assms(3) by (metis le_zero_eq mult_0_right not_less_zero unsigned_0)
    obtain ph pl where p: "mul128 amount (cur * (2 * m - cur)) = (ph, pl)" by force
    have p_eq: "unat ph * 2 ^ 64 + unat pl = unat amount * X" using mul128_nat[OF p] by (simp add: uX)
    obtain h1 l1 r1 where 1: "div128_32 ph pl (ucast m) = Inr (h1, l1, r1)" "r1 < ucast m"
        "unat ph * 2 ^ 64 + unat pl = (unat h1 * 2 ^ 64 + unat l1) * unat m + unat r1"
      using div128_32_nat[OF d] by (metis ud)
    obtain h2 l2 r2 where 2: "div128_32 h1 l1 (ucast m) = Inr (h2, l2, r2)" "r2 < ucast m"
        "unat h1 * 2 ^ 64 + unat l1 = (unat h2 * 2 ^ 64 + unat l2) * unat m + unat r2"
      using div128_32_nat[OF d] by (metis ud)
    have q1: "unat h1 * 2 ^ 64 + unat l1 = unat amount * X div unat m"
      using limb_div[OF 1(3)[unfolded p_eq]] 1(2) by (simp add: word_less_nat_alt ud)
    have q2: "unat h2 * 2 ^ 64 + unat l2 = unat amount * X div (unat m * unat m)"
      using limb_div[OF 2(3)[unfolded q1]] 2(2) by (simp add: word_less_nat_alt ud div_mult2_eq)
    have lt: "unat h2 * 2 ^ 64 + unat l2 < unat amount"
      unfolding q2 using X a(2) by (simp add: less_mult_imp_div_less)
    then have z: "unat h2 = 0" using u64_less[of amount] by (cases "unat h2") (auto simp del: u64_less)
    then have "get_penalized_amount amount m cur = Inr l2"
      using g a False p 1(1) 2(1) lt by (simp add: get_penalized_amount_def word_less_nat_alt unsigned_eq_0_iff)
    then show ?thesis using False q2 z lt by (auto simp: X_def word_le_nat_alt)
  qed
qed

section \<open>Decomposition of amounts\<close>

abbreviation amounts_sum :: "u64 list \<Rightarrow> nat" where
  "amounts_sum xs \<equiv> sum_list (map unat xs)"

lemma total_push_dust: "amounts_sum (push_dust d) = unat d"
proof -
  have "d mod 1000 \<le> d" by (simp add: word_le_nat_alt unat_mod_distrib)
  then have "unat (d - d mod 1000) = unat d - unat (d mod 1000)" by (rule unat_sub)
  moreover have "unat (d mod 1000) \<le> unat d" using \<open>d mod 1000 \<le> d\<close> by (simp add: word_le_nat_alt)
  ultimately show ?thesis by (auto simp: push_dust_def Let_def unsigned_eq_0_iff)
qed

text \<open>
  The invariant of the loop: what was pushed, the dust not yet pushed and the digits still to come add
  up to the amount; once dust has been pushed, every later digit is above the threshold.
\<close>

lemma decompose_loop_total:
  assumes "amount \<noteq> 0 \<longrightarrow> unat order = ord"
    and "unat dust + unat amount * ord < 2 ^ 64" and "0 < ord"
    and "handled \<longrightarrow> unat th < unat dust + ord"
  shows "amounts_sum (decompose_loop amount th handled dust order acc) =
    amounts_sum acc + (if handled then 0 else unat dust) + unat amount * ord"
  using assms
proof (induction amount th handled dust order acc arbitrary: ord rule: decompose_loop.induct)
  case (1 amount th handled dust order acc)
  show ?case
  proof (cases "amount = 0")
    case True
    then show ?thesis by (simp add: decompose_loop.simps[of 0] total_push_dust unsigned_eq_0_iff)
  next
    case False
    define d where "d = unat amount mod 10"
    define chunk where "chunk = (amount mod 10) * order"
    have o: "unat order = ord" using 1(3) False by simp
    define q where "q = unat amount div 10"
    have e: "unat amount = d + q * 10" by (simp add: d_def q_def)
    have split: "unat amount * ord = d * ord + q * (ord * 10)" by (simp add: e algebra_simps)
    have "d * ord < 2 ^ 64" using 1(4) split by linarith
    then have ch: "unat chunk = d * ord"
      by (simp add: chunk_def d_def unat_word_ariths o unat_mod_distrib mod_simps)
    have dc: "unat (dust + chunk) = unat dust + d * ord"
      using 1(4) split ch by (simp add: unat_word_ariths)
    have am: "unat (amount div 10) = q" by (simp add: unat_div_distrib q_def)
    have ord': "amount div 10 \<noteq> 0 \<longrightarrow> unat (order * 10) = ord * 10"
    proof
      assume "amount div 10 \<noteq> 0"
      then have "0 < q" using am by (simp add: unat_gt_0[symmetric])
      then have "ord * 10 \<le> q * (ord * 10)" by simp
      then have "ord * 10 < 2 ^ 64" using 1(4) split by linarith
      then show "unat (order * 10) = ord * 10" by (simp add: unat_word_ariths o)
    qed
    have sum': "unat dust + d * ord + unat (amount div 10) * (ord * 10) < 2 ^ 64" using 1(4) by (simp add: split am)
    show ?thesis
    proof (cases "dust + chunk \<le> th")
      case le: True
      have zero: "handled \<longrightarrow> d = 0"
      proof
        assume "handled"
        then have "unat th < unat dust + ord" using 1(6) by blast
        moreover have "unat dust + d * ord \<le> unat th" using le dc unfolding word_le_nat_alt by simp
        ultimately have "d * ord < ord" by linarith
        then show "d = 0" by (cases d) auto
      qed
      have "handled \<longrightarrow> unat th < unat (dust + chunk) + ord * 10" using 1(6) dc by auto
      with 1(1)[OF False chunk_def le ord' _ _ this] have
        "amounts_sum (decompose_loop (amount div 10) th handled (dust + chunk) (order * 10) acc) =
          amounts_sum acc + (if handled then 0 else unat (dust + chunk)) + unat (amount div 10) * (ord * 10)"
        using sum' 1(5) dc by simp
      then show ?thesis
        using False le zero split am dc by (simp add: decompose_loop.simps[of amount] chunk_def[symmetric] Let_def)
    next
      case gt: False
      let ?acc1 = "if \<not> handled \<and> dust \<noteq> 0 then acc @ push_dust dust else acc"
      let ?acc2 = "if chunk \<noteq> 0 then ?acc1 @ [chunk] else ?acc1"
      have "unat th < unat dust + ord * 10"
      proof -
        have "unat th < unat dust + d * ord" using gt dc by (simp add: word_le_nat_alt)
        also have "d * ord \<le> ord * 10" by (simp add: d_def mult.commute)
        finally show ?thesis by simp
      qed
      then have "handled \<or> dust \<noteq> 0 \<longrightarrow> unat th < unat dust + ord * 10" by simp
      moreover have "unat dust + unat (amount div 10) * (ord * 10) < 2 ^ 64" using sum' by simp
      ultimately have
        "amounts_sum (decompose_loop (amount div 10) th (handled \<or> dust \<noteq> 0) dust (order * 10) ?acc2) =
          amounts_sum ?acc2 + (if handled \<or> dust \<noteq> 0 then 0 else unat dust) + unat (amount div 10) * (ord * 10)"
        using 1(2)[OF False chunk_def gt refl ord'] 1(5) by simp
      moreover have "amounts_sum ?acc2 = amounts_sum acc + (if \<not> handled then unat dust else 0) + d * ord"
        using ch by (auto simp: total_push_dust unsigned_eq_0_iff)
      ultimately show ?thesis
        using False gt split am
        by (simp add: decompose_loop.simps[of amount] chunk_def[symmetric] Let_def unsigned_eq_0_iff)
    qed
  qed
qed

lemma decompose_amount_total: "amounts_sum (decompose_amount amount th) = unat amount"
  using decompose_loop_total[of amount 1 1 0 False th "[]"] by (simp add: decompose_amount_def)

lemma foldl_add_sum: "unat (a :: u64) + amounts_sum xs < 2 ^ 64 \<Longrightarrow> unat (foldl (+) a xs) = unat a + amounts_sum xs"
proof (induction xs arbitrary: a)
  case (Cons x xs)
  then have "unat (a + x) = unat a + unat x" by (simp add: unat_word_ariths)
  then show ?case using Cons.IH[of "a + x"] Cons.prems by simp
qed simp

lemma merge_step_sum:
  assumes "2 \<le> length xs" and "amounts_sum xs < 2 ^ 64"
  shows "amounts_sum (butlast (xs[length xs - 2 := xs ! (length xs - 2) + last xs])) = amounts_sum xs"
proof -
  obtain zs b where zs: "xs = zs @ [b]" using assms(1) by (cases xs rule: rev_cases) auto
  then obtain ys a where "zs = ys @ [a]" using assms(1) by (cases zs rule: rev_cases) auto
  then have xs: "xs = ys @ [a, b]" using zs by simp
  have "unat (a + b) = unat a + unat b" using assms(2) by (simp add: xs unat_word_ariths)
  then show ?thesis by (simp add: xs butlast_append list_update_append nth_append)
qed

lemma merge_outs_sum:
  assumes "amounts_sum xs < 2 ^ 64"
  shows "amounts_sum (merge_outs k xs) = amounts_sum xs"
  using assms
proof (induction k xs rule: merge_outs.induct)
  case (1 k xs)
  show ?case
  proof (cases "k < length xs \<and> 2 \<le> length xs")
    case True
    then show ?thesis using 1 merge_step_sum[of xs] by (subst merge_outs.simps) simp
  next
    case False
    then show ?thesis by (subst merge_outs.simps) (simp only: if_False)
  qed
qed

lemma merge_outs_length: "1 \<le> k \<Longrightarrow> length (merge_outs k xs) \<le> k"
proof (induction k xs rule: merge_outs.induct)
  case (1 k xs)
  show ?case
  proof (cases "k < length xs \<and> 2 \<le> length xs")
    case True
    then show ?thesis using 1 by (subst merge_outs.simps) simp
  next
    case False
    then show ?thesis using 1(2) by (subst merge_outs.simps) auto
  qed
qed

lemma miner_amounts:
  "foldl (+) 0 (merge_outs k (decompose_amount reward th)) = reward"
  "amounts_sum (merge_outs k (decompose_amount reward th)) = unat reward"
proof -
  show s: "amounts_sum (merge_outs k (decompose_amount reward th)) = unat reward"
    by (subst merge_outs_sum) (simp_all add: decompose_amount_total)
  have "unat (foldl (+) 0 (merge_outs k (decompose_amount reward th))) = unat reward"
    by (subst foldl_add_sum) (simp_all add: s)
  then show "foldl (+) 0 (merge_outs k (decompose_amount reward th)) = reward" by (simp add: word_unat_eq_iff)
qed

section \<open>Addresses\<close>

interpretation caddress: canonical_codec write_address read_address
  "\<lambda>a. length (spend_public_key a) = 32 \<and> length (view_public_key a) = 32"
  by unfold_locales
    (auto simp: write_address_def read_address_def fixed.dec_enc fixed.dec_iff bindR_eq_Inr_iff)

lemma address_blob: "length (spend_public_key a) = 32 \<Longrightarrow> length (view_public_key a) = 32 \<Longrightarrow>
  from_binary read_address (write_address a) = Inr a"
  using caddress.dec_enc_nil[of a] by (simp add: from_binary_Inr)

lemma encode_addr_decodes: "\<exists>s. encode_addr tag d = Inr s \<and> decode_addr s = Inr (Some (tag, d))"
proof -
  let ?b = "get_varint_data tag @ d"
  let ?d = "?b @ take 4 (cn_fast_hash ?b)"
  obtain s where s: "encode ?d = Inr s" "decode s = Inr (Some ?d)" using decode_encode by blast
  have "get_varint_data tag \<noteq> []"
    by (simp add: get_varint_data_def write_varint.simps[of tag])
  then have "decode_addr s = Inr (Some (tag, d))"
    by (simp add: decode_addr_def s(2) read_varint_get_varint_data Let_def)
  then show ?thesis using s(1) by (auto simp: encode_addr_def Let_def)
qed

section \<open>Difficulty\<close>

lemma difficulty_cuts_ok:
  assumes "2 \<le> len" and "len \<le> window" and "2 * cut_n \<le> window - 2"
  shows "case difficulty_cuts len window cut_n of (b, e) \<Rightarrow> b + 2 \<le> e \<and> e \<le> len"
  using assms by (auto simp: difficulty_cuts_def Let_def)

definition increasing :: "u64 list \<Rightarrow> bool" where
  "increasing cds \<longleftrightarrow> (\<forall>i j. i < j \<longrightarrow> j < length cds \<longrightarrow> cds ! i < cds ! j)"

lemma difficulty_pass_total:
  assumes "length ts = length cds" and "length ts \<le> window" and "2 * cut_n \<le> window - 2" and "increasing cds"
  shows "\<exists>r. difficulty_pass target window cut_n ts cds = Inr r \<and> (case r of Inl d \<Rightarrow> True | Inr (low, span) \<Rightarrow> span \<noteq> 0)"
proof (cases "length ts \<le> 1")
  case True
  then show ?thesis using assms by (simp add: difficulty_pass_def)
next
  case False
  obtain b e where be: "difficulty_cuts (length ts) window cut_n = (b, e)" by force
  have c: "b + 2 \<le> e" "e \<le> length ts"
    using difficulty_cuts_ok[of "length ts" window cut_n] assms False be by auto
  then have "cds ! b < cds ! (e - 1)" using assms(1,4) unfolding increasing_def by auto
  then have "0 < cds ! (e - 1) - cds ! b" by (metis word_gt_0 right_minus_eq less_irrefl)
  then show ?thesis
    using assms False be c
    by (cases "mul128 (cds ! (e - 1) - cds ! b) (ucast target)") (auto simp: difficulty_pass_def Let_def)
qed

lemma resize_take: "n \<le> length xs \<Longrightarrow> resize n xs = take n xs"
  by (simp add: resize_def)

lemma increasing_take: "increasing cds \<Longrightarrow> increasing (take n cds)"
  by (auto simp: increasing_def)

lemma increasing_drop: "increasing cds \<Longrightarrow> increasing (drop n cds)"
  by (auto simp: increasing_def)

definition miner_tx_blank :: transaction where
  "miner_tx_blank = \<lparr>version = 0, unlock_time = 0, inputs = [], outputs = [], extra = [], signatures = []\<rparr>"

section \<open>Properties\<close>

text \<open>
  C16: the block reward is what the emission law and the size penalty prescribe, computed without overflow
  or failed assertion for every block of at most twice the median size: an amount is multiplied by
  \<open>cur * (2 * median - cur) / median ^ 2\<close>, rounded down, and never grows.
\<close>

theorem penalized_amount_exact:
  assumes "unat median < 2 ^ 32" and "unat cur < 2 ^ 32" and "unat cur \<le> 2 * unat median"
  shows "\<exists>p. get_penalized_amount amount median cur = Inr p \<and> p \<le> amount \<and>
    unat p = (if cur \<le> median then unat amount
              else unat amount * (unat cur * (2 * unat median - unat cur)) div (unat median * unat median))"
  using get_penalized_amount_spec[OF assms, of amount] by blast

theorem penalized_amount_exact_witness:
  "\<exists>p. get_penalized_amount 1000 100 150 = Inr p \<and> p \<le> 1000 \<and> unat p = 750"
  using penalized_amount_exact[of 100 150 1000] by (simp add: word_le_nat_alt)

text \<open>
  C17: coins are conserved by a block: reward and emission change differ by exactly the fees (modulo
  \<open>2 ^ 64\<close>), so what miners receive beyond the fees is what the emission counter records, and neither
  is computed when the block is more than twice the median (the assertion fails instead).
\<close>

theorem block_reward_conserves:
  "case get_block_reward c v median cur already fee of
     Inr (reward, emission_change) \<Rightarrow> reward = emission_change + fee \<and> already \<le> money_supply c \<and> cur \<le> 2 * median
   | Inl e \<Rightarrow> e = AssertFailed \<or> e = Undefined"
proof (cases "get_block_reward c v median cur already fee")
  case (Inl e)
  have d: "div128_32 a b k = Inl e \<Longrightarrow> e = Undefined" for a b k e
    using div128_32_nat[of k a b] by (cases "k = 0") (auto simp: div128_32_def div_with_reminder_def)
  have "get_penalized_amount a m b = Inl e \<Longrightarrow> e = AssertFailed \<or> e = Undefined" for a m b e
    using d by (auto simp: get_penalized_amount_def bindR_def split: if_splits prod.splits sum.splits)
  then show ?thesis
    using Inl by (auto simp: get_block_reward_def bindR_def split: if_splits sum.splits)
next
  case (Inr p)
  have "get_penalized_amount a m b = Inr x \<Longrightarrow> b \<le> 2 * m" for a m b x
    by (auto simp: get_penalized_amount_def split: if_splits)
  then show ?thesis
    using Inr by (auto simp: get_block_reward_def bindR_eq_Inr_iff split: if_splits prod.splits)
qed

text \<open>
  C18: the coinbase transaction pays exactly the block reward. Whenever the key derivations succeed,
  \<open>construct_miner_tx\<close> returns a transaction with the single coinbase input, at most the allowed number
  of outputs (one when none is allowed), whose amounts add up to the reward without wrapping around.
\<close>

theorem miner_tx_pays_reward:
  assumes "get_block_reward c v median cur already fee = Inr (reward, emission_change)"
    and "length extra_nonce \<le> 255"
    and "generate (view_public_key addr) (snd txkey) = Some derivation"
    and "\<And>no. \<exists>k. derive derivation no (spend_public_key addr) = Some k"
  shows "\<exists>tx'. construct_miner_tx c txkey generate derive v height median already cur fee addr tx extra_nonce max_outs
        = Inr (Some tx') \<and>
      amounts_sum (map out_amount (outputs tx')) = unat reward \<and>
      length (outputs tx') \<le> max 1 max_outs \<and> inputs tx' = [CoinbaseInput height] \<and>
      unlock_time tx' = ucast (height + mined_money_unlock_window c)"
proof -
  define outs where "outs = merge_outs (if max_outs = 0 then 1 else max_outs) (decompose_amount reward (default_dust_threshold c))"
  define keys where "keys = map (\<lambda>no. case generate (view_public_key addr) (snd txkey) of
      None \<Rightarrow> None | Some derivation \<Rightarrow> derive derivation no (spend_public_key addr)) [0..<length outs]"
  have keys: "\<not> list_ex (\<lambda>k. k = None) keys" "length keys = length outs"
    using assms(3,4) by (auto simp: keys_def list_ex_iff) (metis option.distinct(1))
  have outs: "foldl (+) 0 outs = reward" "amounts_sum outs = unat reward"
    unfolding outs_def by (rule miner_amounts)+
  have len: "length outs \<le> max 1 max_outs"
    unfolding outs_def using merge_outs_length[of "if max_outs = 0 then 1 else max_outs"] by (auto simp: max_def)
  define os where "os = map2 (\<lambda>a k. \<lparr>out_amount = a, out_target = KeyOutput (the k)\<rparr>) outs keys"
  have "map out_amount os = map fst (zip outs keys)" by (simp add: os_def comp_def split_beta)
  also have "\<dots> = outs" using keys(2) by (intro map_fst_zip) simp
  finally have am: "map out_amount os = outs" .
  have os: "length os = length outs" using keys(2) by (simp add: os_def)
  show ?thesis
    using assms(1,2) keys outs len am os
    by (simp add: construct_miner_tx_def add_transaction_public_key_to_extra_def add_extra_nonce_to_transaction_extra_def
        outs_def[symmetric] keys_def[symmetric] os_def[symmetric] Let_def del: map_map)
qed

theorem miner_tx_pays_reward_witness:
  "\<exists>tx'. construct_miner_tx (mk_currency False [] []) ([], []) (\<lambda>_ _. Some []) (\<lambda>_ _ k. Some k) 3 5 100000 0 0 0
      \<lparr>spend_public_key = [], view_public_key = []\<rparr> miner_tx_blank [] 10 = Inr (Some tx') \<and>
    amounts_sum (map out_amount (outputs tx')) = 281474976710655 \<and> length (outputs tx') \<le> 10"
proof -
  let ?c = "mk_currency False [] []"
  have "get_block_reward ?c 3 100000 0 0 0 = Inr (281474976710655, 281474976710655)"
    by code_simp
  from miner_tx_pays_reward[OF this, of "[]" "\<lambda>_ _. Some []" "\<lparr>spend_public_key = [], view_public_key = []\<rparr>" "([], [])"
      "[]" "\<lambda>_ _ k. Some k" 5 miner_tx_blank 10]
  show ?thesis by auto
qed

text \<open>
  C19: an address printed by the currency parses back to the same keys, provided the curve check of the
  crypto library accepts them.
\<close>

theorem account_address_roundtrip:
  assumes "length (spend_public_key a) = 32" and "length (view_public_key a) = 32"
    and "key_isvalid (spend_public_key a)" and "key_isvalid (view_public_key a)"
  shows "\<exists>s. account_address_as_string c a = Inr s \<and> parse_account_address_string c key_isvalid s = Inr (Some a)"
  using encode_addr_decodes[of "public_address_base58_prefix c" "write_address a"] assms address_blob[of a]
  by (auto simp: account_address_as_string_def get_account_address_as_str_def parse_account_address_string_def
      parse_account_address_string_raw_def)

theorem account_address_roundtrip_witness:
  "\<exists>s. account_address_as_string (mk_currency False [] []) \<lparr>spend_public_key = replicate 32 1, view_public_key = replicate 32 2\<rparr> = Inr s \<and>
    parse_account_address_string (mk_currency False [] []) (\<lambda>k. hd k \<noteq> 0) s =
      Inr (Some \<lparr>spend_public_key = replicate 32 1, view_public_key = replicate 32 2\<rparr>)"
  using account_address_roundtrip[of "\<lparr>spend_public_key = replicate 32 1, view_public_key = replicate 32 2\<rparr>" "\<lambda>k. hd k \<noteq> 0"]
  by (simp add: hd_replicate)

text \<open>
  C20: up to the second hard fork the difficulty is always defined: over blocks whose cumulative difficulty
  grows, \<open>next_difficulty\<close> returns a value, for every number of blocks and every order of timestamps. No assertion fails, no
  element out of range is read, and neither quotient has the divisor zero, also when all timestamps of the window are equal. From the
  first hard fork on a value other than the overflow marker 0 and the starting value 1 is at least 100.
\<close>

theorem next_difficulty_v1_total:
  assumes "c = mk_currency testnet g cps" and "height \<le> 7080"
    and "length ts = length cds" and "increasing cds"
  shows "\<exists>d. next_difficulty c height ts cds = Inr d \<and> (7070 \<le> height \<longrightarrow> d = 0 \<or> d = 1 \<or> 100 \<le> d)"
proof -
  have c: "hardfork_v1_height c = 7070" "hardfork_v2_height c = 7080" "difficulty_cut c = 60"
    "2 * 60 \<le> unat (difficulty_window c) - 2"
    by (simp_all add: assms(1) mk_currency_def Let_def unat_div_distrib)
  let ?w = "unat (difficulty_window c)"
  define ts1 cds1 where d: "ts1 = (if ?w < length ts then resize ?w ts else ts)"
    "cds1 = (if ?w < length ts then resize ?w cds else cds)"
  have l1: "length ts1 = length cds1" "length ts1 \<le> ?w" "increasing cds1" "length ts1 \<le> length ts"
    using assms(3,4) by (auto simp: d resize_take increasing_take)
  obtain r where r: "difficulty_pass (difficulty_target c) ?w 60 ts1 cds1 = Inr r" "case r of Inl d \<Rightarrow> True | Inr (low, span) \<Rightarrow> span \<noteq> 0"
    using difficulty_pass_total[OF l1(1,2) c(4) l1(3)] by blast
  define t where "t = min 17 (length ts1)"
  have t: "t \<le> length ts" "t \<le> length cds" "t \<le> 17" using l1(4) assms(3) by (auto simp: t_def)
  obtain r' where r': "difficulty_pass (difficulty_target c) 17 0 (drop (length ts - t) ts) (drop (length cds - t) cds) = Inr r'"
    "case r' of Inl d \<Rightarrow> True | Inr (low, span) \<Rightarrow> span \<noteq> 0"
    using difficulty_pass_total[of "drop (length ts - t) ts" "drop (length cds - t) cds" 17 0 "difficulty_target c"]
      assms(3,4) t increasing_drop by auto
  have nz: "(ucast x :: u64) \<noteq> 0" if "x \<noteq> 0" for x :: u32
  proof -
    have "unat (ucast x :: u64) = unat x" using u32_less[of x] by (intro unat_ucast_less) (simp del: u32_less)
    then show ?thesis using that by (metis unat_eq_zero)
  qed
  have e: "(if ?w < length ts then (resize ?w ts, resize ?w cds) else (ts, cds)) = (ts1, cds1)" by (simp add: d)
  have "next_difficulty_v1 c height ts cds = (case r of Inl d \<Rightarrow> Inr d | Inr (low, span) \<Rightarrow>
      if 7070 \<le> height then (case r' of Inl d \<Rightarrow> Inr d
        | Inr (low', span') \<Rightarrow> bindR (checked_div low' (ucast span')) (\<lambda>z. Inr (if z \<le> 100 then 100 else z)))
      else checked_div (low + ucast span - 1) (ucast span))"
    unfolding next_difficulty_v1_def Let_def e prod.case c using c(4) r(1) r'(1) t
    by (auto simp: t_def[symmetric] not_less split: sum.splits)
  moreover have early: "d = 0 \<or> d = 1" if "difficulty_pass tg w k x y = Inr (Inl d)" for tg w k x y d
    using that by (auto simp: difficulty_pass_def Let_def split: if_splits prod.splits)
  ultimately show ?thesis
    using assms(2) r r' early[of _ _ _ ts1] early[of _ _ _ "drop (length ts - t) ts"]
    by (cases r; cases r') (fastforce simp: next_difficulty_def c checked_div_def nz)+
qed

theorem next_difficulty_v1_total_witness:
  "\<exists>d. next_difficulty (mk_currency False [] []) 7075 [100, 50, 200] [10, 20, 30] = Inr d \<and> (d = 0 \<or> d = 1 \<or> 100 \<le> d)"
  using next_difficulty_v1_total[OF refl, of 7075 "[100, 50, 200]" "[10, 20, 30]" False "[]" "[]"]
  by (simp add: increasing_def less_Suc_eq all_conj_distrib nth_Cons' word_le_nat_alt word_less_nat_alt)

text \<open>After the second hard fork: the weighted and the last solve times, as numbers.\<close>

definition solve_sum :: "currency \<Rightarrow> u32 list \<Rightarrow> int" where
  "solve_sum c ts = (\<Sum>i\<in>{1..60}. solve_time c ts i * int i)"

definition last_solve_sum :: "currency \<Rightarrow> u32 list \<Rightarrow> int" where
  "last_solve_sum c ts = (\<Sum>i\<in>{58..60}. solve_time c ts i)"

definition raise_fits :: "u64 \<Rightarrow> bool" where
  "raise_fits prev_D \<longleftrightarrow> - (2 ^ 63) \<le> sint prev_D * 110 \<and> sint prev_D * 110 < 2 ^ 63"

lemma solve_time_bounds:
  "c = mk_currency testnet g cps \<Longrightarrow> - 180 \<le> solve_time c ts i \<and> solve_time c ts i \<le> 360"
  by (auto simp: solve_time_def mk_currency_def Let_def)

lemma solve_sum_word:
  assumes "c = mk_currency testnet g cps"
  shows "(word_of_int (100 * 2 * solve_sum c ts) :: u64) = 0 \<longleftrightarrow> solve_sum c ts = 0"
proof
  have "\<bar>solve_time c ts i * int i\<bar> \<le> 360 * 60" if "i \<in> {1..60}" for i
    unfolding abs_mult by (rule mult_mono) (use solve_time_bounds[OF assms, of ts i] that in auto)
  then have "(\<Sum>i\<in>{1..60}. \<bar>solve_time c ts i * int i\<bar>) \<le> of_nat (card {1..60::nat}) * (360 * 60)" by (intro sum_bounded_above)
  with sum_abs have "\<bar>solve_sum c ts\<bar> \<le> of_nat (card {1..60::nat}) * (360 * 60)" unfolding solve_sum_def by (rule order_trans)
  then have "\<bar>solve_sum c ts\<bar> \<le> 60 * (360 * 60)" by simp
  then have small: "\<bar>100 * 2 * solve_sum c ts\<bar> < 2 ^ 64" by (simp add: abs_mult)
  assume "(word_of_int (100 * 2 * solve_sum c ts) :: u64) = 0"
  then have "(2 :: int) ^ LENGTH(64) dvd 100 * 2 * solve_sum c ts" by (simp only: word_of_int_eq_0_iff)
  then have "(2 :: int) ^ 64 dvd 100 * 2 * solve_sum c ts" by simp
  then show "solve_sum c ts = 0" using small dvd_imp_le_int[of "100 * 2 * solve_sum c ts" "2 ^ 64"] by fastforce
qed simp

lemma next_difficulty_v2_full:
  assumes "c = mk_currency testnet g cps" and "60 < length ts" and "length ts = length cds"
  shows "(\<exists>d. next_difficulty_v2 c ts cds = Inr d) \<longleftrightarrow> solve_sum c ts \<noteq> 0 \<and>
    (last_solve_sum c ts < (8 * uint (difficulty_target c)) div 10 \<longrightarrow> raise_fits (cds ! 60 - cds ! 59))"
    and "solve_sum c ts = 0 \<Longrightarrow> next_difficulty_v2 c ts cds = Inl Undefined"
proof -
  have N: "unat (difficulty_window_v2 c) = 60" by (simp add: assms(1) mk_currency_def Let_def)
  have L: "sum_list (map (\<lambda>i. solve_time c ts i * int i) [1..<60 + 1]) = solve_sum c ts"
    unfolding solve_sum_def by (simp add: sum_list_distinct_conv_sum_set atLeastLessThanSuc_atLeastAtMost[symmetric] del: upt_rec_numeral)
  have "filter (\<lambda>i. int 60 - 3 < int i) [1..<60 + 1] = [58..<61]" by code_simp
  then have S: "sum_list (map (solve_time c ts) (filter (\<lambda>i. int 60 - 3 < int i) [1..<60 + 1])) = last_solve_sum c ts"
    unfolding last_solve_sum_def by (simp add: sum_list_distinct_conv_sum_set atLeastLessThanSuc_atLeastAtMost[symmetric] del: upt_rec_numeral)
  have len: "\<not> length ts \<le> 60" "\<not> length cds \<le> 60" using assms(2,3) by simp_all
  show "(\<exists>d. next_difficulty_v2 c ts cds = Inr d) \<longleftrightarrow> solve_sum c ts \<noteq> 0 \<and>
    (last_solve_sum c ts < (8 * uint (difficulty_target c)) div 10 \<longrightarrow> raise_fits (cds ! 60 - cds ! 59))"
    unfolding next_difficulty_v2_def Let_def N L S solve_sum_word[OF assms(1)] raise_fits_def using len by (auto split: if_splits)
  show "next_difficulty_v2 c ts cds = Inl Undefined" if "solve_sum c ts = 0"
    unfolding next_difficulty_v2_def Let_def N L S solve_sum_word[OF assms(1)] using len that by simp
qed

lemma solve_time_sorted:
  assumes "c = mk_currency testnet g cps" and "sorted (take 61 ts)" and "60 < length ts" and "i \<in> {1..60}"
  shows "0 \<le> solve_time c ts i" and "solve_time c ts i = 0 \<longleftrightarrow> ts ! (i - 1) = ts ! i"
proof -
  have "take 61 ts ! (i - 1) \<le> take 61 ts ! i" using assms(2-4) by (intro sorted_nth_mono) auto
  moreover have "i < 61" "i - 1 < 61" using assms(4) by auto
  ultimately have "ts ! (i - 1) \<le> ts ! i" by (simp only: nth_take)
  then have m: "uint (ts ! (i - 1)) \<le> uint (ts ! i)" by (simp add: word_le_def)
  have p: "0 < uint (difficulty_target c)" by (simp add: assms(1) mk_currency_def Let_def)
  show "0 \<le> solve_time c ts i" using m p by (simp add: solve_time_def)
  show "solve_time c ts i = 0 \<longleftrightarrow> ts ! (i - 1) = ts ! i"
    using m p uint_0_iff by (auto simp: solve_time_def word_uint_eq_iff)
qed

lemma solve_sum_positive:
  assumes "c = mk_currency testnet g cps" and "sorted (take 61 ts)" and "60 < length ts" and "ts ! 0 \<noteq> ts ! 60"
  shows "solve_sum c ts \<noteq> 0"
proof
  assume z: "solve_sum c ts = 0"
  have "\<forall>i\<in>{1..60}. solve_time c ts i * int i = 0"
    using z unfolding solve_sum_def by (subst (asm) sum_nonneg_eq_0_iff) (use solve_time_sorted(1)[OF assms(1-3)] in auto)
  then have eq: "ts ! (i - 1) = ts ! i" if "i \<in> {1..60}" for i using solve_time_sorted(2)[OF assms(1-3) that] that by auto
  have "k \<le> 60 \<Longrightarrow> ts ! 0 = ts ! k" for k
  proof (induction k)
    case (Suc k)
    then show ?case using eq[of "Suc k"] by simp
  qed simp
  then show False using assms(4) by blast
qed

text \<open>
  C28: after the second hard fork the difficulty is not always defined. Over 61 or more blocks it is defined exactly when the
  weighted sum of the solve times is not zero and, where the last three blocks came fast, the difficulty of the last block times 110 fits
  \<open>int64_t\<close>. So it is defined when the timestamps of the window do not decrease, are not all equal, and the last difficulty is moderate; and for every
  chain in which the 61 timestamps are equal, which the rule that a timestamp be at least the median of its predecessors accepts, the code divides by zero.
\<close>

theorem next_difficulty_v2_defined:
  assumes "c = mk_currency testnet g cps" and "7080 < height" and "length ts = length cds"
  shows "((\<exists>d. next_difficulty c height ts cds = Inr d) \<longleftrightarrow> length ts \<le> 60 \<or> solve_sum c ts \<noteq> 0 \<and>
      (last_solve_sum c ts < (8 * uint (difficulty_target c)) div 10 \<longrightarrow> raise_fits (cds ! 60 - cds ! 59))) \<and>
    (60 < length ts \<longrightarrow> sorted (take 61 ts) \<longrightarrow> ts ! 0 \<noteq> ts ! 60 \<longrightarrow> raise_fits (cds ! 60 - cds ! 59) \<longrightarrow>
      (\<exists>d. next_difficulty c height ts cds = Inr d)) \<and>
    (60 < length ts \<longrightarrow> (\<forall>i \<le> 60. ts ! i = ts ! 0) \<longrightarrow> next_difficulty c height ts cds = Inl Undefined)"
proof -
  have h: "\<not> height \<le> hardfork_v2_height c" using assms(2) by (simp add: assms(1) mk_currency_def Let_def not_le)
  have nd: "next_difficulty c height ts cds = next_difficulty_v2 c ts cds" using h by (simp add: next_difficulty_def)
  have short: "next_difficulty_v2 c ts cds = Inr 1000" if "length ts \<le> 60"
    using that by (simp add: next_difficulty_v2_def assms(1) mk_currency_def Let_def)
  have equal: "solve_sum c ts = 0" if eq: "\<forall>i \<le> 60. ts ! i = ts ! 0"
  proof -
    have "solve_time c ts i = 0" if "i \<in> {1..60}" for i
    proof -
      have "i \<le> 60" "i - 1 \<le> 60" using that by auto
      then have "ts ! i = ts ! 0" "ts ! (i - 1) = ts ! 0" using eq by blast+
      then show ?thesis by (simp add: solve_time_def)
    qed
    then show ?thesis by (simp add: solve_sum_def)
  qed
  show ?thesis
  proof (cases "length ts \<le> 60")
    case True
    then show ?thesis using short nd by simp
  next
    case False
    have long: "60 < length ts" using False by simp
    note full = next_difficulty_v2_full[OF assms(1) long assms(3)]
    have "\<exists>d. next_difficulty_v2 c ts cds = Inr d" if "sorted (take 61 ts)" "ts ! 0 \<noteq> ts ! 60" "raise_fits (cds ! 60 - cds ! 59)"
      unfolding full(1) using solve_sum_positive[OF assms(1) that(1) long that(2)] that(3) by blast
    moreover have "next_difficulty_v2 c ts cds = Inl Undefined" if "\<forall>i \<le> 60. ts ! i = ts ! 0"
      by (rule full(2)[OF equal[OF that]])
    ultimately show ?thesis unfolding nd full(1) using False by blast
  qed
qed

theorem next_difficulty_v2_defined_witness:
  "next_difficulty (mk_currency False [] []) 7081 (replicate 61 1700000000) (replicate 60 5 @ [7]) = Inl Undefined \<and>
   (\<exists>d. next_difficulty (mk_currency False [] []) 7081 (replicate 60 1000 @ [1001]) (replicate 60 5 @ [7]) = Inr d)"
proof -
  let ?eq = "replicate 61 (1700000000 :: u32)" and ?up = "replicate 60 1000 @ [1001 :: u32]" and ?cds = "replicate 60 5 @ [7 :: u64]"
  have h: "(7080 :: u32) < 7081" by (simp add: word_less_nat_alt)
  have at: "?cds ! 60 = 7" "?cds ! 59 = 5" "?up ! 60 = 1001" "?up ! 0 = 1000" by (simp_all only: nth_append length_replicate nth_replicate) simp_all
  have eq: "?eq ! i = ?eq ! 0" if "i \<le> 60" for i using that by (simp only: nth_replicate)
  have len: "length ?eq = length ?cds" "length ?up = length ?cds" "60 < length ?eq" "60 < length ?up" by (simp_all only: length_append length_replicate) simp_all
  have "take 61 ?up = ?up" by (rule take_all) (simp only: length_append length_replicate, simp)
  then have up: "sorted (take 61 ?up)" by (simp only: sorted_append) (auto simp: word_le_nat_alt)
  have fit: "raise_fits (?cds ! 60 - ?cds ! 59)" unfolding at by (simp add: raise_fits_def)
  have ne: "?up ! 0 \<noteq> ?up ! 60" unfolding at by simp
  note thm1 = next_difficulty_v2_defined[OF refl h len(1), of False "[]" "[]", THEN conjunct2, THEN conjunct2]
    and thm2 = next_difficulty_v2_defined[OF refl h len(2), of False "[]" "[]", THEN conjunct2, THEN conjunct1]
  have "next_difficulty (mk_currency False [] []) 7081 ?eq ?cds = Inl Undefined"
    by (rule thm1[THEN mp, THEN mp, OF len(3)]) (use eq in blast)
  moreover have "\<exists>d. next_difficulty (mk_currency False [] []) 7081 ?up ?cds = Inr d"
    by (rule thm2[THEN mp, THEN mp, THEN mp, THEN mp, OF len(4) up ne fit])
  ultimately show ?thesis by (rule conjI)
qed

text \<open>
  With ten decimal places the digits after the cents are grouped as if there were eight: the text of the
  amount 100000 reads as 10000000.
\<close>

lemma format_amount_misgroups:
  "format_amount 10 100000 = Inr (''0.00'' @ [CHR 0x27] @ ''100'')"
  "parse_amount 10 (''0.00'' @ [CHR 0x27] @ ''100'') = Some 10000000"
proof -
  have dp: "DECIMAL_PLACES ! 10 = 10000000000" "DECIMAL_PLACES ! 8 = 100000000" "length DECIMAL_PLACES = 20"
    by (simp_all add: DECIMAL_PLACES_def)
  have ch: "char_of (48 :: nat) = CHR ''0''" "char_of (49 :: nat) = CHR ''1''" by code_simp+
  have n: "nat_to_string 0 = ''0''" "nat_to_string 100 = ''100''"
    by (simp_all add: nat_to_string.simps ch)
  show "format_amount 10 100000 = Inr (''0.00'' @ [CHR 0x27] @ ''100'')"
    by (simp add: format_amount_def decimal_place_def dp format_thousands.simps[of 0] ffw_def n Let_def)
  show "parse_amount 10 (''0.00'' @ [CHR 0x27] @ ''100'') = Some 10000000"
  proof -
    have keep: "erase_zeros 10 t (Suc (Suc (Suc (Suc (Suc 0))))) = (t, 5)" for t by simp
    have pad: "replicate 5 (CHR ''0'') = ''00000''" by (simp add: eval_nat_numeral)
    have val: "digits_value ''00010000000'' = 10000000" "digits_value ''00100'' = 100" "digits_value ''00010000000'' < 2 ^ 64"
      by (simp_all add: digits_value_def)
    have "filter (\<lambda>ch. ch \<noteq> CHR 0x27) (trim (''0.00'' @ [CHR 0x27] @ ''100'')) = ''0.00100''"
      by (simp add: trim_def is_space_def Let_def)
    then show ?thesis
      using keep pad val by (simp add: parse_amount_def is_digit_def Let_def)
  qed
qed

text \<open>Without checkpoints the main network has no last checkpoint to compare with.\<close>

lemma no_checkpoints_undefined: "is_in_sw_checkpoint_zone (mk_currency False g []) index = Inl Undefined"
  by (simp add: is_in_sw_checkpoint_zone_def sw_checkpoint_count_def mk_currency_def Let_def)

end
