(* ===== verification/KVStore.thy ===== *)
theory KVStore
  imports Varint "HOL-Library.RBT" "HOL-Library.List_Lexorder"
begin

text \<open>
  The key-value database: \<open>src/src/platform/DBsqlite3.cpp\<close>. The class keeps one table \<open>kv_table\<close>, whose
  primary key \<open>kk\<close> is a byte string compared byte by byte, and runs prepared SQL statements on it; the
  table is an ordered map and each method is the effect of its statement. (The LMDB class of the other
  build has the same methods.) Transactions are not modelled: a failing operation ends the process.
  The lemmas show that a backward cursor starts at the greatest key with its prefix.
\<close>

section \<open>Definitions\<close>

type_synonym db = "(bytes, bytes) RBT.rbt"

text \<open>\<open>SELECT ... WHERE kk = ?\<close>; a stored value of length zero is returned as a null pointer, which the wrapper
  reports as a missing key.\<close>

definition db_get :: "db \<Rightarrow> bytes \<Rightarrow> bytes option" where
  "db_get d key = (case RBT.lookup d key of None \<Rightarrow> None | Some v \<Rightarrow> if v = [] then None else Some v)"

text \<open>\<open>INSERT\<close> fails on an existing key, \<open>REPLACE\<close> overwrites.\<close>

definition db_put :: "db \<Rightarrow> bytes \<Rightarrow> bytes \<Rightarrow> bool \<Rightarrow> db result" where
  "db_put d key v nooverwrite =
     (if nooverwrite \<and> RBT.lookup d key \<noteq> None then Inl DatabaseError else Inr (RBT.insert key v d))"

definition db_del :: "db \<Rightarrow> bytes \<Rightarrow> bool \<Rightarrow> db result" where
  "db_del d key mustexist =
     (if mustexist \<and> RBT.lookup d key = None then Inl DatabaseError else Inr (RBT.delete key d))"

text \<open>
  A cursor is the list of the rows it still has to visit, as suffix and value: the rows of the statement
  from the start key on, up to the first one without the prefix.
\<close>

type_synonym cursor = "(bytes \<times> bytes) list"

definition max_key_size :: nat where "max_key_size = 128"

definition step_and_check :: "bytes \<Rightarrow> (bytes \<times> bytes) list \<Rightarrow> cursor" where
  "step_and_check pre rows = map (\<lambda>(k, v). (drop (length pre) k, v)) (takeWhile (\<lambda>(k, v). take (length pre) k = pre) rows)"

definition db_begin :: "db \<Rightarrow> bytes \<Rightarrow> bytes \<Rightarrow> cursor" where
  "db_begin d pre middle = step_and_check pre (filter (\<lambda>(k, v). pre @ middle \<le> k) (RBT.entries d))"

definition cursor_finish :: "bytes \<Rightarrow> bytes" where
  "cursor_finish start = start @ replicate (max_key_size - length start) 0xff"

definition db_rbegin :: "db \<Rightarrow> bytes \<Rightarrow> bytes \<Rightarrow> cursor" where
  "db_rbegin d pre middle =
     step_and_check pre (rev (filter (\<lambda>(k, v). k \<le> cursor_finish (pre @ middle)) (RBT.entries d)))"

definition cursor_next :: "cursor \<Rightarrow> cursor" where
  "cursor_next cur = tl cur"

definition cursor_erase :: "db \<Rightarrow> bytes \<Rightarrow> cursor \<Rightarrow> (db \<times> cursor) result" where
  "cursor_erase d pre cur =
     (case cur of
        [] \<Rightarrow> Inr (d, [])
      | (suffix, _) # rest \<Rightarrow> bindR (db_del d (pre @ suffix) True) (\<lambda>d'. Inr (d', rest)))"

section \<open>Reading and writing\<close>

lemma db_get_put:
  "db_put d key v nooverwrite = Inr d' \<Longrightarrow> v \<noteq> [] \<Longrightarrow> db_get d' k = (if k = key then Some v else db_get d k)"
  by (auto simp: db_put_def db_get_def split: if_splits)

lemma db_get_del:
  "db_del d key mustexist = Inr d' \<Longrightarrow> db_get d' k = (if k = key then None else db_get d k)"
  by (auto simp: db_del_def db_get_def split: if_splits)

lemma lookup_put: "db_put d key v nooverwrite = Inr d' \<Longrightarrow> RBT.lookup d' = (RBT.lookup d)(key \<mapsto> v)"
  by (auto simp: db_put_def split: if_splits)

lemma lookup_del: "db_del d key mustexist = Inr d' \<Longrightarrow> RBT.lookup d' = (RBT.lookup d)(key := None)"
  by (auto simp: db_del_def split: if_splits)

lemma db_put_new: "RBT.lookup d key = None \<Longrightarrow> \<exists>d'. db_put d key v True = Inr d'"
  by (simp add: db_put_def)

section \<open>Cursors\<close>

definition keys_with :: "db \<Rightarrow> bytes \<Rightarrow> bytes set" where
  "keys_with d pre = {s. RBT.lookup d (pre @ s) \<noteq> None}"

definition short_keys :: "db \<Rightarrow> bool" where
  "short_keys d \<longleftrightarrow> (\<forall>k. RBT.lookup d k \<noteq> None \<longrightarrow> length k \<le> max_key_size)"

lemma key_less_list: "key_less xs ys = (xs < ys)"
  by (induction xs ys rule: key_less.induct) auto

lemma le_replicate_ff: "length s \<le> n \<Longrightarrow> s \<le> replicate n (0xff :: byte)"
proof (induction s arbitrary: n)
  case (Cons b s)
  obtain m where m: "n = Suc m" using Cons.prems by (cases n) auto
  have "b \<le> 0xff" using unat_byte_less[of b] by (simp add: word_le_nat_alt less_Suc_eq_le[symmetric] del: unat_byte_less)
  then show ?case using Cons m by (auto simp: order_le_less)
qed simp

lemma append_le_same: "(xs @ ys \<le> xs @ zs) = (ys \<le> (zs :: bytes))"
  by (induction xs) auto

lemma prefix_between:
  assumes "pre @ s \<le> k" and "k \<le> pre @ (t :: bytes)"
  shows "take (length pre) k = pre"
  using assms
proof (induction pre arbitrary: k)
  case (Cons a pre)
  then obtain b k' where k: "k = b # k'" by (cases k) auto
  then show ?case using Cons by (force simp: order_le_less)
qed simp

lemma step_and_check_Nil_iff: "step_and_check pre rows = [] \<longleftrightarrow> rows = [] \<or> take (length pre) (fst (hd rows)) \<noteq> pre"
  by (cases rows) (auto simp: step_and_check_def)

lemma hd_step_and_check:
  "step_and_check pre rows \<noteq> [] \<Longrightarrow> rows \<noteq> [] \<and> pre @ fst (hd (step_and_check pre rows)) = fst (hd rows) \<and>
     snd (hd (step_and_check pre rows)) = snd (hd rows)"
  by (cases rows) (auto simp: step_and_check_def split: if_splits, metis append_take_drop_id)

lemma sorted_last_max: "sorted (map fst l) \<Longrightarrow> r \<in> set l \<Longrightarrow> fst r \<le> (fst (last l) :: bytes)"
  by (induction l rule: rev_induct) (auto simp: sorted_append)

lemma hd_rev_filter_max:
  assumes "sorted (map fst rows)" and "rev (filter P rows) \<noteq> []" and "r \<in> set rows" and "P r"
  shows "fst r \<le> fst (hd (rev (filter P rows)) :: bytes \<times> 'v) \<and> hd (rev (filter P rows)) \<in> set rows \<and> P (hd (rev (filter P rows)))"
proof -
  let ?l = "filter P rows"
  have l: "?l \<noteq> []" and h: "hd (rev ?l) = last ?l" using assms(2) by (auto simp: hd_rev)
  have "sorted (map fst ?l)" using assms(1) by (rule sorted_filter)
  moreover have "r \<in> set ?l" using assms(3,4) by simp
  ultimately have "fst r \<le> fst (last ?l)" by (rule sorted_last_max)
  moreover have "last ?l \<in> set ?l" using l by (rule last_in_set)
  ultimately show ?thesis by (auto simp: h)
qed

lemma db_rbegin_last:
  assumes "short_keys d"
  shows "case db_rbegin d pre [] of
      [] \<Rightarrow> keys_with d pre = {}
    | (s, v) # _ \<Rightarrow> RBT.lookup d (pre @ s) = Some v \<and> (\<forall>s' \<in> keys_with d pre. s' \<le> s)"
proof -
  let ?f = "cursor_finish pre"
  let ?rows = "rev (filter (\<lambda>(k, v). k \<le> ?f) (RBT.entries d))"
  have le: "pre @ s \<le> ?f" if "s \<in> keys_with d pre" for s
  proof -
    have "length (pre @ s) \<le> max_key_size" using that assms unfolding keys_with_def short_keys_def by blast
    then have "s \<le> replicate (max_key_size - length pre) 0xff" by (intro le_replicate_ff) simp
    then show ?thesis by (simp add: cursor_finish_def append_le_same)
  qed
  have top: "?rows \<noteq> [] \<and> pre @ s \<le> fst (hd ?rows) \<and> fst (hd ?rows) \<le> ?f" if s: "s \<in> keys_with d pre" for s
  proof -
    obtain v where "(pre @ s, v) \<in> set (RBT.entries d)" using s by (auto simp: keys_with_def RBT.lookup_in_tree)
    moreover from this have "?rows \<noteq> []" using le[OF s] by (auto simp: filter_empty_conv)
    ultimately show ?thesis
      using hd_rev_filter_max[OF RBT.sorted_entries, of "\<lambda>(k, v). k \<le> ?f" d "(pre @ s, v)"] le[OF s] by auto
  qed
  have rb: "db_rbegin d pre [] = step_and_check pre ?rows" by (simp add: db_rbegin_def)
  show ?thesis
  proof (cases "db_rbegin d pre []")
    case Nil
    have "s \<notin> keys_with d pre" for s
    proof
      assume s: "s \<in> keys_with d pre"
      then have "take (length pre) (fst (hd ?rows)) = pre"
        using top[OF s] prefix_between[of pre s] by (auto simp: cursor_finish_def)
      then show False using Nil top[OF s] by (simp add: rb step_and_check_Nil_iff)
    qed
    then show ?thesis using Nil by auto
  next
    case (Cons r rest)
    obtain s v where r: "r = (s, v)" by force
    have h: "?rows \<noteq> []" "pre @ s = fst (hd ?rows)" "v = snd (hd ?rows)"
      using hd_step_and_check[of pre ?rows] Cons r by (auto simp: rb)
    have "hd ?rows \<in> set (RBT.entries d)" using hd_in_set[OF h(1)] by auto
    then have "RBT.lookup d (pre @ s) = Some v" using h(2,3) by (simp add: RBT.lookup_in_tree)
    moreover have "\<forall>s' \<in> keys_with d pre. s' \<le> s"
      using top by (auto simp: append_le_same simp flip: h(2))
    ultimately show ?thesis using Cons r by simp
  qed
qed

end
