(* ===== verification/MemPool.thy ===== *)
theory MemPool
  imports Currency KVStore
begin

text \<open>
  The memory pool of \<open>src/src/Core/BlockChainState.cpp\<close>: the transactions waiting for a block
  (\<open>m_memory_state_tx\<close>), the index of their key images (\<open>m_memory_state_ki_tx\<close>), the index by fee per byte
  (\<open>m_memory_state_fee_tx\<close>) and their total size. Modelled are \<open>remove_from_pool\<close>,
  \<open>minimum_pool_fee_per_byte\<close> and the part of \<open>add_transaction\<close> that changes the pool: displacing
  conflicting transactions, inserting, and evicting the cheapest ones when the pool is full. The
  abstract pool is the map of transactions alone; the invariant says that the indexes follow from it, and
  the lemmas that every operation keeps it and fails no \<open>invariant\<close> of the code. A set of hashes is a sorted list.
\<close>

section \<open>Definitions\<close>

record pool_transaction =
  pool_tx :: transaction
  binary_tx :: bytes
  pool_fee :: u64
  pool_timestamp :: u32

definition fee_per_byte :: "pool_transaction \<Rightarrow> u64" where
  "fee_per_byte t = pool_fee t div word_of_nat (length (binary_tx t))"

record mem_pool =
  memory_state_tx :: "(bytes, pool_transaction) RBT.rbt"
  memory_state_ki_tx :: "(bytes, bytes) RBT.rbt"
  memory_state_fee_tx :: "(u64, bytes list) RBT.rbt"
  memory_state_total_size :: nat

definition empty_pool :: mem_pool where
  "empty_pool = \<lparr>memory_state_tx = RBT.empty, memory_state_ki_tx = RBT.empty, memory_state_fee_tx = RBT.empty,
     memory_state_total_size = 0\<rparr>"

definition MAX_POOL_SIZE :: nat where "MAX_POOL_SIZE = 2000000"

text \<open>The least fee per byte and the transaction to go first; with an empty pool, zero and the null hash.\<close>

definition minimum_pool_fee_per_byte :: "mem_pool \<Rightarrow> (u64 \<times> bytes) result" where
  "minimum_pool_fee_per_byte p =
     (case RBT.entries (memory_state_fee_tx p) of
        [] \<Rightarrow> Inr (0, replicate 32 0)
      | (f, tids) # _ \<Rightarrow>
          if tids = [] then Inl (InvariantViolated ''Invariant dead, memory_state_fee_tx empty set'')
          else Inr (f, hd tids))"

text \<open>The size of the cheapest transaction, computed for the log with a checked access.\<close>

definition pool_min_size :: "mem_pool \<Rightarrow> nat result" where
  "pool_min_size p =
     (case RBT.entries (memory_state_fee_tx p) of
        [] \<Rightarrow> Inr 0
      | (f, tids) # _ \<Rightarrow>
          if tids = [] then Inr 0
          else (case RBT.lookup (memory_state_tx p) (hd tids) of
                  None \<Rightarrow> Inl OutOfRange
                | Some t \<Rightarrow> Inr (length (binary_tx t))))"

definition erase_key_image :: "(bytes, bytes) RBT.rbt \<times> bool \<Rightarrow> transaction_input \<Rightarrow> (bytes, bytes) RBT.rbt \<times> bool" where
  "erase_key_image s inp =
     (case inp of
        KeyInput _ _ ki \<Rightarrow> (RBT.delete ki (fst s), snd s \<and> RBT.lookup (fst s) ki \<noteq> None)
      | CoinbaseInput _ \<Rightarrow> s)"

definition remove_from_pool :: "mem_pool \<Rightarrow> bytes \<Rightarrow> mem_pool result" where
  "remove_from_pool p tid =
     (case RBT.lookup (memory_state_tx p) tid of
        None \<Rightarrow> Inr p
      | Some t \<Rightarrow>
          let (ki_tx, all_erased) = foldl erase_key_image (memory_state_ki_tx p, True) (inputs (pool_tx t));
              tids = (case RBT.lookup (memory_state_fee_tx p) (fee_per_byte t) of None \<Rightarrow> [] | Some tids \<Rightarrow> tids);
              tids' = remove1 tid tids;
              p' = \<lparr>memory_state_tx = RBT.delete tid (memory_state_tx p),
                    memory_state_ki_tx = ki_tx,
                    memory_state_fee_tx = (if tids' = [] then RBT.delete (fee_per_byte t) (memory_state_fee_tx p)
                                           else RBT.insert (fee_per_byte t) tids' (memory_state_fee_tx p)),
                    memory_state_total_size = memory_state_total_size p - length (binary_tx t)\<rparr>
          in if \<not> all_erased \<or> tid \<notin> set tids
             then Inl (InvariantViolated ''remove_memory_pool failed to erase everything'')
             else bindR (pool_min_size p') (\<lambda>_. Inr p'))"

subsection \<open>The part of \<open>add_transaction\<close> that changes the pool\<close>

text \<open>May a transaction take the place of the one in the pool that has one of its key images?\<close>

definition cannot_displace :: "mem_pool \<Rightarrow> bytes \<Rightarrow> u64 \<Rightarrow> bytes \<Rightarrow> bool result" where
  "cannot_displace p tid my_fee_per_byte other =
     (case RBT.lookup (memory_state_tx p) other of
        None \<Rightarrow> Inl OutOfRange
      | Some other_tx \<Rightarrow>
          Inr (my_fee_per_byte < fee_per_byte other_tx \<or> my_fee_per_byte = fee_per_byte other_tx \<and> tid < other))"

text \<open>\<open>False\<close> is the early return \<open>INCREASE_FEE\<close>.\<close>

fun displace_loop :: "bytes \<Rightarrow> u64 \<Rightarrow> mem_pool \<Rightarrow> bytes list \<Rightarrow> (bool \<times> mem_pool) result" where
  "displace_loop tid fpb p [] = Inr (True, p)"
| "displace_loop tid fpb p (ki # kis) =
     (case RBT.lookup (memory_state_ki_tx p) ki of
        None \<Rightarrow> displace_loop tid fpb p kis
      | Some other \<Rightarrow>
          bindR (cannot_displace p tid fpb other) (\<lambda>b.
            if b then Inr (False, p)
            else bindR (remove_from_pool p other) (\<lambda>p'. displace_loop tid fpb p' kis)))"

definition insert_key_image :: "bytes \<Rightarrow> (bytes, bytes) RBT.rbt \<times> bool \<Rightarrow> bytes \<Rightarrow> (bytes, bytes) RBT.rbt \<times> bool" where
  "insert_key_image tid s ki =
     (if RBT.lookup (fst s) ki = None then (RBT.insert ki tid (fst s), snd s) else (fst s, False))"

definition pool_insert :: "mem_pool \<Rightarrow> bytes \<Rightarrow> pool_transaction \<Rightarrow> bytes list \<Rightarrow> mem_pool result" where
  "pool_insert p tid t kis =
     (let (ki_tx, ok) = foldl (insert_key_image tid) (memory_state_ki_tx p, True) kis;
          ok_tx = (RBT.lookup (memory_state_tx p) tid = None);
          tids = (case RBT.lookup (memory_state_fee_tx p) (fee_per_byte t) of None \<Rightarrow> [] | Some tids \<Rightarrow> tids)
      in if \<not> ok \<or> \<not> ok_tx \<or> tid \<in> set tids then Inl (InvariantViolated ''memory_state_fee_tx empty'')
         else Inr \<lparr>memory_state_tx = RBT.insert tid t (memory_state_tx p),
                   memory_state_ki_tx = ki_tx,
                   memory_state_fee_tx = RBT.insert (fee_per_byte t) (insort tid tids) (memory_state_fee_tx p),
                   memory_state_total_size = memory_state_total_size p + length (binary_tx t)\<rparr>)"

text \<open>The removals of the loop below are of transactions that are in the pool, so it ends.\<close>

lemma remove_from_pool_tx:
  "remove_from_pool p tid = Inr p' \<Longrightarrow> RBT.lookup (memory_state_tx p') = (RBT.lookup (memory_state_tx p))(tid := None)"
  by (auto simp: remove_from_pool_def Let_def bindR_eq_Inr_iff split: option.splits prod.splits if_splits)

lemma remove_from_pool_less:
  assumes "remove_from_pool p tid = Inr p'" and "RBT.lookup (memory_state_tx p) tid = Some t"
  shows "card (dom (RBT.lookup (memory_state_tx p'))) < card (dom (RBT.lookup (memory_state_tx p)))"
  using remove_from_pool_tx[OF assms(1)] assms(2)
  by (metis RBT.finite_dom_lookup card_Diff1_less domI dom_fun_upd)

function evict_loop :: "mem_pool \<Rightarrow> mem_pool result" where
  "evict_loop p =
     (if MAX_POOL_SIZE < memory_state_total_size p then
        (case RBT.entries (memory_state_fee_tx p) of
           [] \<Rightarrow> Inl (InvariantViolated ''memory_state_fee_tx empty'')
         | (f, tids) # _ \<Rightarrow>
             if tids = [] then Inl (InvariantViolated ''memory_state_fee_tx empty set'')
             else (case RBT.lookup (memory_state_tx p) (hd tids) of
                     None \<Rightarrow> Inl OutOfRange
                   | Some minimal_tx \<Rightarrow>
                       if memory_state_total_size p < MAX_POOL_SIZE + length (binary_tx minimal_tx) then Inr p
                       else bindR (remove_from_pool p (hd tids)) evict_loop))
      else Inr p)"
  by pat_completeness auto
termination
  by (relation "measure (\<lambda>p. card (dom (RBT.lookup (memory_state_tx p))))") (auto intro: remove_from_pool_less)

declare evict_loop.simps [simp del]

definition pool_add :: "mem_pool \<Rightarrow> bytes \<Rightarrow> pool_transaction \<Rightarrow> bytes list \<Rightarrow> (bool \<times> mem_pool) result" where
  "pool_add p tid t kis =
     bindR (displace_loop tid (fee_per_byte t) p kis) (\<lambda>(go, p1).
       if \<not> go then Inr (False, p1)
       else bindR (pool_insert p1 tid t kis) (\<lambda>p2.
            bindR (evict_loop p2) (\<lambda>p3.
            bindR (pool_min_size p3) (\<lambda>_. Inr (True, p3)))))"

section \<open>The invariant\<close>

definition key_images :: "('z) transaction_prefix_scheme \<Rightarrow> bytes list" where
  "key_images tx = concat (map (\<lambda>i. case i of KeyInput _ _ ki \<Rightarrow> [ki] | CoinbaseInput _ \<Rightarrow> []) (inputs tx))"

abbreviation pool_map :: "mem_pool \<Rightarrow> bytes \<rightharpoonup> pool_transaction" where
  "pool_map p \<equiv> RBT.lookup (memory_state_tx p)"

definition pool_bytes :: "(bytes \<rightharpoonup> pool_transaction) \<Rightarrow> nat" where
  "pool_bytes T = (\<Sum>tid\<in>dom T. length (binary_tx (the (T tid))))"

definition ki_index_ok :: "mem_pool \<Rightarrow> bool" where
  "ki_index_ok p \<longleftrightarrow> (\<forall>ki tid. RBT.lookup (memory_state_ki_tx p) ki = Some tid \<longleftrightarrow>
     (\<exists>t. pool_map p tid = Some t \<and> ki \<in> set (key_images (pool_tx t))))"

definition fee_index_ok :: "mem_pool \<Rightarrow> bool" where
  "fee_index_ok p \<longleftrightarrow>
     (\<forall>f tids. RBT.lookup (memory_state_fee_tx p) f = Some tids \<longrightarrow> tids \<noteq> [] \<and> sorted tids \<and> distinct tids) \<and>
     (\<forall>f tid. (\<exists>tids. RBT.lookup (memory_state_fee_tx p) f = Some tids \<and> tid \<in> set tids) \<longleftrightarrow>
        (\<exists>t. pool_map p tid = Some t \<and> fee_per_byte t = f))"

definition pool_ok :: "mem_pool \<Rightarrow> bool" where
  "pool_ok p \<longleftrightarrow> ki_index_ok p \<and> fee_index_ok p \<and>
     (\<forall>tid t. pool_map p tid = Some t \<longrightarrow> distinct (key_images (pool_tx t)) \<and> binary_tx t \<noteq> []) \<and>
     memory_state_total_size p = pool_bytes (pool_map p)"

lemma pool_bytes_remove:
  assumes "finite (dom T)" and "T tid = Some t"
  shows "pool_bytes T = length (binary_tx t) + pool_bytes (T(tid := None))"
proof -
  have "pool_bytes (T(tid := None)) = (\<Sum>i\<in>dom T - {tid}. length (binary_tx (the (T i))))"
    unfolding pool_bytes_def by (rule sum.cong) auto
  then show ?thesis using assms by (simp add: pool_bytes_def sum.remove[of _ tid] domI)
qed

lemma pool_bytes_insert:
  assumes "finite (dom T)" and "T tid = None"
  shows "pool_bytes (T(tid \<mapsto> t)) = pool_bytes T + length (binary_tx t)"
proof -
  have "(T(tid \<mapsto> t))(tid := None) = T" using assms(2) by auto
  then show ?thesis using pool_bytes_remove[of "T(tid \<mapsto> t)" tid t] assms(1) by simp
qed

lemma erase_key_images:
  "foldl erase_key_image (m, ok) ins = (m', ok') \<Longrightarrow> kis = concat (map (\<lambda>i. case i of KeyInput _ _ ki \<Rightarrow> [ki] | CoinbaseInput _ \<Rightarrow> []) ins) \<Longrightarrow>
     RBT.lookup m' = (\<lambda>k. if k \<in> set kis then None else RBT.lookup m k) \<and>
     (ok' \<longleftrightarrow> ok \<and> distinct kis \<and> set kis \<subseteq> dom (RBT.lookup m))"
proof (induction ins arbitrary: m ok kis)
  case (Cons i ins)
  show ?case
  proof (cases i)
    case (KeyInput a os ki)
    define ks where "ks = concat (map (\<lambda>i. case i of KeyInput _ _ ki \<Rightarrow> [ki] | CoinbaseInput _ \<Rightarrow> []) ins)"
    have "foldl erase_key_image (RBT.delete ki m, ok \<and> RBT.lookup m ki \<noteq> None) ins = (m', ok')"
      using Cons.prems(1) KeyInput by (simp add: erase_key_image_def[of _ "KeyInput a os ki"])
    from Cons.IH[OF this ks_def]
    have l: "RBT.lookup m' = (\<lambda>k. if k \<in> set ks then None else ((RBT.lookup m)(ki := None)) k)"
      and o: "ok' \<longleftrightarrow> (ok \<and> RBT.lookup m ki \<noteq> None) \<and> distinct ks \<and> set ks \<subseteq> dom (RBT.lookup m) - {ki}"
      unfolding RBT.lookup_delete dom_fun_upd by auto
    have kis: "kis = ki # ks" using Cons.prems(2) KeyInput by (simp add: ks_def)
    show ?thesis unfolding kis l o by (auto simp: fun_eq_iff)
  next
    case (CoinbaseInput b)
    then show ?thesis using Cons by (simp add: erase_key_image_def[of _ "CoinbaseInput b"])
  qed
qed auto

lemma insert_key_images:
  "foldl (insert_key_image tid) (m, ok) kis = (m', ok') \<Longrightarrow> distinct kis \<Longrightarrow> set kis \<inter> dom (RBT.lookup m) = {} \<Longrightarrow>
     RBT.lookup m' = (\<lambda>k. if k \<in> set kis then Some tid else RBT.lookup m k) \<and> ok' = ok"
proof (induction kis arbitrary: m)
  case (Cons ki kis)
  then have "foldl (insert_key_image tid) (RBT.insert ki tid m, ok) kis = (m', ok')"
    by (auto simp: insert_key_image_def[of _ _ ki] split: if_splits)
  moreover have "distinct kis" "set kis \<inter> dom (RBT.lookup (RBT.insert ki tid m)) = {}"
    using Cons.prems(2,3) unfolding RBT.lookup_insert dom_fun_upd by auto
  ultimately have "RBT.lookup m' = (\<lambda>k. if k \<in> set kis then Some tid else RBT.lookup (RBT.insert ki tid m) k) \<and> ok' = ok"
    by (rule Cons.IH)
  then show ?case by (auto simp: fun_eq_iff)
qed auto

text \<open>With a consistent fee index the first transaction of the index is in the pool.\<close>

lemma fee_index_first:
  assumes "fee_index_ok p" and "RBT.entries (memory_state_fee_tx p) = (f, tids) # rest"
  shows "tids \<noteq> []" and "\<exists>t. pool_map p (hd tids) = Some t \<and> fee_per_byte t = f"
proof -
  have l: "RBT.lookup (memory_state_fee_tx p) f = Some tids" using assms(2) by (simp add: RBT.lookup_in_tree)
  then show n: "tids \<noteq> []" using assms(1) by (auto simp: fee_index_ok_def)
  have "hd tids \<in> set tids" using n by simp
  then show "\<exists>t. pool_map p (hd tids) = Some t \<and> fee_per_byte t = f"
    using assms(1) l unfolding fee_index_ok_def by blast
qed

lemma pool_min_size_ok: "fee_index_ok p \<Longrightarrow> \<exists>n. pool_min_size p = Inr n"
  using fee_index_first[of p] by (fastforce simp: pool_min_size_def split: list.splits option.splits)

section \<open>Operations keep the invariant\<close>

lemma ki_index_remove:
  assumes "ki_index_ok p" and "pool_map p tid = Some t" and "kis = key_images (pool_tx t)"
    and "RBT.lookup (memory_state_ki_tx p') = (\<lambda>k. if k \<in> set kis then None else RBT.lookup (memory_state_ki_tx p) k)"
    and "pool_map p' = (pool_map p)(tid := None)"
  shows "ki_index_ok p'"
proof -
  have K: "RBT.lookup (memory_state_ki_tx p) ki = Some i \<longleftrightarrow> (\<exists>t. pool_map p i = Some t \<and> ki \<in> set (key_images (pool_tx t)))"
    for ki i using assms(1) by (simp add: ki_index_ok_def)
  have own: "RBT.lookup (memory_state_ki_tx p) ki = Some tid" if "ki \<in> set kis" for ki using that assms(2,3) K by auto
  have "RBT.lookup (memory_state_ki_tx p') ki = Some i \<longleftrightarrow> (\<exists>t. pool_map p' i = Some t \<and> ki \<in> set (key_images (pool_tx t)))" for ki i
  proof (cases "ki \<in> set kis")
    case True
    then have "i = tid" if "pool_map p i = Some u" "ki \<in> set (key_images (pool_tx u))" for u
      using that own K[of ki i] by auto
    then show ?thesis using True by (auto simp: assms(4,5))
  next
    case False
    then show ?thesis using K[of ki i] assms(2,3) by (auto simp: assms(4,5))
  qed
  then show ?thesis by (simp add: ki_index_ok_def)
qed

lemma fee_index_remove:
  assumes ok: "fee_index_ok p" and t: "pool_map p tid = Some t" and f: "f = fee_per_byte t"
    and tids: "RBT.lookup (memory_state_fee_tx p) f = Some tids" "tids' = remove1 tid tids"
    and F': "RBT.lookup (memory_state_fee_tx p') = (RBT.lookup (memory_state_fee_tx p))(f := if tids' = [] then None else Some tids')"
    and T': "pool_map p' = (pool_map p)(tid := None)"
  shows "fee_index_ok p'"
proof -
  have d: "distinct tids" "sorted tids" using ok tids(1) by (auto simp: fee_index_ok_def)
  have s: "set tids' = set tids - {tid}" using d tids(2) by simp
  have F: "(\<exists>tids. RBT.lookup (memory_state_fee_tx p) g = Some tids \<and> i \<in> set tids) \<longleftrightarrow> (\<exists>t. pool_map p i = Some t \<and> fee_per_byte t = g)"
    for g i using ok by (simp add: fee_index_ok_def)
  have "(\<exists>x. RBT.lookup (memory_state_fee_tx p') g = Some x \<and> i \<in> set x) \<longleftrightarrow> (\<exists>t. pool_map p' i = Some t \<and> fee_per_byte t = g)"
    for g i
  proof (cases "g = f")
    case True
    have "(\<exists>x. RBT.lookup (memory_state_fee_tx p') g = Some x \<and> i \<in> set x) \<longleftrightarrow> i \<in> set tids'"
      using True by (auto simp: F')
    also have "\<dots> \<longleftrightarrow> i \<noteq> tid \<and> (\<exists>t. pool_map p i = Some t \<and> fee_per_byte t = g)"
      using F[of g i] tids(1) True by (auto simp: s)
    finally show ?thesis by (auto simp: T')
  next
    case False
    then have "tid \<noteq> i" if "pool_map p i = Some t'" "fee_per_byte t' = g" for t' using that t f by auto
    then show ?thesis using False F[of g i] by (auto simp: F' T')
  qed
  moreover have "tids' \<noteq> [] \<Longrightarrow> sorted tids' \<and> distinct tids'" using d by (simp add: tids(2) sorted_remove1)
  ultimately show ?thesis using ok by (auto simp: fee_index_ok_def F' split: if_splits)
qed

lemma remove_from_pool_ok:
  assumes "pool_ok p"
  shows "\<exists>p'. remove_from_pool p tid = Inr p' \<and> pool_ok p'"
proof (cases "pool_map p tid")
  case None
  then show ?thesis using assms by (simp add: remove_from_pool_def)
next
  case (Some t)
  let ?kis = "key_images (pool_tx t)"
  have ok: "ki_index_ok p" "fee_index_ok p" "distinct ?kis" "memory_state_total_size p = pool_bytes (pool_map p)"
    using assms Some by (auto simp: pool_ok_def)
  obtain m' ok' where fold: "foldl erase_key_image (memory_state_ki_tx p, True) (inputs (pool_tx t)) = (m', ok')" by force
  have "set ?kis \<subseteq> dom (RBT.lookup (memory_state_ki_tx p))"
    using ok(1) Some unfolding ki_index_ok_def by blast
  then have m': "RBT.lookup m' = (\<lambda>k. if k \<in> set ?kis then None else RBT.lookup (memory_state_ki_tx p) k)" and ok': ok'
    using erase_key_images[OF fold] ok(3) by (auto simp: key_images_def)
  obtain tids where tids: "RBT.lookup (memory_state_fee_tx p) (fee_per_byte t) = Some tids" "tid \<in> set tids"
    using ok(2) Some unfolding fee_index_ok_def by blast
  define tids' where "tids' = remove1 tid tids"
  define p' where "p' = \<lparr>memory_state_tx = RBT.delete tid (memory_state_tx p), memory_state_ki_tx = m',
      memory_state_fee_tx = (if tids' = [] then RBT.delete (fee_per_byte t) (memory_state_fee_tx p)
                             else RBT.insert (fee_per_byte t) tids' (memory_state_fee_tx p)),
      memory_state_total_size = memory_state_total_size p - length (binary_tx t)\<rparr>"
  have T': "pool_map p' = (pool_map p)(tid := None)" by (simp add: p'_def)
  have k: "ki_index_ok p'" by (rule ki_index_remove[OF ok(1) Some refl _ T']) (simp add: p'_def m')
  have f: "fee_index_ok p'" by (rule fee_index_remove[OF ok(2) Some refl tids(1) tids'_def _ T']) (simp add: p'_def)
  have "memory_state_total_size p' = pool_bytes (pool_map p')"
    using pool_bytes_remove[OF RBT.finite_dom_lookup Some] ok(4) unfolding T' by (simp add: p'_def)
  then have "pool_ok p'" using k f assms by (auto simp: pool_ok_def T' split: if_splits)
  moreover have "remove_from_pool p tid = Inr p'"
    using pool_min_size_ok[OF f] Some fold ok' tids unfolding p'_def tids'_def
    by (elim exE) (simp add: remove_from_pool_def Let_def)
  ultimately show ?thesis by blast
qed

lemma ki_index_submap:
  assumes "ki_index_ok p" and "ki_index_ok p'" and "pool_map p' \<subseteq>\<^sub>m pool_map p"
  shows "RBT.lookup (memory_state_ki_tx p') \<subseteq>\<^sub>m RBT.lookup (memory_state_ki_tx p)"
  unfolding map_le_def
proof
  fix ki assume "ki \<in> dom (RBT.lookup (memory_state_ki_tx p'))"
  then obtain i where i: "RBT.lookup (memory_state_ki_tx p') ki = Some i" by blast
  then obtain t where t: "pool_map p' i = Some t" "ki \<in> set (key_images (pool_tx t))"
    using assms(2) unfolding ki_index_ok_def by blast
  then have "pool_map p i = Some t" using assms(3) by (metis domI map_le_def)
  then have "RBT.lookup (memory_state_ki_tx p) ki = Some i" using t(2) assms(1) unfolding ki_index_ok_def by blast
  then show "RBT.lookup (memory_state_ki_tx p') ki = RBT.lookup (memory_state_ki_tx p) ki" using i by simp
qed

lemma ki_free_submap:
  assumes "pool_ok p" and "pool_ok p'" and "pool_map p' \<subseteq>\<^sub>m pool_map p" and "RBT.lookup (memory_state_ki_tx p) ki = None"
  shows "RBT.lookup (memory_state_ki_tx p') ki = None"
proof -
  have "RBT.lookup (memory_state_ki_tx p') \<subseteq>\<^sub>m RBT.lookup (memory_state_ki_tx p)"
    using assms(1-3) by (intro ki_index_submap) (simp_all add: pool_ok_def)
  from map_le_implies_dom_le[OF this] show ?thesis using assms(4) by blast
qed

lemma ki_free_removed:
  assumes "pool_ok p" and "RBT.lookup (memory_state_ki_tx p) ki = Some other"
    and "remove_from_pool p other = Inr p1" and "pool_ok p1"
  shows "RBT.lookup (memory_state_ki_tx p1) ki = None"
proof (rule ccontr)
  have T1: "pool_map p1 = (pool_map p)(other := None)" using remove_from_pool_tx[OF assms(3)] .
  have k: "ki_index_ok p" "ki_index_ok p1" using assms(1,4) by (simp_all add: pool_ok_def)
  assume "RBT.lookup (memory_state_ki_tx p1) ki \<noteq> None"
  then obtain i where i: "RBT.lookup (memory_state_ki_tx p1) ki = Some i" by blast
  then obtain t where t: "pool_map p1 i = Some t" "ki \<in> set (key_images (pool_tx t))" using k(2) unfolding ki_index_ok_def by blast
  then have "pool_map p i = Some t" "i \<noteq> other" by (auto simp: T1 split: if_splits)
  then have "RBT.lookup (memory_state_ki_tx p) ki = Some i" using t(2) k(1) unfolding ki_index_ok_def by blast
  then show False using assms(2) \<open>i \<noteq> other\<close> by simp
qed

text \<open>Displacing removes only transactions with one of the key images that pay no more per byte.\<close>

lemma displace_loop_ok:
  assumes "pool_ok p"
  shows "\<exists>go p'. displace_loop tid fpb p kis = Inr (go, p') \<and> pool_ok p' \<and> pool_map p' \<subseteq>\<^sub>m pool_map p \<and>
    (go \<longrightarrow> (\<forall>ki \<in> set kis. RBT.lookup (memory_state_ki_tx p') ki = None)) \<and>
    (\<forall>i t. pool_map p i = Some t \<longrightarrow> pool_map p' i = None \<longrightarrow> fee_per_byte t \<le> fpb \<and> set (key_images (pool_tx t)) \<inter> set kis \<noteq> {})"
  using assms
proof (induction kis arbitrary: p)
  case (Cons ki kis)
  have kx: "ki_index_ok p" using Cons.prems by (simp add: pool_ok_def)
  show ?case
  proof (cases "RBT.lookup (memory_state_ki_tx p) ki")
    case None
    obtain go p' where p': "displace_loop tid fpb p kis = Inr (go, p')" "pool_ok p'" "pool_map p' \<subseteq>\<^sub>m pool_map p"
      "go \<longrightarrow> (\<forall>ki \<in> set kis. RBT.lookup (memory_state_ki_tx p') ki = None)"
      "\<forall>i t. pool_map p i = Some t \<longrightarrow> pool_map p' i = None \<longrightarrow> fee_per_byte t \<le> fpb \<and> set (key_images (pool_tx t)) \<inter> set kis \<noteq> {}"
      using Cons.IH[OF Cons.prems] by blast
    have "RBT.lookup (memory_state_ki_tx p') ki = None" using Cons.prems p'(2,3) None by (rule ki_free_submap)
    moreover have "displace_loop tid fpb p (ki # kis) = Inr (go, p')" using None p'(1) by simp
    ultimately show ?thesis using p'(2-5) by (intro exI[of _ go] exI[of _ p']) auto
  next
    case (Some other)
    obtain u where u: "pool_map p other = Some u" "ki \<in> set (key_images (pool_tx u))"
      using Some kx unfolding ki_index_ok_def by blast
    show ?thesis
    proof (cases "fpb < fee_per_byte u \<or> fpb = fee_per_byte u \<and> tid < other")
      case True
      then show ?thesis using Some u Cons.prems by (auto simp: cannot_displace_def)
    next
      case False
      obtain p1 where p1: "remove_from_pool p other = Inr p1" "pool_ok p1"
        using remove_from_pool_ok[OF Cons.prems] by blast
      have T1: "pool_map p1 = (pool_map p)(other := None)" using remove_from_pool_tx[OF p1(1)] .
      then have le1: "pool_map p1 \<subseteq>\<^sub>m pool_map p" by (auto simp: map_le_def)
      obtain go p' where p': "displace_loop tid fpb p1 kis = Inr (go, p')" "pool_ok p'" "pool_map p' \<subseteq>\<^sub>m pool_map p1"
        "go \<longrightarrow> (\<forall>ki \<in> set kis. RBT.lookup (memory_state_ki_tx p') ki = None)"
        "\<forall>i t. pool_map p1 i = Some t \<longrightarrow> pool_map p' i = None \<longrightarrow> fee_per_byte t \<le> fpb \<and> set (key_images (pool_tx t)) \<inter> set kis \<noteq> {}"
        using Cons.IH[OF p1(2)] by blast
      have "RBT.lookup (memory_state_ki_tx p1) ki = None" using Cons.prems Some p1 by (rule ki_free_removed)
      from ki_free_submap[OF p1(2) p'(2,3) this]
      have "RBT.lookup (memory_state_ki_tx p') ki = None" .
      moreover have "fee_per_byte t \<le> fpb \<and> set (key_images (pool_tx t)) \<inter> set (ki # kis) \<noteq> {}"
        if "pool_map p i = Some t" "pool_map p' i = None" for i t
      proof (cases "i = other")
        case True
        then show ?thesis using that(1) u False by auto
      next
        case False
        then have "pool_map p1 i = Some t" using that(1) by (simp add: T1)
        then show ?thesis using p'(5) that(2) by fastforce
      qed
      moreover have "pool_map p' \<subseteq>\<^sub>m pool_map p" using p'(3) le1 by (rule map_le_trans)
      moreover have "displace_loop tid fpb p (ki # kis) = Inr (go, p')"
        using Some u(1) False p1(1) p'(1) by (auto simp: cannot_displace_def)
      ultimately show ?thesis using p'(2,4) by (intro exI[of _ go] exI[of _ p']) auto
    qed
  qed
qed auto

lemma map_le_Some: "m \<subseteq>\<^sub>m m' \<Longrightarrow> m x = Some y \<Longrightarrow> m' x = Some y"
  unfolding map_le_def by (drule bspec[of _ _ x]) auto

lemma map_le_None: "m \<subseteq>\<^sub>m m' \<Longrightarrow> m' x = None \<Longrightarrow> m x = None"
  by (cases "m x") (auto dest: map_le_Some)

text \<open>Whom a transaction may take the place of: the fee per byte decides, and the ids between equals.\<close>

definition outbids :: "bytes \<Rightarrow> u64 \<Rightarrow> bytes \<Rightarrow> pool_transaction \<Rightarrow> bool" where
  "outbids tid fpb i u \<longleftrightarrow> fee_per_byte u < fpb \<or> fee_per_byte u = fpb \<and> i \<le> tid"

definition conflicting :: "pool_transaction \<Rightarrow> pool_transaction \<Rightarrow> bool" where
  "conflicting t u \<longleftrightarrow> set (key_images (pool_tx t)) \<inter> set (key_images (pool_tx u)) \<noteq> {}"

lemma cannot_displace_eq:
  "pool_map p i = Some u \<Longrightarrow> cannot_displace p tid fpb i = Inr (\<not> outbids tid fpb i u)"
  by (auto simp: cannot_displace_def outbids_def)

lemma displace_loop_outbids:
  assumes "pool_ok p" and "displace_loop tid fpb p kis = Inr (go, p')"
  shows "(\<forall>i u. pool_map p i = Some u \<longrightarrow> pool_map p' i = None \<longrightarrow> outbids tid fpb i u) \<and>
    (\<not> go \<longrightarrow> (\<exists>i u. pool_map p' i = Some u \<and> set (key_images (pool_tx u)) \<inter> set kis \<noteq> {} \<and> \<not> outbids tid fpb i u))"
  using assms
proof (induction kis arbitrary: p)
  case (Cons ki kis)
  show ?case
  proof (cases "RBT.lookup (memory_state_ki_tx p) ki")
    case None
    then show ?thesis using Cons.IH[OF Cons.prems(1)] Cons.prems(2) by fastforce
  next
    case (Some other)
    obtain u where u: "pool_map p other = Some u" "ki \<in> set (key_images (pool_tx u))"
      using Some Cons.prems(1) unfolding pool_ok_def ki_index_ok_def by blast
    show ?thesis
    proof (cases "outbids tid fpb other u")
      case False
      then have "\<not> go" "p' = p" using Cons.prems(2) Some u(1) by (auto simp: cannot_displace_eq)
      then show ?thesis using False u by fastforce
    next
      case True
      obtain p1 where p1: "remove_from_pool p other = Inr p1" "pool_ok p1" "displace_loop tid fpb p1 kis = Inr (go, p')"
        using Cons.prems(2) Some u(1) True remove_from_pool_ok[OF Cons.prems(1), of other]
        by (auto simp: cannot_displace_eq)
      have T1: "pool_map p1 = (pool_map p)(other := None)" using remove_from_pool_tx[OF p1(1)] .
      note IH = Cons.IH[OF p1(2,3)]
      have "outbids tid fpb i v" if v: "pool_map p i = Some v" "pool_map p' i = None" for i v
      proof (cases "i = other")
        case True
        then show ?thesis using v(1) u(1) \<open>outbids tid fpb other u\<close> by simp
      next
        case False
        then show ?thesis using IH v by (simp add: T1)
      qed
      then show ?thesis using IH by fastforce
    qed
  qed
qed simp

lemma fee_index_insert:
  assumes ok: "fee_index_ok p" and t: "pool_map p tid = None" and f: "f = fee_per_byte t"
    and tids: "tids = (case RBT.lookup (memory_state_fee_tx p) f of None \<Rightarrow> [] | Some x \<Rightarrow> x)"
    and F': "RBT.lookup (memory_state_fee_tx p') = (RBT.lookup (memory_state_fee_tx p))(f \<mapsto> insort tid tids)"
    and T': "pool_map p' = (pool_map p)(tid \<mapsto> t)"
  shows "fee_index_ok p' \<and> tid \<notin> set tids"
proof -
  have F: "(\<exists>x. RBT.lookup (memory_state_fee_tx p) g = Some x \<and> i \<in> set x) \<longleftrightarrow> (\<exists>t. pool_map p i = Some t \<and> fee_per_byte t = g)"
    for g i using ok by (simp add: fee_index_ok_def)
  have in_tids: "i \<in> set tids \<longleftrightarrow> (\<exists>t. pool_map p i = Some t \<and> fee_per_byte t = f)" for i
    using F[of f i] by (auto simp: tids split: option.splits)
  have d: "distinct tids \<and> sorted tids" using ok by (auto simp: fee_index_ok_def tids split: option.splits)
  have new: "tid \<notin> set tids" using in_tids t by simp
  have "(\<exists>x. RBT.lookup (memory_state_fee_tx p') g = Some x \<and> i \<in> set x) \<longleftrightarrow> (\<exists>t. pool_map p' i = Some t \<and> fee_per_byte t = g)"
    for g i using in_tids[of i] F[of g i] t by (auto simp: F' T' set_insort_key f)
  moreover have "insort tid tids \<noteq> []" by (cases tids) auto
  moreover have "sorted (insort tid tids)" "distinct (insort tid tids)" using d new by (simp_all add: sorted_insort distinct_insort)
  ultimately show ?thesis using ok new by (auto simp: fee_index_ok_def F' split: if_splits)
qed

lemma pool_insert_ok:
  assumes ok: "pool_ok p" and new: "pool_map p tid = None" and "binary_tx t \<noteq> []"
    and kis: "distinct kis" "set kis = set (key_images (pool_tx t))" "distinct (key_images (pool_tx t))"
    and free: "\<forall>ki \<in> set kis. RBT.lookup (memory_state_ki_tx p) ki = None"
  shows "\<exists>p'. pool_insert p tid t kis = Inr p' \<and> pool_ok p' \<and> pool_map p' = (pool_map p)(tid \<mapsto> t)"
proof -
  obtain m' ok' where fold: "foldl (insert_key_image tid) (memory_state_ki_tx p, True) kis = (m', ok')" by force
  have "set kis \<inter> dom (RBT.lookup (memory_state_ki_tx p)) = {}" using free by auto
  from insert_key_images[OF fold kis(1) this]
  have m': "RBT.lookup m' = (\<lambda>k. if k \<in> set kis then Some tid else RBT.lookup (memory_state_ki_tx p) k)" and ok': "ok' = True"
    by simp_all
  define tids where "tids = (case RBT.lookup (memory_state_fee_tx p) (fee_per_byte t) of None \<Rightarrow> [] | Some x \<Rightarrow> x)"
  define p' where "p' = \<lparr>memory_state_tx = RBT.insert tid t (memory_state_tx p), memory_state_ki_tx = m',
      memory_state_fee_tx = RBT.insert (fee_per_byte t) (insort tid tids) (memory_state_fee_tx p),
      memory_state_total_size = memory_state_total_size p + length (binary_tx t)\<rparr>"
  have T': "pool_map p' = (pool_map p)(tid \<mapsto> t)" by (simp add: p'_def)
  have parts: "ki_index_ok p" "fee_index_ok p" "memory_state_total_size p = pool_bytes (pool_map p)"
    using ok by (auto simp: pool_ok_def)
  have f: "fee_index_ok p'" "tid \<notin> set tids"
    using fee_index_insert[OF parts(2) new refl tids_def _ T'] by (auto simp: p'_def)
  have K: "RBT.lookup (memory_state_ki_tx p) ki = Some i \<longleftrightarrow> (\<exists>t. pool_map p i = Some t \<and> ki \<in> set (key_images (pool_tx t)))"
    for ki i using parts(1) by (simp add: ki_index_ok_def)
  have "RBT.lookup (memory_state_ki_tx p') ki = Some i \<longleftrightarrow> (\<exists>t. pool_map p' i = Some t \<and> ki \<in> set (key_images (pool_tx t)))" for ki i
  proof (cases "ki \<in> set kis")
    case True
    then have "\<not> (\<exists>u. pool_map p i = Some u \<and> ki \<in> set (key_images (pool_tx u)))" using K[of ki i] free by auto
    then show ?thesis using True kis(2) by (auto simp: p'_def m')
  next
    case False
    then show ?thesis using K[of ki i] kis(2) new by (auto simp: p'_def m')
  qed
  then have "ki_index_ok p'" by (simp add: ki_index_ok_def)
  moreover have "memory_state_total_size p' = pool_bytes (pool_map p')"
    unfolding T' using pool_bytes_insert[OF RBT.finite_dom_lookup new] parts(3) by (simp add: p'_def)
  ultimately have "pool_ok p'" using f(1) ok assms(3) kis(3) by (auto simp: pool_ok_def T' split: if_splits)
  moreover have "pool_insert p tid t kis = Inr p'"
    using fold ok' new f(2) unfolding p'_def tids_def by (simp add: pool_insert_def Let_def)
  ultimately show ?thesis using T' by blast
qed

text \<open>Eviction removes transactions in the order of their fee per byte.\<close>

lemma fee_index_min:
  assumes "fee_index_ok p" and "RBT.entries (memory_state_fee_tx p) = (f, tids) # rest" and "pool_map p i = Some t"
  shows "f \<le> fee_per_byte t"
proof -
  obtain x where "RBT.lookup (memory_state_fee_tx p) (fee_per_byte t) = Some x"
    using assms(1,3) unfolding fee_index_ok_def by blast
  then have "(fee_per_byte t, x) \<in> set ((f, tids) # rest)" using assms(2) by (metis RBT.lookup_in_tree)
  moreover have "sorted (map fst ((f, tids) # rest))" using RBT.sorted_entries[of "memory_state_fee_tx p"] assms(2) by simp
  ultimately show ?thesis by force
qed

definition evicts_cheapest :: "mem_pool \<Rightarrow> mem_pool \<Rightarrow> bool" where
  "evicts_cheapest p p' \<longleftrightarrow> pool_map p' \<subseteq>\<^sub>m pool_map p \<and>
     (\<forall>i t j u. pool_map p i = Some t \<longrightarrow> pool_map p' i = None \<longrightarrow> pool_map p' j = Some u \<longrightarrow> fee_per_byte t \<le> fee_per_byte u)"

definition within_limit :: "mem_pool \<Rightarrow> bool" where
  "within_limit p \<longleftrightarrow> memory_state_total_size p \<le> MAX_POOL_SIZE \<or>
     (\<exists>i t. pool_map p i = Some t \<and> memory_state_total_size p < MAX_POOL_SIZE + length (binary_tx t))"

lemma evict_loop_ok:
  assumes "pool_ok p"
  shows "\<exists>p'. evict_loop p = Inr p' \<and> pool_ok p' \<and> evicts_cheapest p p' \<and> within_limit p'"
  using assms
proof (induction p rule: evict_loop.induct)
  case (1 p)
  have f: "fee_index_ok p" and sz: "memory_state_total_size p = pool_bytes (pool_map p)" using 1(2) by (simp_all add: pool_ok_def)
  have same: "evicts_cheapest p p" by (simp add: evicts_cheapest_def)
  show ?case
  proof (cases "MAX_POOL_SIZE < memory_state_total_size p")
    case False
    then show ?thesis using 1(2) same by (auto simp: evict_loop.simps[of p] within_limit_def)
  next
    case big: True
    show ?thesis
    proof (cases "RBT.entries (memory_state_fee_tx p)")
      case Nil
      then have "pool_map p i = None" for i
        using f RBT.lookup_in_tree[of "memory_state_fee_tx p"] unfolding fee_index_ok_def
        by (metis empty_iff empty_set not_None_eq)
      then have "dom (pool_map p) = {}" unfolding dom_def by simp
      then have "memory_state_total_size p = 0" using sz by (simp add: pool_bytes_def)
      then show ?thesis using big by simp
    next
      case (Cons ft rest)
      obtain g tids where ft: "ft = (g, tids)" by force
      have e: "RBT.entries (memory_state_fee_tx p) = (g, tids) # rest" using Cons ft by simp
      obtain t where t: "pool_map p (hd tids) = Some t" "fee_per_byte t = g" and ne: "tids \<noteq> []"
        using fee_index_first[OF f e] by blast
      show ?thesis
      proof (cases "memory_state_total_size p < MAX_POOL_SIZE + length (binary_tx t)")
        case True
        then show ?thesis using 1(2) same big e t(1) ne by (auto simp: evict_loop.simps[of p] within_limit_def)
      next
        case False
        obtain p1 where p1: "remove_from_pool p (hd tids) = Inr p1" "pool_ok p1" using remove_from_pool_ok[OF 1(2)] by blast
        have T1: "pool_map p1 = (pool_map p)(hd tids := None)" using remove_from_pool_tx[OF p1(1)] .
        obtain p' where p': "evict_loop p1 = Inr p'" "pool_ok p'" "evicts_cheapest p1 p'" "within_limit p'"
          using 1(1)[OF big e refl ne t(1) False p1] by blast
        have le: "pool_map p' \<subseteq>\<^sub>m pool_map p"
          using p'(3) by (auto simp: evicts_cheapest_def T1 map_le_def domIff fun_upd_def split: if_splits)
        have "fee_per_byte v \<le> fee_per_byte u"
          if v: "pool_map p i = Some v" "pool_map p' i = None" and u: "pool_map p' j = Some u" for i v j u
        proof (cases "i = hd tids")
          case True
          have "pool_map p j = Some u" using le u by (metis domI map_le_def)
          then show ?thesis using fee_index_min[OF f e] v(1) t True by auto
        next
          case False
          then have "pool_map p1 i = Some v" using v(1) by (simp add: T1)
          then show ?thesis using p'(3) v(2) u unfolding evicts_cheapest_def by blast
        qed
        then have "evicts_cheapest p p'" using le unfolding evicts_cheapest_def by blast
        moreover have "evict_loop p = Inr p'" using big e t(1) ne False p1(1) p'(1) by (simp add: evict_loop.simps[of p])
        ultimately show ?thesis using p'(2,4) by blast
      qed
    qed
  qed
qed

section \<open>Properties\<close>

lemma pool_ok_empty: "pool_ok empty_pool"
  by (simp add: pool_ok_def empty_pool_def ki_index_ok_def fee_index_ok_def pool_bytes_def)

lemma pool_add_ok:
  assumes ok: "pool_ok p" and new: "pool_map p tid = None" and "binary_tx t \<noteq> []"
    and kis: "distinct kis" "set kis = set (key_images (pool_tx t))" "distinct (key_images (pool_tx t))"
  shows "\<exists>go p'. pool_add p tid t kis = Inr (go, p') \<and> pool_ok p' \<and> (go \<longrightarrow> within_limit p') \<and>
    pool_map p' \<subseteq>\<^sub>m (pool_map p)(tid \<mapsto> t)"
proof -
  obtain go p1 where p1: "displace_loop tid (fee_per_byte t) p kis = Inr (go, p1)" "pool_ok p1" "pool_map p1 \<subseteq>\<^sub>m pool_map p"
    "go \<Longrightarrow> \<forall>ki \<in> set kis. RBT.lookup (memory_state_ki_tx p1) ki = None"
    using displace_loop_ok[OF ok] by meson
  have free: "pool_map p1 tid = None" using p1(3) new by (rule map_le_None)
  have le1: "pool_map p1 \<subseteq>\<^sub>m (pool_map p)(tid \<mapsto> t)"
    using p1(3) free by (auto simp: map_le_def)
  show ?thesis
  proof (cases go)
    case False
    then show ?thesis using p1(1,2) le1 by (auto simp: pool_add_def)
  next
    case True
    obtain p2 where p2: "pool_insert p1 tid t kis = Inr p2" "pool_ok p2" "pool_map p2 = (pool_map p1)(tid \<mapsto> t)"
      using pool_insert_ok[OF p1(2) free assms(3) kis p1(4)[OF True]] by blast
    obtain p3 where p3: "evict_loop p2 = Inr p3" "pool_ok p3" "evicts_cheapest p2 p3" "within_limit p3"
      using evict_loop_ok[OF p2(2)] by blast
    obtain n where "pool_min_size p3 = Inr n" using pool_min_size_ok[of p3] p3(2) by (auto simp: pool_ok_def)
    then have "pool_add p tid t kis = Inr (True, p3)" using True p1(1) p2(1) p3(1) by (simp add: pool_add_def)
    moreover have "pool_map p3 \<subseteq>\<^sub>m (pool_map p)(tid \<mapsto> t)"
      using p3(3) map_le_upd[OF p1(3), of tid "Some t"] map_le_trans unfolding evicts_cheapest_def p2(3) by blast
    ultimately show ?thesis using p3(2,4) by blast
  qed
qed

definition sample_pool_transaction :: pool_transaction where
  "sample_pool_transaction = \<lparr>pool_tx = sample_transaction, binary_tx = [1], pool_fee = 5, pool_timestamp = 0\<rparr>"

definition sample_pool :: mem_pool where
  "sample_pool = projr (pool_insert empty_pool [7] sample_pool_transaction (key_images sample_transaction))"

lemma sample_pool_ok: "pool_ok sample_pool \<and> pool_map sample_pool = [[7] \<mapsto> sample_pool_transaction]"
  using pool_insert_ok[OF pool_ok_empty, of "[7]" sample_pool_transaction "key_images sample_transaction"]
  by (auto simp: sample_pool_def empty_pool_def key_images_def sample_pool_transaction_def sample_transaction_def)

text \<open>The pool after a transaction was offered: who had to go, and at what price.\<close>

definition displaced :: "mem_pool \<Rightarrow> bytes \<Rightarrow> pool_transaction \<Rightarrow> mem_pool \<Rightarrow> bool" where
  "displaced p tid t p' \<longleftrightarrow> (\<forall>i u. pool_map p i = Some u \<longrightarrow> pool_map p' i = None \<longrightarrow>
     conflicting t u \<and> outbids tid (fee_per_byte t) i u)"

definition goes_cheapest :: "mem_pool \<Rightarrow> bytes \<Rightarrow> pool_transaction \<Rightarrow> mem_pool \<Rightarrow> bool" where
  "goes_cheapest p tid t p' \<longleftrightarrow> (\<forall>i u. ((pool_map p)(tid \<mapsto> t)) i = Some u \<longrightarrow> pool_map p' i = None \<longrightarrow>
     conflicting t u \<and> i \<noteq> tid \<and> outbids tid (fee_per_byte t) i u \<or> (\<forall>j v. pool_map p' j = Some v \<longrightarrow> fee_per_byte u \<le> fee_per_byte v))"

definition no_conflict_left :: "bytes \<Rightarrow> pool_transaction \<Rightarrow> mem_pool \<Rightarrow> bool" where
  "no_conflict_left tid t p' \<longleftrightarrow> (\<forall>i u. pool_map p' i = Some u \<longrightarrow> i \<noteq> tid \<longrightarrow> \<not> conflicting t u)"

text \<open>
  C13: what offering a transaction does to the pool, from any consistent pool and with any fees. It never fails, keeps the pool
  consistent and adds nothing else. When every transaction of the pool that shares a key image with the new one is outbid (less per byte, or as much and no larger id), the new one
  enters and all of these leave; then, until the total exceeds the limit by less than one transaction, transactions are evicted, the
  new one not excepted, and each evicted one pays no more per byte than any that stays. Otherwise the new one is refused, and the
  transactions that are missing afterwards shared a key image with it and were outbid: they are lost although nothing takes their place.
\<close>

theorem pool_prefers_fees:
  assumes "pool_ok p" and "pool_map p tid = None" and "binary_tx t \<noteq> []"
    and "distinct kis" "set kis = set (key_images (pool_tx t))" "distinct (key_images (pool_tx t))"
  shows "\<exists>go p'. pool_add p tid t kis = Inr (go, p') \<and> pool_ok p' \<and> pool_map p' \<subseteq>\<^sub>m (pool_map p)(tid \<mapsto> t) \<and>
    (go \<longleftrightarrow> (\<forall>i u. pool_map p i = Some u \<longrightarrow> conflicting t u \<longrightarrow> outbids tid (fee_per_byte t) i u)) \<and>
    (if go then within_limit p' \<and> no_conflict_left tid t p' \<and> goes_cheapest p tid t p'
     else pool_map p' tid = None \<and> displaced p tid t p')"
proof -
  let ?f = "fee_per_byte t"
  obtain go p1 where p1: "displace_loop tid ?f p kis = Inr (go, p1)" "pool_ok p1" "pool_map p1 \<subseteq>\<^sub>m pool_map p"
    "go \<Longrightarrow> \<forall>ki \<in> set kis. RBT.lookup (memory_state_ki_tx p1) ki = None"
    "\<And>i u. pool_map p i = Some u \<Longrightarrow> pool_map p1 i = None \<Longrightarrow> set (key_images (pool_tx u)) \<inter> set kis \<noteq> {}"
    using displace_loop_ok[OF assms(1)] by meson
  note out = displace_loop_outbids[OF assms(1) p1(1)]
  have gone: "displaced p tid t p1" using out p1(5) assms(5) unfolding displaced_def conflicting_def by blast
  have new: "pool_map p1 tid = None" using p1(3) assms(2) by (rule map_le_None)
  have sub: "pool_map p i = Some u" if "pool_map p1 i = Some u" for i u using p1(3) that by (rule map_le_Some)
  show ?thesis
  proof (cases go)
    case False
    then have "\<not> (\<forall>i u. pool_map p i = Some u \<longrightarrow> conflicting t u \<longrightarrow> outbids tid ?f i u)"
      using out sub assms(5) unfolding conflicting_def by (metis Int_commute)
    moreover have "pool_map p1 \<subseteq>\<^sub>m (pool_map p)(tid \<mapsto> t)" using p1(3) new by (auto simp: map_le_def)
    ultimately show ?thesis using False p1(1,2) gone new by (intro exI[of _ False] exI[of _ p1]) (simp add: pool_add_def)
  next
    case True
    have free: "\<not> conflicting t u" if u: "pool_map p1 i = Some u" for i u
    proof
      assume "conflicting t u"
      then obtain ki where ki: "ki \<in> set kis" "ki \<in> set (key_images (pool_tx u))" using assms(5) unfolding conflicting_def by blast
      then have "RBT.lookup (memory_state_ki_tx p1) ki = Some i" using p1(2) u unfolding pool_ok_def ki_index_ok_def by blast
      then show False using p1(4)[OF True] ki(1) by simp
    qed
    obtain p2 where p2: "pool_insert p1 tid t kis = Inr p2" "pool_ok p2" "pool_map p2 = (pool_map p1)(tid \<mapsto> t)"
      using pool_insert_ok[OF p1(2) new assms(3-6) p1(4)[OF True]] by blast
    obtain p3 where p3: "evict_loop p2 = Inr p3" "pool_ok p3" "evicts_cheapest p2 p3" "within_limit p3"
      using evict_loop_ok[OF p2(2)] by blast
    obtain n where "pool_min_size p3 = Inr n" using pool_min_size_ok[of p3] p3(2) by (auto simp: pool_ok_def)
    then have add: "pool_add p tid t kis = Inr (True, p3)" using True p1(1) p2(1) p3(1) by (simp add: pool_add_def)
    have le3: "pool_map p3 \<subseteq>\<^sub>m (pool_map p1)(tid \<mapsto> t)" using p3(3) unfolding evicts_cheapest_def p2(3) by blast
    have le: "pool_map p3 \<subseteq>\<^sub>m (pool_map p)(tid \<mapsto> t)" using le3 map_le_upd[OF p1(3), of tid "Some t"] map_le_trans by blast
    have stays: "no_conflict_left tid t p3" unfolding no_conflict_left_def
      using map_le_Some[OF le3] free by (metis fun_upd_other)
    have "goes_cheapest p tid t p3" unfolding goes_cheapest_def
    proof (intro allI impI)
      fix i u assume u: "((pool_map p)(tid \<mapsto> t)) i = Some u" "pool_map p3 i = None"
      show "conflicting t u \<and> i \<noteq> tid \<and> outbids tid ?f i u \<or> (\<forall>j v. pool_map p3 j = Some v \<longrightarrow> fee_per_byte u \<le> fee_per_byte v)"
      proof (cases "pool_map p2 i")
        case None
        then have "i \<noteq> tid" "pool_map p i = Some u" "pool_map p1 i = None" using u(1) by (auto simp: p2(3) split: if_splits)
        then show ?thesis using gone unfolding displaced_def by blast
      next
        case (Some v)
        then have "v = u" using u(1) sub by (auto simp: p2(3) split: if_splits)
        then show ?thesis using p3(3) u(2) Some unfolding evicts_cheapest_def by blast
      qed
    qed
    moreover have "outbids tid ?f i u" if "pool_map p i = Some u" "conflicting t u" for i u
    proof (cases "pool_map p1 i")
      case None
      then show ?thesis using out that(1) by blast
    next
      case (Some v)
      then have "v = u" using sub[OF Some] that(1) by simp
      then show ?thesis using free Some that(2) by blast
    qed
    ultimately show ?thesis using True add p3(2,4) le stays by (intro exI[of _ True] exI[of _ p3]) auto
  qed
qed

text \<open>Two transactions with one key image, and a pool that holds the first: the second enters when it pays more, and is refused when it pays less.\<close>

theorem pool_prefers_fees_witness:
  "(\<exists>p'. pool_add sample_pool [9] (sample_pool_transaction\<lparr>pool_fee := 6\<rparr>) (key_images sample_transaction) = Inr (True, p') \<and>
      pool_ok p' \<and> pool_map p' [7] = None) \<and>
   (\<exists>p'. pool_add sample_pool [9] (sample_pool_transaction\<lparr>pool_fee := 4\<rparr>) (key_images sample_transaction) = Inr (False, p') \<and>
      pool_map p' [7] = Some sample_pool_transaction)"
proof -
  let ?t = "\<lambda>f. sample_pool_transaction\<lparr>pool_fee := f\<rparr>"
  have p: "pool_ok sample_pool" "pool_map sample_pool = [[7] \<mapsto> sample_pool_transaction]" using sample_pool_ok by simp_all
  have t: "pool_map sample_pool [9] = None" "binary_tx (?t f) \<noteq> []" "distinct (key_images sample_transaction)"
    "set (key_images sample_transaction) = set (key_images (pool_tx (?t f)))" "distinct (key_images (pool_tx (?t f)))" for f
    by (simp_all add: p(2) sample_pool_transaction_def sample_transaction_def key_images_def)
  have c: "conflicting (?t f) sample_pool_transaction" for f
    by (simp add: conflicting_def sample_pool_transaction_def sample_transaction_def key_images_def)
  have o: "outbids [9] (fee_per_byte (?t 6)) [7] sample_pool_transaction" "\<not> outbids [9] (fee_per_byte (?t 4)) [7] sample_pool_transaction"
    by (simp_all add: outbids_def fee_per_byte_def sample_pool_transaction_def)
  from pool_prefers_fees[OF p(1) t(1) t(2)[of 6] t(3) t(4,5)[of 6]]
  obtain go p6 where p6: "pool_add sample_pool [9] (?t 6) (key_images sample_transaction) = Inr (go, p6)" "pool_ok p6"
      "go \<longleftrightarrow> (\<forall>i u. pool_map sample_pool i = Some u \<longrightarrow> conflicting (?t 6) u \<longrightarrow> outbids [9] (fee_per_byte (?t 6)) i u)"
      "go \<longrightarrow> no_conflict_left [9] (?t 6) p6" "pool_map p6 \<subseteq>\<^sub>m (pool_map sample_pool)([9] \<mapsto> ?t 6)"
    by (elim exE conjE) (simp split: if_splits)
  have go: "go" using p6(3) o(1) by (auto simp: p(2) split: if_splits)
  have "pool_map p6 [7] = None"
  proof (rule ccontr)
    assume "pool_map p6 [7] \<noteq> None"
    then have "pool_map p6 [7] = Some sample_pool_transaction" using p6(5) p(2) by (force simp: map_le_def)
    then show False using p6(4) go c[of 6] unfolding no_conflict_left_def by fastforce
  qed
  moreover from pool_prefers_fees[OF p(1) t(1) t(2)[of 4] t(3) t(4,5)[of 4]]
  obtain go' p4 where p4: "pool_add sample_pool [9] (?t 4) (key_images sample_transaction) = Inr (go', p4)"
      "go' \<longleftrightarrow> (\<forall>i u. pool_map sample_pool i = Some u \<longrightarrow> conflicting (?t 4) u \<longrightarrow> outbids [9] (fee_per_byte (?t 4)) i u)"
      "\<not> go' \<longrightarrow> displaced sample_pool [9] (?t 4) p4" "pool_map p4 \<subseteq>\<^sub>m (pool_map sample_pool)([9] \<mapsto> ?t 4)"
    by (elim exE conjE) (simp split: if_splits)
  moreover have "\<not> go'" using p4(2) o(2) c[of 4] by (auto simp: p(2))
  moreover have "pool_map p4 [7] = Some sample_pool_transaction"
  proof -
    have "pool_map sample_pool [7] = Some sample_pool_transaction" by (simp add: p(2))
    then have "pool_map p4 [7] \<noteq> None" using p4(3) \<open>\<not> go'\<close> o(2) unfolding displaced_def by blast
    then show ?thesis using p4(4) p(2) by (force simp: map_le_def)
  qed
  ultimately show ?thesis using p6(1,2) go by auto
qed

end
