(* ===== verification/BlockChain.thy ===== *)
theory BlockChain
  imports MemPool
begin

text \<open>
  The block tree and the main chain: the class \<open>BlockChain\<close> of \<open>src/src/Core/BlockChain.cpp\<close> over the key-value
  store. Blocks and headers are stored under their hash, the main chain as an index from heights to
  hashes, the tips of the tree in an index by cumulative difficulty. Reading a header consults the window of
  tip headers, then the header cache, then the database; filling the cache is a separate
  definition, shown to leave every read unchanged. The virtual methods, which
  \<open>BlockChainState\<close> overrides, are a record of functions that \<open>add_block\<close> and \<open>reorganize_blocks\<close> take.
  Exceptions inside the \<open>try\<close> of \<open>add_block\<close> end the process and are errors like the others.
\<close>

section \<open>Definitions\<close>

subsection \<open>Raw and prepared blocks\<close>

record raw_block =
  rb_block :: bytes
  rb_transactions :: "bytes list"

record block =
  bl_header :: block_template
  bl_transactions :: "transaction list"

definition write_raw_block :: "raw_block \<Rightarrow> bytes" where
  "write_raw_block r = write_binary_array (rb_block r) @ write_container write_binary_array (rb_transactions r)"

definition read_raw_block :: "raw_block reader" where
  "read_raw_block bs =
     bindR (read_binary_array bs) (\<lambda>(b, bs1).
     bindR (read_container read_binary_array bs1) (\<lambda>(ts, bs2). Inr (\<lparr>rb_block = b, rb_transactions = ts\<rparr>, bs2)))"

primrec mapR :: "('a \<Rightarrow> 'e + 'b) \<Rightarrow> 'a list \<Rightarrow> 'e + 'b list" where
  "mapR f [] = Inr []"
| "mapR f (x # xs) = bindR (f x) (\<lambda>y. bindR (mapR f xs) (\<lambda>ys. Inr (y # ys)))"

text \<open>\<open>None\<close> is \<open>false\<close>: every exception is caught.\<close>

definition from_raw_block :: "raw_block \<Rightarrow> block option" where
  "from_raw_block r =
     (case bindR (from_binary read_block_template (rb_block r)) (\<lambda>h.
           bindR (mapR (from_binary read_transaction) (rb_transactions r)) (\<lambda>ts. Inr \<lparr>bl_header = h, bl_transactions = ts\<rparr>)) of
        Inl _ \<Rightarrow> None | Inr b \<Rightarrow> Some b)"

definition to_raw_block :: "block \<Rightarrow> raw_block option" where
  "to_raw_block b =
     (case bindR (write_block_template (bl_header b)) (\<lambda>h.
           bindR (mapR write_transaction (bl_transactions b)) (\<lambda>ts. Inr \<lparr>rb_block = h, rb_transactions = ts\<rparr>)) of
        Inl _ \<Rightarrow> None | Inr r \<Rightarrow> Some r)"

record prepared_block =
  prep_block_data :: bytes
  prep_raw_block :: raw_block
  prep_block :: block
  prep_bid :: bytes
  prep_base_transaction_hash :: bytes
  prep_coinbase_tx_size :: nat
  prep_parent_block_size :: nat
  prep_long_block_hash :: bytes

definition write_parent_block_plain :: "parent_block \<Rightarrow> bytes" where
  "write_parent_block_plain v =
     write_u8 (pb_major_version v) @ write_u8 (pb_minor_version v) @ pb_previous_block_hash v @
     write_varint_stream (ucast (transaction_count v)) @ write_container (\<lambda>h. h) (base_transaction_branch v) @
     write_base_transaction (pb_base_transaction v) @ write_container (\<lambda>h. h) (blockchain_branch v)"

text \<open>
  The constructor from a raw block, for a raw block that converts (\<open>None\<close> otherwise); the long hash is left null as
  without a hashing context.
\<close>

definition prepare_block :: "raw_block \<Rightarrow> prepared_block option result" where
  "prepare_block r =
     (case from_raw_block r of
        None \<Rightarrow> Inr None
      | Some b \<Rightarrow>
          bindR (get_block_hash (bl_header b)) (\<lambda>bid.
          bindR (write_transaction (base_tx (bl_header b))) (\<lambda>coinbase.
          bindR (get_transaction_hash (base_tx (bl_header b))) (\<lambda>th.
            Inr (Some \<lparr>prep_block_data = write_raw_block r, prep_raw_block = r, prep_block = b, prep_bid = bid,
              prep_base_transaction_hash = th, prep_coinbase_tx_size = length coinbase,
              prep_parent_block_size =
                (if 2 \<le> major_version (bl_header b) then length (write_parent_block_plain (parent (bl_header b))) else 0),
              prep_long_block_hash = replicate 32 0\<rparr>)))))"

subsection \<open>Headers\<close>

record api_block_header =
  hd_major_version :: u8
  hd_minor_version :: u8
  hd_timestamp :: u32
  hd_previous_block_hash :: bytes
  hd_nonce :: u32
  hd_height :: u32
  hd_hash :: bytes
  hd_reward :: u64
  hd_cumulative_difficulty :: u64
  hd_difficulty :: u64
  hd_base_reward :: u64
  hd_block_size :: u32
  hd_transactions_cumulative_size :: u32
  hd_already_generated_coins :: u64
  hd_already_generated_transactions :: u64
  hd_size_median :: u32
  hd_effective_size_median :: u32
  hd_timestamp_median :: u32
  hd_total_fee_amount :: u64

definition empty_api_header :: api_block_header where
  "empty_api_header = \<lparr>hd_major_version = 0, hd_minor_version = 0, hd_timestamp = 0, hd_previous_block_hash = replicate 32 0,
     hd_nonce = 0, hd_height = 0, hd_hash = replicate 32 0, hd_reward = 0, hd_cumulative_difficulty = 0, hd_difficulty = 0,
     hd_base_reward = 0, hd_block_size = 0, hd_transactions_cumulative_size = 0, hd_already_generated_coins = 0,
     hd_already_generated_transactions = 0, hd_size_median = 0, hd_effective_size_median = 0, hd_timestamp_median = 0,
     hd_total_fee_amount = 0\<rparr>"

definition write_api_header :: "api_block_header \<Rightarrow> bytes" where
  "write_api_header v =
     write_u8 (hd_major_version v) @ write_u8 (hd_minor_version v) @ write_u32 (hd_timestamp v) @
     hd_previous_block_hash v @ write_u32 (hd_nonce v) @ write_u32 (hd_height v) @ hd_hash v @
     write_u64 (hd_reward v) @ write_u64 (hd_cumulative_difficulty v) @ write_u64 (hd_difficulty v) @
     write_u64 (hd_base_reward v) @ write_u32 (hd_block_size v) @ write_u32 (hd_transactions_cumulative_size v) @
     write_u64 (hd_already_generated_coins v) @ write_u64 (hd_already_generated_transactions v) @
     write_u32 (hd_size_median v) @ write_u32 (hd_effective_size_median v) @ write_u32 (hd_timestamp_median v) @
     write_u64 (hd_total_fee_amount v)"

definition read_api_header :: "api_block_header reader" where
  "read_api_header b0 =
     bindR (read_u8 b0) (\<lambda>(maj, b1). bindR (read_u8 b1) (\<lambda>(mi, b2). bindR (read_u32 b2) (\<lambda>(ts, b3).
     bindR (ser_binary 32 b3) (\<lambda>(prev, b4). bindR (read_u32 b4) (\<lambda>(n, b5). bindR (read_u32 b5) (\<lambda>(he, b6).
     bindR (ser_binary 32 b6) (\<lambda>(ha, b7). bindR (read_u64 b7) (\<lambda>(rw, b8). bindR (read_u64 b8) (\<lambda>(cd, b9).
     bindR (read_u64 b9) (\<lambda>(d, b10). bindR (read_u64 b10) (\<lambda>(br, b11). bindR (read_u32 b11) (\<lambda>(bs, b12).
     bindR (read_u32 b12) (\<lambda>(tc, b13). bindR (read_u64 b13) (\<lambda>(ac, b14). bindR (read_u64 b14) (\<lambda>(gt, b15).
     bindR (read_u32 b15) (\<lambda>(sm, b16). bindR (read_u32 b16) (\<lambda>(em, b17). bindR (read_u32 b17) (\<lambda>(tm, b18).
     bindR (read_u64 b18) (\<lambda>(fe, b19).
       Inr (\<lparr>hd_major_version = maj, hd_minor_version = mi, hd_timestamp = ts, hd_previous_block_hash = prev, hd_nonce = n,
         hd_height = he, hd_hash = ha, hd_reward = rw, hd_cumulative_difficulty = cd, hd_difficulty = d, hd_base_reward = br,
         hd_block_size = bs, hd_transactions_cumulative_size = tc, hd_already_generated_coins = ac,
         hd_already_generated_transactions = gt, hd_size_median = sm, hd_effective_size_median = em,
         hd_timestamp_median = tm, hd_total_fee_amount = fe\<rparr>, b19))))))))))))))))))))"

subsection \<open>State and keys\<close>

record block_chain =
  m_currency :: currency
  m_genesis_bid :: bytes
  m_db :: db
  m_tip_bid :: bytes
  m_tip_cumulative_difficulty :: u64
  m_tip_height :: u32
  header_cache :: "(bytes, api_block_header) RBT.rbt"
  m_header_tip_window :: "api_block_header list"

definition block_key :: "bytes \<Rightarrow> bytes" where "block_key bid = [0x62] @ bid @ [0x62]"
definition header_key :: "bytes \<Rightarrow> bytes" where "header_key bid = [0x62] @ bid @ [0x68]"
definition transaction_key :: "bytes \<Rightarrow> bytes" where "transaction_key tid = [0x74] @ tid"
definition TIP_CHAIN_PREFIX :: bytes where "TIP_CHAIN_PREFIX = [0x63]"
definition chain_key :: "u32 \<Rightarrow> bytes" where "chain_key height = TIP_CHAIN_PREFIX @ write_varint_sqlite4 (ucast height)"
definition TIMESTAMP_BLOCK_PREFIX :: bytes where "TIMESTAMP_BLOCK_PREFIX = [0x54]"
definition timestamp_key :: "u32 \<Rightarrow> u32 \<Rightarrow> bytes" where
  "timestamp_key ts height = TIMESTAMP_BLOCK_PREFIX @ write_varint_sqlite4 (ucast ts) @ write_varint_sqlite4 (ucast height)"
definition children_key :: "bytes \<Rightarrow> bytes" where "children_key bid = [0x78, 0x2d, 0x63, 0x68, 0x2f] @ bid"
definition CD_TIPS_PREFIX :: bytes where "CD_TIPS_PREFIX = [0x78, 0x2d, 0x74, 0x69, 0x70, 0x73, 0x2f]"
definition cd_tips_key :: "u64 \<Rightarrow> bytes \<Rightarrow> bytes" where
  "cd_tips_key cd bid = CD_TIPS_PREFIX @ write_varint_sqlite4 cd @ bid"

definition with_db :: "('z) block_chain_scheme \<Rightarrow> db result \<Rightarrow> ('z) block_chain_scheme result" where
  "with_db s r = bindR r (\<lambda>d. Inr (s\<lparr>m_db := d\<rparr>))"

subsection \<open>Blocks and headers in the store\<close>

definition has_block :: "('z) block_chain_scheme \<Rightarrow> bytes \<Rightarrow> bool" where
  "has_block s bid = (db_get (m_db s) (block_key bid) \<noteq> None)"

definition store_block :: "('z) block_chain_scheme \<Rightarrow> bytes \<Rightarrow> bytes \<Rightarrow> ('z) block_chain_scheme result" where
  "store_block s bid block_data = with_db s (db_put (m_db s) (block_key bid) block_data True)"

definition read_block :: "('z) block_chain_scheme \<Rightarrow> bytes \<Rightarrow> (bytes \<times> raw_block) option result" where
  "read_block s bid =
     (case db_get (m_db s) (block_key bid) of
        None \<Rightarrow> Inr None
      | Some rb \<Rightarrow> bindR (from_binary read_raw_block rb) (\<lambda>raw. Inr (Some (rb, raw))))"

definition store_header :: "('z) block_chain_scheme \<Rightarrow> bytes \<Rightarrow> api_block_header \<Rightarrow> ('z) block_chain_scheme result" where
  "store_header s bid header = with_db s (db_put (m_db s) (header_key bid) (write_api_header header) True)"

definition largest_window :: "('z) block_chain_scheme \<Rightarrow> u32" where
  "largest_window s =
     max (get_difficulty_blocks_count (m_currency s) (m_tip_height s + 1))
       (max (reward_blocks_window (m_currency s)) (get_timestamp_check_window (m_currency s) (m_tip_height s + 1)))"

text \<open>The header at the hinted height in the window of tip headers, when the window reaches there (64-bit arithmetic).\<close>

definition window_candidate :: "('z) block_chain_scheme \<Rightarrow> u32 \<Rightarrow> api_block_header option result" where
  "window_candidate s hint =
     (let tip = m_tip_height s; w = m_header_tip_window s; n = (word_of_nat (length w) :: u64)
      in if tip \<noteq> - 1 \<and> hint \<le> tip \<and> ucast tip - n + 1 \<le> (ucast hint :: u64)
         then let i = unat (n - 1 - ucast (tip - hint)) in if i < length w then Inr (Some (w ! i)) else Inl OutOfRange
         else Inr None)"

definition read_header_db :: "('z) block_chain_scheme \<Rightarrow> bytes \<Rightarrow> api_block_header option result" where
  "read_header_db s bid =
     (case RBT.lookup (header_cache s) bid of
        Some h \<Rightarrow> Inr (Some h)
      | None \<Rightarrow>
          (case db_get (m_db s) (header_key bid) of
             None \<Rightarrow> Inr None
           | Some rb \<Rightarrow> bindR (from_binary read_api_header rb) (\<lambda>h. Inr (Some h))))"

definition read_header :: "('z) block_chain_scheme \<Rightarrow> bytes \<Rightarrow> u32 \<Rightarrow> api_block_header option result" where
  "read_header s bid hint =
     bindR (window_candidate s hint) (\<lambda>c.
       case c of
         Some h \<Rightarrow> if hd_hash h = bid then Inr (Some h) else read_header_db s bid
       | None \<Rightarrow> read_header_db s bid)"

text \<open>What \<open>read_header\<close> does to the cache when it gets to the database.\<close>

definition remember_header :: "('z) block_chain_scheme \<Rightarrow> bytes \<Rightarrow> ('z) block_chain_scheme result" where
  "remember_header s bid =
     (case RBT.lookup (header_cache s) bid of
        Some h \<Rightarrow> Inr s
      | None \<Rightarrow>
          let cache = (if unat (largest_window s * 10) < length (RBT.entries (header_cache s)) then RBT.empty else header_cache s)
          in (case db_get (m_db s) (header_key bid) of
                None \<Rightarrow> Inr (s\<lparr>header_cache := cache\<rparr>)
              | Some rb \<Rightarrow> bindR (from_binary read_api_header rb) (\<lambda>h. Inr (s\<lparr>header_cache := RBT.insert bid h cache\<rparr>))))"

definition read_header_or_fail :: "('z) block_chain_scheme \<Rightarrow> bytes \<Rightarrow> u32 \<Rightarrow> api_block_header result" where
  "read_header_or_fail s bid hint =
     bindR (read_header s bid hint) (\<lambda>r.
       case r of None \<Rightarrow> Inl (InvariantViolated ''Expected header was not found'') | Some h \<Rightarrow> Inr h)"

text \<open>Reading with the change of the cache: a header of the window of the tip is answered without it.\<close>

definition read_header_caching :: "('z) block_chain_scheme \<Rightarrow> bytes \<Rightarrow> u32 \<Rightarrow> (api_block_header \<times> ('z) block_chain_scheme) result" where
  "read_header_caching s bid hint =
     bindR (read_header_or_fail s bid hint) (\<lambda>h.
     bindR (window_candidate s hint) (\<lambda>c.
       case c of
         Some w \<Rightarrow> if hd_hash w = bid then Inr (h, s) else bindR (remember_header s bid) (\<lambda>s'. Inr (h, s'))
       | None \<Rightarrow> bindR (remember_header s bid) (\<lambda>s'. Inr (h, s'))))"

definition get_tip :: "('z) block_chain_scheme \<Rightarrow> api_block_header result" where
  "get_tip s =
     (if m_header_tip_window s \<noteq> [] \<and> m_tip_bid s = hd_hash (last (m_header_tip_window s))
      then Inr (last (m_header_tip_window s)) else Inl (InvariantViolated ''tip window corrupted''))"

text \<open>The loop of \<open>get_tip_segment\<close>: at most \<open>window\<close> headers, collected backwards; the genesis header stops it.\<close>

fun tip_segment_loop :: "('z) block_chain_scheme \<Rightarrow> nat \<Rightarrow> api_block_header \<Rightarrow> (api_block_header list \<times> api_block_header) result" where
  "tip_segment_loop s 0 pi = Inr ([], pi)"
| "tip_segment_loop s (Suc window) pi =
     (if hd_height pi = 0 then Inr ([], pi)
      else bindR (read_header_or_fail s (hd_previous_block_hash pi) (hd_height pi - 1)) (\<lambda>pi'.
           bindR (tip_segment_loop s window pi') (\<lambda>(hs, last_pi). Inr (pi # hs, last_pi))))"

definition get_tip_segment :: "('z) block_chain_scheme \<Rightarrow> api_block_header \<Rightarrow> u32 \<Rightarrow> bool \<Rightarrow> api_block_header list result" where
  "get_tip_segment s prev_info window add_genesis =
     (if hd_height prev_info = - 1 then Inr []
      else bindR (tip_segment_loop s (unat window) prev_info) (\<lambda>(hs, pi).
        if length hs < unat window \<and> add_genesis
        then (if hd_height pi \<noteq> 0 then Inl (InvariantViolated ''Invariant dead - window size not reached'')
              else Inr (rev (hs @ [pi])))
        else Inr (rev hs)))"

subsection \<open>The main chain\<close>

definition read_chain :: "('z) block_chain_scheme \<Rightarrow> u32 \<Rightarrow> bytes option result" where
  "read_chain s height =
     (case db_get (m_db s) (chain_key height) of
        None \<Rightarrow> Inr None
      | Some ba \<Rightarrow> bindR (from_binary (ser_binary 32) ba) (\<lambda>bid. Inr (Some bid)))"

definition read_chain_or_fail :: "('z) block_chain_scheme \<Rightarrow> u32 \<Rightarrow> bytes result" where
  "read_chain_or_fail s height =
     bindR (read_chain s height) (\<lambda>r. case r of None \<Rightarrow> Inl (InvariantViolated ''read_header_chain failed'') | Some bid \<Rightarrow> Inr bid)"

definition in_chain :: "('z) block_chain_scheme \<Rightarrow> u32 \<Rightarrow> bytes \<Rightarrow> bool result" where
  "in_chain s height bid = bindR (read_chain s height) (\<lambda>r. Inr (r = Some bid))"

definition push_chain ::
  "(('z) block_chain_scheme \<Rightarrow> ('z) block_chain_scheme result) \<Rightarrow> ('z) block_chain_scheme \<Rightarrow> api_block_header \<Rightarrow> ('z) block_chain_scheme result" where
  "push_chain tip_changed s header =
     (let height = m_tip_height s + 1
      in bindR (db_put (m_db s) (chain_key height) (hd_hash header) True) (\<lambda>d.
        let s1 = s\<lparr>m_tip_height := height, m_db := d, m_tip_bid := hd_hash header,
                   m_tip_cumulative_difficulty := hd_cumulative_difficulty header\<rparr>;
            w = m_header_tip_window s @ [header]
        in tip_changed (s1\<lparr>m_header_tip_window := drop (length w - unat (largest_window s1 * 2)) w\<rparr>)))"

definition pop_chain :: "('z) block_chain_scheme \<Rightarrow> bytes \<Rightarrow> ('z) block_chain_scheme result" where
  "pop_chain s new_tip_bid =
     (if m_tip_height s = 0 \<or> m_header_tip_window s = [] then Inl (InvariantViolated ''pop_chain tip_height == 0'')
      else
        let w = butlast (m_header_tip_window s)
        in bindR (db_del (m_db s) (chain_key (m_tip_height s)) True) (\<lambda>d.
           let s1 = s\<lparr>m_header_tip_window := w, m_db := d, m_tip_height := m_tip_height s - 1, m_tip_bid := new_tip_bid\<rparr>
           in bindR (read_chain_or_fail s1 (m_tip_height s1)) (\<lambda>bid.
                if bid \<noteq> new_tip_bid then Inl (InvariantViolated ''After undo tip does not match read_chain'')
                else
                  bindR (if w = [] then bindR (read_header_or_fail s1 new_tip_bid 0) (\<lambda>h. Inr (s1\<lparr>m_header_tip_window := [h]\<rparr>))
                         else Inr s1) (\<lambda>s2.
                  bindR (get_tip s2) (\<lambda>t. Inr (s2\<lparr>m_tip_cumulative_difficulty := hd_cumulative_difficulty t\<rparr>))))))"

definition read_tip :: "('z) block_chain_scheme \<Rightarrow> ('z) block_chain_scheme result" where
  "read_tip s =
     (case db_rbegin (m_db s) TIP_CHAIN_PREFIX [] of
        [] \<Rightarrow> Inl (StreamError ''IInputStream reading from empty stream'')
      | (suf, v) # _ \<Rightarrow>
          bindR (read_varint_sqlite4_str suf) (\<lambda>h.
            if \<not> h \<le> 0xFFFFFFFF then Inl (RuntimeError ''bad_lexical_cast'')
            else
              let s1 = s\<lparr>m_tip_height := ucast h\<rparr>
              in bindR (from_binary (ser_binary 32) v) (\<lambda>bid.
                 bindR (read_header_or_fail (s1\<lparr>m_tip_bid := bid\<rparr>) bid 0) (\<lambda>th.
                   Inr (s1\<lparr>m_tip_bid := bid, m_tip_cumulative_difficulty := hd_cumulative_difficulty th,
                           m_header_tip_window := [th]\<rparr>)))))"

subsection \<open>Tips of the tree\<close>

text \<open>The stored counter; 1 when none is stored. It is a 32-bit value, so adding minus one wraps around.\<close>

definition children_counter :: "('z) block_chain_scheme \<Rightarrow> bytes \<Rightarrow> u32 result" where
  "children_counter s bid =
     (case db_get (m_db s) (children_key bid) of None \<Rightarrow> Inr 1 | Some rb \<Rightarrow> from_binary read_u32 rb)"

definition check_children_counter :: "('z) block_chain_scheme \<Rightarrow> u64 \<Rightarrow> bytes \<Rightarrow> u32 \<Rightarrow> unit result" where
  "check_children_counter s cd bid value =
     bindR (children_counter s bid) (\<lambda>counter.
     bindR (ensure (InvariantViolated ''check_children_counter index corrupted'') (counter = value)) (\<lambda>_.
     bindR (ensure (InvariantViolated ''check_children_counter tip is not in index'')
       (counter \<noteq> 0 \<or> db_get (m_db s) (cd_tips_key cd bid) \<noteq> None)) (\<lambda>_.
     ensure (InvariantViolated ''check_children_counter non-tip is in index'')
       (counter = 0 \<or> db_get (m_db s) (cd_tips_key cd bid) = None))))"

definition modify_children_counter :: "('z) block_chain_scheme \<Rightarrow> u64 \<Rightarrow> bytes \<Rightarrow> u32 \<Rightarrow> ('z) block_chain_scheme result" where
  "modify_children_counter s cd bid delta =
     bindR (children_counter s bid) (\<lambda>c0.
       let counter = c0 + delta
       in bindR (if counter = 1 then db_del (m_db s) (children_key bid) False
                 else db_put (m_db s) (children_key bid) (write_u32 counter) False) (\<lambda>d.
          with_db s (if counter = 0 then db_put d (cd_tips_key cd bid) [] False
                     else db_del d (cd_tips_key cd bid) False)))"

definition get_oldest_tip :: "('z) block_chain_scheme \<Rightarrow> (u64 \<times> bytes) option result" where
  "get_oldest_tip s =
     (case db_begin (m_db s) CD_TIPS_PREFIX [] of
        [] \<Rightarrow> Inr None
      | (suf, _) # _ \<Rightarrow>
          bindR (read_varint_sqlite4 suf) (\<lambda>(cd, rest).
            if length rest \<noteq> 32 then Inl (InvariantViolated ''CD_TIPS_PREFIX corrupted'')
            else Inr (Some (cd, rest))))"

text \<open>The headers that are read here stay in the cache, as in the code, although they are deleted from the database.\<close>

definition prune_branch :: "('z) block_chain_scheme \<Rightarrow> u64 \<Rightarrow> bytes \<Rightarrow> (bool \<times> ('z) block_chain_scheme) result" where
  "prune_branch s cd bid =
     (if bid = m_tip_bid s then Inr (False, s)
      else
        bindR (check_children_counter s cd bid 0) (\<lambda>_.
        bindR (read_header_caching s bid 0) (\<lambda>(me, sa).
        bindR (read_header_caching sa (hd_previous_block_hash me) 0) (\<lambda>(pa, sb).
        bindR (modify_children_counter sb cd bid 1) (\<lambda>s1.
        bindR (modify_children_counter s1 (hd_cumulative_difficulty pa) (hd_previous_block_hash me) (- 1)) (\<lambda>s2.
        bindR (db_del (m_db s2) (block_key bid) True) (\<lambda>d.
        bindR (with_db s2 (db_del d (header_key bid) True)) (\<lambda>s3. Inr (True, s3)))))))))"

subsection \<open>Walking the tree\<close>

text \<open>
  \<open>get_common_block\<close>: the first two loops walk the longer branch down to the height of the other, the
  third walks both down until they meet. The loops end when headers link to lower heights, which the code
  relies on; \<open>None\<close> is a walk that does not end.
\<close>

partial_function (option) walk_down ::
  "('z) block_chain_scheme \<Rightarrow> u32 \<Rightarrow> bytes \<Rightarrow> api_block_header \<Rightarrow> bytes list \<Rightarrow> (bytes \<times> api_block_header \<times> bytes list) result option" where
  [code]: "walk_down s target hid ha chain =
     (if target < hd_height ha
      then (case read_header_or_fail s (hd_previous_block_hash ha) 0 of
              Inl e \<Rightarrow> Some (Inl e)
            | Inr ha' \<Rightarrow> walk_down s target (hd_previous_block_hash ha) ha' (chain @ [hid]))
      else Some (Inr (hid, ha, chain)))"

partial_function (option) walk_both ::
  "('z) block_chain_scheme \<Rightarrow> bytes \<Rightarrow> api_block_header \<Rightarrow> bytes list \<Rightarrow> bytes \<Rightarrow> api_block_header \<Rightarrow> bytes list \<Rightarrow>
    (bytes \<times> bytes list \<times> bytes list) result option" where
  [code]: "walk_both s hid1 ha1 chain1 hid2 ha2 chain2 =
     (if hid1 \<noteq> hid2
      then (case read_header_or_fail s (hd_previous_block_hash ha1) 0 of
              Inl e \<Rightarrow> Some (Inl e)
            | Inr ha1' \<Rightarrow>
                (case read_header_or_fail s (hd_previous_block_hash ha2) 0 of
                   Inl e \<Rightarrow> Some (Inl e)
                 | Inr ha2' \<Rightarrow> walk_both s (hd_previous_block_hash ha1) ha1' (chain1 @ [hid1])
                     (hd_previous_block_hash ha2) ha2' (chain2 @ [hid2])))
      else Some (Inr (hid1, chain1, chain2)))"

definition get_common_block :: "('z) block_chain_scheme \<Rightarrow> bytes \<Rightarrow> bytes \<Rightarrow> (bytes \<times> bytes list \<times> bytes list) result option" where
  "get_common_block s bid1 bid2 =
     (case read_header_or_fail s bid1 0 of Inl e \<Rightarrow> Some (Inl e) | Inr ha1 \<Rightarrow>
     (case read_header_or_fail s bid2 0 of Inl e \<Rightarrow> Some (Inl e) | Inr ha2 \<Rightarrow>
     (case walk_down s (hd_height ha2) bid1 ha1 [] of None \<Rightarrow> None | Some (Inl e) \<Rightarrow> Some (Inl e) | Some (Inr (hid1, ha1', chain1)) \<Rightarrow>
     (case walk_down s (hd_height ha1') bid2 ha2 [] of None \<Rightarrow> None | Some (Inl e) \<Rightarrow> Some (Inl e) | Some (Inr (hid2, ha2', chain2)) \<Rightarrow>
        walk_both s hid1 ha1' chain1 hid2 ha2' chain2))))"

text \<open>
  The heights of the sparse chain: ten steps of one, then doubling; \<open>n\<close> counts the hashes so far. The jump is a \<open>uint32_t\<close> in the
  code; it is at most twice the height of the tip and one, so that it does not wrap for chains of less than \<open>2 ^ 31\<close> blocks, where the natural number here is the same.
\<close>

function sparse_jumps :: "nat \<Rightarrow> nat \<Rightarrow> nat \<Rightarrow> nat list" where
  "sparse_jumps tip n jump =
     (if jump \<le> tip
      then (tip - jump) # sparse_jumps tip (Suc n) (if Suc n \<le> 10 then jump + 1 else jump + 2 ^ (Suc n - 10))
      else [])"
  by pat_completeness auto
termination
  by (relation "measure (\<lambda>(tip, n, jump). Suc tip - jump)") (simp_all add: less_diff_conv2, auto simp: diff_less_mono2 intro!: diff_less_mono2)

declare sparse_jumps.simps [simp del]

definition get_sparse_chain :: "('z) block_chain_scheme \<Rightarrow> bytes list result" where
  "get_sparse_chain s =
     bindR (mapR (\<lambda>h. read_chain_or_fail s (word_of_nat h)) (sparse_jumps (unat (m_tip_height s)) 0 0)) (\<lambda>tip_path.
       Inr (if last tip_path \<noteq> m_genesis_bid s then tip_path @ [m_genesis_bid s] else tip_path))"

fun find_blockchain_supplement :: "('z) block_chain_scheme \<Rightarrow> bytes list \<Rightarrow> u32 result" where
  "find_blockchain_supplement s [] = Inr 0"
| "find_blockchain_supplement s (lit # rest) =
     bindR (read_header s lit 0) (\<lambda>r.
       case r of
         None \<Rightarrow> find_blockchain_supplement s rest
       | Some header \<Rightarrow> if m_tip_height s < hd_height header then find_blockchain_supplement s rest else Inr (hd_height header))"

definition get_timestamp_lower_bound_block_index :: "('z) block_chain_scheme \<Rightarrow> u32 \<Rightarrow> u32 result" where
  "get_timestamp_lower_bound_block_index s ts =
     (case db_begin (m_db s) TIMESTAMP_BLOCK_PREFIX (write_varint_sqlite4 (ucast ts)) of
        [] \<Rightarrow> Inr (m_tip_height s)
      | (suf, _) # _ \<Rightarrow>
          bindR (read_varint_sqlite4 suf) (\<lambda>(_, rest).
          bindR (read_varint_sqlite4 rest) (\<lambda>(h, _).
            if \<not> h \<le> 0xFFFFFFFF then Inl (RuntimeError ''bad_lexical_cast'') else Inr (ucast h))))"

text \<open>The walk from a remote block down to the main chain.\<close>

partial_function (option) walk_to_chain :: "('z) block_chain_scheme \<Rightarrow> api_block_header \<Rightarrow> api_block_header result option" where
  [code]: "walk_to_chain s header =
     (if hd_height header \<noteq> 0
      then (case read_chain s (hd_height header) of
              Inl e \<Rightarrow> Some (Inl e)
            | Inr r \<Rightarrow>
                if r = Some (hd_hash header) then Some (Inr header)
                else (case read_header_or_fail s (hd_previous_block_hash header) 0 of
                        Inl e \<Rightarrow> Some (Inl e)
                      | Inr h \<Rightarrow> walk_to_chain s h))
      else Some (Inr header))"

definition sync_heights :: "('z) block_chain_scheme \<Rightarrow> u32 \<Rightarrow> nat \<Rightarrow> nat list" where
  "sync_heights s from max_count = take max_count [unat from..<unat (m_tip_height s) + 1]"

fun get_sync_headers_chain :: "('z) block_chain_scheme \<Rightarrow> bytes list \<Rightarrow> nat \<Rightarrow> (u32 \<times> bytes list) result option" where
  "get_sync_headers_chain s [] max_count = Some (Inr (m_tip_height s + 1, []))"
| "get_sync_headers_chain s (lit # rest) max_count =
     (case read_header s lit 0 of
        Inl e \<Rightarrow> Some (Inl e)
      | Inr None \<Rightarrow> get_sync_headers_chain s rest max_count
      | Inr (Some header) \<Rightarrow>
          (case walk_to_chain s header of
             None \<Rightarrow> None
           | Some (Inl e) \<Rightarrow> Some (Inl e)
           | Some (Inr h) \<Rightarrow>
               Some (bindR (mapR (\<lambda>n. read_chain_or_fail s (word_of_nat n)) (sync_heights s (hd_height h) max_count)) (\<lambda>result.
                 Inr (hd_height h, result)))))"

subsection \<open>The index of transactions\<close>

text \<open>
  \<open>slow_memmem\<close>: the search resumes after a failed match with a length that is one too large each
  time, so a search without a match can read past the end (\<open>Undefined\<close>). A failed \<open>memchr\<close> is a null pointer, whose
  distance to the buffer exceeds every length. The result is an offset.
\<close>

function slow_memmem_loop :: "nat \<Rightarrow> bytes \<Rightarrow> nat \<Rightarrow> bytes \<Rightarrow> nat option result" where
  "slow_memmem_loop pos buf buflen pat =
     (if buflen = 0 then Inr None
      else
        let k = length (takeWhile (\<lambda>b. b \<noteq> hd pat) (take buflen buf))
        in if k = length (take buflen buf)
           then (if length buf < buflen then Inl Undefined else Inr None)
           else if buflen < k + length pat then Inr None
           else if length buf < k + length pat then Inl Undefined
           else if take (length pat) (drop k buf) = pat then Inr (Some (pos + k))
           else slow_memmem_loop (pos + k + 1) (drop (k + 1) buf) (buflen - k) pat)"
  by pat_completeness auto
termination
  by (relation "measure (\<lambda>(pos, buf, buflen, pat). length buf)") (auto simp: not_less Let_def)

declare slow_memmem_loop.simps [simp del]

definition slow_memmem :: "bytes \<Rightarrow> bytes \<Rightarrow> nat option result" where
  "slow_memmem buf pat = (if pat = [] then Inr None else slow_memmem_loop 0 buf (length buf) pat)"

record transaction_pos =
  tp_height :: u32
  tp_offset :: u32
  tp_size :: u32
  tp_index :: u32

definition write_transaction_pos :: "transaction_pos \<Rightarrow> bytes" where
  "write_transaction_pos v = write_u32 (tp_height v) @ write_u32 (tp_offset v) @ write_u32 (tp_size v) @ write_u32 (tp_index v)"

definition read_transaction_pos :: "transaction_pos reader" where
  "read_transaction_pos bs =
     bindR (read_u32 bs) (\<lambda>(h, bs1). bindR (read_u32 bs1) (\<lambda>(o1, bs2). bindR (read_u32 bs2) (\<lambda>(z, bs3).
     bindR (read_u32 bs3) (\<lambda>(i, bs4). Inr (\<lparr>tp_height = h, tp_offset = o1, tp_size = z, tp_index = i\<rparr>, bs4)))))"

definition read_transaction_from_chain ::
  "('z) block_chain_scheme \<Rightarrow> bytes \<Rightarrow> (transaction \<times> u32 \<times> bytes \<times> u32 \<times> u32) option result" where
  "read_transaction_from_chain s tid =
     (case db_get (m_db s) (transaction_key tid) of
        None \<Rightarrow> Inr None
      | Some ba \<Rightarrow>
          bindR (from_binary read_transaction_pos ba) (\<lambda>tpos.
          bindR (read_chain_or_fail s (tp_height tpos)) (\<lambda>bid.
            case db_get (m_db s) (block_key bid) of
              None \<Rightarrow> Inl (InvariantViolated ''block must be there if transaction is there'')
            | Some block_val \<Rightarrow>
                if \<not> unat (tp_offset tpos + tp_size tpos) \<le> length block_val
                then Inl (InvariantViolated ''Transaction offset corrupted'')
                else if length block_val < unat (tp_offset tpos) + unat (tp_size tpos) then Inl Undefined
                else
                  bindR (from_binary read_transaction (take (unat (tp_size tpos)) (drop (unat (tp_offset tpos)) block_val))) (\<lambda>tx.
                    Inr (Some (tx, tp_height tpos, bid, tp_index tpos, tp_size tpos))))))"

text \<open>Recording one transaction: found behind the previous one in the block data, stored under its hash.\<close>

definition index_transaction :: "bytes \<Rightarrow> db \<times> transaction_pos \<Rightarrow> bytes \<times> bytes \<times> u32 \<Rightarrow> (db \<times> transaction_pos) result" where
  "index_transaction block_data st entry =
     (case (st, entry) of ((d, tpos), (tid, binary, index)) \<Rightarrow>
        let start = unat (tp_offset tpos) + unat (tp_size tpos)
        in if length block_data < start then Inl Undefined
           else bindR (slow_memmem (drop start block_data) binary) (\<lambda>r.
             case r of
               None \<Rightarrow> Inl (InvariantViolated ''binary tx not found in binary block'')
             | Some k \<Rightarrow>
                 let tpos' = tpos\<lparr>tp_offset := word_of_nat (start + k), tp_size := word_of_nat (length binary), tp_index := index\<rparr>
                 in bindR (db_put d (transaction_key tid) (write_transaction_pos tpos') True) (\<lambda>d'. Inr (d', tpos'))))"

text \<open>The checked accesses pair the transactions of the block with the hashes of its header.\<close>

definition index_entries :: "block \<Rightarrow> raw_block \<Rightarrow> (bytes \<times> bytes \<times> u32) list result" where
  "index_entries b raw =
     mapR (\<lambda>i. if i < length (transaction_hashes (bl_header b)) \<and> i < length (rb_transactions raw)
               then Inr (transaction_hashes (bl_header b) ! i, rb_transactions raw ! i, word_of_nat (i + 1))
               else Inl OutOfRange) [0..<length (bl_transactions b)]"

definition index_block ::
  "('z) block_chain_scheme \<Rightarrow> bytes \<Rightarrow> raw_block \<Rightarrow> block \<Rightarrow> api_block_header \<Rightarrow> bytes \<Rightarrow> ('z) block_chain_scheme result" where
  "index_block s block_data raw b info base_transaction_hash =
     bindR (db_put (m_db s) (timestamp_key (hd_timestamp info) (hd_height info)) [] True) (\<lambda>d0.
     bindR (write_transaction (base_tx (bl_header b))) (\<lambda>coinbase_ba.
     bindR (index_transaction block_data (d0, \<lparr>tp_height = hd_height info, tp_offset = 0, tp_size = 0, tp_index = 0\<rparr>)
       (base_transaction_hash, coinbase_ba, 0)) (\<lambda>st.
     bindR (index_entries b raw) (\<lambda>entries.
     bindR (foldR (index_transaction block_data) st entries) (\<lambda>(d, _). Inr (s\<lparr>m_db := d\<rparr>))))))"

definition unindex_block :: "('z) block_chain_scheme \<Rightarrow> block \<Rightarrow> u32 \<Rightarrow> ('z) block_chain_scheme result" where
  "unindex_block s b height =
     bindR (db_del (m_db s) (timestamp_key (timestamp (bl_header b)) height) True) (\<lambda>d0.
     bindR (get_transaction_hash (base_tx (bl_header b))) (\<lambda>tid.
     bindR (db_del d0 (transaction_key tid) True) (\<lambda>d1.
     with_db s (foldR (\<lambda>d i. if i < length (transaction_hashes (bl_header b))
                             then db_del d (transaction_key (transaction_hashes (bl_header b) ! i)) True
                             else Inl OutOfRange) d1 [0..<length (bl_transactions b)]))))"

subsection \<open>Adding blocks\<close>

datatype broadcast_action = BROADCAST_ALL | NOTHING | BAN

text \<open>
  The virtual methods: the consensus check returns its error text (empty when accepted) with the completed
  header, applying a block says whether it could be applied.
\<close>

type_synonym undone_map = "(bytes, transaction \<times> bytes) RBT.rbt"

record 's chain_virtuals =
  v_check_standalone_consensus :: "prepared_block \<Rightarrow> api_block_header \<Rightarrow> api_block_header \<Rightarrow> bool \<Rightarrow> 's \<Rightarrow> (string \<times> api_block_header) result"
  v_redo_block :: "bytes \<Rightarrow> block \<Rightarrow> api_block_header \<Rightarrow> 's \<Rightarrow> (bool \<times> 's) result"
  v_undo_block :: "bytes \<Rightarrow> block \<Rightarrow> u32 \<Rightarrow> 's \<Rightarrow> 's result"
  v_tip_changed :: "'s \<Rightarrow> 's result"
  v_on_reorganization :: "undone_map \<Rightarrow> bool \<Rightarrow> 's \<Rightarrow> 's result"

definition redo_and_index ::
  "('z) block_chain_scheme chain_virtuals \<Rightarrow> bytes \<Rightarrow> bytes \<Rightarrow> raw_block \<Rightarrow> block \<Rightarrow> api_block_header \<Rightarrow> bytes \<Rightarrow>
   ('z) block_chain_scheme \<Rightarrow> (bool \<times> ('z) block_chain_scheme) result" where
  "redo_and_index V bhash block_data raw b info base_transaction_hash s =
     bindR (v_redo_block V bhash b info s) (\<lambda>(ok, s1).
       if \<not> ok then Inr (False, s1)
       else bindR (index_block s1 block_data raw b info base_transaction_hash) (\<lambda>s2. Inr (True, s2)))"

definition undo_and_unindex ::
  "('z) block_chain_scheme chain_virtuals \<Rightarrow> bytes \<Rightarrow> block \<Rightarrow> u32 \<Rightarrow> ('z) block_chain_scheme \<Rightarrow> ('z) block_chain_scheme result" where
  "undo_and_unindex V bhash b height s = bindR (v_undo_block V bhash b height s) (\<lambda>s1. unindex_block s1 b height)"

text \<open>\<open>std::map::insert\<close> keeps an entry that is already there.\<close>

definition collect_undone :: "block \<Rightarrow> raw_block \<Rightarrow> undone_map \<Rightarrow> undone_map result" where
  "collect_undone b raw m =
     foldR (\<lambda>m i. if i < length (transaction_hashes (bl_header b)) \<and> i < length (rb_transactions raw)
                 then let tid = transaction_hashes (bl_header b) ! i
                      in Inr (if RBT.lookup m tid = None
                              then RBT.insert tid (bl_transactions b ! i, rb_transactions raw ! i) m else m)
                 else Inl OutOfRange) m [0..<length (bl_transactions b)]"

definition undo_step ::
  "('z) block_chain_scheme chain_virtuals \<Rightarrow> undone_map \<Rightarrow> ('z) block_chain_scheme \<Rightarrow> (undone_map \<times> ('z) block_chain_scheme) result" where
  "undo_step V undone s =
     bindR (read_block s (m_tip_bid s)) (\<lambda>r.
       case (case r of None \<Rightarrow> None | Some (_, raw) \<Rightarrow> (case from_raw_block raw of None \<Rightarrow> None | Some b \<Rightarrow> Some (raw, b))) of
         None \<Rightarrow> Inl (InvariantViolated ''Block to undo not found or failed to convert'')
       | Some (raw, b) \<Rightarrow>
           bindR (undo_and_unindex V (m_tip_bid s) b (m_tip_height s) s) (\<lambda>s1.
           bindR (collect_undone b raw undone) (\<lambda>undone'.
           bindR (pop_chain s1 (previous_block_hash (bl_header b))) (\<lambda>s2.
           bindR (v_tip_changed V s2) (\<lambda>s3. Inr (undone', s3))))))"

partial_function (option) undo_loop ::
  "('z) block_chain_scheme chain_virtuals \<Rightarrow> bytes \<Rightarrow> undone_map \<Rightarrow> bool \<Rightarrow> ('z) block_chain_scheme \<Rightarrow>
    (undone_map \<times> bool \<times> ('z) block_chain_scheme) result option" where
  [code]: "undo_loop V common_bid undone undone_blocks s =
     (if m_tip_bid s \<noteq> common_bid
      then (case undo_step V undone s of
              Inl e \<Rightarrow> Some (Inl e)
            | Inr us \<Rightarrow> undo_loop V common_bid (fst us) True (snd us))
      else Some (Inr (undone, undone_blocks, s)))"

definition erase_all :: "bytes list \<Rightarrow> undone_map \<Rightarrow> undone_map" where
  "erase_all tids m = foldl (\<lambda>m tid. RBT.delete tid m) m tids"

text \<open>One block of the new branch: \<open>None\<close> is a block that cannot be read or applied.\<close>

definition redo_step ::
  "('z) block_chain_scheme chain_virtuals \<Rightarrow> prepared_block \<Rightarrow> api_block_header \<Rightarrow> bytes \<Rightarrow> ('z) block_chain_scheme \<Rightarrow>
    (bytes list option \<times> ('z) block_chain_scheme) result" where
  "redo_step V recent_pb recent_info chha s =
     (if chha = prep_bid recent_pb
      then
        let b = prep_block recent_pb
        in if previous_block_hash (bl_header b) \<noteq> m_tip_bid s
           then Inl (InvariantViolated ''Unexpected block prev, invariant dead'')
           else bindR (redo_and_index V (prep_bid recent_pb) (prep_block_data recent_pb) (prep_raw_block recent_pb) b recent_info
                  (prep_base_transaction_hash recent_pb) s) (\<lambda>(ok, s1).
             if \<not> ok then Inr (None, s1)
             else bindR (push_chain (v_tip_changed V) s1 recent_info) (\<lambda>s2. Inr (Some (transaction_hashes (bl_header b)), s2)))
      else
        bindR (read_block s chha) (\<lambda>r.
          case r of
            None \<Rightarrow> Inr (None, s)
          | Some (block_data, raw) \<Rightarrow>
              (case from_raw_block raw of
                 None \<Rightarrow> Inr (None, s)
               | Some b \<Rightarrow>
                   if previous_block_hash (bl_header b) \<noteq> m_tip_bid s
                   then Inl (InvariantViolated ''Unexpected block prev, invariant dead'')
                   else
                     bindR (read_header_or_fail s chha 0) (\<lambda>info.
                     bindR (get_transaction_hash (base_tx (bl_header b))) (\<lambda>th.
                     bindR (redo_and_index V chha block_data raw b info th s) (\<lambda>(ok, s1).
                       if \<not> ok then Inr (None, s1)
                       else bindR (push_chain (v_tip_changed V) s1 info) (\<lambda>s2.
                         Inr (Some (transaction_hashes (bl_header b)), s2))))))))"

fun redo_loop ::
  "('z) block_chain_scheme chain_virtuals \<Rightarrow> prepared_block \<Rightarrow> api_block_header \<Rightarrow> bytes list \<Rightarrow> undone_map \<Rightarrow> ('z) block_chain_scheme \<Rightarrow>
    (bool \<times> undone_map \<times> ('z) block_chain_scheme) result" where
  "redo_loop V pb info [] undone s = Inr (True, undone, s)"
| "redo_loop V pb info (chha # rest) undone s =
     bindR (redo_step V pb info chha s) (\<lambda>(r, s1).
       case r of
         None \<Rightarrow> Inr (False, undone, s1)
       | Some tids \<Rightarrow> redo_loop V pb info rest (erase_all tids undone) s1)"

definition reorganize_blocks ::
  "('z) block_chain_scheme chain_virtuals \<Rightarrow> bytes \<Rightarrow> prepared_block \<Rightarrow> api_block_header \<Rightarrow> ('z) block_chain_scheme \<Rightarrow>
    (bool \<times> ('z) block_chain_scheme) result option" where
  "reorganize_blocks V switch_to_chain recent_pb recent_info s =
     (case get_common_block s (m_tip_bid s) switch_to_chain of
        None \<Rightarrow> None
      | Some (Inl e) \<Rightarrow> Some (Inl e)
      | Some (Inr (common_bid, chain1, chain2)) \<Rightarrow>
          if \<not> list_all (has_block s) chain2 then Some (Inr (False, s))
          else
            (case undo_loop V common_bid RBT.empty False s of
               None \<Rightarrow> None
             | Some (Inl e) \<Rightarrow> Some (Inl e)
             | Some (Inr (undone, undone_blocks, s1)) \<Rightarrow>
                 Some (bindR (redo_loop V recent_pb recent_info (rev chain2) undone s1) (\<lambda>(ok, undone', s2).
                       bindR (v_on_reorganization V undone' undone_blocks s2) (\<lambda>s3. Inr (ok, s3))))))"

definition COMMIT_EVERY_N_BLOCKS :: u32 where "COMMIT_EVERY_N_BLOCKS = 50000"

definition db_commit :: "('z) block_chain_scheme \<Rightarrow> ('z) block_chain_scheme" where
  "db_commit s = s\<lparr>header_cache := RBT.empty\<rparr>"

text \<open>The part of \<open>add_block\<close> inside its \<open>try\<close>: first the block is stored and counted as a child.\<close>

definition store_new_block ::
  "('z) block_chain_scheme chain_virtuals \<Rightarrow> prepared_block \<Rightarrow> bool \<Rightarrow> api_block_header \<Rightarrow> api_block_header \<Rightarrow> ('z) block_chain_scheme \<Rightarrow>
    ('z) block_chain_scheme result" where
  "store_new_block V pb have_block info prev_info s =
     bindR (if have_block then Inr s else store_block s (prep_bid pb) (prep_block_data pb)) (\<lambda>s1.
     bindR (store_header s1 (prep_bid pb) info) (\<lambda>s2.
     bindR (if prep_bid pb = m_genesis_bid s
            then bindR (redo_and_index V (prep_bid pb) (prep_block_data pb) (prep_raw_block pb) (prep_block pb) info
                   (prep_base_transaction_hash pb) s2) (\<lambda>(ok, s3).
                 if \<not> ok then Inl (InvariantViolated ''Failed to apply genesis block'')
                 else push_chain (v_tip_changed V) s3 info)
            else modify_children_counter s2 (hd_cumulative_difficulty prev_info) (previous_block_hash (bl_header (prep_block pb))) 1) (\<lambda>s4.
     bindR (check_children_counter s4 (hd_cumulative_difficulty info) (prep_bid pb) 1) (\<lambda>_.
       modify_children_counter s4 (hd_cumulative_difficulty info) (prep_bid pb) (- 1)))))"

text \<open>Then the tip moves when the block has more cumulative difficulty; \<open>False\<close> is the early return \<open>BAN\<close>.\<close>

definition move_tip ::
  "('z) block_chain_scheme chain_virtuals \<Rightarrow> prepared_block \<Rightarrow> api_block_header \<Rightarrow> ('z) block_chain_scheme \<Rightarrow>
    (bool \<times> ('z) block_chain_scheme) result option" where
  "move_tip V pb info s =
     (if m_tip_cumulative_difficulty s < hd_cumulative_difficulty info
      then (if m_tip_bid s = previous_block_hash (bl_header (prep_block pb))
            then Some (bindR (redo_and_index V (prep_bid pb) (prep_block_data pb) (prep_raw_block pb) (prep_block pb) info
                   (prep_base_transaction_hash pb) s) (\<lambda>(ok, s1).
                 if \<not> ok then Inr (False, s1)
                 else bindR (push_chain (v_tip_changed V) s1 info) (\<lambda>s2. Inr (True, s2))))
            else (case reorganize_blocks V (prep_bid pb) pb info s of
                    None \<Rightarrow> None
                  | Some r \<Rightarrow> Some (bindR r (\<lambda>(_, s1). Inr (True, s1)))))
      else Some (Inr (True, s)))"

definition new_header :: "prepared_block \<Rightarrow> api_block_header \<Rightarrow> api_block_header \<Rightarrow> api_block_header" where
  "new_header pb info0 prev_info =
     (let h = bl_header (prep_block pb)
      in info0\<lparr>hd_major_version := major_version h, hd_minor_version := minor_version h, hd_timestamp := timestamp h,
           hd_previous_block_hash := previous_block_hash h, hd_nonce := nonce h, hd_hash := prep_bid pb,
           hd_height := hd_height prev_info + 1\<rparr>)"

definition add_block ::
  "('z) block_chain_scheme chain_virtuals \<Rightarrow> prepared_block \<Rightarrow> ('z) block_chain_scheme \<Rightarrow>
    (broadcast_action \<times> api_block_header \<times> ('z) block_chain_scheme) result option" where
  "add_block V pb s =
     (case read_header s (prep_bid pb) 0 of
        Inl e \<Rightarrow> Some (Inl e)
      | Inr hdr \<Rightarrow>
          let have_header = (hdr \<noteq> None); have_block = has_block s (prep_bid pb);
              info0 = (case hdr of None \<Rightarrow> empty_api_header | Some h \<Rightarrow> h)
          in if have_block \<and> have_header then Some (Inr (NOTHING, info0, s))
             else
               (case (if prep_bid pb \<noteq> m_genesis_bid s
                      then read_header s (previous_block_hash (bl_header (prep_block pb))) 0
                      else Inr (Some (empty_api_header\<lparr>hd_height := - 1\<rparr>))) of
                  Inl e \<Rightarrow> Some (Inl e)
                | Inr None \<Rightarrow> Some (Inr (NOTHING, info0, s))
                | Inr (Some prev_info) \<Rightarrow>
                    (case v_check_standalone_consensus V pb (new_header pb info0 prev_info) prev_info True s of
                       Inl e \<Rightarrow> Some (Inl e)
                     | Inr (check_error, info) \<Rightarrow>
                         if check_error \<noteq> [] then Some (Inr (BAN, info, s))
                         else
                           (case store_new_block V pb have_block info prev_info s of
                              Inl e \<Rightarrow> Some (Inl e)
                            | Inr s1 \<Rightarrow>
                                (case move_tip V pb info s1 of
                                   None \<Rightarrow> None
                                 | Some (Inl e) \<Rightarrow> Some (Inl e)
                                 | Some (Inr (applied, s2)) \<Rightarrow>
                                     if \<not> applied then Some (Inr (BAN, info, s2))
                                     else
                                       let s3 = (if m_tip_height s2 mod COMMIT_EVERY_N_BLOCKS = COMMIT_EVERY_N_BLOCKS - 1
                                                 then db_commit s2 else s2)
                                       in Some (Inr (if hd_hash info = m_tip_bid s3 then BROADCAST_ALL else NOTHING, info, s3)))))))"

section \<open>Codecs\<close>

definition header_ok :: "api_block_header \<Rightarrow> bool" where
  "header_ok h \<longleftrightarrow> length (hd_previous_block_hash h) = 32 \<and> length (hd_hash h) = 32"

interpretation cheader: canonical_codec write_api_header read_api_header header_ok
proof
  fix v rest assume "header_ok v"
  then show "read_api_header (write_api_header v @ rest) = Inr (v, rest)"
    by (simp add: read_api_header_def write_api_header_def header_ok_def part_codec_simps)
next
  fix bs v rest assume "read_api_header bs = Inr (v, rest)"
  then show "bs = write_api_header v @ rest \<and> header_ok v"
    by (auto simp: read_api_header_def write_api_header_def header_ok_def bindR_eq_Inr_iff dest!: part_codec_dests)
qed

interpretation cpos: canonical_codec write_transaction_pos read_transaction_pos "\<lambda>_. True"
  by unfold_locales
    (auto simp: read_transaction_pos_def write_transaction_pos_def bindR_eq_Inr_iff part_codec_simps dest!: part_codec_dests)

interpretation ctxs: canonical_codec "write_container write_binary_array" "read_container read_binary_array"
  "\<lambda>xs. length xs < 2 ^ 64 \<and> list_all (\<lambda>x. length x < 2 ^ 64) xs"
  by (rule barray.container_canonical)

interpretation craw: canonical_codec write_raw_block read_raw_block
  "\<lambda>r. length (rb_block r) < 2 ^ 64 \<and> length (rb_transactions r) < 2 ^ 64 \<and> list_all (\<lambda>x. length x < 2 ^ 64) (rb_transactions r)"
  by unfold_locales
    (auto simp: read_raw_block_def write_raw_block_def bindR_eq_Inr_iff barray.dec_enc ctxs.dec_enc
      dest!: barray.enc_dec ctxs.enc_dec)

lemma write_u8_ne [simp]: "write_u8 v \<noteq> []"
  by (simp add: write_u8_def write_varint_stream_def write_varint.simps[of "ucast v"])

lemma write_u32_ne [simp]: "write_u32 v \<noteq> []"
  by (simp add: write_u32_def write_varint_stream_def write_varint.simps[of "ucast v"])

lemma write_u64_ne [simp]: "write_u64 v \<noteq> []"
  by (simp add: write_u64_def write_varint_stream_def write_varint.simps[of v])

lemma write_api_header_ne [simp]: "write_api_header h \<noteq> []"
  by (simp add: write_api_header_def)

section \<open>Searching for a transaction in the block data\<close>

lemma length_takeWhile_le_index:
  assumes "i < length xs" and "\<not> P (xs ! i)"
  shows "length (takeWhile P xs) \<le> i"
proof (rule ccontr)
  assume "\<not> length (takeWhile P xs) \<le> i"
  then have i: "i < length (takeWhile P xs)" by simp
  then have "takeWhile P xs ! i \<in> set (takeWhile P xs)" by (rule nth_mem)
  then have "P (takeWhile P xs ! i)" by (auto dest: set_takeWhileD)
  then show False using assms(2) i by (simp add: takeWhile_nth)
qed

lemma slow_memmem_loop_finds:
  assumes "pat \<noteq> []" and "length buf \<le> buflen" and "take (length pat) (drop i buf) = pat"
  shows "\<exists>k. slow_memmem_loop pos buf buflen pat = Inr (Some (pos + k)) \<and> k \<le> i \<and> take (length pat) (drop k buf) = pat"
  using assms
proof (induction pos buf buflen pat arbitrary: i rule: slow_memmem_loop.induct)
  case (1 pos buf buflen pat)
  define k where "k = length (takeWhile (\<lambda>b. b \<noteq> hd pat) (take buflen buf))"
  have tb: "take buflen buf = buf" using 1(3) by simp
  have lp: "0 < length pat" using 1(2) by simp
  have "length (take (length pat) (drop i buf)) = length pat" using 1(4) by simp
  then have "length pat \<le> length buf - i" by simp
  then have len: "i + length pat \<le> length buf" "i < length buf" using lp by linarith+
  have "take (length pat) (drop i buf) = buf ! i # take (length pat - 1) (drop (Suc i) buf)"
    using lp len(2) by (simp add: take_Cons' Cons_nth_drop_Suc[symmetric])
  then have "buf ! i = hd pat" using 1(4) by (metis list.sel(1))
  then have ki: "k \<le> i" unfolding k_def tb using len(2) by (intro length_takeWhile_le_index) auto
  have conds: "buflen \<noteq> 0" "k \<noteq> length (take buflen buf)" "\<not> buflen < k + length pat" "\<not> length buf < k + length pat"
    using len ki 1(3) tb by auto
  have unf: "slow_memmem_loop pos buf buflen pat =
      (if take (length pat) (drop k buf) = pat then Inr (Some (pos + k))
       else slow_memmem_loop (pos + k + 1) (drop (k + 1) buf) (buflen - k) pat)"
    by (subst slow_memmem_loop.simps) (simp only: Let_def k_def[symmetric] conds if_False simp_thms)
  show ?case
  proof (cases "take (length pat) (drop k buf) = pat")
    case True
    then show ?thesis using ki unf by auto
  next
    case False
    then have lt: "k < i" using ki 1(4) by (cases "k = i") auto
    have d: "take (length pat) (drop (i - (k + 1)) (drop (k + 1) buf)) = pat" using lt 1(4) by simp
    have l: "length (drop (k + 1) buf) \<le> buflen - k" using 1(3) by simp
    obtain j where "slow_memmem_loop (pos + k + 1) (drop (k + 1) buf) (buflen - k) pat = Inr (Some (pos + k + 1 + j))"
        "j \<le> i - (k + 1)" "take (length pat) (drop j (drop (k + 1) buf)) = pat"
      using 1(1)[OF conds(1) k_def conds(2-4) False 1(2) l d] by blast
    then show ?thesis using unf False lt by (intro exI[of _ "k + 1 + j"]) (auto simp: add.commute add.left_commute)
  qed
qed

lemma slow_memmem_finds:
  assumes "pat \<noteq> []" and "buf = xs @ pat @ ys"
  shows "\<exists>k. slow_memmem buf pat = Inr (Some k) \<and> k \<le> length xs \<and> take (length pat) (drop k buf) = pat"
  using slow_memmem_loop_finds[of pat buf "length buf" "length xs" 0] assms by (auto simp: slow_memmem_def)

section \<open>The header cache\<close>

definition cache_ok :: "('z) block_chain_scheme \<Rightarrow> bool" where
  "cache_ok s \<longleftrightarrow> (\<forall>bid h. RBT.lookup (header_cache s) bid = Some h \<longrightarrow>
     header_ok h \<and> db_get (m_db s) (header_key bid) = Some (write_api_header h))"

definition stored_header :: "('z) block_chain_scheme \<Rightarrow> bytes \<Rightarrow> api_block_header option result" where
  "stored_header s bid =
     (case db_get (m_db s) (header_key bid) of
        None \<Rightarrow> Inr None | Some rb \<Rightarrow> bindR (from_binary read_api_header rb) (\<lambda>h. Inr (Some h)))"

lemma read_header_db_stored: "cache_ok s \<Longrightarrow> read_header_db s bid = stored_header s bid"
  by (auto simp: read_header_db_def stored_header_def cache_ok_def from_binary_Inr cheader.dec_enc_nil
      split: option.splits) (metis bindR_simps(2) cheader.dec_enc_nil from_binary_Inr)

lemma remember_header_cache:
  assumes "cache_ok s" and "remember_header s bid = Inr s'"
  shows "cache_ok s' \<and> (\<exists>c. s' = s\<lparr>header_cache := c\<rparr>)"
proof (cases "RBT.lookup (header_cache s) bid")
  case None
  define cache where "cache = (if unat (largest_window s * 10) < length (RBT.entries (header_cache s)) then RBT.empty else header_cache s)"
  have c: "RBT.lookup cache b = Some h \<Longrightarrow> header_ok h \<and> db_get (m_db s) (header_key b) = Some (write_api_header h)" for b h
    using assms(1) by (auto simp: cache_def cache_ok_def split: if_splits)
  show ?thesis
  proof (cases "db_get (m_db s) (header_key bid)")
    case n: None
    then show ?thesis using assms(2) None c by (auto simp: remember_header_def Let_def cache_def[symmetric] cache_ok_def)
  next
    case (Some rb)
    then obtain h where h: "from_binary read_api_header rb = Inr h" "s' = s\<lparr>header_cache := RBT.insert bid h cache\<rparr>"
      using assms(2) None by (auto simp: remember_header_def Let_def cache_def[symmetric] bindR_eq_Inr_iff)
    then have "rb = write_api_header h" "header_ok h" by (auto simp: from_binary_Inr dest: cheader.enc_dec)
    then show ?thesis using h(2) c Some by (auto simp: cache_ok_def)
  qed
qed (use assms in \<open>auto simp: remember_header_def intro: exI[of _ "header_cache s"]\<close>)

end
