(* ===== verification/ChainTree.thy ===== *)
theory ChainTree
  imports BlockChain
begin

text \<open>
  Properties of the block tree and the main chain of \<open>src/src/Core/BlockChain.cpp\<close>. The locale \<open>header_tree\<close> states
  what the walks rely on: headers link to headers one lower, and only one block has height zero. From it follow the heights of
  ancestors and that two blocks have a highest common ancestor. Its interpretation on the stored headers
  gives the correctness of \<open>get_common_block\<close>; the index of the main chain agrees with the ancestors of the
  tip, and \<open>push_chain\<close> and \<open>pop_chain\<close> keep it so.
\<close>

section \<open>Trees of headers\<close>

definition up :: "(bytes \<Rightarrow> api_block_header option) \<Rightarrow> bytes \<Rightarrow> bytes" where
  "up hdr b = hd_previous_block_hash (the (hdr b))"

definition anc :: "(bytes \<Rightarrow> api_block_header option) \<Rightarrow> nat \<Rightarrow> bytes \<Rightarrow> bytes" where
  "anc hdr n b = (up hdr ^^ n) b"

definition level :: "(bytes \<Rightarrow> api_block_header option) \<Rightarrow> bytes \<Rightarrow> nat" where
  "level hdr b = unat (hd_height (the (hdr b)))"

lemma anc_0 [simp]: "anc s 0 b = b"
  by (simp add: anc_def)

lemma anc_Suc: "anc s (Suc n) b = up s (anc s n b)"
  by (simp add: anc_def)

lemma anc_up: "anc s n (up s b) = anc s (Suc n) b"
  by (simp add: anc_def funpow_swap1)

lemma anc_anc: "anc s m (anc s n b) = anc s (m + n) b"
  by (simp add: anc_def funpow_add)

lemma unat_ucast_u32: "unat (ucast (w :: u32) :: u64) = unat w"
  by (rule unat_ucast_less) (rule less_trans[OF u32_less], simp)

lemma unat_Suc_u32: "(x :: u32) + 1 \<noteq> 0 \<Longrightarrow> unat (x + 1) = Suc (unat x)"
proof -
  assume a: "x + 1 \<noteq> 0"
  have "unat (x + 1) = (unat x + 1) mod 4294967296" by (simp add: unat_word_ariths)
  moreover have "unat x + 1 \<noteq> 4294967296" using a calculation by (metis mod_self unsigned_eq_0_iff)
  moreover have "unat x + 1 \<le> 4294967296" using u32_less[of x] by linarith
  ultimately show ?thesis by simp
qed

locale header_tree =
  fixes inv :: "'s \<Rightarrow> bool"
    and hdr :: "'s \<Rightarrow> bytes \<Rightarrow> api_block_header option"
  assumes linked: "inv s \<Longrightarrow> hdr s b = Some h \<Longrightarrow> hd_height h \<noteq> 0 \<Longrightarrow>
      \<exists>h'. hdr s (hd_previous_block_hash h) = Some h' \<and> hd_height h = hd_height h' + 1"
    and root: "inv s \<Longrightarrow> hdr s b = Some h \<Longrightarrow> hdr s b' = Some h' \<Longrightarrow> hd_height h = 0 \<Longrightarrow> hd_height h' = 0 \<Longrightarrow> b = b'"
begin

lemma up_exists:
  assumes "inv s" and "hdr s b = Some h" and "hd_height h \<noteq> 0"
  shows "\<exists>h'. hdr s (up (hdr s) b) = Some h' \<and> unat (hd_height h) = Suc (unat (hd_height h'))"
proof -
  obtain h' where h': "hdr s (hd_previous_block_hash h) = Some h'" "hd_height h = hd_height h' + 1"
    using linked[OF assms] by blast
  then have "unat (hd_height h) = Suc (unat (hd_height h'))" using assms(3) unat_Suc_u32[of "hd_height h'"] by simp
  then show ?thesis using h'(1) assms(2) by (auto simp: up_def)
qed

lemma level_up: "inv s \<Longrightarrow> hdr s b = Some h \<Longrightarrow> level (hdr s) b \<noteq> 0 \<Longrightarrow> hdr s (up (hdr s) b) \<noteq> None \<and> level (hdr s) b = Suc (level (hdr s) (up (hdr s) b))"
  using up_exists[of s b h] by (auto simp: level_def unsigned_eq_0_iff)

lemma anc_level:
  "inv s \<Longrightarrow> hdr s b \<noteq> None \<Longrightarrow> n \<le> level (hdr s) b \<Longrightarrow> hdr s (anc (hdr s) n b) \<noteq> None \<and> level (hdr s) (anc (hdr s) n b) = level (hdr s) b - n"
proof (induction n)
  case (Suc n)
  then have "hdr s (anc (hdr s) n b) \<noteq> None" "level (hdr s) (anc (hdr s) n b) = level (hdr s) b - n" by simp_all
  then show ?case using level_up[OF Suc.prems(1), of "anc (hdr s) n b"] Suc.prems(3) by (auto simp: anc_Suc)
qed simp

lemma same_root:
  "inv s \<Longrightarrow> hdr s a \<noteq> None \<Longrightarrow> hdr s b \<noteq> None \<Longrightarrow> level (hdr s) a = 0 \<Longrightarrow> level (hdr s) b = 0 \<Longrightarrow> a = b"
  using root[of s a _ b] by (auto simp: level_def unsigned_eq_0_iff)

text \<open>Two blocks on one level meet; the least number of steps to the meeting point.\<close>

lemma meet:
  assumes "inv s" and "hdr s a \<noteq> None" and "hdr s b \<noteq> None" and "level (hdr s) a = level (hdr s) b"
  shows "\<exists>n \<le> level (hdr s) a. anc (hdr s) n a = anc (hdr s) n b \<and> (\<forall>m < n. anc (hdr s) m a \<noteq> anc (hdr s) m b)"
proof -
  have "anc (hdr s) (level (hdr s) a) a = anc (hdr s) (level (hdr s) a) b"
    using anc_level[OF assms(1,2), of "level (hdr s) a"] anc_level[OF assms(1,3), of "level (hdr s) a"] assms(4)
    by (intro same_root[OF assms(1)]) auto
  then show ?thesis
    using exists_least_iff[of "\<lambda>n. anc (hdr s) n a = anc (hdr s) n b"] by (metis (no_types, lifting) linorder_not_le)
qed

end

section \<open>The stored headers are a tree\<close>

definition header_of :: "('z) block_chain_scheme \<Rightarrow> bytes \<Rightarrow> api_block_header option" where
  "header_of s b = (case stored_header s b of Inr r \<Rightarrow> r | Inl _ \<Rightarrow> None)"

definition tip_window_ok :: "('z) block_chain_scheme \<Rightarrow> bool" where
  "tip_window_ok s \<longleftrightarrow> length (m_header_tip_window s) < 2 ^ 32 \<and>
     (\<forall>h \<in> set (m_header_tip_window s). stored_header s (hd_hash h) = Inr (Some h))"

definition tree_ok :: "('z) block_chain_scheme \<Rightarrow> bool" where
  "tree_ok s \<longleftrightarrow> cache_ok s \<and> tip_window_ok s \<and>
     (\<forall>b h. header_of s b = Some h \<longrightarrow> hd_hash h = b \<and> (hd_height h = 0 \<longrightarrow> b = m_genesis_bid s) \<and>
       (hd_height h \<noteq> 0 \<longrightarrow> (\<exists>h'. header_of s (hd_previous_block_hash h) = Some h' \<and> hd_height h = hd_height h' + 1)))"

interpretation ht: header_tree tree_ok header_of
proof
  fix s :: "'z block_chain_scheme" and b h b' h'
  assume "tree_ok s" "header_of s b = Some h" "header_of s b' = Some h'" "hd_height h = 0" "hd_height h' = 0"
  then have "b = m_genesis_bid s" "b' = m_genesis_bid s" unfolding tree_ok_def by blast+
  then show "b = b'" by simp
qed (auto simp: tree_ok_def)

lemma window_candidate_total:
  assumes "length (m_header_tip_window s) < 2 ^ 32"
  shows "\<exists>c. window_candidate s hint = Inr c \<and> (\<forall>h. c = Some h \<longrightarrow> h \<in> set (m_header_tip_window s))"
proof -
  define L where "L = length (m_header_tip_window s)"
  define n where "n = (word_of_nat L :: u64)"
  define tip where "tip = m_tip_height s"
  have un: "unat n = L" using assms by (simp add: n_def L_def unat_of_nat)
  show ?thesis
  proof (cases "tip \<noteq> - 1 \<and> hint \<le> tip \<and> ucast tip - n + 1 \<le> (ucast hint :: u64)")
    case True
    have ht: "unat hint \<le> unat tip" using True by (simp add: word_le_nat_alt)
    have ut: "unat (ucast tip :: u64) = unat tip" "unat (ucast hint :: u64) = unat hint"
      by (simp_all add: unat_ucast_u32)
    have th: "unat (tip - hint) = unat tip - unat hint" using True by (simp add: unat_sub)
    have L: "0 < L \<and> unat tip - unat hint \<le> L - 1"
    proof (cases "L \<le> unat tip + 1")
      case L1: True
      have "unat (ucast tip - n + 1) = unat tip + 1 - L"
      proof -
        have e: "ucast tip - n + 1 = ucast tip + 1 - n" by (simp add: algebra_simps)
        have "unat (ucast tip + 1 :: u64) = unat tip + 1" using ut u32_less[of tip] by (simp add: unat_word_ariths del: u32_less)
        then show ?thesis unfolding e using L1 un by (subst unat_sub) (simp_all add: word_le_nat_alt)
      qed
      then show ?thesis using True L1 ut ht by (auto simp: word_le_nat_alt)
    next
      case False
      then show ?thesis using ht by linarith
    qed
    have n1: "unat (n - 1) = L - 1" using L un by (subst unat_sub) (simp_all add: word_le_nat_alt)
    have "unat (ucast (tip - hint) :: u64) = unat tip - unat hint"
      using th by (simp add: unat_ucast_u32)
    then have i: "unat (n - 1 - ucast (tip - hint)) < L"
      using L n1 by (subst unat_sub) (simp_all add: word_le_nat_alt)
    then show ?thesis
      using True by (simp add: window_candidate_def Let_def n_def[symmetric] L_def[symmetric] tip_def[symmetric])
  next
    case False
    then show ?thesis by (auto simp: window_candidate_def Let_def n_def L_def tip_def)
  qed
qed

lemma read_header_stored:
  assumes "cache_ok s" and "tip_window_ok s"
  shows "read_header s b hint = stored_header s b"
proof -
  obtain c where c: "window_candidate s hint = Inr c" "\<forall>h. c = Some h \<longrightarrow> h \<in> set (m_header_tip_window s)"
    using window_candidate_total[of s hint] assms(2) by (auto simp: tip_window_ok_def)
  then show ?thesis
    using assms read_header_db_stored[OF assms(1), of b]
    by (cases c) (auto simp: read_header_def tip_window_ok_def)
qed

lemma read_header_or_fail_tree:
  assumes "tree_ok s" and "header_of s b = Some h"
  shows "read_header_or_fail s b hint = Inr h"
proof -
  have "stored_header s b = Inr (Some h)" using assms(2) by (auto simp: header_of_def split: sum.splits)
  then show ?thesis
    using assms(1) read_header_stored[of s b hint] by (simp add: read_header_or_fail_def tree_ok_def)
qed

section \<open>The common block of two branches\<close>

definition path :: "(bytes \<Rightarrow> api_block_header option) \<Rightarrow> bytes \<Rightarrow> nat \<Rightarrow> bytes list" where
  "path hdr b n = map (\<lambda>i. anc hdr i b) [0..<n]"

lemma path_Suc: "path hdr b (Suc n) = b # path hdr (up hdr b) n"
  by (simp add: path_def upt_conv_Cons map_Suc_upt[symmetric] anc_up del: upt_Suc)

lemma path_append: "path hdr b (m + n) = path hdr b m @ path hdr (anc hdr m b) n"
  by (induction m arbitrary: b) (simp_all add: path_Suc anc_up path_def[of _ _ 0])

lemma walk_down_tree:
  assumes "tree_ok s" and "header_of s b = Some h" and "target \<le> hd_height h"
  shows "\<exists>h'. walk_down s target b h chain =
      Some (Inr (anc (header_of s) (level (header_of s) b - unat target) b, h',
        chain @ path (header_of s) b (level (header_of s) b - unat target))) \<and>
    header_of s (anc (header_of s) (level (header_of s) b - unat target) b) = Some h' \<and> hd_height h' = target"
  using assms(2,3)
proof (induction "level (header_of s) b - unat target" arbitrary: b h chain)
  case 0
  then have "hd_height h = target" by (simp add: level_def word_le_nat_alt word_unat_eq_iff)
  then show ?case using 0 by (simp add: walk_down.simps path_def level_def)
next
  case (Suc n)
  have gt: "target < hd_height h" using Suc(2,3) by (simp add: level_def word_less_nat_alt)
  then obtain h1 where h1: "header_of s (up (header_of s) b) = Some h1" "unat (hd_height h) = Suc (unat (hd_height h1))"
    using ht.up_exists[OF assms(1) Suc(3)] by fastforce
  have lv: "level (header_of s) b = Suc (level (header_of s) (up (header_of s) b))"
    using Suc(3) h1 by (simp add: level_def)
  have u: "up (header_of s) b = hd_previous_block_hash h" using Suc(3) by (simp add: up_def)
  have n: "n = level (header_of s) (up (header_of s) b) - unat target" using Suc(2) lv by simp
  have "target \<le> hd_height h1" using gt h1(2) by (simp add: word_le_nat_alt word_less_nat_alt)
  note IH = Suc(1)[OF n h1(1) this, of "chain @ [b]"]
  have "walk_down s target b h chain = walk_down s target (up (header_of s) b) h1 (chain @ [b])"
    using gt read_header_or_fail_tree[OF assms(1) h1(1), of 0] by (subst walk_down.simps) (simp add: u)
  then show ?case using IH unfolding Suc(2)[symmetric] n[symmetric] by (simp add: path_Suc anc_up)
qed

lemma walk_both_tree:
  assumes "tree_ok s" and "header_of s a = Some ha" and "header_of s b = Some hb" and "hd_height ha = hd_height hb"
    and "anc (header_of s) n a = anc (header_of s) n b" and "\<forall>m < n. anc (header_of s) m a \<noteq> anc (header_of s) m b"
    and "n \<le> level (header_of s) a"
  shows "walk_both s a ha c1 b hb c2 =
    Some (Inr (anc (header_of s) n a, c1 @ path (header_of s) a n, c2 @ path (header_of s) b n))"
  using assms(2-7)
proof (induction n arbitrary: a ha b hb c1 c2)
  case 0
  then show ?case by (simp add: walk_both.simps path_def)
next
  case (Suc n)
  have ne: "a \<noteq> b" using Suc.prems(5) by (metis anc_0 zero_less_Suc)
  have "hd_height ha \<noteq> 0" "hd_height hb \<noteq> 0" using Suc.prems(1-3,6) by (auto simp: level_def)
  then obtain ha' hb' where up: "header_of s (up (header_of s) a) = Some ha'" "unat (hd_height ha) = Suc (unat (hd_height ha'))"
      "header_of s (up (header_of s) b) = Some hb'" "unat (hd_height hb) = Suc (unat (hd_height hb'))"
    using ht.up_exists[OF assms(1) Suc.prems(1)] ht.up_exists[OF assms(1) Suc.prems(2)] by blast
  have u: "up (header_of s) a = hd_previous_block_hash ha" "up (header_of s) b = hd_previous_block_hash hb"
    using Suc.prems(1,2) by (simp_all add: up_def)
  have "walk_both s a ha c1 b hb c2 = walk_both s (up (header_of s) a) ha' (c1 @ [a]) (up (header_of s) b) hb' (c2 @ [b])"
    using ne read_header_or_fail_tree[OF assms(1) up(1), of 0] read_header_or_fail_tree[OF assms(1) up(3), of 0]
    by (subst walk_both.simps) (simp add: u)
  also have "\<dots> = Some (Inr (anc (header_of s) n (up (header_of s) a), (c1 @ [a]) @ path (header_of s) (up (header_of s) a) n,
      (c2 @ [b]) @ path (header_of s) (up (header_of s) b) n))"
  proof (rule Suc.IH[OF up(1) up(3)])
    show "hd_height ha' = hd_height hb'" using up(2,4) Suc.prems(3) by (simp add: word_unat_eq_iff)
    show "\<forall>m < n. anc (header_of s) m (up (header_of s) a) \<noteq> anc (header_of s) m (up (header_of s) b)"
      using Suc.prems(5) by (simp add: anc_up)
    show "n \<le> level (header_of s) (up (header_of s) a)" using Suc.prems(1,6) up(1,2) by (simp add: level_def)
  qed (simp add: anc_up Suc.prems(4))
  finally show ?case by (simp add: path_Suc anc_up)
qed

lemma walk_down_any:
  assumes "tree_ok s" and "header_of s b = Some h"
  shows "\<exists>h'. walk_down s target b h [] =
      Some (Inr (anc (header_of s) (level (header_of s) b - unat target) b, h',
        path (header_of s) b (level (header_of s) b - unat target))) \<and>
    header_of s (anc (header_of s) (level (header_of s) b - unat target) b) = Some h' \<and> hd_height h' = min target (hd_height h)"
proof (cases "target \<le> hd_height h")
  case True
  then show ?thesis using walk_down_tree[OF assms True, of "[]"] by (simp add: min_def)
next
  case False
  then have "level (header_of s) b - unat target = 0" using assms(2) by (simp add: level_def word_le_nat_alt)
  moreover have "\<not> target < hd_height h" using False by simp
  ultimately show ?thesis using False assms(2) by (simp add: walk_down.simps path_def min_def)
qed

lemma get_common_block_tree:
  assumes t: "tree_ok s" and a: "header_of s a = Some ha" and b: "header_of s b = Some hb"
  defines "H \<equiv> header_of s"
  shows "\<exists>m n. get_common_block s a b = Some (Inr (anc H m a, path H a m, path H b n)) \<and> anc H m a = anc H n b \<and>
    m \<le> level H a \<and> n \<le> level H b \<and>
    (\<forall>i \<le> level H a. \<forall>j \<le> level H b. anc H i a = anc H j b \<longrightarrow> m \<le> i \<and> n \<le> j)"
proof -
  define ta tb where d: "ta = level H a - level H b" "tb = level H b - level H a"
  define a' b' where d': "a' = anc H ta a" "b' = anc H tb b"
  have la: "level H a = unat (hd_height ha)" "level H b = unat (hd_height hb)" using a b by (simp_all add: H_def level_def)
  obtain ha' where wa: "walk_down s (hd_height hb) a ha [] = Some (Inr (a', ha', path H a ta))" "H a' = Some ha'"
      "hd_height ha' = min (hd_height hb) (hd_height ha)"
    using walk_down_any[OF t a, of "hd_height hb"]
    unfolding H_def[symmetric] la(2)[symmetric] d(1)[symmetric] d'(1)[symmetric] by blast
  have um: "unat (hd_height ha') = min (level H a) (level H b)" using wa(3) la by (auto simp: min_def word_le_nat_alt)
  have tb: "level H b - unat (hd_height ha') = tb" by (auto simp: um d)
  obtain hb' where wb: "walk_down s (hd_height ha') b hb [] = Some (Inr (b', hb', path H b tb))" "H b' = Some hb'"
      "hd_height hb' = min (hd_height ha') (hd_height hb)"
    using walk_down_any[OF t b, of "hd_height ha'"] unfolding H_def[symmetric] tb d'(2)[symmetric] by blast
  have hh: "hd_height ha' = hd_height hb'" using wa(3) wb(3) by (auto simp: min_def)
  obtain n where n: "n \<le> level H a'" "anc H n a' = anc H n b'" "\<forall>m < n. anc H m a' \<noteq> anc H m b'"
    using ht.meet[OF t, of a' b'] wa(2) wb(2) hh by (auto simp: H_def level_def)
  have "get_common_block s a b = walk_both s a' ha' (path H a ta) b' hb' (path H b tb)"
    using read_header_or_fail_tree[OF t a, of 0] read_header_or_fail_tree[OF t b, of 0] wa(1) wb(1)
    by (simp add: get_common_block_def)
  also have "\<dots> = Some (Inr (anc H n a', path H a ta @ path H a' n, path H b tb @ path H b' n))"
    using walk_both_tree[OF t, of a' ha' b' hb' n] wa(2) wb(2) hh n by (simp add: H_def)
  finally have g: "get_common_block s a b = Some (Inr (anc H (ta + n) a, path H a (ta + n), path H b (tb + n)))"
    unfolding path_append d' anc_anc by (simp add: add.commute[of n])
  have meet: "anc H (ta + n) a = anc H (tb + n) b" using n(2) by (simp add: d' anc_anc add.commute)
  have l': "level H a' = min (level H a) (level H b)" using wa(2) um by (simp add: level_def)
  have "ta + n \<le> i \<and> tb + n \<le> j" if ij: "i \<le> level H a" "j \<le> level H b" "anc H i a = anc H j b" for i j
  proof -
    have "level H a - i = level H b - j"
      using ht.anc_level[OF t, of a i] ht.anc_level[OF t, of b j] a b ij unfolding H_def by simp
    then have i: "i = ta + (i - ta)" "j = tb + (i - ta)" using ij(1,2) unfolding d by linarith+
    have "anc H (i - ta) a' = anc H (i - ta) b'"
      using ij(3) i unfolding d' anc_anc by (metis add.commute)
    then have "n \<le> i - ta" using n(3) by (meson not_less)
    then show ?thesis using i by linarith
  qed
  moreover have "ta + n \<le> level H a" "tb + n \<le> level H b" using n(1) l' unfolding d by linarith+
  ultimately show ?thesis using g meet by blast
qed

section \<open>The index of the main chain\<close>

definition main_chain_ok :: "('z) block_chain_scheme \<Rightarrow> bool" where
  "main_chain_ok s \<longleftrightarrow>
     (\<exists>h. header_of s (m_tip_bid s) = Some h \<and> hd_height h = m_tip_height s \<and>
        hd_cumulative_difficulty h = m_tip_cumulative_difficulty s) \<and>
     (\<forall>k \<le> m_tip_height s. read_chain s k =
        Inr (Some (anc (header_of s) (unat (m_tip_height s) - unat k) (m_tip_bid s)))) \<and>
     (\<forall>k > m_tip_height s. RBT.lookup (m_db s) (chain_key k) = None)"

definition tip_window_recent :: "('z) block_chain_scheme \<Rightarrow> bool" where
  "tip_window_recent s \<longleftrightarrow> m_header_tip_window s \<noteq> [] \<and> length (m_header_tip_window s) \<le> unat (m_tip_height s) + 1 \<and>
     (\<forall>i < length (m_header_tip_window s). header_of s (anc (header_of s) i (m_tip_bid s)) = Some (rev (m_header_tip_window s) ! i))"

definition chain_ok :: "('z) block_chain_scheme \<Rightarrow> bool" where
  "chain_ok s \<longleftrightarrow> tree_ok s \<and> main_chain_ok s \<and> tip_window_recent s \<and> (\<exists>testnet g cps. m_currency s = mk_currency testnet g cps)"

lemma chain_key_eq [simp]: "chain_key k = chain_key k' \<longleftrightarrow> k = k'"
proof
  assume "chain_key k = chain_key k'"
  then have "(ucast k :: u64) = ucast k'" by (simp add: chain_key_def sqlite4.enc_inject)
  then show "k = k'" by (metis unat_ucast_u32 word_unat_eq_iff)
qed simp

lemma chain_key_header [simp]: "chain_key k \<noteq> header_key b" "header_key b \<noteq> chain_key k"
  by (simp_all add: chain_key_def header_key_def TIP_CHAIN_PREFIX_def)

lemma stored_header_cong: "(\<And>b. db_get (m_db s') (header_key b) = db_get (m_db s) (header_key b)) \<Longrightarrow> stored_header s' = stored_header s"
  by (auto simp: stored_header_def fun_eq_iff)

lemma header_of_length: "header_of s b = Some h \<Longrightarrow> header_ok h"
  by (auto simp: header_of_def stored_header_def bindR_eq_Inr_iff from_binary_Inr split: sum.splits option.splits
      dest!: cheader.enc_dec)

lemma largest_window_bounds:
  assumes "\<exists>testnet g cps. m_currency s = mk_currency testnet g cps"
  shows "0 < unat (largest_window s * 2)"
proof -
  obtain testnet g cps where c: "m_currency s = mk_currency testnet g cps" using assms by blast
  have "largest_window s \<in> {100, 86415, 1455}"
    unfolding largest_window_def c
    by (auto simp: get_difficulty_blocks_count_def get_timestamp_check_window_def mk_currency_def Let_def max_def word_le_nat_alt)
  then show ?thesis by auto
qed

text \<open>What the methods called on a tip change may change: nothing of the chain.\<close>

definition same_chain :: "('z) block_chain_scheme \<Rightarrow> ('z) block_chain_scheme \<Rightarrow> bool" where
  "same_chain s s' \<longleftrightarrow> block_chain.truncate s' = block_chain.truncate s"

lemma same_chain_sel:
  assumes "same_chain s s'"
  shows "m_db s' = m_db s" "m_tip_bid s' = m_tip_bid s" "m_tip_height s' = m_tip_height s"
    "m_tip_cumulative_difficulty s' = m_tip_cumulative_difficulty s" "header_cache s' = header_cache s"
    "m_header_tip_window s' = m_header_tip_window s" "m_currency s' = m_currency s" "m_genesis_bid s' = m_genesis_bid s"
  using assms by (auto simp: same_chain_def block_chain.defs)

lemma chain_ok_same:
  assumes "same_chain s s'" and "chain_ok s"
  shows "chain_ok s'"
proof -
  note sel = same_chain_sel[OF assms(1)]
  have st: "stored_header s' = stored_header s" using sel by (intro stored_header_cong) simp
  have H: "header_of s' = header_of s" by (simp add: header_of_def fun_eq_iff st)
  have R: "read_chain s' = read_chain s" by (simp add: read_chain_def fun_eq_iff sel)
  show ?thesis
    using assms(2)
    unfolding chain_ok_def tree_ok_def cache_ok_def tip_window_ok_def main_chain_ok_def tip_window_recent_def H R sel st .
qed

lemma read_chain_stored:
  assumes "db_get (m_db s) (chain_key k) = Some bid" and "length bid = 32"
  shows "read_chain s k = Inr (Some bid)"
  using assms fixed.dec_enc_nil[of bid 32] by (simp add: read_chain_def from_binary_def)

text \<open>Changing the index leaves the tree as it is.\<close>

lemma index_change_headers:
  assumes "\<And>b. RBT.lookup (m_db s') (header_key b) = RBT.lookup (m_db s) (header_key b)"
  shows "header_of s' = header_of s" and "stored_header s' = stored_header s"
proof -
  show "stored_header s' = stored_header s" by (rule stored_header_cong) (simp add: db_get_def assms)
  then show "header_of s' = header_of s" by (simp add: header_of_def fun_eq_iff)
qed

lemma anc_of_next:
  assumes "header_of s (hd_hash header) = Some header"
  shows "anc (header_of s) (Suc n) (hd_hash header) = anc (header_of s) n (hd_previous_block_hash header)"
  using assms by (simp add: anc_up[symmetric] up_def)

lemma nth_rev_snoc: "rev (xs @ [x]) ! i = (if i = 0 then x else rev xs ! (i - 1))"
  by (cases i) auto

lemma push_chain_main:
  assumes ok: "main_chain_ok s" and hdr: "header_of s (hd_hash header) = Some header"
    and prev: "hd_previous_block_hash header = m_tip_bid s" "hd_height header = m_tip_height s + 1" "hd_height header \<noteq> 0"
    and s': "RBT.lookup (m_db s') = (RBT.lookup (m_db s))(chain_key (m_tip_height s + 1) \<mapsto> hd_hash header)"
      "m_tip_bid s' = hd_hash header" "m_tip_height s' = m_tip_height s + 1"
      "m_tip_cumulative_difficulty s' = hd_cumulative_difficulty header"
  shows "main_chain_ok s'"
proof -
  have H: "header_of s' = header_of s" by (rule index_change_headers) (simp add: s'(1))
  have len: "length (hd_hash header) = 32" using header_of_length[OF hdr] by (simp add: header_ok_def)
  have tip: "unat (m_tip_height s + 1) = Suc (unat (m_tip_height s))" using prev(2,3) by (intro unat_Suc_u32) simp
  have g: "db_get (m_db s') (chain_key k) = (if k = m_tip_height s + 1 then Some (hd_hash header) else db_get (m_db s) (chain_key k))" for k
    using len by (auto simp: db_get_def s'(1))
  have "read_chain s' k = Inr (Some (anc (header_of s) (unat (m_tip_height s') - unat k) (m_tip_bid s')))" if k: "k \<le> m_tip_height s'" for k
  proof (cases "k = m_tip_height s + 1")
    case True
    then show ?thesis using g[of k] len by (simp add: read_chain_stored s')
  next
    case False
    then have k': "k \<le> m_tip_height s" using k tip s'(3) by (auto simp: word_le_nat_alt word_unat_eq_iff)
    have "read_chain s' k = read_chain s k" using False g[of k] by (simp add: read_chain_def)
    also have "\<dots> = Inr (Some (anc (header_of s) (unat (m_tip_height s) - unat k) (m_tip_bid s)))"
      using ok k' by (simp add: main_chain_ok_def)
    finally show ?thesis
      using k' tip anc_of_next[OF hdr, of "unat (m_tip_height s) - unat k"] by (simp add: s' prev Suc_diff_le word_le_nat_alt)
  qed
  moreover have "RBT.lookup (m_db s') (chain_key k) = None" if "m_tip_height s' < k" for k
  proof -
    have "m_tip_height s < k" "k \<noteq> m_tip_height s + 1" using that s'(3) tip by (auto simp: word_less_nat_alt)
    then show ?thesis using ok by (simp add: main_chain_ok_def s'(1))
  qed
  ultimately show ?thesis using hdr prev(2) unfolding main_chain_ok_def H by (simp add: s')
qed

lemma push_chain_window:
  assumes ok: "tip_window_recent s" and hdr: "header_of s (hd_hash header) = Some header"
    and prev: "hd_previous_block_hash header = m_tip_bid s" "m_tip_height s + 1 \<noteq> 0"
    and w: "w = m_header_tip_window s @ [header]" "0 < n" "m_header_tip_window s' = drop (length w - n) w"
    and s': "header_of s' = header_of s" "m_tip_bid s' = hd_hash header" "m_tip_height s' = m_tip_height s + 1"
  shows "tip_window_recent s'"
proof -
  have tip: "unat (m_tip_height s + 1) = Suc (unat (m_tip_height s))" using prev(2) by (rule unat_Suc_u32)
  have "header_of s (anc (header_of s) i (hd_hash header)) = Some (rev w ! i)" if "i < length w" for i
  proof (cases i)
    case 0
    then show ?thesis using hdr by (simp add: w)
  next
    case (Suc j)
    then show ?thesis using ok that anc_of_next[OF hdr, of j] by (simp add: tip_window_recent_def w prev)
  qed
  moreover have "rev (drop (length w - n) w) = take n (rev w)" by (cases "n \<le> length w") (auto simp: rev_drop)
  moreover have "drop (length w - n) w \<noteq> []" using w(1,2) by simp
  ultimately show ?thesis using ok tip w by (auto simp: tip_window_recent_def s')
qed

lemma push_chain_ok:
  assumes ok: "chain_ok s" and hdr: "header_of s (hd_hash header) = Some header"
    and prev: "hd_previous_block_hash header = m_tip_bid s" "hd_height header \<noteq> 0"
    and hook: "\<And>t. chain_ok t \<Longrightarrow> \<exists>t'. tip_changed t = Inr t' \<and> same_chain t t'"
  shows "\<exists>s'. push_chain tip_changed s header = Inr s' \<and> chain_ok s' \<and> m_tip_bid s' = hd_hash header \<and>
    m_tip_height s' = m_tip_height s + 1 \<and> header_of s' = header_of s"
proof -
  have t: "tree_ok s" and m: "main_chain_ok s" and w: "tip_window_recent s" using ok by (simp_all add: chain_ok_def)
  obtain tiph where tiph: "header_of s (m_tip_bid s) = Some tiph" "hd_height tiph = m_tip_height s"
    using m by (auto simp: main_chain_ok_def)
  have hh: "hd_height header = m_tip_height s + 1"
    using t hdr prev tiph unfolding tree_ok_def by (metis option.inject)
  have lt: "m_tip_height s < m_tip_height s + 1"
    using hh prev(2) unat_Suc_u32[of "m_tip_height s"] by (simp add: word_less_nat_alt)
  then have "RBT.lookup (m_db s) (chain_key (m_tip_height s + 1)) = None" using m unfolding main_chain_ok_def by blast
  then obtain d where d: "db_put (m_db s) (chain_key (m_tip_height s + 1)) (hd_hash header) True = Inr d"
    using db_put_new by blast
  define s1 where "s1 = s\<lparr>m_tip_height := m_tip_height s + 1, m_db := d, m_tip_bid := hd_hash header,
     m_tip_cumulative_difficulty := hd_cumulative_difficulty header\<rparr>"
  define wn where "wn = m_header_tip_window s @ [header]"
  define s2 where "s2 = s1\<lparr>m_header_tip_window := drop (length wn - unat (largest_window s1 * 2)) wn\<rparr>"
  have L: "RBT.lookup (m_db s2) = (RBT.lookup (m_db s))(chain_key (m_tip_height s + 1) \<mapsto> hd_hash header)"
    using lookup_put[OF d] by (simp add: s2_def s1_def)
  have H: "header_of s2 = header_of s" and St: "stored_header s2 = stored_header s"
    by (rule index_change_headers; simp add: L)+
  have "main_chain_ok s2" by (rule push_chain_main[OF m hdr prev(1) hh prev(2) L]) (simp_all add: s2_def s1_def)
  moreover have "tip_window_recent s2"
  proof (rule push_chain_window[OF w hdr prev(1) _ wn_def])
    show "0 < unat (largest_window s1 * 2)" using ok by (intro largest_window_bounds) (simp add: chain_ok_def s1_def)
  qed (use hh prev(2) H in \<open>simp_all add: s2_def s1_def\<close>)
  moreover have "tree_ok s2"
  proof -
    have G: "db_get (m_db s2) (header_key b) = db_get (m_db s) (header_key b)" for b by (simp add: db_get_def L)
    have "header_cache s2 = header_cache s" by (simp add: s2_def s1_def)
    then have "cache_ok s2" using t G by (simp add: tree_ok_def cache_ok_def)
    moreover have "tip_window_ok s2"
    proof -
      have "length (m_header_tip_window s2) \<le> unat (largest_window s1 * 2)" by (simp add: s2_def)
      then have "length (m_header_tip_window s2) < 2 ^ 32" using u32_less[of "largest_window s1 * 2"] by (simp del: u32_less)
      moreover have "set (m_header_tip_window s2) \<subseteq> insert header (set (m_header_tip_window s))"
        by (auto simp: s2_def wn_def dest: in_set_dropD)
      moreover have "stored_header s (hd_hash header) = Inr (Some header)" using hdr by (auto simp: header_of_def split: sum.splits)
      ultimately show ?thesis using t by (auto simp: tree_ok_def tip_window_ok_def St)
    qed
    ultimately show ?thesis using t unfolding tree_ok_def H by (simp add: s2_def s1_def)
  qed
  ultimately have "chain_ok s2" using ok by (simp add: chain_ok_def s2_def s1_def)
  moreover obtain s3 where s3: "tip_changed s2 = Inr s3" "same_chain s2 s3" using hook[OF calculation] by blast
  moreover have "push_chain tip_changed s header = tip_changed s2"
    using d by (simp add: push_chain_def Let_def s2_def s1_def wn_def)
  ultimately show ?thesis
    using chain_ok_same[OF s3(2)] same_chain_sel[OF s3(2)] H
      stored_header_cong[of s3 s2] by (auto simp: s2_def s1_def header_of_def fun_eq_iff)
qed

lemma pop_chain_main:
  assumes ok: "main_chain_ok s" and t: "tree_ok s" and tip: "m_tip_height s \<noteq> 0"
    and s': "RBT.lookup (m_db s') = (RBT.lookup (m_db s))(chain_key (m_tip_height s) := None)"
      "m_tip_bid s' = up (header_of s) (m_tip_bid s)" "m_tip_height s' = m_tip_height s - 1"
    and h: "header_of s (m_tip_bid s') = Some h" "m_tip_cumulative_difficulty s' = hd_cumulative_difficulty h"
  shows "main_chain_ok s'"
proof -
  have H: "header_of s' = header_of s" by (rule index_change_headers) (simp add: s'(1))
  have u: "unat (m_tip_height s) = Suc (unat (m_tip_height s - 1))" using tip unat_Suc_u32[of "m_tip_height s - 1"] by simp
  obtain tiph where tiph: "header_of s (m_tip_bid s) = Some tiph" "hd_height tiph = m_tip_height s"
    using ok by (auto simp: main_chain_ok_def)
  have hh: "hd_height h = m_tip_height s - 1"
    using ht.up_exists[OF t tiph(1)] tiph(2) tip h(1) s'(2) u by (auto simp: word_unat_eq_iff)
  have ne: "k \<noteq> m_tip_height s" if "k \<le> m_tip_height s - 1" for k using that u by (auto simp: word_le_nat_alt)
  have "read_chain s' k = Inr (Some (anc (header_of s) (unat (m_tip_height s') - unat k) (m_tip_bid s')))" if k: "k \<le> m_tip_height s'" for k
  proof -
    have "read_chain s' k = read_chain s k"
      using ne[of k] k s'(3) by (simp add: read_chain_def db_get_def s'(1))
    also have "\<dots> = Inr (Some (anc (header_of s) (unat (m_tip_height s) - unat k) (m_tip_bid s)))"
      using ok k s'(3) u by (simp add: main_chain_ok_def word_le_nat_alt)
    also have "unat (m_tip_height s) - unat k = Suc (unat (m_tip_height s') - unat k)"
      using k u by (simp add: s'(3) word_le_nat_alt)
    finally show ?thesis by (simp add: s'(2) anc_up)
  qed
  moreover have "RBT.lookup (m_db s') (chain_key k) = None" if "m_tip_height s' < k" for k
  proof (cases "k = m_tip_height s")
    case False
    then have "m_tip_height s < k" using that u s'(3) by (simp add: word_less_nat_alt word_unat_eq_iff)
    then show ?thesis using ok by (simp add: main_chain_ok_def s'(1))
  qed (simp add: s'(1))
  ultimately show ?thesis using h hh unfolding main_chain_ok_def H by (simp add: s'(3))
qed

lemma pop_window:
  assumes w: "tip_window_recent s" and h: "header_of s (up (header_of s) (m_tip_bid s)) = Some h"
    and W: "W = (if butlast (m_header_tip_window s) = [] then [h] else butlast (m_header_tip_window s))"
  shows "W \<noteq> []" and "\<And>i. i < length W \<Longrightarrow> header_of s (anc (header_of s) i (up (header_of s) (m_tip_bid s))) = Some (rev W ! i)"
    and "last W = h" and "set W \<subseteq> insert h (set (m_header_tip_window s))" and "length W \<le> max 1 (length (m_header_tip_window s) - 1)"
proof -
  have rev: "header_of s (anc (header_of s) i (m_tip_bid s)) = Some (rev (m_header_tip_window s) ! i)" if "i < length (m_header_tip_window s)" for i
    using w that by (simp add: tip_window_recent_def)
  have rw: "rev (butlast xs) ! i = rev xs ! Suc i" if "xs \<noteq> []" "i < length xs - 1" for xs :: "api_block_header list" and i
    using that by (cases xs rule: rev_cases) auto
  show ne: "W \<noteq> []" by (simp add: W)
  show win: "header_of s (anc (header_of s) i (up (header_of s) (m_tip_bid s))) = Some (rev W ! i)" if "i < length W" for i
  proof (cases "butlast (m_header_tip_window s) = []")
    case True
    then show ?thesis using that h by (simp add: W)
  next
    case False
    then show ?thesis
      using that rev[of "Suc i"] rw[of "m_header_tip_window s" i] w by (simp add: W anc_up tip_window_recent_def)
  qed
  show "last W = h" using win[of 0] h ne by (cases W rule: rev_cases) auto
  show "set W \<subseteq> insert h (set (m_header_tip_window s))" by (auto simp: W dest: in_set_butlastD)
  show "length W \<le> max 1 (length (m_header_tip_window s) - 1)" by (simp add: W)
qed

lemma pop_chain_ok:
  assumes ok: "chain_ok s" and tip: "m_tip_height s \<noteq> 0"
  shows "\<exists>s'. pop_chain s (up (header_of s) (m_tip_bid s)) = Inr s' \<and> chain_ok s' \<and>
    m_tip_bid s' = up (header_of s) (m_tip_bid s) \<and> m_tip_height s' = m_tip_height s - 1 \<and> header_of s' = header_of s"
proof -
  have t: "tree_ok s" and m: "main_chain_ok s" and w: "tip_window_recent s" using ok by (simp_all add: chain_ok_def)
  let ?b = "up (header_of s) (m_tip_bid s)"
  obtain tiph where tiph: "header_of s (m_tip_bid s) = Some tiph" "hd_height tiph = m_tip_height s"
    using m by (auto simp: main_chain_ok_def)
  obtain h where h: "header_of s ?b = Some h" using ht.up_exists[OF t tiph(1)] tiph(2) tip by auto
  have hb: "hd_hash h = ?b" using t h unfolding tree_ok_def by blast
  have u: "unat (m_tip_height s) = Suc (unat (m_tip_height s - 1))" using tip unat_Suc_u32[of "m_tip_height s - 1"] by simp
  have rc: "read_chain s k = Inr (Some (anc (header_of s) (unat (m_tip_height s) - unat k) (m_tip_bid s)))" if "k \<le> m_tip_height s" for k
    using m that by (simp add: main_chain_ok_def)
  have "RBT.lookup (m_db s) (chain_key (m_tip_height s)) \<noteq> None"
    using rc[of "m_tip_height s"] by (auto simp: read_chain_def db_get_def split: option.splits)
  then obtain d where d: "db_del (m_db s) (chain_key (m_tip_height s)) True = Inr d" by (auto simp: db_del_def)
  define W where "W = (if butlast (m_header_tip_window s) = [] then [h] else butlast (m_header_tip_window s))"
  define s1 where "s1 = s\<lparr>m_header_tip_window := butlast (m_header_tip_window s), m_db := d, m_tip_height := m_tip_height s - 1, m_tip_bid := ?b\<rparr>"
  define s3 where "s3 = s1\<lparr>m_header_tip_window := W, m_tip_cumulative_difficulty := hd_cumulative_difficulty h\<rparr>"
  have L: "RBT.lookup (m_db s1) = (RBT.lookup (m_db s))(chain_key (m_tip_height s) := None)"
    using lookup_del[OF d] by (simp add: s1_def)
  have St: "stored_header s1 = stored_header s" "stored_header s3 = stored_header s"
    and H: "header_of s1 = header_of s" "header_of s3 = header_of s"
    by (rule index_change_headers; simp add: L s3_def)+
  have sel: "m_header_tip_window s3 = W" "m_tip_bid s3 = ?b" "m_tip_height s3 = m_tip_height s - 1" by (simp_all add: s3_def s1_def)
  note W = pop_window[OF w h W_def]
  have tw: "tip_window_recent s3" unfolding tip_window_recent_def H(2) sel using W w u by (auto simp: tip_window_recent_def)
  have mc: "main_chain_ok s3"
    by (rule pop_chain_main[OF m t tip _ _ _ _ refl[THEN trans]]) (use L h in \<open>simp_all add: s3_def s1_def\<close>)
  have tr: "tree_ok s1" "tree_ok s3"
  proof -
    have G: "db_get (m_db s1) (header_key b) = db_get (m_db s) (header_key b)" for b by (simp add: db_get_def L)
    have c: "cache_ok s1" "cache_ok s3" using t G by (simp_all add: tree_ok_def cache_ok_def s3_def) (simp_all add: s1_def)
    have "stored_header s (hd_hash h) = Inr (Some h)" using h hb by (auto simp: header_of_def split: sum.splits)
    then have "tip_window_ok s1" "tip_window_ok s3"
      using t W(4,5) in_set_butlastD[of _ "m_header_tip_window s"]
      unfolding tip_window_ok_def St tree_ok_def by (auto simp: s3_def s1_def)
    then show "tree_ok s1" "tree_ok s3" using t c unfolding tree_ok_def H by (simp_all add: s3_def s1_def)
  qed
  have "read_chain s1 (m_tip_height s - 1) = read_chain s (m_tip_height s - 1)"
    using u by (auto simp: read_chain_def db_get_def L)
  then have r1: "read_chain_or_fail s1 (m_tip_height s1) = Inr ?b"
    using rc[of "m_tip_height s - 1"] u by (simp add: read_chain_or_fail_def s1_def word_le_nat_alt anc_Suc)
  have "(if butlast (m_header_tip_window s) = [] then bindR (read_header_or_fail s1 ?b 0) (\<lambda>h. Inr (s1\<lparr>m_header_tip_window := [h]\<rparr>)) else Inr s1)
      = Inr (s1\<lparr>m_header_tip_window := W\<rparr>)"
    using read_header_or_fail_tree[OF tr(1), of ?b h 0] h H by (auto simp: W_def s1_def)
  moreover have "get_tip (s1\<lparr>m_header_tip_window := W\<rparr>) = Inr h"
    using W(1,3) hb by (auto simp: get_tip_def s1_def)
  ultimately have "pop_chain s ?b = Inr s3"
    unfolding pop_chain_def Let_def d bindR_simps s1_def[symmetric] r1
    using tip w by (simp add: tip_window_recent_def s3_def)
  moreover have "chain_ok s3" using tw mc tr(2) ok by (auto simp: chain_ok_def s3_def s1_def)
  ultimately show ?thesis using H by (auto simp: s3_def s1_def)
qed

section \<open>Segments of the chain\<close>

lemma tip_segment_loop_tree:
  assumes "tree_ok s" and "header_of s b = Some h"
  defines "H \<equiv> header_of s"
  shows "tip_segment_loop s n h = Inr (map (\<lambda>i. the (H (anc H i b))) [0..<min n (level H b)], the (H (anc H (min n (level H b)) b)))"
  using assms(2)
proof (induction n arbitrary: b h)
  case (Suc n)
  show ?case
  proof (cases "hd_height h = 0")
    case True
    then have "level H b = 0" using Suc.prems by (simp add: level_def H_def)
    then show ?thesis using True Suc.prems by (simp add: H_def)
  next
    case False
    then obtain h' where h': "H (up H b) = Some h'" "unat (hd_height h) = Suc (unat (hd_height h'))"
      using ht.up_exists[OF assms(1) Suc.prems] by (auto simp: H_def)
    then have l: "level H b = Suc (level H (up H b))" using Suc.prems by (simp add: level_def H_def)
    have u: "hd_previous_block_hash h = up H b" using Suc.prems by (simp add: up_def H_def)
    have r: "read_header_or_fail s (up H b) (hd_height h - 1) = Inr h'"
      using read_header_or_fail_tree[OF assms(1)] h'(1) by (simp add: H_def)
    have "[0..<Suc m] = 0 # map Suc [0..<m]" for m by (simp add: upt_conv_Cons map_Suc_upt del: upt_Suc)
    then show ?thesis
      using False r Suc.IH[of "up H b" h'] h'(1) Suc.prems by (simp add: u l[unfolded H_def] H_def anc_up comp_def del: upt_Suc)
  qed
qed (simp add: H_def)

section \<open>A sample chain\<close>

text \<open>The genesis block, a tip above it, and a second block above the genesis block.\<close>

definition sample_header :: "byte \<Rightarrow> u32 \<Rightarrow> u64 \<Rightarrow> api_block_header" where
  "sample_header b height cd = empty_api_header\<lparr>hd_hash := replicate 32 b, hd_height := height, hd_cumulative_difficulty := cd\<rparr>"

definition sample_chain :: block_chain where
  "sample_chain = \<lparr>m_currency = mk_currency False (replicate 32 0) [], m_genesis_bid = replicate 32 0,
     m_db = RBT.insert (chain_key 1) (replicate 32 1) (RBT.insert (chain_key 0) (replicate 32 0)
       (RBT.insert (header_key (replicate 32 2)) (write_api_header (sample_header 2 1 2))
       (RBT.insert (header_key (replicate 32 1)) (write_api_header (sample_header 1 1 2))
       (RBT.insert (header_key (replicate 32 0)) (write_api_header (sample_header 0 0 1)) RBT.empty)))),
     m_tip_bid = replicate 32 1, m_tip_cumulative_difficulty = 2, m_tip_height = 1,
     header_cache = RBT.empty, m_header_tip_window = [sample_header 1 1 2]\<rparr>"

lemma header_key_eq [simp]: "header_key a = header_key b \<longleftrightarrow> a = b"
  by (simp add: header_key_def)

lemma replicate32_eq [simp]: "replicate 32 (a :: byte) = replicate 32 b \<longleftrightarrow> a = b"
  by (simp add: replicate_eq_replicate)

lemma stored_sample_header: "from_binary read_api_header (write_api_header (sample_header b height cd)) = Inr (sample_header b height cd)"
  using cheader.dec_enc_nil[of "sample_header b height cd"]
  by (simp add: from_binary_def sample_header_def header_ok_def empty_api_header_def)

lemma sample_stored:
  "stored_header sample_chain b =
     Inr (if b = replicate 32 2 then Some (sample_header 2 1 2) else if b = replicate 32 1 then Some (sample_header 1 1 2)
          else if b = replicate 32 0 then Some (sample_header 0 0 1) else None)"
  by (simp add: stored_header_def db_get_def sample_chain_def stored_sample_header)

lemma sample_header_of:
  "header_of sample_chain b =
     (if b = replicate 32 2 then Some (sample_header 2 1 2) else if b = replicate 32 1 then Some (sample_header 1 1 2)
      else if b = replicate 32 0 then Some (sample_header 0 0 1) else None)"
  by (simp add: header_of_def sample_stored)

lemma sample_header_sel [simp]:
  "hd_hash (sample_header b n cd) = replicate 32 b" "hd_height (sample_header b n cd) = n"
  "hd_previous_block_hash (sample_header b n cd) = replicate 32 0" "hd_cumulative_difficulty (sample_header b n cd) = cd"
  by (simp_all add: sample_header_def empty_api_header_def)

lemma sample_tree_ok: "tree_ok sample_chain"
proof -
  have "cache_ok sample_chain" by (simp add: cache_ok_def sample_chain_def)
  moreover have "tip_window_ok sample_chain"
    using sample_stored[of "replicate 32 1"] by (simp add: tip_window_ok_def) (simp add: sample_chain_def)
  moreover have "m_genesis_bid sample_chain = replicate 32 0" by (simp add: sample_chain_def)
  ultimately show ?thesis by (auto simp: tree_ok_def sample_header_of split: if_splits)
qed

lemma sample_chain_ok: "chain_ok sample_chain"
proof -
  have sel: "m_tip_bid sample_chain = replicate 32 1" "m_tip_height sample_chain = 1" "m_tip_cumulative_difficulty sample_chain = 2"
    "m_header_tip_window sample_chain = [sample_header 1 1 2]" by (simp_all add: sample_chain_def)
  have a: "anc (header_of sample_chain) (Suc 0) (replicate 32 1) = replicate 32 0" by (simp add: anc_Suc up_def sample_header_of)
  have k: "k = 0 \<or> k = 1" if "k \<le> (1 :: u32)" for k
    using that by (auto simp: word_le_nat_alt le_Suc_eq word_unat_eq_iff)
  have g: "db_get (m_db sample_chain) (chain_key 0) = Some (replicate 32 0)" "db_get (m_db sample_chain) (chain_key 1) = Some (replicate 32 1)"
    by (simp_all add: sample_chain_def db_get_def)
  have "read_chain sample_chain k = Inr (Some (anc (header_of sample_chain) (1 - unat k) (replicate 32 1)))" if "k \<le> 1" for k
    using k[OF that] read_chain_stored[OF g(1)] read_chain_stored[OF g(2)] a by auto
  moreover have "RBT.lookup (m_db sample_chain) (chain_key k) = None" if "1 < k" for k
    using that by (auto simp: sample_chain_def)
  ultimately have "main_chain_ok sample_chain" by (auto simp: main_chain_ok_def sel sample_header_of)
  moreover have "tip_window_recent sample_chain" by (simp add: tip_window_recent_def sel sample_header_of)
  ultimately show ?thesis using sample_tree_ok by (auto simp: chain_ok_def sample_chain_def)
qed

section \<open>Properties\<close>

text \<open>
  C8: \<open>get_common_block\<close> always returns, and returns the highest common ancestor of two stored blocks: the two lists are the
  hashes from each block down to, and without, the common block, and every other block that is an ancestor of both is
  further away from both.
\<close>

theorem common_block_highest:
  assumes "tree_ok s" and "header_of s a = Some ha" and "header_of s b = Some hb"
  shows "\<exists>c m n. get_common_block s a b = Some (Inr (c, path (header_of s) a m, path (header_of s) b n)) \<and>
    c = anc (header_of s) m a \<and> c = anc (header_of s) n b \<and>
    (\<forall>i \<le> level (header_of s) a. \<forall>j \<le> level (header_of s) b.
       anc (header_of s) i a = anc (header_of s) j b \<longrightarrow> m \<le> i \<and> n \<le> j)"
  using get_common_block_tree[OF assms] by metis

theorem common_block_highest_witness:
  "\<exists>c m n. get_common_block sample_chain (replicate 32 1) (replicate 32 2) =
      Some (Inr (c, path (header_of sample_chain) (replicate 32 1) m, path (header_of sample_chain) (replicate 32 2) n))"
  using common_block_highest[OF sample_tree_ok, of "replicate 32 1" "sample_header 1 1 2" "replicate 32 2" "sample_header 2 1 2"]
  by (auto simp: sample_header_of)

text \<open>Sequences of the two operations that move the tip.\<close>

inductive chain_run :: "(('z) block_chain_scheme \<Rightarrow> ('z) block_chain_scheme result) \<Rightarrow> ('z) block_chain_scheme \<Rightarrow> ('z) block_chain_scheme \<Rightarrow> bool"
  for tip_changed where
  start: "chain_run tip_changed s s"
| push: "chain_run tip_changed s t \<Longrightarrow> header_of t (hd_hash h) = Some h \<Longrightarrow> hd_previous_block_hash h = m_tip_bid t \<Longrightarrow>
    hd_height h \<noteq> 0 \<Longrightarrow> push_chain tip_changed t h = Inr t' \<Longrightarrow> chain_run tip_changed s t'"
| pop: "chain_run tip_changed s t \<Longrightarrow> header_of t (m_tip_bid t) = Some h \<Longrightarrow>
    pop_chain t (hd_previous_block_hash h) = Inr t' \<Longrightarrow> chain_run tip_changed s t'"

lemma chain_run_ok:
  assumes "chain_run tip_changed s t" and "chain_ok s"
    and hook: "\<And>t. chain_ok t \<Longrightarrow> \<exists>t'. tip_changed t = Inr t' \<and> same_chain t t'"
  shows "chain_ok t"
  using assms(1,2)
proof (induction rule: chain_run.induct)
  case (push s t h t')
  then show ?case using push_chain_ok[of t h tip_changed] hook by auto
next
  case (pop s t h t')
  have "m_tip_height t \<noteq> 0" using pop.hyps(3) by (auto simp: pop_chain_def split: if_splits)
  moreover have "up (header_of t) (m_tip_bid t) = hd_previous_block_hash h" using pop.hyps(2) by (simp add: up_def)
  ultimately show ?case using pop pop_chain_ok[of t] by auto
qed

text \<open>
  C7: the index from heights to hashes always describes the branch of the tip. Through every sequence of
  \<open>push_chain\<close> with a stored child of the tip and \<open>pop_chain\<close> to its parent, the
  entry for a height is the ancestor of the tip at that height, and no entry lies above the tip.
\<close>

theorem main_chain_index_invariant:
  assumes "chain_run tip_changed s t" and "chain_ok s"
    and "\<And>u. chain_ok u \<Longrightarrow> \<exists>u'. tip_changed u = Inr u' \<and> same_chain u u'"
  shows "read_chain t k =
    Inr (if k \<le> m_tip_height t then Some (anc (header_of t) (unat (m_tip_height t) - unat k) (m_tip_bid t)) else None)"
  using chain_run_ok[OF assms] by (auto simp: chain_ok_def main_chain_ok_def read_chain_def db_get_def not_le)

theorem main_chain_index_invariant_witness:
  "\<exists>t. chain_run (\<lambda>u. Inr u) sample_chain t \<and> m_tip_height t = 0 \<and>
     read_chain t 0 = Inr (Some (m_tip_bid t)) \<and> read_chain t 1 = Inr None"
proof -
  have b: "m_tip_bid sample_chain = replicate 32 1" "m_tip_height sample_chain = 1" by (simp_all add: sample_chain_def)
  have u: "up (header_of sample_chain) (m_tip_bid sample_chain) = hd_previous_block_hash (sample_header 1 1 2)"
    by (simp add: up_def b sample_header_of)
  obtain t where t: "pop_chain sample_chain (hd_previous_block_hash (sample_header 1 1 2)) = Inr t" "m_tip_height t = 0"
    using pop_chain_ok[OF sample_chain_ok] unfolding u by (auto simp: b)
  have r: "chain_run (\<lambda>u. Inr u) sample_chain t"
    by (rule chain_run.pop[OF chain_run.start _ t(1)]) (simp add: b sample_header_of)
  show ?thesis
    using main_chain_index_invariant[OF r sample_chain_ok, of 0] main_chain_index_invariant[OF r sample_chain_ok, of 1] r t(2)
    by (auto simp: same_chain_def)
qed

text \<open>
  C29: a block pushed onto the chain and popped again leaves the tip, its height and cumulative difficulty and every
  entry of the index as they were; neither operation fails an \<open>invariant\<close>.
\<close>

theorem pop_undoes_push:
  assumes "chain_ok s" and "header_of s (hd_hash h) = Some h" and "hd_previous_block_hash h = m_tip_bid s" and "hd_height h \<noteq> 0"
    and "\<And>u. chain_ok u \<Longrightarrow> \<exists>u'. tip_changed u = Inr u' \<and> same_chain u u'"
  shows "\<exists>s1 s2. push_chain tip_changed s h = Inr s1 \<and> pop_chain s1 (m_tip_bid s) = Inr s2 \<and> m_tip_bid s2 = m_tip_bid s \<and>
    m_tip_height s2 = m_tip_height s \<and> m_tip_cumulative_difficulty s2 = m_tip_cumulative_difficulty s \<and>
    (\<forall>k. read_chain s2 k = read_chain s k)"
proof -
  obtain s1 where s1: "push_chain tip_changed s h = Inr s1" "chain_ok s1" "m_tip_bid s1 = hd_hash h"
      "m_tip_height s1 = m_tip_height s + 1" "header_of s1 = header_of s"
    using push_chain_ok[OF assms] by blast
  have u: "up (header_of s1) (m_tip_bid s1) = m_tip_bid s" using assms(2,3) by (simp add: up_def s1)
  have "hd_height h = m_tip_height s1" using s1(2,3,5) assms(2) by (auto simp: chain_ok_def main_chain_ok_def)
  then have "m_tip_height s1 \<noteq> 0" using assms(4) by simp
  then obtain s2 where s2: "pop_chain s1 (m_tip_bid s) = Inr s2" "chain_ok s2" "m_tip_bid s2 = m_tip_bid s"
      "m_tip_height s2 = m_tip_height s" "header_of s2 = header_of s"
    using pop_chain_ok[OF s1(2)] unfolding u by (auto simp: s1)
  have idx: "read_chain t k = Inr (if k \<le> m_tip_height t then Some (anc (header_of t) (unat (m_tip_height t) - unat k) (m_tip_bid t)) else None)"
    if "chain_ok t" for t :: "'a block_chain_scheme" and k
    using that by (auto simp: chain_ok_def main_chain_ok_def read_chain_def db_get_def not_le)
  have "m_tip_cumulative_difficulty s2 = m_tip_cumulative_difficulty s"
    using s2 assms(1) by (auto simp: chain_ok_def main_chain_ok_def)
  then show ?thesis using s1(1) s2 idx[OF s2(2)] idx[OF assms(1)] by auto
qed

theorem pop_undoes_push_witness:
  "\<exists>(t :: block_chain) s1 s2. m_tip_bid t = replicate 32 0 \<and> push_chain (\<lambda>u. Inr u) t (sample_header 1 1 2) = Inr s1 \<and>
     pop_chain s1 (replicate 32 0) = Inr s2 \<and> m_tip_bid s2 = replicate 32 0 \<and> (\<forall>k. read_chain s2 k = read_chain t k)"
proof -
  have b: "m_tip_bid sample_chain = replicate 32 1" "m_tip_height sample_chain = 1" by (simp_all add: sample_chain_def)
  have u: "up (header_of sample_chain) (m_tip_bid sample_chain) = replicate 32 0"
    by (simp add: up_def b sample_header_of)
  obtain t :: block_chain where t: "chain_ok t" "m_tip_bid t = replicate 32 0" "header_of t = header_of sample_chain"
    using pop_chain_ok[OF sample_chain_ok] unfolding u by (auto simp: b)
  have "header_of t (hd_hash (sample_header 1 1 2)) = Some (sample_header 1 1 2)"
    "hd_previous_block_hash (sample_header 1 1 2) = m_tip_bid t" "hd_height (sample_header 1 1 2) \<noteq> 0"
    by (simp_all add: t sample_header_of)
  from pop_undoes_push[OF t(1) this, of "\<lambda>u. Inr u"] show ?thesis using t(2) by (auto simp: same_chain_def)
qed

text \<open>
  C31: \<open>get_tip_segment\<close> returns the headers of the block and its ancestors, lowest first, as many as the window
  asks for or as there are above the genesis block; the genesis header is added on request when there is room.
\<close>

theorem tip_segment_ancestors:
  assumes "tree_ok s" and "header_of s b = Some h" and "hd_height h \<noteq> - 1"
  shows "get_tip_segment s h window add_genesis =
    Inr (rev (map (\<lambda>i. the (header_of s (anc (header_of s) i b)))
      [0..<min (unat window) (level (header_of s) b + (if add_genesis then 1 else 0))]))"
proof -
  define L where "L = level (header_of s) b"
  have z: "hd_height (the (header_of s (anc (header_of s) L b))) = 0"
    using ht.anc_level[OF assms(1), of b L] assms(2) by (auto simp: L_def level_def unsigned_eq_0_iff)
  show ?thesis
    using assms(3) tip_segment_loop_tree[OF assms(1,2), of "unat window"] z
    by (auto simp: get_tip_segment_def L_def[symmetric] min_def not_le le_Suc_eq less_Suc_eq_le)
qed

theorem tip_segment_ancestors_witness:
  "get_tip_segment sample_chain (sample_header 1 1 2) 5 True = Inr [sample_header 0 0 1, sample_header 1 1 2]"
  using tip_segment_ancestors[OF sample_tree_ok, of "replicate 32 1" "sample_header 1 1 2" 5 True]
  by (simp add: sample_header_of level_def anc_Suc up_def upt_conv_Cons)

text \<open>
  C33: the header cache is invisible: whatever \<open>read_header\<close> puts into it, or drops from it when it is full, every later
  \<open>read_header\<close> returns what it would have returned without.
\<close>

theorem header_cache_invisible:
  assumes "cache_ok s" and "tip_window_ok s" and "remember_header s bid = Inr s'"
  shows "cache_ok s' \<and> read_header s' b hint = read_header s b hint"
proof -
  obtain c where s': "s' = s\<lparr>header_cache := c\<rparr>" "cache_ok s'" using remember_header_cache[OF assms(1,3)] by blast
  have st: "stored_header s' = stored_header s" by (rule stored_header_cong) (simp add: s'(1))
  have "tip_window_ok s'" using assms(2) unfolding tip_window_ok_def st by (simp add: s'(1))
  then show ?thesis using s'(2) read_header_stored[OF assms(1,2)] read_header_stored[OF s'(2)] st by simp
qed

theorem header_cache_invisible_witness:
  "\<exists>s'. remember_header sample_chain (replicate 32 2) = Inr s' \<and> header_cache s' \<noteq> RBT.empty \<and>
     read_header s' (replicate 32 2) 0 = read_header sample_chain (replicate 32 2) 0"
proof -
  have "db_get (m_db sample_chain) (header_key (replicate 32 2)) = Some (write_api_header (sample_header 2 1 2))"
    "header_cache sample_chain = RBT.empty" by (simp_all add: sample_chain_def db_get_def)
  then obtain s' where s': "remember_header sample_chain (replicate 32 2) = Inr s'"
      "RBT.lookup (header_cache s') (replicate 32 2) = Some (sample_header 2 1 2)"
    by (auto simp: remember_header_def stored_sample_header)
  then have "header_cache s' \<noteq> RBT.empty" by auto
  then show ?thesis
    using s'(1) header_cache_invisible[OF _ _ s'(1)] sample_tree_ok by (auto simp: tree_ok_def)
qed

text \<open>
  The search for a transaction in the serialised block finds it: when the pattern occurs, \<open>slow_memmem\<close> returns an
  offset at which it occurs, not behind the first known one, and does not read past the end on the way.
\<close>

theorem slow_memmem_correct:
  assumes "pat \<noteq> []"
  shows "\<exists>k. slow_memmem (xs @ pat @ ys) pat = Inr (Some k) \<and> k \<le> length xs \<and>
    take (length pat) (drop k (xs @ pat @ ys)) = pat"
  using slow_memmem_finds[OF assms refl] by blast

theorem slow_memmem_correct_witness:
  "\<exists>k. slow_memmem ([1, 1, 2] @ [1, 2, 3] @ [4]) [1, 2, 3] = Inr (Some k) \<and> k \<le> 3"
  using slow_memmem_correct[of "[1, 2, 3]" "[1, 1, 2]" "[4]"] by auto

text \<open>Without a match the search can read past the end: two failed candidates are enough.\<close>

lemma slow_memmem_overruns: "slow_memmem [1, 1, 3] [1, 2] = Inl Undefined"
  by (simp add: slow_memmem_def slow_memmem_loop.simps)

end
