(* ===== verification/Ledger.thy ===== *)
theory Ledger
  imports ChainTree
begin

text \<open>
  The money of the chain: the interface \<open>IBlockChainState\<close> of \<open>src/src/Core/BlockChainState.hpp\<close> and its two
  implementations in \<open>BlockChainState.cpp\<close>. \<open>BlockChainState\<close> keeps the key images that were spent and,
  for each amount, the outputs in the order of their global index in the database, with a cache of the next
  index; \<open>DeltaState\<close> keeps changes on top of a parent in memory and applies them to it. The abstract ledger is a
  map of key images and a list of outputs per amount; the locale \<open>ledger_store\<close> states what an implementation
  promises in its terms, and both classes are interpretations of it. Filling the cache on a read is
  a separate definition, which changes no read.
\<close>

section \<open>Definitions\<close>

subsection \<open>Outputs and the interface\<close>

record output_data =
  od_unlock_time :: u64
  od_public_key :: bytes
  od_height :: u32
  od_spent :: bool

definition write_bool :: "bool \<Rightarrow> bytes" where
  "write_bool b = [if b then 1 else 0]"

definition read_bool :: "bool reader" where
  "read_bool bs = bindR (read_exact 1 bs) (\<lambda>(c, rest). Inr (hd c \<noteq> 0, rest))"

definition write_output_data :: "output_data \<Rightarrow> bytes" where
  "write_output_data v = write_u64 (od_unlock_time v) @ od_public_key v @ write_u32 (od_height v) @ write_bool (od_spent v)"

definition read_output_data :: "output_data reader" where
  "read_output_data bs =
     bindR (read_u64 bs) (\<lambda>(ut, bs1). bindR (ser_binary 32 bs1) (\<lambda>(pk, bs2). bindR (read_u32 bs2) (\<lambda>(h, bs3).
     bindR (read_bool bs3) (\<lambda>(sp, bs4).
       Inr (\<lparr>od_unlock_time = ut, od_public_key = pk, od_height = h, od_spent = sp\<rparr>, bs4)))))"

text \<open>The reading methods of the interface, as the delta state uses those of its parent.\<close>

record state_reads =
  rd_keyimage :: "bytes \<Rightarrow> u32 option result"
  rd_next_global_index :: "u64 \<Rightarrow> u32 result"
  rd_amount_output :: "u64 \<Rightarrow> u32 \<Rightarrow> output_data option result"

subsection \<open>The state over the database\<close>

record chain_state = block_chain +
  m_next_gi_for_amount :: "(u64, u32) RBT.rbt"
  m_pool :: mem_pool
  m_tx_pool_version :: u32
  m_mining_transactions :: "(bytes, bytes \<times> u32) RBT.rbt"
  m_next_median_timestamp :: u32
  m_next_median_size :: u32

definition keyimage_key :: "bytes \<Rightarrow> bytes" where "keyimage_key ki = [0x69] @ ki"
definition amount_prefix :: "u64 \<Rightarrow> bytes" where "amount_prefix amount = [0x61] @ write_varint_sqlite4 amount"
definition amount_key :: "u64 \<Rightarrow> u32 \<Rightarrow> bytes" where
  "amount_key amount gi = amount_prefix amount @ write_varint_sqlite4 (ucast gi)"
definition global_indices_key :: "bytes \<Rightarrow> bytes" where "global_indices_key bid = [0x62] @ bid @ [0x67]"

definition store_keyimage :: "chain_state \<Rightarrow> bytes \<Rightarrow> u32 \<Rightarrow> chain_state result" where
  "store_keyimage s ki height =
     bindR (db_put (m_db s) (keyimage_key ki) (write_u32 height) True) (\<lambda>d.
       let s1 = s\<lparr>m_db := d\<rparr>
       in (case RBT.lookup (memory_state_ki_tx (m_pool s)) ki of
             None \<Rightarrow> Inr s1
           | Some tid \<Rightarrow> bindR (remove_from_pool (m_pool s) tid) (\<lambda>p. Inr (s1\<lparr>m_pool := p\<rparr>))))"

definition delete_keyimage :: "chain_state \<Rightarrow> bytes \<Rightarrow> chain_state result" where
  "delete_keyimage s ki = bindR (db_del (m_db s) (keyimage_key ki) True) (\<lambda>d. Inr (s\<lparr>m_db := d\<rparr>))"

definition read_keyimage :: "chain_state \<Rightarrow> bytes \<Rightarrow> u32 option result" where
  "read_keyimage s ki =
     (case db_get (m_db s) (keyimage_key ki) of
        None \<Rightarrow> Inr None
      | Some rb \<Rightarrow> bindR (from_binary read_u32 rb) (\<lambda>h. Inr (Some h)))"

text \<open>The index after the last stored output of the amount; \<open>lexical_cast\<close> refuses an index that is not a \<open>Height\<close>.\<close>

definition last_global_index :: "db \<Rightarrow> u64 \<Rightarrow> u32 result" where
  "last_global_index d amount =
     (case db_rbegin d (amount_prefix amount) [] of
        [] \<Rightarrow> Inr 0
      | (suffix, _) # _ \<Rightarrow>
          bindR (read_varint_sqlite4_str suffix) (\<lambda>g.
            if \<not> g \<le> 0xFFFFFFFF then Inl (RuntimeError ''bad_lexical_cast'') else Inr (ucast g + 1)))"

definition next_global_index_for_amount :: "chain_state \<Rightarrow> u64 \<Rightarrow> u32 result" where
  "next_global_index_for_amount s amount =
     (case RBT.lookup (m_next_gi_for_amount s) amount of
        Some n \<Rightarrow> Inr n
      | None \<Rightarrow> last_global_index (m_db s) amount)"

text \<open>What \<open>next_global_index_for_amount\<close> does to the cache.\<close>

definition remember_next_gi :: "chain_state \<Rightarrow> u64 \<Rightarrow> chain_state result" where
  "remember_next_gi s amount =
     bindR (next_global_index_for_amount s amount) (\<lambda>n.
       Inr (s\<lparr>m_next_gi_for_amount := RBT.insert amount n (m_next_gi_for_amount s)\<rparr>))"

definition read_amount_output :: "chain_state \<Rightarrow> u64 \<Rightarrow> u32 \<Rightarrow> output_data option result" where
  "read_amount_output s amount global_index =
     (case db_get (m_db s) (amount_key amount global_index) of
        None \<Rightarrow> Inr None
      | Some rb \<Rightarrow> bindR (from_binary read_output_data rb) (\<lambda>v. Inr (Some v)))"

definition push_amount_output :: "chain_state \<Rightarrow> u64 \<Rightarrow> u64 \<Rightarrow> u32 \<Rightarrow> bytes \<Rightarrow> (chain_state \<times> u32) result" where
  "push_amount_output s amount ut block_height pk =
     bindR (next_global_index_for_amount s amount) (\<lambda>my_gi.
     bindR (db_put (m_db s) (amount_key amount my_gi)
              (write_output_data \<lparr>od_unlock_time = ut, od_public_key = pk, od_height = block_height, od_spent = False\<rparr>) True) (\<lambda>d.
       Inr (s\<lparr>m_db := d, m_next_gi_for_amount := RBT.insert amount (my_gi + 1) (m_next_gi_for_amount s)\<rparr>, my_gi)))"

definition pop_amount_output :: "chain_state \<Rightarrow> u64 \<Rightarrow> u64 \<Rightarrow> bytes \<Rightarrow> chain_state result" where
  "pop_amount_output s amount ut pk =
     bindR (next_global_index_for_amount s amount) (\<lambda>n.
       if n = 0 then Inl (InvariantViolated ''BlockChainState::pop_amount_output underflow'')
       else
         let next_gi = n - 1; s1 = s\<lparr>m_next_gi_for_amount := RBT.insert amount (n - 1) (m_next_gi_for_amount s)\<rparr>
         in bindR (read_amount_output s1 amount next_gi) (\<lambda>r.
              case r of
                None \<Rightarrow> Inl (InvariantViolated ''BlockChainState::pop_amount_output element does not exist'')
              | Some unp \<Rightarrow>
                  if od_spent unp \<or> od_unlock_time unp \<noteq> ut \<or> od_public_key unp \<noteq> pk
                  then Inl (InvariantViolated ''BlockChainState::pop_amount_output popping wrong element'')
                  else bindR (db_del (m_db s1) (amount_key amount next_gi) True) (\<lambda>d. Inr (s1\<lparr>m_db := d\<rparr>))))"

definition set_spent :: "chain_state \<Rightarrow> u64 \<Rightarrow> u32 \<Rightarrow> bool \<Rightarrow> chain_state result" where
  "set_spent s amount global_index sp =
     (case db_get (m_db s) (amount_key amount global_index) of
        None \<Rightarrow> Inr s
      | Some rb \<Rightarrow>
          bindR (from_binary read_output_data rb) (\<lambda>was.
          bindR (db_put (m_db s) (amount_key amount global_index) (write_output_data (was\<lparr>od_spent := sp\<rparr>)) False) (\<lambda>d.
            Inr (s\<lparr>m_db := d\<rparr>))))"

definition spend_output :: "chain_state \<Rightarrow> u64 \<Rightarrow> u32 \<Rightarrow> chain_state result" where
  "spend_output s amount global_index = set_spent s amount global_index True"

definition state_view :: "chain_state \<Rightarrow> state_reads" where
  "state_view s = \<lparr>rd_keyimage = read_keyimage s, rd_next_global_index = next_global_index_for_amount s,
     rd_amount_output = read_amount_output s\<rparr>"

subsection \<open>The delta state\<close>

text \<open>The parent is the argument \<open>P\<close> of the operations that consult it.\<close>

record delta_state =
  m_keyimages :: "(bytes, u32) RBT.rbt"
  m_global_amounts :: "(u64, (u64 \<times> bytes) list) RBT.rbt"
  m_spent_outputs :: "(u64 \<times> u32) list"
  m_block_height :: u32
  m_unlock_timestamp :: u32

definition new_delta :: "u32 \<Rightarrow> u32 \<Rightarrow> delta_state" where
  "new_delta block_height unlock_timestamp = \<lparr>m_keyimages = RBT.empty, m_global_amounts = RBT.empty, m_spent_outputs = [],
     m_block_height = block_height, m_unlock_timestamp = unlock_timestamp\<rparr>"

definition delta_outputs :: "delta_state \<Rightarrow> u64 \<Rightarrow> (u64 \<times> bytes) list" where
  "delta_outputs d amount = (case RBT.lookup (m_global_amounts d) amount of None \<Rightarrow> [] | Some l \<Rightarrow> l)"

definition delta_store_keyimage :: "delta_state \<Rightarrow> bytes \<Rightarrow> u32 \<Rightarrow> delta_state result" where
  "delta_store_keyimage d ki height =
     (if RBT.lookup (m_keyimages d) ki \<noteq> None then Inl (InvariantViolated ''DeltaState::store_keyimage'')
      else Inr (d\<lparr>m_keyimages := RBT.insert ki height (m_keyimages d)\<rparr>))"

definition delta_delete_keyimage :: "delta_state \<Rightarrow> bytes \<Rightarrow> delta_state result" where
  "delta_delete_keyimage d ki =
     (if RBT.lookup (m_keyimages d) ki = None then Inl (InvariantViolated ''DeltaState::delete_keyimage'')
      else Inr (d\<lparr>m_keyimages := RBT.delete ki (m_keyimages d)\<rparr>))"

definition delta_read_keyimage :: "state_reads \<Rightarrow> delta_state \<Rightarrow> bytes \<Rightarrow> u32 option result" where
  "delta_read_keyimage P d ki =
     (case RBT.lookup (m_keyimages d) ki of None \<Rightarrow> rd_keyimage P ki | Some _ \<Rightarrow> Inr (Some (m_block_height d)))"

definition delta_push_amount_output ::
  "state_reads \<Rightarrow> delta_state \<Rightarrow> u64 \<Rightarrow> u64 \<Rightarrow> u32 \<Rightarrow> bytes \<Rightarrow> (delta_state \<times> u32) result" where
  "delta_push_amount_output P d amount ut block_height pk =
     bindR (rd_next_global_index P amount) (\<lambda>pg.
       let ga = delta_outputs d amount @ [(ut, pk)]
       in Inr (d\<lparr>m_global_amounts := RBT.insert amount ga (m_global_amounts d)\<rparr>, pg + word_of_nat (length ga) - 1))"

definition delta_pop_amount_output :: "delta_state \<Rightarrow> u64 \<Rightarrow> u64 \<Rightarrow> bytes \<Rightarrow> delta_state result" where
  "delta_pop_amount_output d amount ut pk =
     (let el = delta_outputs d amount
      in if el = [] then Inl (InvariantViolated ''DeltaState::pop_amount_output underflow'')
         else if last el \<noteq> (ut, pk) then Inl (InvariantViolated ''DeltaState::pop_amount_output wrong element'')
         else Inr (d\<lparr>m_global_amounts := RBT.insert amount (butlast el) (m_global_amounts d)\<rparr>))"

definition delta_next_global_index :: "state_reads \<Rightarrow> delta_state \<Rightarrow> u64 \<Rightarrow> u32 result" where
  "delta_next_global_index P d amount =
     bindR (rd_next_global_index P amount) (\<lambda>pg.
       Inr (case RBT.lookup (m_global_amounts d) amount of None \<Rightarrow> pg | Some l \<Rightarrow> word_of_nat (length l) + pg))"

definition delta_read_amount_output :: "state_reads \<Rightarrow> delta_state \<Rightarrow> u64 \<Rightarrow> u32 \<Rightarrow> output_data option result" where
  "delta_read_amount_output P d amount global_index =
     bindR (rd_next_global_index P amount) (\<lambda>pg.
       if global_index < pg then rd_amount_output P amount global_index
       else
         let i = unat (global_index - pg); l = delta_outputs d amount
         in if length l \<le> i then Inr None
            else Inr (Some \<lparr>od_unlock_time = fst (l ! i), od_public_key = snd (l ! i), od_height = m_block_height d, od_spent = False\<rparr>))"

definition delta_spend_output :: "delta_state \<Rightarrow> u64 \<Rightarrow> u32 \<Rightarrow> delta_state result" where
  "delta_spend_output d amount global_index = Inr (d\<lparr>m_spent_outputs := m_spent_outputs d @ [(amount, global_index)]\<rparr>)"

definition delta_clear :: "delta_state \<Rightarrow> u32 \<Rightarrow> delta_state" where
  "delta_clear d new_block_height = d\<lparr>m_block_height := new_block_height, m_keyimages := RBT.empty,
     m_global_amounts := RBT.empty, m_spent_outputs := []\<rparr>"

definition delta_view :: "state_reads \<Rightarrow> delta_state \<Rightarrow> state_reads" where
  "delta_view P d = \<lparr>rd_keyimage = delta_read_keyimage P d, rd_next_global_index = delta_next_global_index P d,
     rd_amount_output = delta_read_amount_output P d\<rparr>"

text \<open>\<open>apply\<close> works on every implementation of the interface, through its virtual methods.\<close>

definition push_all ::
  "('s \<Rightarrow> u64 \<Rightarrow> u64 \<Rightarrow> u32 \<Rightarrow> bytes \<Rightarrow> ('s \<times> u32) result) \<Rightarrow> u32 \<Rightarrow> 's \<Rightarrow> u64 \<times> (u64 \<times> bytes) list \<Rightarrow> 's result" where
  "push_all push height s amp =
     foldR (\<lambda>s el. bindR (push s (fst amp) (fst el) height (snd el)) (\<lambda>(s', _). Inr s')) s (snd amp)"

definition delta_apply ::
  "('s \<Rightarrow> bytes \<Rightarrow> u32 \<Rightarrow> 's result) \<Rightarrow> ('s \<Rightarrow> u64 \<Rightarrow> u64 \<Rightarrow> u32 \<Rightarrow> bytes \<Rightarrow> ('s \<times> u32) result) \<Rightarrow>
   ('s \<Rightarrow> u64 \<Rightarrow> u32 \<Rightarrow> 's result) \<Rightarrow> delta_state \<Rightarrow> 's \<Rightarrow> 's result" where
  "delta_apply store push spend d s =
     bindR (foldR (\<lambda>s ki. store s (fst ki) (snd ki)) s (RBT.entries (m_keyimages d))) (\<lambda>s1.
     bindR (foldR (push_all push (m_block_height d)) s1 (RBT.entries (m_global_amounts d))) (\<lambda>s2.
       foldR (\<lambda>s mo. spend s (fst mo) (snd mo)) s2 (m_spent_outputs d)))"

section \<open>The abstract ledger\<close>

record ledger =
  lg_keyimages :: "bytes \<rightharpoonup> u32"
  lg_outputs :: "u64 \<Rightarrow> output_data list"

definition lg_store :: "ledger \<Rightarrow> bytes \<Rightarrow> u32 \<Rightarrow> ledger" where
  "lg_store L ki h = L\<lparr>lg_keyimages := (lg_keyimages L)(ki \<mapsto> h)\<rparr>"

definition lg_push :: "ledger \<Rightarrow> u64 \<Rightarrow> output_data \<Rightarrow> ledger" where
  "lg_push L a od = L\<lparr>lg_outputs := (lg_outputs L)(a := lg_outputs L a @ [od])\<rparr>"

definition lg_set_spent :: "ledger \<Rightarrow> u64 \<Rightarrow> u32 \<Rightarrow> bool \<Rightarrow> ledger" where
  "lg_set_spent L a gi sp =
     (if unat gi < length (lg_outputs L a)
      then L\<lparr>lg_outputs := (lg_outputs L)(a := (lg_outputs L a)[unat gi := (lg_outputs L a ! unat gi)\<lparr>od_spent := sp\<rparr>])\<rparr>
      else L)"

text \<open>What the interface reads from a ledger.\<close>

definition ledger_view :: "ledger \<Rightarrow> state_reads \<Rightarrow> bool" where
  "ledger_view L P \<longleftrightarrow>
     (\<forall>ki. length ki = 32 \<longrightarrow> rd_keyimage P ki = Inr (lg_keyimages L ki)) \<and>
     (\<forall>a. length (lg_outputs L a) < 2 ^ 32 \<and> rd_next_global_index P a = Inr (word_of_nat (length (lg_outputs L a)))) \<and>
     (\<forall>a gi. rd_amount_output P a gi = Inr (if unat gi < length (lg_outputs L a) then Some (lg_outputs L a ! unat gi) else None))"

section \<open>What an implementation promises\<close>

text \<open>
  \<open>rel s L\<close> says that the state \<open>s\<close> holds the ledger \<open>L\<close>; all the changes are made at the height \<open>ht\<close>. A new key image
  can be stored and a new output gets the next index, as long as the indexes fit 32 bits.
\<close>

definition new_output :: "u32 \<Rightarrow> u64 \<times> bytes \<Rightarrow> output_data" where
  "new_output ht el = \<lparr>od_unlock_time = fst el, od_public_key = snd el, od_height = ht, od_spent = False\<rparr>"

definition lg_append :: "u32 \<Rightarrow> ledger \<Rightarrow> (u64 \<Rightarrow> (u64 \<times> bytes) list) \<Rightarrow> ledger" where
  "lg_append ht L new = L\<lparr>lg_outputs := (\<lambda>a. lg_outputs L a @ map (new_output ht) (new a))\<rparr>"

definition lg_store_all :: "ledger \<Rightarrow> (bytes \<rightharpoonup> u32) \<Rightarrow> ledger" where
  "lg_store_all L new = L\<lparr>lg_keyimages := lg_keyimages L ++ new\<rparr>"

definition lg_spend_all :: "ledger \<Rightarrow> (u64 \<times> u32) list \<Rightarrow> ledger" where
  "lg_spend_all L spent = foldl (\<lambda>L mo. lg_set_spent L (fst mo) (snd mo) True) L spent"

lemma lg_sel [simp]:
  "lg_outputs (lg_store L ki h) = lg_outputs L"
  "lg_outputs (lg_store_all L new) = lg_outputs L"
  "lg_keyimages (lg_push L a od) = lg_keyimages L"
  "lg_keyimages (lg_append ht L outs) = lg_keyimages L"
  "lg_keyimages (lg_store L ki h) = (lg_keyimages L)(ki \<mapsto> h)"
  "lg_keyimages (lg_store_all L new) = lg_keyimages L ++ new"
  "lg_outputs (lg_push L a od) = (lg_outputs L)(a := lg_outputs L a @ [od])"
  "lg_outputs (lg_append ht L outs) a = lg_outputs L a @ map (new_output ht) (outs a)"
  "lg_keyimages (lg_set_spent L a gi sp) = lg_keyimages L"
  by (simp_all add: lg_store_def lg_store_all_def lg_push_def lg_append_def lg_set_spent_def)

lemma new_output_sel [simp]:
  "od_unlock_time (new_output ht el) = fst el" "od_public_key (new_output ht el) = snd el"
  "od_height (new_output ht el) = ht" "od_spent (new_output ht el) = False"
  by (simp_all add: new_output_def)

lemma length_lg_set_spent [simp]: "length (lg_outputs (lg_set_spent L a gi sp) b) = length (lg_outputs L b)"
  by (simp add: lg_set_spent_def)

locale ledger_store =
  fixes rel :: "'s \<Rightarrow> ledger \<Rightarrow> bool"
    and view :: "'s \<Rightarrow> state_reads"
    and store :: "'s \<Rightarrow> bytes \<Rightarrow> u32 \<Rightarrow> 's result"
    and push :: "'s \<Rightarrow> u64 \<Rightarrow> u64 \<Rightarrow> u32 \<Rightarrow> bytes \<Rightarrow> ('s \<times> u32) result"
    and ht :: u32
  assumes view_law: "rel s L \<Longrightarrow> ledger_view L (view s)"
    and store_law: "rel s L \<Longrightarrow> length ki = 32 \<Longrightarrow> lg_keyimages L ki = None \<Longrightarrow>
      \<exists>s'. store s ki ht = Inr s' \<and> rel s' (lg_store L ki ht)"
    and push_law: "rel s L \<Longrightarrow> length pk = 32 \<Longrightarrow> Suc (length (lg_outputs L a)) < 2 ^ 32 \<Longrightarrow>
      \<exists>s'. push s a ut ht pk = Inr (s', word_of_nat (length (lg_outputs L a))) \<and> rel s' (lg_push L a (new_output ht (ut, pk)))"
begin

lemma store_entries:
  assumes "rel s L" and "distinct (map fst es)" and "\<forall>(ki, h) \<in> set es. length ki = 32 \<and> h = ht \<and> lg_keyimages L ki = None"
  shows "\<exists>s'. foldR (\<lambda>s ki. store s (fst ki) (snd ki)) s es = Inr s' \<and> rel s' (lg_store_all L (map_of es))"
  using assms
proof (induction es arbitrary: s L)
  case Nil
  then show ?case by (simp add: lg_store_all_def)
next
  case (Cons e es)
  obtain ki h where e: "e = (ki, h)" by force
  obtain s1 where s1: "store s ki ht = Inr s1" "rel s1 (lg_store L ki ht)"
    using store_law[of s L ki] Cons.prems(1,3) e by auto
  have ne: "b \<noteq> ki" if "(b, x) \<in> set es" for b x using Cons.prems(2) e image_eqI[of b fst "(b, x)", OF _ that] by auto
  have "\<forall>(ki', h) \<in> set es. length ki' = 32 \<and> h = ht \<and> lg_keyimages (lg_store L ki ht) ki' = None"
    using Cons.prems(3) ne by auto
  then obtain s' where s': "foldR (\<lambda>s ki. store s (fst ki) (snd ki)) s1 es = Inr s'" "rel s' (lg_store_all (lg_store L ki ht) (map_of es))"
    using Cons.IH[OF s1(2)] Cons.prems(2) by auto
  have "ki \<notin> dom (map_of es)" using Cons.prems(2) e by (simp add: dom_map_of_conv_image_fst)
  then have "lg_store_all (lg_store L ki ht) (map_of es) = lg_store_all L (map_of (e # es))"
    using Cons.prems(3) by (simp add: lg_store_all_def lg_store_def e map_add_upd_left)
  then have "rel s' (lg_store_all L (map_of (e # es)))" using s'(2) by (simp only:)
  moreover have "foldR (\<lambda>s ki. store s (fst ki) (snd ki)) s (e # es) = Inr s'" using s1(1) s'(1) e Cons.prems(3) by simp
  ultimately show ?case by blast
qed

lemma push_elements:
  assumes "rel s L" and "length (lg_outputs L a) + length els < 2 ^ 32" and "\<forall>el \<in> set els. length (snd el) = 32"
  shows "\<exists>s'. push_all push ht s (a, els) = Inr s' \<and> rel s' (lg_append ht L (\<lambda>b. if b = a then els else []))"
  using assms
proof (induction els arbitrary: s L)
  case Nil
  then show ?case by (simp add: push_all_def lg_append_def)
next
  case (Cons el els)
  let ?L = "lg_push L a (new_output ht el)"
  obtain s1 where s1: "push s a (fst el) ht (snd el) = Inr (s1, word_of_nat (length (lg_outputs L a)))" "rel s1 ?L"
    using push_law[of s L "snd el" a "fst el"] Cons.prems by auto
  obtain s' where s': "push_all push ht s1 (a, els) = Inr s'" "rel s' (lg_append ht ?L (\<lambda>b. if b = a then els else []))"
    using Cons.IH[OF s1(2)] Cons.prems(2,3) by auto
  have "lg_append ht ?L (\<lambda>b. if b = a then els else []) = lg_append ht L (\<lambda>b. if b = a then el # els else [])"
    by (simp add: lg_append_def lg_push_def fun_eq_iff)
  then show ?case using s1(1) s' by (simp add: push_all_def)
qed

lemma push_entries:
  assumes "rel s L" and "distinct (map fst es)"
    and "\<forall>(a, els) \<in> set es. length (lg_outputs L a) + length els < 2 ^ 32 \<and> (\<forall>el \<in> set els. length (snd el) = 32)"
  shows "\<exists>s'. foldR (push_all push ht) s es = Inr s' \<and>
    rel s' (lg_append ht L (\<lambda>a. case map_of es a of None \<Rightarrow> [] | Some els \<Rightarrow> els))"
  using assms
proof (induction es arbitrary: s L)
  case Nil
  then show ?case by (simp add: lg_append_def)
next
  case (Cons e es)
  obtain a els where e: "e = (a, els)" by force
  let ?L = "lg_append ht L (\<lambda>b. if b = a then els else [])"
  obtain s1 where s1: "push_all push ht s (a, els) = Inr s1" "rel s1 ?L"
    using push_elements[of s L a els] Cons.prems(1,3) e by auto
  have ne: "b \<noteq> a" if "(b, x) \<in> set es" for b x using Cons.prems(2) e image_eqI[of b fst "(b, x)", OF _ that] by auto
  have "\<forall>(b, els) \<in> set es. length (lg_outputs ?L b) + length els < 2 ^ 32 \<and> (\<forall>el \<in> set els. length (snd el) = 32)"
    using Cons.prems(3) ne by auto
  then obtain s' where s': "foldR (push_all push ht) s1 es = Inr s'"
      "rel s' (lg_append ht ?L (\<lambda>a. case map_of es a of None \<Rightarrow> [] | Some els \<Rightarrow> els))"
    using Cons.IH[OF s1(2)] Cons.prems(2) by auto
  have "map_of es a = None" using Cons.prems(2) e by (simp add: map_of_eq_None_iff)
  then have "lg_append ht ?L (\<lambda>a. case map_of es a of None \<Rightarrow> [] | Some els \<Rightarrow> els) =
      lg_append ht L (\<lambda>a. case map_of (e # es) a of None \<Rightarrow> [] | Some els \<Rightarrow> els)"
    by (simp add: lg_append_def e fun_eq_iff)
  then show ?case using s1(1) s' e by simp
qed

end

section \<open>The delta state keeps a ledger\<close>

definition delta_ok :: "ledger \<Rightarrow> delta_state \<Rightarrow> bool" where
  "delta_ok L d \<longleftrightarrow>
     (\<forall>ki h. RBT.lookup (m_keyimages d) ki = Some h \<longrightarrow> length ki = 32 \<and> h = m_block_height d \<and> lg_keyimages L ki = None) \<and>
     (\<forall>a. length (lg_outputs L a) + length (delta_outputs d a) < 2 ^ 32 \<and> (\<forall>el \<in> set (delta_outputs d a). length (snd el) = 32))"

definition delta_ledger :: "ledger \<Rightarrow> delta_state \<Rightarrow> ledger" where
  "delta_ledger L d = lg_append (m_block_height d) (lg_store_all L (RBT.lookup (m_keyimages d))) (delta_outputs d)"

definition delta_rel :: "state_reads \<Rightarrow> ledger \<Rightarrow> u32 \<Rightarrow> delta_state \<Rightarrow> ledger \<Rightarrow> bool" where
  "delta_rel P L0 ht d L \<longleftrightarrow> ledger_view L0 P \<and> delta_ok L0 d \<and> m_block_height d = ht \<and> L = delta_ledger L0 d"

lemma delta_outputs_insert [simp]:
  "delta_outputs (d\<lparr>m_global_amounts := RBT.insert a l (m_global_amounts d)\<rparr>) = (delta_outputs d)(a := l)"
  by (simp add: delta_outputs_def fun_eq_iff)

lemma delta_outputs_other [simp]:
  "delta_outputs (d\<lparr>m_keyimages := k\<rparr>) = delta_outputs d"
  "delta_outputs (d\<lparr>m_spent_outputs := sp\<rparr>) = delta_outputs d"
  by (simp_all add: delta_outputs_def fun_eq_iff)

lemma delta_outputs_new [simp]: "delta_outputs (new_delta h t) = (\<lambda>_. [])"
  by (simp add: delta_outputs_def new_delta_def fun_eq_iff)

lemma new_delta_sel [simp]:
  "RBT.lookup (m_keyimages (new_delta h t)) = Map.empty" "m_spent_outputs (new_delta h t) = []"
  "m_block_height (new_delta h t) = h" "m_unlock_timestamp (new_delta h t) = t"
  by (simp_all add: new_delta_def)

lemma delta_ledger_outputs: "lg_outputs (delta_ledger L d) a = lg_outputs L a @ map (new_output (m_block_height d)) (delta_outputs d a)"
  by (simp add: delta_ledger_def)

lemma delta_ledger_keyimages: "lg_keyimages (delta_ledger L d) = lg_keyimages L ++ RBT.lookup (m_keyimages d)"
  by (simp add: delta_ledger_def)

lemma delta_next_length:
  "delta_next_global_index P d a = bindR (rd_next_global_index P a) (\<lambda>pg. Inr (word_of_nat (length (delta_outputs d a)) + pg))"
  by (simp add: delta_next_global_index_def delta_outputs_def split: option.splits)

lemma delta_view_ledger:
  assumes "delta_rel P L0 ht d L"
  shows "ledger_view L (delta_view P d)"
proof -
  note r = assms[unfolded delta_rel_def]
  have P: "\<And>ki. length ki = 32 \<Longrightarrow> rd_keyimage P ki = Inr (lg_keyimages L0 ki)"
      "\<And>a. rd_next_global_index P a = Inr (word_of_nat (length (lg_outputs L0 a)))"
      "\<And>a gi. rd_amount_output P a gi = Inr (if unat gi < length (lg_outputs L0 a) then Some (lg_outputs L0 a ! unat gi) else None)"
    and ok: "\<And>a. length (lg_outputs L0 a) + length (delta_outputs d a) < 2 ^ 32"
      "\<And>ki h. RBT.lookup (m_keyimages d) ki = Some h \<Longrightarrow> h = m_block_height d"
    using r by (auto simp: ledger_view_def delta_ok_def)
  have L: "L = delta_ledger L0 d" using r by simp
  have n: "unat (word_of_nat (length (lg_outputs L0 a)) :: u32) = length (lg_outputs L0 a)" for a
    using ok(1)[of a] by (simp add: unat_of_nat)
  have "delta_read_keyimage P d ki = Inr (lg_keyimages L ki)" if "length ki = 32" for ki
    using that P(1) ok(2) by (auto simp: delta_read_keyimage_def L delta_ledger_keyimages map_add_def split: option.splits)
  moreover have "delta_next_global_index P d a = Inr (word_of_nat (length (lg_outputs L a)))" for a
    by (simp add: delta_next_length P(2) L delta_ledger_outputs add.commute)
  moreover have "delta_read_amount_output P d a gi = Inr (if unat gi < length (lg_outputs L a) then Some (lg_outputs L a ! unat gi) else None)" for a gi
  proof (cases "unat gi < length (lg_outputs L0 a)")
    case True
    then have "gi < word_of_nat (length (lg_outputs L0 a))" by (simp add: word_less_nat_alt n)
    then show ?thesis using True by (simp add: delta_read_amount_output_def P(2,3) L delta_ledger_outputs nth_append)
  next
    case False
    then have "\<not> gi < word_of_nat (length (lg_outputs L0 a))" by (simp add: word_less_nat_alt n)
    moreover from this have "unat (gi - word_of_nat (length (lg_outputs L0 a))) = unat gi - length (lg_outputs L0 a)"
      by (simp add: unat_sub n not_less)
    ultimately show ?thesis using False
      by (simp add: delta_read_amount_output_def P(2) L delta_ledger_outputs nth_append new_output_def Let_def) linarith
  qed
  moreover have "length (lg_outputs L a) < 2 ^ 32" for a using ok(1)[of a] by (simp add: L delta_ledger_outputs)
  ultimately show ?thesis by (simp add: ledger_view_def delta_view_def)
qed

interpretation dl: ledger_store "delta_rel P L0 ht" "delta_view P" delta_store_keyimage "delta_push_amount_output P" ht for P L0 ht
proof
  fix s L assume "delta_rel P L0 ht s L"
  then show "ledger_view L (delta_view P s)" by (rule delta_view_ledger)
next
  fix s L and ki :: bytes
  assume r: "delta_rel P L0 ht s L" and ki: "length ki = 32" "lg_keyimages L ki = None"
  then have n: "RBT.lookup (m_keyimages s) ki = None" "lg_keyimages L0 ki = None"
    by (auto simp: delta_rel_def delta_ledger_keyimages)
  define s' where "s' = s\<lparr>m_keyimages := RBT.insert ki ht (m_keyimages s)\<rparr>"
  have "delta_ok L0 s'" using r ki n by (auto simp: delta_rel_def delta_ok_def s'_def)
  moreover have "delta_ledger L0 s' = lg_store L ki ht"
    using r by (simp add: delta_rel_def delta_ledger_def s'_def lg_append_def lg_store_def lg_store_all_def)
  ultimately have "delta_rel P L0 ht s' (lg_store L ki ht)" using r by (simp add: delta_rel_def s'_def)
  then show "\<exists>s'. delta_store_keyimage s ki ht = Inr s' \<and> delta_rel P L0 ht s' (lg_store L ki ht)"
    using n by (auto simp: delta_store_keyimage_def s'_def)
next
  fix s L a ut and pk :: bytes
  assume r: "delta_rel P L0 ht s L" and pk: "length pk = 32" and sz: "Suc (length (lg_outputs L a)) < 2 ^ 32"
  define s' where "s' = s\<lparr>m_global_amounts := RBT.insert a (delta_outputs s a @ [(ut, pk)]) (m_global_amounts s)\<rparr>"
  have o: "delta_outputs s' = (delta_outputs s)(a := delta_outputs s a @ [(ut, pk)])" by (simp add: s'_def)
  have L: "L = delta_ledger L0 s" using r by (simp add: delta_rel_def)
  have "delta_ok L0 s'" using r pk sz by (auto simp: delta_rel_def delta_ok_def o L delta_ledger_outputs) (auto simp: s'_def)
  moreover have "delta_ledger L0 s' = lg_push L a (new_output ht (ut, pk))"
    using r by (intro ledger.equality) (auto simp: delta_rel_def delta_ledger_outputs delta_ledger_keyimages o fun_eq_iff, auto simp: s'_def)
  ultimately have "delta_rel P L0 ht s' (lg_push L a (new_output ht (ut, pk)))" using r by (simp add: delta_rel_def s'_def)
  moreover have "delta_push_amount_output P s a ut ht pk = Inr (s', word_of_nat (length (lg_outputs L a)))"
    using r by (simp add: delta_push_amount_output_def delta_rel_def ledger_view_def L delta_ledger_outputs s'_def Let_def)
  ultimately show "\<exists>s'. delta_push_amount_output P s a ut ht pk = Inr (s', word_of_nat (length (lg_outputs L a))) \<and>
      delta_rel P L0 ht s' (lg_push L a (new_output ht (ut, pk)))" by blast
qed

section \<open>Applying a delta\<close>

lemma lg_spend_all_simps [simp]:
  "lg_spend_all L [] = L"
  "lg_spend_all L (mo # spent) = lg_spend_all (lg_set_spent L (fst mo) (snd mo) True) spent"
  by (simp_all add: lg_spend_all_def)

lemma delta_outputs_map_of: "delta_outputs d a = (case map_of (RBT.entries (m_global_amounts d)) a of None \<Rightarrow> [] | Some els \<Rightarrow> els)"
  by (simp add: delta_outputs_def)

context ledger_store
begin

lemma apply_stores_pushes:
  assumes "rel s L" and "delta_ok L d" and "m_block_height d = ht"
  shows "\<exists>s1 s2. foldR (\<lambda>s ki. store s (fst ki) (snd ki)) s (RBT.entries (m_keyimages d)) = Inr s1 \<and>
    foldR (push_all push ht) s1 (RBT.entries (m_global_amounts d)) = Inr s2 \<and> rel s2 (delta_ledger L d)"
proof -
  have kis: "\<forall>(ki, h) \<in> set (RBT.entries (m_keyimages d)). length ki = 32 \<and> h = ht \<and> lg_keyimages L ki = None"
    using assms(2,3) by (auto simp: delta_ok_def RBT.lookup_in_tree[symmetric])
  obtain s1 where s1: "foldR (\<lambda>s ki. store s (fst ki) (snd ki)) s (RBT.entries (m_keyimages d)) = Inr s1"
      "rel s1 (lg_store_all L (RBT.lookup (m_keyimages d)))"
    using store_entries[OF assms(1) RBT.distinct_entries kis] by auto
  have "length (lg_outputs L a) + length els < 2 ^ 32 \<and> (\<forall>el \<in> set els. length (snd el) = 32)"
    if "(a, els) \<in> set (RBT.entries (m_global_amounts d))" for a els
  proof -
    have "delta_outputs d a = els" using that by (simp add: delta_outputs_def RBT.lookup_in_tree[symmetric])
    then show ?thesis using assms(2) unfolding delta_ok_def by blast
  qed
  then have els: "\<forall>(a, els) \<in> set (RBT.entries (m_global_amounts d)).
      length (lg_outputs (lg_store_all L (RBT.lookup (m_keyimages d))) a) + length els < 2 ^ 32 \<and> (\<forall>el \<in> set els. length (snd el) = 32)"
    by auto
  show ?thesis using s1(1) push_entries[OF s1(2) RBT.distinct_entries els] assms(3)
    by (simp add: delta_ledger_def delta_outputs_map_of[abs_def])
qed

end

text \<open>An implementation in which spending marks the output.\<close>

locale ledger_spender = ledger_store +
  fixes spend :: "'a \<Rightarrow> u64 \<Rightarrow> u32 \<Rightarrow> 'a result"
  assumes spend_law: "rel s L \<Longrightarrow> \<exists>s'. spend s a gi = Inr s' \<and> rel s' (lg_set_spent L a gi True)"
begin

lemma spend_list:
  assumes "rel s L"
  shows "\<exists>s'. foldR (\<lambda>s mo. spend s (fst mo) (snd mo)) s spent = Inr s' \<and> rel s' (lg_spend_all L spent)"
  using assms
proof (induction spent arbitrary: s L)
  case (Cons mo spent)
  obtain s1 where "spend s (fst mo) (snd mo) = Inr s1" "rel s1 (lg_set_spent L (fst mo) (snd mo) True)"
    using spend_law[OF Cons.prems] by blast
  then show ?case using Cons.IH[of s1] by auto
qed simp

lemma delta_apply_ledger:
  assumes "rel s L" and "delta_ok L d" and "m_block_height d = ht"
  shows "\<exists>s'. delta_apply store push spend d s = Inr s' \<and> rel s' (lg_spend_all (delta_ledger L d) (m_spent_outputs d))"
proof -
  obtain s1 s2 where s: "foldR (\<lambda>s ki. store s (fst ki) (snd ki)) s (RBT.entries (m_keyimages d)) = Inr s1"
      "foldR (push_all push ht) s1 (RBT.entries (m_global_amounts d)) = Inr s2" "rel s2 (delta_ledger L d)"
    using apply_stores_pushes[OF assms] by blast
  then show ?thesis using spend_list[OF s(3)] assms(3) by (simp add: delta_apply_def)
qed

end

text \<open>A delta applied to a delta: the spent outputs are recorded for later.\<close>

lemma delta_spend_list:
  "foldR (\<lambda>s mo. delta_spend_output s (fst mo) (snd mo)) d spent = Inr (d\<lparr>m_spent_outputs := m_spent_outputs d @ spent\<rparr>)"
  by (induction spent arbitrary: d) (simp_all add: delta_spend_output_def)

lemma delta_rel_spend: "delta_rel P L0 ht d L \<Longrightarrow> delta_rel P L0 ht (d\<lparr>m_spent_outputs := sp\<rparr>) L"
  by (auto simp: delta_rel_def delta_ok_def delta_ledger_def)

lemma delta_view_spend [simp]: "delta_view P (d\<lparr>m_spent_outputs := sp\<rparr>) = delta_view P d"
  by (auto simp: delta_view_def delta_read_keyimage_def delta_next_global_index_def delta_read_amount_output_def fun_eq_iff Let_def
      split: option.splits cong: if_cong)

text \<open>Pushes and stores do not touch the list of spent outputs.\<close>

lemma delta_store_spent: "delta_store_keyimage d ki h = Inr d' \<Longrightarrow> m_spent_outputs d' = m_spent_outputs d"
  by (auto simp: delta_store_keyimage_def split: if_splits)

lemma delta_push_spent: "delta_push_amount_output P d a ut h pk = Inr (d', g) \<Longrightarrow> m_spent_outputs d' = m_spent_outputs d"
  by (auto simp: delta_push_amount_output_def Let_def bindR_eq_Inr_iff)

lemma push_all_spent:
  assumes "push_all (delta_push_amount_output P) ht d amp = Inr d'"
  shows "m_spent_outputs d' = m_spent_outputs d"
  using foldR_invariant[where P = "\<lambda>x. m_spent_outputs x = m_spent_outputs d", OF _ refl assms[unfolded push_all_def]]
  by (force simp: bindR_eq_Inr_iff dest: delta_push_spent)

lemma delta_apply_delta:
  assumes r: "delta_rel P L0 ht d L" and t: "delta_ok L t" and h: "m_block_height t = ht"
  shows "\<exists>d'. delta_apply delta_store_keyimage (delta_push_amount_output P) delta_spend_output t d = Inr d' \<and>
    delta_rel P L0 ht d' (delta_ledger L t) \<and> m_spent_outputs d' = m_spent_outputs d @ m_spent_outputs t"
proof -
  obtain s1 s2 where s: "foldR (\<lambda>s ki. delta_store_keyimage s (fst ki) (snd ki)) d (RBT.entries (m_keyimages t)) = Inr s1"
      "foldR (push_all (delta_push_amount_output P) ht) s1 (RBT.entries (m_global_amounts t)) = Inr s2"
      "delta_rel P L0 ht s2 (delta_ledger L t)"
    using dl.apply_stores_pushes[OF r t h] by blast
  have "m_spent_outputs s1 = m_spent_outputs d"
    by (rule foldR_invariant[where P = "\<lambda>x. m_spent_outputs x = m_spent_outputs d", OF _ refl s(1)]) (auto dest: delta_store_spent)
  then have "m_spent_outputs s2 = m_spent_outputs d"
    by (intro foldR_invariant[where P = "\<lambda>x. m_spent_outputs x = m_spent_outputs d", OF _ _ s(2)]) (auto dest: push_all_spent)
  then show ?thesis using s h by (auto simp: delta_apply_def delta_spend_list intro: delta_rel_spend)
qed

section \<open>The database keeps a ledger\<close>

interpretation codata: prefix_codec write_output_data read_output_data "\<lambda>v. length (od_public_key v) = 32"
proof
  fix v :: output_data and rest assume "length (od_public_key v) = 32"
  then show "read_output_data (write_output_data v @ rest) = Inr (v, rest)"
    by (simp add: read_output_data_def write_output_data_def read_bool_def write_bool_def part_codec_simps read_exact_def)
qed

lemma write_output_data_ne [simp]: "write_output_data v \<noteq> []"
  by (simp add: write_output_data_def)

lemma amount_prefix_eq [simp]: "amount_prefix a @ x = amount_prefix b @ y \<longleftrightarrow> a = b \<and> x = y"
  using sqlite4.enc_prefix_free[where v = a and w = b and x = x and y = y] by (auto simp: amount_prefix_def)

lemma ucast_u32_eq [simp]: "(ucast (a :: u32) :: u64) = ucast b \<longleftrightarrow> a = b"
  by (metis unat_ucast_u32 word_unat_eq_iff)

lemma ucast_ucast_u32 [simp]: "(ucast (ucast (w :: u32) :: u64) :: u32) = w"
  by (simp add: word_unat_eq_iff unat_ucast_less unat_ucast_u32)

lemma amount_key_eq [simp]: "amount_key a g = amount_key b h \<longleftrightarrow> a = b \<and> g = h"
  by (auto simp: amount_key_def sqlite4.enc_inject)

lemma ledger_keys [simp]:
  "keyimage_key k = keyimage_key k' \<longleftrightarrow> k = k'"
  "keyimage_key k \<noteq> amount_prefix a @ x" "amount_prefix a @ x \<noteq> keyimage_key k"
  "keyimage_key k \<noteq> amount_key a g" "amount_key a g \<noteq> keyimage_key k"
  by (auto simp: keyimage_key_def amount_prefix_def amount_key_def)

lemma length_amount_key: "length (amount_key a g) \<le> 19"
  using sqlite4_len_bounds by (simp add: amount_key_def amount_prefix_def length_write_varint_sqlite4 get_varint_sqlite4_size_def)

definition db_outputs_ok :: "db \<Rightarrow> (u64 \<Rightarrow> output_data list) \<Rightarrow> bool" where
  "db_outputs_ok d outs \<longleftrightarrow>
     (\<forall>a gi. unat gi < length (outs a) \<longrightarrow> RBT.lookup d (amount_key a gi) = Some (write_output_data (outs a ! unat gi))) \<and>
     (\<forall>a. \<forall>suffix \<in> keys_with d (amount_prefix a). \<exists>gi. unat gi < length (outs a) \<and> suffix = write_varint_sqlite4 (ucast (gi :: u32)))"

definition db_ledger :: "chain_state \<Rightarrow> ledger \<Rightarrow> bool" where
  "db_ledger s L \<longleftrightarrow>
     short_keys (m_db s) \<and> pool_ok (m_pool s) \<and>
     (\<forall>ki. RBT.lookup (m_db s) (keyimage_key ki) = map_option write_u32 (lg_keyimages L ki)) \<and>
     db_outputs_ok (m_db s) (lg_outputs L) \<and>
     (\<forall>a. length (lg_outputs L a) < 2 ^ 32 \<and> (\<forall>od \<in> set (lg_outputs L a). length (od_public_key od) = 32)) \<and>
     (\<forall>a n. RBT.lookup (m_next_gi_for_amount s) a = Some n \<longrightarrow> n = word_of_nat (length (lg_outputs L a)))"

lemma short_keys_put: "short_keys d \<Longrightarrow> RBT.lookup d' = (RBT.lookup d)(k \<mapsto> v) \<Longrightarrow> length k \<le> 128 \<Longrightarrow> short_keys d'"
  by (auto simp: short_keys_def max_key_size_def)

lemma short_keys_del: "short_keys d \<Longrightarrow> RBT.lookup d' = (RBT.lookup d)(k := None) \<Longrightarrow> short_keys d'"
  by (auto simp: short_keys_def)

lemma last_global_index_outputs:
  assumes "short_keys d" and "db_outputs_ok d outs" and sz: "length (outs a) < 2 ^ 32"
  shows "last_global_index d a = Inr (word_of_nat (length (outs a)))"
proof -
  have stored: "write_varint_sqlite4 (ucast gi) \<in> keys_with d (amount_prefix a)" if "unat gi < length (outs a)" for gi :: u32
    using assms(2) that by (auto simp: db_outputs_ok_def keys_with_def amount_key_def)
  show ?thesis
  proof (cases "db_rbegin d (amount_prefix a) []")
    case Nil
    then have "keys_with d (amount_prefix a) = {}" using db_rbegin_last[OF assms(1), of "amount_prefix a"] by simp
    then have "outs a = []" using stored[of 0] by auto
    then show ?thesis using Nil by (simp add: last_global_index_def)
  next
    case (Cons r rest)
    obtain suffix v where r: "r = (suffix, v)" by force
    have top: "RBT.lookup d (amount_prefix a @ suffix) = Some v" "\<forall>x \<in> keys_with d (amount_prefix a). x \<le> suffix"
      using db_rbegin_last[OF assms(1), of "amount_prefix a"] Cons r by auto
    have "suffix \<in> keys_with d (amount_prefix a)" using top(1) by (simp add: keys_with_def)
    then obtain gi where gi: "unat gi < length (outs a)" "suffix = write_varint_sqlite4 (ucast (gi :: u32))"
      using assms(2) unfolding db_outputs_ok_def by blast
    define m :: u32 where "m = word_of_nat (length (outs a) - 1)"
    have m: "unat m = length (outs a) - 1" using sz by (simp add: m_def unat_of_nat)
    have "\<not> gi < m"
    proof
      assume "gi < m"
      then have "key_less (write_varint_sqlite4 (ucast gi) @ []) (write_varint_sqlite4 (ucast m) @ [])"
        by (intro write_varint_sqlite4_less) (simp add: word_less_nat_alt unat_ucast_u32)
      then have "suffix < write_varint_sqlite4 (ucast m)" by (simp add: key_less_list gi(2))
      moreover have "write_varint_sqlite4 (ucast m) \<le> suffix" using stored[of m] m gi(1) top(2) by simp
      ultimately show False by simp
    qed
    then have "gi = m" using gi(1) m by (simp add: word_less_nat_alt word_unat_eq_iff)
    then have "gi + 1 = word_of_nat (length (outs a))" using gi(1) by (simp add: m_def of_nat_diff)
    moreover have "(ucast gi :: u64) \<le> 0xFFFFFFFF"
      using u32_less[of gi] by (simp add: word_le_nat_alt unat_ucast_u32 del: unsigned_less u32_less)
    ultimately show ?thesis using Cons r gi(2)
      by (simp add: last_global_index_def read_varint_sqlite4_str_def sqlite4.dec_enc_nil)
  qed
qed

lemma db_next_index: "db_ledger s L \<Longrightarrow> next_global_index_for_amount s a = Inr (word_of_nat (length (lg_outputs L a)))"
  by (auto simp: next_global_index_for_amount_def db_ledger_def last_global_index_outputs split: option.splits)

lemma db_ledger_view:
  assumes "db_ledger s L"
  shows "ledger_view L (state_view s)"
proof -
  have ki: "RBT.lookup (m_db s) (keyimage_key ki) = map_option write_u32 (lg_keyimages L ki)" for ki
    using assms by (simp add: db_ledger_def)
  have out: "RBT.lookup (m_db s) (amount_key a gi) =
      (if unat gi < length (lg_outputs L a) then Some (write_output_data (lg_outputs L a ! unat gi)) else None)" for a gi
  proof (cases "unat gi < length (lg_outputs L a)")
    case False
    have "write_varint_sqlite4 (ucast gi) \<notin> keys_with (m_db s) (amount_prefix a)"
    proof
      assume "write_varint_sqlite4 (ucast gi) \<in> keys_with (m_db s) (amount_prefix a)"
      then obtain g where "unat g < length (lg_outputs L a)" "write_varint_sqlite4 (ucast gi) = write_varint_sqlite4 (ucast (g :: u32))"
        using assms unfolding db_ledger_def db_outputs_ok_def by blast
      then show False using False by (simp add: sqlite4.enc_inject)
    qed
    then show ?thesis using False by (simp add: keys_with_def amount_key_def)
  qed (use assms in \<open>simp add: db_ledger_def db_outputs_ok_def\<close>)
  have pk: "length (od_public_key (lg_outputs L a ! n)) = 32" if "n < length (lg_outputs L a)" for a n
    using assms nth_mem[OF that] unfolding db_ledger_def by blast
  have "read_keyimage s ki = Inr (lg_keyimages L ki)" for ki
    using ki[of ki] by (cases "lg_keyimages L ki") (simp_all add: read_keyimage_def db_get_def from_binary_Inr from_binary_def cu32.dec_enc_nil)
  moreover have "read_amount_output s a gi = Inr (if unat gi < length (lg_outputs L a) then Some (lg_outputs L a ! unat gi) else None)" for a gi
    using out[of a gi] pk by (simp add: read_amount_output_def db_get_def from_binary_def codata.dec_enc_nil)
  ultimately show ?thesis
    using assms db_next_index[OF assms] by (simp add: ledger_view_def state_view_def db_ledger_def)
qed

text \<open>Changes of the database under one output key.\<close>

lemma keys_with_put: "RBT.lookup d' = (RBT.lookup d)(amount_key a gi \<mapsto> v) \<Longrightarrow>
    keys_with d' (amount_prefix b) = keys_with d (amount_prefix b) \<union> (if a = b then {write_varint_sqlite4 (ucast gi)} else {})"
  by (auto simp: keys_with_def amount_key_def)

lemma db_outputs_push:
  assumes ok: "db_outputs_ok d outs" and sz: "length (outs a) < 2 ^ 32"
    and d': "RBT.lookup d' = (RBT.lookup d)(amount_key a (word_of_nat (length (outs a))) \<mapsto> write_output_data od)"
  shows "db_outputs_ok d' (outs(a := outs a @ [od]))"
proof -
  let ?g = "word_of_nat (length (outs a)) :: u32"
  have g: "unat ?g = length (outs a)" using sz by (simp add: unat_of_nat)
  have "RBT.lookup d' (amount_key b gi) = Some (write_output_data ((outs(a := outs a @ [od])) b ! unat gi))"
    if "unat gi < length ((outs(a := outs a @ [od])) b)" for b gi
  proof (cases "b = a \<and> gi = ?g")
    case True
    then show ?thesis using g by (simp add: d')
  next
    case False
    then have "unat gi < length (outs b)" using that g word_unat_eq_iff[of gi ?g] by (auto split: if_splits)
    then show ?thesis using ok False by (auto simp: db_outputs_ok_def d' nth_append)
  qed
  moreover have "\<exists>gi. unat gi < length ((outs(a := outs a @ [od])) b) \<and> suffix = write_varint_sqlite4 (ucast (gi :: u32))"
    if "suffix \<in> keys_with d' (amount_prefix b)" for b suffix
  proof (cases "b = a \<and> suffix = write_varint_sqlite4 (ucast ?g)")
    case True
    then show ?thesis using g by (intro exI[of _ ?g]) simp
  next
    case False
    then have "suffix \<in> keys_with d (amount_prefix b)" using that by (auto simp: keys_with_put[OF d'] split: if_splits)
    then obtain gi where "unat gi < length (outs b)" "suffix = write_varint_sqlite4 (ucast (gi :: u32))"
      using ok unfolding db_outputs_ok_def by blast
    then show ?thesis by (intro exI[of _ gi]) auto
  qed
  ultimately show ?thesis unfolding db_outputs_ok_def by blast
qed

lemma db_outputs_update:
  assumes ok: "db_outputs_ok d outs" and gi: "unat gi < length (outs a)"
    and d': "RBT.lookup d' = (RBT.lookup d)(amount_key a gi \<mapsto> write_output_data od)"
  shows "db_outputs_ok d' (outs(a := (outs a)[unat gi := od]))"
proof -
  have "RBT.lookup d (amount_key a gi) \<noteq> None" using ok gi by (simp add: db_outputs_ok_def)
  then have "write_varint_sqlite4 (ucast gi) \<in> keys_with d (amount_prefix a)" by (simp add: keys_with_def amount_key_def)
  then have "keys_with d' (amount_prefix b) = keys_with d (amount_prefix b)" for b by (auto simp: keys_with_put[OF d'])
  moreover have "RBT.lookup d' (amount_key b g) = Some (write_output_data ((outs(a := (outs a)[unat gi := od])) b ! unat g))"
    if "unat g < length ((outs(a := (outs a)[unat gi := od])) b)" for b g
    using that ok gi word_unat_eq_iff[of gi g] by (auto simp: db_outputs_ok_def d' nth_list_update split: if_splits)
  ultimately show ?thesis using ok unfolding db_outputs_ok_def by (auto simp: Let_def split: if_splits)
qed

lemma db_outputs_pop:
  assumes ok: "db_outputs_ok d outs" and o: "outs a = xs @ [od]" and sz: "length (outs a) < 2 ^ 32"
    and d': "RBT.lookup d' = (RBT.lookup d)(amount_key a (word_of_nat (length xs)) := None)"
  shows "db_outputs_ok d' (outs(a := xs))"
proof -
  let ?g = "word_of_nat (length xs) :: u32"
  have g: "unat ?g = length xs" using sz o by (simp add: unat_of_nat)
  have k: "keys_with d' (amount_prefix b) = keys_with d (amount_prefix b) - (if a = b then {write_varint_sqlite4 (ucast ?g)} else {})" for b
    by (auto simp: keys_with_def d' amount_key_def)
  have "RBT.lookup d' (amount_key b gi) = Some (write_output_data ((outs(a := xs)) b ! unat gi))"
    if "unat gi < length ((outs(a := xs)) b)" for b gi
    using that ok g o by (auto simp: db_outputs_ok_def d' nth_append split: if_splits)
  moreover have "\<exists>gi. unat gi < length ((outs(a := xs)) b) \<and> suffix = write_varint_sqlite4 (ucast (gi :: u32))"
    if s: "suffix \<in> keys_with d' (amount_prefix b)" for b suffix
  proof -
    have "suffix \<in> keys_with d (amount_prefix b)" using s k by auto
    then obtain gi where gi: "unat gi < length (outs b)" "suffix = write_varint_sqlite4 (ucast (gi :: u32))"
      using ok unfolding db_outputs_ok_def by blast
    moreover have "gi \<noteq> ?g" if "b = a" using s k[of b] gi(2) that by auto
    ultimately have "unat gi < length ((outs(a := xs)) b)" using o g word_unat_eq_iff[of gi ?g] by (auto split: if_splits)
    then show ?thesis using gi(2) by blast
  qed
  ultimately show ?thesis unfolding db_outputs_ok_def by blast
qed

text \<open>The operations of the database state, each in terms of its ledger.\<close>

lemma db_keyimages_frame: "db_outputs_ok d outs \<Longrightarrow> RBT.lookup d' = (RBT.lookup d)(keyimage_key ki := v) \<Longrightarrow> db_outputs_ok d' outs"
  by (simp add: db_outputs_ok_def keys_with_def)

lemma pool_removed:
  assumes "pool_ok p"
  shows "\<exists>p'. (case RBT.lookup (memory_state_ki_tx p) ki of None \<Rightarrow> Inr p | Some tid \<Rightarrow> remove_from_pool p tid) = Inr p' \<and> pool_ok p'"
  using assms remove_from_pool_ok[OF assms] by (auto split: option.splits)

lemma store_keyimage_ledger:
  assumes r: "db_ledger s L" and ki: "length ki = 32" "lg_keyimages L ki = None"
  shows "\<exists>s'. store_keyimage s ki h = Inr s' \<and> db_ledger s' (lg_store L ki h)"
proof -
  have "RBT.lookup (m_db s) (keyimage_key ki) = None" using r ki(2) by (simp add: db_ledger_def)
  then obtain d where d: "db_put (m_db s) (keyimage_key ki) (write_u32 h) True = Inr d"
    using db_put_new by blast
  note l = lookup_put[OF d]
  obtain p where p: "(case RBT.lookup (memory_state_ki_tx (m_pool s)) ki of None \<Rightarrow> Inr (m_pool s) | Some tid \<Rightarrow> remove_from_pool (m_pool s) tid) = Inr p"
    "pool_ok p" using pool_removed[of "m_pool s" ki] r by (auto simp: db_ledger_def)
  have "short_keys d" using short_keys_put[OF _ l] r ki(1) by (simp add: db_ledger_def keyimage_key_def)
  moreover have "db_outputs_ok d (lg_outputs L)" using db_keyimages_frame[OF _ l] r by (simp add: db_ledger_def)
  ultimately have "db_ledger (s\<lparr>m_db := d, m_pool := p\<rparr>) (lg_store L ki h)"
    using r p(2) by (simp add: db_ledger_def l)
  moreover have "store_keyimage s ki h = Inr (s\<lparr>m_db := d, m_pool := p\<rparr>)"
    using d p(1) by (auto simp: store_keyimage_def Let_def split: option.splits)
  ultimately show ?thesis by blast
qed

lemma delete_keyimage_ledger:
  assumes r: "db_ledger s L" and ki: "lg_keyimages L ki \<noteq> None"
  shows "\<exists>s'. delete_keyimage s ki = Inr s' \<and> db_ledger s' (L\<lparr>lg_keyimages := (lg_keyimages L)(ki := None)\<rparr>)"
proof -
  have "RBT.lookup (m_db s) (keyimage_key ki) \<noteq> None" using r ki by (auto simp: db_ledger_def)
  then obtain d where d: "db_del (m_db s) (keyimage_key ki) True = Inr d" by (simp add: db_del_def)
  note l = lookup_del[OF d]
  have "short_keys d" using short_keys_del[OF _ l] r by (simp add: db_ledger_def)
  moreover have "db_outputs_ok d (lg_outputs L)" using db_keyimages_frame[OF _ l] r by (simp add: db_ledger_def)
  ultimately have "db_ledger (s\<lparr>m_db := d\<rparr>) (L\<lparr>lg_keyimages := (lg_keyimages L)(ki := None)\<rparr>)"
    using r by (simp add: db_ledger_def l)
  then show ?thesis using d by (simp add: delete_keyimage_def)
qed

lemma db_output_lookup:
  "db_ledger s L \<Longrightarrow> read_amount_output s a gi = Inr (if unat gi < length (lg_outputs L a) then Some (lg_outputs L a ! unat gi) else None)"
  using db_ledger_view[of s L] by (simp add: ledger_view_def state_view_def)

lemma db_output_absent:
  assumes "db_ledger s L" and "length (lg_outputs L a) \<le> unat gi"
  shows "RBT.lookup (m_db s) (amount_key a gi) = None"
proof (rule ccontr)
  assume "RBT.lookup (m_db s) (amount_key a gi) \<noteq> None"
  then have "write_varint_sqlite4 (ucast gi) \<in> keys_with (m_db s) (amount_prefix a)" by (simp add: keys_with_def amount_key_def)
  then obtain g where "unat g < length (lg_outputs L a)" "write_varint_sqlite4 (ucast gi) = write_varint_sqlite4 (ucast (g :: u32))"
    using assms(1) unfolding db_ledger_def db_outputs_ok_def by blast
  then show False using assms(2) by (simp add: sqlite4.enc_inject)
qed

lemma push_amount_output_ledger:
  assumes r: "db_ledger s L" and pk: "length pk = 32" and sz: "Suc (length (lg_outputs L a)) < 2 ^ 32"
  shows "\<exists>s'. push_amount_output s a ut h pk = Inr (s', word_of_nat (length (lg_outputs L a))) \<and> db_ledger s' (lg_push L a (new_output h (ut, pk)))"
proof -
  let ?g = "word_of_nat (length (lg_outputs L a)) :: u32"
  let ?od = "new_output h (ut, pk)"
  have "unat ?g = length (lg_outputs L a)" using sz by (simp add: unat_of_nat)
  then have "RBT.lookup (m_db s) (amount_key a ?g) = None" using db_output_absent[OF r] by simp
  then obtain d where d: "db_put (m_db s) (amount_key a ?g) (write_output_data ?od) True = Inr d"
    using db_put_new by blast
  note l = lookup_put[OF d]
  define s' where "s' = s\<lparr>m_db := d, m_next_gi_for_amount := RBT.insert a (?g + 1) (m_next_gi_for_amount s)\<rparr>"
  have "length (amount_key a ?g) \<le> 128" using length_amount_key[of a ?g] by simp
  then have "short_keys d" using short_keys_put[OF _ l] r by (simp add: db_ledger_def)
  moreover have "db_outputs_ok d ((lg_outputs L)(a := lg_outputs L a @ [?od]))"
    using db_outputs_push[of "m_db s" "lg_outputs L" a d ?od] l r sz by (simp add: db_ledger_def)
  ultimately have "db_ledger s' (lg_push L a ?od)"
    using r pk sz by (auto simp: db_ledger_def l s'_def add.commute)
  moreover have "push_amount_output s a ut h pk = Inr (s', ?g)"
    using d by (simp add: push_amount_output_def db_next_index[OF r] s'_def new_output_def)
  ultimately show ?thesis by blast
qed

lemma pop_amount_output_ledger:
  assumes r: "db_ledger s L" and o: "lg_outputs L a = xs @ [od]" and sp: "\<not> od_spent od"
  shows "\<exists>s'. pop_amount_output s a (od_unlock_time od) (od_public_key od) = Inr s' \<and>
    db_ledger s' (L\<lparr>lg_outputs := (lg_outputs L)(a := xs)\<rparr>)"
proof -
  let ?g = "word_of_nat (length xs) :: u32"
  have sz: "length (lg_outputs L a) < 2 ^ 32" using r by (simp add: db_ledger_def)
  have u: "unat (word_of_nat (length (lg_outputs L a)) :: u32) = length (lg_outputs L a)" using sz by (simp add: unat_of_nat)
  have g: "unat ?g = length xs" "(word_of_nat (length (lg_outputs L a)) :: u32) \<noteq> 0"
      "word_of_nat (length (lg_outputs L a)) - 1 = ?g"
    using sz o u by (simp add: unat_of_nat, force, simp)
  define s1 where "s1 = s\<lparr>m_next_gi_for_amount := RBT.insert a ?g (m_next_gi_for_amount s)\<rparr>"
  have read: "read_amount_output s1 a ?g = Inr (Some od)"
    using db_output_lookup[OF r, of a ?g] g o by (simp add: s1_def read_amount_output_def)
  have "RBT.lookup (m_db s) (amount_key a ?g) \<noteq> None" using r g(1) o by (auto simp: db_ledger_def db_outputs_ok_def)
  then obtain d where d: "db_del (m_db s) (amount_key a ?g) True = Inr d" by (simp add: db_del_def)
  note l = lookup_del[OF d]
  have "short_keys d" using short_keys_del[OF _ l] r by (simp add: db_ledger_def)
  moreover have "db_outputs_ok d ((lg_outputs L)(a := xs))"
    using db_outputs_pop[of "m_db s" "lg_outputs L" a xs od d, OF _ o sz l] r by (simp add: db_ledger_def)
  moreover have "\<forall>x \<in> set xs. length (od_public_key x) = 32"
    using r o unfolding db_ledger_def by (metis butlast_snoc in_set_butlastD)
  ultimately have "db_ledger (s1\<lparr>m_db := d\<rparr>) (L\<lparr>lg_outputs := (lg_outputs L)(a := xs)\<rparr>)"
    using r sz o by (simp add: db_ledger_def l s1_def)
  moreover have "pop_amount_output s a (od_unlock_time od) (od_public_key od) = Inr (s1\<lparr>m_db := d\<rparr>)"
    using d read sp g(2) by (simp add: pop_amount_output_def db_next_index[OF r] Let_def g(3) flip: s1_def) (simp add: s1_def)
  ultimately show ?thesis by blast
qed

lemma set_spent_ledger:
  assumes r: "db_ledger s L"
  shows "\<exists>s'. set_spent s a gi sp = Inr s' \<and> db_ledger s' (lg_set_spent L a gi sp)"
proof (cases "unat gi < length (lg_outputs L a)")
  case False
  then have "db_get (m_db s) (amount_key a gi) = None" using db_output_absent[OF r] by (simp add: db_get_def)
  then show ?thesis using r False by (simp add: set_spent_def lg_set_spent_def)
next
  case True
  let ?od = "lg_outputs L a ! unat gi" and ?od' = "(lg_outputs L a ! unat gi)\<lparr>od_spent := sp\<rparr>"
  have pk: "length (od_public_key ?od) = 32" using r nth_mem[OF True] unfolding db_ledger_def by blast
  have get: "db_get (m_db s) (amount_key a gi) = Some (write_output_data ?od)"
    using r True by (simp add: db_ledger_def db_outputs_ok_def db_get_def)
  obtain d where d: "db_put (m_db s) (amount_key a gi) (write_output_data ?od') False = Inr d" by (simp add: db_put_def)
  note l = lookup_put[OF d]
  have "length (amount_key a gi) \<le> 128" using length_amount_key[of a gi] by simp
  then have "short_keys d" using short_keys_put[OF _ l] r by (simp add: db_ledger_def)
  moreover have "db_outputs_ok d ((lg_outputs L)(a := (lg_outputs L a)[unat gi := ?od']))"
    using db_outputs_update[of "m_db s" "lg_outputs L" gi a d ?od'] l r True by (simp add: db_ledger_def)
  moreover have "\<forall>x \<in> set ((lg_outputs L a)[unat gi := ?od']). length (od_public_key x) = 32"
    using r pk set_update_subset_insert[of "lg_outputs L a" "unat gi" ?od'] unfolding db_ledger_def by fastforce
  ultimately have "db_ledger (s\<lparr>m_db := d\<rparr>) (lg_set_spent L a gi sp)"
    using r True by (simp add: db_ledger_def l lg_set_spent_def)
  then show ?thesis using get d pk by (simp add: set_spent_def from_binary_def codata.dec_enc_nil)
qed

interpretation st: ledger_spender db_ledger state_view store_keyimage push_amount_output ht spend_output for ht
proof
  fix s L assume "db_ledger s L"
  then show "ledger_view L (state_view s)" by (rule db_ledger_view)
next
  fix s L and ki :: bytes assume "db_ledger s L" "length ki = 32" "lg_keyimages L ki = None"
  then show "\<exists>s'. store_keyimage s ki ht = Inr s' \<and> db_ledger s' (lg_store L ki ht)" by (rule store_keyimage_ledger)
next
  fix s L a ut and pk :: bytes assume "db_ledger s L" "length pk = 32" "Suc (length (lg_outputs L a)) < 2 ^ 32"
  then show "\<exists>s'. push_amount_output s a ut ht pk = Inr (s', word_of_nat (length (lg_outputs L a))) \<and>
      db_ledger s' (lg_push L a (new_output ht (ut, pk)))" by (rule push_amount_output_ledger)
next
  fix s L a gi assume "db_ledger s L"
  then show "\<exists>s'. spend_output s a gi = Inr s' \<and> db_ledger s' (lg_set_spent L a gi True)"
    unfolding spend_output_def by (rule set_spent_ledger)
qed

text \<open>The cache of next indexes changes no read.\<close>

lemma remember_next_gi_invisible:
  assumes "db_ledger s L"
  shows "\<exists>s'. remember_next_gi s a = Inr s' \<and> db_ledger s' L"
proof -
  define s' where "s' = s\<lparr>m_next_gi_for_amount := RBT.insert a (word_of_nat (length (lg_outputs L a))) (m_next_gi_for_amount s)\<rparr>"
  have "remember_next_gi s a = Inr s'" by (simp add: remember_next_gi_def db_next_index[OF assms] s'_def)
  moreover have "db_ledger s' L" using assms by (auto simp: db_ledger_def s'_def)
  ultimately show ?thesis by blast
qed

end
