(* ===== verification/ChainState.thy ===== *)
theory ChainState
  imports Ledger
begin

text \<open>
  The rules for transactions and blocks of \<open>src/src/Core/BlockChainState.cpp\<close>: the checks of a transaction that
  need no chain (\<open>validate_semantic\<close>), applying a transaction to a delta and a block to the chain
  (\<open>redo_transaction_get_error\<close>, \<open>redo_block\<close>), undoing them, and the inputs that \<open>RingCheckerMulticore\<close> collects for its
  threads. The elliptic curve functions are the fields of a record that the definitions take. The theorems show what a
  block does to the ledger, that undoing it restores the ledger, and that no accepted transaction creates money.
\<close>

section \<open>Definitions\<close>

text \<open>What is used of \<open>src/src/crypto\<close>: key checking, and ring signatures with the flag for a corrupted output key.\<close>

record crypto_lib =
  c_key_isvalid :: "bytes \<Rightarrow> bool"
  c_check_ring_signature :: "bytes \<Rightarrow> bytes \<Rightarrow> bytes list \<Rightarrow> bytes list \<Rightarrow> bool \<times> bool"

subsection \<open>Checks of a transaction alone\<close>

fun validate_outputs :: "crypto_lib \<Rightarrow> bool \<Rightarrow> u64 \<Rightarrow> transaction_output list \<Rightarrow> string + u64" where
  "validate_outputs C check_output_key summary [] = Inr summary"
| "validate_outputs C check_output_key summary (v # outs) =
     (if out_amount v = 0 then Inl ''OUTPUT_ZERO_AMOUNT''
      else if check_output_key \<and> \<not> c_key_isvalid C (out_key (out_target v)) then Inl ''OUTPUT_INVALID_KEY''
      else if - 1 - out_amount v < summary then Inl ''OUTPUTS_AMOUNT_OVERFLOW''
      else validate_outputs C check_output_key (summary + out_amount v) outs)"

text \<open>The amount of one input, with the set of key images seen so far.\<close>

definition validate_input :: "bool \<Rightarrow> bytes list \<Rightarrow> transaction_input \<Rightarrow> string + u64 \<times> bytes list" where
  "validate_input generating ki i =
     (case i of
        CoinbaseInput _ \<Rightarrow> if \<not> generating then Inl ''INPUT_UNKNOWN_TYPE'' else Inr (0, ki)
      | KeyInput a idx k \<Rightarrow>
          if generating then Inl ''INPUT_UNKNOWN_TYPE''
          else if k \<in> set ki then Inl ''INPUT_IDENTICAL_KEYIMAGES''
          else if idx = [] then Inl ''INPUT_EMPTY_OUTPUT_USAGE''
          else if 0 \<in> set (tl idx) then Inl ''INPUT_IDENTICAL_OUTPUT_INDEXES''
          else Inr (a, k # ki))"

fun validate_inputs :: "bool \<Rightarrow> u64 \<Rightarrow> bytes list \<Rightarrow> transaction_input list \<Rightarrow> string + u64" where
  "validate_inputs generating summary ki [] = Inr summary"
| "validate_inputs generating summary ki (i # ins) =
     bindR (validate_input generating ki i) (\<lambda>(amount, ki').
       if - 1 - amount < summary then Inl ''INPUTS_AMOUNT_OVERFLOW''
       else validate_inputs generating (summary + amount) ki' ins)"

text \<open>\<open>Inl\<close> is the error text, \<open>Inr\<close> the fee.\<close>

definition validate_semantic :: "crypto_lib \<Rightarrow> bool \<Rightarrow> transaction \<Rightarrow> bool \<Rightarrow> string + u64" where
  "validate_semantic C generating tx check_output_key =
     (if inputs tx = [] then Inl ''EMPTY_INPUTS''
      else bindR (validate_outputs C check_output_key 0 (outputs tx)) (\<lambda>summary_output_amount.
           bindR (validate_inputs generating 0 [] (inputs tx)) (\<lambda>summary_input_amount.
             if summary_input_amount < summary_output_amount \<and> \<not> generating then Inl ''WRONG_AMOUNT''
             else if length (signatures tx) \<noteq> length (inputs tx) \<and> \<not> generating then Inl ''INPUT_UNKNOWN_TYPE''
             else if signatures tx \<noteq> [] \<and> generating then Inl ''INPUT_UNKNOWN_TYPE''
             else Inr (summary_input_amount - summary_output_amount))))"

subsection \<open>Rings\<close>

text \<open>The indexes of an input are relative, each to the one before it (32-bit).\<close>

fun absolute_indexes :: "u32 \<Rightarrow> u32 list \<Rightarrow> u32 list" where
  "absolute_indexes p [] = []"
| "absolute_indexes p (x # xs) = (p + x) # absolute_indexes (p + x) xs"

text \<open>
  The keys of a ring, with the greatest height of its outputs so far; the inner \<open>Inl\<close> is an error text with the
  conflict height at that point.
\<close>

fun ring_keys ::
  "currency \<Rightarrow> state_reads \<Rightarrow> u32 \<Rightarrow> u32 \<Rightarrow> u64 \<Rightarrow> u32 \<Rightarrow> u32 list \<Rightarrow> (string \<times> u32 + bytes list \<times> u32) result" where
  "ring_keys c P height ts amount conflict [] = Inr (Inr ([], conflict))"
| "ring_keys c P height ts amount conflict (gi # gis) =
     bindR (rd_amount_output P amount gi) (\<lambda>r.
       case r of
         None \<Rightarrow> Inr (Inl (''INPUT_INVALID_GLOBAL_INDEX'', max_block_height c))
       | Some unp \<Rightarrow>
           let conflict' = max conflict (od_height unp)
           in if \<not> is_transaction_spend_time_unlocked c (od_unlock_time unp) height ts
              then Inr (Inl (''INPUT_SPEND_LOCKED_OUT'', conflict'))
              else bindR (ring_keys c P height ts amount conflict' gis) (\<lambda>q.
                Inr (case q of Inl e \<Rightarrow> Inl e | Inr (ks, cf) \<Rightarrow> Inr (od_public_key unp # ks, cf))))"

subsection \<open>Applying a transaction\<close>

text \<open>The checks of one input (\<open>check_sigs\<close>): its key image is new, its ring is there and unlocked, its signature valid.\<close>

definition check_input ::
  "crypto_lib \<Rightarrow> currency \<Rightarrow> state_reads \<Rightarrow> u32 \<Rightarrow> u32 \<Rightarrow> bytes \<Rightarrow> bytes list list \<Rightarrow> nat \<Rightarrow> u32 \<Rightarrow> u64 \<Rightarrow> u32 list \<Rightarrow> bytes \<Rightarrow>
   (string \<times> u32 + u32) result" where
  "check_input C c P height ts prefix_hash sigs input_index conflict amount idx ki =
     bindR (rd_keyimage P ki) (\<lambda>r.
       case r of
         Some h \<Rightarrow> Inr (Inl (''INPUT_KEYIMAGE_ALREADY_SPENT'', h))
       | None \<Rightarrow>
           if idx = [] then Inr (Inl (''INPUT_UNKNOWN_TYPE'', conflict))
           else bindR (ring_keys c P height ts amount conflict (absolute_indexes 0 idx)) (\<lambda>q.
             case q of
               Inl e \<Rightarrow> Inr (Inl e)
             | Inr (ks, cf) \<Rightarrow>
                 if length sigs \<le> input_index then Inl Undefined
                 else
                   let (ok, key_corrupted) = c_check_ring_signature C prefix_hash ki ks (sigs ! input_index)
                   in Inr (if ok then Inr cf
                           else Inl (if key_corrupted then ''INPUT_CORRUPTED_SIGNATURES'' else ''INPUT_INVALID_SIGNATURES'', cf))))"

fun redo_inputs ::
  "crypto_lib \<Rightarrow> currency \<Rightarrow> state_reads \<Rightarrow> bool \<Rightarrow> bytes \<Rightarrow> bytes list list \<Rightarrow> nat \<Rightarrow> u32 \<Rightarrow> delta_state \<Rightarrow> transaction_input list \<Rightarrow>
   (string \<times> u32 + delta_state \<times> u32) result" where
  "redo_inputs C c P check prefix_hash sigs input_index conflict d [] = Inr (Inr (d, conflict))"
| "redo_inputs C c P check prefix_hash sigs input_index conflict d (i # ins) =
     (case i of
        CoinbaseInput _ \<Rightarrow> redo_inputs C c P check prefix_hash sigs (Suc input_index) conflict d ins
      | KeyInput amount idx ki \<Rightarrow>
          bindR (if check
                 then check_input C c (delta_view P d) (m_block_height d) (m_unlock_timestamp d) prefix_hash sigs input_index conflict amount idx ki
                 else Inr (Inr conflict)) (\<lambda>q.
            case q of
              Inl e \<Rightarrow> Inr (Inl e)
            | Inr cf \<Rightarrow>
                bindR (if length idx = 1 then delta_spend_output d amount (hd idx) else Inr d) (\<lambda>d1.
                bindR (delta_store_keyimage d1 ki (m_block_height d)) (\<lambda>d2.
                  redo_inputs C c P check prefix_hash sigs (Suc input_index) cf d2 ins))))"

fun redo_outputs :: "state_reads \<Rightarrow> u64 \<Rightarrow> delta_state \<Rightarrow> transaction_output list \<Rightarrow> (delta_state \<times> u32 list) result" where
  "redo_outputs P ut d [] = Inr (d, [])"
| "redo_outputs P ut d (v # outs) =
     bindR (delta_push_amount_output P d (out_amount v) ut 0 (out_key (out_target v))) (\<lambda>(d1, gi).
     bindR (redo_outputs P ut d1 outs) (\<lambda>(d2, gis). Inr (d2, gi # gis)))"

text \<open>
  \<open>redo_transaction_get_error\<close>: the changes are collected in a delta on top of \<open>d\<close> and applied to \<open>d\<close> when nothing failed. \<open>P\<close>
  is the view of the parent of \<open>d\<close>. The result is the error text and the conflict height, or the new delta
  with the global indexes of the outputs and the conflict height.
\<close>

definition redo_transaction ::
  "crypto_lib \<Rightarrow> currency \<Rightarrow> state_reads \<Rightarrow> transaction \<Rightarrow> delta_state \<Rightarrow> bool \<Rightarrow>
   (string \<times> u32 + delta_state \<times> u32 list \<times> u32) result" where
  "redo_transaction C c P tx d check_sigs =
     (let V = delta_view P d
      in bindR (redo_inputs C c V check_sigs (if check_sigs then get_transaction_prefix_hash tx else replicate 32 0) (signatures tx) 0 0
                  (new_delta (m_block_height d) (m_unlock_timestamp d)) (inputs tx)) (\<lambda>q.
           case q of
             Inl e \<Rightarrow> Inr (Inl e)
           | Inr (t, cf) \<Rightarrow>
               bindR (redo_outputs V (unlock_time tx) t (outputs tx)) (\<lambda>(t', indices).
               bindR (delta_apply delta_store_keyimage (delta_push_amount_output P) delta_spend_output t' d) (\<lambda>d'.
                 Inr (Inr (d', indices, cf))))))"

subsection \<open>Signatures of a block\<close>

record ring_signature_arg =
  ra_prefix_hash :: bytes
  ra_key_image :: bytes
  ra_output_keys :: "bytes list"
  ra_signatures :: "bytes list"

text \<open>
  \<open>start_work_get_error\<close> of \<open>RingCheckerMulticore.cpp\<close>: the queue of rings to check, read from the chain state before the block;
  the inner \<open>Inl\<close> is the error text. The conflict heights of \<open>ring_keys\<close> are not used here.
\<close>

fun ring_args_inputs ::
  "currency \<Rightarrow> state_reads \<Rightarrow> u32 \<Rightarrow> u32 \<Rightarrow> bytes \<Rightarrow> bytes list list \<Rightarrow> nat \<Rightarrow> transaction_input list \<Rightarrow> (string + ring_signature_arg list) result" where
  "ring_args_inputs c P height ts prefix_hash sigs input_index [] = Inr (Inr [])"
| "ring_args_inputs c P height ts prefix_hash sigs input_index (i # ins) =
     (case i of
        CoinbaseInput _ \<Rightarrow> ring_args_inputs c P height ts prefix_hash sigs (Suc input_index) ins
      | KeyInput amount idx ki \<Rightarrow>
          if length sigs \<le> input_index then Inl Undefined
          else bindR (rd_keyimage P ki) (\<lambda>r.
            if r \<noteq> None then Inr (Inl ''INPUT_KEYIMAGE_ALREADY_SPENT'')
            else if idx = [] then Inr (Inl ''INPUT_UNKNOWN_TYPE'')
            else bindR (ring_keys c P height ts amount 0 (absolute_indexes 0 idx)) (\<lambda>q.
              case q of
                Inl e \<Rightarrow> Inr (Inl (fst e))
              | Inr (ks, _) \<Rightarrow>
                  bindR (ring_args_inputs c P height ts prefix_hash sigs (Suc input_index) ins) (\<lambda>q'.
                    Inr (case q' of
                           Inl e \<Rightarrow> Inl e
                         | Inr args \<Rightarrow> Inr (\<lparr>ra_prefix_hash = prefix_hash, ra_key_image = ki, ra_output_keys = ks,
                                            ra_signatures = sigs ! input_index\<rparr> # args))))))"

fun start_work_get_error ::
  "currency \<Rightarrow> state_reads \<Rightarrow> u32 \<Rightarrow> u32 \<Rightarrow> transaction list \<Rightarrow> (string + ring_signature_arg list) result" where
  "start_work_get_error c P height ts [] = Inr (Inr [])"
| "start_work_get_error c P height ts (tx # txs) =
     bindR (ring_args_inputs c P height ts (get_transaction_prefix_hash tx) (signatures tx) 0 (inputs tx)) (\<lambda>q.
       case q of
         Inl e \<Rightarrow> Inr (Inl e)
       | Inr args \<Rightarrow>
           bindR (start_work_get_error c P height ts txs) (\<lambda>q'.
             Inr (case q' of Inl e \<Rightarrow> Inl e | Inr args' \<Rightarrow> Inr (args @ args'))))"

definition check_ring_arg :: "crypto_lib \<Rightarrow> ring_signature_arg \<Rightarrow> bool" where
  "check_ring_arg C arg = fst (c_check_ring_signature C (ra_prefix_hash arg) (ra_key_image arg) (ra_output_keys arg) (ra_signatures arg))"

subsection \<open>Applying and undoing a block\<close>

type_synonym block_global_indices = "u32 list list"

definition write_global_indices :: "block_global_indices \<Rightarrow> bytes" where
  "write_global_indices v = write_container (write_container write_u32) v"

definition read_global_indices :: "block_global_indices reader" where
  "read_global_indices bs = read_container (read_container read_u32) bs"

text \<open>The inner \<open>redo_block\<close>: every transaction on the delta, without checks; \<open>None\<close> is \<open>false\<close>.\<close>

fun redo_transactions ::
  "crypto_lib \<Rightarrow> currency \<Rightarrow> state_reads \<Rightarrow> delta_state \<Rightarrow> transaction list \<Rightarrow> (delta_state \<times> block_global_indices) option result" where
  "redo_transactions C c P d [] = Inr (Some (d, []))"
| "redo_transactions C c P d (tx # txs) =
     bindR (redo_transaction C c P tx d False) (\<lambda>q.
       case q of
         Inl _ \<Rightarrow> Inr None
       | Inr (d', indices, _) \<Rightarrow>
           bindR (redo_transactions C c P d' txs) (\<lambda>r.
             Inr (case r of None \<Rightarrow> None | Some (d'', gis) \<Rightarrow> Some (d'', indices # gis))))"

definition redo_block_delta :: "crypto_lib \<Rightarrow> currency \<Rightarrow> state_reads \<Rightarrow> block \<Rightarrow> delta_state \<Rightarrow> (delta_state \<times> block_global_indices) option result" where
  "redo_block_delta C c P b d = redo_transactions C c P d (base_tx (bl_header b) # bl_transactions b)"

text \<open>
  The virtual \<open>redo_block\<close>. The threads of the ring checker have checked every ring when \<open>signatures_valid\<close> returns (theory
  \<open>RingChecker\<close>), so its answer is whether all are valid.
\<close>

definition redo_block :: "crypto_lib \<Rightarrow> bytes \<Rightarrow> block \<Rightarrow> api_block_header \<Rightarrow> chain_state \<Rightarrow> (bool \<times> chain_state) result" where
  "redo_block C bhash b info s =
     bindR (is_in_sw_checkpoint_zone (m_currency s) (hd_height info + 1)) (\<lambda>zone.
     bindR (if zone then Inr (Inr [])
            else start_work_get_error (m_currency s) (state_view s) (hd_height info) (hd_timestamp info) (bl_transactions b)) (\<lambda>q.
       case q of
         Inl _ \<Rightarrow> Inr (False, s)
       | Inr args \<Rightarrow>
           bindR (redo_block_delta C (m_currency s) (state_view s) b (new_delta (hd_height info) (hd_timestamp info))) (\<lambda>r.
             case r of
               None \<Rightarrow> Inr (False, s)
             | Some (delta, gis) \<Rightarrow>
                 if \<not> list_all (check_ring_arg C) args then Inr (False, s)
                 else
                   bindR (delta_apply store_keyimage push_amount_output spend_output delta s) (\<lambda>s1.
                   bindR (db_put (m_db s1) (global_indices_key bhash) (write_global_indices gis) True) (\<lambda>d.
                     Inr (True, s1\<lparr>m_tx_pool_version := 2, m_db := d\<rparr>))))))"

fun undo_outputs :: "u64 \<Rightarrow> chain_state \<Rightarrow> transaction_output list \<Rightarrow> chain_state result" where
  "undo_outputs ut s [] = Inr s"
| "undo_outputs ut s (v # outs) =
     bindR (pop_amount_output s (out_amount v) ut (out_key (out_target v))) (\<lambda>s1. undo_outputs ut s1 outs)"

fun undo_inputs :: "chain_state \<Rightarrow> transaction_input list \<Rightarrow> chain_state result" where
  "undo_inputs s [] = Inr s"
| "undo_inputs s (i # ins) =
     (case i of
        CoinbaseInput _ \<Rightarrow> undo_inputs s ins
      | KeyInput amount idx ki \<Rightarrow>
          bindR (delete_keyimage s ki) (\<lambda>s1.
          bindR (if length idx = 1 then set_spent s1 amount (hd idx) False else Inr s1) (\<lambda>s2. undo_inputs s2 ins)))"

definition undo_transaction :: "chain_state \<Rightarrow> transaction \<Rightarrow> chain_state result" where
  "undo_transaction s tx =
     bindR (undo_outputs (unlock_time tx) s (rev (outputs tx))) (\<lambda>s1. undo_inputs s1 (rev (inputs tx)))"

definition undo_block :: "bytes \<Rightarrow> block \<Rightarrow> u32 \<Rightarrow> chain_state \<Rightarrow> chain_state result" where
  "undo_block bhash b height s =
     bindR (foldR undo_transaction s (rev (bl_transactions b))) (\<lambda>s1.
     bindR (undo_transaction s1 (base_tx (bl_header b))) (\<lambda>s2.
     bindR (db_del (m_db s2) (global_indices_key bhash) True) (\<lambda>d. Inr (s2\<lparr>m_db := d\<rparr>))))"

definition read_block_output_global_indices :: "chain_state \<Rightarrow> bytes \<Rightarrow> block_global_indices option result" where
  "read_block_output_global_indices s bid =
     (case db_get (m_db s) (global_indices_key bid) of
        None \<Rightarrow> Inr None
      | Some rb \<Rightarrow> bindR (from_binary read_global_indices rb) (\<lambda>v. Inr (Some v)))"

section \<open>No transaction creates money\<close>

lemma unat_add_guarded: "\<not> - 1 - a < (s :: u64) \<Longrightarrow> unat (s + a) = unat s + unat a"
proof -
  assume "\<not> - 1 - a < s"
  moreover have "unat (- 1 - a) = unat (- 1 :: u64) - unat a" by (rule unat_sub) simp
  moreover have "unat (- 1 :: u64) = 2 ^ 64 - 1" by (simp add: unsigned_minus_1_eq_mask mask_eq_exp_minus_1)
  ultimately have "unat s \<le> 18446744073709551615 - unat a" by (simp add: word_less_nat_alt)
  then have "unat s + unat a < 18446744073709551616" using u64_less[of a] by linarith
  then show ?thesis by (simp add: unat_word_ariths)
qed

lemma no_overflow_guard: "unat s + unat a < 2 ^ 64 \<Longrightarrow> \<not> - 1 - a < (s :: u64)"
proof -
  assume l: "unat s + unat a < 2 ^ 64"
  have "unat (- 1 - a) = unat (- 1 :: u64) - unat a" by (rule unat_sub) simp
  moreover have "unat (- 1 :: u64) = 2 ^ 64 - 1" by (simp add: unsigned_minus_1_eq_mask mask_eq_exp_minus_1)
  ultimately show ?thesis using l by (simp add: word_less_nat_alt)
qed

definition outputs_total :: "transaction_output list \<Rightarrow> nat" where
  "outputs_total outs = sum_list (map (\<lambda>v. unat (out_amount v)) outs)"

definition inputs_total :: "transaction_input list \<Rightarrow> nat" where
  "inputs_total ins = sum_list (map (\<lambda>i. case i of KeyInput a _ _ \<Rightarrow> unat a | CoinbaseInput _ \<Rightarrow> 0) ins)"

lemma validate_outputs_total:
  "validate_outputs C k s outs = Inr t \<Longrightarrow>
     unat t = unat s + outputs_total outs \<and> (\<forall>v \<in> set outs. out_amount v \<noteq> 0 \<and> (k \<longrightarrow> c_key_isvalid C (out_key (out_target v))))"
proof (induction outs arbitrary: s)
  case (Cons v outs)
  then have g: "\<not> - 1 - out_amount v < s" and v: "out_amount v \<noteq> 0" "k \<longrightarrow> c_key_isvalid C (out_key (out_target v))"
    and r: "validate_outputs C k (s + out_amount v) outs = Inr t"
    by (auto split: if_splits)
  show ?case using Cons.IH[OF r] v unat_add_guarded[OF g] by (auto simp: outputs_total_def)
qed (simp add: outputs_total_def)

lemma validate_outputs_pass:
  assumes "\<forall>v \<in> set outs. out_amount v \<noteq> 0 \<and> c_key_isvalid C (out_key (out_target v))"
    and "unat s + amounts_sum (map out_amount outs) < 2 ^ 64"
  shows "\<exists>t. validate_outputs C ck s outs = Inr t \<and> unat t = unat s + amounts_sum (map out_amount outs)"
  using assms
proof (induction outs arbitrary: s)
  case (Cons v outs)
  have u: "unat (s + out_amount v) = unat s + unat (out_amount v)" using Cons.prems(2) by (simp add: unat_word_ariths)
  have "\<not> - 1 - out_amount v < s" by (rule no_overflow_guard) (use Cons.prems(2) in simp)
  then show ?case using Cons.IH[of "s + out_amount v"] Cons.prems u by auto
qed simp

lemma validate_inputs_total:
  "validate_inputs False s seen ins = Inr t \<Longrightarrow> distinct seen \<Longrightarrow>
     unat t = unat s + inputs_total ins \<and>
     distinct (concat (map (\<lambda>i. case i of KeyInput _ _ ki \<Rightarrow> [ki] | CoinbaseInput _ \<Rightarrow> []) ins)) \<and>
     set (concat (map (\<lambda>i. case i of KeyInput _ _ ki \<Rightarrow> [ki] | CoinbaseInput _ \<Rightarrow> []) ins)) \<inter> set seen = {} \<and>
     (\<forall>i \<in> set ins. \<exists>a idx ki. i = KeyInput a idx ki \<and> idx \<noteq> [] \<and> 0 \<notin> set (tl idx))"
proof (induction ins arbitrary: s seen)
  case (Cons i ins)
  then obtain a idx ki where i: "i = KeyInput a idx ki" "ki \<notin> set seen" "idx \<noteq> []" "0 \<notin> set (tl idx)"
    and g: "\<not> - 1 - a < s" and r: "validate_inputs False (s + a) (ki # seen) ins = Inr t"
    by (auto simp: validate_input_def bindR_eq_Inr_iff split: transaction_input.splits if_splits)
  have d: "distinct (ki # seen)" using Cons.prems(2) i(2) by simp
  show ?case using Cons.IH[OF r d] i unat_add_guarded[OF g] by (auto simp: inputs_total_def)
qed (simp add: inputs_total_def)

lemma validate_semantic_ok:
  assumes "validate_semantic C False tx k = Inr fee"
  shows "outputs_total (outputs tx) + unat fee = inputs_total (inputs tx)" and "inputs_total (inputs tx) < 2 ^ 64"
    and "distinct (key_images tx)"
    and "\<forall>i \<in> set (inputs tx). \<exists>a idx ki. i = KeyInput a idx ki \<and> idx \<noteq> [] \<and> 0 \<notin> set (tl idx)"
    and "\<forall>v \<in> set (outputs tx). out_amount v \<noteq> 0 \<and> (k \<longrightarrow> c_key_isvalid C (out_key (out_target v)))"
    and "inputs tx \<noteq> []" and "length (signatures tx) = length (inputs tx)"
proof -
  obtain ov iv where v: "validate_outputs C k 0 (outputs tx) = Inr ov" "validate_inputs False 0 [] (inputs tx) = Inr iv"
    and c: "\<not> iv < ov" "length (signatures tx) = length (inputs tx)" "fee = iv - ov" "inputs tx \<noteq> []"
    using assms by (auto simp: validate_semantic_def bindR_eq_Inr_iff split: if_splits)
  note o = validate_outputs_total[OF v(1)] and i = validate_inputs_total[OF v(2)]
  have iv: "unat iv = inputs_total (inputs tx)" and ov: "unat ov = outputs_total (outputs tx)" using o i by auto
  have le: "unat ov \<le> unat iv" using c(1) by (simp add: word_less_nat_alt)
  have "unat fee = unat iv - unat ov" using c(1,3) by (simp add: unat_sub not_less)
  then show "outputs_total (outputs tx) + unat fee = inputs_total (inputs tx)" using le unfolding iv ov by linarith
  show "inputs_total (inputs tx) < 2 ^ 64" using u64_less[of iv] by (simp add: iv del: unsigned_less u64_less)
  show "distinct (key_images tx)" using i by (simp add: key_images_def)
  show "\<forall>i \<in> set (inputs tx). \<exists>a idx ki. i = KeyInput a idx ki \<and> idx \<noteq> [] \<and> 0 \<notin> set (tl idx)" using i by simp
  show "\<forall>v \<in> set (outputs tx). out_amount v \<noteq> 0 \<and> (k \<longrightarrow> c_key_isvalid C (out_key (out_target v)))" using o by simp
qed (use assms in \<open>auto simp: validate_semantic_def bindR_eq_Inr_iff split: if_splits\<close>)

text \<open>The fee the pool computes for such a transaction is the same.\<close>

lemma foldl_outputs: "unat s + outputs_total outs < 2 ^ 64 \<Longrightarrow> unat (foldl (\<lambda>a v. a + out_amount v) s outs) = unat s + outputs_total outs"
proof (induction outs arbitrary: s)
  case (Cons v outs)
  then have "unat (s + out_amount v) = unat s + unat (out_amount v)" by (simp add: outputs_total_def unat_word_ariths)
  then show ?case using Cons.IH[of "s + out_amount v"] Cons.prems by (simp add: outputs_total_def)
qed (simp add: outputs_total_def)

lemma foldl_inputs: "unat s + inputs_total ins < 2 ^ 64 \<Longrightarrow>
   unat (foldl (\<lambda>a i. case i of KeyInput x _ _ \<Rightarrow> a + x | CoinbaseInput _ \<Rightarrow> a) s ins) = unat s + inputs_total ins"
proof (induction ins arbitrary: s)
  case (Cons i ins)
  define s' where "s' = (case i of KeyInput x _ _ \<Rightarrow> s + x | CoinbaseInput _ \<Rightarrow> s)"
  have "unat s' + inputs_total ins = unat s + inputs_total (i # ins)"
    using Cons.prems by (auto simp: s'_def inputs_total_def unat_word_ariths split: transaction_input.splits)
  then show ?case using Cons.IH[of s'] Cons.prems by (simp add: s'_def)
qed (simp add: inputs_total_def)

lemma validate_semantic_fee:
  assumes "validate_semantic C False tx k = Inr fee"
  shows "get_tx_fee tx = Some fee"
proof -
  note v = validate_semantic_ok[OF assms]
  have "unat (foldl (\<lambda>a i. case i of KeyInput x _ _ \<Rightarrow> a + x | CoinbaseInput _ \<Rightarrow> a) (0 :: u64) (inputs tx)) = inputs_total (inputs tx)"
    using foldl_inputs[of 0] v(2) by simp
  moreover have "unat (foldl (\<lambda>a v. a + out_amount v) (0 :: u64) (outputs tx)) = outputs_total (outputs tx)"
    using foldl_outputs[of 0] v(1,2) by simp
  ultimately show ?thesis using v(1) by (auto simp: get_tx_fee_def Let_def word_less_nat_alt word_unat_eq_iff unat_sub word_le_nat_alt)
qed

section \<open>What a transaction does to the ledger\<close>

definition tx_outs :: "transaction \<Rightarrow> u64 \<Rightarrow> (u64 \<times> bytes) list" where
  "tx_outs tx a = map (\<lambda>v. (unlock_time tx, out_key (out_target v))) (filter (\<lambda>v. out_amount v = a) (outputs tx))"

definition tx_spends :: "transaction \<Rightarrow> (u64 \<times> u32) list" where
  "tx_spends tx = concat (map (\<lambda>i. case i of KeyInput a idx _ \<Rightarrow> if length idx = 1 then [(a, hd idx)] else [] | CoinbaseInput _ \<Rightarrow> []) (inputs tx))"

definition kis_map :: "u32 \<Rightarrow> bytes list \<Rightarrow> bytes \<rightharpoonup> u32" where
  "kis_map ht kis = (\<lambda>ki. if ki \<in> set kis then Some ht else None)"

definition txs_kis :: "transaction list \<Rightarrow> bytes list" where "txs_kis txs = concat (map key_images txs)"
definition txs_outs :: "transaction list \<Rightarrow> u64 \<Rightarrow> (u64 \<times> bytes) list" where "txs_outs txs a = concat (map (\<lambda>tx. tx_outs tx a) txs)"
definition txs_spends :: "transaction list \<Rightarrow> (u64 \<times> u32) list" where "txs_spends txs = concat (map tx_spends txs)"

text \<open>The ledger a delta shows after the transactions, and the ledger after the delta is applied.\<close>

definition txs_view :: "u32 \<Rightarrow> transaction list \<Rightarrow> ledger \<Rightarrow> ledger" where
  "txs_view ht txs L = lg_append ht (lg_store_all L (kis_map ht (txs_kis txs))) (txs_outs txs)"

definition txs_ledger :: "u32 \<Rightarrow> transaction list \<Rightarrow> ledger \<Rightarrow> ledger" where
  "txs_ledger ht txs L = lg_spend_all (txs_view ht txs L) (txs_spends txs)"

definition block_txs :: "block \<Rightarrow> transaction list" where "block_txs b = base_tx (bl_header b) # bl_transactions b"

definition tx_shape :: "transaction \<Rightarrow> bool" where
  "tx_shape tx \<longleftrightarrow> (\<forall>ki \<in> set (key_images tx). length ki = 32) \<and> (\<forall>v \<in> set (outputs tx). length (out_key (out_target v)) = 32)"

definition kis_of :: "transaction_input list \<Rightarrow> bytes list" where
  "kis_of ins = concat (map (\<lambda>i. case i of KeyInput _ _ ki \<Rightarrow> [ki] | CoinbaseInput _ \<Rightarrow> []) ins)"

definition spends_of :: "transaction_input list \<Rightarrow> (u64 \<times> u32) list" where
  "spends_of ins = concat (map (\<lambda>i. case i of KeyInput a idx _ \<Rightarrow> if length idx = 1 then [(a, hd idx)] else [] | CoinbaseInput _ \<Rightarrow> []) ins)"

lemma kis_spends_simps [simp]:
  "kis_of [] = []" "kis_of (CoinbaseInput bi # ins) = kis_of ins" "kis_of (KeyInput a idx ki # ins) = ki # kis_of ins"
  "spends_of [] = []" "spends_of (CoinbaseInput bi # ins) = spends_of ins"
  "spends_of (KeyInput a idx ki # ins) = (if length idx = 1 then [(a, hd idx)] else []) @ spends_of ins"
  by (simp_all add: kis_of_def spends_of_def)

lemma key_images_kis_of: "key_images tx = kis_of (inputs tx)"
  by (simp add: key_images_def kis_of_def)

lemma tx_spends_of: "tx_spends tx = spends_of (inputs tx)"
  by (simp add: tx_spends_def spends_of_def)

lemma kis_map_simps:
  "kis_map ht [] = Map.empty" "kis_map ht (ki # kis) = (kis_map ht kis)(ki \<mapsto> ht)"
  "kis_map ht (xs @ ys) = kis_map ht xs ++ kis_map ht ys"
  by (auto simp: kis_map_def fun_eq_iff map_add_def)

lemma dom_kis_map [simp]: "dom (kis_map ht kis) = set kis"
  by (auto simp: kis_map_def dom_def)

lemma delta_update_swap: "d\<lparr>m_spent_outputs := x, m_keyimages := y\<rparr> = d\<lparr>m_keyimages := y, m_spent_outputs := x\<rparr>"
  by (rule delta_state.equality) simp_all

text \<open>Without checks the inputs are applied when their key images are new in the delta, and an \<open>invariant\<close> fails otherwise.\<close>

lemma redo_inputs_unchecked:
  "redo_inputs C c P False ph sigs n cf t ins =
     (if distinct (kis_of ins) \<and> set (kis_of ins) \<inter> dom (RBT.lookup (m_keyimages t)) = {}
      then Inr (Inr (t\<lparr>m_keyimages := foldl (\<lambda>m ki. RBT.insert ki (m_block_height t) m) (m_keyimages t) (kis_of ins),
             m_spent_outputs := m_spent_outputs t @ spends_of ins\<rparr>, cf))
      else Inl (InvariantViolated ''DeltaState::store_keyimage''))"
proof (induction ins arbitrary: n t)
  case (Cons i ins)
  show ?case
  proof (cases i)
    case (KeyInput a idx ki)
    define t1 where "t1 = t\<lparr>m_keyimages := RBT.insert ki (m_block_height t) (m_keyimages t),
        m_spent_outputs := m_spent_outputs t @ (if length idx = 1 then [(a, hd idx)] else [])\<rparr>"
    show ?thesis
    proof (cases "RBT.lookup (m_keyimages t) ki")
      case None
      then have "redo_inputs C c P False ph sigs n cf t (i # ins) = redo_inputs C c P False ph sigs (Suc n) cf t1 ins"
        by (simp add: KeyInput delta_spend_output_def delta_store_keyimage_def t1_def delta_update_swap)
      then show ?thesis using None unfolding Cons.IH by (auto simp: KeyInput t1_def)
    next
      case (Some h)
      then have "redo_inputs C c P False ph sigs n cf t (i # ins) = Inl (InvariantViolated ''DeltaState::store_keyimage'')"
        by (simp add: KeyInput delta_spend_output_def delta_store_keyimage_def)
      then show ?thesis using Some by (auto simp: KeyInput)
    qed
  qed (simp add: Cons.IH)
qed simp

lemma lookup_foldl_insert: "RBT.lookup (foldl (\<lambda>m ki. RBT.insert ki h m) m kis) = RBT.lookup m ++ kis_map h kis"
proof (induction kis arbitrary: m)
  case (Cons ki kis)
  then show ?case by (auto simp: kis_map_def map_add_def fun_eq_iff)
qed (simp add: kis_map_simps)

definition new_outs :: "u64 \<Rightarrow> transaction_output list \<Rightarrow> u64 \<Rightarrow> (u64 \<times> bytes) list" where
  "new_outs ut outs a = map (\<lambda>v. (ut, out_key (out_target v))) (filter (\<lambda>v. out_amount v = a) outs)"

lemma tx_outs_new: "tx_outs tx = new_outs (unlock_time tx) (outputs tx)"
  by (simp add: tx_outs_def new_outs_def fun_eq_iff)

lemma delta_push_height: "delta_push_amount_output P d a ut h pk = delta_push_amount_output P d a ut h' pk"
  by (simp add: delta_push_amount_output_def)

text \<open>An index finds the output it was given for.\<close>

definition index_finds :: "u32 \<Rightarrow> u64 \<Rightarrow> ledger \<Rightarrow> transaction_output \<Rightarrow> u32 \<Rightarrow> bool" where
  "index_finds ht ut L v gi \<longleftrightarrow> unat gi < length (lg_outputs L (out_amount v)) \<and>
     lg_outputs L (out_amount v) ! unat gi = new_output ht (ut, out_key (out_target v))"

lemma index_finds_append:
  "index_finds ht ut L v gi \<Longrightarrow> index_finds ht ut (lg_append h L new) v gi"
  by (auto simp: index_finds_def nth_append)

lemma redo_outputs_ledger:
  assumes "delta_rel P L0 ht t L" and "\<forall>v \<in> set outs. length (out_key (out_target v)) = 32"
    and "\<forall>a. length (lg_outputs L a) + length (new_outs ut outs a) < 2 ^ 32"
  shows "\<exists>t' gis. redo_outputs P ut t outs = Inr (t', gis) \<and> delta_rel P L0 ht t' (lg_append ht L (new_outs ut outs)) \<and>
    m_spent_outputs t' = m_spent_outputs t \<and> list_all2 (index_finds ht ut (lg_append ht L (new_outs ut outs))) outs gis"
  using assms
proof (induction outs arbitrary: t L)
  case Nil
  then show ?case by (simp add: new_outs_def lg_append_def)
next
  case (Cons v outs)
  let ?pk = "out_key (out_target v)" and ?a = "out_amount v"
  let ?L1 = "lg_push L ?a (new_output ht (ut, ?pk))" and ?g = "word_of_nat (length (lg_outputs L ?a)) :: u32"
  have sz: "Suc (length (lg_outputs L ?a)) < 2 ^ 32" using Cons.prems(3)[rule_format, of ?a] by (simp add: new_outs_def)
  then obtain t1 where t1: "delta_push_amount_output P t ?a ut ht ?pk = Inr (t1, ?g)" "delta_rel P L0 ht t1 ?L1"
    using dl.push_law[OF Cons.prems(1), of ?pk ?a ut] Cons.prems(2) by auto
  have step: "length (lg_outputs ?L1 a) + length (new_outs ut outs a) = length (lg_outputs L a) + length (new_outs ut (v # outs) a)" for a
    by (simp add: new_outs_def)
  then have "\<forall>a. length (lg_outputs ?L1 a) + length (new_outs ut outs a) < 2 ^ 32" using Cons.prems(3) by simp
  then obtain t' gis where t': "redo_outputs P ut t1 outs = Inr (t', gis)" "delta_rel P L0 ht t' (lg_append ht ?L1 (new_outs ut outs))"
      "m_spent_outputs t' = m_spent_outputs t1" "list_all2 (index_finds ht ut (lg_append ht ?L1 (new_outs ut outs))) outs gis"
    using Cons.IH[OF t1(2)] Cons.prems(2) by auto
  have app: "lg_append ht ?L1 (new_outs ut outs) = lg_append ht L (new_outs ut (v # outs))"
    by (rule ledger.equality) (auto simp: new_outs_def fun_eq_iff)
  have "unat ?g = length (lg_outputs L ?a)" using sz by (simp add: unat_of_nat)
  then have "index_finds ht ut ?L1 v ?g" by (simp add: index_finds_def)
  then have "index_finds ht ut (lg_append ht L (new_outs ut (v # outs))) v ?g" using index_finds_append unfolding app[symmetric] by blast
  moreover have "redo_outputs P ut t (v # outs) = Inr (t', ?g # gis)"
    using t1(1) t'(1) delta_push_height[of P t ?a ut 0 ?pk ht] by simp
  ultimately show ?case using t' delta_push_spent[OF t1(1)] unfolding app by auto
qed

lemma new_delta_rel: "ledger_view L V \<Longrightarrow> delta_rel V L h (new_delta h ts) L"
  by (simp add: delta_rel_def delta_ok_def ledger_view_def delta_ledger_def lg_append_def lg_store_all_def)

lemma delta_rel_inputs:
  assumes "delta_rel P L0 ht t L" and "\<forall>ki \<in> set kis. length ki = 32" and "set kis \<inter> dom (lg_keyimages L) = {}"
  shows "delta_rel P L0 ht (t\<lparr>m_keyimages := foldl (\<lambda>m ki. RBT.insert ki (m_block_height t) m) (m_keyimages t) kis, m_spent_outputs := sp\<rparr>)
    (lg_store_all L (kis_map ht kis))"
proof -
  let ?t = "t\<lparr>m_keyimages := foldl (\<lambda>m ki. RBT.insert ki (m_block_height t) m) (m_keyimages t) kis, m_spent_outputs := sp\<rparr>"
  note r = assms(1)[unfolded delta_rel_def]
  have l: "RBT.lookup (m_keyimages ?t) = RBT.lookup (m_keyimages t) ++ kis_map ht kis" using r by (simp add: lookup_foldl_insert)
  have o: "delta_outputs ?t = delta_outputs t" by (simp add: delta_outputs_def fun_eq_iff)
  have n: "lg_keyimages L0 ki = None" if "ki \<in> set kis" for ki
    using that assms(3) r by (auto simp: delta_ledger_keyimages map_add_def split: option.splits)
  have "delta_ok L0 ?t"
    using r assms(2) n unfolding delta_ok_def l o by (auto simp: kis_map_def map_add_Some_iff split: if_splits)
  moreover have "delta_ledger L0 ?t = lg_store_all L (kis_map ht kis)"
    using r by (intro ledger.equality) (auto simp: delta_ledger_outputs[abs_def] delta_ledger_keyimages lookup_foldl_insert o)
  ultimately show ?thesis using r by (simp add: delta_rel_def)
qed

lemma redo_transaction_ledger:
  assumes r: "delta_rel P L0 ht d L" and shape: "tx_shape tx"
    and fresh: "distinct (key_images tx)" "set (key_images tx) \<inter> dom (lg_keyimages L) = {}"
    and sz: "\<forall>a. length (lg_outputs L a) + length (tx_outs tx a) < 2 ^ 32"
  shows "\<exists>d' gis cf. redo_transaction C c P tx d False = Inr (Inr (d', gis, cf)) \<and> delta_rel P L0 ht d' (txs_view ht [tx] L) \<and>
    m_spent_outputs d' = m_spent_outputs d @ tx_spends tx \<and>
    list_all2 (index_finds ht (unlock_time tx) (txs_view ht [tx] L)) (outputs tx) gis"
proof -
  define V where "V = delta_view P d"
  have V: "ledger_view L V" using dl.view_law[OF r] by (simp add: V_def)
  have h: "m_block_height d = ht" using r by (simp add: delta_rel_def)
  define t0 where "t0 = new_delta ht (m_unlock_timestamp d)"
  have t0: "delta_rel V L ht t0 L" using new_delta_rel[OF V] by (simp add: t0_def)
  define t1 where "t1 = t0\<lparr>m_keyimages := foldl (\<lambda>m ki. RBT.insert ki (m_block_height t0) m) (m_keyimages t0) (key_images tx),
      m_spent_outputs := m_spent_outputs t0 @ tx_spends tx\<rparr>"
  let ?L1 = "lg_store_all L (kis_map ht (key_images tx))"
  have t1: "delta_rel V L ht t1 ?L1" using delta_rel_inputs[OF t0 _ fresh(2)] shape by (simp add: t1_def tx_shape_def)
  have ins: "redo_inputs C c V False (replicate 32 0) (signatures tx) 0 0 t0 (inputs tx) = Inr (Inr (t1, 0))"
    using fresh(1) by (simp add: redo_inputs_unchecked key_images_kis_of tx_spends_of t1_def) (simp add: t0_def)
  have "\<forall>a. length (lg_outputs ?L1 a) + length (new_outs (unlock_time tx) (outputs tx) a) < 2 ^ 32" using sz by (simp add: tx_outs_new)
  then obtain t2 gis where t2: "redo_outputs V (unlock_time tx) t1 (outputs tx) = Inr (t2, gis)"
      "delta_rel V L ht t2 (lg_append ht ?L1 (tx_outs tx))" "m_spent_outputs t2 = m_spent_outputs t1"
      "list_all2 (index_finds ht (unlock_time tx) (lg_append ht ?L1 (tx_outs tx))) (outputs tx) gis"
    using redo_outputs_ledger[OF t1, of "outputs tx" "unlock_time tx"] shape by (auto simp: tx_shape_def tx_outs_new)
  have view: "lg_append ht ?L1 (tx_outs tx) = txs_view ht [tx] L" by (simp add: txs_view_def txs_kis_def txs_outs_def[abs_def])
  have ok: "delta_ok L t2" "m_block_height t2 = ht" "delta_ledger L t2 = txs_view ht [tx] L"
    using t2(2) unfolding view by (auto simp: delta_rel_def)
  obtain d' where d': "delta_apply delta_store_keyimage (delta_push_amount_output P) delta_spend_output t2 d = Inr d'"
      "delta_rel P L0 ht d' (txs_view ht [tx] L)" "m_spent_outputs d' = m_spent_outputs d @ m_spent_outputs t2"
    using delta_apply_delta[OF r ok(1,2)] unfolding ok(3) by blast
  have "redo_transaction C c P tx d False = Inr (Inr (d', gis, 0))"
    using ins t2(1) d'(1) by (simp add: redo_transaction_def V_def[symmetric] h t0_def)
  moreover have "m_spent_outputs d' = m_spent_outputs d @ tx_spends tx" using d'(3) t2(3) by (simp add: t1_def t0_def)
  ultimately show ?thesis using d'(2) t2(4) unfolding view by blast
qed

section \<open>What a block does to the ledger\<close>

lemma txs_view_Nil: "txs_view ht [] L = L"
  by (rule ledger.equality) (auto simp: txs_view_def txs_kis_def txs_outs_def kis_map_simps fun_eq_iff)

lemma txs_view_append: "txs_view ht (txs @ txs') L = txs_view ht txs' (txs_view ht txs L)"
  by (rule ledger.equality) (auto simp: txs_view_def txs_kis_def txs_outs_def kis_map_simps fun_eq_iff)

lemma txs_view_Cons: "txs_view ht (tx # txs) L = txs_view ht txs (txs_view ht [tx] L)"
  using txs_view_append[of ht "[tx]" txs L] by simp

lemma txs_view_sel [simp]:
  "lg_keyimages (txs_view ht txs L) = lg_keyimages L ++ kis_map ht (txs_kis txs)"
  "lg_outputs (txs_view ht txs L) a = lg_outputs L a @ map (new_output ht) (txs_outs txs a)"
  by (simp_all add: txs_view_def)

lemma txs_simps [simp]:
  "txs_kis [] = []" "txs_kis (tx # txs) = key_images tx @ txs_kis txs" "txs_outs [] a = []"
  "txs_outs (tx # txs) a = tx_outs tx a @ txs_outs txs a" "txs_spends [] = []" "txs_spends (tx # txs) = tx_spends tx @ txs_spends txs"
  "txs_kis (txs @ txs') = txs_kis txs @ txs_kis txs'" "txs_outs (txs @ txs') a = txs_outs txs a @ txs_outs txs' a"
  "txs_spends (txs @ txs') = txs_spends txs @ txs_spends txs'"
  by (simp_all add: txs_kis_def txs_outs_def txs_spends_def)

lemma index_finds_view: "index_finds ht ut L v gi \<Longrightarrow> index_finds ht ut (txs_view h txs L) v gi"
  by (auto simp: index_finds_def nth_append)

definition indices_find :: "u32 \<Rightarrow> ledger \<Rightarrow> transaction \<Rightarrow> u32 list \<Rightarrow> bool" where
  "indices_find ht L tx gis = list_all2 (index_finds ht (unlock_time tx) L) (outputs tx) gis"

lemma redo_transactions_ledger:
  assumes "delta_rel P L0 ht d L" and "\<forall>tx \<in> set txs. tx_shape tx"
    and "distinct (txs_kis txs)" and "set (txs_kis txs) \<inter> dom (lg_keyimages L) = {}"
    and "\<forall>a. length (lg_outputs L a) + length (txs_outs txs a) < 2 ^ 32"
  shows "\<exists>d' gis. redo_transactions C c P d txs = Inr (Some (d', gis)) \<and> delta_rel P L0 ht d' (txs_view ht txs L) \<and>
    m_spent_outputs d' = m_spent_outputs d @ txs_spends txs \<and> list_all2 (indices_find ht (txs_view ht txs L)) txs gis"
  using assms
proof (induction txs arbitrary: d L)
  case Nil
  then show ?case by (simp add: txs_view_Nil)
next
  case (Cons tx txs)
  let ?L1 = "txs_view ht [tx] L"
  have fresh: "distinct (key_images tx)" "set (key_images tx) \<inter> dom (lg_keyimages L) = {}" using Cons.prems(3,4) by auto
  have sz: "length (lg_outputs L a) + (length (tx_outs tx a) + length (txs_outs txs a)) < 2 ^ 32" for a using Cons.prems(5) by simp
  then have sz1: "\<forall>a. length (lg_outputs L a) + length (tx_outs tx a) < 2 ^ 32" by (meson add_lessD1 add.assoc le_add1 le_less_trans nat_add_left_cancel_le)
  obtain d1 gi cf where d1: "redo_transaction C c P tx d False = Inr (Inr (d1, gi, cf))" "delta_rel P L0 ht d1 ?L1"
      "m_spent_outputs d1 = m_spent_outputs d @ tx_spends tx" "indices_find ht ?L1 tx gi"
    using redo_transaction_ledger[OF Cons.prems(1) _ fresh sz1, of C c] Cons.prems(2) by (auto simp: indices_find_def)
  have rest: "distinct (txs_kis txs)" "set (txs_kis txs) \<inter> dom (lg_keyimages ?L1) = {}"
      "\<forall>a. length (lg_outputs ?L1 a) + length (txs_outs txs a) < 2 ^ 32"
    using Cons.prems(3,4) sz by (auto simp: add.assoc)
  obtain d' gis where d': "redo_transactions C c P d1 txs = Inr (Some (d', gis))" "delta_rel P L0 ht d' (txs_view ht txs ?L1)"
      "m_spent_outputs d' = m_spent_outputs d1 @ txs_spends txs" "list_all2 (indices_find ht (txs_view ht txs ?L1)) txs gis"
    using Cons.IH[OF d1(2) _ rest] Cons.prems(2) by auto
  have "indices_find ht (txs_view ht txs ?L1) tx gi"
    using d1(4) list_all2_mono[of _ "outputs tx" gi] index_finds_view unfolding indices_find_def by blast
  then show ?case using d1 d' unfolding txs_view_Cons[of ht tx txs] by auto
qed

text \<open>A block that is applied spends no key image twice: the delta refuses a key image it has.\<close>

lemma delta_store_dom:
  assumes "foldR (\<lambda>s ki. delta_store_keyimage s (fst ki) (snd ki)) d es = Inr d'"
  shows "fst ` set es \<inter> dom (RBT.lookup (m_keyimages d)) = {} \<and>
    dom (RBT.lookup (m_keyimages d')) = dom (RBT.lookup (m_keyimages d)) \<union> fst ` set es"
  using assms
proof (induction es arbitrary: d)
  case (Cons e es)
  obtain d1 where d1: "delta_store_keyimage d (fst e) (snd e) = Inr d1" "foldR (\<lambda>s ki. delta_store_keyimage s (fst ki) (snd ki)) d1 es = Inr d'"
    using Cons.prems by (auto simp: bindR_eq_Inr_iff)
  then have "fst e \<notin> dom (RBT.lookup (m_keyimages d))" "dom (RBT.lookup (m_keyimages d1)) = insert (fst e) (dom (RBT.lookup (m_keyimages d)))"
    by (auto simp: delta_store_keyimage_def split: if_splits)
  then show ?case using Cons.IH[OF d1(2)] by auto
qed simp

lemma delta_push_keyimages: "delta_push_amount_output P d a ut h pk = Inr (d', g) \<Longrightarrow> m_keyimages d' = m_keyimages d"
  by (auto simp: delta_push_amount_output_def Let_def bindR_eq_Inr_iff)

lemma push_all_keyimages:
  assumes "push_all (delta_push_amount_output P) ht d amp = Inr d'"
  shows "m_keyimages d' = m_keyimages d"
  using foldR_invariant[where P = "\<lambda>x. m_keyimages x = m_keyimages d", OF _ refl assms[unfolded push_all_def]]
  by (force simp: bindR_eq_Inr_iff dest: delta_push_keyimages)

lemma redo_outputs_keyimages: "redo_outputs P ut t outs = Inr (t', gis) \<Longrightarrow> m_keyimages t' = m_keyimages t"
  by (induction outs arbitrary: t gis) (auto simp: bindR_eq_Inr_iff dest!: delta_push_keyimages)

lemma delta_apply_dom:
  assumes "delta_apply delta_store_keyimage (delta_push_amount_output P) delta_spend_output t d = Inr d'"
  shows "dom (RBT.lookup (m_keyimages t)) \<inter> dom (RBT.lookup (m_keyimages d)) = {} \<and>
    dom (RBT.lookup (m_keyimages d')) = dom (RBT.lookup (m_keyimages d)) \<union> dom (RBT.lookup (m_keyimages t))"
proof -
  obtain s1 s2 where s: "foldR (\<lambda>s ki. delta_store_keyimage s (fst ki) (snd ki)) d (RBT.entries (m_keyimages t)) = Inr s1"
      "foldR (push_all (delta_push_amount_output P) (m_block_height t)) s1 (RBT.entries (m_global_amounts t)) = Inr s2"
      "d' = s2\<lparr>m_spent_outputs := m_spent_outputs s2 @ m_spent_outputs t\<rparr>"
    using assms by (auto simp: delta_apply_def bindR_eq_Inr_iff delta_spend_list)
  have "m_keyimages s2 = m_keyimages s1"
    by (rule foldR_invariant[where P = "\<lambda>x. m_keyimages x = m_keyimages s1", OF _ refl s(2)]) (auto dest: push_all_keyimages)
  moreover have "fst ` set (RBT.entries (m_keyimages t)) = dom (RBT.lookup (m_keyimages t))"
    by (force simp: RBT.lookup_in_tree)
  ultimately show ?thesis using delta_store_dom[OF s(1)] s(3) by auto
qed

text \<open>Success of a step whose result is itself an error or a value.\<close>

lemma bind_checked:
  "(bindR x (\<lambda>q. case q of Inl e \<Rightarrow> Inr (Inl (h e)) | Inr y \<Rightarrow> f y) = Inr (Inr z)) = (\<exists>y. x = Inr (Inr y) \<and> f y = Inr (Inr z))"
  by (cases x rule: sum.exhaust) (auto split: sum.splits)

lemma bind_checked_option:
  "(bindR x (\<lambda>q. case q of Inl e \<Rightarrow> Inr None | Inr y \<Rightarrow> g y) = Inr (Some w)) = (\<exists>y. x = Inr (Inr y) \<and> g y = Inr (Some w))"
  "(bindR r (\<lambda>q. Inr (case q of None \<Rightarrow> None | Some v \<Rightarrow> m v)) = Inr (Some w)) = (\<exists>v. r = Inr (Some v) \<and> m v = Some w)"
  by (cases x rule: sum.exhaust; auto split: sum.splits) (cases r rule: sum.exhaust; auto split: option.splits)

lemma bind_checked_bool:
  "(bindR x (\<lambda>q. case q of Inl e \<Rightarrow> Inr (False, s) | Inr y \<Rightarrow> k y) = Inr (True, s')) = (\<exists>y. x = Inr (Inr y) \<and> k y = Inr (True, s'))"
  "(bindR r (\<lambda>q. case q of None \<Rightarrow> Inr (False, s) | Some v \<Rightarrow> l v) = Inr (True, s')) = (\<exists>v. r = Inr (Some v) \<and> l v = Inr (True, s'))"
  by (cases x rule: sum.exhaust; auto split: sum.splits) (cases r rule: sum.exhaust; auto split: option.splits)

lemma bind_failed:
  "(bindR x (\<lambda>q. case q of Inl e \<Rightarrow> Inr (False, s) | Inr y \<Rightarrow> k y) = Inr (False, s')) =
     ((\<exists>e. x = Inr (Inl e)) \<and> s' = s \<or> (\<exists>y. x = Inr (Inr y) \<and> k y = Inr (False, s')))"
  "(bindR r (\<lambda>q. case q of None \<Rightarrow> Inr (False, s) | Some v \<Rightarrow> l v) = Inr (False, s')) =
     (r = Inr None \<and> s' = s \<or> (\<exists>v. r = Inr (Some v) \<and> l v = Inr (False, s')))"
  by (cases x rule: sum.exhaust; auto split: sum.splits) (cases r rule: sum.exhaust; auto split: option.splits)

lemma redo_transaction_fresh:
  assumes "redo_transaction C c P tx d False = Inr (Inr (d', gis, cf))"
  shows "distinct (key_images tx) \<and> set (key_images tx) \<inter> dom (RBT.lookup (m_keyimages d)) = {} \<and>
    dom (RBT.lookup (m_keyimages d')) = dom (RBT.lookup (m_keyimages d)) \<union> set (key_images tx)"
proof -
  let ?V = "delta_view P d" and ?t = "new_delta (m_block_height d) (m_unlock_timestamp d)"
  obtain t cf' t' where t: "redo_inputs C c ?V False (replicate 32 0) (signatures tx) 0 0 ?t (inputs tx) = Inr (Inr (t, cf'))"
      "redo_outputs ?V (unlock_time tx) t (outputs tx) = Inr (t', gis)"
      "delta_apply delta_store_keyimage (delta_push_amount_output P) delta_spend_output t' d = Inr d'"
    using assms unfolding redo_transaction_def Let_def by (auto simp: bind_checked) (auto simp: bindR_eq_Inr_iff)
  have k: "distinct (key_images tx)" "RBT.lookup (m_keyimages t) = kis_map (m_block_height d) (key_images tx)"
    using t(1) by (auto simp: redo_inputs_unchecked key_images_kis_of lookup_foldl_insert split: if_splits)
  have "dom (RBT.lookup (m_keyimages t')) = set (key_images tx)" using redo_outputs_keyimages[OF t(2)] k(2) by simp
  then show ?thesis using delta_apply_dom[OF t(3)] k(1) by simp
qed

lemma redo_transactions_fresh:
  assumes "redo_transactions C c P d txs = Inr (Some (d', gis))"
  shows "distinct (txs_kis txs) \<and> set (txs_kis txs) \<inter> dom (RBT.lookup (m_keyimages d)) = {} \<and>
    dom (RBT.lookup (m_keyimages d')) = dom (RBT.lookup (m_keyimages d)) \<union> set (txs_kis txs)"
  using assms
proof (induction txs arbitrary: d gis)
  case (Cons tx txs)
  then obtain d1 gi cf gis' where d1: "redo_transaction C c P tx d False = Inr (Inr (d1, gi, cf))" "redo_transactions C c P d1 txs = Inr (Some (d', gis'))"
    by (auto simp: bind_checked_option)
  show ?case using redo_transaction_fresh[OF d1(1)] Cons.IH[OF d1(2)] by auto
qed simp

lemma store_keyimage_db: "store_keyimage s ki h = Inr s' \<Longrightarrow>
    RBT.lookup (m_db s) (keyimage_key ki) = None \<and> RBT.lookup (m_db s') = (RBT.lookup (m_db s))(keyimage_key ki \<mapsto> write_u32 h)"
  by (auto simp: store_keyimage_def db_put_def Let_def bindR_eq_Inr_iff split: option.splits if_splits)

lemma store_entries_fresh:
  assumes "foldR (\<lambda>s ki. store_keyimage s (fst ki) (snd ki)) s es = Inr s'" and "ki \<in> fst ` set es"
  shows "RBT.lookup (m_db s) (keyimage_key ki) = None"
  using assms
proof (induction es arbitrary: s)
  case (Cons e es)
  obtain s1 where s1: "store_keyimage s (fst e) (snd e) = Inr s1" "foldR (\<lambda>s ki. store_keyimage s (fst ki) (snd ki)) s1 es = Inr s'"
    using Cons.prems by (auto simp: bindR_eq_Inr_iff)
  note db = store_keyimage_db[OF s1(1)]
  show ?case
  proof (cases "ki = fst e")
    case False
    then have "RBT.lookup (m_db s1) (keyimage_key ki) = None" using Cons.IH[OF s1(2)] Cons.prems(2) by auto
    then show ?thesis using db False by simp
  qed (use db in simp)
qed simp

lemma delta_apply_fresh:
  assumes "db_ledger s L" and "delta_apply store_keyimage push_amount_output spend_output d s = Inr s'"
  shows "dom (RBT.lookup (m_keyimages d)) \<inter> dom (lg_keyimages L) = {}"
proof -
  obtain s1 where s1: "foldR (\<lambda>s ki. store_keyimage s (fst ki) (snd ki)) s (RBT.entries (m_keyimages d)) = Inr s1"
    using assms(2) by (auto simp: delta_apply_def bindR_eq_Inr_iff)
  have "lg_keyimages L ki = None" if "ki \<in> dom (RBT.lookup (m_keyimages d))" for ki
  proof -
    have "ki \<in> fst ` set (RBT.entries (m_keyimages d))" using that by (force simp: RBT.lookup_in_tree)
    then show ?thesis using store_entries_fresh[OF s1] assms(1) by (auto simp: db_ledger_def)
  qed
  then show ?thesis by (simp add: disjoint_iff domIff)
qed

text \<open>Writes under other prefixes leave the ledger as it is.\<close>

lemma db_ledger_frame:
  assumes "db_ledger s L" and "RBT.lookup d = (RBT.lookup (m_db s))(k := v)" and "length k \<le> 128" and "hd k \<noteq> 0x69" and "hd k \<noteq> 0x61"
  shows "db_ledger (s\<lparr>m_tx_pool_version := n, m_db := d\<rparr>) L" and "db_ledger (s\<lparr>m_db := d\<rparr>) L"
proof -
  have k: "keyimage_key ki \<noteq> k" "amount_prefix a @ x \<noteq> k" "amount_key a gi \<noteq> k" for ki a x gi
    using assms(4,5) by (auto simp: keyimage_key_def amount_prefix_def amount_key_def)
  have sh: "short_keys d" using assms(1-3) by (auto simp: db_ledger_def short_keys_def max_key_size_def split: if_splits)
  have "keys_with d (amount_prefix a) = keys_with (m_db s) (amount_prefix a)" for a by (simp add: keys_with_def assms(2) k)
  then show "db_ledger (s\<lparr>m_tx_pool_version := n, m_db := d\<rparr>) L" "db_ledger (s\<lparr>m_db := d\<rparr>) L"
    using assms(1) sh by (simp_all add: db_ledger_def db_outputs_ok_def assms(2) k)
qed

definition block_shape :: "block \<Rightarrow> bool" where
  "block_shape b \<longleftrightarrow> (\<forall>tx \<in> set (block_txs b). tx_shape tx)"

definition indexes_fit :: "ledger \<Rightarrow> block \<Rightarrow> bool" where
  "indexes_fit L b \<longleftrightarrow> (\<forall>a. length (lg_outputs L a) + length (txs_outs (block_txs b) a) < 2 ^ 32)"

lemma redo_block_ledger:
  assumes r: "db_ledger s L" and shape: "block_shape b" and fit: "indexes_fit L b" and bh: "length bhash = 32"
    and ok: "redo_block C bhash b info s = Inr (True, s')"
  shows "distinct (txs_kis (block_txs b)) \<and> set (txs_kis (block_txs b)) \<inter> dom (lg_keyimages L) = {} \<and>
    db_ledger s' (txs_ledger (hd_height info) (block_txs b) L) \<and>
    (\<exists>gis. RBT.lookup (m_db s') (global_indices_key bhash) = Some (write_global_indices gis) \<and>
       list_all2 (indices_find (hd_height info) (txs_view (hd_height info) (block_txs b) L)) (block_txs b) gis)"
proof -
  let ?ht = "hd_height info" and ?P = "state_view s"
  let ?d0 = "new_delta ?ht (hd_timestamp info)"
  obtain d gis s1 db where d: "redo_transactions C (m_currency s) ?P ?d0 (block_txs b) = Inr (Some (d, gis))"
      "delta_apply store_keyimage push_amount_output spend_output d s = Inr s1"
      "db_put (m_db s1) (global_indices_key bhash) (write_global_indices gis) True = Inr db" "s' = s1\<lparr>m_tx_pool_version := 2, m_db := db\<rparr>"
    using ok unfolding redo_block_def redo_block_delta_def block_txs_def[symmetric]
    by (auto simp: bind_checked_bool bindR_eq_Inr_iff[of "is_in_sw_checkpoint_zone _ _"] bindR_eq_Inr_iff[of "delta_apply _ _ _ _ _"]
        bindR_eq_Inr_iff[of "db_put _ _ _ _"] simp del: redo_transactions.simps split: if_splits)
  have fresh: "distinct (txs_kis (block_txs b))" "dom (RBT.lookup (m_keyimages d)) = set (txs_kis (block_txs b))"
    using redo_transactions_fresh[OF d(1)] by auto
  have new: "set (txs_kis (block_txs b)) \<inter> dom (lg_keyimages L) = {}" using delta_apply_fresh[OF r d(2)] fresh(2) by simp
  have d0: "delta_rel ?P L ?ht ?d0 L" using new_delta_rel db_ledger_view[OF r] by blast
  obtain gis' d' where p: "redo_transactions C (m_currency s) ?P ?d0 (block_txs b) = Inr (Some (d', gis'))"
      "delta_rel ?P L ?ht d' (txs_view ?ht (block_txs b) L)" "m_spent_outputs d' = txs_spends (block_txs b)"
      "list_all2 (indices_find ?ht (txs_view ?ht (block_txs b) L)) (block_txs b) gis'"
    using redo_transactions_ledger[OF d0 _ fresh(1) new, of C "m_currency s"] shape fit
    unfolding block_shape_def indexes_fit_def new_delta_sel append_Nil by blast
  have eq: "d' = d" "gis' = gis" using p(1) d(1) by auto
  have dok: "delta_ok L d" "m_block_height d = ?ht" "delta_ledger L d = txs_view ?ht (block_txs b) L" using p(2) by (auto simp: delta_rel_def eq)
  have "db_ledger s1 (txs_ledger ?ht (block_txs b) L)"
    using st.delta_apply_ledger[OF r dok(1,2)] d(2) p(3) dok(3) by (auto simp: txs_ledger_def eq)
  then have "db_ledger s' (txs_ledger ?ht (block_txs b) L)"
    unfolding d(4) by (rule db_ledger_frame(1)[OF _ lookup_put[OF d(3)]]) (simp_all add: global_indices_key_def bh)
  then show ?thesis using fresh(1) new p(4) lookup_put[OF d(3)] by (auto simp: eq d(4))
qed

section \<open>Undoing a block\<close>

lemma lg_spend_all_append: "lg_spend_all L (xs @ ys) = lg_spend_all (lg_spend_all L xs) ys"
  by (simp add: lg_spend_all_def)

lemma lg_spend_all_keyimages [simp]: "lg_keyimages (lg_spend_all L sp) = lg_keyimages L"
  by (induction sp arbitrary: L) simp_all

lemma length_lg_spend_all [simp]: "length (lg_outputs (lg_spend_all L sp) a) = length (lg_outputs L a)"
  by (induction sp arbitrary: L) simp_all

lemma lg_set_spent_append:
  assumes "unat gi < length (lg_outputs L a)"
  shows "lg_set_spent (lg_append ht L new) a gi b = lg_append ht (lg_set_spent L a gi b) new"
  using assms by (intro ledger.equality) (auto simp: lg_set_spent_def fun_eq_iff lg_append_def nth_append list_update_append)

lemma lg_set_spent_store: "lg_set_spent (lg_store_all L kis) a gi b = lg_store_all (lg_set_spent L a gi b) kis"
  by (simp add: lg_set_spent_def lg_store_all_def)

lemma lg_spend_all_store: "lg_spend_all (lg_store_all L kis) sp = lg_store_all (lg_spend_all L sp) kis"
  by (induction sp arbitrary: L) (simp_all add: lg_set_spent_store)

definition in_range :: "ledger \<Rightarrow> u64 \<times> u32 \<Rightarrow> bool" where
  "in_range L mo \<longleftrightarrow> unat (snd mo) < length (lg_outputs L (fst mo))"

definition unspent :: "ledger \<Rightarrow> u64 \<times> u32 \<Rightarrow> bool" where
  "unspent L mo \<longleftrightarrow> in_range L mo \<and> \<not> od_spent (lg_outputs L (fst mo) ! unat (snd mo))"

lemma lg_spend_all_append_outputs:
  "\<forall>mo \<in> set sp. in_range L mo \<Longrightarrow> lg_spend_all (lg_append ht L new) sp = lg_append ht (lg_spend_all L sp) new"
  by (induction sp arbitrary: L) (auto simp: lg_set_spent_append in_range_def)

lemma unspent_set_spent: "unspent L mo \<Longrightarrow> mo \<noteq> (a, gi) \<Longrightarrow> unspent (lg_set_spent L a gi b) mo"
  using word_unat_eq_iff[of gi "snd mo"] by (cases mo) (auto simp: unspent_def in_range_def lg_set_spent_def nth_list_update)

lemma unspent_spend_all: "unspent L mo \<Longrightarrow> mo \<notin> set sp \<Longrightarrow> unspent (lg_spend_all L sp) mo"
proof (induction sp arbitrary: L)
  case (Cons x sp)
  then have "unspent (lg_set_spent L (fst x) (snd x) True) mo" by (intro unspent_set_spent) auto
  then show ?case using Cons by simp
qed simp

lemma lg_unspend:
  assumes "unspent L (a, gi)"
  shows "lg_set_spent (lg_set_spent L a gi True) a gi False = L"
proof -
  have "(lg_outputs L a ! unat gi)\<lparr>od_spent := False\<rparr> = lg_outputs L a ! unat gi"
    using assms by (intro output_data.equality) (auto simp: unspent_def)
  then show ?thesis using assms
    by (intro ledger.equality) (auto simp: lg_set_spent_def unspent_def in_range_def fun_eq_iff list_update_same_conv)
qed

text \<open>The outputs of a transaction are popped in reverse, then its key images and the marks of spent outputs.\<close>

lemma undo_outputs_ledger:
  assumes "db_ledger s (lg_append ht M (new_outs ut outs))"
  shows "\<exists>s'. undo_outputs ut s (rev outs) = Inr s' \<and> db_ledger s' M"
  using assms
proof (induction outs arbitrary: s rule: rev_induct)
  case Nil
  then show ?case by (simp add: new_outs_def lg_append_def)
next
  case (snoc v outs)
  let ?a = "out_amount v" and ?od = "new_output ht (ut, out_key (out_target v))"
  let ?L = "lg_append ht M (new_outs ut (outs @ [v]))"
  have "lg_outputs ?L ?a = lg_outputs (lg_append ht M (new_outs ut outs)) ?a @ [?od]" by (simp add: new_outs_def)
  then obtain s1 where s1: "pop_amount_output s ?a ut (out_key (out_target v)) = Inr s1"
      "db_ledger s1 (?L\<lparr>lg_outputs := (lg_outputs ?L)(?a := lg_outputs (lg_append ht M (new_outs ut outs)) ?a)\<rparr>)"
    using pop_amount_output_ledger[OF snoc.prems] by fastforce
  have "?L\<lparr>lg_outputs := (lg_outputs ?L)(?a := lg_outputs (lg_append ht M (new_outs ut outs)) ?a)\<rparr> = lg_append ht M (new_outs ut outs)"
    by (rule ledger.equality) (auto simp: fun_eq_iff new_outs_def)
  then show ?case using snoc.IH[of s1] s1 by simp
qed

lemma kis_of_append [simp]: "kis_of (xs @ ys) = kis_of xs @ kis_of ys" "spends_of (xs @ ys) = spends_of xs @ spends_of ys"
  by (simp_all add: kis_of_def spends_of_def)

lemma undo_inputs_ledger:
  assumes "db_ledger s (lg_store_all (lg_spend_all M (spends_of ins)) (kis_map ht (kis_of ins)))"
    and "distinct (kis_of ins)" and "set (kis_of ins) \<inter> dom (lg_keyimages M) = {}"
    and "distinct (spends_of ins)" and "\<forall>mo \<in> set (spends_of ins). unspent M mo"
  shows "\<exists>s'. undo_inputs s (rev ins) = Inr s' \<and> db_ledger s' M"
  using assms
proof (induction ins arbitrary: s rule: rev_induct)
  case Nil
  then show ?case by (simp add: kis_map_simps lg_store_all_def)
next
  case (snoc i ins)
  show ?case
  proof (cases i)
    case (KeyInput a idx ki)
    let ?sp = "spends_of (ins @ [i])" and ?kis = "kis_of ins"
    let ?L = "lg_store_all (lg_spend_all M ?sp) (kis_map ht (?kis @ [ki]))"
    have ki: "ki \<notin> set ?kis" "lg_keyimages M ki = None" using snoc.prems(2,3) KeyInput by auto
    have "lg_keyimages ?L ki \<noteq> None" by (simp add: kis_map_def)
    then obtain s1 where s1: "delete_keyimage s ki = Inr s1" "db_ledger s1 (?L\<lparr>lg_keyimages := (lg_keyimages ?L)(ki := None)\<rparr>)"
      using delete_keyimage_ledger[of s ?L ki] snoc.prems(1) KeyInput by auto
    have del: "?L\<lparr>lg_keyimages := (lg_keyimages ?L)(ki := None)\<rparr> = lg_store_all (lg_spend_all M ?sp) (kis_map ht ?kis)"
      using ki by (intro ledger.equality) (auto simp: kis_map_def fun_eq_iff map_add_def)
    obtain s2 where s2: "(if length idx = 1 then set_spent s1 a (hd idx) False else Inr s1) = Inr s2"
        "db_ledger s2 (lg_store_all (lg_spend_all M (spends_of ins)) (kis_map ht ?kis))"
    proof (cases "length idx = 1")
      case True
      have "unspent (lg_spend_all M (spends_of ins)) (a, hd idx)"
        using snoc.prems(4,5) KeyInput True by (intro unspent_spend_all) auto
      then have eq: "lg_set_spent (lg_spend_all M ?sp) a (hd idx) False = lg_spend_all M (spends_of ins)"
        using lg_unspend KeyInput True by (simp add: lg_spend_all_append)
      show ?thesis using set_spent_ledger[OF s1(2), of a "hd idx" False] True that unfolding del lg_set_spent_store eq by auto
    next
      case False
      then have "?sp = spends_of ins" using KeyInput by simp
      then show ?thesis using s1(2) that[of s1] False unfolding del by simp
    qed
    show ?thesis using snoc.IH[OF s2(2)] snoc.prems KeyInput s1(1) s2(1) by auto
  qed (use snoc in simp)
qed

text \<open>The operations on the ledger write under its two prefixes only and change nothing else of the chain.\<close>

definition ledger_step :: "chain_state \<Rightarrow> chain_state \<Rightarrow> bool" where
  "ledger_step s s' \<longleftrightarrow> block_chain.truncate s' = (block_chain.truncate s)\<lparr>m_db := m_db s'\<rparr> \<and>
     (\<forall>k. hd k \<noteq> 0x69 \<longrightarrow> hd k \<noteq> 0x61 \<longrightarrow> RBT.lookup (m_db s') k = RBT.lookup (m_db s) k)"

lemma ledger_step_refl: "ledger_step s s"
  by (simp add: ledger_step_def block_chain.defs)

lemma ledger_step_trans: "ledger_step s t \<Longrightarrow> ledger_step t u \<Longrightarrow> ledger_step s u"
  by (simp add: ledger_step_def)

lemma ledger_key_hd [simp]: "hd (keyimage_key ki) = 0x69" "hd (amount_key a gi) = 0x61"
  by (simp_all add: keyimage_key_def amount_key_def amount_prefix_def)

lemma ledger_step_dbs:
  assumes "RBT.lookup d = (RBT.lookup (m_db s))(k := v)" and "hd k = 0x69 \<or> hd k = 0x61"
  shows "ledger_step s (s\<lparr>m_db := d\<rparr>)" and "ledger_step s (s\<lparr>m_db := d, m_pool := p\<rparr>)"
    and "ledger_step s (s\<lparr>m_db := d, m_next_gi_for_amount := m\<rparr>)" and "ledger_step s (s\<lparr>m_next_gi_for_amount := m, m_db := d\<rparr>)"
  using assms by (auto simp: ledger_step_def block_chain.defs)

lemma store_keyimage_step: "store_keyimage s ki h = Inr s' \<Longrightarrow> ledger_step s s'"
  by (auto simp: store_keyimage_def bindR_eq_Inr_iff Let_def ledger_step_def block_chain.defs split: option.splits dest!: lookup_put)

lemma push_amount_output_step: "push_amount_output s a ut h pk = Inr (s', g) \<Longrightarrow> ledger_step s s'"
  by (auto simp: push_amount_output_def bindR_eq_Inr_iff dest!: lookup_put intro: ledger_step_dbs)

lemma set_spent_step: "set_spent s a gi b = Inr s' \<Longrightarrow> ledger_step s s'"
  by (auto simp: set_spent_def bindR_eq_Inr_iff ledger_step_refl split: option.splits dest!: lookup_put intro: ledger_step_dbs)

lemma delete_keyimage_step: "delete_keyimage s ki = Inr s' \<Longrightarrow> ledger_step s s'"
  by (auto simp: delete_keyimage_def bindR_eq_Inr_iff dest!: lookup_del intro: ledger_step_dbs)

lemma pop_amount_output_step:
  assumes "pop_amount_output s a ut pk = Inr s'"
  shows "ledger_step s s'"
proof -
  obtain n where n: "next_global_index_for_amount s a = Inr n" "n \<noteq> 0"
    using assms by (auto simp: pop_amount_output_def bindR_eq_Inr_iff[of "next_global_index_for_amount s a"] split: if_splits)
  define s1 where "s1 = s\<lparr>m_next_gi_for_amount := RBT.insert a (n - 1) (m_next_gi_for_amount s)\<rparr>"
  obtain r where r: "read_amount_output s1 a (n - 1) = Inr r"
    using assms n by (auto simp: pop_amount_output_def bindR_eq_Inr_iff Let_def s1_def)
  then obtain d where d: "db_del (m_db s1) (amount_key a (n - 1)) True = Inr d" "s' = s1\<lparr>m_db := d\<rparr>"
    using assms n
    by (cases r) (auto simp: pop_amount_output_def Let_def s1_def[symmetric] bindR_eq_Inr_iff split: if_splits)
  then show ?thesis using ledger_step_dbs(4)[of d s "amount_key a (n - 1)" None] lookup_del[OF d(1)] by (simp add: s1_def)
qed

lemma foldR_step:
  assumes "foldR f s xs = Inr s'" and "\<And>t x t'. f t x = Inr t' \<Longrightarrow> ledger_step t t'"
  shows "ledger_step s s'"
  by (rule foldR_invariant[where P = "ledger_step s", OF _ ledger_step_refl assms(1)]) (meson assms(2) ledger_step_trans)

lemma push_all_step: "push_all push_amount_output h s amp = Inr s' \<Longrightarrow> ledger_step s s'"
  unfolding push_all_def by (erule foldR_step) (auto simp: bindR_eq_Inr_iff dest: push_amount_output_step)

lemma delta_apply_step:
  assumes "delta_apply store_keyimage push_amount_output spend_output d s = Inr s'"
  shows "ledger_step s s'"
proof -
  obtain s1 s2 where s: "foldR (\<lambda>s ki. store_keyimage s (fst ki) (snd ki)) s (RBT.entries (m_keyimages d)) = Inr s1"
      "foldR (push_all push_amount_output (m_block_height d)) s1 (RBT.entries (m_global_amounts d)) = Inr s2"
      "foldR (\<lambda>s mo. spend_output s (fst mo) (snd mo)) s2 (m_spent_outputs d) = Inr s'"
    using assms by (auto simp: delta_apply_def bindR_eq_Inr_iff)
  have "ledger_step s s1" using foldR_step[OF s(1)] store_keyimage_step by blast
  moreover have "ledger_step s1 s2" using foldR_step[OF s(2)] push_all_step by blast
  moreover have "ledger_step s2 s'" using foldR_step[OF s(3)] set_spent_step unfolding spend_output_def by blast
  ultimately show ?thesis by (meson ledger_step_trans)
qed

lemma undo_outputs_step: "undo_outputs ut s outs = Inr s' \<Longrightarrow> ledger_step s s'"
  by (induction outs arbitrary: s) (auto simp: bindR_eq_Inr_iff ledger_step_refl intro: ledger_step_trans pop_amount_output_step)

lemma undo_inputs_step: "undo_inputs s ins = Inr s' \<Longrightarrow> ledger_step s s'"
  by (induction ins arbitrary: s)
    (auto simp: bindR_eq_Inr_iff ledger_step_refl split: transaction_input.splits if_splits,
      (meson ledger_step_trans delete_keyimage_step set_spent_step)+)

lemma undo_transaction_step: "undo_transaction s tx = Inr s' \<Longrightarrow> ledger_step s s'"
  by (auto simp: undo_transaction_def bindR_eq_Inr_iff intro: ledger_step_trans undo_outputs_step undo_inputs_step)

lemma undo_transaction_ledger:
  assumes r: "db_ledger s (txs_ledger ht (txs @ [tx]) L)"
    and kis: "distinct (txs_kis (txs @ [tx]))" "set (txs_kis (txs @ [tx])) \<inter> dom (lg_keyimages L) = {}"
    and sp: "distinct (txs_spends (txs @ [tx]))" "\<forall>mo \<in> set (txs_spends (txs @ [tx])). unspent L mo"
  shows "\<exists>s'. undo_transaction s tx = Inr s' \<and> db_ledger s' (txs_ledger ht txs L)"
proof -
  define N where "N = txs_ledger ht txs L"
  define M where "M = lg_store_all (lg_spend_all N (tx_spends tx)) (kis_map ht (key_images tx))"
  have view: "txs_view ht (txs @ [tx]) L = lg_append ht (lg_store_all (txs_view ht txs L) (kis_map ht (key_images tx))) (tx_outs tx)"
    by (rule ledger.equality) (auto simp: kis_map_simps fun_eq_iff)
  have range: "\<forall>mo \<in> set (txs_spends (txs @ [tx])). in_range (lg_store_all (txs_view ht txs L) (kis_map ht (key_images tx))) mo"
    using sp(2) unfolding unspent_def in_range_def by fastforce
  have "txs_ledger ht (txs @ [tx]) L = lg_append ht M (tx_outs tx)"
    using lg_spend_all_append_outputs[OF range] unfolding txs_ledger_def view M_def N_def
    by (simp add: lg_spend_all_store lg_spend_all_append)
  then obtain s1 where s1: "undo_outputs (unlock_time tx) s (rev (outputs tx)) = Inr s1" "db_ledger s1 M"
    using undo_outputs_ledger[of s ht M "unlock_time tx" "outputs tx"] r by (auto simp: tx_outs_new)
  have "unspent N mo" if "mo \<in> set (tx_spends tx)" for mo
  proof -
    have "unspent L mo" using sp(2) that by simp
    then have "unspent (txs_view ht txs L) mo" by (auto simp: unspent_def in_range_def nth_append)
    moreover have "mo \<notin> set (txs_spends txs)" using sp(1) that by auto
    ultimately show ?thesis unfolding N_def txs_ledger_def by (rule unspent_spend_all)
  qed
  moreover have "distinct (key_images tx)" "set (key_images tx) \<inter> dom (lg_keyimages N) = {}" "distinct (tx_spends tx)"
    using kis sp(1) by (auto simp: N_def txs_ledger_def)
  ultimately obtain s2 where "undo_inputs s1 (rev (inputs tx)) = Inr s2" "db_ledger s2 N"
    using undo_inputs_ledger[of s1 N "inputs tx" ht] s1(2) by (auto simp: M_def key_images_kis_of tx_spends_of)
  then show ?thesis using s1(1) by (simp add: undo_transaction_def N_def)
qed

lemma txs_ledger_Nil: "txs_ledger ht [] L = L"
  by (simp add: txs_ledger_def txs_view_Nil)

lemma undo_transactions_ledger:
  assumes "db_ledger s (txs_ledger ht txs L)"
    and "distinct (txs_kis txs)" "set (txs_kis txs) \<inter> dom (lg_keyimages L) = {}"
    and "distinct (txs_spends txs)" "\<forall>mo \<in> set (txs_spends txs). unspent L mo"
  shows "\<exists>s'. foldR undo_transaction s (rev txs) = Inr s' \<and> db_ledger s' L"
  using assms
proof (induction txs arbitrary: s rule: rev_induct)
  case Nil
  then show ?case by (simp add: txs_ledger_Nil)
next
  case (snoc tx txs)
  obtain s1 where s1: "undo_transaction s tx = Inr s1" "db_ledger s1 (txs_ledger ht txs L)"
    using undo_transaction_ledger[OF snoc.prems] by blast
  show ?case using snoc.IH[OF s1(2)] snoc.prems s1(1) by auto
qed

lemma undo_block_foldR:
  "undo_block bhash b height s =
     bindR (foldR undo_transaction s (rev (block_txs b))) (\<lambda>s2.
     bindR (db_del (m_db s2) (global_indices_key bhash) True) (\<lambda>d. Inr (s2\<lparr>m_db := d\<rparr>)))"
  by (simp add: undo_block_def block_txs_def foldR_append bindR_assoc)

text \<open>Undoing the block that is on top of a ledger gives the ledger below it, and removes the indexes of the block.\<close>

lemma undo_block_ledger:
  assumes r: "db_ledger s (txs_ledger ht (block_txs b) L)" and bh: "length bhash = 32"
    and key: "RBT.lookup (m_db s) (global_indices_key bhash) \<noteq> None"
    and "distinct (txs_kis (block_txs b))" "set (txs_kis (block_txs b)) \<inter> dom (lg_keyimages L) = {}"
    and "distinct (txs_spends (block_txs b))" "\<forall>mo \<in> set (txs_spends (block_txs b)). unspent L mo"
  shows "\<exists>s'. undo_block bhash b height s = Inr s' \<and> db_ledger s' L \<and>
    (\<forall>k. hd k \<noteq> 0x69 \<longrightarrow> hd k \<noteq> 0x61 \<longrightarrow> RBT.lookup (m_db s') k = ((RBT.lookup (m_db s))(global_indices_key bhash := None)) k)"
proof -
  obtain s1 where s1: "foldR undo_transaction s (rev (block_txs b)) = Inr s1" "db_ledger s1 L"
    using undo_transactions_ledger[OF r assms(4-7)] by blast
  have "ledger_step s s1" using foldR_step[OF s1(1)] undo_transaction_step by blast
  then have other: "RBT.lookup (m_db s1) k = RBT.lookup (m_db s) k" if "hd k \<noteq> 0x69" "hd k \<noteq> 0x61" for k
    using that by (simp add: ledger_step_def)
  then have "RBT.lookup (m_db s1) (global_indices_key bhash) \<noteq> None" using key by (simp add: global_indices_key_def)
  then obtain d where d: "db_del (m_db s1) (global_indices_key bhash) True = Inr d" by (simp add: db_del_def)
  have "db_ledger (s1\<lparr>m_db := d\<rparr>) L"
    by (rule db_ledger_frame(2)[OF s1(2) lookup_del[OF d]]) (simp_all add: global_indices_key_def bh)
  then show ?thesis using s1(1) d other by (auto simp: undo_block_foldR lookup_del[OF d])
qed

section \<open>Blocks that can be applied\<close>

lemma redo_block_progress:
  assumes r: "db_ledger s L" and shape: "block_shape b" and fit: "indexes_fit L b"
    and kis: "distinct (txs_kis (block_txs b))" "set (txs_kis (block_txs b)) \<inter> dom (lg_keyimages L) = {}"
    and key: "RBT.lookup (m_db s) (global_indices_key bhash) = None"
    and zone: "is_in_sw_checkpoint_zone (m_currency s) (hd_height info + 1) = Inr zone"
    and work: "\<not> zone \<Longrightarrow> start_work_get_error (m_currency s) (state_view s) (hd_height info) (hd_timestamp info) (bl_transactions b) = Inr (Inr args)"
      "\<not> zone \<Longrightarrow> list_all (check_ring_arg C) args"
  shows "\<exists>s'. redo_block C bhash b info s = Inr (True, s')"
proof -
  let ?ht = "hd_height info" and ?P = "state_view s"
  have d0: "delta_rel ?P L ?ht (new_delta ?ht (hd_timestamp info)) L" using new_delta_rel db_ledger_view[OF r] by blast
  obtain gis d where d: "redo_transactions C (m_currency s) ?P (new_delta ?ht (hd_timestamp info)) (block_txs b) = Inr (Some (d, gis))"
      "delta_rel ?P L ?ht d (txs_view ?ht (block_txs b) L)"
    using redo_transactions_ledger[OF d0 _ kis, of C "m_currency s"] shape fit unfolding block_shape_def indexes_fit_def by blast
  obtain s1 where s1: "delta_apply store_keyimage push_amount_output spend_output d s = Inr s1"
    using st.delta_apply_ledger[OF r, of d ?ht] d(2) by (auto simp: delta_rel_def)
  have "RBT.lookup (m_db s1) (global_indices_key bhash) = None"
    using delta_apply_step[OF s1] key by (simp add: ledger_step_def global_indices_key_def)
  then obtain db where db: "db_put (m_db s1) (global_indices_key bhash) (write_global_indices gis) True = Inr db" using db_put_new by blast
  define args' where "args' = (if zone then [] else args)"
  have "(if zone then Inr (Inr []) else start_work_get_error (m_currency s) ?P ?ht (hd_timestamp info) (bl_transactions b)) =
      (Inr (Inr args') :: (string + ring_signature_arg list) result)" and "list_all (check_ring_arg C) args'"
    using work by (auto simp: args'_def)
  then have "redo_block C bhash b info s = Inr (True, s1\<lparr>m_tx_pool_version := 2, m_db := db\<rparr>)"
    using zone d(1) s1 db by (simp add: redo_block_def redo_block_delta_def block_txs_def)
  then show ?thesis by blast
qed

text \<open>Applying or undoing a block touches the ledger and the record of its global indexes.\<close>

definition block_step :: "bytes \<Rightarrow> chain_state \<Rightarrow> chain_state \<Rightarrow> bool" where
  "block_step bhash s s' \<longleftrightarrow> block_chain.truncate s' = (block_chain.truncate s)\<lparr>m_db := m_db s'\<rparr> \<and>
     (\<forall>k. hd k \<noteq> 0x69 \<longrightarrow> hd k \<noteq> 0x61 \<longrightarrow> k \<noteq> global_indices_key bhash \<longrightarrow> RBT.lookup (m_db s') k = RBT.lookup (m_db s) k)"

lemma ledger_step_block_step: "ledger_step s s1 \<Longrightarrow> RBT.lookup d = (RBT.lookup (m_db s1))(global_indices_key bhash := v) \<Longrightarrow>
    block_step bhash s (s1\<lparr>m_tx_pool_version := n, m_db := d\<rparr>) \<and> block_step bhash s (s1\<lparr>m_db := d\<rparr>)"
  by (auto simp: ledger_step_def block_step_def block_chain.defs)

lemma block_step_refl: "block_step bhash s s"
  by (simp add: block_step_def block_chain.defs)

lemma redo_block_step:
  assumes "redo_block C bhash b info s = Inr (ok, s')"
  shows "block_step bhash s s'"
proof (cases ok)
  case True
  then obtain d s1 db gis where d: "delta_apply store_keyimage push_amount_output spend_output d s = Inr s1"
      "db_put (m_db s1) (global_indices_key bhash) (write_global_indices gis) True = Inr db" "s' = s1\<lparr>m_tx_pool_version := 2, m_db := db\<rparr>"
    using assms unfolding redo_block_def
    by (auto simp: bind_checked_bool bindR_eq_Inr_iff[of "is_in_sw_checkpoint_zone _ _"] bindR_eq_Inr_iff[of "delta_apply _ _ _ _ _"]
        bindR_eq_Inr_iff[of "db_put _ _ _ _"] simp del: redo_transactions.simps split: if_splits)
  then show ?thesis using ledger_step_block_step[OF delta_apply_step[OF d(1)] lookup_put[OF d(2)]] by simp
next
  case False
  then have "s' = s"
    using assms unfolding redo_block_def
    by (auto simp: bind_failed bindR_eq_Inr_iff[of "is_in_sw_checkpoint_zone _ _"] bindR_eq_Inr_iff[of "delta_apply _ _ _ _ _"]
        bindR_eq_Inr_iff[of "db_put _ _ _ _"] split: if_splits)
  then show ?thesis by (simp add: block_step_refl)
qed

lemma undo_block_step:
  assumes "undo_block bhash b height s = Inr s'"
  shows "block_step bhash s s'"
proof -
  obtain s1 d where s1: "foldR undo_transaction s (rev (block_txs b)) = Inr s1" "db_del (m_db s1) (global_indices_key bhash) True = Inr d" "s' = s1\<lparr>m_db := d\<rparr>"
    using assms by (auto simp: undo_block_foldR bindR_eq_Inr_iff)
  have "ledger_step s s1" using foldR_step[OF s1(1)] undo_transaction_step by blast
  then show ?thesis using ledger_step_block_step[OF _ lookup_del[OF s1(2)]] s1(3) by simp
qed

section \<open>A sample ledger\<close>

definition sample_crypto :: crypto_lib where
  "sample_crypto = \<lparr>c_key_isvalid = (\<lambda>_. True), c_check_ring_signature = (\<lambda>_ ki _ _. (ki = replicate 32 9, False))\<rparr>"

definition sample_state :: chain_state where
  "sample_state = block_chain.extend sample_chain
     (chain_state.fields RBT.empty empty_pool 2 RBT.empty 0 0)"

definition fresh_state :: chain_state where
  "fresh_state = sample_state\<lparr>m_db := RBT.empty, m_currency := mk_currency True (replicate 32 0) []\<rparr>"

definition no_ledger :: ledger where "no_ledger = \<lparr>lg_keyimages = Map.empty, lg_outputs = (\<lambda>_. [])\<rparr>"

definition sample_coinbase :: "u32 \<Rightarrow> transaction" where
  "sample_coinbase height = \<lparr>version = 1, unlock_time = 0, inputs = [CoinbaseInput height],
     outputs = [\<lparr>out_amount = 5, out_target = KeyOutput (replicate 32 7)\<rparr>], extra = [], signatures = []\<rparr>"

definition sample_spend :: transaction where
  "sample_spend = \<lparr>version = 1, unlock_time = 0, inputs = [KeyInput 5 [0] (replicate 32 9)],
     outputs = [\<lparr>out_amount = 4, out_target = KeyOutput (replicate 32 8)\<rparr>], extra = [], signatures = [[replicate 64 1]]\<rparr>"

definition sample_ledger_block :: "u32 \<Rightarrow> transaction list \<Rightarrow> block" where
  "sample_ledger_block height txs =
     \<lparr>bl_header = \<lparr>major_version = 1, minor_version = 0, nonce = 0, timestamp = 0, previous_block_hash = replicate 32 0,
        parent = empty_parent_block, base_tx = sample_coinbase height, transaction_hashes = []\<rparr>, bl_transactions = txs\<rparr>"

lemma fresh_ledger: "db_ledger fresh_state no_ledger"
  by (simp add: db_ledger_def fresh_state_def no_ledger_def sample_state_def block_chain.defs chain_state.defs pool_ok_empty
      short_keys_def db_outputs_ok_def keys_with_def)

definition sample_info :: "u32 \<Rightarrow> api_block_header" where
  "sample_info height = empty_api_header\<lparr>hd_height := height\<rparr>"

lemma sample_block_txs [simp]:
  "block_txs (sample_ledger_block h txs) = sample_coinbase h # txs" "bl_transactions (sample_ledger_block h txs) = txs"
  by (simp_all add: block_txs_def sample_ledger_block_def)

lemma sample_tx_parts [simp]:
  "key_images (sample_coinbase h) = []" "key_images sample_spend = [replicate 32 9]"
  "tx_spends (sample_coinbase h) = []" "tx_spends sample_spend = [(5, 0)]"
  "tx_outs (sample_coinbase h) a = (if a = 5 then [(0, replicate 32 7)] else [])"
  "tx_outs sample_spend a = (if a = 4 then [(0, replicate 32 8)] else [])"
  by (simp_all add: key_images_def tx_spends_def tx_outs_def sample_coinbase_def sample_spend_def)

lemma sample_shape: "block_shape (sample_ledger_block h [])" "block_shape (sample_ledger_block h [sample_spend])"
  by (simp_all add: block_shape_def tx_shape_def) (simp_all add: sample_coinbase_def sample_spend_def)

text \<open>A first block with only its coinbase, and a second one that spends the output of the first.\<close>

lemma first_block:
  "\<exists>s1. redo_block sample_crypto (replicate 32 1) (sample_ledger_block 0 []) (sample_info 0) fresh_state = Inr (True, s1) \<and>
     db_ledger s1 (txs_ledger 0 [sample_coinbase 0] no_ledger) \<and> RBT.lookup (m_db s1) (global_indices_key (replicate 32 2)) = None \<and>
     m_currency s1 = m_currency fresh_state"
proof -
  have zone: "is_in_sw_checkpoint_zone (m_currency fresh_state) (hd_height (sample_info 0) + 1) = Inr False"
    by (simp add: is_in_sw_checkpoint_zone_def fresh_state_def mk_currency_def Let_def sample_info_def)
  have fit: "indexes_fit no_ledger (sample_ledger_block 0 [])" by (simp add: indexes_fit_def no_ledger_def)
  obtain s1 where s1: "redo_block sample_crypto (replicate 32 1) (sample_ledger_block 0 []) (sample_info 0) fresh_state = Inr (True, s1)"
    using redo_block_progress[OF fresh_ledger sample_shape(1) fit, of "replicate 32 1" "sample_info 0" False "[]" sample_crypto] zone
    by (auto simp: fresh_state_def)
  have step: "block_step (replicate 32 1) fresh_state s1" by (rule redo_block_step[OF s1])
  have fresh: "RBT.lookup (m_db fresh_state) k = None" for k by (simp add: fresh_state_def)
  have "RBT.lookup (m_db s1) (global_indices_key (replicate 32 2)) = None"
    using step fresh[of "global_indices_key (replicate 32 2)"] by (simp add: block_step_def global_indices_key_def)
  moreover have "m_currency s1 = m_currency fresh_state" using step by (simp add: block_step_def block_chain.defs)
  moreover have "db_ledger s1 (txs_ledger 0 [sample_coinbase 0] no_ledger)"
    using redo_block_ledger[OF fresh_ledger sample_shape(1) fit _ s1] by (simp add: sample_info_def)
  ultimately show ?thesis using s1 by blast
qed

lemma second_block:
  assumes "db_ledger s1 (txs_ledger 0 [sample_coinbase 0] no_ledger)" (is "db_ledger s1 ?L")
    and "RBT.lookup (m_db s1) (global_indices_key (replicate 32 2)) = None" and c: "m_currency s1 = m_currency fresh_state"
  shows "indexes_fit ?L (sample_ledger_block 1 [sample_spend])" and "unspent ?L (5, 0)"
    and "\<exists>s2. redo_block sample_crypto (replicate 32 2) (sample_ledger_block 1 [sample_spend]) (sample_info 1) s1 = Inr (True, s2)"
proof -
  have L: "?L = lg_append 0 no_ledger (\<lambda>a. if a = 5 then [(0, replicate 32 7)] else [])"
    by (simp add: txs_ledger_def txs_view_def txs_kis_def kis_map_simps lg_store_all_def txs_outs_def[abs_def] txs_spends_def)
  have out: "lg_outputs ?L a = (if a = 5 then [new_output 0 (0, replicate 32 7)] else [])" for a unfolding L by (simp add: no_ledger_def)
  have ki: "lg_keyimages ?L = Map.empty" unfolding L by (simp add: no_ledger_def)
  show fit: "indexes_fit ?L (sample_ledger_block 1 [sample_spend])" by (simp add: indexes_fit_def out)
  show "unspent ?L (5, 0)" by (simp add: unspent_def in_range_def out)
  have view: "rd_keyimage (state_view s1) (replicate 32 9) = Inr None"
      "rd_amount_output (state_view s1) 5 0 = Inr (Some (new_output 0 (0, replicate 32 7)))"
    using db_ledger_view[OF assms(1)] by (simp_all add: ledger_view_def out ki)
  have zone: "is_in_sw_checkpoint_zone (m_currency s1) (hd_height (sample_info 1) + 1) = Inr False"
    by (simp add: c is_in_sw_checkpoint_zone_def fresh_state_def mk_currency_def Let_def sample_info_def)
  have unlocked: "is_transaction_spend_time_unlocked (m_currency s1) 0 1 t" for t
    by (simp add: c fresh_state_def is_transaction_spend_time_unlocked_def mk_currency_def Let_def)
  define arg where "arg = \<lparr>ra_prefix_hash = get_transaction_prefix_hash sample_spend, ra_key_image = replicate 32 9,
      ra_output_keys = [replicate 32 7], ra_signatures = [replicate 64 1]\<rparr>"
  have work: "start_work_get_error (m_currency s1) (state_view s1) (hd_height (sample_info 1)) (hd_timestamp (sample_info 1)) [sample_spend] = Inr (Inr [arg])"
    using view unlocked by (simp add: arg_def sample_info_def Let_def) (simp add: sample_spend_def Let_def)
  have "list_all (check_ring_arg sample_crypto) [arg]" by (simp add: check_ring_arg_def sample_crypto_def arg_def)
  then show "\<exists>s2. redo_block sample_crypto (replicate 32 2) (sample_ledger_block 1 [sample_spend]) (sample_info 1) s1 = Inr (True, s2)"
    using redo_block_progress[OF assms(1) sample_shape(2) fit _ _ assms(2) zone, of "[arg]" sample_crypto] work by (simp add: ki)
qed

text \<open>Spending a list of outputs marks exactly these.\<close>

lemma set_spent_at: "unat gi < length (lg_outputs L a) \<Longrightarrow>
    lg_outputs (lg_set_spent L b g True) a ! unat gi =
      (lg_outputs L a ! unat gi)\<lparr>od_spent := od_spent (lg_outputs L a ! unat gi) \<or> (b, g) = (a, gi)\<rparr>"
  using word_unat_eq_iff[of g gi] by (cases "b = a") (auto simp: lg_set_spent_def nth_list_update)

lemma spend_all_at: "unat gi < length (lg_outputs L a) \<Longrightarrow>
    lg_outputs (lg_spend_all L sp) a ! unat gi =
      (lg_outputs L a ! unat gi)\<lparr>od_spent := od_spent (lg_outputs L a ! unat gi) \<or> (a, gi) \<in> set sp\<rparr>"
proof (induction sp arbitrary: L)
  case (Cons mo sp)
  obtain b g where mo: "mo = (b, g)" by force
  have "unat gi < length (lg_outputs (lg_set_spent L b g True) a)" using Cons.prems by simp
  from Cons.IH[OF this] show ?case using set_spent_at[OF Cons.prems, of b g] by (auto simp: mo disj_ac conj_ac eq_commute)
qed simp

section \<open>Properties\<close>

text \<open>
  C4: a transaction that passes the semantic check creates no money: its outputs and its fee are exactly its
  inputs, as numbers and not only modulo 64 bits, no key image occurs twice in it, every output is non-zero, and the
  fee is the one that the pool and the block reward use.
\<close>

theorem semantic_check_conserves_money:
  assumes "validate_semantic C False tx check = Inr fee"
  shows "sum_list (map (\<lambda>v. unat (out_amount v)) (outputs tx)) + unat fee =
      sum_list (map (\<lambda>i. case i of KeyInput a _ _ \<Rightarrow> unat a | CoinbaseInput _ \<Rightarrow> 0) (inputs tx)) \<and>
    sum_list (map (\<lambda>i. case i of KeyInput a _ _ \<Rightarrow> unat a | CoinbaseInput _ \<Rightarrow> 0) (inputs tx)) < 2 ^ 64 \<and>
    distinct (key_images tx) \<and> (\<forall>v \<in> set (outputs tx). out_amount v \<noteq> 0) \<and> get_tx_fee tx = Some fee"
  using validate_semantic_ok[OF assms] validate_semantic_fee[OF assms] by (simp_all add: outputs_total_def inputs_total_def)

theorem semantic_check_conserves_money_witness:
  "validate_semantic sample_crypto False sample_spend True = Inr 1 \<and>
   sum_list (map (\<lambda>v. unat (out_amount v)) (outputs sample_spend)) + unat (1 :: u64) =
     sum_list (map (\<lambda>i. case i of KeyInput a _ _ \<Rightarrow> unat a | CoinbaseInput _ \<Rightarrow> 0) (inputs sample_spend))"
proof -
  have v: "validate_semantic sample_crypto False sample_spend True = Inr 1"
    by (simp add: validate_semantic_def sample_spend_def sample_crypto_def validate_input_def)
  show ?thesis using semantic_check_conserves_money[OF v] v by simp
qed

text \<open>
  C1: applying a block has exactly the effect that the ledger specifies: it succeeds only if no key image of the block
  was spent before or occurs twice in it; afterwards the key images are spent at the height of the block, the outputs of all its
  transactions follow the earlier ones of their amount, in order, and the stored global indexes find them.
\<close>

theorem redo_block_refines_ledger:
  assumes "db_ledger s L" and "block_shape b" and "indexes_fit L b" and "length bhash = 32"
    and "redo_block C bhash b info s = Inr (True, s')"
  shows "distinct (txs_kis (block_txs b)) \<and> set (txs_kis (block_txs b)) \<inter> dom (lg_keyimages L) = {} \<and>
    db_ledger s' (txs_ledger (hd_height info) (block_txs b) L) \<and>
    (\<exists>gis. RBT.lookup (m_db s') (global_indices_key bhash) = Some (write_global_indices gis) \<and>
       list_all2 (indices_find (hd_height info) (txs_view (hd_height info) (block_txs b) L)) (block_txs b) gis)"
  using assms by (rule redo_block_ledger)

theorem redo_block_refines_ledger_witness:
  "\<exists>s1 s2. redo_block sample_crypto (replicate 32 2) (sample_ledger_block 1 [sample_spend]) (sample_info 1) s1 = Inr (True, s2) \<and>
     db_ledger s2 (txs_ledger 1 [sample_coinbase 1, sample_spend] (txs_ledger 0 [sample_coinbase 0] no_ledger))"
proof -
  obtain s1 where s1: "db_ledger s1 (txs_ledger 0 [sample_coinbase 0] no_ledger)"
      "RBT.lookup (m_db s1) (global_indices_key (replicate 32 2)) = None" "m_currency s1 = m_currency fresh_state"
    using first_block by blast
  obtain s2 where s2: "redo_block sample_crypto (replicate 32 2) (sample_ledger_block 1 [sample_spend]) (sample_info 1) s1 = Inr (True, s2)"
    using second_block(3)[OF s1] by blast
  have "length (replicate 32 (2 :: byte)) = 32" by simp
  from redo_block_refines_ledger[OF s1(1) sample_shape(2) second_block(1)[OF s1] this s2]
  have "db_ledger s2 (txs_ledger 1 [sample_coinbase 1, sample_spend] (txs_ledger 0 [sample_coinbase 0] no_ledger))"
    by (simp add: sample_info_def)
  then show ?thesis using s2 by blast
qed

text \<open>
  C2: undoing a block right after applying it restores the ledger: key images, outputs with their spent marks and
  next indexes are as before, and no other entry of the database has changed. The outputs that rings of one
  member name must be there and unspent, and be named once.
\<close>

theorem undo_block_restores:
  assumes "db_ledger s L" and "block_shape b" and "indexes_fit L b" and "length bhash = 32"
    and "redo_block C bhash b info s = Inr (True, s1)"
    and "distinct (txs_spends (block_txs b))" and "\<forall>mo \<in> set (txs_spends (block_txs b)). unspent L mo"
  shows "\<exists>s2. undo_block bhash b (hd_height info) s1 = Inr s2 \<and> db_ledger s2 L \<and>
    (\<forall>k. hd k \<noteq> 0x69 \<longrightarrow> hd k \<noteq> 0x61 \<longrightarrow> k \<noteq> global_indices_key bhash \<longrightarrow> RBT.lookup (m_db s2) k = RBT.lookup (m_db s) k)"
proof -
  note r = redo_block_ledger[OF assms(1-5)]
  obtain s2 where "undo_block bhash b (hd_height info) s1 = Inr s2" "db_ledger s2 L"
      "\<forall>k. hd k \<noteq> 0x69 \<longrightarrow> hd k \<noteq> 0x61 \<longrightarrow> RBT.lookup (m_db s2) k = ((RBT.lookup (m_db s1))(global_indices_key bhash := None)) k"
    using undo_block_ledger[of s1 "hd_height info" b L bhash "hd_height info"] r assms(4,6,7) by auto
  then show ?thesis using redo_block_step[OF assms(5)] by (auto simp: block_step_def)
qed

theorem undo_block_restores_witness:
  "\<exists>s1 s2 s3. redo_block sample_crypto (replicate 32 2) (sample_ledger_block 1 [sample_spend]) (sample_info 1) s1 = Inr (True, s2) \<and>
     undo_block (replicate 32 2) (sample_ledger_block 1 [sample_spend]) 1 s2 = Inr s3 \<and>
     db_ledger s1 (txs_ledger 0 [sample_coinbase 0] no_ledger) \<and> db_ledger s3 (txs_ledger 0 [sample_coinbase 0] no_ledger)"
proof -
  obtain s1 where s1: "db_ledger s1 (txs_ledger 0 [sample_coinbase 0] no_ledger)"
      "RBT.lookup (m_db s1) (global_indices_key (replicate 32 2)) = None" "m_currency s1 = m_currency fresh_state"
    using first_block by blast
  obtain s2 where s2: "redo_block sample_crypto (replicate 32 2) (sample_ledger_block 1 [sample_spend]) (sample_info 1) s1 = Inr (True, s2)"
    using second_block(3)[OF s1] by blast
  have h: "length (replicate 32 (2 :: byte)) = 32" by simp
  have sp: "distinct (txs_spends (block_txs (sample_ledger_block 1 [sample_spend])))"
      "\<forall>mo \<in> set (txs_spends (block_txs (sample_ledger_block 1 [sample_spend]))). unspent (txs_ledger 0 [sample_coinbase 0] no_ledger) mo"
    using second_block(2)[OF s1] by simp_all
  from undo_block_restores[OF s1(1) sample_shape(2) second_block(1)[OF s1] h s2 sp]
  obtain s3 where "undo_block (replicate 32 2) (sample_ledger_block 1 [sample_spend]) 1 s2 = Inr s3"
      "db_ledger s3 (txs_ledger 0 [sample_coinbase 0] no_ledger)"
    by (auto simp: sample_info_def)
  then show ?thesis using s1(1) s2 by blast
qed

text \<open>
  C15: after a delta state is applied to the chain state, what is read from the chain state is what was read through the delta: the
  same key images (of 32 bytes), the same next indexes, and the same outputs with the same fields; an output is marked as spent exactly when
  the delta read it as spent or recorded it as spent (the delta itself does not show the marks it has recorded).
\<close>

theorem delta_apply_shows_delta:
  assumes "db_ledger s L" and "delta_rel (state_view s) L ht d L'"
  shows "\<exists>s'. delta_apply store_keyimage push_amount_output spend_output d s = Inr s' \<and>
    (\<forall>ki. length ki = 32 \<longrightarrow> read_keyimage s' ki = delta_read_keyimage (state_view s) d ki) \<and>
    (\<forall>a. next_global_index_for_amount s' a = delta_next_global_index (state_view s) d a) \<and>
    (\<forall>a gi. \<exists>v. delta_read_amount_output (state_view s) d a gi = Inr v \<and>
       read_amount_output s' a gi = Inr (map_option (\<lambda>o'. o'\<lparr>od_spent := od_spent o' \<or> (a, gi) \<in> set (m_spent_outputs d)\<rparr>) v))"
proof -
  have d: "delta_ok L d" "m_block_height d = ht" "L' = delta_ledger L d" using assms(2) by (auto simp: delta_rel_def)
  let ?M = "lg_spend_all L' (m_spent_outputs d)"
  obtain s' where s': "delta_apply store_keyimage push_amount_output spend_output d s = Inr s'" "db_ledger s' ?M"
    using st.delta_apply_ledger[OF assms(1) d(1,2)] d(3) by auto
  have v: "ledger_view ?M (state_view s')" "ledger_view L' (delta_view (state_view s) d)"
    using db_ledger_view[OF s'(2)] dl.view_law[OF assms(2)] by auto
  show ?thesis using s'(1) v by (auto simp: ledger_view_def state_view_def delta_view_def spend_all_at)
qed

text \<open>A delta with a key image, an output, and the mark of this output as spent.\<close>

definition sample_delta :: delta_state where
  "sample_delta = (new_delta 3 0)\<lparr>m_keyimages := RBT.insert (replicate 32 9) 3 RBT.empty,
     m_global_amounts := RBT.insert 5 [(0, replicate 32 7)] RBT.empty, m_spent_outputs := [(5, 0)]\<rparr>"

lemma sample_delta_rel: "delta_rel (state_view fresh_state) no_ledger 3 sample_delta (delta_ledger no_ledger sample_delta)"
  using db_ledger_view[OF fresh_ledger]
  by (auto simp: delta_rel_def delta_ok_def sample_delta_def new_delta_def delta_outputs_def no_ledger_def split: if_splits)

theorem delta_apply_shows_delta_witness:
  "\<exists>s'. delta_apply store_keyimage push_amount_output spend_output sample_delta fresh_state = Inr s' \<and>
     read_keyimage s' (replicate 32 9) = Inr (Some 3) \<and> next_global_index_for_amount s' 5 = Inr 1 \<and>
     read_amount_output s' 5 0 = Inr (Some \<lparr>od_unlock_time = 0, od_public_key = replicate 32 7, od_height = 3, od_spent = True\<rparr>)"
proof -
  have n: "rd_next_global_index (state_view fresh_state) 5 = Inr 0"
    using db_ledger_view[OF fresh_ledger] by (simp add: ledger_view_def no_ledger_def)
  obtain s' v where s': "delta_apply store_keyimage push_amount_output spend_output sample_delta fresh_state = Inr s'"
      "\<forall>ki. length ki = 32 \<longrightarrow> read_keyimage s' ki = delta_read_keyimage (state_view fresh_state) sample_delta ki"
      "\<forall>a. next_global_index_for_amount s' a = delta_next_global_index (state_view fresh_state) sample_delta a"
      "delta_read_amount_output (state_view fresh_state) sample_delta 5 0 = Inr v"
      "read_amount_output s' 5 0 = Inr (map_option (\<lambda>o'. o'\<lparr>od_spent := od_spent o' \<or> (5, 0) \<in> set (m_spent_outputs sample_delta)\<rparr>) v)"
    using delta_apply_shows_delta[OF fresh_ledger sample_delta_rel] by blast
  have "delta_read_keyimage (state_view fresh_state) sample_delta (replicate 32 9) = Inr (Some 3)"
    by (simp add: delta_read_keyimage_def sample_delta_def new_delta_def)
  moreover have "delta_next_global_index (state_view fresh_state) sample_delta 5 = Inr 1"
    by (simp add: delta_next_global_index_def n sample_delta_def)
  moreover have "v = Some \<lparr>od_unlock_time = 0, od_public_key = replicate 32 7, od_height = 3, od_spent = False\<rparr>"
    using s'(4) by (simp add: delta_read_amount_output_def n delta_outputs_def sample_delta_def new_delta_def)
  moreover have "(5, 0) \<in> set (m_spent_outputs sample_delta)" by (simp add: sample_delta_def)
  ultimately show ?thesis using s'(1,2,3,5) by simp
qed

end
