(* ===== verification/RingChecker.thy ===== *)
theory RingChecker
  imports ChainState "HOL-Library.Multiset"
begin

text \<open>
  The threads that check ring signatures: \<open>src/src/Core/RingCheckerMulticore.cpp\<close>. The fields guarded by the mutex are a
  record; its counters are unbounded numbers here (\<open>int\<close> and \<open>size_t\<close> in the code: the number of rounds, one per block or
  transaction, would have to pass \<open>2 ^ 31\<close> to matter); each section under the lock is one operation on it, and the steps of the main thread and of the workers interleave
  freely. A worker remembers the round in which it took its ring, so that a result of an earlier round is dropped. The
  condition variables only delay steps and are not modelled. The theorems show that whatever the
  interleaving, the verdict of \<open>signatures_valid\<close> is the conjunction over the rings of this round, and that
  the workers bring the verdict about.
\<close>

section \<open>Definitions\<close>

record ring_checker =
  rc_quit :: bool
  rc_total_counter :: nat
  rc_ready_counter :: nat
  rc_errors :: "string list"
  rc_args :: "ring_signature_arg list"
  rc_work_counter :: int
  rc_threads :: "(int \<times> ring_signature_arg) option list"

text \<open>Each thread is idle or works on a ring; the constructor starts them idle.\<close>

definition new_ring_checker :: "nat \<Rightarrow> ring_checker" where
  "new_ring_checker hardware_concurrency = \<lparr>rc_quit = False, rc_total_counter = 0, rc_ready_counter = 0, rc_errors = [], rc_args = [],
     rc_work_counter = 0, rc_threads = replicate (max 2 (3 * hardware_concurrency div 4)) None\<rparr>"

text \<open>The two critical sections of \<open>thread_run\<close>, for thread \<open>i\<close>: taking a ring, and recording the result.\<close>

definition thread_take :: "nat \<Rightarrow> ring_checker \<Rightarrow> ring_checker option" where
  "thread_take i s =
     (if rc_quit s then None
      else case rc_args s of
             [] \<Rightarrow> None
           | arg # rest \<Rightarrow> Some (s\<lparr>rc_args := rest, rc_threads := (rc_threads s)[i := Some (rc_work_counter s, arg)]\<rparr>))"

definition ring_error :: "crypto_lib \<Rightarrow> ring_signature_arg \<Rightarrow> string list" where
  "ring_error C arg =
     (let (result, key_corrupted) = c_check_ring_signature C (ra_prefix_hash arg) (ra_key_image arg) (ra_output_keys arg) (ra_signatures arg)
      in (if \<not> result \<and> key_corrupted then [''INPUT_CORRUPTED_SIGNATURES''] else []) @
         (if \<not> result \<and> \<not> key_corrupted then [''INPUT_INVALID_SIGNATURES''] else []))"

definition thread_finish :: "crypto_lib \<Rightarrow> nat \<Rightarrow> int \<times> ring_signature_arg \<Rightarrow> ring_checker \<Rightarrow> ring_checker" where
  "thread_finish C i job s =
     (let s1 = s\<lparr>rc_threads := (rc_threads s)[i := None]\<rparr>
      in if fst job = rc_work_counter s
         then s1\<lparr>rc_ready_counter := rc_ready_counter s + 1, rc_errors := rc_errors s @ ring_error C (snd job)\<rparr>
         else s1)"

definition cancel_work :: "ring_checker \<Rightarrow> ring_checker" where
  "cancel_work s = s\<lparr>rc_args := [], rc_work_counter := rc_work_counter s + 1\<rparr>"

text \<open>The parts of \<open>start_work_get_error\<close> that touch the shared state: opening a round, and submitting one ring.\<close>

definition start_round :: "ring_checker \<Rightarrow> ring_checker" where
  "start_round s = s\<lparr>rc_args := [], rc_errors := [], rc_ready_counter := 0, rc_work_counter := rc_work_counter s + 1, rc_total_counter := 0\<rparr>"

definition push_arg :: "ring_signature_arg \<Rightarrow> ring_checker \<Rightarrow> ring_checker" where
  "push_arg arg s = s\<lparr>rc_total_counter := rc_total_counter s + 1, rc_args := rc_args s @ [arg]\<rparr>"

text \<open>\<open>None\<close>: it waits.\<close>

definition signatures_valid :: "ring_checker \<Rightarrow> bool option" where
  "signatures_valid s = (if rc_ready_counter s \<noteq> rc_total_counter s then None else Some (rc_errors s = []))"

section \<open>The interleaving\<close>

text \<open>
  The main thread is outside a round, submits the rings of a block (those submitted and those to come), or waits for the
  verdict; an error leaves the round early.
\<close>

datatype main_phase =
    Outside
  | Submitting "ring_signature_arg list" "ring_signature_arg list"
  | Waiting "ring_signature_arg list"

inductive worker_step :: "crypto_lib \<Rightarrow> ring_checker \<Rightarrow> ring_checker \<Rightarrow> bool" for C where
  take: "i < length (rc_threads s) \<Longrightarrow> rc_threads s ! i = None \<Longrightarrow> thread_take i s = Some s' \<Longrightarrow> worker_step C s s'"
| finish: "i < length (rc_threads s) \<Longrightarrow> rc_threads s ! i = Some job \<Longrightarrow> worker_step C s (thread_finish C i job s)"

inductive checker_step :: "crypto_lib \<Rightarrow> ring_checker \<times> main_phase \<Rightarrow> ring_checker \<times> main_phase \<Rightarrow> bool" for C where
  worker: "worker_step C s s' \<Longrightarrow> checker_step C (s, m) (s', m)"
| start: "checker_step C (s, Outside) (start_round s, Submitting [] args)"
| push: "checker_step C (s, Submitting done (arg # args)) (push_arg arg s, Submitting (done @ [arg]) args)"
| submitted: "checker_step C (s, Submitting done []) (s, Waiting done)"
| leave: "checker_step C (s, m) (s, Outside)"
| cancel: "checker_step C (s, Outside) (cancel_work s, Outside)"

inductive checker_reachable :: "crypto_lib \<Rightarrow> nat \<Rightarrow> ring_checker \<times> main_phase \<Rightarrow> bool" for C n where
  init: "checker_reachable C n (new_ring_checker n, Outside)"
| step: "checker_reachable C n x \<Longrightarrow> checker_step C x y \<Longrightarrow> checker_reachable C n y"

inductive_cases worker_stepE: "worker_step C s s'"
inductive_cases checker_stepE: "checker_step C (s, m) y"

section \<open>The invariant\<close>

definition in_flight :: "ring_checker \<Rightarrow> ring_signature_arg multiset" where
  "in_flight s = mset (concat (map (\<lambda>t. case t of Some (w, arg) \<Rightarrow> if w = rc_work_counter s then [arg] else [] | None \<Rightarrow> []) (rc_threads s)))"

text \<open>Every ring submitted in this round is queued, with a thread, or checked; the counter and the errors count the checked ones.\<close>

definition round_ok :: "crypto_lib \<Rightarrow> ring_checker \<Rightarrow> ring_signature_arg list \<Rightarrow> bool" where
  "round_ok C s submitted \<longleftrightarrow> rc_total_counter s = length submitted \<and>
     (\<exists>checked. mset submitted = mset (rc_args s) + in_flight s + mset checked \<and> rc_ready_counter s = length checked \<and>
        (rc_errors s = [] \<longleftrightarrow> list_all (check_ring_arg C) checked))"

definition checker_inv :: "crypto_lib \<Rightarrow> nat \<Rightarrow> ring_checker \<times> main_phase \<Rightarrow> bool" where
  "checker_inv C n x \<longleftrightarrow> \<not> rc_quit (fst x) \<and> length (rc_threads (fst x)) = max 2 (3 * n div 4) \<and>
     (\<forall>w arg. Some (w, arg) \<in> set (rc_threads (fst x)) \<longrightarrow> w \<le> rc_work_counter (fst x)) \<and>
     (case snd x of Outside \<Rightarrow> True | Submitting done _ \<Rightarrow> round_ok C (fst x) done | Waiting done \<Rightarrow> round_ok C (fst x) done)"

lemma ring_error_Nil: "ring_error C arg = [] \<longleftrightarrow> check_ring_arg C arg"
  by (auto simp: ring_error_def check_ring_arg_def split: prod.splits)

definition job_args :: "int \<Rightarrow> (int \<times> ring_signature_arg) option list \<Rightarrow> ring_signature_arg multiset" where
  "job_args w ts = mset (concat (map (\<lambda>t. case t of Some (v, arg) \<Rightarrow> if v = w then [arg] else [] | None \<Rightarrow> []) ts))"

lemma in_flight_job_args: "in_flight s = job_args (rc_work_counter s) (rc_threads s)"
  by (simp add: in_flight_def job_args_def)

lemma job_args_update:
  assumes "i < length ts"
  shows "job_args w (ts[i := t]) + job_args w [ts ! i] = job_args w ts + job_args w [t]"
proof -
  have split: "job_args w (xs @ x # ys) = job_args w xs + job_args w [x] + job_args w ys" for xs x ys by (simp add: job_args_def)
  have "job_args w ts = job_args w (take i ts) + job_args w [ts ! i] + job_args w (drop (Suc i) ts)"
    using split[of "take i ts" "ts ! i" "drop (Suc i) ts"] assms by (simp add: id_take_nth_drop[symmetric])
  moreover have "job_args w (ts[i := t]) = job_args w (take i ts) + job_args w [t] + job_args w (drop (Suc i) ts)"
    using split[of "take i ts" t "drop (Suc i) ts"] assms by (simp add: upd_conv_take_nth_drop)
  ultimately show ?thesis by simp
qed

lemma job_args_single [simp]: "job_args w [None] = {#}" "job_args w [Some (v, arg)] = (if v = w then {#arg#} else {#})"
  by (simp_all add: job_args_def)

lemma worker_take_ok:
  assumes i: "i < length (rc_threads s)" "rc_threads s ! i = None" and s': "thread_take i s = Some s'" and r: "round_ok C s sub"
  shows "round_ok C s' sub"
proof -
  obtain arg rest where a: "rc_args s = arg # rest" "s' = s\<lparr>rc_args := rest, rc_threads := (rc_threads s)[i := Some (rc_work_counter s, arg)]\<rparr>"
    using s' by (auto simp: thread_take_def split: if_splits list.splits)
  have "in_flight s' = in_flight s + {#arg#}" using job_args_update[OF i(1), of "rc_work_counter s" "Some (rc_work_counter s, arg)"] i(2)
    by (simp add: in_flight_job_args a(2))
  then show ?thesis using r by (simp add: round_ok_def a)
qed

lemma worker_finish_ok:
  assumes i: "i < length (rc_threads s)" "rc_threads s ! i = Some job" and r: "round_ok C s sub"
  shows "round_ok C (thread_finish C i job s) sub"
proof -
  obtain w arg where job: "job = (w, arg)" by force
  obtain checked where c: "mset sub = mset (rc_args s) + in_flight s + mset checked" "rc_ready_counter s = length checked"
      "rc_errors s = [] \<longleftrightarrow> list_all (check_ring_arg C) checked" and t: "rc_total_counter s = length sub"
    using r unfolding round_ok_def by blast
  let ?s = "thread_finish C i job s"
  have fl: "in_flight ?s + (if w = rc_work_counter s then {#arg#} else {#}) = in_flight s"
    using job_args_update[OF i(1), of "rc_work_counter s" None] i(2) by (simp add: in_flight_job_args thread_finish_def Let_def job split: if_splits)
  show ?thesis
  proof (cases "w = rc_work_counter s")
    case True
    have "mset sub = mset (rc_args ?s) + in_flight ?s + mset (arg # checked)" using c(1) fl True by (simp add: thread_finish_def Let_def job)
    moreover have "rc_ready_counter ?s = length (arg # checked)" "rc_errors ?s = [] \<longleftrightarrow> list_all (check_ring_arg C) (arg # checked)"
        "rc_total_counter ?s = length sub"
      using c(2,3) t True ring_error_Nil[of C arg] by (auto simp: thread_finish_def Let_def job)
    ultimately show ?thesis unfolding round_ok_def by blast
  next
    case False
    then show ?thesis using c t fl by (auto simp: round_ok_def thread_finish_def Let_def job)
  qed
qed

lemma worker_round: "worker_step C s s' \<Longrightarrow> round_ok C s sub \<Longrightarrow> round_ok C s' sub"
  by (auto elim!: worker_stepE intro: worker_take_ok worker_finish_ok)

lemma set_update_cases: "x \<in> set (xs[i := y]) \<Longrightarrow> x \<in> set xs \<or> x = y"
  using set_update_subset_insert[of xs i y] by auto

lemma worker_frame:
  assumes "worker_step C s s'"
  shows "rc_quit s' = rc_quit s" "length (rc_threads s') = length (rc_threads s)" "rc_work_counter s' = rc_work_counter s"
    "rc_total_counter s' = rc_total_counter s"
    "Some (w, arg) \<in> set (rc_threads s') \<Longrightarrow> Some (w, arg) \<in> set (rc_threads s) \<or> w = rc_work_counter s"
  using assms
  by (auto elim!: worker_stepE simp: thread_take_def thread_finish_def Let_def split: if_splits list.splits dest!: set_update_cases)

text \<open>A new round starts with nothing in flight: every thread at work has an older round number.\<close>

lemma start_round_ok:
  assumes "\<forall>w arg. Some (w, arg) \<in> set (rc_threads s) \<longrightarrow> w \<le> rc_work_counter s"
  shows "round_ok C (start_round s) []"
proof -
  have "job_args (rc_work_counter s + 1) ts = {#}" if "set ts \<subseteq> set (rc_threads s)" for ts
    using that
  proof (induction ts)
    case (Cons t ts)
    then show ?case using assms by (cases t) (auto simp: job_args_def)
  qed (simp add: job_args_def)
  then show ?thesis by (simp add: round_ok_def start_round_def in_flight_job_args)
qed

lemma push_arg_ok: "round_ok C s sub \<Longrightarrow> round_ok C (push_arg arg s) (sub @ [arg])"
  by (auto simp: round_ok_def push_arg_def in_flight_def)

lemma checker_step_inv:
  assumes "checker_step C x y" and inv: "checker_inv C n x"
  shows "checker_inv C n y"
  using assms(1)
proof cases
  case (worker s s' m)
  have c: "\<forall>w arg. Some (w, arg) \<in> set (rc_threads s') \<longrightarrow> w \<le> rc_work_counter s'"
    using worker_frame[OF worker(3)] inv worker(1) by (fastforce simp: checker_inv_def)
  show ?thesis using inv worker_frame(1,2)[OF worker(3)] worker_round[OF worker(3)] c
    by (auto simp: checker_inv_def worker split: main_phase.splits)
next
  case (start s args)
  then have "round_ok C (start_round s) []" using inv by (intro start_round_ok) (auto simp: checker_inv_def)
  then show ?thesis using inv by (fastforce simp: checker_inv_def start start_round_def)
next
  case (push s sub arg args)
  then show ?thesis using inv push_arg_ok[of C s sub arg] by (simp add: checker_inv_def) (simp add: push_arg_def)
next
  case (submitted s sub)
  then show ?thesis using inv by (simp add: checker_inv_def)
next
  case (leave s m)
  then show ?thesis using inv by (simp add: checker_inv_def)
next
  case (cancel s)
  then show ?thesis using inv by (fastforce simp: checker_inv_def cancel_work_def)
qed

lemma checker_reachable_inv: "checker_reachable C n x \<Longrightarrow> checker_inv C n x"
proof (induction rule: checker_reachable.induct)
  case init
  then show ?case by (auto simp: checker_inv_def new_ring_checker_def)
qed (rule checker_step_inv)

section \<open>Progress\<close>

definition work_left :: "ring_checker \<Rightarrow> nat" where
  "work_left s = 2 * length (rc_args s) + length (filter (\<lambda>t. t \<noteq> None) (rc_threads s))"

lemma busy_update:
  assumes "i < length ts"
  shows "length (filter (\<lambda>t. t \<noteq> None) (ts[i := t])) + (if ts ! i \<noteq> None then 1 else 0) =
    length (filter (\<lambda>t. t \<noteq> None) ts) + (if t \<noteq> None then 1 else 0)"
proof -
  have "ts = take i ts @ ts ! i # drop (Suc i) ts" "ts[i := t] = take i ts @ t # drop (Suc i) ts"
    using assms by (simp_all add: id_take_nth_drop[symmetric] upd_conv_take_nth_drop)
  then have "length (filter (\<lambda>t. t \<noteq> None) ts) = length (filter (\<lambda>t. t \<noteq> None) (take i ts @ ts ! i # drop (Suc i) ts))"
    and "length (filter (\<lambda>t. t \<noteq> None) (ts[i := t])) = length (filter (\<lambda>t. t \<noteq> None) (take i ts @ t # drop (Suc i) ts))"
    by (simp_all only:)
  then show ?thesis by simp
qed

lemma worker_step_less:
  assumes "worker_step C s s'"
  shows "work_left s' < work_left s"
  using assms
proof cases
  case (take i)
  then obtain arg rest where "rc_args s = arg # rest" "s' = s\<lparr>rc_args := rest, rc_threads := (rc_threads s)[i := Some (rc_work_counter s, arg)]\<rparr>"
    by (auto simp: thread_take_def split: if_splits list.splits)
  then show ?thesis using busy_update[OF take(1), of "Some (rc_work_counter s, arg)"] take(2) by (simp add: work_left_def)
next
  case (finish i job)
  then show ?thesis using busy_update[OF finish(2), of None] by (simp add: work_left_def thread_finish_def Let_def)
qed

lemma worker_enabled:
  assumes "\<not> rc_quit s" and "rc_threads s \<noteq> []" and "rc_args s \<noteq> [] \<or> in_flight s \<noteq> {#}"
  shows "\<exists>s'. worker_step C s s'"
proof (cases "\<exists>i job. i < length (rc_threads s) \<and> rc_threads s ! i = Some job")
  case True
  then show ?thesis using worker_step.finish by blast
next
  case False
  then have idle: "rc_threads s ! i = None" if "i < length (rc_threads s)" for i using that by (meson not_Some_eq)
  then have "set (rc_threads s) \<subseteq> {None}" by (auto simp: in_set_conv_nth)
  then have "in_flight s = {#}" by (fastforce simp: in_flight_def split: option.splits)
  then obtain arg rest where "rc_args s = arg # rest" using assms(3) by (auto simp: neq_Nil_conv)
  then show ?thesis using worker_step.take[of 0 s] idle[of 0] assms(1,2) by (auto simp: thread_take_def)
qed

lemma waiting_progress:
  assumes inv: "checker_inv C n (s, Waiting sub)" and wait: "signatures_valid s = None"
  shows "\<exists>s'. worker_step C s s'"
proof -
  obtain checked where c: "mset sub = mset (rc_args s) + in_flight s + mset checked" "rc_ready_counter s = length checked" "rc_total_counter s = length sub"
    using inv by (auto simp: checker_inv_def round_ok_def)
  have "length sub \<noteq> length checked" using wait c(2,3) by (simp add: signatures_valid_def split: if_splits)
  then have "rc_args s \<noteq> [] \<or> in_flight s \<noteq> {#}" using c(1) by (metis add.left_neutral mset.simps(1) size_mset)
  moreover have "\<not> rc_quit s" "rc_threads s \<noteq> []" using inv by (auto simp: checker_inv_def)
  ultimately show ?thesis by (intro worker_enabled)
qed

lemma verdict_reached:
  "checker_inv C n (s, Waiting sub) \<Longrightarrow> \<exists>s' b. (worker_step C)\<^sup>*\<^sup>* s s' \<and> signatures_valid s' = Some b"
proof (induction "work_left s" arbitrary: s rule: less_induct)
  case less
  show ?case
  proof (cases "signatures_valid s")
    case None
    obtain t where t: "worker_step C s t" using waiting_progress[OF less.prems None] by blast
    have "checker_inv C n (t, Waiting sub)" using checker_step_inv[OF checker_step.worker[OF t] less.prems] .
    then show ?thesis using less.hyps[OF worker_step_less[OF t]] t by (meson converse_rtranclp_into_rtranclp)
  qed auto
qed

lemma verdict_correct:
  assumes "checker_inv C n (s, Waiting sub)" and "signatures_valid s = Some b"
  shows "b = list_all (check_ring_arg C) sub"
proof -
  obtain checked where c: "mset sub = mset (rc_args s) + in_flight s + mset checked" "rc_ready_counter s = length checked" "rc_total_counter s = length sub"
      "rc_errors s = [] \<longleftrightarrow> list_all (check_ring_arg C) checked"
    using assms(1) by (auto simp: checker_inv_def round_ok_def)
  have "length sub = length checked" using assms(2) c(2,3) by (simp add: signatures_valid_def split: if_splits)
  moreover have "length sub = length (rc_args s) + size (in_flight s) + length checked" using arg_cong[OF c(1), of size] by simp
  ultimately have "mset sub = mset checked" using c(1) by simp
  then have "set sub = set checked" by (metis set_mset_mset)
  then show ?thesis using assms(2) c(4) by (auto simp: signatures_valid_def list_all_iff split: if_splits)
qed

section \<open>Properties\<close>

text \<open>
  C6: whatever the interleaving of the threads, and although threads may still work on rings of earlier rounds, the verdict that
  \<open>signatures_valid\<close> returns is whether every ring submitted in this round is valid; and while it waits, the threads
  always have a step, each step brings the round closer to its end, and the verdict is reached.
\<close>

theorem ring_verdict_correct_and_reached:
  assumes "checker_reachable C n (s, Waiting submitted)"
  shows "(\<forall>b. signatures_valid s = Some b \<longrightarrow> b = list_all (check_ring_arg C) submitted) \<and>
    (signatures_valid s = None \<longrightarrow> (\<exists>s'. worker_step C s s')) \<and>
    (\<forall>s'. worker_step C s s' \<longrightarrow> work_left s' < work_left s) \<and>
    (\<exists>s'. (worker_step C)\<^sup>*\<^sup>* s s' \<and> signatures_valid s' = Some (list_all (check_ring_arg C) submitted))"
proof (intro conjI)
  note inv = checker_reachable_inv[OF assms]
  show "\<forall>b. signatures_valid s = Some b \<longrightarrow> b = list_all (check_ring_arg C) submitted" using verdict_correct[OF inv] by blast
  show "signatures_valid s = None \<longrightarrow> (\<exists>s'. worker_step C s s')" using waiting_progress[OF inv] by blast
  show "\<forall>s'. worker_step C s s' \<longrightarrow> work_left s' < work_left s" using worker_step_less by blast
  obtain s' b where s': "(worker_step C)\<^sup>*\<^sup>* s s'" "signatures_valid s' = Some b" using verdict_reached[OF inv] by blast
  have "checker_inv C n (s', Waiting submitted)"
    using s'(1) by (induction rule: rtranclp_induct) (auto intro: inv checker_step_inv checker_step.worker)
  then show "\<exists>s'. (worker_step C)\<^sup>*\<^sup>* s s' \<and> signatures_valid s' = Some (list_all (check_ring_arg C) submitted)"
    using s' verdict_correct by blast
qed

definition sample_ring :: ring_signature_arg where
  "sample_ring = \<lparr>ra_prefix_hash = replicate 32 1, ra_key_image = replicate 32 9, ra_output_keys = [replicate 32 7], ra_signatures = [replicate 64 1]\<rparr>"

lemma sample_round: "checker_reachable C n (push_arg a (start_round (new_ring_checker n)), Waiting [a])"
proof -
  have "checker_reachable C n (start_round (new_ring_checker n), Submitting [] [a])"
    by (rule checker_reachable.step[OF checker_reachable.init checker_step.start])
  then have "checker_reachable C n (push_arg a (start_round (new_ring_checker n)), Submitting ([] @ [a]) [])"
    by (rule checker_reachable.step[OF _ checker_step.push])
  then show ?thesis using checker_step.submitted by (auto intro: checker_reachable.step)
qed

theorem ring_verdict_correct_and_reached_witness:
  "\<exists>s s'. checker_reachable sample_crypto 4 (s, Waiting [sample_ring]) \<and> signatures_valid s = None \<and>
     (worker_step sample_crypto)\<^sup>*\<^sup>* s s' \<and> signatures_valid s' = Some True"
proof -
  define s where "s = push_arg sample_ring (start_round (new_ring_checker 4))"
  have r: "checker_reachable sample_crypto 4 (s, Waiting [sample_ring])" unfolding s_def by (rule sample_round)
  have "signatures_valid s = None" by (simp add: s_def push_arg_def start_round_def new_ring_checker_def signatures_valid_def)
  moreover have "list_all (check_ring_arg sample_crypto) [sample_ring]" by (simp add: check_ring_arg_def sample_crypto_def sample_ring_def)
  ultimately show ?thesis using ring_verdict_correct_and_reached[OF r] r by auto
qed

end
