(* ===== verification/Consensus.thy ===== *)
theory Consensus
  imports ChainState
begin

text \<open>
  The rules of consensus of \<open>src/src/Core/BlockChainState.cpp\<close>: the medians of a window of headers (\<open>common/Math.hpp\<close>),
  \<open>check_standalone_consensus\<close>, and the instance of the virtual methods of \<open>BlockChain\<close>. The clock and the slow hash functions
  are the fields of a record. The theorems show that a block that is accepted creates at most the base reward.
\<close>

section \<open>Definitions\<close>

record node_env =
  e_crypto :: crypto_lib
  e_now :: u32
  e_cn_slow_hash :: "bytes \<Rightarrow> bytes"
  e_cn_lite_slow_hash_v1 :: "bytes \<Rightarrow> bytes"

subsection \<open>Medians\<close>

text \<open>The sum of the middle elements is taken in their 32-bit type.\<close>

definition median_value :: "u32 list \<Rightarrow> u32" where
  "median_value v =
     (if v = [] then 0
      else
        let n = length v div 2; w = sort v
        in if length v mod 2 \<noteq> 0 then w ! n else (w ! (n - 1) + w ! n) div 2)"

definition calculate_consensus_values :: "('z) block_chain_scheme \<Rightarrow> api_block_header \<Rightarrow> (u32 \<times> u32) result" where
  "calculate_consensus_values s prev_info =
     (let c = m_currency s; tw = get_timestamp_check_window c (m_tip_height s + 1)
      in bindR (get_tip_segment s prev_info (reward_blocks_window c) True) (\<lambda>window.
         bindR (get_tip_segment s prev_info tw False) (\<lambda>window2.
           Inr (median_value (map hd_block_size window),
                if unat tw \<le> length window2 then median_value (map hd_timestamp window2) else 0))))"

definition tip_changed :: "chain_state \<Rightarrow> chain_state result" where
  "tip_changed s =
     bindR (get_tip s) (\<lambda>tip.
     bindR (calculate_consensus_values s tip) (\<lambda>(size_median, ts_median).
       Inr (s\<lparr>m_next_median_size := size_median, m_next_median_timestamp := ts_median\<rparr>)))"

definition get_next_effective_median_size :: "chain_state \<Rightarrow> u32" where
  "get_next_effective_median_size s =
     (let v = get_block_major_version_for_height (m_currency s) (m_tip_height s + 1)
      in max (m_next_median_size s) (block_granted_full_reward_zone_by_block_version (m_currency s) v))"

definition fill_genesis :: "bytes \<Rightarrow> block_template \<Rightarrow> api_block_header" where
  "fill_genesis genesis_bid g = empty_api_header\<lparr>hd_major_version := major_version g, hd_minor_version := minor_version g,
     hd_previous_block_hash := previous_block_hash g, hd_timestamp := timestamp g, hd_nonce := nonce g, hd_hash := genesis_bid\<rparr>"

subsection \<open>The check of a block\<close>

text \<open>
  A check ends with an error text and the header as filled in so far (\<open>Inr (Inl (error, info))\<close>), or goes on with a
  value.
\<close>

type_synonym 'a checked = "(string \<times> api_block_header + 'a) result"

definition bindC :: "'a checked \<Rightarrow> ('a \<Rightarrow> 'b checked) \<Rightarrow> 'b checked" where
  "bindC r f = bindR r (\<lambda>q. case q of Inl e \<Rightarrow> Inr (Inl e) | Inr x \<Rightarrow> f x)"

definition check_that :: "bool \<Rightarrow> string \<Rightarrow> api_block_header \<Rightarrow> unit checked" where
  "check_that b err info = Inr (if b then Inr () else Inl (err, info))"

definition lift_error :: "api_block_header \<Rightarrow> string + 'a \<Rightarrow> 'a checked" where
  "lift_error info r = Inr (case r of Inl e \<Rightarrow> Inl (e, info) | Inr x \<Rightarrow> Inr x)"

text \<open>The sizes and hashes of the transactions; the sum of their sizes.\<close>

fun check_tx_sizes :: "currency \<Rightarrow> api_block_header \<Rightarrow> (bytes \<times> transaction \<times> bytes) list \<Rightarrow> nat checked" where
  "check_tx_sizes c info [] = Inr (Inr 0)"
| "check_tx_sizes c info ((raw, tx, tid) # rest) =
     bindR (max_transaction_allowed_size c (hd_effective_size_median info)) (\<lambda>limit.
     bindC (check_that (length raw \<le> unat limit) ''RAW_TRANSACTION_SIZE_TOO_BIG'' info) (\<lambda>_.
     bindR (get_transaction_hash tx) (\<lambda>h.
     bindC (check_that (h = tid) ''TRANSACTION_ABSENT_IN_POOL'' info) (\<lambda>_.
     bindC (check_tx_sizes c info rest) (\<lambda>n. Inr (Inr (length raw + n)))))))"

definition check_block_size :: "prepared_block \<Rightarrow> api_block_header \<Rightarrow> api_block_header \<Rightarrow> chain_state \<Rightarrow> (api_block_header \<times> nat) checked" where
  "check_block_size pb info prev_info s =
     (let c = m_currency s; b = prep_block pb; raw = rb_transactions (prep_raw_block pb)
      in bindC (check_that (length (bl_transactions b) = length (transaction_hashes (bl_header b)) \<and> length (bl_transactions b) = length raw)
           ''WRONG_TRANSACTIONS_COUNT'' info) (\<lambda>_.
         bindR (if m_tip_bid s \<noteq> hd_hash prev_info then calculate_consensus_values s prev_info
                else Inr (m_next_median_size s, m_next_median_timestamp s)) (\<lambda>(sm, tm).
           let info1 = info\<lparr>hd_size_median := sm, hd_timestamp_median := tm,
                 hd_effective_size_median := max sm (block_granted_full_reward_zone_by_block_version c (major_version (bl_header b)))\<rparr>
           in bindC (check_tx_sizes c info1 (zip raw (zip (bl_transactions b) (transaction_hashes (bl_header b))))) (\<lambda>cumulative_size.
              bindR (max_block_cumulative_size c (hd_height info)) (\<lambda>limit.
                let info2 = info1\<lparr>hd_block_size := word_of_nat (prep_coinbase_tx_size pb + cumulative_size)\<rparr>
                in bindC (check_that (hd_block_size info2 \<le> limit) ''CUMULATIVE_BLOCK_SIZE_TOO_BIG'' info2) (\<lambda>_.
                   Inr (Inr (info2, cumulative_size))))))))"

text \<open>Versions, times and the form of the coinbase transaction.\<close>

definition check_block_form :: "node_env \<Rightarrow> prepared_block \<Rightarrow> api_block_header \<Rightarrow> chain_state \<Rightarrow> unit checked" where
  "check_block_form E pb info s =
     (let c = m_currency s; h = bl_header (prep_block pb); v = major_version h; ins = inputs (base_tx h)
      in bindC (check_that (v = get_block_major_version_for_height c (hd_height info)) ''WRONG_VERSION'' info) (\<lambda>_.
         bindC (check_that (\<not> (v = 2 \<and> 1 < pb_major_version (parent h))) ''PARENT_BLOCK_WRONG_VERSION'' info) (\<lambda>_.
         bindC (check_that (\<not> (2 \<le> v \<and> 2048 < prep_parent_block_size pb)) ''PARENT_BLOCK_SIZE_TOO_BIG'' info) (\<lambda>_.
         bindC (check_that (timestamp h \<le> e_now E + get_block_future_time_limit c (m_tip_height s + 1)) ''TIMESTAMP_TOO_FAR_IN_FUTURE'' info) (\<lambda>_.
         bindC (check_that (hd_timestamp_median info \<le> timestamp h) ''TIMESTAMP_TOO_FAR_IN_PAST'' info) (\<lambda>_.
         bindC (check_that (length ins = 1) ''INPUT_WRONG_COUNT'' info) (\<lambda>_.
         bindC (case hd ins of
                  KeyInput _ _ _ \<Rightarrow> check_that False ''INPUT_UNEXPECTED_TYPE'' info
                | CoinbaseInput bi \<Rightarrow> check_that (bi = hd_height info) ''BASE_INPUT_WRONG_BLOCK_INDEX'' info) (\<lambda>_.
           check_that (unlock_time (base_tx h) = ucast (hd_height info + mined_money_unlock_window c)) ''WRONG_TRANSACTION_UNLOCK_TIME'' info))))))))"

definition check_difficulty :: "api_block_header \<Rightarrow> api_block_header \<Rightarrow> chain_state \<Rightarrow> api_block_header checked" where
  "check_difficulty info prev_info s =
     (let c = m_currency s
      in bindR (get_tip_segment s prev_info (min (hd_height prev_info) (get_difficulty_blocks_count c (m_tip_height s + 1))) False) (\<lambda>window.
         bindR (next_difficulty c (hd_height prev_info) (map hd_timestamp window) (map hd_cumulative_difficulty window)) (\<lambda>d.
           let info1 = info\<lparr>hd_difficulty := d, hd_cumulative_difficulty := hd_cumulative_difficulty prev_info + d\<rparr>
           in bindC (check_that (d \<noteq> 0) ''DIFFICULTY_OVERHEAD'' info1) (\<lambda>_. Inr (Inr info1)))))"

fun sum_fees :: "api_block_header \<Rightarrow> u64 \<Rightarrow> transaction list \<Rightarrow> u64 checked" where
  "sum_fees info fees [] = Inr (Inr fees)"
| "sum_fees info fees (tx # txs) =
     (case get_tx_fee tx of None \<Rightarrow> Inr (Inl (''WRONG_AMOUNT'', info)) | Some fee \<Rightarrow> sum_fees info (fees + fee) txs)"

text \<open>The reward: what the coinbase pays is the reward for the size of the block with all the fees.\<close>

definition check_reward ::
  "prepared_block \<Rightarrow> nat \<Rightarrow> u64 \<Rightarrow> api_block_header \<Rightarrow> api_block_header \<Rightarrow> chain_state \<Rightarrow> api_block_header checked" where
  "check_reward pb cumulative_size miner_reward info prev_info s =
     (let c = m_currency s; v = major_version (bl_header (prep_block pb)); em = ucast (hd_effective_size_median info) :: u64;
          ac = hd_already_generated_coins prev_info
      in bindC (sum_fees info 0 (bl_transactions (prep_block pb))) (\<lambda>cumulative_fee.
         bindR (get_block_reward c v em 0 ac 0) (\<lambda>(base_reward, _).
         bindR (get_block_reward c v em (ucast (hd_block_size info)) ac cumulative_fee) (\<lambda>(reward, emission_change).
           let info1 = info\<lparr>hd_base_reward := base_reward, hd_reward := reward\<rparr>
           in bindC (check_that (miner_reward = reward) ''BLOCK_REWARD_MISMATCH'' info1) (\<lambda>_.
              Inr (Inr (info1\<lparr>hd_already_generated_coins := ac + emission_change,
                hd_already_generated_transactions :=
                  hd_already_generated_transactions prev_info + word_of_nat (length (bl_transactions (prep_block pb))) + 1,
                hd_total_fee_amount := cumulative_fee, hd_transactions_cumulative_size := word_of_nat cumulative_size\<rparr>)))))))"

fun check_semantics :: "crypto_lib \<Rightarrow> bool \<Rightarrow> api_block_header \<Rightarrow> transaction list \<Rightarrow> unit checked" where
  "check_semantics C check_keys info [] = Inr (Inr ())"
| "check_semantics C check_keys info (tx # txs) =
     bindC (lift_error info (validate_semantic C False tx check_keys)) (\<lambda>_. check_semantics C check_keys info txs)"

definition check_work :: "node_env \<Rightarrow> prepared_block \<Rightarrow> bool \<Rightarrow> bool \<Rightarrow> api_block_header \<Rightarrow> chain_state \<Rightarrow> unit checked" where
  "check_work E pb zone check_pow info s =
     (let c = m_currency s; h = bl_header (prep_block pb)
      in if zone then check_that (fst (check_sw_checkpoint c (hd_height info) (hd_hash info))) ''CHECKPOINT_BLOCK_HASH_MISMATCH'' info
         else if \<not> check_pow then Inr (Inr ())
         else
           bindR (if prep_long_block_hash pb \<noteq> replicate 32 0 then Inr (prep_long_block_hash pb)
                  else get_block_long_hash (e_cn_slow_hash E) (e_cn_lite_slow_hash_v1 E) h) (\<lambda>long_hash.
           bindR (check_proof_of_work (genesis_block_hash c) long_hash h (hd_difficulty info)) (\<lambda>ok.
             check_that ok ''PROOF_OF_WORK_TOO_WEAK'' info)))"

definition check_consensus ::
  "node_env \<Rightarrow> prepared_block \<Rightarrow> api_block_header \<Rightarrow> api_block_header \<Rightarrow> bool \<Rightarrow> chain_state \<Rightarrow> api_block_header checked" where
  "check_consensus E pb info prev_info check_pow s =
     bindC (check_block_size pb info prev_info s) (\<lambda>(info1, cumulative_size).
     bindC (check_block_form E pb info1 s) (\<lambda>_.
     bindR (is_in_sw_checkpoint_zone (m_currency s) (hd_height info1)) (\<lambda>zone.
     bindC (lift_error info1 (validate_outputs (e_crypto E) (\<not> zone) 0 (outputs (base_tx (bl_header (prep_block pb)))))) (\<lambda>miner_reward.
     bindC (check_difficulty info1 prev_info s) (\<lambda>info2.
     bindC (check_reward pb cumulative_size miner_reward info2 prev_info s) (\<lambda>info3.
     bindC (check_semantics (e_crypto E) (\<not> zone) info3 (bl_transactions (prep_block pb))) (\<lambda>_.
     bindC (check_work E pb zone check_pow info3 s) (\<lambda>_. Inr (Inr info3)))))))))"

definition check_standalone_consensus ::
  "node_env \<Rightarrow> prepared_block \<Rightarrow> api_block_header \<Rightarrow> api_block_header \<Rightarrow> bool \<Rightarrow> chain_state \<Rightarrow> (string \<times> api_block_header) result" where
  "check_standalone_consensus E pb info prev_info check_pow s =
     bindR (check_consensus E pb info prev_info check_pow s) (\<lambda>q. Inr (case q of Inl e \<Rightarrow> e | Inr info' \<Rightarrow> ([], info')))"

section \<open>What an accepted block creates\<close>

lemma checked_simps [simp]:
  "(bindC r f = Inr (Inr z)) = (\<exists>y. r = Inr (Inr y) \<and> f y = Inr (Inr z))"
  "(check_that b err info = Inr (Inr u)) = b"
  "(lift_error info v = Inr (Inr x)) = (v = Inr x)"
  by (simp_all add: bindC_def check_that_def lift_error_def bind_checked[where h = "\<lambda>e. e"] split: sum.splits)

lemma penalized_le: "get_penalized_amount a m n = Inr x \<Longrightarrow> x \<le> a"
  by (auto simp: get_penalized_amount_def Let_def bindR_eq_Inr_iff split: if_splits prod.splits)

lemma block_reward_parts:
  assumes "get_block_reward c v em n ac fee = Inr (r, e)"
  obtains pb pf where "r = pb + pf" "e = pb - (fee - pf)" "pb \<le> calc_base_reward c v ac" "pf \<le> fee"
  using assms by (fastforce simp: get_block_reward_def bindR_eq_Inr_iff split: if_splits dest: penalized_le)

lemma sum_fees_total:
  "sum_fees info s txs = Inr (Inr t) \<Longrightarrow> \<exists>fees. list_all2 (\<lambda>tx fee. get_tx_fee tx = Some fee) txs fees \<and> t = s + sum_list fees"
proof (induction txs arbitrary: s)
  case (Cons tx txs)
  then obtain fee where fee: "get_tx_fee tx = Some fee" "sum_fees info (s + fee) txs = Inr (Inr t)" by (auto split: option.splits)
  then obtain fees where "list_all2 (\<lambda>tx fee. get_tx_fee tx = Some fee) txs fees" "t = s + fee + sum_list fees"
    using Cons.IH by blast
  then show ?case using fee(1) by (intro exI[of _ "fee # fees"]) (simp add: add.assoc)
qed simp

lemma check_semantics_all: "check_semantics C k info txs = Inr (Inr u) \<Longrightarrow> tx \<in> set txs \<Longrightarrow> \<exists>fee. validate_semantic C False tx k = Inr fee"
  by (induction txs) auto

definition block_outputs_total :: "transaction list \<Rightarrow> nat" where
  "block_outputs_total txs = sum_list (map (\<lambda>tx. outputs_total (outputs tx)) txs)"

definition block_inputs_total :: "transaction list \<Rightarrow> nat" where
  "block_inputs_total txs = sum_list (map (\<lambda>tx. inputs_total (inputs tx)) txs)"

lemma fees_total:
  assumes "list_all2 (\<lambda>tx fee. get_tx_fee tx = Some fee) txs fees" and "\<And>tx. tx \<in> set txs \<Longrightarrow> \<exists>fee. validate_semantic C False tx k = Inr fee"
  shows "block_outputs_total txs + sum_list (map unat fees) = block_inputs_total txs"
  using assms
proof (induction txs fees rule: list_all2_induct)
  case (Cons tx txs fee fees)
  obtain fee' where v: "validate_semantic C False tx k = Inr fee'" using Cons.prems[of tx] by auto
  then have "fee' = fee" using validate_semantic_fee[OF v] Cons.hyps(1) by simp
  then have "outputs_total (outputs tx) + unat fee = inputs_total (inputs tx)" using validate_semantic_ok(1)[OF v] by simp
  then show ?case using Cons.IH Cons.prems by (simp add: block_outputs_total_def block_inputs_total_def)
qed (simp add: block_outputs_total_def block_inputs_total_def)

lemma sum_list_word: "(sum_list (fees :: u64 list)) = word_of_nat (sum_list (map unat fees))"
  by (induction fees) simp_all

lemma unat_word_of_nat_le: "unat (word_of_nat n :: 'a::len word) \<le> n"
  by (simp add: unat_of_nat)

lemma unat_add_le: "unat ((a :: 'a::len word) + b) \<le> unat a + unat b"
  by (simp add: unat_word_ariths)

lemma accepted_money:
  assumes "check_consensus E pb info prev_info check_pow s = Inr (Inr info')"
  defines "b \<equiv> prep_block pb"
  shows "block_outputs_total (block_txs b) \<le> block_inputs_total (bl_transactions b) +
      unat (calc_base_reward (m_currency s) (major_version (bl_header b)) (hd_already_generated_coins prev_info))"
    and "hd_already_generated_coins info' = hd_already_generated_coins prev_info +
      word_of_int (int (block_outputs_total (block_txs b)) - int (block_inputs_total (bl_transactions b)))"
proof -
  let ?c = "m_currency s" and ?v = "major_version (bl_header b)" and ?ac = "hd_already_generated_coins prev_info"
  let ?txs = "bl_transactions b" and ?cb = "base_tx (bl_header b)"
  obtain i1 i2 zone cs mr where z: "validate_outputs (e_crypto E) (\<not> zone) 0 (outputs ?cb) = Inr mr"
      "check_reward pb cs mr i2 prev_info s = Inr (Inr info')"
      "check_semantics (e_crypto E) (\<not> zone) info' ?txs = Inr (Inr ())"
    using assms(1) unfolding b_def by (auto simp: check_consensus_def bindR_eq_Inr_iff split: prod.splits)
  obtain cf r em sz e where f: "sum_fees i2 0 ?txs = Inr (Inr cf)" "get_block_reward ?c ?v em sz ?ac cf = Inr (r, e)" "mr = r"
      "hd_already_generated_coins info' = ?ac + e"
    using z(2) unfolding b_def check_reward_def Let_def by (auto simp: bindR_eq_Inr_iff)
  obtain pb' pf where p: "r = pb' + pf" "e = pb' - (cf - pf)" "pb' \<le> calc_base_reward ?c ?v ?ac" "pf \<le> cf"
    using block_reward_parts[OF f(2)] by blast
  obtain fees where fees: "list_all2 (\<lambda>tx fee. get_tx_fee tx = Some fee) ?txs fees" "cf = sum_list fees"
    using sum_fees_total[OF f(1)] by auto
  define F where "F = sum_list (map unat fees)"
  have bal: "block_outputs_total ?txs + F = block_inputs_total ?txs"
    using fees_total[OF fees(1)] check_semantics_all[OF z(3)] by (auto simp: F_def)
  have cf: "cf = word_of_nat F" by (simp add: fees(2) sum_list_word F_def)
  have mint: "outputs_total (outputs ?cb) = unat r" using validate_outputs_total[OF z(1)] f(3) by simp
  have tot: "block_outputs_total (block_txs b) = unat r + block_outputs_total ?txs"
    by (simp add: block_outputs_total_def block_txs_def mint)
  have "unat r \<le> unat pb' + unat pf" unfolding p(1) by (rule unat_add_le)
  moreover have "unat pb' \<le> unat (calc_base_reward ?c ?v ?ac)" using p(3) by (simp add: word_le_nat_alt)
  moreover have "unat pf \<le> F" using p(4) unat_word_of_nat_le[of F, where 'a = 64] by (simp add: cf word_le_nat_alt)
  ultimately show "block_outputs_total (block_txs b) \<le> block_inputs_total ?txs + unat (calc_base_reward ?c ?v ?ac)"
    unfolding tot bal[symmetric] by linarith
  have "(word_of_int (int (block_outputs_total (block_txs b)) - int (block_inputs_total ?txs)) :: u64) = r - cf"
    unfolding tot bal[symmetric] by (simp add: cf)
  also have "\<dots> = e" by (simp add: p(1,2))
  finally show "hd_already_generated_coins info' = ?ac + word_of_int (int (block_outputs_total (block_txs b)) - int (block_inputs_total ?txs))"
    using f(4) by simp
qed

section \<open>A first block\<close>

definition genesis_state :: chain_state where
  "genesis_state = fresh_state\<lparr>m_tip_bid := replicate 32 0, m_tip_height := - 1\<rparr>"

definition genesis_prev :: api_block_header where "genesis_prev = empty_api_header\<lparr>hd_height := - 1\<rparr>"

definition genesis_coinbase :: transaction where
  "genesis_coinbase = \<lparr>version = 1, unlock_time = 10, inputs = [CoinbaseInput 0],
     outputs = [\<lparr>out_amount = 281474976710655, out_target = KeyOutput (replicate 32 7)\<rparr>], extra = [], signatures = []\<rparr>"

definition genesis_block :: prepared_block where
  "genesis_block = \<lparr>prep_block_data = [], prep_raw_block = \<lparr>rb_block = [], rb_transactions = []\<rparr>,
     prep_block = \<lparr>bl_header = \<lparr>major_version = 1, minor_version = 0, nonce = 0, timestamp = 0, previous_block_hash = replicate 32 0,
        parent = empty_parent_block, base_tx = genesis_coinbase, transaction_hashes = []\<rparr>, bl_transactions = []\<rparr>,
     prep_bid = replicate 32 0, prep_base_transaction_hash = replicate 32 0, prep_coinbase_tx_size = 100,
     prep_parent_block_size = 0, prep_long_block_hash = replicate 32 0\<rparr>"

definition sample_env :: node_env where
  "sample_env = \<lparr>e_crypto = sample_crypto, e_now = 0, e_cn_slow_hash = (\<lambda>x. x), e_cn_lite_slow_hash_v1 = (\<lambda>x. x)\<rparr>"

lemma version_facts [simp]: "\<not> (3 :: u8) \<le> 1" "(1 :: u8) \<noteq> 2" "\<not> (4 :: u8) \<le> 1"
  by (simp_all add: word_le_nat_alt)

lemma genesis_size:
  "\<exists>i. check_block_size genesis_block empty_api_header genesis_prev genesis_state = Inr (Inr (i, 0)) \<and> hd_height i = 0 \<and>
     hd_effective_size_median i = 10000 \<and> hd_block_size i = 100 \<and> hd_hash i = replicate 32 0 \<and> hd_timestamp_median i = 0"
  by (simp add: check_block_size_def genesis_block_def genesis_prev_def empty_api_header_def genesis_state_def fresh_state_def
      sample_state_def block_chain.defs chain_state.defs Let_def block_granted_full_reward_zone_by_block_version_def
      max_block_cumulative_size_def mk_currency_def check_that_def bindC_def)

lemma genesis_state_parts [simp]:
  "m_currency genesis_state = mk_currency True (replicate 32 0) []" "m_tip_height genesis_state = - 1"
  by (simp_all add: genesis_state_def fresh_state_def)

lemma genesis_form:
  assumes "hd_height i = 0" "hd_timestamp_median i = 0"
  shows "check_block_form sample_env genesis_block i genesis_state = Inr (Inr ())"
  using assms by (simp add: check_block_form_def genesis_block_def genesis_coinbase_def mk_currency_def Let_def
      get_block_major_version_for_height_def check_that_def bindC_def)

lemma genesis_difficulty:
  "check_difficulty i genesis_prev genesis_state = Inr (Inr (i\<lparr>hd_difficulty := 1000, hd_cumulative_difficulty := 1000\<rparr>))"
proof -
  have "\<not> (- 1 :: u32) \<le> hardfork_v2_height (m_currency genesis_state)"
    by (simp add: mk_currency_def Let_def word_le_nat_alt unsigned_minus_1_eq_mask mask_eq_exp_minus_1)
  then show ?thesis
    by (simp add: check_difficulty_def genesis_prev_def empty_api_header_def get_tip_segment_def next_difficulty_def
        next_difficulty_v2_def Let_def check_that_def bindC_def)
qed

lemma genesis_reward:
  assumes "hd_effective_size_median i = 10000" "hd_block_size i = 100"
  shows "\<exists>i'. check_reward genesis_block 0 281474976710655 i genesis_prev genesis_state = Inr (Inr i') \<and> hd_height i' = hd_height i \<and>
    hd_hash i' = hd_hash i"
proof -
  have base: "calc_base_reward (m_currency genesis_state) 1 0 = 281474976710655"
    by (simp add: calc_base_reward_def mk_currency_def Let_def) 
  have "get_block_reward (m_currency genesis_state) 1 10000 n 0 0 = Inr (281474976710655, 281474976710655)" if "n = 0 \<or> n = 100" for n
    unfolding get_block_reward_def base using that by (auto simp: get_penalized_amount_def mk_currency_def Let_def)
  then show ?thesis using assms
    by (simp add: check_reward_def genesis_block_def genesis_prev_def empty_api_header_def Let_def check_that_def bindC_def)
qed

lemma genesis_accepted:
  "\<exists>info'. check_consensus sample_env genesis_block empty_api_header genesis_prev True genesis_state = Inr (Inr info')"
proof -
  obtain i where i: "check_block_size genesis_block empty_api_header genesis_prev genesis_state = Inr (Inr (i, 0))" "hd_height i = 0"
      "hd_effective_size_median i = 10000" "hd_block_size i = 100" "hd_hash i = replicate 32 0" "hd_timestamp_median i = 0"
    using genesis_size by blast
  obtain i' where i': "check_reward genesis_block 0 281474976710655 (i\<lparr>hd_difficulty := 1000, hd_cumulative_difficulty := 1000\<rparr>) genesis_prev genesis_state = Inr (Inr i')"
      "hd_height i' = 0" "hd_hash i' = replicate 32 0"
    using genesis_reward[of "i\<lparr>hd_difficulty := 1000, hd_cumulative_difficulty := 1000\<rparr>"] i(2-5) by auto
  have zone: "is_in_sw_checkpoint_zone (m_currency genesis_state) 0 = Inr True" by (simp add: is_in_sw_checkpoint_zone_def mk_currency_def Let_def)
  have work: "check_work sample_env genesis_block True True i' genesis_state = Inr (Inr ())"
    using i'(2,3) by (simp add: check_work_def check_that_def check_sw_checkpoint_def mk_currency_def Let_def)
  have outs: "validate_outputs C False 0 (outputs (base_tx (bl_header (prep_block genesis_block)))) = Inr 281474976710655"
      "bl_transactions (prep_block genesis_block) = []" for C
    by (simp_all add: genesis_block_def genesis_coinbase_def)
  show ?thesis
    using i(1,2) genesis_form[OF i(2,6)] zone genesis_difficulty[of i] i'(1) work outs
    by (simp add: check_consensus_def bindC_def lift_error_def)
qed

section \<open>Errors have a text\<close>

definition no_empty :: "'a checked \<Rightarrow> bool" where
  "no_empty r \<longleftrightarrow> (\<forall>e i. r = Inr (Inl (e, i)) \<longrightarrow> e \<noteq> [])"

lemma no_empty_intros:
  "no_empty r \<Longrightarrow> (\<And>x. no_empty (f x)) \<Longrightarrow> no_empty (bindC r f)"
  "(\<And>x. r' = Inr x \<Longrightarrow> no_empty (g x)) \<Longrightarrow> no_empty (bindR r' g)"
  "err \<noteq> [] \<Longrightarrow> no_empty (check_that b err info)" "no_empty (Inr (Inr y))" "err \<noteq> [] \<Longrightarrow> no_empty (Inr (Inl (err, info)))"
  "(\<And>e. v = Inl e \<Longrightarrow> e \<noteq> []) \<Longrightarrow> no_empty (lift_error info v)"
  by (auto simp: no_empty_def bindC_def check_that_def lift_error_def bindR_def split: sum.splits sum.split_asm if_splits)

lemma validate_outputs_text: "validate_outputs C k n outs = Inl e \<Longrightarrow> e \<noteq> []"
  by (induction outs arbitrary: n) (auto split: if_splits)

lemma validate_inputs_text: "validate_inputs g n seen ins = Inl e \<Longrightarrow> e \<noteq> []"
  by (induction ins arbitrary: n seen)
    (auto simp: validate_input_def bindR_def split: if_splits transaction_input.splits sum.splits)

lemma validate_semantic_text: "validate_semantic C g tx k = Inl e \<Longrightarrow> e \<noteq> []"
  by (auto simp: validate_semantic_def bindR_def dest: validate_outputs_text validate_inputs_text split: if_splits sum.splits)

lemma no_empty_parts:
  "no_empty (check_tx_sizes c info l)" "no_empty (sum_fees info n txs)" "no_empty (check_semantics C k info txs)"
  "no_empty (check_block_form E pb info s)" "no_empty (check_work E pb zone pow info s)"
proof -
  show "no_empty (check_tx_sizes c info l)" by (induction c info l rule: check_tx_sizes.induct) (auto intro!: no_empty_intros)
  show "no_empty (sum_fees info n txs)" by (induction txs arbitrary: n) (auto intro!: no_empty_intros split: option.splits)
  show "no_empty (check_semantics C k info txs)" by (induction txs) (auto intro!: no_empty_intros dest: validate_semantic_text)
  show "no_empty (check_block_form E pb info s)"
    unfolding check_block_form_def Let_def by (auto intro!: no_empty_intros split: transaction_input.splits)
  show "no_empty (check_work E pb zone pow info s)" unfolding check_work_def Let_def by (auto intro!: no_empty_intros)
qed

lemma check_consensus_text: "no_empty (check_consensus E pb info prev_info check_pow s)"
  unfolding check_consensus_def check_block_size_def check_difficulty_def check_reward_def Let_def
  by (auto intro!: no_empty_intros no_empty_parts dest: validate_outputs_text split: prod.splits)

lemma accepted_iff:
  "check_standalone_consensus E pb info prev_info check_pow s = Inr ([], info') \<longleftrightarrow>
     check_consensus E pb info prev_info check_pow s = Inr (Inr info')"
  using check_consensus_text[of E pb info prev_info check_pow s]
  by (auto simp: check_standalone_consensus_def bindR_def no_empty_def split: sum.splits sum.split_asm)

section \<open>Properties\<close>

text \<open>
  C11: a block that passes \<open>check_standalone_consensus\<close> creates at most the base reward: the outputs of all its transactions,
  the coinbase included, exceed the inputs they spend by no more than that, as numbers. The supply recorded in the new header grows by
  exactly the difference of outputs and inputs.
\<close>

theorem accepted_block_creates_at_most_base_reward:
  assumes "check_standalone_consensus E pb info prev_info check_pow s = Inr ([], info')"
  shows "block_outputs_total (block_txs (prep_block pb)) \<le> block_inputs_total (bl_transactions (prep_block pb)) +
      unat (calc_base_reward (m_currency s) (major_version (bl_header (prep_block pb))) (hd_already_generated_coins prev_info)) \<and>
    hd_already_generated_coins info' = hd_already_generated_coins prev_info +
      word_of_int (int (block_outputs_total (block_txs (prep_block pb))) - int (block_inputs_total (bl_transactions (prep_block pb))))"
  using accepted_money[OF assms(1)[unfolded accepted_iff]] by simp_all

theorem accepted_block_creates_at_most_base_reward_witness:
  "\<exists>info'. check_standalone_consensus sample_env genesis_block empty_api_header genesis_prev True genesis_state = Inr ([], info') \<and>
     hd_already_generated_coins info' = hd_already_generated_coins genesis_prev +
       word_of_int (int (block_outputs_total (block_txs (prep_block genesis_block))) -
         int (block_inputs_total (bl_transactions (prep_block genesis_block))))"
proof -
  obtain info' where i: "check_standalone_consensus sample_env genesis_block empty_api_header genesis_prev True genesis_state = Inr ([], info')"
    using genesis_accepted unfolding accepted_iff by blast
  show ?thesis using accepted_block_creates_at_most_base_reward[OF i] i by blast
qed

end
