(* ===== verification/NodeState.thy ===== *)
theory NodeState
  imports Consensus
begin

text \<open>
  The operations that a node performs on its state, \<open>src/src/Core/BlockChainState.cpp\<close>: adding a transaction to the memory pool,
  filling the pool again after a reorganisation, choosing the transactions of a new block and constructing its coinbase, finding
  outputs for rings, and the virtual methods \<open>BlockChain\<close> calls. Random choices and key pairs are arguments. The
  theorems show that no transaction a peer may send makes \<open>add_transaction\<close> fail or leave an inconsistent pool, and
  that a block template pays the reward for its own size.
\<close>

section \<open>Definitions\<close>

subsection \<open>Adding a transaction\<close>

datatype add_transaction_result = TX_BAN | TX_BROADCAST_ALL | ALREADY_IN_POOL | INCREASE_FEE | FAILED_TO_REDO | OUTPUT_ALREADY_SPENT

text \<open>The first input whose key image is in the pool decides whether the fee is high enough.\<close>

fun first_conflict :: "mem_pool \<Rightarrow> transaction_input list \<Rightarrow> bytes option" where
  "first_conflict p [] = None"
| "first_conflict p (i # ins) =
     (case i of
        CoinbaseInput _ \<Rightarrow> first_conflict p ins
      | KeyInput _ _ ki \<Rightarrow> (case RBT.lookup (memory_state_ki_tx p) ki of None \<Rightarrow> first_conflict p ins | Some other \<Rightarrow> Some other))"

fun first_spent :: "chain_state \<Rightarrow> transaction_input list \<Rightarrow> u32 option result" where
  "first_spent s [] = Inr None"
| "first_spent s (i # ins) =
     (case i of
        CoinbaseInput _ \<Rightarrow> first_spent s ins
      | KeyInput _ _ ki \<Rightarrow> bindR (read_keyimage s ki) (\<lambda>r. case r of None \<Rightarrow> first_spent s ins | Some h \<Rightarrow> Inr (Some h)))"

text \<open>The result with the conflict height, which keeps the value \<open>conflict\<close> unless the code sets it.\<close>

definition add_transaction_at ::
  "crypto_lib \<Rightarrow> bytes \<Rightarrow> transaction \<Rightarrow> bytes \<Rightarrow> u32 \<Rightarrow> u32 \<Rightarrow> u32 \<Rightarrow> bool \<Rightarrow> chain_state \<Rightarrow>
   ((add_transaction_result \<times> u32) \<times> chain_state) result" where
  "add_transaction_at C tid tx binary unlock_height unlock_timestamp conflict check_sigs s =
     (let p = m_pool s
      in if RBT.lookup (memory_state_tx p) tid \<noteq> None then Inr ((ALREADY_IN_POOL, conflict), s)
         else if (word_of_nat (length binary) :: u64) = 0 then Inl Undefined
         else
           let my_fee = get_tx_fee_or_0 tx; my_fee_per_byte = my_fee div word_of_nat (length binary)
           in bindR (minimum_pool_fee_per_byte p) (\<lambda>(minimal_fee, minimal_tid).
              if MAX_POOL_SIZE \<le> memory_state_total_size p \<and>
                 (my_fee_per_byte < minimal_fee \<or> my_fee_per_byte = minimal_fee \<and> tid < minimal_tid)
              then Inr ((INCREASE_FEE, conflict), s)
              else
                bindR (case first_conflict p (inputs tx) of None \<Rightarrow> Inr False | Some other \<Rightarrow> cannot_displace p tid my_fee_per_byte other) (\<lambda>low.
                  if low then Inr ((INCREASE_FEE, conflict), s)
                  else
                    bindR (first_spent s (inputs tx)) (\<lambda>spent.
                      case spent of
                        Some h \<Rightarrow> Inr ((OUTPUT_ALREADY_SPENT, h), s)
                      | None \<Rightarrow>
                          (case validate_semantic C False tx check_sigs of
                             Inl _ \<Rightarrow> Inr ((TX_BAN, conflict), s)
                           | Inr _ \<Rightarrow>
                               bindR (redo_transaction C (m_currency s) (state_view s) tx (new_delta unlock_height unlock_timestamp) check_sigs) (\<lambda>q.
                                 case q of
                                   Inl (_, cf) \<Rightarrow> Inr ((FAILED_TO_REDO, cf), s)
                                 | Inr (d, _, cf) \<Rightarrow>
                                     bindR (pool_add p tid \<lparr>pool_tx = tx, binary_tx = binary, pool_fee = my_fee, pool_timestamp = 0\<rparr>
                                             (map fst (RBT.entries (m_keyimages d)))) (\<lambda>(go, p').
                                       if \<not> go then Inr ((INCREASE_FEE, cf), s\<lparr>m_pool := p'\<rparr>)
                                       else Inr ((TX_BROADCAST_ALL, cf),
                                                 s\<lparr>m_pool := p', m_tx_pool_version := m_tx_pool_version s + 1\<rparr>))))))))"

definition add_transaction ::
  "crypto_lib \<Rightarrow> bytes \<Rightarrow> transaction \<Rightarrow> bytes \<Rightarrow> u32 \<Rightarrow> chain_state \<Rightarrow> ((add_transaction_result \<times> u32) \<times> chain_state) result" where
  "add_transaction C tid tx binary conflict s =
     bindR (get_tip s) (\<lambda>tip. add_transaction_at C tid tx binary (m_tip_height s + 1) (hd_timestamp tip) conflict True s)"

text \<open>After a reorganisation the pool is filled again from its old transactions and those of the undone blocks; results are ignored.\<close>

definition add_all :: "crypto_lib \<Rightarrow> (bytes \<times> transaction \<times> bytes) list \<Rightarrow> chain_state \<Rightarrow> chain_state result" where
  "add_all C txs s = foldR (\<lambda>s (tid, tx, binary). bindR (add_transaction C tid tx binary 0 s) (\<lambda>(_, s'). Inr s')) s txs"

definition on_reorganization :: "crypto_lib \<Rightarrow> undone_map \<Rightarrow> bool \<Rightarrow> chain_state \<Rightarrow> chain_state result" where
  "on_reorganization C undone_transactions undone_blocks s =
     bindR (if undone_blocks
            then add_all C (map (\<lambda>(tid, t). (tid, pool_tx t, binary_tx t)) (RBT.entries (memory_state_tx (m_pool s)))) (s\<lparr>m_pool := empty_pool\<rparr>)
            else Inr s) (\<lambda>s1.
     bindR (add_all C (RBT.entries undone_transactions) s1) (\<lambda>s2. Inr (s2\<lparr>m_tx_pool_version := 2\<rparr>)))"

subsection \<open>Outputs for rings\<close>

text \<open>The largest global index used of each amount, then the greatest height of these outputs.\<close>

fun largest_indices :: "(u64, u32) RBT.rbt \<Rightarrow> transaction_input list \<Rightarrow> (u64, u32) RBT.rbt option" where
  "largest_indices m [] = Some m"
| "largest_indices m (i # ins) =
     (case i of
        CoinbaseInput _ \<Rightarrow> largest_indices m ins
      | KeyInput a idx _ \<Rightarrow>
          if idx = [] then None
          else
            let largest_index = foldl (+) (hd idx) (tl idx);
                lit = (case RBT.lookup m a of None \<Rightarrow> 0 | Some l \<Rightarrow> l)
            in largest_indices (RBT.insert a (max lit largest_index) m) ins)"

fun greatest_height :: "chain_state \<Rightarrow> u32 \<Rightarrow> (u64 \<times> u32) list \<Rightarrow> u32 option result" where
  "greatest_height s h [] = Inr (Some h)"
| "greatest_height s h ((a, gi) # rest) =
     bindR (read_amount_output s a gi) (\<lambda>r. case r of None \<Rightarrow> Inr None | Some unp \<Rightarrow> greatest_height s (max h (od_height unp)) rest)"

definition get_largest_referenced_height :: "chain_state \<Rightarrow> ('z) transaction_prefix_scheme \<Rightarrow> u32 option result" where
  "get_largest_referenced_height s tx =
     (case largest_indices RBT.empty (inputs tx) of None \<Rightarrow> Inr None | Some m \<Rightarrow> greatest_height s 0 (RBT.entries m))"

text \<open>The fields of an output that \<open>get_random_outputs\<close> sets; the others keep their defaults.\<close>

record api_output =
  ao_amount :: u64
  ao_global_index :: u32
  ao_unlock_time :: u64
  ao_public_key :: bytes
  ao_height :: u32

text \<open>One candidate: \<open>None\<close> when it may not be used at this height and time.\<close>

definition ring_candidate :: "chain_state \<Rightarrow> u64 \<Rightarrow> u32 \<Rightarrow> u32 \<Rightarrow> u32 \<Rightarrow> api_output option result" where
  "ring_candidate s amount i height time =
     bindR (read_amount_output s amount i) (\<lambda>r.
       case r of
         None \<Rightarrow> Inl (InvariantViolated ''global amount < total_count not found'')
       | Some unp \<Rightarrow>
           Inr (if od_spent unp \<or> height < od_height unp \<or>
                   \<not> is_transaction_spend_time_unlocked (m_currency s) (od_unlock_time unp) height time then None
                else Some \<lparr>ao_amount = amount, ao_global_index = i, ao_unlock_time = od_unlock_time unp,
                           ao_public_key = od_public_key unp, ao_height = od_height unp\<rparr>))"

text \<open>The attempts of \<open>get_random_outputs\<close>: the number drawn at each attempt is an argument; one out of range or drawn before counts as an attempt.\<close>

fun draw_outputs ::
  "chain_state \<Rightarrow> u64 \<Rightarrow> nat \<Rightarrow> u32 \<Rightarrow> u32 \<Rightarrow> u32 \<Rightarrow> int list \<Rightarrow> u32 list \<Rightarrow> api_output list \<Rightarrow> api_output list result" where
  "draw_outputs s amount outs_count height time total_count [] tried result = Inr result"
| "draw_outputs s amount outs_count height time total_count (d # draws) tried result =
     (if outs_count \<le> length result then Inr result
      else if d < 0 \<or> sint total_count \<le> d then draw_outputs s amount outs_count height time total_count draws tried result
      else
        let num = word_of_int d
        in if num \<in> set tried then draw_outputs s amount outs_count height time total_count draws tried result
           else bindR (ring_candidate s amount num height time) (\<lambda>r.
             draw_outputs s amount outs_count height time total_count draws (num # tried)
               (case r of None \<Rightarrow> result | Some x \<Rightarrow> result @ [x])))"

primrec somes :: "'a option list \<Rightarrow> 'a list" where
  "somes [] = []"
| "somes (r # rs) = (case r of None \<Rightarrow> somes rs | Some x \<Rightarrow> x # somes rs)"

definition get_random_outputs :: "chain_state \<Rightarrow> (nat \<Rightarrow> int) \<Rightarrow> u64 \<Rightarrow> nat \<Rightarrow> u32 \<Rightarrow> u32 \<Rightarrow> api_output list result" where
  "get_random_outputs s draws amount outs_count height time =
     bindR (next_global_index_for_amount s amount) (\<lambda>total_count.
       if unat total_count \<le> outs_count
       then bindR (mapR (\<lambda>i. ring_candidate s amount (word_of_nat i) height time) [0..<unat total_count]) (\<lambda>rs.
              Inr (somes rs))
       else draw_outputs s amount outs_count height time total_count (map draws [0..<outs_count * 20]) [] [])"

section \<open>Checked application is unchecked application that was allowed\<close>

lemma ring_keys_total: "ledger_view L V \<Longrightarrow> \<exists>q. ring_keys c V h ts a cf gis = Inr q"
proof (induction gis arbitrary: cf)
  case (Cons gi gis)
  obtain r where r: "rd_amount_output V a gi = Inr r" using Cons.prems by (auto simp: ledger_view_def)
  have "\<exists>q. ring_keys c V h ts a cf' gis = Inr q" for cf' by (rule Cons.IH[OF Cons.prems])
  then show ?case using r by (cases r) (auto simp: Let_def, metis bindR_simps(2))
qed simp

lemma check_input_total:
  assumes "ledger_view L V" and "length ki = 32" and "n < length sigs"
  shows "\<exists>q. check_input C c V h ts ph sigs n cf a idx ki = Inr q \<and> (\<forall>cf'. q = Inr cf' \<longrightarrow> lg_keyimages L ki = None)"
proof (cases "lg_keyimages L ki")
  case None
  obtain q where "ring_keys c V h ts a cf (absolute_indexes 0 idx) = Inr q" using ring_keys_total[OF assms(1)] by blast
  then show ?thesis using None assms by (auto simp: check_input_def ledger_view_def Let_def split: sum.splits prod.splits)
qed (use assms in \<open>auto simp: check_input_def ledger_view_def\<close>)

lemma redo_inputs_checked:
  assumes "delta_rel P L0 ht t L" and "\<forall>ki \<in> set (kis_of ins). length ki = 32" and "n + length ins \<le> length sigs"
  shows "(\<exists>e. redo_inputs C c P True ph sigs n cf t ins = Inr (Inl e)) \<or>
    (\<exists>cf' t'. redo_inputs C c P True ph sigs n cf t ins = Inr (Inr (t', cf')) \<and>
       (\<forall>ph' sigs' n' cf0. redo_inputs C c P False ph' sigs' n' cf0 t ins = Inr (Inr (t', cf0))) \<and>
       set (kis_of ins) \<inter> dom (lg_keyimages L) = {} \<and> distinct (kis_of ins))"
  using assms
proof (induction ins arbitrary: n cf t L)
  case (Cons i ins)
  show ?case
  proof (cases i)
    case (CoinbaseInput bi)
    then have "\<forall>ki \<in> set (kis_of ins). length ki = 32" "Suc n + length ins \<le> length sigs" using Cons.prems(2,3) by simp_all
    from Cons.IH[OF Cons.prems(1) this, of cf]
    show ?thesis unfolding CoinbaseInput redo_inputs.simps transaction_input.case kis_spends_simps by blast
  next
    case (KeyInput a idx ki)
    have ki: "length ki = 32" "\<forall>k \<in> set (kis_of ins). length k = 32" using Cons.prems(2) by (simp_all add: KeyInput)
    note r = Cons.prems(1)[unfolded delta_rel_def]
    obtain q where q: "check_input C c (delta_view P t) (m_block_height t) (m_unlock_timestamp t) ph sigs n cf a idx ki = Inr q"
        "\<forall>cf'. q = Inr cf' \<longrightarrow> lg_keyimages L ki = None"
      using check_input_total[OF delta_view_ledger[OF Cons.prems(1)] ki(1), of n sigs] Cons.prems(3) by fastforce
    show ?thesis
    proof (cases q)
      case (Inl e)
      then show ?thesis using q(1) by (simp add: KeyInput)
    next
      case (Inr cf1)
      then have free: "lg_keyimages L ki = None" using q(2) by simp
      define sp where "sp = m_spent_outputs t @ (if length idx = 1 then [(a, hd idx)] else [])"
      define t2 where "t2 = t\<lparr>m_keyimages := RBT.insert ki (m_block_height t) (m_keyimages t), m_spent_outputs := sp\<rparr>"
      have "RBT.lookup (m_keyimages t) ki = None" using free r by (auto simp: delta_ledger_keyimages)
      then have st: "bindR (if length idx = 1 then delta_spend_output t a (hd idx) else Inr t) (\<lambda>d1. delta_store_keyimage d1 ki (m_block_height t)) = Inr t2"
        by (simp add: delta_spend_output_def delta_store_keyimage_def t2_def sp_def delta_update_swap)
      then have step: "redo_inputs C c P ch ph' sigs' n' cf0 t (i # ins) =
          bindR (if ch then check_input C c (delta_view P t) (m_block_height t) (m_unlock_timestamp t) ph' sigs' n' cf0 a idx ki else Inr (Inr cf0))
            (\<lambda>q. case q of Inl e \<Rightarrow> Inr (Inl e) | Inr cf \<Rightarrow> redo_inputs C c P ch ph' sigs' (Suc n') cf t2 ins)" for ch ph' sigs' n' cf0
        by (auto simp: KeyInput bindR_assoc[symmetric] intro!: arg_cong2[where f = bindR] split: sum.splits)
      have rel: "delta_rel P L0 ht t2 (lg_store_all L (kis_map ht [ki]))"
        using delta_rel_inputs[OF Cons.prems(1), of "[ki]" sp] ki(1) free by (simp add: t2_def domIff)
      have IH: "(\<exists>e. redo_inputs C c P True ph sigs (Suc n) cf1 t2 ins = Inr (Inl e)) \<or>
        (\<exists>cf' t'. redo_inputs C c P True ph sigs (Suc n) cf1 t2 ins = Inr (Inr (t', cf')) \<and>
         (\<forall>ph' sigs' n' cf0. redo_inputs C c P False ph' sigs' n' cf0 t2 ins = Inr (Inr (t', cf0))) \<and>
         set (kis_of ins) \<inter> dom (lg_keyimages (lg_store_all L (kis_map ht [ki]))) = {} \<and> distinct (kis_of ins))"
        using Cons.IH[OF rel ki(2), of "Suc n" cf1] Cons.prems(3) by simp
      have u: "redo_inputs C c P True ph sigs n cf t (i # ins) = redo_inputs C c P True ph sigs (Suc n) cf1 t2 ins"
        using step[of True ph sigs n cf] q(1) Inr by simp
      show ?thesis unfolding u using IH step[of False] free by (auto simp: KeyInput domIff)
    qed
  qed
qed simp

lemma redo_transaction_checked:
  assumes r: "delta_rel P L0 ht d L" and shape: "tx_shape tx" and sigs: "length (inputs tx) \<le> length (signatures tx)"
    and sz: "\<forall>a. length (lg_outputs L a) + length (tx_outs tx a) < 2 ^ 32"
  shows "(\<exists>e. redo_transaction C c P tx d True = Inr (Inl e)) \<or>
    (\<exists>d' gis cf. redo_transaction C c P tx d True = Inr (Inr (d', gis, cf)) \<and> delta_rel P L0 ht d' (txs_view ht [tx] L) \<and>
       set (key_images tx) \<inter> dom (lg_keyimages L) = {} \<and> distinct (key_images tx) \<and>
       dom (RBT.lookup (m_keyimages d')) = dom (RBT.lookup (m_keyimages d)) \<union> set (key_images tx))"
proof -
  let ?V = "delta_view P d" and ?t = "new_delta (m_block_height d) (m_unlock_timestamp d)"
  have V: "delta_rel ?V L ht ?t L" using new_delta_rel[OF delta_view_ledger[OF r]] r by (simp add: delta_rel_def)
  have kis: "\<forall>ki \<in> set (kis_of (inputs tx)). length ki = 32" using shape by (simp add: tx_shape_def key_images_kis_of)
  consider (failed) e where "redo_inputs C c ?V True (get_transaction_prefix_hash tx) (signatures tx) 0 0 ?t (inputs tx) = Inr (Inl e)"
    | (fine) cf t where "redo_inputs C c ?V True (get_transaction_prefix_hash tx) (signatures tx) 0 0 ?t (inputs tx) = Inr (Inr (t, cf))"
        "redo_inputs C c ?V False (replicate 32 0) (signatures tx) 0 0 ?t (inputs tx) = Inr (Inr (t, 0))"
        "set (kis_of (inputs tx)) \<inter> dom (lg_keyimages L) = {}" "distinct (kis_of (inputs tx))"
    using redo_inputs_checked[OF V kis, of 0 "signatures tx" C c "get_transaction_prefix_hash tx" 0] sigs by auto
  then show ?thesis
  proof cases
    case failed
    then show ?thesis by (simp add: redo_transaction_def)
  next
    case fine
    obtain d' gis cf' where u: "redo_transaction C c P tx d False = Inr (Inr (d', gis, cf'))" "delta_rel P L0 ht d' (txs_view ht [tx] L)"
      using redo_transaction_ledger[OF r shape fine(4,3)[folded key_images_kis_of] sz, of C c] by blast
    then have "redo_transaction C c P tx d True = Inr (Inr (d', gis, cf))"
      using fine(1,2) by (auto simp: redo_transaction_def bindR_eq_Inr_iff)
    then show ?thesis using u(2) redo_transaction_fresh[OF u(1)] fine(3) by (auto simp: key_images_kis_of)
  qed
qed

section \<open>Adding a transaction never fails\<close>

lemma first_conflict_owner: "first_conflict p ins = Some other \<Longrightarrow> \<exists>ki. RBT.lookup (memory_state_ki_tx p) ki = Some other"
  by (induction ins) (auto split: transaction_input.splits option.splits)

lemma first_spent_total:
  assumes "ledger_view L (state_view s)" and "\<forall>ki \<in> set (kis_of ins). length ki = 32"
  shows "\<exists>r. first_spent s ins = Inr r \<and> (r = None \<longrightarrow> set (kis_of ins) \<inter> dom (lg_keyimages L) = {})"
  using assms(2)
proof (induction ins)
  case (Cons i ins)
  then show ?case using assms(1)
    by (cases i) (auto simp: ledger_view_def state_view_def domIff split: option.splits)
qed simp

lemma cannot_displace_total: "ki_index_ok p \<Longrightarrow> RBT.lookup (memory_state_ki_tx p) ki = Some other \<Longrightarrow> \<exists>b. cannot_displace p tid f other = Inr b"
  by (auto simp: ki_index_ok_def cannot_displace_def split: option.splits)

lemma minimum_fee_total: "fee_index_ok p \<Longrightarrow> \<exists>m. minimum_pool_fee_per_byte p = Inr m"
proof (cases "RBT.entries (memory_state_fee_tx p)")
  case (Cons e es)
  assume ok: "fee_index_ok p"
  have "RBT.lookup (memory_state_fee_tx p) (fst e) = Some (snd e)" using Cons by (simp add: RBT.lookup_in_tree)
  then show ?thesis using ok Cons by (cases e) (auto simp: minimum_pool_fee_per_byte_def fee_index_ok_def)
qed (simp add: minimum_pool_fee_per_byte_def)

text \<open>
  What a call that did not fail may do: the pool is consistent, holds nothing but its transactions from before and the new
  one, and only if the answer is to broadcast it; then none of its key images is spent on the main chain.
\<close>

definition added_well :: "ledger \<Rightarrow> bytes \<Rightarrow> pool_transaction \<Rightarrow> chain_state \<Rightarrow> add_transaction_result \<Rightarrow> chain_state \<Rightarrow> bool" where
  "added_well L tid t s r s' \<longleftrightarrow>
     (\<exists>p' n. s' = s\<lparr>m_pool := p', m_tx_pool_version := n\<rparr> \<and> pool_ok p' \<and>
        (if r = TX_BROADCAST_ALL
         then pool_map p' \<subseteq>\<^sub>m (pool_map (m_pool s))(tid \<mapsto> t) \<and> within_limit p' \<and>
              set (key_images (pool_tx t)) \<inter> dom (lg_keyimages L) = {} \<and> pool_map (m_pool s) tid = None
         else pool_map p' \<subseteq>\<^sub>m pool_map (m_pool s)))"

lemma dom_entries: "fst ` set (RBT.entries t) = dom (RBT.lookup t)"
  by (simp only: RBT.map_of_entries[symmetric] dom_map_of_conv_image_fst)

lemma added_well_same: "pool_ok (m_pool s) \<Longrightarrow> r \<noteq> TX_BROADCAST_ALL \<Longrightarrow> added_well L tid t s r s"
  unfolding added_well_def by (intro exI[of _ "m_pool s"] exI[of _ "m_tx_pool_version s"]) simp

lemma pool_add_cases:
  assumes "pool_ok p" and "pool_map p tid = None" and "binary_tx t \<noteq> []"
    and "distinct kis" and "set kis = set (key_images (pool_tx t))" and "distinct (key_images (pool_tx t))"
  shows "\<exists>go p'. pool_add p tid t kis = Inr (go, p') \<and> pool_ok p' \<and>
    (if go then pool_map p' \<subseteq>\<^sub>m (pool_map p)(tid \<mapsto> t) \<and> within_limit p' else pool_map p' \<subseteq>\<^sub>m pool_map p)"
proof -
  obtain go p' where p': "pool_add p tid t kis = Inr (go, p')" "pool_ok p'" "go \<longrightarrow> within_limit p'" "pool_map p' \<subseteq>\<^sub>m (pool_map p)(tid \<mapsto> t)"
    using pool_add_ok[OF assms] by blast
  obtain g p1 where p1: "displace_loop tid (fee_per_byte t) p kis = Inr (g, p1)" "pool_map p1 \<subseteq>\<^sub>m pool_map p"
    using displace_loop_ok[OF assms(1)] by meson
  have "pool_map p' \<subseteq>\<^sub>m pool_map p" if "\<not> go"
    using p'(1) p1 that by (auto simp: pool_add_def bindR_eq_Inr_iff split: if_splits)
  then show ?thesis using p' by auto
qed

lemma add_transaction_at_total:
  fixes s :: chain_state
  assumes l: "db_ledger s L" and shape: "tx_shape tx" and b: "binary \<noteq> []" "length binary < 2 ^ 64"
    and sz: "\<forall>a. length (lg_outputs L a) + length (tx_outs tx a) < 2 ^ 32"
  shows "\<exists>r cf s'. add_transaction_at C tid tx binary uh uts conflict True s = Inr ((r, cf), s') \<and>
    added_well L tid \<lparr>pool_tx = tx, binary_tx = binary, pool_fee = get_tx_fee_or_0 tx, pool_timestamp = 0\<rparr> s r s'"
    (is "\<exists>r cf s'. ?add = Inr ((r, cf), s') \<and> added_well L tid ?t s r s'")
proof -
  let ?p = "m_pool s"
  have ok: "pool_ok ?p" using l by (simp add: db_ledger_def)
  note same = added_well_same[OF ok, of _ L tid ?t]
  have view: "ledger_view L (state_view s)" by (rule db_ledger_view[OF l])
  have kis: "\<forall>ki \<in> set (kis_of (inputs tx)). length ki = 32" using shape by (simp add: tx_shape_def key_images_kis_of)
  have nz: "(word_of_nat (length binary) :: u64) \<noteq> 0" using b by (simp add: word_unat_eq_iff unat_of_nat)
  obtain mf mt where m: "minimum_pool_fee_per_byte ?p = Inr (mf, mt)" using minimum_fee_total[of ?p] ok by (auto simp: pool_ok_def)
  define fpb where "fpb = get_tx_fee_or_0 tx div (word_of_nat (length binary) :: u64)"
  obtain low where low: "(case first_conflict ?p (inputs tx) of None \<Rightarrow> Inr False | Some other \<Rightarrow> cannot_displace ?p tid fpb other) = Inr low"
    using first_conflict_owner[of ?p "inputs tx"] cannot_displace_total[of ?p _ _ tid fpb] ok
    by (fastforce simp: pool_ok_def split: option.splits)
  obtain spent where spent: "first_spent s (inputs tx) = Inr spent"
    using first_spent_total[OF view kis] by blast
  have unfold: "?add = (if RBT.lookup (memory_state_tx ?p) tid \<noteq> None then Inr ((ALREADY_IN_POOL, conflict), s)
      else if MAX_POOL_SIZE \<le> memory_state_total_size ?p \<and> (fpb < mf \<or> fpb = mf \<and> tid < mt) then Inr ((INCREASE_FEE, conflict), s)
      else if low then Inr ((INCREASE_FEE, conflict), s)
      else case spent of Some h \<Rightarrow> Inr ((OUTPUT_ALREADY_SPENT, h), s)
      | None \<Rightarrow> (case validate_semantic C False tx True of
           Inl _ \<Rightarrow> Inr ((TX_BAN, conflict), s)
         | Inr _ \<Rightarrow> bindR (redo_transaction C (m_currency s) (state_view s) tx (new_delta uh uts) True) (\<lambda>q. case q of
             Inl (_, cf) \<Rightarrow> Inr ((FAILED_TO_REDO, cf), s)
           | Inr (d, _, cf) \<Rightarrow> bindR (pool_add ?p tid ?t (map fst (RBT.entries (m_keyimages d)))) (\<lambda>(go, p').
               if \<not> go then Inr ((INCREASE_FEE, cf), s\<lparr>m_pool := p'\<rparr>)
               else Inr ((TX_BROADCAST_ALL, cf), s\<lparr>m_pool := p', m_tx_pool_version := m_tx_pool_version s + 1\<rparr>)))))"
    unfolding add_transaction_at_def Let_def fpb_def[symmetric] m low spent by (simp add: nz m low spent cong: if_cong)
  have fine: ?thesis if free: "RBT.lookup (memory_state_tx ?p) tid = None" and sem: "validate_semantic C False tx True = Inr fee"
      and eq: "?add = bindR (redo_transaction C (m_currency s) (state_view s) tx (new_delta uh uts) True) (\<lambda>q. case q of
             Inl (_, cf) \<Rightarrow> Inr ((FAILED_TO_REDO, cf), s)
           | Inr (d, _, cf) \<Rightarrow> bindR (pool_add ?p tid ?t (map fst (RBT.entries (m_keyimages d)))) (\<lambda>(go, p').
               if \<not> go then Inr ((INCREASE_FEE, cf), s\<lparr>m_pool := p'\<rparr>)
               else Inr ((TX_BROADCAST_ALL, cf), s\<lparr>m_pool := p', m_tx_pool_version := m_tx_pool_version s + 1\<rparr>)))" for fee
  proof -
    note v = validate_semantic_ok[OF sem]
    consider (failed) e where "redo_transaction C (m_currency s) (state_view s) tx (new_delta uh uts) True = Inr (Inl e)"
      | (applied) d gis cf where "redo_transaction C (m_currency s) (state_view s) tx (new_delta uh uts) True = Inr (Inr (d, gis, cf))"
          "set (key_images tx) \<inter> dom (lg_keyimages L) = {}" "dom (RBT.lookup (m_keyimages d)) = set (key_images tx)"
      using redo_transaction_checked[OF new_delta_rel[OF view] shape _ sz, of C "m_currency s" uh uts] v(7) by auto
    then show ?thesis
    proof cases
      case failed
      then show ?thesis using same[of FAILED_TO_REDO] by (cases e) (simp add: eq)
    next
      case applied
      have "set (map fst (RBT.entries (m_keyimages d))) = set (key_images (pool_tx ?t))"
        using applied(3) by (simp add: dom_entries)
      then obtain go p' where a: "pool_add ?p tid ?t (map fst (RBT.entries (m_keyimages d))) = Inr (go, p')" "pool_ok p'"
          "if go then pool_map p' \<subseteq>\<^sub>m (pool_map ?p)(tid \<mapsto> ?t) \<and> within_limit p' else pool_map p' \<subseteq>\<^sub>m pool_map ?p"
        using pool_add_cases[OF ok free, of ?t "map fst (RBT.entries (m_keyimages d))"] v(3) b(1) by (auto simp: RBT.distinct_entries)
      show ?thesis
      proof (cases go)
        case True
        then show ?thesis using a applied(2) free by (auto simp: eq applied(1) added_well_def)
      next
        case False
        have "added_well L tid ?t s INCREASE_FEE (s\<lparr>m_pool := p'\<rparr>)"
          unfolding added_well_def using a False by (intro exI[of _ p'] exI[of _ "m_tx_pool_version s"]) simp
        then show ?thesis using a(1) False by (simp add: eq applied(1))
      qed
    qed
  qed
  show ?thesis
  proof (cases "RBT.lookup (memory_state_tx ?p) tid \<noteq> None \<or>
      MAX_POOL_SIZE \<le> memory_state_total_size ?p \<and> (fpb < mf \<or> fpb = mf \<and> tid < mt) \<or> low \<or> spent \<noteq> None")
    case True
    then show ?thesis unfolding unfold using same by (auto split: option.splits)
  next
    case False
    then show ?thesis using unfold fine same[of TX_BAN] by (cases "validate_semantic C False tx True") auto
  qed
qed

section \<open>A transaction that is refused may still cost another one its place\<close>

text \<open>
  Before the expensive checks only the first conflicting transaction is compared with the new one, but all conflicts
  are when it is inserted. So with two conflicts, the first cheaper and the second dearer than the new transaction, the
  first is removed and then the new one is refused.
\<close>

lemma displacement_loses_transaction:
  assumes ok: "pool_ok p" and "pool_map p i1 = Some t1" and "pool_map p i2 = Some t2" and "i1 \<noteq> i2"
    and "k1 \<in> set (key_images (pool_tx t1))" and "k2 \<in> set (key_images (pool_tx t2))"
    and "fee_per_byte t1 < fpb" and "fpb < fee_per_byte t2"
  shows "\<exists>p'. displace_loop tid fpb p [k1, k2] = Inr (False, p') \<and> pool_map p' = (pool_map p)(i1 := None)"
proof -
  obtain p' where p': "remove_from_pool p i1 = Inr p'" "pool_ok p'" using remove_from_pool_ok[OF ok] by blast
  have m: "pool_map p' = (pool_map p)(i1 := None)" by (rule remove_from_pool_tx[OF p'(1)])
  have "RBT.lookup (memory_state_ki_tx p) k1 = Some i1" using ok assms(2,5) by (auto simp: pool_ok_def ki_index_ok_def)
  moreover have "RBT.lookup (memory_state_ki_tx p') k2 = Some i2"
    using p'(2) assms(3,4,6) m by (auto simp: pool_ok_def ki_index_ok_def)
  ultimately show ?thesis using assms(2,3,4,7,8) p'(1) m by (auto simp: cannot_displace_def)
qed

section \<open>Refilling the pool\<close>

definition tx_fits :: "ledger \<Rightarrow> bytes \<times> transaction \<times> bytes \<Rightarrow> bool" where
  "tx_fits L e \<longleftrightarrow> (case e of (tid, tx, binary) \<Rightarrow>
     tx_shape tx \<and> binary \<noteq> [] \<and> length binary < 2 ^ 64 \<and> (\<forall>a. length (lg_outputs L a) + length (tx_outs tx a) < 2 ^ 32))"

definition pool_unspent :: "ledger \<Rightarrow> mem_pool \<Rightarrow> bool" where
  "pool_unspent L p \<longleftrightarrow> (\<forall>tid t. pool_map p tid = Some t \<longrightarrow> set (key_images (pool_tx t)) \<inter> dom (lg_keyimages L) = {})"

lemma pool_unspent_le: "pool_unspent L p \<Longrightarrow> pool_map p' \<subseteq>\<^sub>m pool_map p \<Longrightarrow> pool_unspent L p'"
  unfolding pool_unspent_def map_le_def by (metis domI)

lemma added_well_unspent:
  assumes "added_well L tid t s r s'" and "pool_unspent L (m_pool s)"
  shows "pool_unspent L (m_pool s')"
proof -
  obtain p' n where p': "s' = s\<lparr>m_pool := p', m_tx_pool_version := n\<rparr>"
      "pool_ok p' \<and> (if r = TX_BROADCAST_ALL
         then pool_map p' \<subseteq>\<^sub>m (pool_map (m_pool s))(tid \<mapsto> t) \<and> within_limit p' \<and>
              set (key_images (pool_tx t)) \<inter> dom (lg_keyimages L) = {} \<and> pool_map (m_pool s) tid = None
         else pool_map p' \<subseteq>\<^sub>m pool_map (m_pool s))"
    using assms(1) unfolding added_well_def by blast
  show ?thesis
  proof (cases "r = TX_BROADCAST_ALL")
    case True
    have "set (key_images (pool_tx u)) \<inter> dom (lg_keyimages L) = {}" if "pool_map p' i = Some u" for i u
    proof -
      have "\<forall>a \<in> dom (pool_map p'). pool_map p' a = ((pool_map (m_pool s))(tid \<mapsto> t)) a" using p'(2) True unfolding map_le_def by simp
      then have "((pool_map (m_pool s))(tid \<mapsto> t)) i = Some u" using that domI[of "pool_map p'" i u, OF that] by metis
      then show ?thesis using p'(2) True assms(2) by (auto simp: pool_unspent_def split: if_splits)
    qed
    then show ?thesis by (simp add: pool_unspent_def p'(1))
  next
    case False
    then show ?thesis using pool_unspent_le[OF assms(2)] p' by simp
  qed
qed

lemma db_ledger_pool: "db_ledger s L \<Longrightarrow> pool_ok p \<Longrightarrow> db_ledger (s\<lparr>m_pool := p, m_tx_pool_version := n\<rparr>) L"
  by (simp add: db_ledger_def)

lemma added_well_ledger: "added_well L tid t s r s' \<Longrightarrow> db_ledger s L \<Longrightarrow> db_ledger s' L"
  unfolding added_well_def using db_ledger_pool by blast

lemma get_tip_pool:
  "get_tip (s\<lparr>m_pool := p, m_tx_pool_version := n\<rparr>) = get_tip s" "get_tip (s\<lparr>m_pool := p\<rparr>) = get_tip s"
  by (simp_all add: get_tip_def)

lemma add_all_total:
  assumes "db_ledger s L" and "pool_unspent L (m_pool s)" and "get_tip s = Inr tip" and "\<forall>e \<in> set txs. tx_fits L e"
  shows "\<exists>s'. add_all C txs s = Inr s' \<and> db_ledger s' L \<and> pool_unspent L (m_pool s') \<and>
    (\<exists>p' n. s' = s\<lparr>m_pool := p', m_tx_pool_version := n\<rparr>)"
  using assms
proof (induction txs arbitrary: s)
  case Nil
  have "s = s\<lparr>m_pool := m_pool s, m_tx_pool_version := m_tx_pool_version s\<rparr>" by simp
  then have "\<exists>p' n. s = s\<lparr>m_pool := p', m_tx_pool_version := n\<rparr>" by blast
  then show ?case using Nil.prems by (simp add: add_all_def)
next
  case (Cons e txs)
  obtain tid tx binary where e: "e = (tid, tx, binary)" by (cases e)
  have f: "tx_fits L (tid, tx, binary)" using Cons.prems(4) e by simp
  obtain r cf s1 where s1: "add_transaction_at C tid tx binary (m_tip_height s + 1) (hd_timestamp tip) 0 True s = Inr ((r, cf), s1)"
      "added_well L tid \<lparr>pool_tx = tx, binary_tx = binary, pool_fee = get_tx_fee_or_0 tx, pool_timestamp = 0\<rparr> s r s1"
    using add_transaction_at_total[OF Cons.prems(1), of tx binary C tid "m_tip_height s + 1" "hd_timestamp tip" 0] f by (auto simp: tx_fits_def)
  obtain p1 n1 where p1: "s1 = s\<lparr>m_pool := p1, m_tx_pool_version := n1\<rparr>" using s1(2) by (auto simp: added_well_def)
  have "\<exists>s'. add_all C txs s1 = Inr s' \<and> db_ledger s' L \<and> pool_unspent L (m_pool s') \<and> (\<exists>p' n. s' = s1\<lparr>m_pool := p', m_tx_pool_version := n\<rparr>)"
    using Cons.prems(3,4) added_well_ledger[OF s1(2) Cons.prems(1)] added_well_unspent[OF s1(2) Cons.prems(2)]
    by (intro Cons.IH) (simp_all add: p1 get_tip_pool)
  then show ?case using s1(1) Cons.prems(3) by (auto simp: e add_all_def add_transaction_def p1)
qed

lemma entries_lookup: "(k, v) \<in> set (RBT.entries t) \<longleftrightarrow> RBT.lookup t k = Some v"
  by (simp add: RBT.lookup_in_tree)

lemma pool_unspent_empty: "pool_unspent L empty_pool"
  by (simp add: pool_unspent_def empty_pool_def)

lemma on_reorganization_total:
  assumes l: "db_ledger s L" and tip: "get_tip s = Inr tip"
    and pool: "undone_blocks \<or> pool_unspent L (m_pool s)"
    and old: "\<forall>tid t. pool_map (m_pool s) tid = Some t \<longrightarrow> tx_fits L (tid, pool_tx t, binary_tx t)"
    and und: "\<forall>tid tx binary. RBT.lookup undone tid = Some (tx, binary) \<longrightarrow> tx_fits L (tid, tx, binary)"
  shows "\<exists>s'. on_reorganization C undone undone_blocks s = Inr s' \<and> db_ledger s' L \<and> pool_unspent L (m_pool s') \<and>
    (\<exists>p' n. s' = s\<lparr>m_pool := p', m_tx_pool_version := n\<rparr>)"
proof -
  define s0 where "s0 = (if undone_blocks then s\<lparr>m_pool := empty_pool\<rparr> else s)"
  define olds where "olds = (if undone_blocks then map (\<lambda>(tid, t). (tid, pool_tx t, binary_tx t)) (RBT.entries (memory_state_tx (m_pool s))) else [])"
  have s0: "db_ledger s0 L" "pool_unspent L (m_pool s0)" "get_tip s0 = Inr tip"
    using l tip pool pool_ok_empty by (auto simp: s0_def db_ledger_def pool_unspent_empty get_tip_pool)
  have fits: "\<forall>e \<in> set (olds @ RBT.entries undone). tx_fits L e"
    using old und by (auto simp: olds_def entries_lookup)
  obtain s1 p1 n1 where s1: "add_all C olds s0 = Inr s1" "db_ledger s1 L" "pool_unspent L (m_pool s1)" "s1 = s0\<lparr>m_pool := p1, m_tx_pool_version := n1\<rparr>"
    using add_all_total[OF s0, of olds C] fits by auto
  have t1: "get_tip s1 = Inr tip" using s0(3) s1(4) by (simp add: get_tip_pool)
  obtain s2 p2 n2 where s2: "add_all C (RBT.entries undone) s1 = Inr s2" "db_ledger s2 L" "pool_unspent L (m_pool s2)"
      "s2 = s1\<lparr>m_pool := p2, m_tx_pool_version := n2\<rparr>"
    using add_all_total[OF s1(2,3) t1, of "RBT.entries undone" C] fits by auto
  have "on_reorganization C undone undone_blocks s = Inr (s2\<lparr>m_tx_pool_version := 2\<rparr>)"
    using s1(1) s2(1) by (auto simp: on_reorganization_def s0_def olds_def add_all_def split: if_splits)
  moreover have "db_ledger (s2\<lparr>m_tx_pool_version := 2\<rparr>) L" using s2(2) by (simp add: db_ledger_def)
  moreover have "\<exists>p' n. s2\<lparr>m_tx_pool_version := 2\<rparr> = s\<lparr>m_pool := p', m_tx_pool_version := n\<rparr>"
    by (intro exI[of _ p2] exI[of _ 2]) (simp add: s2(4) s1(4) s0_def)
  ultimately show ?thesis using s2(3) by auto
qed

section \<open>Outputs for rings\<close>

definition good_output :: "ledger \<Rightarrow> currency \<Rightarrow> u64 \<Rightarrow> u32 \<Rightarrow> u32 \<Rightarrow> api_output \<Rightarrow> bool" where
  "good_output L c amount height time x \<longleftrightarrow>
     unat (ao_global_index x) < length (lg_outputs L amount) \<and>
     (let unp = lg_outputs L amount ! unat (ao_global_index x)
      in \<not> od_spent unp \<and> od_height unp \<le> height \<and> is_transaction_spend_time_unlocked c (od_unlock_time unp) height time \<and>
         x = \<lparr>ao_amount = amount, ao_global_index = ao_global_index x, ao_unlock_time = od_unlock_time unp,
              ao_public_key = od_public_key unp, ao_height = od_height unp\<rparr>)"

lemma ring_candidate_ledger:
  assumes "ledger_view L (state_view s)" and "unat i < length (lg_outputs L amount)"
  shows "\<exists>r. ring_candidate s amount i height time = Inr r \<and>
    (case r of None \<Rightarrow> \<not> (\<exists>x. good_output L (m_currency s) amount height time x \<and> ao_global_index x = i)
     | Some x \<Rightarrow> good_output L (m_currency s) amount height time x \<and> ao_global_index x = i)"
  using assms
  by (auto simp: ring_candidate_def ledger_view_def state_view_def good_output_def Let_def not_less not_le)

lemma draw_outputs_ledger:
  assumes "ledger_view L (state_view s)" and n: "unat total_count = length (lg_outputs L amount)" "sint total_count = int (unat total_count)"
    and "length result \<le> count" and "distinct (map ao_global_index result)" and "ao_global_index ` set result \<subseteq> set tried"
    and "\<forall>x \<in> set result. good_output L (m_currency s) amount height time x"
  shows "\<exists>xs. draw_outputs s amount count height time total_count draws tried result = Inr xs \<and> length xs \<le> count \<and>
    distinct (map ao_global_index xs) \<and> (\<forall>x \<in> set xs. good_output L (m_currency s) amount height time x)"
  using assms(4-7)
proof (induction draws arbitrary: tried result)
  case (Cons d draws)
  define num where "num = (word_of_int d :: u32)"
  show ?case
  proof (cases "count \<le> length result \<or> d < 0 \<or> sint total_count \<le> d \<or> num \<in> set tried")
    case True
    then show ?thesis using Cons.IH[OF Cons.prems] Cons.prems by (auto simp: Let_def num_def)
  next
    case False
    then have d: "0 \<le> d" "d < int (unat total_count)" using n(2) by auto
    then have "d < 4294967296" using u32_less[of total_count] by linarith
    then have "unat num = nat d" using d(1) by (simp add: num_def unat_eq_nat_uint uint_word_of_int_eq take_bit_int_eq_self)
    then have i: "unat num < length (lg_outputs L amount)" using d n(1) by linarith
    obtain r where r: "ring_candidate s amount num height time = Inr r"
        "\<And>x. r = Some x \<Longrightarrow> good_output L (m_currency s) amount height time x \<and> ao_global_index x = num"
      using ring_candidate_ledger[OF assms(1) i, of height time] by (auto split: option.splits)
    define result' where "result' = (case r of None \<Rightarrow> result | Some x \<Rightarrow> result @ [x])"
    have "length result' \<le> count" "distinct (map ao_global_index result')" "ao_global_index ` set result' \<subseteq> set (num # tried)"
        "\<forall>x \<in> set result'. good_output L (m_currency s) amount height time x"
      using Cons.prems r(2) False by (auto simp: result'_def split: option.splits)
    from Cons.IH[OF this] show ?thesis using False r(1) by (auto simp: Let_def num_def result'_def)
  qed
qed simp

lemma candidates_ledger:
  assumes v: "ledger_view L (state_view s)" and "\<forall>i \<in> set is. i < length (lg_outputs L amount)" and "distinct is"
    and w: "length (lg_outputs L amount) < 2 ^ 32"
  shows "\<exists>rs. mapR (\<lambda>i. ring_candidate s amount (word_of_nat i) height time) is = Inr rs \<and>
    (let xs = somes rs
     in length xs \<le> length is \<and> distinct (map ao_global_index xs) \<and>
        (\<forall>x. x \<in> set xs \<longleftrightarrow> good_output L (m_currency s) amount height time x \<and> unat (ao_global_index x) \<in> set is))"
  using assms(2,3)
proof (induction "is")
  case (Cons i "is")
  have i: "unat (word_of_nat i :: u32) = i" using Cons.prems(1) w by (simp add: unat_of_nat)
  obtain r where r: "ring_candidate s amount (word_of_nat i) height time = Inr r"
      "case r of None \<Rightarrow> \<not> (\<exists>x. good_output L (m_currency s) amount height time x \<and> ao_global_index x = word_of_nat i)
       | Some x \<Rightarrow> good_output L (m_currency s) amount height time x \<and> ao_global_index x = word_of_nat i"
    using ring_candidate_ledger[OF v, of "word_of_nat i" amount height time] Cons.prems(1) i by auto
  obtain rs where rs: "mapR (\<lambda>i. ring_candidate s amount (word_of_nat i) height time) is = Inr rs"
    and xs: "let xs = somes rs
     in length xs \<le> length is \<and> distinct (map ao_global_index xs) \<and>
        (\<forall>x. x \<in> set xs \<longleftrightarrow> good_output L (m_currency s) amount height time x \<and> unat (ao_global_index x) \<in> set is)"
    using Cons.IH Cons.prems by auto
  define xs where "xs = somes rs"
  note x = xs[folded xs_def, unfolded Let_def]
  have w': "unat g = i \<longleftrightarrow> g = word_of_nat i" for g :: u32 using word_unat_eq_iff[of g "word_of_nat i"] i by simp
  have uniq: "good_output L (m_currency s) amount height time x \<Longrightarrow> good_output L (m_currency s) amount height time y \<Longrightarrow>
      ao_global_index x = ao_global_index y \<Longrightarrow> x = y" for x y
    unfolding good_output_def Let_def by metis
  show ?case
  proof (cases r)
    case None
    have "z \<in> set xs \<longleftrightarrow> good_output L (m_currency s) amount height time z \<and> unat (ao_global_index z) \<in> set (i # is)" for z
      using x r(2) None w' by auto
    then show ?thesis using r(1) rs x None by (intro exI[of _ "None # rs"]) (simp add: Let_def xs_def[symmetric])
  next
    case (Some y)
    have ni: "word_of_nat i \<notin> ao_global_index ` set xs" using x Cons.prems(2) i by auto
    have "z \<in> set (y # xs) \<longleftrightarrow> good_output L (m_currency s) amount height time z \<and> unat (ao_global_index z) \<in> set (i # is)" for z
    proof (cases "ao_global_index z = word_of_nat i")
      case True
      then have "z \<notin> set xs" using ni by (metis imageI)
      then show ?thesis using True r(2) Some uniq[of z y] i by auto
    next
      case False
      then show ?thesis using x r(2) Some w' by auto
    qed
    then show ?thesis using r rs x Some ni by (intro exI[of _ "Some y # rs"]) (simp add: Let_def xs_def[symmetric])
  qed
qed simp

section \<open>Properties\<close>

text \<open>
  C22: no transaction that a peer may send makes \<open>add_transaction\<close> fail: it returns one of its results on every path, and then the
  pool is consistent, within its limit, and holds nothing but its transactions from before and, only if the result
  is to broadcast it, the new one, whose key images are then all unspent on the main chain. Nothing else changes.
\<close>

theorem add_transaction_never_fails:
  assumes "db_ledger s L" and "get_tip s = Inr tip" and "tx_fits L (tid, tx, binary)"
  shows "\<exists>r cf s'. add_transaction C tid tx binary conflict s = Inr ((r, cf), s') \<and>
    added_well L tid \<lparr>pool_tx = tx, binary_tx = binary, pool_fee = get_tx_fee_or_0 tx, pool_timestamp = 0\<rparr> s r s'"
  using add_transaction_at_total[OF assms(1), of tx binary C tid "m_tip_height s + 1" "hd_timestamp tip" conflict] assms(2,3)
  by (simp add: add_transaction_def tx_fits_def)

definition pool_state :: chain_state where
  "pool_state = fresh_state\<lparr>m_tip_bid := replicate 32 1, m_header_tip_window := [empty_api_header\<lparr>hd_hash := replicate 32 1\<rparr>]\<rparr>"

lemma pool_state_ledger: "db_ledger pool_state no_ledger"
  using fresh_ledger by (simp add: pool_state_def db_ledger_def short_keys_def db_outputs_ok_def)

lemma sample_spend_fits: "tx_fits no_ledger (replicate 32 7, sample_spend, [1])"
  using sample_shape(2)[of 0] by (simp add: tx_fits_def block_shape_def no_ledger_def)

theorem add_transaction_never_fails_witness:
  "\<exists>r cf s'. add_transaction sample_crypto (replicate 32 7) sample_spend [1] 0 pool_state = Inr ((r, cf), s') \<and> pool_ok (m_pool s')"
proof -
  have "get_tip pool_state = Inr (empty_api_header\<lparr>hd_hash := replicate 32 1\<rparr>)" by (simp add: get_tip_def pool_state_def)
  from add_transaction_never_fails[OF pool_state_ledger this sample_spend_fits, of sample_crypto 0]
  show ?thesis by (auto simp: added_well_def)
qed

text \<open>
  C23: after a reorganisation \<open>on_reorganization\<close> fills the pool again without failing; whatever was in the pool and in the blocks
  undone, the pool is consistent with the ledger of the new main chain: it holds no transaction that spends a key image twice.
\<close>

theorem on_reorganization_refills_pool:
  assumes "db_ledger s L" and "get_tip s = Inr tip" and "undone_blocks \<or> pool_unspent L (m_pool s)"
    and "\<forall>tid t. pool_map (m_pool s) tid = Some t \<longrightarrow> tx_fits L (tid, pool_tx t, binary_tx t)"
    and "\<forall>tid tx binary. RBT.lookup undone tid = Some (tx, binary) \<longrightarrow> tx_fits L (tid, tx, binary)"
  shows "\<exists>s'. on_reorganization C undone undone_blocks s = Inr s' \<and> db_ledger s' L \<and> pool_unspent L (m_pool s')"
  using on_reorganization_total[OF assms] by blast

theorem on_reorganization_refills_pool_witness:
  "\<exists>s'. on_reorganization sample_crypto (RBT.insert (replicate 32 7) (sample_spend, [1]) RBT.empty) True pool_state = Inr s' \<and>
     pool_unspent no_ledger (m_pool s')"
proof -
  have t: "get_tip pool_state = Inr (empty_api_header\<lparr>hd_hash := replicate 32 1\<rparr>)" by (simp add: get_tip_def pool_state_def)
  have p: "pool_map (m_pool pool_state) tid = None" for tid
    by (simp add: pool_state_def fresh_state_def sample_state_def block_chain.defs chain_state.defs empty_pool_def)
  have "\<forall>tid tx binary. RBT.lookup (RBT.insert (replicate 32 7) (sample_spend, [1]) RBT.empty) tid = Some (tx, binary) \<longrightarrow>
      tx_fits no_ledger (tid, tx, binary)"
    using sample_spend_fits by simp
  with on_reorganization_refills_pool[OF pool_state_ledger t, of True "RBT.insert (replicate 32 7) (sample_spend, [1]) RBT.empty" sample_crypto]
  show ?thesis using p by auto
qed

text \<open>
  C24: the outputs that \<open>get_random_outputs\<close> offers for rings are distinct, at most as many as asked for, and each is unspent,
  unlocked and not above the given height. If there are no more outputs of the amount than asked for, all such
  outputs are offered. It fails for no sequence of random numbers, as long as the number of outputs fits a C++ \<open>int\<close>.
\<close>

theorem random_outputs_spendable:
  assumes "db_ledger s L" and "length (lg_outputs L amount) < 2 ^ 31"
  shows "\<exists>xs. get_random_outputs s draws amount outs_count height time = Inr xs \<and> length xs \<le> outs_count \<and>
    distinct (map ao_global_index xs) \<and> (\<forall>x \<in> set xs. good_output L (m_currency s) amount height time x) \<and>
    (length (lg_outputs L amount) \<le> outs_count \<longrightarrow> set xs = {x. good_output L (m_currency s) amount height time x})"
proof -
  note v = db_ledger_view[OF assms(1)]
  let ?n = "length (lg_outputs L amount)"
  define total_count :: u32 where "total_count = word_of_nat ?n"
  have t: "unat total_count = ?n" "sint total_count = int (unat total_count)" using assms(2)
    by (simp_all add: total_count_def unat_of_nat signed_of_nat signed_take_bit_int_eq_self)
  have r: "next_global_index_for_amount s amount = Inr total_count" using v by (simp add: ledger_view_def state_view_def total_count_def)
  show ?thesis
  proof (cases "?n \<le> outs_count")
    case True
    then show ?thesis
      using candidates_ledger[OF v, of "[0..<?n]" amount height time] assms(2) r t(1)
      by (auto simp: get_random_outputs_def Let_def good_output_def)
  next
    case False
    then show ?thesis
      using draw_outputs_ledger[OF v t, of "[]" outs_count "[]" height time "map draws [0..<outs_count * 20]"] r t(1)
      by (auto simp: get_random_outputs_def)
  qed
qed

theorem random_outputs_spendable_witness:
  "\<exists>xs. get_random_outputs fresh_state (\<lambda>_. 0) 5 3 0 0 = Inr xs \<and> xs = []"
  using random_outputs_spendable[OF fresh_ledger, of 5 "\<lambda>_. 0" 3 0 0] by (auto simp: no_ledger_def good_output_def)

end
