(* ===== verification/Mining.thy ===== *)
theory Mining
  imports NodeState "HOL-Library.Sublist"
begin

text \<open>
  The block template of the miner in \<open>src/src/Core/BlockChainState.cpp\<close>: \<open>create_mining_block_template\<close> chooses transactions from the
  pool, highest fee per byte first, and constructs a coinbase transaction that pays the reward for the final size
  of the block, which depends on the size of the coinbase itself; \<open>add_mined_block\<close> puts the raw block together again from the
  solved header. The clock, the key pairs and the key derivations are the fields of a record. The theorems show that the
  reward is that of the block's own size and that the chosen transactions fit together.
\<close>

section \<open>Definitions\<close>

text \<open>The n-th call of \<open>construct_miner_tx\<close> draws the n-th key pair.\<close>

record miner_env =
  mn_now :: u32
  mn_key :: "nat \<Rightarrow> bytes \<times> bytes"
  mn_derivation :: "bytes \<Rightarrow> bytes \<Rightarrow> bytes option"
  mn_derive :: "bytes \<Rightarrow> nat \<Rightarrow> bytes \<Rightarrow> bytes option"

definition clear_mining_transactions :: "chain_state \<Rightarrow> chain_state" where
  "clear_mining_transactions s =
     s\<lparr>m_mining_transactions := RBT.filter (\<lambda>_ e. \<not> snd e + 3 < m_tip_height s) (m_mining_transactions s)\<rparr>"

definition empty_transaction :: transaction where
  "empty_transaction = \<lparr>version = 0, unlock_time = 0, inputs = [], outputs = [], extra = [], signatures = []\<rparr>"

definition empty_template :: block_template where
  "empty_template = \<lparr>major_version = 0, minor_version = 0, nonce = 0, timestamp = 0, previous_block_hash = replicate 32 0,
     parent = empty_parent_block, base_tx = empty_transaction, transaction_hashes = []\<rparr>"

text \<open>The version fields and the parent block of the template.\<close>

definition template_versions :: "currency \<Rightarrow> u32 \<Rightarrow> block_template option" where
  "template_versions c height =
     (let v = get_block_major_version_for_height c height; b = empty_template\<lparr>major_version := v\<rparr>
      in if v = 1 then Some (b\<lparr>minor_version := (if upgrade_height_v2 c = - 1 then 1 else 0)\<rparr>)
         else if 2 \<le> v
         then let b1 = b\<lparr>minor_version := (if upgrade_height_v3 c = - 1 then if v = 2 then 1 else 0 else 0)\<rparr>;
                  pa = (parent b1)\<lparr>pb_major_version := 1, pb_minor_version := 0, transaction_count := 1\<rparr>
              in (case append_merge_mining_tag_to_extra (extra (pb_base_transaction pa)) 0 (replicate 32 0) of
                    (False, _) \<Rightarrow> None
                  | (True, ex) \<Rightarrow> Some (b1\<lparr>parent := pa\<lparr>pb_base_transaction := (pb_base_transaction pa)\<lparr>extra := ex\<rparr>\<rparr>\<rparr>))
         else Some b)"

definition template_difficulty :: "chain_state \<Rightarrow> u64 result" where
  "template_difficulty s =
     (let c = m_currency s
      in bindR (get_tip s) (\<lambda>tip.
         bindR (get_tip_segment s tip (min (m_tip_height s) (get_difficulty_blocks_count c (m_tip_height s + 1))) False) (\<lambda>window.
           next_difficulty c (m_tip_height s + 1) (map hd_timestamp window) (map hd_cumulative_difficulty window))))"

text \<open>The room for transactions (32-bit arithmetic).\<close>

definition max_total_size :: "currency \<Rightarrow> u32 \<Rightarrow> u32 \<Rightarrow> u32 result" where
  "max_total_size c height effective_size_median =
     bindR (max_block_cumulative_size c height) (\<lambda>max_cumulative_size.
       Inr (min (125 * effective_size_median div 100) max_cumulative_size - miner_tx_blob_reserved_size c))"

text \<open>The hashes of the pool from the cheapest to the dearest; the loop takes them from the back.\<close>

definition pool_hashes :: "mem_pool \<Rightarrow> bytes list" where
  "pool_hashes p = concat (map snd (RBT.entries (memory_state_fee_tx p)))"

record picked =
  pk_delta :: delta_state
  pk_size :: nat
  pk_fee :: u64
  pk_hashes :: "bytes list"

fun pick_transactions :: "crypto_lib \<Rightarrow> chain_state \<Rightarrow> nat \<Rightarrow> picked \<Rightarrow> bytes list \<Rightarrow> picked result" where
  "pick_transactions C s block_size_limit k [] = Inr k"
| "pick_transactions C s block_size_limit k (tid # tids) =
     (case RBT.lookup (memory_state_tx (m_pool s)) tid of
        None \<Rightarrow> Inl AssertFailed
      | Some t \<Rightarrow>
          if block_size_limit < pk_size k + length (binary_tx t) then pick_transactions C s block_size_limit k tids
          else
            bindR (redo_transaction C (m_currency s) (state_view s) (pool_tx t) (pk_delta k) True) (\<lambda>q.
              case q of
                Inl _ \<Rightarrow> pick_transactions C s block_size_limit k tids
              | Inr (d, _, _) \<Rightarrow>
                  pick_transactions C s block_size_limit
                    \<lparr>pk_delta = d, pk_size = pk_size k + length (binary_tx t), pk_fee = pk_fee k + pool_fee t,
                     pk_hashes = pk_hashes k @ [tid]\<rparr> tids))"

text \<open>The transactions of the template are remembered for \<open>add_mined_block\<close>; an entry that is there is kept.\<close>

definition remember_mining :: "mem_pool \<Rightarrow> u32 \<Rightarrow> bytes list \<Rightarrow> (bytes, bytes \<times> u32) RBT.rbt \<Rightarrow> (bytes, bytes \<times> u32) RBT.rbt" where
  "remember_mining p height tids m =
     foldl (\<lambda>m tid. case RBT.lookup (memory_state_tx p) tid of
                      None \<Rightarrow> m
                    | Some t \<Rightarrow> if RBT.lookup m tid = None then RBT.insert tid (binary_tx t, height) m else m) m tids"

text \<open>
  The attempts to find a coinbase whose size is the one its reward was computed for. Padding the extra field may
  lengthen the length written before it by one byte. \<open>None\<close> is the result \<open>false\<close>.
\<close>

definition pad_extra :: "nat \<Rightarrow> transaction \<Rightarrow> transaction" where
  "pad_extra n tx = tx\<lparr>extra := extra tx @ replicate n 0\<rparr>"

definition cut_extra :: "transaction \<Rightarrow> transaction" where
  "cut_extra tx = tx\<lparr>extra := butlast (extra tx)\<rparr>"

datatype attempt = Finished "transaction option" | TryAgain nat transaction

definition fit_coinbase :: "nat \<Rightarrow> nat \<Rightarrow> transaction \<Rightarrow> attempt result" where
  "fit_coinbase txs_size cumulative_size tx =
     bindR (write_transaction tx) (\<lambda>w.
       if cumulative_size - txs_size < length w then Inr (TryAgain (txs_size + length w) tx)
       else if length w < cumulative_size - txs_size
       then
         let delta = cumulative_size - txs_size - length w; tx1 = pad_extra delta tx
         in bindR (write_transaction tx1) (\<lambda>w1.
              if cumulative_size = txs_size + length w1 then Inr (Finished (Some tx1))
              else if cumulative_size + 1 \<noteq> txs_size + length w1 then Inr (Finished None)
              else
                let tx2 = cut_extra tx1
                in bindR (write_transaction tx2) (\<lambda>w2.
                     if cumulative_size \<noteq> txs_size + length w2 then Inr (TryAgain (cumulative_size + (delta - 1)) tx2)
                     else Inr (Finished (Some tx2))))
       else Inr (Finished (Some tx)))"

fun coinbase_attempts ::
  "(nat \<Rightarrow> nat \<Rightarrow> transaction \<Rightarrow> transaction option result) \<Rightarrow> nat \<Rightarrow> nat \<Rightarrow> nat \<Rightarrow> nat \<Rightarrow> transaction \<Rightarrow> transaction option result" where
  "coinbase_attempts construct txs_size 0 n cumulative_size tx = Inr None"
| "coinbase_attempts construct txs_size (Suc tries) n cumulative_size tx =
     bindR (construct n cumulative_size tx) (\<lambda>r.
       case r of
         None \<Rightarrow> Inr None
       | Some tx1 \<Rightarrow>
           bindR (fit_coinbase txs_size cumulative_size tx1) (\<lambda>a.
             case a of
               Finished res \<Rightarrow> Inr res
             | TryAgain cs tx2 \<Rightarrow> coinbase_attempts construct txs_size tries (Suc n) cs tx2))"

definition TRIES_COUNT :: nat where "TRIES_COUNT = 10"

definition template_coinbase ::
  "miner_env \<Rightarrow> currency \<Rightarrow> u8 \<Rightarrow> u32 \<Rightarrow> u32 \<Rightarrow> u64 \<Rightarrow> account_public_address \<Rightarrow> bytes \<Rightarrow> nat \<Rightarrow> u64 \<Rightarrow> transaction option result" where
  "template_coinbase M c v height effective_size_median already_generated_coins adr extra_nonce txs_size fee =
     (let construct = (\<lambda>n cumulative_size tx.
            construct_miner_tx c (mn_key M n) (mn_derivation M) (mn_derive M) v height (ucast effective_size_median) already_generated_coins
              (word_of_nat cumulative_size) fee adr tx extra_nonce 11)
      in bindR (construct 0 txs_size empty_transaction) (\<lambda>r.
           case r of
             None \<Rightarrow> Inr None
           | Some tx \<Rightarrow>
               bindR (write_transaction tx) (\<lambda>w.
                 coinbase_attempts construct txs_size TRIES_COUNT 1 (txs_size + length w) tx)))"

text \<open>\<open>None\<close> is \<open>false\<close>; otherwise the template, the difficulty and the height.\<close>

definition create_mining_block_template ::
  "crypto_lib \<Rightarrow> miner_env \<Rightarrow> account_public_address \<Rightarrow> bytes \<Rightarrow> chain_state \<Rightarrow>
   ((block_template \<times> u64 \<times> u32) option \<times> chain_state) result" where
  "create_mining_block_template C M adr extra_nonce s0 =
     (let s = clear_mining_transactions s0; c = m_currency s; height = m_tip_height s + 1
      in bindR (template_difficulty s) (\<lambda>difficulty.
         if difficulty = 0 then Inr (None, s)
         else
           (case template_versions c height of
              None \<Rightarrow> Inr (None, s)
            | Some b0 \<Rightarrow>
                let v = major_version b0;
                    b1 = b0\<lparr>previous_block_hash := m_tip_bid s, timestamp := max (mn_now M) (m_next_median_timestamp s)\<rparr>;
                    effective_size_median = max (m_next_median_size s) (block_granted_full_reward_zone_by_block_version c v)
                in bindR (get_tip s) (\<lambda>tip.
                   bindR (max_total_size c height effective_size_median) (\<lambda>limit.
                   bindR (pick_transactions C s (unat limit)
                            \<lparr>pk_delta = new_delta height (timestamp b1), pk_size = 0, pk_fee = 0, pk_hashes = []\<rparr>
                            (rev (pool_hashes (m_pool s)))) (\<lambda>k.
                     let s1 = s\<lparr>m_mining_transactions := remember_mining (m_pool s) height (pk_hashes k) (m_mining_transactions s)\<rparr>
                     in bindR (template_coinbase M c v height effective_size_median (hd_already_generated_coins tip) adr extra_nonce
                                 (pk_size k) (pk_fee k)) (\<lambda>r.
                          case r of
                            None \<Rightarrow> Inr (None, s1)
                          | Some tx \<Rightarrow>
                              Inr (Some (b1\<lparr>base_tx := tx, transaction_hashes := pk_hashes k\<rparr>, difficulty, height), s1))))))))"

text \<open>The transactions of a solved template, from the pool or from those remembered; \<open>None\<close> is a missing one.\<close>

fun mined_transactions :: "chain_state \<Rightarrow> bytes list \<Rightarrow> bytes list option" where
  "mined_transactions s [] = Some []"
| "mined_transactions s (tid # tids) =
     (case (case RBT.lookup (memory_state_tx (m_pool s)) tid of
              Some t \<Rightarrow> Some (binary_tx t)
            | None \<Rightarrow> map_option fst (RBT.lookup (m_mining_transactions s) tid)) of
        None \<Rightarrow> None
      | Some binary \<Rightarrow> map_option ((#) binary) (mined_transactions s tids))"

definition mined_raw_block :: "chain_state \<Rightarrow> bytes \<Rightarrow> block_template \<Rightarrow> raw_block option" where
  "mined_raw_block s raw_block_template b =
     map_option (\<lambda>ts. \<lparr>rb_block = raw_block_template, rb_transactions = ts\<rparr>) (mined_transactions s (transaction_hashes b))"

section \<open>The coinbase pays the reward for the size of the block\<close>

text \<open>The amounts of a coinbase are not zero.\<close>

lemma push_dust_nonzero: "0 \<notin> set (push_dust d)"
  by (simp add: push_dust_def Let_def)

lemma decompose_loop_nonzero: "0 \<notin> set acc \<Longrightarrow> 0 \<notin> set (decompose_loop amount th handled dust order acc)"
proof (induction amount th handled dust order acc rule: decompose_loop.induct)
  case (1 amount th handled dust order acc)
  let ?chunk = "(amount mod 10) * order"
  let ?acc = "if \<not> handled \<and> dust \<noteq> 0 then acc @ push_dust dust else acc"
  consider "amount = 0" | "amount \<noteq> 0" "dust + ?chunk \<le> th" | "amount \<noteq> 0" "\<not> dust + ?chunk \<le> th" by blast
  then show ?case
  proof cases
    case 1
    then show ?thesis using "1.prems" by (subst decompose_loop.simps) (simp add: push_dust_nonzero)
  next
    case 2
    then show ?thesis using "1.IH"(1)[OF 2(1) refl 2(2) "1.prems"] by (subst decompose_loop.simps) (simp add: Let_def)
  next
    case 3
    have "0 \<notin> set (if ?chunk \<noteq> 0 then ?acc @ [?chunk] else ?acc)" using "1.prems" by (simp add: push_dust_nonzero)
    from "1.IH"(2)[OF 3(1) refl 3(2) refl this] show ?thesis using 3
      by (subst decompose_loop.simps) (simp only: Let_def if_False if_True simp_thms)
  qed
qed

lemma merge_step_nonzero:
  assumes "2 \<le> length xs" and "amounts_sum xs < 2 ^ 64" and "0 \<notin> set xs"
  shows "0 \<notin> set (butlast (xs[length xs - 2 := xs ! (length xs - 2) + last xs]))"
proof -
  obtain zs b where zs: "xs = zs @ [b]" using assms(1) by (cases xs rule: rev_cases) auto
  then obtain ys a where "zs = ys @ [a]" using assms(1) by (cases zs rule: rev_cases) auto
  then have xs: "xs = ys @ [a, b]" using zs by simp
  have "unat (a + b) = unat a + unat b" using assms(2) by (simp add: xs unat_word_ariths)
  then have "a + b \<noteq> 0" using assms(3) by (metis add_is_0 list.set_intros(1) unat_0 unat_eq_zero xs in_set_conv_decomp)
  then show ?thesis using assms(3) by (simp add: xs butlast_append list_update_append nth_append)
qed

lemma merge_outs_nonzero:
  assumes "amounts_sum xs < 2 ^ 64" and "0 \<notin> set xs"
  shows "0 \<notin> set (merge_outs k xs)"
  using assms
proof (induction k xs rule: merge_outs.induct)
  case (1 k xs)
  show ?case
  proof (cases "k < length xs \<and> 2 \<le> length xs")
    case True
    then show ?thesis using 1 merge_step_sum[of xs] merge_step_nonzero[of xs] by (subst merge_outs.simps) simp
  next
    case False
    then show ?thesis using 1(3) by (subst merge_outs.simps) (simp only: if_False simp_thms)
  qed
qed

lemma miner_amounts_nonzero: "0 \<notin> set (merge_outs k (decompose_amount reward th))"
proof (rule merge_outs_nonzero)
  show "amounts_sum (decompose_amount reward th) < 2 ^ 64" by (subst decompose_amount_total) simp
  show "0 \<notin> set (decompose_amount reward th)" by (simp add: decompose_amount_def decompose_loop_nonzero)
qed

lemma construct_miner_tx_pays:
  assumes "construct_miner_tx c key gen der v height median already cur fee adr tx xnonce max_outs = Inr (Some tx')"
  shows "\<exists>reward ec. get_block_reward c v median cur already fee = Inr (reward, ec) \<and>
    amounts_sum (map out_amount (outputs tx')) = unat reward \<and> 0 \<notin> out_amount ` set (outputs tx') \<and>
    inputs tx' = [CoinbaseInput height] \<and> unlock_time tx' = ucast (height + mined_money_unlock_window c)"
proof -
  obtain reward ec where r: "get_block_reward c v median cur already fee = Inr (reward, ec)"
    using assms by (auto simp: construct_miner_tx_def Let_def bindR_eq_Inr_iff split: if_splits prod.splits)
  define mo where "mo = (if max_outs = 0 then 1 else max_outs)"
  define outs where "outs = merge_outs mo (decompose_amount reward (default_dust_threshold c))"
  define keys where "keys = map (\<lambda>no. case gen (view_public_key adr) (snd key) of None \<Rightarrow> None
      | Some derivation \<Rightarrow> der derivation no (spend_public_key adr)) [0..<length outs]"
  have tx': "outputs tx' = map2 (\<lambda>a k. \<lparr>out_amount = a, out_target = KeyOutput (the k)\<rparr>) outs keys"
      "inputs tx' = [CoinbaseInput height]" "unlock_time tx' = ucast (height + mined_money_unlock_window c)"
    using assms unfolding construct_miner_tx_def Let_def r bindR_simps split_def fst_conv snd_conv mo_def[symmetric] outs_def[symmetric] keys_def[symmetric]
    by (auto split: if_splits)
  have "map out_amount (outputs tx') = map fst (zip outs keys)" unfolding tx'(1) by (simp add: comp_def split_beta)
  then have "map out_amount (outputs tx') = outs" by (simp add: keys_def)
  moreover have "amounts_sum outs = unat reward" "0 \<notin> set outs" unfolding outs_def by (rule miner_amounts miner_amounts_nonzero)+
  ultimately show ?thesis using r tx'(2,3) by (metis set_map)
qed

lemma extra_same: "\<exists>e. (tx :: transaction) = tx\<lparr>extra := e\<rparr>"
  by (rule exI[of _ "extra tx"]) simp

definition pays_for :: "currency \<Rightarrow> u8 \<Rightarrow> u32 \<Rightarrow> u32 \<Rightarrow> u64 \<Rightarrow> u64 \<Rightarrow> nat \<Rightarrow> transaction \<Rightarrow> bool" where
  "pays_for c v height median already fee n tx \<longleftrightarrow>
     (\<exists>reward ec. get_block_reward c v (ucast median) (word_of_nat n) already fee = Inr (reward, ec) \<and>
        amounts_sum (map out_amount (outputs tx)) = unat reward) \<and>
     0 \<notin> out_amount ` set (outputs tx) \<and> inputs tx = [CoinbaseInput height] \<and> unlock_time tx = ucast (height + mined_money_unlock_window c)"

lemma fit_coinbase_fits:
  assumes "fit_coinbase ts cs tx = Inr a" and "ts \<le> cs"
  shows "case a of
      Finished None \<Rightarrow> True
    | Finished (Some tx') \<Rightarrow> \<exists>w e. write_transaction tx' = Inr w \<and> cs = ts + length w \<and> tx' = tx\<lparr>extra := e\<rparr>
    | TryAgain cs' tx' \<Rightarrow> ts \<le> cs'"
  using assms
  by (auto simp: fit_coinbase_def Let_def bindR_eq_Inr_iff pad_extra_def cut_extra_def not_less extra_same split: if_splits)

lemma coinbase_attempts_fit:
  assumes "coinbase_attempts construct ts tries n cs tx = Inr (Some tx')" and "ts \<le> cs"
    and "\<And>n cs tx tx'. construct n cs tx = Inr (Some tx') \<Longrightarrow> Q cs tx'"
    and "\<And>cs tx e. Q cs tx \<Longrightarrow> Q cs (tx\<lparr>extra := e\<rparr>)"
  shows "\<exists>w. write_transaction tx' = Inr w \<and> Q (ts + length w) tx'"
  using assms(1,2)
proof (induction tries arbitrary: n cs tx)
  case (Suc tries)
  then obtain tx1 a where tx1: "construct n cs tx = Inr (Some tx1)" and a: "fit_coinbase ts cs tx1 = Inr a"
      "(case a of Finished res \<Rightarrow> Inr res | TryAgain cs' tx2 \<Rightarrow> coinbase_attempts construct ts tries (Suc n) cs' tx2) = Inr (Some tx')"
    by (auto simp: bindR_eq_Inr_iff split: option.splits)
  note f = fit_coinbase_fits[OF a(1) Suc.prems(2)]
  show ?case
  proof (cases a)
    case (Finished res)
    then show ?thesis using a(2) f assms(3)[OF tx1] assms(4)[OF assms(3)[OF tx1]] by auto
  next
    case (TryAgain cs' tx2)
    then show ?thesis using Suc.IH[of "Suc n" cs' tx2] a(2) f by simp
  qed
qed simp

lemma template_coinbase_pays:
  assumes "template_coinbase M c v height median already adr extra_nonce ts fee = Inr (Some tx)"
  shows "\<exists>w. write_transaction tx = Inr w \<and> pays_for c v height median already fee (ts + length w) tx"
proof -
  let ?construct = "\<lambda>n cumulative_size tx. construct_miner_tx c (mn_key M n) (mn_derivation M) (mn_derive M) v height (ucast median) already
      (word_of_nat cumulative_size) fee adr tx extra_nonce 11"
  obtain tx0 where "bindR (write_transaction tx0) (\<lambda>w. coinbase_attempts ?construct ts TRIES_COUNT 1 (ts + length w) tx0) = Inr (Some tx)"
    using assms unfolding template_coinbase_def Let_def bindR_eq_Inr_iff[of "construct_miner_tx _ _ _ _ _ _ _ _ _ _ _ _ _ _"]
    by (auto split: option.splits)
  then obtain w0 :: bytes where "coinbase_attempts ?construct ts TRIES_COUNT 1 (ts + length w0) tx0 = Inr (Some tx)"
    unfolding bindR_eq_Inr_iff[of "write_transaction tx0"] by blast
  then show ?thesis
  proof (rule coinbase_attempts_fit)
    fix n cs tx tx' assume "?construct n cs tx = Inr (Some tx')"
    then show "pays_for c v height median already fee cs tx'" by (auto simp: pays_for_def dest!: construct_miner_tx_pays)
  qed (auto simp: pays_for_def)
qed

section \<open>The chosen transactions\<close>

text \<open>The transactions of the template, in order.\<close>

definition pool_txs :: "mem_pool \<Rightarrow> bytes list \<Rightarrow> pool_transaction list" where
  "pool_txs p tids = map (\<lambda>tid. the (pool_map p tid)) tids"

definition picked_ok :: "chain_state \<Rightarrow> ledger \<Rightarrow> u32 \<Rightarrow> nat \<Rightarrow> picked \<Rightarrow> bool" where
  "picked_ok s L ht limit k \<longleftrightarrow>
     (let ts = pool_txs (m_pool s) (pk_hashes k); txs = map pool_tx ts
      in (\<forall>tid \<in> set (pk_hashes k). pool_map (m_pool s) tid \<noteq> None) \<and>
         pk_size k = sum_list (map (\<lambda>t. length (binary_tx t)) ts) \<and> pk_size k \<le> limit \<and>
         pk_fee k = sum_list (map pool_fee ts) \<and>
         delta_rel (state_view s) L ht (pk_delta k) (txs_view ht txs L) \<and>
         distinct (txs_kis txs) \<and> set (txs_kis txs) \<inter> dom (lg_keyimages L) = {})"

text \<open>What every transaction of the pool satisfies, since \<open>validate_semantic\<close> accepted it.\<close>

definition pool_txs_ok :: "mem_pool \<Rightarrow> bool" where
  "pool_txs_ok p \<longleftrightarrow> (\<forall>tid t. pool_map p tid = Some t \<longrightarrow>
     tx_shape (pool_tx t) \<and> length (inputs (pool_tx t)) \<le> length (signatures (pool_tx t)))"

definition pool_fits :: "ledger \<Rightarrow> mem_pool \<Rightarrow> bytes list \<Rightarrow> bool" where
  "pool_fits L p tids \<longleftrightarrow> (\<forall>a. length (lg_outputs L a) + length (txs_outs (map pool_tx (pool_txs p tids)) a) < 2 ^ 32)"

lemma pool_fits_sublist:
  assumes "pool_fits L p (as @ tid # bs)"
  shows "pool_fits L p (as @ bs)" and "pool_fits L p (as @ [tid])"
proof -
  have *: "length (lg_outputs L a) + (length (txs_outs (map pool_tx (pool_txs p as)) a) +
      (length (tx_outs (pool_tx (the (pool_map p tid))) a) + length (txs_outs (map pool_tx (pool_txs p bs)) a))) < 2 ^ 32" for a
    using assms by (simp add: pool_fits_def pool_txs_def)
  have "length (lg_outputs L a) + length (txs_outs (map pool_tx (pool_txs p (as @ bs))) a) < 2 ^ 32"
    and "length (lg_outputs L a) + length (txs_outs (map pool_tx (pool_txs p (as @ [tid]))) a) < 2 ^ 32" for a
    using *[of a] by (simp_all add: pool_txs_def)
  then show "pool_fits L p (as @ bs)" "pool_fits L p (as @ [tid])" by (simp_all add: pool_fits_def)
qed

lemma pick_transactions_ok:
  assumes "picked_ok s L ht limit k" and "pool_txs_ok (m_pool s)"
    and "\<forall>tid \<in> set tids. pool_map (m_pool s) tid \<noteq> None" and "pool_fits L (m_pool s) (pk_hashes k @ tids)"
  shows "\<exists>k'. pick_transactions C s limit k tids = Inr k' \<and> picked_ok s L ht limit k' \<and>
    (\<exists>ys. pk_hashes k' = pk_hashes k @ ys \<and> subseq ys tids)"
  using assms
proof (induction tids arbitrary: k)
  case (Cons tid tids)
  obtain t where t: "pool_map (m_pool s) tid = Some t" using Cons.prems(3) by auto
  have skip: ?case if "pick_transactions C s limit k (tid # tids) = pick_transactions C s limit k tids"
    using Cons.IH[OF Cons.prems(1,2)] Cons.prems(3) pool_fits_sublist(1)[OF Cons.prems(4)] that
    by (auto intro: subseq_Cons')
  let ?txs = "map pool_tx (pool_txs (m_pool s) (pk_hashes k))"
  note ok = Cons.prems(1)[unfolded picked_ok_def Let_def]
  have shape: "tx_shape (pool_tx t)" "length (inputs (pool_tx t)) \<le> length (signatures (pool_tx t))"
    using Cons.prems(2) t by (auto simp: pool_txs_ok_def)
  have sz: "\<forall>a. length (lg_outputs (txs_view ht ?txs L) a) + length (tx_outs (pool_tx t) a) < 2 ^ 32"
    using pool_fits_sublist(2)[OF Cons.prems(4)] t by (simp add: pool_fits_def pool_txs_def add.assoc)
  consider (big) "limit < pk_size k + length (binary_tx t)"
    | (failed) e where "pk_size k + length (binary_tx t) \<le> limit"
        "redo_transaction C (m_currency s) (state_view s) (pool_tx t) (pk_delta k) True = Inr (Inl e)"
    | (taken) d gis cf where "pk_size k + length (binary_tx t) \<le> limit"
        "redo_transaction C (m_currency s) (state_view s) (pool_tx t) (pk_delta k) True = Inr (Inr (d, gis, cf))"
        "delta_rel (state_view s) L ht d (txs_view ht [pool_tx t] (txs_view ht ?txs L))"
        "set (key_images (pool_tx t)) \<inter> dom (lg_keyimages (txs_view ht ?txs L)) = {}" "distinct (key_images (pool_tx t))"
    using redo_transaction_checked[OF conjunct1[OF conjunct2[OF conjunct2[OF conjunct2[OF conjunct2[OF ok]]]]] shape sz, of C "m_currency s"]
    by (metis leI)
  then show ?case
  proof cases
    case big
    then show ?thesis using skip t by simp
  next
    case failed
    then show ?thesis using skip t by (simp add: not_less[symmetric])
  next
    case taken
    define k1 where "k1 = \<lparr>pk_delta = d, pk_size = pk_size k + length (binary_tx t), pk_fee = pk_fee k + pool_fee t, pk_hashes = pk_hashes k @ [tid]\<rparr>"
    have "picked_ok s L ht limit k1"
      using ok taken t by (auto simp: picked_ok_def k1_def pool_txs_def Let_def txs_view_append)
    from Cons.IH[OF this Cons.prems(2)] show ?thesis
      using Cons.prems(3,4) taken(1,2) t by (auto simp: k1_def)
  qed
qed simp

section \<open>What the template contains\<close>

lemma clear_mining_same:
  "m_pool (clear_mining_transactions s) = m_pool s" "m_currency (clear_mining_transactions s) = m_currency s"
  "m_tip_height (clear_mining_transactions s) = m_tip_height s" "m_tip_bid (clear_mining_transactions s) = m_tip_bid s"
  "m_next_median_size (clear_mining_transactions s) = m_next_median_size s" "get_tip (clear_mining_transactions s) = get_tip s"
  "m_next_median_timestamp (clear_mining_transactions s) = m_next_median_timestamp s"
  "m_db (clear_mining_transactions s) = m_db s" "header_cache (clear_mining_transactions s) = header_cache s"
  "m_header_tip_window (clear_mining_transactions s) = m_header_tip_window s"
  "db_ledger (clear_mining_transactions s) L = db_ledger s L"
  by (simp_all add: clear_mining_transactions_def get_tip_def db_ledger_def)

lemma pool_hashes_in_pool:
  assumes "pool_ok p" and "tid \<in> set (pool_hashes p)"
  shows "\<exists>t. pool_map p tid = Some t"
proof -
  obtain f tids where "(f, tids) \<in> set (RBT.entries (memory_state_fee_tx p))" "tid \<in> set tids"
    using assms(2) by (auto simp: pool_hashes_def)
  then show ?thesis using assms(1) unfolding pool_ok_def fee_index_ok_def entries_lookup by blast
qed

lemma remember_mining_lookup:
  assumes "\<forall>tid \<in> set tids. pool_map p tid \<noteq> None"
  shows "(\<forall>tid. RBT.lookup m tid \<noteq> None \<longrightarrow> RBT.lookup (remember_mining p h tids m) tid \<noteq> None) \<and>
    (\<forall>tid \<in> set tids. RBT.lookup (remember_mining p h tids m) tid \<noteq> None)"
  using assms
proof (induction tids arbitrary: m)
  case (Cons tid tids)
  obtain t where t: "pool_map p tid = Some t" using Cons.prems by auto
  define m' where "m' = (if RBT.lookup m tid = None then RBT.insert tid (binary_tx t, h) m else m)"
  have "remember_mining p h (tid # tids) m = remember_mining p h tids m'" using t by (simp add: remember_mining_def m'_def)
  moreover have "RBT.lookup m' tid \<noteq> None" "\<And>i. RBT.lookup m i \<noteq> None \<Longrightarrow> RBT.lookup m' i \<noteq> None" by (auto simp: m'_def)
  ultimately show ?case using Cons.IH[of m'] Cons.prems by auto
qed (simp add: remember_mining_def)

lemma mined_transactions_some:
  assumes "\<forall>tid \<in> set tids. RBT.lookup (m_mining_transactions s) tid \<noteq> None"
  shows "mined_transactions s tids \<noteq> None"
  using assms by (induction tids) (auto split: option.splits)

lemma mined_transactions_pool:
  assumes "\<forall>tid \<in> set tids. pool_map (m_pool s) tid \<noteq> None"
  shows "mined_transactions s tids = Some (map binary_tx (pool_txs (m_pool s) tids))"
  using assms by (induction tids) (auto simp: pool_txs_def)

text \<open>The parts of a template that was returned.\<close>

lemma template_parts:
  assumes "create_mining_block_template C M adr xn s = Inr (Some (b, d, h), s')"
  obtains b0 tip limit k tx where
    "template_difficulty (clear_mining_transactions s) = Inr d" "d \<noteq> 0" "h = m_tip_height s + 1"
    "template_versions (m_currency s) h = Some b0" "get_tip s = Inr tip"
    "max_total_size (m_currency s) h (max (m_next_median_size s) (block_granted_full_reward_zone_by_block_version (m_currency s) (major_version b0))) = Inr limit"
    "pick_transactions C (clear_mining_transactions s) (unat limit)
       \<lparr>pk_delta = new_delta h (max (mn_now M) (m_next_median_timestamp s)), pk_size = 0, pk_fee = 0, pk_hashes = []\<rparr>
       (rev (pool_hashes (m_pool s))) = Inr k"
    "template_coinbase M (m_currency s) (major_version b0) h
       (max (m_next_median_size s) (block_granted_full_reward_zone_by_block_version (m_currency s) (major_version b0)))
       (hd_already_generated_coins tip) adr xn (pk_size k) (pk_fee k) = Inr (Some tx)"
    "b = b0\<lparr>previous_block_hash := m_tip_bid s, timestamp := max (mn_now M) (m_next_median_timestamp s), base_tx := tx,
            transaction_hashes := pk_hashes k\<rparr>"
    "s' = (clear_mining_transactions s)\<lparr>m_mining_transactions :=
            remember_mining (m_pool s) h (pk_hashes k) (m_mining_transactions (clear_mining_transactions s))\<rparr>"
  using assms
  by (auto simp: create_mining_block_template_def Let_def bindR_eq_Inr_iff clear_mining_same split: if_splits option.splits)

lemma template_versions_major: "template_versions c h = Some b \<Longrightarrow> major_version b = get_block_major_version_for_height c h"
  by (auto simp: template_versions_def Let_def append_merge_mining_tag_to_extra_def split: if_splits)

lemma template_chosen:
  assumes t: "create_mining_block_template C M adr xn s = Inr (Some (b, d, h), s')"
    and l: "db_ledger s L" and ok: "pool_txs_ok (m_pool s)" and fits: "pool_fits L (m_pool s) (rev (pool_hashes (m_pool s)))"
  obtains k tip limit w where
    "picked_ok (clear_mining_transactions s) L h (unat limit) k" "transaction_hashes b = pk_hashes k" "get_tip s = Inr tip" "h = m_tip_height s + 1"
    "major_version b = get_block_major_version_for_height (m_currency s) h"
    "max_total_size (m_currency s) h (max (m_next_median_size s) (block_granted_full_reward_zone_by_block_version (m_currency s) (major_version b))) = Inr limit"
    "write_transaction (base_tx b) = Inr w"
    "pays_for (m_currency s) (major_version b) h
       (max (m_next_median_size s) (block_granted_full_reward_zone_by_block_version (m_currency s) (major_version b)))
       (hd_already_generated_coins tip) (pk_fee k) (pk_size k + length w) (base_tx b)"
    "s' = (clear_mining_transactions s)\<lparr>m_mining_transactions :=
            remember_mining (m_pool s) h (pk_hashes k) (m_mining_transactions (clear_mining_transactions s))\<rparr>"
proof -
  obtain b0 tip limit k tx where p: "h = m_tip_height s + 1" "template_versions (m_currency s) h = Some b0" "get_tip s = Inr tip"
    "max_total_size (m_currency s) h (max (m_next_median_size s) (block_granted_full_reward_zone_by_block_version (m_currency s) (major_version b0))) = Inr limit"
    "pick_transactions C (clear_mining_transactions s) (unat limit)
       \<lparr>pk_delta = new_delta h (max (mn_now M) (m_next_median_timestamp s)), pk_size = 0, pk_fee = 0, pk_hashes = []\<rparr>
       (rev (pool_hashes (m_pool s))) = Inr k"
    "template_coinbase M (m_currency s) (major_version b0) h
       (max (m_next_median_size s) (block_granted_full_reward_zone_by_block_version (m_currency s) (major_version b0)))
       (hd_already_generated_coins tip) adr xn (pk_size k) (pk_fee k) = Inr (Some tx)"
    "b = b0\<lparr>previous_block_hash := m_tip_bid s, timestamp := max (mn_now M) (m_next_median_timestamp s), base_tx := tx,
            transaction_hashes := pk_hashes k\<rparr>"
    "s' = (clear_mining_transactions s)\<lparr>m_mining_transactions :=
            remember_mining (m_pool s) h (pk_hashes k) (m_mining_transactions (clear_mining_transactions s))\<rparr>"
    using template_parts[OF t] by metis
  let ?s = "clear_mining_transactions s"
  let ?k0 = "\<lparr>pk_delta = new_delta h (max (mn_now M) (m_next_median_timestamp s)), pk_size = 0, pk_fee = 0, pk_hashes = []\<rparr>"
  have "ledger_view L (state_view ?s)" using db_ledger_view[of ?s L] l by (simp add: clear_mining_same)
  then have k0: "picked_ok ?s L h (unat limit) ?k0"
    by (simp add: picked_ok_def pool_txs_def txs_view_Nil new_delta_rel)
  have "\<forall>tid \<in> set (rev (pool_hashes (m_pool s))). pool_map (m_pool ?s) tid \<noteq> None"
    using pool_hashes_in_pool[of "m_pool s"] l by (auto simp: clear_mining_same db_ledger_def)
  from pick_transactions_ok[OF k0 _ this, of C] have "picked_ok ?s L h (unat limit) k"
    using ok fits p(5) by (auto simp: clear_mining_same)
  moreover obtain w where "write_transaction tx = Inr w" "pays_for (m_currency s) (major_version b0) h
       (max (m_next_median_size s) (block_granted_full_reward_zone_by_block_version (m_currency s) (major_version b0)))
       (hd_already_generated_coins tip) (pk_fee k) (pk_size k + length w) tx"
    using template_coinbase_pays[OF p(6)] by blast
  ultimately show thesis using that[of limit k tip w] p(1,3,4,7,8) template_versions_major[OF p(2)] by simp
qed

section \<open>The checks that a template passes\<close>

lemma check_tx_sizes_pass:
  assumes "xs \<noteq> [] \<longrightarrow> max_transaction_allowed_size c (hd_effective_size_median info) = Inr limit"
    and "\<forall>(raw, tx, tid) \<in> set xs. length raw \<le> unat limit \<and> get_transaction_hash tx = Inr tid"
  shows "check_tx_sizes c info xs = Inr (Inr (sum_list (map (length \<circ> fst) xs)))"
  using assms by (induction xs) (auto simp: bindC_def check_that_def)

lemma sum_fees_pass:
  assumes "\<forall>t \<in> set ts. get_tx_fee (pool_tx t) = Some (pool_fee t)"
  shows "sum_fees info f (map pool_tx ts) = Inr (Inr (f + sum_list (map pool_fee ts)))"
  using assms by (induction ts arbitrary: f) (auto simp: add.assoc)

lemma check_semantics_pass:
  assumes "\<forall>tx \<in> set txs. \<exists>fee. validate_semantic C False tx ck = Inr fee"
  shows "check_semantics C ck info txs = Inr (Inr ())"
  using assms by (induction txs) (auto simp: bindC_def lift_error_def)

lemma tip_segment_clear: "get_tip_segment (clear_mining_transactions s) tip n g = get_tip_segment s tip n g"
proof -
  have "read_header_db (clear_mining_transactions s) bid = read_header_db s bid" for bid
    unfolding read_header_db_def clear_mining_same by (rule refl)
  moreover have "window_candidate (clear_mining_transactions s) hint = window_candidate s hint" for hint
    unfolding window_candidate_def clear_mining_same by (rule refl)
  ultimately have "read_header_or_fail (clear_mining_transactions s) bid hint = read_header_or_fail s bid hint" for bid hint
    by (simp only: read_header_or_fail_def read_header_def)
  then have "tip_segment_loop (clear_mining_transactions s) n pi = tip_segment_loop s n pi" for n pi
    by (induction n arbitrary: pi) simp_all
  then show ?thesis by (simp add: get_tip_segment_def)
qed

text \<open>The sizes in a template do not wrap around.\<close>

definition room_ok :: "currency \<Rightarrow> u32 \<Rightarrow> u32 \<Rightarrow> bool" where
  "room_ok c em maxcum \<longleftrightarrow> unat em * 125 < 2 ^ 32 \<and> 2 * unat em \<le> unat (max_tx_size c) \<and> 0 < em \<and>
     miner_tx_blob_reserved_size c \<le> min (125 * em div 100) maxcum"

lemma room_sizes:
  assumes "room_ok c em maxcum" and "limit = min (125 * em div 100) maxcum - miner_tx_blob_reserved_size c"
  shows "unat limit + unat (miner_tx_blob_reserved_size c) \<le> unat maxcum"
    and "\<exists>lim. max_transaction_allowed_size c em = Inr lim \<and> unat limit \<le> unat lim"
proof -
  let ?r = "miner_tx_blob_reserved_size c" and ?q = "125 * em div 100"
  have e: "unat (125 * em) = 125 * unat em" using assms(1) by (simp add: room_ok_def unat_word_ariths)
  then have q: "unat ?q = 125 * unat em div 100" by (simp add: unat_div_distrib)
  have t: "unat (em * 2) = unat em * 2" using assms(1) by (simp add: room_ok_def unat_word_ariths)
  have em: "0 < unat em" using assms(1) by (simp add: room_ok_def word_less_nat_alt)
  have r: "?r \<le> ?q" "?r \<le> maxcum" "?r \<le> min ?q maxcum" using assms(1) by (auto simp: room_ok_def)
  have l: "unat limit = unat (min ?q maxcum) - unat ?r" unfolding assms(2) by (rule unat_sub[OF r(3)])
  have m: "unat (min ?q maxcum) \<le> unat ?q" "unat (min ?q maxcum) \<le> unat maxcum" "unat ?r \<le> unat (min ?q maxcum)"
    using r(3) by (simp_all add: word_le_nat_alt[symmetric])
  show "unat limit + unat ?r \<le> unat maxcum" using l m(2,3) by linarith
  have rr: "unat ?r \<le> 125 * unat em div 100" using r(1) q by (simp add: word_le_nat_alt)
  then have "unat ?r < unat em * 2" using em by linarith
  then have lt: "?r < em * 2" using t by (simp add: word_less_nat_alt)
  then have s: "unat (em * 2 - ?r) = unat em * 2 - unat ?r" using unat_sub[of ?r "em * 2"] t by simp
  have "unat limit \<le> 125 * unat em div 100 - unat ?r" using l m(1) q by linarith
  moreover have "125 * unat em div 100 \<le> 2 * unat em" by linarith
  moreover have "2 * unat em \<le> unat (max_tx_size c)" using assms(1) by (simp add: room_ok_def)
  ultimately have "unat limit \<le> unat (max_tx_size c)" "unat limit \<le> unat (em * 2 - ?r)"
    unfolding s by linarith+
  then show "\<exists>lim. max_transaction_allowed_size c em = Inr lim \<and> unat limit \<le> unat lim"
    using lt by (simp add: max_transaction_allowed_size_def min_def)
qed

text \<open>The transactions of the pool were accepted under their hashes.\<close>

definition pool_accepted :: "crypto_lib \<Rightarrow> mem_pool \<Rightarrow> bool" where
  "pool_accepted C p \<longleftrightarrow> (\<forall>tid t. pool_map p tid = Some t \<longrightarrow>
     tx_shape (pool_tx t) \<and> get_transaction_hash (pool_tx t) = Inr tid \<and> validate_semantic C False (pool_tx t) True = Inr (pool_fee t))"

lemma pool_accepted_ok: "pool_accepted C p \<Longrightarrow> pool_txs_ok p"
  unfolding pool_accepted_def pool_txs_ok_def by (metis order_refl validate_semantic_ok(7))

text \<open>A block made of a template: its nonce and merge mining part are filled in, its transactions are those of the pool.\<close>

definition solved :: "mem_pool \<Rightarrow> block_template \<Rightarrow> prepared_block \<Rightarrow> bool" where
  "solved p b pb \<longleftrightarrow>
     (\<exists>n pa. bl_header (prep_block pb) = b\<lparr>nonce := n, parent := pa\<rparr> \<and> \<not> (major_version b = 2 \<and> 1 < pb_major_version pa)) \<and>
     bl_transactions (prep_block pb) = map pool_tx (pool_txs p (transaction_hashes b)) \<and>
     rb_transactions (prep_raw_block pb) = map binary_tx (pool_txs p (transaction_hashes b)) \<and>
     (\<forall>w. write_transaction (base_tx b) = Inr w \<longrightarrow> prep_coinbase_tx_size pb = length w) \<and> prep_parent_block_size pb \<le> 2048"

lemma unat_word_of_nat_u32: "n < 2 ^ 32 \<Longrightarrow> unat (word_of_nat n :: u32) = n"
  by (simp add: unat_of_nat)

lemma block_size_pass:
  assumes "m_tip_bid s = hd_hash tip" and "room_ok (m_currency s) em maxcum" and "max_block_cumulative_size (m_currency s) (hd_height info) = Inr maxcum"
    and em: "em = max (m_next_median_size s) (block_granted_full_reward_zone_by_block_version (m_currency s) (major_version (bl_header (prep_block pb))))"
    and limit: "limit = min (125 * em div 100) maxcum - miner_tx_blob_reserved_size (m_currency s)"
    and acc: "pool_accepted C p" and inp: "\<forall>tid \<in> set tids. pool_map p tid \<noteq> None"
    and sz: "sum_list (map (\<lambda>t. length (binary_tx t)) (pool_txs p tids)) \<le> unat limit"
    and w: "prep_coinbase_tx_size pb \<le> unat (miner_tx_blob_reserved_size (m_currency s))"
    and pb: "transaction_hashes (bl_header (prep_block pb)) = tids" "bl_transactions (prep_block pb) = map pool_tx (pool_txs p tids)"
      "rb_transactions (prep_raw_block pb) = map binary_tx (pool_txs p tids)"
  shows "\<exists>info2. check_block_size pb info tip s = Inr (Inr (info2, sum_list (map (\<lambda>t. length (binary_tx t)) (pool_txs p tids)))) \<and>
    hd_height info2 = hd_height info \<and> hd_timestamp_median info2 = m_next_median_timestamp s \<and> hd_effective_size_median info2 = em \<and>
    hd_hash info2 = hd_hash info \<and> unat (hd_block_size info2) =
      prep_coinbase_tx_size pb + sum_list (map (\<lambda>t. length (binary_tx t)) (pool_txs p tids))"
proof -
  let ?ts = "pool_txs p tids" and ?c = "m_currency s"
  let ?xs = "zip (map binary_tx ?ts) (zip (map pool_tx ?ts) tids)"
  let ?sum = "sum_list (map (\<lambda>t. length (binary_tx t)) ?ts)"
  obtain lim where lim: "max_transaction_allowed_size ?c em = Inr lim" "unat limit \<le> unat lim" using room_sizes(2)[OF assms(2) limit] by blast
  define info1 where "info1 = info\<lparr>hd_size_median := m_next_median_size s, hd_timestamp_median := m_next_median_timestamp s, hd_effective_size_median := em\<rparr>"
  have xs: "?xs = map (\<lambda>tid. (binary_tx (the (pool_map p tid)), pool_tx (the (pool_map p tid)), tid)) tids"
    by (simp add: pool_txs_def zip_map1 zip_map2 zip_same_conv_map comp_def)
  have small: "length (binary_tx (the (pool_map p tid))) \<le> ?sum" if "tid \<in> set tids" for tid
    using that by (intro member_le_sum_list) (auto simp: pool_txs_def)
  have "check_tx_sizes ?c info1 ?xs = Inr (Inr (sum_list (map (length \<circ> fst) ?xs)))"
  proof (rule check_tx_sizes_pass)
    show "?xs \<noteq> [] \<longrightarrow> max_transaction_allowed_size ?c (hd_effective_size_median info1) = Inr lim" using lim(1) by (simp add: info1_def)
    show "\<forall>(raw, tx, tid) \<in> set ?xs. length raw \<le> unat lim \<and> get_transaction_hash tx = Inr tid"
      using acc inp small sz lim(2) unfolding xs by (fastforce simp: pool_accepted_def)
  qed
  moreover have "map (length \<circ> fst) ?xs = map (\<lambda>t. length (binary_tx t)) ?ts" unfolding xs by (simp add: pool_txs_def comp_def)
  ultimately have ts: "check_tx_sizes ?c info1 ?xs = Inr (Inr ?sum)" by simp
  have le: "prep_coinbase_tx_size pb + ?sum \<le> unat maxcum" using room_sizes(1)[OF assms(2) limit] w sz by linarith
  then have u: "unat (word_of_nat (prep_coinbase_tx_size pb + ?sum) :: u32) = prep_coinbase_tx_size pb + ?sum"
    using le_less_trans[OF le u32_less] by (intro unat_word_of_nat_u32) simp
  then have "(word_of_nat (prep_coinbase_tx_size pb + ?sum) :: u32) \<le> maxcum" using le by (simp add: word_le_nat_alt)
  then show ?thesis using assms(1,3) ts u em
    by (simp add: check_block_size_def Let_def bindC_def check_that_def pb info1_def[symmetric] pool_txs_def[of p tids] length_map)
      (simp add: info1_def)
qed

lemma base_reward_defined:
  assumes "get_block_reward c v (ucast (em :: u32)) n ac fee = Inr x"
  shows "\<exists>y. get_block_reward c v (ucast em) 0 ac 0 = Inr y"
proof -
  have "unat em \<le> 4294967295" using u32_less[of em] by linarith
  then have "(ucast em :: u64) \<le> 0xFFFFFFFF" by (simp add: word_le_nat_alt unat_ucast_u32)
  moreover have "get_penalized_amount a (ucast em) 0 = Inr (if a = 0 then 0 else a)" if "(ucast em :: u64) \<le> 0xFFFFFFFF" for a
    using that by (simp add: get_penalized_amount_def)
  ultimately show ?thesis using assms by (auto simp: get_block_reward_def split: if_splits)
qed

lemma check_form_pass:
  assumes "bl_header (prep_block pb) = b\<lparr>nonce := n, parent := pa\<rparr>" and "\<not> (major_version b = 2 \<and> 1 < pb_major_version pa)"
    and "prep_parent_block_size pb \<le> 2048" and "major_version b = get_block_major_version_for_height (m_currency s) (hd_height info)"
    and "timestamp b \<le> e_now E + get_block_future_time_limit (m_currency s) (m_tip_height s + 1)" and "hd_timestamp_median info \<le> timestamp b"
    and "inputs (base_tx b) = [CoinbaseInput (hd_height info)]"
    and "unlock_time (base_tx b) = ucast (hd_height info + mined_money_unlock_window (m_currency s))"
  shows "check_block_form E pb info s = Inr (Inr ())"
  using assms by (auto simp: check_block_form_def Let_def bindC_def check_that_def)

lemma check_reward_pass:
  assumes "get_block_reward c v (ucast em) (word_of_nat n) ac fee = Inr (reward, ec)" and "c = m_currency s"
    and "v = major_version (bl_header (prep_block pb))" and "ac = hd_already_generated_coins tip"
    and "hd_effective_size_median info = em" and "unat (hd_block_size info) = n" and "miner_reward = reward"
    and "\<forall>t \<in> set ts. get_tx_fee (pool_tx t) = Some (pool_fee t)" and "bl_transactions (prep_block pb) = map pool_tx ts"
    and "fee = sum_list (map pool_fee ts)"
  shows "\<exists>info3. check_reward pb cs miner_reward info tip s = Inr (Inr info3)"
proof -
  obtain base e where b: "get_block_reward c v (ucast em) 0 ac 0 = Inr (base, e)" using base_reward_defined[OF assms(1)] by (metis surj_pair)
  have "(ucast (hd_block_size info) :: u64) = word_of_nat n" using assms(6) by (metis of_nat_unat)
  then have r: "get_block_reward c v (ucast em) (ucast (hd_block_size info)) ac (0 + sum_list (map pool_fee ts)) = Inr (reward, ec)"
    using assms(1,10) by simp
  show ?thesis using b r assms(7)
    by (simp add: check_reward_def Let_def assms(2-5)[symmetric] assms(9) sum_fees_pass[OF assms(8)] bindC_def check_that_def)
qed

lemma check_difficulty_pass:
  assumes "template_difficulty (clear_mining_transactions s) = Inr d" and "d \<noteq> 0" and "get_tip s = Inr tip" and "hd_height tip = m_tip_height s"
    and "next_difficulty (m_currency s) (m_tip_height s) = next_difficulty (m_currency s) (m_tip_height s + 1)"
  shows "check_difficulty info tip s = Inr (Inr (info\<lparr>hd_difficulty := d, hd_cumulative_difficulty := hd_cumulative_difficulty tip + d\<rparr>))"
  using assms(1-4)
  by (auto simp: template_difficulty_def check_difficulty_def Let_def clear_mining_same tip_segment_clear bindR_eq_Inr_iff assms(5)
      bindC_def check_that_def)

lemma mining_template_passes:
  assumes t: "create_mining_block_template C M adr xn s = Inr (Some (b, d, h), s')"
    and l: "db_ledger s L" and acc: "pool_accepted C (m_pool s)" and fits: "pool_fits L (m_pool s) (rev (pool_hashes (m_pool s)))"
    and tip: "get_tip s = Inr tip" "hd_height tip = m_tip_height s"
    and w: "write_transaction (base_tx b) = Inr w" "length w \<le> unat (miner_tx_blob_reserved_size (m_currency s))"
    and em: "em = max (m_next_median_size s) (block_granted_full_reward_zone_by_block_version (m_currency s) (major_version b))"
    and room: "max_block_cumulative_size (m_currency s) h = Inr maxcum" "room_ok (m_currency s) em maxcum"
    and pb: "solved (m_pool s) b pb" and info: "hd_height info = h"
    and time: "timestamp b \<le> e_now E + get_block_future_time_limit (m_currency s) h"
    and keys: "e_crypto E = C" "\<forall>v \<in> set (outputs (base_tx b)). c_key_isvalid C (out_key (out_target v))"
    and zone: "is_in_sw_checkpoint_zone (m_currency s) h = Inr False"
    and alg: "next_difficulty (m_currency s) (m_tip_height s) = next_difficulty (m_currency s) (m_tip_height s + 1)"
  shows "\<exists>info'. check_standalone_consensus E pb info tip False s = Inr ([], info')"
proof -
  let ?c = "m_currency s" and ?p = "m_pool s" and ?tids = "transaction_hashes b"
  let ?ts = "pool_txs ?p ?tids"
  obtain k tip' limit w' where k: "picked_ok (clear_mining_transactions s) L h (unat limit) k" "?tids = pk_hashes k" "get_tip s = Inr tip'"
    "h = m_tip_height s + 1" "major_version b = get_block_major_version_for_height ?c h" "max_total_size ?c h em = Inr limit"
    "write_transaction (base_tx b) = Inr w'" "pays_for ?c (major_version b) h em (hd_already_generated_coins tip') (pk_fee k) (pk_size k + length w') (base_tx b)"
    using template_chosen[OF t l pool_accepted_ok[OF acc] fits] unfolding em[symmetric] by metis
  have [simp]: "tip' = tip" "w' = w" using k(3,7) tip(1) w(1) by simp_all
  have inp: "\<forall>tid \<in> set ?tids. pool_map ?p tid \<noteq> None" and size: "pk_size k = sum_list (map (\<lambda>t. length (binary_tx t)) ?ts)"
    "pk_size k \<le> unat limit" and fee: "pk_fee k = sum_list (map pool_fee ?ts)"
    using k(1) by (simp_all add: picked_ok_def Let_def clear_mining_same k(2))
  have limit: "limit = min (125 * em div 100) maxcum - miner_tx_blob_reserved_size ?c" using k(6) room(1) by (simp add: max_total_size_def)
  obtain n pa where h: "bl_header (prep_block pb) = b\<lparr>nonce := n, parent := pa\<rparr>" "\<not> (major_version b = 2 \<and> 1 < pb_major_version pa)"
    and txs: "bl_transactions (prep_block pb) = map pool_tx ?ts" "rb_transactions (prep_raw_block pb) = map binary_tx ?ts"
    and cb: "prep_coinbase_tx_size pb = length w" and pp: "prep_parent_block_size pb \<le> 2048"
    using pb w(1) by (auto simp: solved_def)
  have tipb: "m_tip_bid s = hd_hash tip" using tip(1) by (auto simp: get_tip_def split: if_splits)
  obtain info2 where i2: "check_block_size pb info tip s = Inr (Inr (info2, pk_size k))" "hd_height info2 = h"
    "hd_timestamp_median info2 = m_next_median_timestamp s" "hd_effective_size_median info2 = em"
    "unat (hd_block_size info2) = pk_size k + length w"
    using block_size_pass[OF tipb room(2), where info = info and limit = limit and C = C and p = ?p and tids = ?tids and pb = pb] em limit acc inp size w(2) room(1) info h(1) txs cb by auto
  have pays: "inputs (base_tx b) = [CoinbaseInput h]" "unlock_time (base_tx b) = ucast (h + mined_money_unlock_window ?c)"
    using k(8) by (simp_all add: pays_for_def)
  obtain reward ec where r: "get_block_reward ?c (major_version b) (ucast em) (word_of_nat (pk_size k + length w)) (hd_already_generated_coins tip) (pk_fee k) = Inr (reward, ec)"
    "amounts_sum (map out_amount (outputs (base_tx b))) = unat reward" "0 \<notin> out_amount ` set (outputs (base_tx b))"
    using k(8) by (auto simp: pays_for_def)
  obtain ts: "timestamp b = max (mn_now M) (m_next_median_timestamp s)" and d: "template_difficulty (clear_mining_transactions s) = Inr d" "d \<noteq> 0"
    by (rule template_parts[OF t]) simp
  have form: "check_block_form E pb info2 s = Inr (Inr ())"
    using check_form_pass[OF h pp, of s info2 E] i2(2,3) k(4,5) time pays ts by simp
  have outs: "\<forall>v \<in> set (outputs (base_tx b)). out_amount v \<noteq> 0 \<and> c_key_isvalid C (out_key (out_target v))"
    using keys(2) r(3) by (metis imageI)
  have "unat (0 :: u64) + amounts_sum (map out_amount (outputs (base_tx b))) < 2 ^ 64" unfolding r(2) using u64_less[of reward] by simp
  then obtain mr where mr: "validate_outputs C True 0 (outputs (base_tx b)) = Inr mr" "unat mr = unat reward"
    using validate_outputs_pass[OF outs, of 0 True] unfolding r(2) by auto
  have mr2: "mr = reward" using mr(2) word_unat_eq_iff[of mr reward] by simp
  let ?i3 = "info2\<lparr>hd_difficulty := d, hd_cumulative_difficulty := hd_cumulative_difficulty tip + d\<rparr>"
  have fees: "\<forall>t \<in> set ?ts. get_tx_fee (pool_tx t) = Some (pool_fee t)" "\<forall>tx \<in> set (map pool_tx ?ts). \<exists>fee. validate_semantic C False tx True = Inr fee"
    using acc inp validate_semantic_fee unfolding pool_accepted_def pool_txs_def by fastforce+
  obtain info3 where i3: "check_reward pb (pk_size k) mr ?i3 tip s = Inr (Inr info3)"
    using check_reward_pass[OF r(1), of s pb tip ?i3 mr ?ts "pk_size k"] mr2 i2(4,5) fees(1) txs(1) fee h(1) by auto
  have "check_consensus E pb info tip False s = Inr (Inr info3)"
    using i2(1,2) form zone mr(1) h(1) check_difficulty_pass[OF d tip alg, of info2] i3 check_semantics_pass[OF fees(2), of info3] txs(1) keys(1)
    by (simp add: check_consensus_def bindC_def lift_error_def check_work_def Let_def)
  then show ?thesis by (simp add: check_standalone_consensus_def)
qed

section \<open>Properties\<close>

text \<open>
  C25: the miner and the validator agree. A block template that \<open>create_mining_block_template\<close> returns, with its nonce and merge mining
  part filled in and its transactions added, passes every check of \<open>check_standalone_consensus\<close> on the state it was made from, apart
  from the proof of work: sizes, versions, times, the coinbase and its reward for the size of the block, fees and semantics.
  The hypotheses say that the pool holds accepted transactions, that the coinbase has at most the reserved size, that the clock is
  not behind and that the next block is not the first one of another difficulty algorithm.
\<close>

theorem mining_template_accepted:
  assumes "create_mining_block_template C M adr xn s = Inr (Some (b, d, h), s')"
    and "db_ledger s L" and "pool_accepted C (m_pool s)" and "pool_fits L (m_pool s) (rev (pool_hashes (m_pool s)))"
    and "get_tip s = Inr tip" and "hd_height tip = m_tip_height s"
    and "write_transaction (base_tx b) = Inr w" and "length w \<le> unat (miner_tx_blob_reserved_size (m_currency s))"
    and "em = max (m_next_median_size s) (block_granted_full_reward_zone_by_block_version (m_currency s) (major_version b))"
    and "max_block_cumulative_size (m_currency s) h = Inr maxcum" and "room_ok (m_currency s) em maxcum"
    and "solved (m_pool s) b pb" and "hd_height info = h"
    and "timestamp b \<le> e_now E + get_block_future_time_limit (m_currency s) h"
    and "e_crypto E = C" and "\<forall>v \<in> set (outputs (base_tx b)). c_key_isvalid C (out_key (out_target v))"
    and "is_in_sw_checkpoint_zone (m_currency s) h = Inr False"
    and "next_difficulty (m_currency s) (m_tip_height s) = next_difficulty (m_currency s) (m_tip_height s + 1)"
  shows "\<exists>info'. check_standalone_consensus E pb info tip False s = Inr ([], info')"
  by (rule mining_template_passes[OF assms])

definition mine_tip :: api_block_header where
  "mine_tip = empty_api_header\<lparr>hd_hash := replicate 32 1, hd_already_generated_coins := - 1\<rparr>"

definition sample_address :: account_public_address where
  "sample_address = \<lparr>spend_public_key = replicate 32 2, view_public_key = replicate 32 3\<rparr>"

definition mine_state :: chain_state where
  "mine_state = fresh_state\<lparr>m_tip_bid := replicate 32 1, m_tip_height := 0, m_header_tip_window := [mine_tip]\<rparr>"

definition sample_miner :: miner_env where
  "sample_miner = \<lparr>mn_now = 0, mn_key = (\<lambda>_. (replicate 32 1, [])), mn_derivation = (\<lambda>_ _. Some []), mn_derive = (\<lambda>_ _ _. Some (replicate 32 1))\<rparr>"

definition sample_mined :: transaction where
  "sample_mined = \<lparr>version = 1, unlock_time = 11, inputs = [CoinbaseInput 1], outputs = [], extra = 1 # replicate 32 1, signatures = []\<rparr>"

lemma mine_state_parts [simp]:
  "m_currency mine_state = mk_currency True (replicate 32 0) []" "m_pool mine_state = empty_pool" "m_tip_height mine_state = 0"
  "m_next_median_size mine_state = 0" "m_next_median_timestamp mine_state = 0" "m_tip_bid mine_state = replicate 32 1"
  "get_tip mine_state = Inr mine_tip" "m_mining_transactions mine_state = RBT.empty"
  by (simp_all add: mine_state_def fresh_state_def sample_state_def block_chain.defs chain_state.defs get_tip_def mine_tip_def)

lemma sample_mined_size: "\<exists>w. write_transaction sample_mined = Inr w \<and> length w = 40"
  by (simp add: write_transaction_def sig_size_def is_base_def sample_mined_def write_prefix_def write_container_def write_input_def
      write_u8_def write_u32_def write_u64_def write_varint_stream_def write_varint.simps write_binary_array_def Let_def)

lemma sample_reward: "n \<le> 20000 \<Longrightarrow> get_block_reward (mk_currency True (replicate 32 0) []) 2 20000 (word_of_nat n) (- 1) 0 = Inr (0, 0)"
proof -
  assume "n \<le> 20000"
  then have "(word_of_nat n :: u64) \<le> 20000" by (simp add: word_le_nat_alt unat_of_nat)
  then have "(word_of_nat n :: u64) \<le> 40000" "(word_of_nat n :: u64) \<le> 0xFFFFFFFF" by (simp_all add: word_le_nat_alt)
  moreover have "(- 1 :: u64) \<le> 18446744073709551615" by (simp add: word_le_nat_alt unsigned_minus_1_eq_mask mask_eq_exp_minus_1)
  ultimately show ?thesis by (simp add: get_block_reward_def mk_currency_def Let_def calc_base_reward_def get_penalized_amount_def)
qed

lemma sample_construct:
  assumes "n \<le> 20000" and "signatures tx = []"
  shows "construct_miner_tx (mk_currency True (replicate 32 0) []) (replicate 32 1, []) der dpk 2 1 20000 (- 1) (word_of_nat n) 0 adr
    tx [] 11 = Inr (Some sample_mined)"
proof -
  have "merge_outs 11 [] = []" by (subst merge_outs.simps) simp
  moreover have "mined_money_unlock_window (mk_currency True (replicate 32 0) []) = 10" "current_transaction_version (mk_currency True (replicate 32 0) []) = 1"
    by (simp_all add: mk_currency_def Let_def)
  ultimately show ?thesis using sample_reward[OF assms(1)] assms(2)
    by (simp add: construct_miner_tx_def Let_def decompose_amount_def add_transaction_public_key_to_extra_def sample_mined_def)
qed

lemma coinbase_attempts_first:
  assumes "construct n cs tx = Inr (Some tx1)" and "fit_coinbase ts cs tx1 = Inr (Finished r)" and "0 < tries"
  shows "coinbase_attempts construct ts tries n cs tx = Inr r"
  using assms by (cases tries) simp_all

lemma sample_template_coinbase:
  "template_coinbase sample_miner (mk_currency True (replicate 32 0) []) 2 1 20000 (- 1) adr [] 0 0 = Inr (Some sample_mined)"
proof -
  obtain w where w: "write_transaction sample_mined = Inr w" "length w = 40" using sample_mined_size by blast
  have c: "construct_miner_tx (mk_currency True (replicate 32 0) []) (mn_key sample_miner n) (mn_derivation sample_miner) (mn_derive sample_miner) 2 1
      (ucast (20000 :: u32)) (- 1) (word_of_nat k) 0 adr tx [] 11 = Inr (Some sample_mined)" if "k \<le> 20000" "signatures tx = []" for n k tx
    using sample_construct[OF that] by (simp add: sample_miner_def)
  have "signatures sample_mined = []" "signatures empty_transaction = []" by (simp_all add: sample_mined_def empty_transaction_def)
  moreover have "fit_coinbase 0 40 sample_mined = Inr (Finished (Some sample_mined))" using w by (simp add: fit_coinbase_def)
  moreover have "0 < TRIES_COUNT" by (simp add: TRIES_COUNT_def)
  ultimately show ?thesis
    using c[of 0 empty_transaction 0] c[of 40 sample_mined 1] w by (simp add: template_coinbase_def Let_def coinbase_attempts_first)
qed

definition sample_template :: block_template where
  "sample_template = (the (template_versions (mk_currency True (replicate 32 0) []) 1))
     \<lparr>previous_block_hash := replicate 32 1, timestamp := 0, base_tx := sample_mined, transaction_hashes := []\<rparr>"

lemma mine_sizes:
  "get_block_major_version_for_height (mk_currency True (replicate 32 0) []) 1 = 2"
  "block_granted_full_reward_zone_by_block_version (mk_currency True (replicate 32 0) []) 2 = 20000"
  "max_block_cumulative_size (mk_currency True (replicate 32 0) []) 1 = Inr 20480"
  "max_total_size (mk_currency True (replicate 32 0) []) 1 20000 = Inr 19880"
  by code_simp+

lemma sample_versions:
  "\<exists>b. template_versions (mk_currency True (replicate 32 0) []) 1 = Some b \<and> major_version b = 2 \<and> pb_major_version (parent b) = 1"
  by (simp add: template_versions_def Let_def mine_sizes(1) append_merge_mining_tag_to_extra_def empty_template_def)

lemma no_pool_hashes: "pool_hashes empty_pool = []"
proof -
  have "set (RBT.entries (memory_state_fee_tx empty_pool)) = {}"
  proof (rule equals0I)
    fix x assume "x \<in> set (RBT.entries (memory_state_fee_tx empty_pool))"
    then have "RBT.lookup (memory_state_fee_tx empty_pool) (fst x) = Some (snd x)" by (metis entries_lookup prod.collapse)
    then show False by (simp add: empty_pool_def)
  qed
  then have "RBT.entries (memory_state_fee_tx empty_pool) = []" by (simp only: set_empty)
  then show ?thesis by (simp add: pool_hashes_def)
qed

lemma sample_template_made:
  "\<exists>s'. create_mining_block_template C sample_miner adr [] mine_state = Inr (Some (sample_template, 1, 1), s')"
proof -
  obtain b where b: "template_versions (mk_currency True (replicate 32 0) []) 1 = Some b" "major_version b = 2" using sample_versions by blast
  have "template_difficulty (clear_mining_transactions mine_state) = Inr 1"
    by (simp add: template_difficulty_def Let_def clear_mining_same get_tip_segment_def mine_tip_def empty_api_header_def)
      (simp add: next_difficulty_def next_difficulty_v1_def mk_currency_def Let_def difficulty_pass_def)
  moreover have "pool_hashes empty_pool = []" by (rule no_pool_hashes)
  moreover have "mn_now sample_miner = 0" by (simp add: sample_miner_def)
  ultimately show ?thesis
    using b sample_template_coinbase[of adr]
    by (simp add: create_mining_block_template_def Let_def clear_mining_same mine_sizes sample_template_def mine_tip_def empty_api_header_def)
qed

definition sample_solved :: prepared_block where
  "sample_solved = \<lparr>prep_block_data = [], prep_raw_block = \<lparr>rb_block = [], rb_transactions = []\<rparr>,
     prep_block = \<lparr>bl_header = sample_template, bl_transactions = []\<rparr>, prep_bid = replicate 32 2,
     prep_base_transaction_hash = replicate 32 3, prep_coinbase_tx_size = 40, prep_parent_block_size = 0, prep_long_block_hash = replicate 32 0\<rparr>"

theorem mining_template_accepted_witness:
  "\<exists>s' info'. create_mining_block_template sample_crypto sample_miner sample_address [] mine_state = Inr (Some (sample_template, 1, 1), s') \<and>
     check_standalone_consensus (sample_env\<lparr>e_crypto := sample_crypto\<rparr>) sample_solved (empty_api_header\<lparr>hd_height := 1\<rparr>) mine_tip False mine_state = Inr ([], info')"
proof -
  let ?c = "mk_currency True (replicate 32 0) []"
  obtain s' where t: "create_mining_block_template sample_crypto sample_miner sample_address [] mine_state = Inr (Some (sample_template, 1, 1), s')"
    using sample_template_made by blast
  obtain w where w: "write_transaction sample_mined = Inr w" "length w = 40" using sample_mined_size by blast
  obtain b where b: "template_versions ?c 1 = Some b" "major_version b = 2" "pb_major_version (parent b) = 1" using sample_versions by blast
  have b': "base_tx sample_template = sample_mined" "transaction_hashes sample_template = []" "timestamp sample_template = 0"
    "major_version sample_template = 2" "pb_major_version (parent sample_template) = 1"
    using b by (simp_all add: sample_template_def)
  have l: "db_ledger mine_state no_ledger"
    using fresh_ledger by (simp add: mine_state_def db_ledger_def short_keys_def db_outputs_ok_def)
  have p: "pool_map empty_pool tid = None" for tid by (simp add: empty_pool_def)
  note ph = no_pool_hashes
  have r: "room_ok ?c 20000 20480" by (simp add: room_ok_def mk_currency_def Let_def)
  have "sample_template = sample_template\<lparr>nonce := nonce sample_template, parent := parent sample_template\<rparr>" by simp
  then have sv: "solved empty_pool sample_template sample_solved"
    using w b' unfolding solved_def by (simp add: sample_solved_def pool_txs_def,
      intro exI[of _ "nonce sample_template"] exI[of _ "parent sample_template"], simp)
  have early: "\<not> (7070 :: u32) \<le> 1" "\<not> (7070 :: u32) \<le> 0" "(1 :: u32) \<le> 7080" by (simp_all add: word_le_nat_alt)
  have alg: "next_difficulty ?c 0 = next_difficulty ?c 1"
    by (simp add: early fun_eq_iff next_difficulty_def next_difficulty_v1_def mk_currency_def Let_def)
  have zone: "is_in_sw_checkpoint_zone ?c 1 = Inr False" by (simp add: is_in_sw_checkpoint_zone_def mk_currency_def)
  have res: "miner_tx_blob_reserved_size ?c = 600" by (simp add: mk_currency_def Let_def)
  have outs: "outputs sample_mined = []" by (simp add: sample_mined_def)
  have "\<exists>info'. check_standalone_consensus (sample_env\<lparr>e_crypto := sample_crypto\<rparr>) sample_solved (empty_api_header\<lparr>hd_height := 1\<rparr>) mine_tip False mine_state = Inr ([], info')"
  proof (rule mining_template_accepted[OF t l])
    show "pool_fits no_ledger (m_pool mine_state) (rev (pool_hashes (m_pool mine_state)))" by (simp add: ph pool_fits_def pool_txs_def no_ledger_def)
    show "length w \<le> unat (miner_tx_blob_reserved_size (m_currency mine_state))" by (simp add: res w(2))
    show "room_ok (m_currency mine_state) 20000 20480" by (simp add: r)
    show "next_difficulty (m_currency mine_state) (m_tip_height mine_state) = next_difficulty (m_currency mine_state) (m_tip_height mine_state + 1)"
      by (simp add: alg)
  qed (simp_all add: pool_accepted_def p mine_tip_def empty_api_header_def b' w(1) mine_sizes sv zone outs)
  then show ?thesis using t by blast
qed

end
