(* ===== verification/ChainLedger.thy ===== *)
theory ChainLedger
  imports NodeState
begin

text \<open>
  The blocks that are applied to the database of \<open>src/src/Core/BlockChainState.cpp\<close>, as a stack: \<open>redo_block\<close> puts one on top,
  \<open>undo_block\<close> takes the top one off, and the operations on the pool run in between. The history is a ghost list beside the
  state. \<open>undo_block\<close> resets the mark of every output that a ring of one spends, whether or not it was set before the block;
  so undoing a block restores the ledger when the block marks no output that is marked already, and none twice. The code does
  not test this when it applies a block: it tests the key images, and relies on the signatures to tie a key image to its output (in
  the zone of checkpoints, on the checkpoints). Here it is a condition on the data of a block that is undone; no property of the signatures is assumed.
\<close>

section \<open>The stack of applied blocks\<close>

type_synonym applied_block = "bytes \<times> block \<times> api_block_header"

definition apply_to :: "ledger \<Rightarrow> applied_block \<Rightarrow> ledger" where
  "apply_to L e = (case e of (bhash, b, info) \<Rightarrow> txs_ledger (hd_height info) (block_txs b) L)"

definition chain_ledger :: "applied_block list \<Rightarrow> ledger" where
  "chain_ledger bs = foldl apply_to no_ledger bs"

lemma chain_ledger_snoc [simp]: "chain_ledger (bs @ [(bhash, b, info)]) = txs_ledger (hd_height info) (block_txs b) (chain_ledger bs)"
  by (simp add: chain_ledger_def apply_to_def)

lemma chain_ledger_Nil [simp]: "chain_ledger [] = no_ledger"
  by (simp add: chain_ledger_def)

text \<open>
  A step of the rest of the node: it may change the pool, the medians, and the entries of the database that belong to the
  tree of blocks, but not those of the ledger.
\<close>

definition keeps_ledger :: "chain_state \<Rightarrow> chain_state \<Rightarrow> bool" where
  "keeps_ledger s s' \<longleftrightarrow> pool_ok (m_pool s') \<and> m_next_gi_for_amount s' = m_next_gi_for_amount s \<and> short_keys (m_db s') \<and>
     m_currency s' = m_currency s \<and>
     (\<forall>k. hd k = 0x69 \<or> hd k = 0x61 \<or> (\<exists>bhash. length bhash = 32 \<and> k = global_indices_key bhash) \<longrightarrow>
        RBT.lookup (m_db s') k = RBT.lookup (m_db s) k)"

text \<open>The block marks outputs that exist and are not marked, each once: a condition on its data and on the ledger below it.\<close>

definition marks_once :: "ledger \<Rightarrow> block \<Rightarrow> bool" where
  "marks_once L b \<longleftrightarrow> distinct (txs_spends (block_txs b)) \<and> list_all (unspent L) (txs_spends (block_txs b))"

text \<open>The runs: blocks are applied inside and outside the zone of checkpoints; a block that is undone is the last one applied and marked outputs once.\<close>

inductive node_run :: "crypto_lib \<Rightarrow> chain_state \<Rightarrow> applied_block list \<Rightarrow> chain_state \<Rightarrow> bool" for C s0 where
  start: "node_run C s0 [] s0"
| redo: "node_run C s0 bs s \<Longrightarrow> redo_block C bhash b info s = Inr (True, s') \<Longrightarrow> block_shape b \<Longrightarrow> length bhash = 32 \<Longrightarrow>
    indexes_fit (chain_ledger bs) b \<Longrightarrow> node_run C s0 (bs @ [(bhash, b, info)]) s'"
| refuse: "node_run C s0 bs s \<Longrightarrow> redo_block C bhash b info s = Inr (False, s') \<Longrightarrow> node_run C s0 bs s'"
| undo: "node_run C s0 (bs @ [(bhash, b, info)]) s \<Longrightarrow> marks_once (chain_ledger bs) b \<Longrightarrow>
    undo_block bhash b (hd_height info) s = Inr s' \<Longrightarrow> node_run C s0 bs s'"
| add: "node_run C s0 bs s \<Longrightarrow> tx_fits (chain_ledger bs) (tid, tx, binary) \<Longrightarrow>
    add_transaction C tid tx binary conflict s = Inr ((r, cf), s') \<Longrightarrow> node_run C s0 bs s'"
| other: "node_run C s0 bs s \<Longrightarrow> keeps_ledger s s' \<Longrightarrow> node_run C s0 bs s'"

text \<open>What is known of every block of the stack, relative to the ledger below it.\<close>

definition block_fine :: "ledger \<Rightarrow> applied_block \<Rightarrow> bool" where
  "block_fine L e = (case e of (bhash, b, info) \<Rightarrow>
     length bhash = 32 \<and> distinct (txs_kis (block_txs b)) \<and> set (txs_kis (block_txs b)) \<inter> dom (lg_keyimages L) = {})"

definition stack_ok :: "applied_block list \<Rightarrow> chain_state \<Rightarrow> bool" where
  "stack_ok bs s \<longleftrightarrow> db_ledger s (chain_ledger bs) \<and> distinct (map fst bs) \<and>
     (\<forall>i < length bs. block_fine (chain_ledger (take i bs)) (bs ! i)) \<and>
     (\<forall>e \<in> set bs. RBT.lookup (m_db s) (global_indices_key (fst e)) \<noteq> None)"

lemma stack_ok_top:
  assumes "stack_ok (bs @ [e]) s"
  shows "block_fine (chain_ledger bs) e" and "\<forall>i < length bs. block_fine (chain_ledger (take i bs)) (bs ! i)"
proof -
  have all: "\<forall>i < length (bs @ [e]). block_fine (chain_ledger (take i (bs @ [e]))) ((bs @ [e]) ! i)"
    using assms unfolding stack_ok_def by blast
  show "block_fine (chain_ledger bs) e" using spec[OF all, of "length bs"] by simp
  show "\<forall>i < length bs. block_fine (chain_ledger (take i bs)) (bs ! i)"
  proof (intro allI impI)
    fix i assume "i < length bs"
    then show "block_fine (chain_ledger (take i bs)) (bs ! i)" using spec[OF all, of i] by (simp add: nth_append)
  qed
qed

lemma keeps_ledger_db: "keeps_ledger s s' \<Longrightarrow> db_ledger s L \<Longrightarrow> db_ledger s' L"
proof -
  assume k: "keeps_ledger s s'" and l: "db_ledger s L"
  have "RBT.lookup (m_db s') (keyimage_key ki) = RBT.lookup (m_db s) (keyimage_key ki)" for ki
    using k by (simp add: keeps_ledger_def keyimage_key_def)
  moreover have "RBT.lookup (m_db s') (amount_key a gi) = RBT.lookup (m_db s) (amount_key a gi)"
    and "keys_with (m_db s') (amount_prefix a) = keys_with (m_db s) (amount_prefix a)" for a gi
    using k by (auto simp: keeps_ledger_def amount_key_def amount_prefix_def keys_with_def)
  ultimately show "db_ledger s' L" using k l by (simp add: db_ledger_def keeps_ledger_def db_outputs_ok_def)
qed


text \<open>What every step of the stack keeps.\<close>

lemma stack_ok_snoc:
  assumes "db_ledger s (chain_ledger (bs @ [e]))"
    and "distinct (map fst bs)" "fst e \<notin> set (map fst bs)" and "block_fine (chain_ledger bs) e"
    and "\<forall>i < length bs. block_fine (chain_ledger (take i bs)) (bs ! i)"
    and "\<forall>e' \<in> set (bs @ [e]). RBT.lookup (m_db s) (global_indices_key (fst e')) \<noteq> None"
  shows "stack_ok (bs @ [e]) s"
proof -
  have "block_fine (chain_ledger (take i (bs @ [e]))) ((bs @ [e]) ! i)" if i: "i < length (bs @ [e])" for i
  proof (cases "i < length bs")
    case True
    then show ?thesis using assms(5) by (simp add: nth_append)
  next
    case False
    then have "i = length bs" using i by simp
    then show ?thesis using assms(4) by simp
  qed
  then show ?thesis using assms(1-3,6) unfolding stack_ok_def by simp
qed

lemma stack_keys_length:
  assumes "stack_ok bs s" and "e \<in> set bs"
  shows "length (fst e) = 32"
proof -
  obtain i where i: "i < length bs" "bs ! i = e" using assms(2) by (auto simp: in_set_conv_nth)
  then have "block_fine (chain_ledger (take i bs)) e" using assms(1) unfolding stack_ok_def by blast
  then show ?thesis by (simp add: block_fine_def split: prod.splits)
qed

lemma stack_ok_frame:
  assumes ok: "stack_ok bs s" and "db_ledger s' (chain_ledger bs)"
    and "\<And>bhash. length bhash = 32 \<Longrightarrow> RBT.lookup (m_db s') (global_indices_key bhash) = RBT.lookup (m_db s) (global_indices_key bhash)"
  shows "stack_ok bs s'"
  using assms(2,3) ok stack_keys_length[OF ok] unfolding stack_ok_def by simp

lemma redo_block_new_key:
  assumes "redo_block C bhash b info s = Inr (True, s')"
  shows "RBT.lookup (m_db s) (global_indices_key bhash) = None"
proof -
  obtain d s1 db gis where d: "delta_apply store_keyimage push_amount_output spend_output d s = Inr s1"
      "db_put (m_db s1) (global_indices_key bhash) (write_global_indices gis) True = Inr db"
    using assms unfolding redo_block_def
    by (auto simp: bind_checked_bool bindR_eq_Inr_iff[of "is_in_sw_checkpoint_zone _ _"] bindR_eq_Inr_iff[of "delta_apply _ _ _ _ _"]
        bindR_eq_Inr_iff[of "db_put _ _ _ _"] simp del: redo_transactions.simps split: if_splits)
  have "RBT.lookup (m_db s1) (global_indices_key bhash) = None" using d(2) by (auto simp: db_put_def split: if_splits)
  then show ?thesis using delta_apply_step[OF d(1)] by (simp add: ledger_step_def global_indices_key_def)
qed

lemma redo_block_refused: "redo_block C bhash b info s = Inr (False, s') \<Longrightarrow> s' = s"
  unfolding redo_block_def
  by (auto simp: bind_failed bindR_eq_Inr_iff[of "is_in_sw_checkpoint_zone _ _"] bindR_eq_Inr_iff[of "delta_apply _ _ _ _ _"]
      bindR_eq_Inr_iff[of "db_put _ _ _ _"] split: if_splits)

lemma block_step_other_key:
  assumes "block_step bhash s s'" and "h \<noteq> bhash"
  shows "RBT.lookup (m_db s') (global_indices_key h) = RBT.lookup (m_db s) (global_indices_key h)"
  using assms by (simp add: block_step_def global_indices_key_def)

lemma redo_keeps_stack:
  assumes ok: "stack_ok bs s" and redo: "redo_block C bhash b info s = Inr (True, s')" and shape: "block_shape b" and bh: "length bhash = 32"
    and fit: "indexes_fit (chain_ledger bs) b"
  shows "stack_ok (bs @ [(bhash, b, info)]) s'"
proof (rule stack_ok_snoc)
  have l: "db_ledger s (chain_ledger bs)" using ok by (simp add: stack_ok_def)
  note ref = redo_block_ledger[OF l shape fit bh redo]
  note step = redo_block_step[OF redo]
  have new: "bhash \<noteq> fst e" if "e \<in> set bs" for e
    using ok redo_block_new_key[OF redo] that unfolding stack_ok_def by auto
  show "db_ledger s' (chain_ledger (bs @ [(bhash, b, info)]))" using ref by simp
  show "distinct (map fst bs)" using ok by (simp add: stack_ok_def)
  show "fst (bhash, b, info) \<notin> set (map fst bs)" using new by force
  show "block_fine (chain_ledger bs) (bhash, b, info)"
    using ref bh by (simp add: block_fine_def)
  show "\<forall>i < length bs. block_fine (chain_ledger (take i bs)) (bs ! i)" using ok by (simp add: stack_ok_def)
  have "RBT.lookup (m_db s') (global_indices_key (fst e)) \<noteq> None" if e: "e \<in> set bs" for e
    using block_step_other_key[OF step, of "fst e"] new[OF e] ok e unfolding stack_ok_def by metis
  then show "\<forall>e' \<in> set (bs @ [(bhash, b, info)]). RBT.lookup (m_db s') (global_indices_key (fst e')) \<noteq> None" using ref by auto
qed

lemma stack_undo:
  assumes ok: "stack_ok (bs @ [(bhash, b, info)]) s" and marks: "marks_once (chain_ledger bs) b"
  shows "\<exists>s'. undo_block bhash b (hd_height info) s = Inr s' \<and> stack_ok bs s'"
proof -
  have fine: "block_fine (chain_ledger bs) (bhash, b, info)" using stack_ok_top(1)[OF ok] .
  have l: "db_ledger s (txs_ledger (hd_height info) (block_txs b) (chain_ledger bs))"
    and key: "RBT.lookup (m_db s) (global_indices_key bhash) \<noteq> None" using ok by (simp_all add: stack_ok_def)
  obtain s' where s': "undo_block bhash b (hd_height info) s = Inr s'" "db_ledger s' (chain_ledger bs)"
    using undo_block_ledger[OF l _ key, of "hd_height info"] fine marks by (auto simp: block_fine_def marks_once_def list_all_iff)
  have d: "distinct (map fst bs)" "bhash \<notin> fst ` set bs" using ok by (simp_all add: stack_ok_def)
  have "RBT.lookup (m_db s') (global_indices_key (fst e)) \<noteq> None" if e: "e \<in> set bs" for e
  proof -
    have "fst e \<noteq> bhash" using d(2) e by auto
    then show ?thesis using block_step_other_key[OF undo_block_step[OF s'(1)]] ok e by (simp add: stack_ok_def)
  qed
  then have "stack_ok bs s'" using s'(2) d(1) stack_ok_top(2)[OF ok] unfolding stack_ok_def by blast
  then show ?thesis using s'(1) by blast
qed

lemma add_keeps_stack:
  assumes ok: "stack_ok bs s" and fits: "tx_fits (chain_ledger bs) (tid, tx, binary)"
    and add: "add_transaction C tid tx binary conflict s = Inr ((r, cf), s')"
  shows "stack_ok bs s'"
proof -
  have l: "db_ledger s (chain_ledger bs)" using ok by (simp add: stack_ok_def)
  obtain tip where "get_tip s = Inr tip" using add by (auto simp: add_transaction_def bindR_eq_Inr_iff)
  then obtain t r' where w: "added_well (chain_ledger bs) tid t s r' s'"
    using add fits add_transaction_at_total[OF l, of tx binary C tid] unfolding tx_fits_def add_transaction_def
    by (simp add: bindR_eq_Inr_iff) (metis old.prod.inject sum.inject(2))
  have "m_db s' = m_db s" using w by (auto simp: added_well_def)
  then show ?thesis using stack_ok_frame[OF ok added_well_ledger[OF w l]] by simp
qed

lemma node_run_ok:
  assumes "node_run C s0 bs s" and "db_ledger s0 no_ledger"
  shows "stack_ok bs s"
  using assms
proof (induction rule: node_run.induct)
  case start
  then show ?case by (simp add: stack_ok_def no_ledger_def)
next
  case (redo bs s bhash b info s')
  then show ?case using redo_keeps_stack[of bs s C bhash b info s'] by blast
next
  case (refuse bs s bhash b info s')
  then show ?case using redo_block_refused by blast
next
  case (undo bs bhash b info s s')
  then show ?case using stack_undo[of bs bhash b info s] by fastforce
next
  case (add bs s tid tx binary conflict r cf s')
  then show ?case using add_keeps_stack[of bs s] by blast
next
  case (other bs s s')
  then have ok: "stack_ok bs s" by blast
  then have "db_ledger s' (chain_ledger bs)" using keeps_ledger_db[OF other.hyps(2)] by (simp add: stack_ok_def)
  then show ?case using stack_ok_frame[OF ok] other.hyps(2) unfolding keeps_ledger_def by blast
qed


section \<open>Properties\<close>

text \<open>
  C3: whatever sequence of blocks is applied, refused and undone on the chain, inside and outside the zone of checkpoints, with
  transactions entering the pool and the rest of the node working in between, the database holds exactly the ledger of the
  blocks that are applied at the moment, as computed from them alone; their hashes are distinct, and undoing the last of them
  cannot fail and gives back the ledger of the others. The blocks have the shape and the counts of outputs that the
  counters hold, the transactions and blocks have ids of 32 bytes, and a block that is undone marks outputs once.
\<close>

theorem database_is_ledger_of_chain:
  assumes "db_ledger s0 no_ledger" and "node_run C s0 bs s"
  shows "db_ledger s (chain_ledger bs) \<and> distinct (map fst bs) \<and>
    (\<forall>bs0 bhash b info. bs = bs0 @ [(bhash, b, info)] \<and> marks_once (chain_ledger bs0) b \<longrightarrow>
       (\<exists>s'. undo_block bhash b (hd_height info) s = Inr s' \<and> db_ledger s' (chain_ledger bs0)))"
proof -
  have ok: "stack_ok bs s" by (rule node_run_ok[OF assms(2,1)])
  then have "db_ledger s (chain_ledger bs) \<and> distinct (map fst bs)" by (simp add: stack_ok_def)
  moreover have "\<exists>s'. undo_block bhash b (hd_height info) s = Inr s' \<and> db_ledger s' (chain_ledger bs0)"
    if "bs = bs0 @ [(bhash, b, info)]" "marks_once (chain_ledger bs0) b" for bs0 bhash b info
    using stack_undo[of bs0 bhash b info s] ok that by (auto simp: stack_ok_def)
  ultimately show ?thesis by blast
qed

text \<open>A run that applies two blocks, the second of which spends an output of the first, and undoes the second.\<close>

theorem database_is_ledger_of_chain_witness:
  "\<exists>s2 s3. node_run sample_crypto fresh_state [(replicate 32 1, sample_ledger_block 0 [], sample_info 0)] s3 \<and>
     undo_block (replicate 32 2) (sample_ledger_block 1 [sample_spend]) 1 s2 = Inr s3 \<and>
     db_ledger s3 (txs_ledger 0 [sample_coinbase 0] no_ledger)"
proof -
  let ?b0 = "sample_ledger_block 0 []" and ?b1 = "sample_ledger_block 1 [sample_spend]"
  let ?e0 = "(replicate 32 (1 :: byte), ?b0, sample_info 0)" and ?e1 = "(replicate 32 (2 :: byte), ?b1, sample_info 1)"
  have fit0: "indexes_fit (chain_ledger []) ?b0" by (simp add: indexes_fit_def no_ledger_def)
  have L: "chain_ledger [?e0] = txs_ledger 0 [sample_coinbase 0] no_ledger"
    using chain_ledger_snoc[of "[]" "replicate 32 1" ?b0 "sample_info 0"] by (simp add: sample_info_def sample_ledger_block_def block_txs_def)
  obtain s1 where s1: "redo_block sample_crypto (replicate 32 1) ?b0 (sample_info 0) fresh_state = Inr (True, s1)"
      "db_ledger s1 (txs_ledger 0 [sample_coinbase 0] no_ledger)" "RBT.lookup (m_db s1) (global_indices_key (replicate 32 2)) = None"
      "m_currency s1 = m_currency fresh_state"
    using first_block by blast
  note second = second_block[OF s1(2-4)]
  obtain s2 where s2: "redo_block sample_crypto (replicate 32 2) ?b1 (sample_info 1) s1 = Inr (True, s2)"
    using second(3) by blast
  have marks: "marks_once (chain_ledger [?e0]) ?b1" using second unfolding L by (simp add: marks_once_def list_all_iff)
  have run1: "node_run sample_crypto fresh_state ([] @ [?e0]) s1"
    by (rule node_run.redo[OF node_run.start s1(1) sample_shape(1) _ fit0]) simp_all
  have run2: "node_run sample_crypto fresh_state ([?e0] @ [?e1]) s2"
    using node_run.redo[OF run1[simplified] s2 sample_shape(2)] second(1) unfolding L by simp
  from database_is_ledger_of_chain[OF fresh_ledger run2] marks
  obtain s3 where s3: "undo_block (replicate 32 2) ?b1 1 s2 = Inr s3" "db_ledger s3 (chain_ledger [?e0])"
    by (auto simp: sample_info_def)
  have "node_run sample_crypto fresh_state [?e0] s3"
    using node_run.undo[OF run2 marks] s3(1) by (simp add: sample_info_def)
  then show ?thesis using s3 unfolding L by blast
qed

end
