(* ===== verification/TextTools.thy ===== *)
theory TextTools
  imports TextBase
begin

text \<open>
  Conversions between bytes and text: \<open>src/src/common/StringTools.*\<close> (hexadecimal strings, splitting), \<open>Base64.cpp\<close> and
  \<open>Ipv4Address.*\<close>.
\<close>

section \<open>Hexadecimal strings\<close>

definition character_values :: "u8 list" where
  "character_values = replicate 48 0xff @ [0, 1, 2, 3, 4, 5, 6, 7, 8, 9] @ replicate 7 0xff @ [0xa, 0xb, 0xc, 0xd, 0xe, 0xf] @
     replicate 26 0xff @ [0xa, 0xb, 0xc, 0xd, 0xe, 0xf] @ replicate 153 0xff"

definition from_hex_char :: "char \<Rightarrow> u8 result" where
  "from_hex_char character =
     (let value = character_values ! of_char character
      in if 0x0f < value then Inl (RuntimeError ''from_hex: invalid character'') else Inr value)"

definition from_hex_char_bool :: "char \<Rightarrow> u8 option" where
  "from_hex_char_bool character =
     (if 0x0f < character_values ! of_char character then None else Some (character_values ! of_char character))"

text \<open>The loop of the throwing functions; the pairs before a wrong one are written to the buffer, which the exception leaves behind.\<close>

fun from_hex_bytes :: "string \<Rightarrow> bytes result" where
  "from_hex_bytes (a # b # text) =
     bindR (from_hex_char a) (\<lambda>v1. bindR (from_hex_char b) (\<lambda>v2.
     bindR (from_hex_bytes text) (\<lambda>data. Inr ((push_bit 4 v1 OR v2) # data))))"
| "from_hex_bytes text = Inr []"

definition from_hex :: "string \<Rightarrow> bytes result" where
  "from_hex text =
     (if odd (length text) then Inl (RuntimeError ''from_hex: invalid string size'') else from_hex_bytes text)"

definition from_hex_buffer :: "string \<Rightarrow> nat \<Rightarrow> bytes result" where
  "from_hex_buffer text buffer_size =
     (if odd (length text) then Inl (RuntimeError ''from_hex: invalid string size'')
      else if buffer_size < length text div 2 then Inl (RuntimeError ''from_hex: invalid buffer size'')
      else from_hex_bytes text)"

text \<open>The loop of the functions that do not throw: the bytes written, and whether all of the text was hexadecimal.\<close>

fun from_hex_pairs :: "string \<Rightarrow> bytes \<times> bool" where
  "from_hex_pairs (a # b # text) =
     (case from_hex_char_bool a of None \<Rightarrow> ([], False)
      | Some value1 \<Rightarrow>
          case from_hex_char_bool b of None \<Rightarrow> ([], False)
          | Some value2 \<Rightarrow> let (data, ok) = from_hex_pairs text in ((push_bit 4 value1 OR value2) # data, ok))"
| "from_hex_pairs text = ([], True)"

text \<open>The buffer afterwards, and the size that is assigned on success.\<close>

definition from_hex_into :: "string \<Rightarrow> bytes \<Rightarrow> bytes \<times> nat option" where
  "from_hex_into text buffer =
     (if odd (length text) \<or> length buffer < length text div 2 then (buffer, None)
      else let (data, ok) = from_hex_pairs text
           in (data @ drop (length data) buffer, if ok then Some (length text div 2) else None))"

definition from_hex_append :: "string \<Rightarrow> bytes \<Rightarrow> bytes \<times> bool" where
  "from_hex_append text data =
     (if odd (length text) then (data, False)
      else let (more, ok) = from_hex_pairs text in (data @ more, ok))"

definition pod_from_hex :: "string \<Rightarrow> bytes \<Rightarrow> bytes \<times> bool" where
  "pod_from_hex text val = (let (val', out_size) = from_hex_into text val in (val', out_size = Some (length val)))"

definition hex_digits :: string where
  "hex_digits = ''0123456789abcdef''"

definition append_hex :: "bytes \<Rightarrow> string \<Rightarrow> string" where
  "append_hex data text = foldl (\<lambda>t b. t @ [hex_digits ! unat (drop_bit 4 b)] @ [hex_digits ! unat (b AND 15)]) text data"

definition to_hex :: "bytes \<Rightarrow> string" where
  "to_hex data = append_hex data []"

section \<open>Splitting\<close>

definition extract_first :: "string \<Rightarrow> char \<Rightarrow> string \<times> string" where
  "extract_first t delimiter =
     (let delimiter_pos = length (takeWhile (\<lambda>ch. ch \<noteq> delimiter) t)
      in if delimiter_pos < length t then (take delimiter_pos t, drop (delimiter_pos + 1) t) else (t, []))"

text \<open>The overload with an offset: the text it returns and the new offset; \<open>substr\<close> throws beyond the end.\<close>

definition substr :: "string \<Rightarrow> nat \<Rightarrow> nat \<Rightarrow> string result" where
  "substr t pos n = (if length t < pos then Inl OutOfRange else Inr (take n (drop pos t)))"

definition extract_at :: "string \<Rightarrow> char \<Rightarrow> nat \<Rightarrow> (string \<times> nat) result" where
  "extract_at t delimiter offset =
     (let delimiter_pos = offset + length (takeWhile (\<lambda>ch. ch \<noteq> delimiter) (drop offset t))
      in if delimiter_pos < length t
         then bindR (substr t (delimiter_pos + 1) delimiter_pos) (\<lambda>r. Inr (r, delimiter_pos + 1))
         else bindR (substr t (length t) (length t)) (\<lambda>r. Inr (r, length t)))"

fun find_from :: "string \<Rightarrow> string \<Rightarrow> nat option" where
  "find_from separator [] = (if separator = [] then Some 0 else None)"
| "find_from separator (ch # t) =
     (if take (length separator) (ch # t) = separator then Some 0 else map_option Suc (find_from separator t))"

text \<open>The heads of the first \<open>parts\<close> pieces and the rest; \<open>None\<close> if there are fewer separators.\<close>

fun split_string :: "string \<Rightarrow> string \<Rightarrow> nat \<Rightarrow> string list option" where
  "split_string str separator 0 = Some [str]"
| "split_string str separator (Suc parts) =
     (case find_from separator str of
        None \<Rightarrow> None
      | Some pos2 \<Rightarrow> map_option (\<lambda>ps. take pos2 str # ps) (split_string (drop (pos2 + 1) str) separator parts))"

section \<open>Base 64\<close>

definition from_base64 :: "u8 list" where
  "from_base64 = replicate 43 255 @ [62, 255, 62, 255, 63] @ [52, 53, 54, 55, 56, 57, 58, 59, 60, 61] @
     [255, 255, 0, 255, 255, 255, 255] @
     [0, 1, 2, 3, 4, 5, 6, 7, 8, 9, 10, 11, 12, 13, 14, 15, 16, 17, 18, 19, 20, 21, 22, 23, 24, 25] @
     [255, 255, 255, 255, 63, 255] @
     [26, 27, 28, 29, 30, 31, 32, 33, 34, 35, 36, 37, 38, 39, 40, 41, 42, 43, 44, 45, 46, 47, 48, 49, 50, 51] @ replicate 5 255"

definition to_base64 :: string where
  "to_base64 = ''ABCDEFGHIJKLMNOPQRSTUVWXYZabcdefghijklmnopqrstuvwxyz0123456789+/''"

definition encode_group :: "u8 \<Rightarrow> u8 \<Rightarrow> u8 \<Rightarrow> string" where
  "encode_group b3_0 b3_1 b3_2 =
     (let b4_0 = drop_bit 2 (b3_0 AND 0xfc);
          b4_1 = push_bit 4 (b3_0 AND 0x03) + drop_bit 4 (b3_1 AND 0xf0);
          b4_2 = push_bit 2 (b3_1 AND 0x0f) + drop_bit 6 (b3_2 AND 0xc0);
          b4_3 = b3_2 AND 0x3f
      in [to_base64 ! unat b4_0, to_base64 ! unat b4_1, to_base64 ! unat b4_2, to_base64 ! unat b4_3])"

definition base64_encode :: "bytes \<Rightarrow> string" where
  "base64_encode buf =
     (let buf_len = length buf;
          missing = (3 - buf_len mod 3) mod 3;
          ret_size = 4 * (buf_len + missing) div 3;
          at = (\<lambda>index. if index < buf_len then buf ! index else 0);
          ret = concat (map (\<lambda>i. encode_group (at (i * 3)) (at (i * 3 + 1)) (at (i * 3 + 2))) [0..<ret_size div 4])
      in foldl (\<lambda>ret i. ret[ret_size - i - 1 := CHR ''='']) ret [0..<missing])"

definition decode_group :: "u8 \<Rightarrow> u8 \<Rightarrow> u8 \<Rightarrow> u8 \<Rightarrow> bytes" where
  "decode_group b4_0 b4_1 b4_2 b4_3 =
     (let b3_0 = push_bit 2 (b4_0 AND 0x3f) + drop_bit 4 (b4_1 AND 0x30);
          b3_1 = push_bit 4 (b4_1 AND 0x0f) + drop_bit 2 (b4_2 AND 0x3c);
          b3_2 = push_bit 6 (b4_2 AND 0x03) + (b4_3 AND 0x3f)
      in (if b4_1 \<noteq> 0xff then [b3_0] else []) @ (if b4_2 \<noteq> 0xff then [b3_1] else []) @ (if b4_3 \<noteq> 0xff then [b3_2] else []))"

definition base64_value :: "string \<Rightarrow> nat \<Rightarrow> u8" where
  "base64_value s i = (if i < length s \<and> of_char (s ! i) \<le> (of_char (CHR ''z'') :: nat) then from_base64 ! of_char (s ! i) else 0xff)"

definition base64_decode :: "string \<Rightarrow> bytes" where
  "base64_decode s =
     (let encoded_size = length s + (4 - length s mod 4) mod 4
      in concat (map (\<lambda>g. decode_group (base64_value s (4 * g)) (base64_value s (4 * g + 1)) (base64_value s (4 * g + 2)) (base64_value s (4 * g + 3)))
           [0..<encoded_size div 4]))"

section \<open>Addresses of the internet\<close>

definition ip_bytes :: "u32 \<Rightarrow> u8 list" where
  "ip_bytes ip = [ucast (ip AND 0xFF), ucast (drop_bit 8 ip AND 0xFF), ucast (drop_bit 16 ip AND 0xFF), ucast (drop_bit 24 ip AND 0xFF)]"

definition print_bytes :: "u8 list \<Rightarrow> string" where
  "print_bytes bs =
     int_to_string (uint (bs ! 0)) @ ''.'' @ int_to_string (uint (bs ! 1)) @ ''.'' @ int_to_string (uint (bs ! 2)) @ ''.'' @ int_to_string (uint (bs ! 3))"

definition ip_address_to_string :: "u32 \<Rightarrow> string" where
  "ip_address_to_string ip = print_bytes (ip_bytes ip)"

definition ip_address_and_port_to_string :: "u32 \<Rightarrow> u32 \<Rightarrow> string" where
  "ip_address_and_port_to_string ip port = print_bytes (ip_bytes ip) @ '':'' @ int_to_string (sint port)"

text \<open>
  \<open>sscanf\<close> with the conversion \<open>%u\<close> and literal characters: the numbers converted before the first mismatch. The
  conversion skips white space and takes a sign, as \<open>strtoul\<close> does; a number that does not fit is undefined.
\<close>

datatype scan_item = Unsigned | Literal char

definition scan_unsigned :: "string \<Rightarrow> (u32 \<times> string) option result" where
  "scan_unsigned s =
     (let s1 = dropWhile is_space s;
          minus = (s1 \<noteq> [] \<and> hd s1 = CHR ''-'');
          s2 = (if s1 \<noteq> [] \<and> (hd s1 = CHR ''-'' \<or> hd s1 = CHR ''+'') then tl s1 else s1);
          digits = takeWhile is_digit s2;
          v = digits_value digits
      in if digits = [] then Inr None
         else if 2 ^ 32 \<le> v then Inl Undefined
         else Inr (Some (if minus then - word_of_nat v else word_of_nat v, dropWhile is_digit s2)))"

fun scan :: "scan_item list \<Rightarrow> string \<Rightarrow> u32 list result" where
  "scan [] s = Inr []"
| "scan (Literal ch # items) s = (if s \<noteq> [] \<and> hd s = ch then scan items (tl s) else Inr [])"
| "scan (Unsigned # items) s =
     bindR (scan_unsigned s) (\<lambda>r. case r of None \<Rightarrow> Inr [] | Some (v, rest) \<Rightarrow> bindR (scan items rest) (\<lambda>vs. Inr (v # vs)))"

definition c_str :: "string \<Rightarrow> string" where
  "c_str s = takeWhile (\<lambda>ch. ch \<noteq> CHR 0x00) s"

definition pack_ip :: "u32 list \<Rightarrow> u32" where
  "pack_ip v = push_bit 24 (v ! 3) OR push_bit 16 (v ! 2) OR push_bit 8 (v ! 1) OR v ! 0"

definition ip_format :: "scan_item list" where
  "ip_format = [Unsigned, Literal CHR ''.'', Unsigned, Literal CHR ''.'', Unsigned, Literal CHR ''.'', Unsigned]"

definition parse_ip_address :: "string \<Rightarrow> u32 option result" where
  "parse_ip_address addr =
     bindR (scan ip_format (c_str addr)) (\<lambda>v.
       if length v \<noteq> 4 then Inr None
       else if \<exists>i < 4. 0xff < v ! i then Inr None
       else Inr (Some (pack_ip v)))"

text \<open>The address is assigned before the port is found to be too large; \<open>None\<close> for an output that is not assigned.\<close>

definition parse_ip_address_and_port :: "string \<Rightarrow> (bool \<times> u32 option \<times> u32 option) result" where
  "parse_ip_address_and_port addr =
     bindR (scan (ip_format @ [Literal CHR '':'', Unsigned]) (c_str addr)) (\<lambda>v.
       if length v \<noteq> 5 then Inr (False, None, None)
       else if \<exists>i < 4. 0xff < v ! i then Inr (False, None, None)
       else if 65535 < v ! 4 then Inr (False, Some (pack_ip v), None)
       else Inr (True, Some (pack_ip v), Some (v ! 4)))"

definition parse_ip_string_and_port :: "string \<Rightarrow> (string \<times> u16) option result" where
  "parse_ip_string_and_port addr =
     bindR (parse_ip_address_and_port addr) (\<lambda>r. case r of
         (True, Some sip, Some sport) \<Rightarrow> Inr (Some (ip_address_to_string sip, ucast sport))
       | _ \<Rightarrow> Inr None)"

definition get_private_network_prefix :: "u32 \<Rightarrow> int" where
  "get_private_network_prefix ip =
     (let b = ip_bytes ip
      in if b ! 0 = 127 then 127
         else if b ! 0 = 10 then 10
         else if b ! 0 = 192 \<and> b ! 1 = 168 then 192
         else if b ! 0 = 172 \<and> b ! 1 AND 0xf0 = 16 then 172
         else 0)"

definition is_ip_address_loopback :: "u32 \<Rightarrow> bool" where
  "is_ip_address_loopback ip \<longleftrightarrow> get_private_network_prefix ip = 127"

definition is_ip_address_private :: "u32 \<Rightarrow> bool" where
  "is_ip_address_private ip \<longleftrightarrow> get_private_network_prefix ip = 0"


section \<open>Bytes bit by bit\<close>

lemma byte_bits: "(\<And>n. n \<in> {0, 1, 2, 3, 4, 5, 6, 7} \<Longrightarrow> bit a n = bit b n) \<Longrightarrow> a = (b :: byte)"
proof (rule bit_word_eqI)
  fix n assume h: "\<And>n. n \<in> {0, 1, 2, 3, 4, 5, 6, 7} \<Longrightarrow> bit a n = bit b n" and "n < LENGTH(8)"
  then have "n < 8" by simp
  then have "n = 0 \<or> n = 1 \<or> n = 2 \<or> n = 3 \<or> n = 4 \<or> n = 5 \<or> n = 6 \<or> n = 7" by linarith
  then show "bit a n = bit b n" by (intro h) blast
qed

lemma plus_or: "(x :: byte) AND y = 0 \<Longrightarrow> x + y = x OR y"
  by (rule disjunctive_add_eq_or) simp

section \<open>Hexadecimal strings are read back\<close>

lemma character_values_nth: "n < 256 \<Longrightarrow> character_values ! n =
    (if 48 \<le> n \<and> n < 58 then word_of_nat (n - 48) else if 65 \<le> n \<and> n < 71 then word_of_nat (n - 55)
     else if 97 \<le> n \<and> n < 103 then word_of_nat (n - 87) else 0xff)"
proof -
  assume n: "n < 256"
  define A B where "A = ([0, 1, 2, 3, 4, 5, 6, 7, 8, 9] :: u8 list)" and "B = ([0xa, 0xb, 0xc, 0xd, 0xe, 0xf] :: u8 list)"
  have l: "length A = 10" "length B = 6" by (simp_all add: A_def B_def)
  have cv: "character_values = replicate 48 0xff @ A @ replicate 7 0xff @ B @ replicate 26 0xff @ B @ replicate 153 0xff"
    by (simp add: character_values_def A_def B_def)
  have "character_values ! n = (if 48 \<le> n \<and> n < 58 then A ! (n - 48) else if 65 \<le> n \<and> n < 71 then B ! (n - 65)
     else if 97 \<le> n \<and> n < 103 then B ! (n - 97) else 0xff)"
    unfolding cv using n l by (auto simp: nth_append)
  moreover have "A ! k = (word_of_nat k :: u8)" if "k < 10" for k
    using that by (auto simp: A_def less_Suc_eq numeral_eq_Suc)
  moreover have "B ! k = (word_of_nat (k + 10) :: u8)" if "k < 6" for k
    using that by (auto simp: B_def less_Suc_eq numeral_eq_Suc)
  ultimately show ?thesis by auto
qed

definition hex_char :: "nat \<Rightarrow> char" where
  "hex_char k = char_of (if k < 10 then 48 + k else 87 + k)"

lemma of_hex_char: "k < 16 \<Longrightarrow> (of_char (hex_char k) :: nat) = (if k < 10 then 48 + k else 87 + k)"
  by (simp add: hex_char_def)

lemma hex_digits_nth: "k < 16 \<Longrightarrow> hex_digits ! k = hex_char k"
proof -
  have "\<forall>k \<in> set [0..<16]. hex_digits ! k = hex_char k" by code_simp
  then show "k < 16 \<Longrightarrow> hex_digits ! k = hex_char k" by simp
qed

lemma hex_char_inj: "j < 16 \<Longrightarrow> k < 16 \<Longrightarrow> hex_char j = hex_char k \<longleftrightarrow> j = k"
proof -
  assume "j < 16" "k < 16"
  moreover have "hex_char j = hex_char k \<longleftrightarrow> (of_char (hex_char j) :: nat) = of_char (hex_char k)" by simp
  ultimately show ?thesis by (auto simp: of_hex_char split: if_splits)
qed

lemma of_to_lower: "(of_char (to_lower ch) :: nat) = (if 65 \<le> (of_char ch :: nat) \<and> (of_char ch :: nat) \<le> 90 then of_char ch + 32 else of_char ch)"
  by (auto simp: to_lower_def Let_def)

lemma from_hex_char_iff: "from_hex_char ch = Inr v \<longleftrightarrow> unat v < 16 \<and> to_lower ch = hex_char (unat v)"
proof -
  let ?n = "of_char ch :: nat"
  have n: "?n < 256" by simp
  have same: "to_lower ch = hex_char k \<longleftrightarrow> (of_char (to_lower ch) :: nat) = of_char (hex_char k)" for k by simp
  have hex: ?thesis if k: "k < 16" "character_values ! ?n = word_of_nat k" "(of_char (to_lower ch) :: nat) = of_char (hex_char k)" for k
  proof -
    have "\<not> 0xf < (word_of_nat k :: u8)" using k(1) by (simp add: word_less_nat_alt unat_of_nat)
    then have "from_hex_char ch = Inr (word_of_nat k)" using k(2) by (simp add: from_hex_char_def)
    moreover have "unat (word_of_nat k :: u8) = k" using k(1) by (simp add: unat_of_nat)
    ultimately show ?thesis using k(1,3) by (auto simp: same[of k, symmetric] hex_char_inj)
  qed
  consider "48 \<le> ?n" "?n < 58" | "65 \<le> ?n" "?n < 71" | "97 \<le> ?n" "?n < 103"
    | "\<not> (48 \<le> ?n \<and> ?n < 58)" "\<not> (65 \<le> ?n \<and> ?n < 71)" "\<not> (97 \<le> ?n \<and> ?n < 103)" by linarith
  then show ?thesis
  proof cases
    case 1
    then show ?thesis by (intro hex[of "?n - 48"]) (simp_all add: character_values_nth of_to_lower of_hex_char)
  next
    case 2
    then show ?thesis by (intro hex[of "?n - 55"]) (simp_all add: character_values_nth of_to_lower of_hex_char)
  next
    case 3
    then show ?thesis by (intro hex[of "?n - 87"]) (simp_all add: character_values_nth of_to_lower of_hex_char)
  next
    case 4
    then have "to_lower ch \<noteq> hex_char k" if "k < 16" for k
      using that unfolding same by (auto simp: of_to_lower of_hex_char)
    moreover have "character_values ! ?n = 0xff" using 4 by (auto simp: character_values_nth)
    ultimately show ?thesis by (auto simp: from_hex_char_def)
  qed
qed


lemma hex_pair:
  assumes "unat v1 < 16" and "unat v2 < 16"
  shows "drop_bit 4 (push_bit 4 v1 OR v2) = v1" and "(push_bit 4 v1 OR v2) AND 15 = (v2 :: u8)"
proof -
  have v: "unat (push_bit 4 v1 OR v2) = unat v2 + unat v1 * 16"
    using unat_or_push_bit[of v2 4 v1] assms by (simp add: or.commute)
  have "unat (drop_bit 4 (push_bit 4 v1 OR v2)) = unat v1" unfolding unat_drop_bit v using assms by simp
  then show "drop_bit 4 (push_bit 4 v1 OR v2) = v1" by (simp only: word_unat_eq_iff)
  have "unat ((push_bit 4 v1 OR v2) AND mask 4) = unat v2" using assms by (simp add: unat_and_mask_eq_mod v del: mask_numeral)
  then show "(push_bit 4 v1 OR v2) AND 15 = v2" by (simp add: word_unat_eq_iff[of "_ AND 15" v2] mask_eq_exp_minus_1)
qed

lemma hex_split: "push_bit 4 (drop_bit 4 b) OR (b AND 15) = (b :: u8)"
  by (rule byte_bits) (auto simp: bit_simps; simp add: numeral_2_eq_2 numeral_3_eq_3)

lemma nibbles: "unat (drop_bit 4 (b :: u8)) < 16" "unat (b AND 15) < 16"
proof -
  show "unat (drop_bit 4 b) < 16" using less_mult_imp_div_less[of "unat b" 16 16] unat_byte_less[of b] by (simp add: unat_drop_bit)
  have "unat (b AND mask 4) < 16" by (simp add: unat_and_mask_eq_mod del: mask_numeral)
  then show "unat (b AND 15) < 16" by (simp add: mask_eq_exp_minus_1)
qed

lemma append_hex_Cons: "append_hex (b # data) t = append_hex data (t @ [hex_digits ! unat (drop_bit 4 b), hex_digits ! unat (b AND 15)])"
  by (simp add: append_hex_def)

lemma append_hex_eq: "append_hex data t = t @ append_hex data []"
proof (induction data arbitrary: t)
  case (Cons b data)
  show ?case unfolding append_hex_Cons Cons.IH[of "t @ _"] Cons.IH[of "[] @ _"] by simp
qed (simp add: append_hex_def)

lemma to_hex_simps: "to_hex [] = []" "to_hex (b # data) = hex_char (unat (drop_bit 4 b)) # hex_char (unat (b AND 15)) # to_hex data"
  using append_hex_eq[of data "[hex_char (unat (drop_bit 4 b)), hex_char (unat (b AND 15))]"] nibbles[of b]
  by (simp_all add: to_hex_def append_hex_Cons hex_digits_nth) (simp add: append_hex_def)

lemma length_to_hex [simp]: "length (to_hex data) = 2 * length data"
  by (induction data) (simp_all add: to_hex_simps)

lemma from_hex_char_result: "(\<exists>v. from_hex_char ch = Inr v) \<or> from_hex_char ch = Inl (RuntimeError ''from_hex: invalid character'')"
  by (simp add: from_hex_char_def Let_def)

lemma from_hex_char_bool_eq: "from_hex_char_bool ch = (case from_hex_char ch of Inl _ \<Rightarrow> None | Inr v \<Rightarrow> Some v)"
  by (simp add: from_hex_char_def from_hex_char_bool_def Let_def)

lemma to_lower_hex_char: "k < 16 \<Longrightarrow> to_lower (hex_char k) = hex_char k"
  by (simp add: to_lower_def of_hex_char)

lemma from_hex_bytes_iff: "even (length t) \<Longrightarrow> from_hex_bytes t = Inr data \<longleftrightarrow> to_hex data = map to_lower t"
proof (induction t arbitrary: data rule: from_hex_bytes.induct)
  case (1 a b t)
  have IH: "from_hex_bytes t = Inr d \<longleftrightarrow> to_hex d = map to_lower t" if "from_hex_char a = Inr v1" "from_hex_char b = Inr v2" for v1 v2 d
    using "1.IH"[OF that] "1.prems" by simp
  show ?case
  proof
    assume "from_hex_bytes (a # b # t) = Inr data"
    then obtain v1 v2 d where "from_hex_char a = Inr v1" "from_hex_char b = Inr v2" "from_hex_bytes t = Inr d" "data = (push_bit 4 v1 OR v2) # d"
      by (auto simp: bindR_eq_Inr_iff)
    moreover from this have "to_hex d = map to_lower t" using IH[of v1 v2 d] by simp
    ultimately show "to_hex data = map to_lower (a # b # t)"
      by (simp only: from_hex_char_iff to_hex_simps hex_pair list.map list.inject simp_thms)
  next
    assume h: "to_hex data = map to_lower (a # b # t)"
    then obtain x d where x: "data = x # d" by (cases data) (simp_all add: to_hex_simps)
    then have c: "from_hex_char a = Inr (drop_bit 4 x)" "from_hex_char b = Inr (x AND 15)"
      using h nibbles[of x] by (auto simp: from_hex_char_iff to_hex_simps)
    have "from_hex_bytes t = Inr d" using IH[OF c, of d] h x by (simp add: to_hex_simps)
    then show "from_hex_bytes (a # b # t) = Inr data" using c by (simp add: x hex_split)
  qed
next
  case "2_1"
  then show ?case by (cases data) (auto simp: to_hex_simps)
qed simp

lemma from_hex_iff: "from_hex t = Inr data \<longleftrightarrow> to_hex data = map to_lower t"
proof -
  have "even (length t)" if "to_hex data = map to_lower t" using arg_cong[OF that, of length] by (metis dvd_triv_left length_map length_to_hex)
  then show ?thesis by (auto simp: from_hex_def from_hex_bytes_iff)
qed

text \<open>The functions that do not throw accept the same strings.\<close>

lemma from_hex_pairs_eq:
  "from_hex_bytes t = (if snd (from_hex_pairs t) then Inr (fst (from_hex_pairs t)) else Inl (RuntimeError ''from_hex: invalid character''))"
proof (induction t rule: from_hex_bytes.induct)
  case (1 a b t)
  then show ?case using from_hex_char_result[of a] from_hex_char_result[of b] by (auto simp: from_hex_char_bool_eq split: prod.splits)
qed simp_all

lemma from_hex_bytes_length: "from_hex_bytes t = Inr data \<Longrightarrow> length data = length t div 2"
  by (induction t arbitrary: data rule: from_hex_bytes.induct) (auto simp: bindR_eq_Inr_iff)

lemma from_hex_append_iff: "from_hex_append t xs = (xs @ data, True) \<longleftrightarrow> from_hex t = Inr data"
  by (auto simp: from_hex_append_def from_hex_def from_hex_pairs_eq split: prod.splits)

lemma pod_from_hex_iff: "pod_from_hex t val = (data, True) \<longleftrightarrow> from_hex t = Inr data \<and> length data = length val"
  using from_hex_bytes_length[of t "fst (from_hex_pairs t)"]
  by (auto simp: pod_from_hex_def from_hex_into_def from_hex_def from_hex_pairs_eq Let_def split: prod.splits if_splits)


section \<open>Base 64 is read back\<close>

text \<open>The code by groups.\<close>

fun encode_groups :: "bytes \<Rightarrow> string" where
  "encode_groups (a # b # c # data) = encode_group a b c @ encode_groups data"
| "encode_groups [a, b] = take 3 (encode_group a b 0) @ ''=''"
| "encode_groups [a] = take 2 (encode_group a 0 0) @ ''==''"
| "encode_groups [] = []"

fun decode_groups :: "string \<Rightarrow> bytes" where
  "decode_groups (c0 # c1 # c2 # c3 # s) =
     decode_group (base64_value [c0] 0) (base64_value [c1] 0) (base64_value [c2] 0) (base64_value [c3] 0) @ decode_groups s"
| "decode_groups _ = []"

lemma length_encode_group [simp]: "length (encode_group a b c) = 4"
  by (simp add: encode_group_def Let_def)

lemma upt_first: "[0..<Suc n] = 0 # map Suc [0..<n]"
  by (simp add: map_Suc_upt upt_conv_Cons)

lemma base64_decode_groups: "length s mod 4 = 0 \<Longrightarrow> base64_decode s = decode_groups s"
proof (induction s rule: decode_groups.induct)
  case (1 c0 c1 c2 c3 s)
  let ?v = base64_value and ?t = "c0 # c1 # c2 # c3 # s"
  obtain k where k: "length s = 4 * k" using 1 by (auto simp: mod_eq_0_iff_dvd dvd_def)
  have t: "length ?t = 4 * Suc k" using k by simp
  have shift: "?v ?t (n + 4) = ?v s n" for n by (simp add: base64_value_def)
  have first: "?v ?t 0 = ?v [c0] 0" "?v ?t 1 = ?v [c1] 0" "?v ?t 2 = ?v [c2] 0" "?v ?t 3 = ?v [c3] 0"
    by (simp_all add: base64_value_def)
  have "base64_decode ?t = concat (map (\<lambda>g. decode_group (?v ?t (4 * g)) (?v ?t (4 * g + 1)) (?v ?t (4 * g + 2)) (?v ?t (4 * g + 3)))
      [0..<Suc k])"
    unfolding base64_decode_def Let_def t by simp
  also have "\<dots> = decode_group (?v ?t 0) (?v ?t 1) (?v ?t 2) (?v ?t 3) @
      concat (map (\<lambda>g. decode_group (?v ?t (4 * g + 4)) (?v ?t (4 * g + 1 + 4)) (?v ?t (4 * g + 2 + 4)) (?v ?t (4 * g + 3 + 4))) [0..<k])"
    unfolding upt_first by (simp add: comp_def algebra_simps numeral_2_eq_2)
  also have "\<dots> = decode_groups ?t"
    using 1 k unfolding shift first by (simp add: base64_decode_def Let_def)
  finally show ?case .
qed (auto simp: base64_decode_def)

lemma base64_encode_groups: "base64_encode data = encode_groups data"
proof (induction data rule: encode_groups.induct)
  case (1 a b c data)
  let ?d = "a # b # c # data"
  define at where "at = (\<lambda>d index. if index < length d then d ! index else (0 :: u8))"
  define miss where "miss = (3 - length data mod 3) mod 3"
  define n where "n = 4 * (length data + miss) div 3"
  define ret where "ret = concat (map (\<lambda>i. encode_group (at data (i * 3)) (at data (i * 3 + 1)) (at data (i * 3 + 2))) [0..<n div 4])"
  have miss': "(3 - length ?d mod 3) mod 3 = miss"
  proof -
    have "length ?d mod 3 = (length data + 3) mod 3" by simp
    then show ?thesis unfolding miss_def by (simp only: mod_add_self2)
  qed
  have "3 dvd length data + miss"
  proof -
    have "length data mod 3 = 0 \<or> length data mod 3 = 1 \<or> length data mod 3 = 2" by linarith
    then have "(length data + miss) mod 3 = 0" unfolding miss_def by (auto simp: mod_add_left_eq[symmetric, of "length data"])
    then show ?thesis by (simp add: mod_eq_0_iff_dvd)
  qed
  then obtain k where k: "length data + miss = 3 * k" by (auto simp: dvd_def)
  have n: "n = 4 * k" "4 * (length ?d + miss) div 3 = 4 * Suc k" "n div 4 = k" using k by (simp_all add: n_def)
  have len: "length (concat (map (\<lambda>i. encode_group (f i) (g i) (h i)) xs)) = 4 * length xs" for f g h :: "nat \<Rightarrow> u8" and xs
    by (induction xs) simp_all
  have at: "at ?d (m + 3) = at data m" for m by (simp add: at_def)
  have at0: "at ?d 0 = a" "at ?d 1 = b" "at ?d 2 = c" by (simp_all add: at_def)
  have "concat (map (\<lambda>i. encode_group (at ?d (i * 3)) (at ?d (i * 3 + 1)) (at ?d (i * 3 + 2))) [0..<Suc k]) =
      encode_group (at ?d 0) (at ?d 1) (at ?d 2) @ concat (map (\<lambda>i. encode_group (at ?d (i * 3 + 3)) (at ?d (i * 3 + 1 + 3)) (at ?d (i * 3 + 2 + 3))) [0..<k])"
    unfolding upt_first by (simp add: comp_def algebra_simps numeral_2_eq_2)
  also have "\<dots> = encode_group a b c @ ret" unfolding at at0 ret_def n(3) ..
  finally have groups: "concat (map (\<lambda>i. encode_group (at ?d (i * 3)) (at ?d (i * 3 + 1)) (at ?d (i * 3 + 2))) [0..<Suc k]) = encode_group a b c @ ret" .
  have upd: "foldl (\<lambda>ret i. ret[4 * Suc k - i - 1 := CHR ''='']) (xs @ ys) is = xs @ foldl (\<lambda>ret i. ret[n - i - 1 := CHR ''='']) ys is"
    if "length xs = 4" "length ys = n" "\<forall>i \<in> set is. i < n" for xs ys :: string and "is"
    using that
  proof (induction "is" arbitrary: ys)
    case (Cons i "is")
    then have e: "4 * Suc k - i - 1 = length xs + (n - i - 1)" using n(1) by simp
    have "(xs @ ys)[4 * Suc k - i - 1 := CHR ''=''] = xs @ ys[n - i - 1 := CHR ''='']"
      unfolding e by (simp add: list_update_append)
    then show ?case using Cons by simp
  qed simp
  have "miss \<le> 2" using mod_less_divisor[of 3 "3 - length data mod 3"] unfolding miss_def by linarith
  then have small: "\<forall>i \<in> set [0..<miss]. i < n" using k n(1) by auto
  have d4: "4 * Suc k div 4 = Suc k" by simp
  have "base64_encode ?d = foldl (\<lambda>ret i. ret[4 * Suc k - i - 1 := CHR ''='']) (encode_group a b c @ ret) [0..<miss]"
    unfolding base64_encode_def Let_def miss' n(2) d4
      groups[unfolded at_def] ..
  also have "\<dots> = encode_group a b c @ foldl (\<lambda>ret i. ret[n - i - 1 := CHR ''='']) ret [0..<miss]"
    by (rule upd) (use small in \<open>simp_all add: ret_def len n\<close>)
  also have "foldl (\<lambda>ret i. ret[n - i - 1 := CHR ''='']) ret [0..<miss] = base64_encode data"
    by (simp add: base64_encode_def Let_def ret_def n_def miss_def at_def)
  finally show ?case using 1 by simp
qed (simp_all add: base64_encode_def Let_def encode_group_def upt_rec)


lemma base64_char: "n < 64 \<Longrightarrow> base64_value [to_base64 ! n] 0 = word_of_nat n"
proof -
  have "\<forall>n \<in> set [0..<64]. from_base64 ! of_char (to_base64 ! n) = word_of_nat n \<and> of_char (to_base64 ! n) \<le> (of_char (CHR ''z'') :: nat)"
    by code_simp
  then show "n < 64 \<Longrightarrow> base64_value [to_base64 ! n] 0 = word_of_nat n" by (simp add: base64_value_def)
qed

lemma base64_char_word: "w AND 0x3f = w \<Longrightarrow> base64_value [to_base64 ! unat w] 0 = (w :: u8)"
proof -
  assume w: "w AND 0x3f = w"
  have "unat (w AND mask 6) < 64" by (simp add: unat_and_mask_eq_mod del: mask_numeral)
  then have "unat w < 64" using w by (simp add: mask_eq_exp_minus_1)
  then show ?thesis by (simp add: base64_char)
qed

lemma base64_pad: "base64_value [CHR ''=''] 0 = 0xff"
  by code_simp

lemma sextets:
  fixes a b c :: u8
  defines "s0 \<equiv> drop_bit 2 (a AND 0xfc)" and "s1 \<equiv> push_bit 4 (a AND 0x03) OR drop_bit 4 (b AND 0xf0)"
    and "s2 \<equiv> push_bit 2 (b AND 0x0f) OR drop_bit 6 (c AND 0xc0)" and "s3 \<equiv> c AND 0x3f"
  shows "encode_group a b c = [to_base64 ! unat s0, to_base64 ! unat s1, to_base64 ! unat s2, to_base64 ! unat s3]"
    and "s0 AND 0x3f = s0" "s1 AND 0x3f = s1" "s2 AND 0x3f = s2" "s3 AND 0x3f = s3"
    and "decode_group s0 s1 s2 s3 = [a, b, c]" "decode_group s0 s1 s2 0xff = [a, b]" "decode_group s0 s1 0xff 0xff = [a]"
proof -
  note defs = s0_def s1_def s2_def s3_def
  have p1: "push_bit 4 (a AND 0x03) + drop_bit 4 (b AND 0xf0) = s1" unfolding defs
    by (rule plus_or, rule byte_bits) (auto simp: bit_simps)
  have p2: "push_bit 2 (b AND 0x0f) + drop_bit 6 (c AND 0xc0) = s2" unfolding defs
    by (rule plus_or, rule byte_bits) (auto simp: bit_simps)
  show "encode_group a b c = [to_base64 ! unat s0, to_base64 ! unat s1, to_base64 ! unat s2, to_base64 ! unat s3]"
    unfolding encode_group_def Let_def p1 p2 unfolding s0_def s3_def ..
  show "s0 AND 0x3f = s0" "s1 AND 0x3f = s1" "s2 AND 0x3f = s2" "s3 AND 0x3f = s3"
    unfolding defs by (rule byte_bits; auto simp: bit_simps)+
  have q: "push_bit 2 (s0 AND 0x3f) + drop_bit 4 (s1 AND 0x30) = push_bit 2 (s0 AND 0x3f) OR drop_bit 4 (s1 AND 0x30)"
    "push_bit 4 (s1 AND 0x0f) + drop_bit 2 (s2 AND 0x3c) = push_bit 4 (s1 AND 0x0f) OR drop_bit 2 (s2 AND 0x3c)"
    "push_bit 6 (s2 AND 0x03) + (s3 AND 0x3f) = push_bit 6 (s2 AND 0x03) OR (s3 AND 0x3f)"
    by (rule plus_or, rule byte_bits, auto simp: bit_simps)+
  have d: "push_bit 2 (s0 AND 0x3f) + drop_bit 4 (s1 AND 0x30) = a" unfolding q unfolding defs
    by (rule byte_bits) (auto simp: bit_simps; simp add: numeral_2_eq_2 numeral_3_eq_3)
  moreover have e: "push_bit 4 (s1 AND 0x0f) + drop_bit 2 (s2 AND 0x3c) = b" unfolding q unfolding defs
    by (rule byte_bits) (auto simp: bit_simps; simp add: numeral_2_eq_2 numeral_3_eq_3)
  moreover have e: "push_bit 6 (s2 AND 0x03) + (s3 AND 0x3f) = c" unfolding q unfolding defs
    by (rule byte_bits) (auto simp: bit_simps; simp add: numeral_2_eq_2 numeral_3_eq_3)
  moreover have ne: "w \<noteq> 0xff" if "w AND 0x3f = (w :: u8)" for w using that by auto
  moreover have "s1 \<noteq> 0xff" "s2 \<noteq> 0xff" "s3 \<noteq> 0xff" using ne \<open>s1 AND 0x3f = s1\<close> \<open>s2 AND 0x3f = s2\<close> \<open>s3 AND 0x3f = s3\<close> by blast+
  ultimately show "decode_group s0 s1 s2 s3 = [a, b, c]" "decode_group s0 s1 s2 0xff = [a, b]" "decode_group s0 s1 0xff 0xff = [a]"
    unfolding decode_group_def Let_def by simp_all
qed

lemma take_4: "take 3 [w, x, y, z] = [w, x, y]" "take 2 [w, x, y, z] = [w, x]"
  by simp_all

lemma decode_encode_groups: "decode_groups (encode_groups data) = data"
proof (induction data rule: encode_groups.induct)
  case (1 a b c data)
  then show ?case unfolding encode_groups.simps sextets(1) append.simps decode_groups.simps sextets(2-5)[THEN base64_char_word] sextets(6) by simp
next
  case (2 a b)
  show ?case unfolding encode_groups.simps sextets(1) take_4(1) append.simps decode_groups.simps
      sextets(2-5)[THEN base64_char_word] base64_pad sextets(7) by simp
next
  case (3 a)
  show ?case unfolding encode_groups.simps sextets(1) take_4(2) append.simps decode_groups.simps
      sextets(2-5)[THEN base64_char_word] base64_pad sextets(8) by simp
qed simp

lemma length_encode_groups: "length (encode_groups data) mod 4 = 0"
  by (induction data rule: encode_groups.induct) simp_all

lemma base64_decode_encode: "base64_decode (base64_encode data) = data"
  by (simp add: base64_encode_groups base64_decode_groups length_encode_groups decode_encode_groups)

section \<open>Addresses are read back\<close>

lemma takeWhile_nul: "list_all (\<lambda>ch. ch \<noteq> CHR 0x00) s \<Longrightarrow> c_str s = s"
  by (simp add: c_str_def list_all_iff)

lemma digits_not_nul: "list_all is_digit s \<Longrightarrow> list_all (\<lambda>ch. ch \<noteq> CHR 0x00) s"
  by (auto simp: list_all_iff is_digit_def)

lemma scan_printed:
  assumes "n < 2 ^ 32" and "rest = [] \<or> \<not> is_digit (hd rest)"
  shows "scan_unsigned (nat_to_string n @ rest) = Inr (Some (word_of_nat n, rest))"
proof -
  let ?ds = "nat_to_string n"
  obtain d ds where ds: "?ds = d # ds" by (cases ?ds) simp_all
  then have d: "is_digit d" using nat_to_string_digits[of n] by simp
  then have c: "\<not> is_space d" "d \<noteq> CHR ''-''" "d \<noteq> CHR ''+''" by (auto simp: is_digit_not_space is_digit_def)
  have s1: "dropWhile is_space (?ds @ rest) = ?ds @ rest" using c(1) by (simp add: ds)
  have h: "hd (?ds @ rest) = d" "?ds @ rest \<noteq> []" by (simp_all add: ds)
  show ?thesis unfolding scan_unsigned_def Let_def s1 using h c assms(1) takeWhile_digits[OF nat_to_string_digits assms(2), of n] by simp
qed

lemma ip_bytes_split: "ucast (drop_bit k ip AND 0xFF) = (b :: u8) \<Longrightarrow> unat b = unat (ip :: u32) div 2 ^ k mod 256"
proof -
  assume "ucast (drop_bit k ip AND 0xFF) = (b :: u8)"
  moreover have "unat (drop_bit k ip AND mask 8) = unat ip div 2 ^ k mod 256"
    by (simp only: unat_and_mask_eq_mod unat_drop_bit) simp
  then have "unat (drop_bit k ip AND 0xFF) = unat ip div 2 ^ k mod 256" by (simp add: mask_eq_exp_minus_1)
  ultimately show ?thesis by (auto simp: unsigned_ucast_eq take_bit_nat_def)
qed


lemma print_bytes_nat: "print_bytes [a, b, c, d] =
    nat_to_string (unat a) @ ''.'' @ nat_to_string (unat b) @ ''.'' @ nat_to_string (unat c) @ ''.'' @ nat_to_string (unat d)"
  unfolding print_bytes_def uint_nat int_to_string_nat by simp

lemma mask_255: "0xFF = (mask 8 :: u32)"
  by (simp add: mask_eq_exp_minus_1)

lemma ip_byte_value: "word_of_nat (unat (ucast (w AND 0xFF) :: u8)) = (w AND 0xFF :: u32)"
proof -
  have "unat (w AND mask 8) < 256" by (simp add: unat_and_mask_eq_mod del: mask_numeral)
  then have "unat (ucast (w AND 0xFF) :: u8) = unat (w AND 0xFF)" by (simp add: unsigned_ucast_eq take_bit_nat_def mask_255 del: mask_numeral)
  then show ?thesis by simp
qed

lemma pack_bytes: "push_bit 24 (drop_bit 24 ip AND mask 8) OR push_bit 16 (drop_bit 16 ip AND mask 8) OR
    push_bit 8 (drop_bit 8 ip AND mask 8) OR ip AND mask 8 = (ip :: u32)"
proof (rule bit_word_eqI)
  fix n assume "n < LENGTH(32)"
  then consider "n < 8" | "8 \<le> n" "n < 16" | "16 \<le> n" "n < 24" | "24 \<le> n" "n < 32" by fastforce
  then show "bit (push_bit 24 (drop_bit 24 ip AND mask 8) OR push_bit 16 (drop_bit 16 ip AND mask 8) OR
    push_bit 8 (drop_bit 8 ip AND mask 8) OR ip AND mask 8) n = bit ip n"
    by cases (auto simp: bit_simps simp del: mask_numeral)
qed

lemma nth_4: "[a, b, c, d] ! 0 = a" "[a, b, c, d] ! 1 = b" "[a, b, c, d] ! 2 = c" "[a, b, c, d] ! 3 = d"
  by simp_all

lemma pack_ip_bytes: "pack_ip (map (\<lambda>b. word_of_nat (unat b)) (ip_bytes ip)) = ip"
  unfolding pack_ip_def ip_bytes_def list.map nth_4 ip_byte_value unfolding mask_255 by (rule pack_bytes)

lemma byte_u32 [simp]: "unat (ucast (b :: u8) :: u32) = unat b"
  by (rule unat_ucast_less) (use unat_byte_less[of b] in \<open>simp del: unat_byte_less\<close>)

lemma scan_ip:
  assumes "rest = [] \<or> \<not> is_digit (hd rest)"
  shows "scan (ip_format @ items) (print_bytes (ip_bytes ip) @ rest) =
    bindR (scan items rest) (\<lambda>vs. Inr (map (\<lambda>b. word_of_nat (unat b)) (ip_bytes ip) @ vs))"
proof -
  obtain a b c d where b: "ip_bytes ip = [a, b, c, d]" by (simp add: ip_bytes_def)
  have small: "unat (x :: u8) < 2 ^ 32" for x using unat_byte_less[of x] by (simp del: unat_byte_less)
  have dot: "CHR ''.'' # xs = [] \<or> \<not> is_digit (hd (CHR ''.'' # xs))" for xs by (simp add: is_digit_def)
  show ?thesis unfolding b print_bytes_nat ip_format_def
    by (simp add: scan_printed[OF small dot] scan_printed[OF small assms] bindR_assoc)
qed

lemma print_bytes_c_str: "c_str (print_bytes (ip_bytes ip) @ s) = print_bytes (ip_bytes ip) @ c_str s"
proof -
  obtain a b c d where b: "ip_bytes ip = [a, b, c, d]" by (simp add: ip_bytes_def)
  have "list_all (\<lambda>ch. ch \<noteq> CHR 0x00) (print_bytes (ip_bytes ip))"
    unfolding b print_bytes_nat using digits_not_nul[OF nat_to_string_digits] by simp
  then show ?thesis by (simp add: c_str_def list_all_iff takeWhile_append2)
qed

lemma ip_bytes_small: "\<not> 0xff < (ucast (b :: u8) :: u32)"
  using unat_byte_less[of b] by (simp add: word_less_nat_alt del: unat_byte_less)

lemma parse_printed_ip: "parse_ip_address (ip_address_to_string ip) = Inr (Some ip)"
proof -
  have "scan ip_format (c_str (print_bytes (ip_bytes ip))) = Inr (map (\<lambda>b. word_of_nat (unat b)) (ip_bytes ip))"
  proof -
    have "c_str (print_bytes (ip_bytes ip)) = print_bytes (ip_bytes ip)" using print_bytes_c_str[of ip "[]"] by (simp add: c_str_def)
    then show ?thesis using scan_ip[of "[]" "[]" ip] by simp
  qed
  moreover have "length (ip_bytes ip) = 4" by (simp add: ip_bytes_def)
  ultimately show ?thesis using ip_bytes_small pack_ip_bytes[of ip] by (simp add: parse_ip_address_def ip_address_to_string_def)
qed

lemma parse_printed_ip_port:
  "parse_ip_address_and_port (ip_address_and_port_to_string ip (ucast (port :: u16))) = Inr (True, Some ip, Some (ucast port))"
proof -
  let ?p = "ucast port :: u32" and ?ws = "map (\<lambda>b. word_of_nat (unat b) :: u32) (ip_bytes ip)"
  have small: "unat port < 65536" by (rule order.strict_trans2[OF unsigned_less]) simp
  then have p: "unat ?p = unat port" "unat port < 65536" using unat_ucast_less[of port, where 'b = 32] by simp_all
  have sg: "sint ?p = int n" if "unat ?p = n" "n < 65536" for n
    unfolding sint_uint uint_nat that(1) by (rule signed_take_bit_int_eq_self) (use that(2) in simp_all)
  have small: "unat ?p < 65536" using p by linarith
  have "sint ?p = int (unat ?p)" by (rule sg[OF refl small])
  then have printed: "ip_address_and_port_to_string ip ?p = print_bytes (ip_bytes ip) @ CHR '':'' # nat_to_string (unat port)"
    unfolding ip_address_and_port_to_string_def \<open>sint ?p = int (unat ?p)\<close> int_to_string_nat p(1) by simp
  have colon: "CHR '':'' # nat_to_string (unat port) = [] \<or> \<not> is_digit (hd (CHR '':'' # nat_to_string (unat port)))" by (simp add: is_digit_def)
  have "c_str (CHR '':'' # nat_to_string (unat port)) = CHR '':'' # nat_to_string (unat port)"
    using digits_not_nul[OF nat_to_string_digits[of "unat port"]] by (intro takeWhile_nul) simp
  then have s: "scan (ip_format @ [Literal CHR '':'', Unsigned]) (c_str (ip_address_and_port_to_string ip ?p)) = Inr (?ws @ [?p])"
    unfolding printed print_bytes_c_str using scan_ip[OF colon] scan_printed[of "unat port" "[]"] p
    by (simp add: word_unat_eq_iff[of "word_of_nat _" ?p] unat_of_nat)
  have len: "length (ip_bytes ip) = 4" by (simp add: ip_bytes_def)
  have "\<not> (\<exists>i < 4. 0xff < (?ws @ [?p]) ! i)" using ip_bytes_small len by (auto simp: nth_append)
  moreover have "(?ws @ [?p]) ! 4 = ?p" using len by (simp add: nth_append)
  moreover have "\<not> 65535 < ?p" using p by (simp add: word_less_nat_alt)
  moreover have "pack_ip (?ws @ [?p]) = ip" using pack_ip_bytes[of ip] len by (simp add: pack_ip_def nth_append)
  ultimately show ?thesis using len by (simp add: parse_ip_address_and_port_def s)
qed


section \<open>Deviations\<close>

text \<open>\<open>is_ip_address_private\<close> holds of the public addresses and fails for the private ones.\<close>

lemma is_ip_address_private_inverted:
  "is_ip_address_private (pack_ip [8, 8, 8, 8]) \<and> \<not> is_ip_address_private (pack_ip [10, 0, 0, 1])"
  by code_simp

text \<open>The overload of \<open>extract\<close> with an offset returns what follows the delimiter instead of what precedes it.\<close>

lemma extract_at_skips: "extract_at ''key=value'' (CHR ''='') 0 = Inr (''val'', 4)"
  by code_simp

section \<open>Properties\<close>

text \<open>
  A string is accepted as hexadecimal exactly if it is what the printer gives for some bytes, up to the case of the letters, and
  these bytes are returned; the functions that report errors by a flag agree with those that throw, and a fixed-size value is
  read only from a string of its size.
\<close>

theorem hex_text_read_back:
  "(from_hex t = Inr data \<longleftrightarrow> to_hex data = map to_lower t) \<and>
   (from_hex_append t xs = (xs @ data, True) \<longleftrightarrow> from_hex t = Inr data) \<and>
   (pod_from_hex t val = (data, True) \<longleftrightarrow> from_hex t = Inr data \<and> length data = length val)"
  using from_hex_iff from_hex_append_iff pod_from_hex_iff by blast

text \<open>
  Data in base 64 are decoded to what was encoded, with or without padding, and every address of the internet is parsed
  back from its text, with its port.
\<close>

theorem base64_and_addresses_read_back:
  "base64_decode (base64_encode data) = data \<and>
   parse_ip_address (ip_address_to_string ip) = Inr (Some ip) \<and>
   parse_ip_address_and_port (ip_address_and_port_to_string ip (ucast (port :: u16))) = Inr (True, Some ip, Some (ucast port))"
  by (simp add: base64_decode_encode parse_printed_ip parse_printed_ip_port)

end
