(* ===== verification/Http.thy ===== *)
theory Http
  imports TextBase
begin

text \<open>
  The parsers of HTTP messages: the state machines \<open>RequestParser\<close> and \<open>ResponseParser\<close> of \<open>src/src/http/\<close>, fed with one
  character at a time, and the printers of \<open>types.cpp\<close>. The two classes have the same states for the version and for the
  headers, which are modelled once, over the fields the two messages share. \<open>boost::lexical_cast\<close> is an argument.
\<close>

section \<open>Messages\<close>

type_synonym s32 = "32 word"

record header =
  h_name :: string
  h_value :: string

record http_message =
  http_version_major :: s32
  http_version_minor :: s32
  headers :: "header list"
  keep_alive :: bool
  content_length :: u64

record request = http_message +
  req_method :: string
  req_uri :: string
  basic_authorization :: string
  host :: string

record response = http_message +
  status :: s32
  status_text :: string

definition no_header :: header where
  "no_header = \<lparr>h_name = [], h_value = []\<rparr>"

definition new_request :: request where
  "new_request = \<lparr>http_version_major = 0, http_version_minor = 0, headers = [], keep_alive = True, content_length = - 1,
     req_method = [], req_uri = [], basic_authorization = [], host = []\<rparr>"

definition new_response :: response where
  "new_response = \<lparr>http_version_major = 0, http_version_minor = 0, headers = [], keep_alive = True, content_length = - 1,
     status = 0, status_text = []\<rparr>"

definition has_content_length :: "'m http_message_scheme \<Rightarrow> bool" where
  "has_content_length m \<longleftrightarrow> content_length m \<noteq> - 1"

definition response_to :: "request \<Rightarrow> response" where
  "response_to req = new_response\<lparr>http_version_major := http_version_major req, http_version_minor := http_version_minor req,
     keep_alive := keep_alive req\<rparr>"

section \<open>Printing\<close>

definition smappings :: "(int \<times> string) list" where
  "smappings = [(200, ''OK''), (400, ''Bad request''), (401, ''Unauthorized''), (403, ''Forbidden''), (404, ''Not found''),
     (422, ''Unprocessable Entity''), (500, ''Internal Error''), (501, ''Not implemented''),
     (502, ''Service temporarily overloaded''), (503, ''Gateway timeout'')]"

definition status_to_string :: "int \<Rightarrow> string" where
  "status_to_string code = (case find (\<lambda>m. fst m = code) smappings of Some m \<Rightarrow> snd m | None \<Rightarrow> ''Unknown'')"

definition CRLF :: string where
  "CRLF = [CHR 0x0D, CHR 0x0A]"

definition print_header :: "header \<Rightarrow> string" where
  "print_header h = h_name h @ '': '' @ h_value h @ CRLF"

definition print_connection :: "'m http_message_scheme \<Rightarrow> string" where
  "print_connection m =
     (if http_version_major m = 1 \<and> http_version_minor m = 0 \<and> keep_alive m then ''Connection: keep-alive'' @ CRLF else [])"

definition print_length :: "'m http_message_scheme \<Rightarrow> string" where
  "print_length m =
     (if has_content_length m then ''Content-Length: '' @ nat_to_string (unat (content_length m)) @ CRLF @ CRLF else CRLF)"

definition print_version :: "'m http_message_scheme \<Rightarrow> string" where
  "print_version m = ''HTTP/'' @ int_to_string (sint (http_version_major m)) @ ''.'' @ int_to_string (sint (http_version_minor m))"

definition request_to_string :: "request \<Rightarrow> string" where
  "request_to_string r =
     req_method r @ '' '' @ req_uri r @ '' '' @ print_version r @ CRLF @
     (if host r \<noteq> [] then ''Host: '' @ host r @ CRLF else []) @
     concat (map print_header (headers r)) @
     (if basic_authorization r \<noteq> [] then ''Authorization: Basic '' @ basic_authorization r @ CRLF else []) @
     print_connection r @ print_length r"

definition response_to_string :: "response \<Rightarrow> string" where
  "response_to_string r =
     print_version r @ '' '' @ int_to_string (sint (status r)) @ '' '' @
     (if status_text r = [] then status_to_string (sint (status r)) else status_text r) @ CRLF @
     concat (map print_header (headers r)) @ print_connection r @ print_length r"

section \<open>Characters\<close>

text \<open>\<open>char\<close> is signed, so that the upper half of the characters is negative.\<close>

definition is_char :: "char \<Rightarrow> bool" where
  "is_char ch \<longleftrightarrow> of_char ch \<le> (127 :: nat)"

definition is_ctl :: "char \<Rightarrow> bool" where
  "is_ctl ch \<longleftrightarrow> of_char ch \<le> (31 :: nat) \<or> of_char ch = (127 :: nat)"

definition is_tspecial :: "char \<Rightarrow> bool" where
  "is_tspecial ch \<longleftrightarrow> ch \<in> set (''()<>@,;:'' @ [CHR 0x5C, CHR 0x22] @ ''/[]?={} '' @ [CHR 0x09])"

definition not_token :: "char \<Rightarrow> bool" where
  "not_token ch \<longleftrightarrow> \<not> is_char ch \<or> is_ctl ch \<or> is_tspecial ch"

section \<open>Parsing\<close>

datatype parser_state =
    S_method_start | S_method | S_uri
  | S_http_version_h | S_http_version_t_1 | S_http_version_t_2 | S_http_version_p | S_http_version_slash
  | S_http_version_major_start | S_http_version_major | S_http_version_minor_start | S_http_version_minor
  | S_status_code_1 | S_status_code_2 | S_status_code_3 | S_status_code_space | S_status_text
  | S_expecting_newline_1 | S_header_line_start | S_header_lws | S_header_name | S_space_before_header_value | S_header_value
  | S_expecting_newline_2 | S_expecting_newline_3 | S_good | S_bad

text \<open>The numbers are of type \<open>int\<close>: \<open>n * 10 + input - '0'\<close>, in this order, is undefined when a result does not fit.\<close>

definition fits_int :: "int \<Rightarrow> bool" where
  "fits_int x \<longleftrightarrow> - (2 ^ 31) \<le> x \<and> x < 2 ^ 31"

definition add_digit :: "s32 \<Rightarrow> char \<Rightarrow> s32 result" where
  "add_digit n ch =
     (let t = sint n * 10; u = t + of_char ch; v = u - of_char (CHR ''0'')
      in if fits_int t \<and> fits_int u \<and> fits_int v then Inr (word_of_int v) else Inl Undefined)"

definition add_major :: "char \<Rightarrow> 'm http_message_scheme \<Rightarrow> 'm http_message_scheme result" where
  "add_major ch m = bindR (add_digit (http_version_major m) ch) (\<lambda>v. Inr (m\<lparr>http_version_major := v\<rparr>))"

definition add_minor :: "char \<Rightarrow> 'm http_message_scheme \<Rightarrow> 'm http_message_scheme result" where
  "add_minor ch m = bindR (add_digit (http_version_minor m) ch) (\<lambda>v. Inr (m\<lparr>http_version_minor := v\<rparr>))"

text \<open>The states of the version; \<open>None\<close> for another state. The last one differs between the parsers.\<close>

fun version_step :: "parser_state \<Rightarrow> 'm http_message_scheme \<Rightarrow> char \<Rightarrow> (parser_state \<times> 'm http_message_scheme) result option" where
  "version_step S_http_version_h m ch = Some (Inr (if ch = CHR ''H'' then S_http_version_t_1 else S_bad, m))"
| "version_step S_http_version_t_1 m ch = Some (Inr (if ch = CHR ''T'' then S_http_version_t_2 else S_bad, m))"
| "version_step S_http_version_t_2 m ch = Some (Inr (if ch = CHR ''T'' then S_http_version_p else S_bad, m))"
| "version_step S_http_version_p m ch = Some (Inr (if ch = CHR ''P'' then S_http_version_slash else S_bad, m))"
| "version_step S_http_version_slash m ch = Some (Inr (if ch = CHR ''/'' then S_http_version_major_start else S_bad, m))"
| "version_step S_http_version_major_start m ch =
     Some (if is_digit ch then bindR (add_major ch m) (\<lambda>m'. Inr (S_http_version_major, m')) else Inr (S_bad, m))"
| "version_step S_http_version_major m ch =
     Some (if ch = CHR ''.'' then Inr (S_http_version_minor_start, m)
           else if is_digit ch then bindR (add_major ch m) (\<lambda>m'. Inr (S_http_version_major, m')) else Inr (S_bad, m))"
| "version_step S_http_version_minor_start m ch =
     Some (if is_digit ch then bindR (add_minor ch m) (\<lambda>m'. Inr (S_http_version_minor, m')) else Inr (S_bad, m))"
| "version_step _ m ch = None"

text \<open>\<open>back\<close> and \<open>pop_back\<close> of an empty vector are undefined.\<close>

definition update_back :: "(header \<Rightarrow> header) \<Rightarrow> 'm http_message_scheme \<Rightarrow> 'm http_message_scheme result" where
  "update_back f m = (if headers m = [] then Inl Undefined else Inr (m\<lparr>headers := butlast (headers m) @ [f (last (headers m))]\<rparr>))"

definition pop_header :: "'m http_message_scheme \<Rightarrow> 'm http_message_scheme result" where
  "pop_header m = (if headers m = [] then Inl Undefined else Inr (m\<lparr>headers := butlast (headers m)\<rparr>))"

definition add_name :: "char \<Rightarrow> header \<Rightarrow> header" where
  "add_name ch h = h\<lparr>h_name := h_name h @ [ch]\<rparr>"

definition add_value :: "char \<Rightarrow> header \<Rightarrow> header" where
  "add_value ch h = h\<lparr>h_value := h_value h @ [ch]\<rparr>"

text \<open>The states of the headers. The argument is \<open>process_ready_header\<close>; \<open>None\<close> is its result \<open>false\<close>.\<close>

type_synonym 'm ready_header = "header \<Rightarrow> 'm http_message_scheme \<Rightarrow> 'm http_message_scheme option result"

fun header_step :: "'m ready_header \<Rightarrow> parser_state \<Rightarrow> header \<Rightarrow> 'm http_message_scheme \<Rightarrow> char \<Rightarrow>
    (parser_state \<times> header \<times> 'm http_message_scheme) result" where
  "header_step ready S_expecting_newline_1 low m ch = Inr (if ch = CHR 0x0A then S_header_line_start else S_bad, low, m)"
| "header_step ready S_header_line_start low m ch =
     (if ch = CHR 0x0D then Inr (S_expecting_newline_3, low, m)
      else if headers m \<noteq> [] \<and> (ch = CHR '' '' \<or> ch = CHR 0x09) then Inr (S_header_lws, low, m)
      else if not_token ch then Inr (S_bad, low, m)
      else Inr (S_header_name, add_name (to_lower ch) low, m\<lparr>headers := headers m @ [add_name ch no_header]\<rparr>))"
| "header_step ready S_header_lws low m ch =
     (if ch = CHR 0x0D then Inr (S_expecting_newline_2, low, m)
      else if ch = CHR '' '' \<or> ch = CHR 0x09 then Inr (S_header_lws, low, m)
      else if is_ctl ch then Inr (S_bad, low, m)
      else bindR (update_back (add_value ch) m) (\<lambda>m'. Inr (S_header_value, add_value (to_lower ch) low, m')))"
| "header_step ready S_header_name low m ch =
     (if ch = CHR '':'' then Inr (S_space_before_header_value, low, m)
      else if not_token ch then Inr (S_bad, low, m)
      else bindR (update_back (add_name ch) m) (\<lambda>m'. Inr (S_header_name, add_name (to_lower ch) low, m')))"
| "header_step ready S_space_before_header_value low m ch = Inr (if ch = CHR '' '' then S_header_value else S_bad, low, m)"
| "header_step ready S_header_value low m ch =
     (if ch = CHR 0x0D
      then bindR (ready low m) (\<lambda>r. case r of None \<Rightarrow> Inr (S_bad, low, m) | Some m' \<Rightarrow> Inr (S_expecting_newline_2, no_header, m'))
      else if is_ctl ch then Inr (S_bad, low, m)
      else bindR (update_back (add_value ch) m) (\<lambda>m'. Inr (S_header_value, add_value (to_lower ch) low, m')))"
| "header_step ready S_expecting_newline_2 low m ch = Inr (if ch = CHR 0x0A then S_header_line_start else S_bad, low, m)"
| "header_step ready S_expecting_newline_3 low m ch = Inr (if ch = CHR 0x0A then S_good else S_bad, low, m)"
| "header_step ready _ low m ch = Inr (S_bad, low, m)"

definition http_1_1 :: "'m http_message_scheme \<Rightarrow> bool" where
  "http_1_1 m \<longleftrightarrow> http_version_major m = 1 \<and> http_version_minor m = 1"

subsection \<open>Requests\<close>

definition strip_basic :: "string \<Rightarrow> string" where
  "strip_basic value =
     (let blank = (\<lambda>ch. ch = CHR '' '' \<or> ch = CHR 0x09)
      in rev (dropWhile blank (rev (dropWhile blank (drop 5 value)))))"

definition request_ready_header :: "(string \<Rightarrow> u64 option) \<Rightarrow> header \<Rightarrow> request \<Rightarrow> request option result" where
  "request_ready_header lexical_cast low req =
     (if h_name low = ''content-length'' then
        (case lexical_cast (h_value low) of None \<Rightarrow> Inr None
         | Some n \<Rightarrow> bindR (pop_header (req\<lparr>content_length := n\<rparr>)) (\<lambda>req'. Inr (Some req')))
      else if h_name low = ''host'' then bindR (pop_header (req\<lparr>host := h_value low\<rparr>)) (\<lambda>req'. Inr (Some req'))
      else if h_name low = ''connection'' then
        (if h_value low = ''close'' then bindR (pop_header (req\<lparr>keep_alive := False\<rparr>)) (\<lambda>req'. Inr (Some req'))
         else if h_value low = ''keep-alive'' then bindR (pop_header (req\<lparr>keep_alive := True\<rparr>)) (\<lambda>req'. Inr (Some req'))
         else Inr None)
      else if h_name low = ''authorization'' then
        (if take 5 (h_value low) \<noteq> ''basic'' then Inr (Some req)
         else if headers req = [] then Inl Undefined
         else bindR (pop_header (req\<lparr>basic_authorization := strip_basic (h_value (last (headers req)))\<rparr>)) (\<lambda>req'. Inr (Some req')))
      else Inr (Some req))"

definition request_consume :: "(string \<Rightarrow> u64 option) \<Rightarrow> parser_state \<Rightarrow> header \<Rightarrow> request \<Rightarrow> char \<Rightarrow>
    (parser_state \<times> header \<times> request) result" where
  "request_consume lexical_cast st low req ch =
     (case version_step st req ch of
        Some r \<Rightarrow> bindR r (\<lambda>(st', req'). Inr (st', low, req'))
      | None \<Rightarrow>
          (case st of
             S_method_start \<Rightarrow> if not_token ch then Inr (S_bad, low, req) else Inr (S_method, low, req\<lparr>req_method := req_method req @ [ch]\<rparr>)
           | S_method \<Rightarrow>
               if ch = CHR '' '' then Inr (S_uri, low, req)
               else if not_token ch then Inr (S_bad, low, req)
               else Inr (S_method, low, req\<lparr>req_method := req_method req @ [ch]\<rparr>)
           | S_uri \<Rightarrow>
               if ch = CHR '' '' then Inr (S_http_version_h, low, req)
               else if is_ctl ch then Inr (S_bad, low, req)
               else Inr (S_uri, low, req\<lparr>req_uri := req_uri req @ [ch]\<rparr>)
           | S_http_version_minor \<Rightarrow>
               if ch = CHR 0x0D then Inr (S_expecting_newline_1, low, req\<lparr>keep_alive := http_1_1 req\<rparr>)
               else if is_digit ch then bindR (add_minor ch req) (\<lambda>req'. Inr (S_http_version_minor, low, req'))
               else Inr (S_bad, low, req)
           | _ \<Rightarrow> header_step (request_ready_header lexical_cast) st low req ch))"

subsection \<open>Responses\<close>

definition response_ready_header :: "(string \<Rightarrow> u64 option) \<Rightarrow> header \<Rightarrow> response \<Rightarrow> response option result" where
  "response_ready_header lexical_cast low req =
     (if h_name low = ''content-length'' then
        (case lexical_cast (h_value low) of None \<Rightarrow> Inr None
         | Some n \<Rightarrow> bindR (pop_header (req\<lparr>content_length := n\<rparr>)) (\<lambda>req'. Inr (Some req')))
      else if h_name low = ''connection'' then
        (if h_value low = ''close'' then bindR (pop_header (req\<lparr>keep_alive := False\<rparr>)) (\<lambda>req'. Inr (Some req'))
         else if h_value low = ''keep-alive'' then bindR (pop_header (req\<lparr>keep_alive := True\<rparr>)) (\<lambda>req'. Inr (Some req'))
         else Inr None)
      else Inr (Some req))"

definition add_status :: "char \<Rightarrow> response \<Rightarrow> response result" where
  "add_status ch r = bindR (add_digit (status r) ch) (\<lambda>v. Inr (r\<lparr>status := v\<rparr>))"

definition response_consume :: "(string \<Rightarrow> u64 option) \<Rightarrow> parser_state \<Rightarrow> header \<Rightarrow> response \<Rightarrow> char \<Rightarrow>
    (parser_state \<times> header \<times> response) result" where
  "response_consume lexical_cast st low req ch =
     (case version_step st req ch of
        Some r \<Rightarrow> bindR r (\<lambda>(st', req'). Inr (st', low, req'))
      | None \<Rightarrow>
          (case st of
             S_http_version_minor \<Rightarrow>
               if ch = CHR '' '' then Inr (S_status_code_1, low, req\<lparr>keep_alive := http_1_1 req\<rparr>)
               else if is_digit ch then bindR (add_minor ch req) (\<lambda>req'. Inr (S_http_version_minor, low, req'))
               else Inr (S_bad, low, req)
           | S_status_code_1 \<Rightarrow>
               if is_digit ch then bindR (add_status ch req) (\<lambda>req'. Inr (S_status_code_2, low, req')) else Inr (S_bad, low, req)
           | S_status_code_2 \<Rightarrow>
               if is_digit ch then bindR (add_status ch req) (\<lambda>req'. Inr (S_status_code_3, low, req')) else Inr (S_bad, low, req)
           | S_status_code_3 \<Rightarrow>
               if is_digit ch then bindR (add_status ch req) (\<lambda>req'. Inr (S_status_code_space, low, req')) else Inr (S_bad, low, req)
           | S_status_code_space \<Rightarrow> Inr (if ch = CHR '' '' then S_status_text else S_bad, low, req)
           | S_status_text \<Rightarrow>
               if ch = CHR 0x0D then Inr (S_expecting_newline_1, low, req)
               else if is_ctl ch then Inr (S_bad, low, req)
               else Inr (S_status_text, low, req\<lparr>status_text := status_text req @ [ch]\<rparr>)
           | _ \<Rightarrow> header_step (response_ready_header lexical_cast) st low req ch))"

subsection \<open>Feeding input\<close>

text \<open>The loop of \<open>parse\<close>: the state afterwards and the input it did not touch.\<close>

fun parse_loop :: "(parser_state \<Rightarrow> header \<Rightarrow> 'r \<Rightarrow> char \<Rightarrow> (parser_state \<times> header \<times> 'r) result) \<Rightarrow>
    parser_state \<Rightarrow> header \<Rightarrow> 'r \<Rightarrow> string \<Rightarrow> (parser_state \<times> header \<times> 'r \<times> string) result" where
  "parse_loop consume st low r [] = Inr (st, low, r, [])"
| "parse_loop consume st low r (ch # input) =
     (if st = S_good \<or> st = S_bad then Inr (st, low, r, ch # input)
      else bindR (consume st low r ch) (\<lambda>(st', low', r'). parse_loop consume st' low' r' input))"

definition parse_request :: "(string \<Rightarrow> u64 option) \<Rightarrow> parser_state \<Rightarrow> header \<Rightarrow> request \<Rightarrow> string \<Rightarrow>
    (parser_state \<times> header \<times> request \<times> string) result" where
  "parse_request lexical_cast = parse_loop (request_consume lexical_cast)"

definition parse_response :: "(string \<Rightarrow> u64 option) \<Rightarrow> parser_state \<Rightarrow> header \<Rightarrow> response \<Rightarrow> string \<Rightarrow>
    (parser_state \<times> header \<times> response \<times> string) result" where
  "parse_response lexical_cast = parse_loop (response_consume lexical_cast)"


section \<open>The parsers fed in pieces\<close>

lemma parse_loop_append:
  "parse_loop consume st low r (a @ b) =
     bindR (parse_loop consume st low r a) (\<lambda>(st', low', r', rest). if rest = [] then parse_loop consume st' low' r' b else Inr (st', low', r', rest @ b))"
proof (induction a arbitrary: st low r)
  case (Cons ch a)
  show ?case
  proof (cases "st = S_good \<or> st = S_bad")
    case False
    then show ?thesis using Cons.IH by (cases "consume st low r ch") (auto split: prod.splits)
  qed auto
qed simp

text \<open>Input that takes the parser from one state to another.\<close>

definition feeds :: "(parser_state \<Rightarrow> header \<Rightarrow> 'r \<Rightarrow> char \<Rightarrow> (parser_state \<times> header \<times> 'r) result) \<Rightarrow>
    parser_state \<times> header \<times> 'r \<Rightarrow> string \<Rightarrow> parser_state \<times> header \<times> 'r \<Rightarrow> bool" where
  "feeds consume x input y \<longleftrightarrow>
     (\<forall>rest. parse_loop consume (fst x) (fst (snd x)) (snd (snd x)) (input @ rest) = parse_loop consume (fst y) (fst (snd y)) (snd (snd y)) rest)"

lemma feeds_Nil: "feeds consume x [] x"
  by (simp add: feeds_def)

lemma feeds_append: "feeds consume x a y \<Longrightarrow> feeds consume y b z \<Longrightarrow> feeds consume x (a @ b) z"
  by (simp add: feeds_def)

lemma feeds_Cons: "st \<noteq> S_good \<Longrightarrow> st \<noteq> S_bad \<Longrightarrow> consume st low r ch = Inr y \<Longrightarrow> feeds consume y input z \<Longrightarrow>
    feeds consume (st, low, r) (ch # input) z"
  by (cases y) (simp add: feeds_def)

lemma feeds_char: "st \<noteq> S_good \<Longrightarrow> st \<noteq> S_bad \<Longrightarrow> consume st low r ch = Inr y \<Longrightarrow> feeds consume (st, low, r) [ch] y"
  by (erule feeds_Cons) (auto simp: feeds_Nil)

lemma feeds_two: "consume st low r a = Inr (st1, low1, r1) \<Longrightarrow> consume st1 low1 r1 b = Inr y \<Longrightarrow>
    st \<notin> {S_good, S_bad} \<Longrightarrow> st1 \<notin> {S_good, S_bad} \<Longrightarrow> feeds consume (st, low, r) [a, b] y"
  by (cases y) (simp add: feeds_def)

text \<open>A state that stays the same while it collects characters.\<close>

lemma feeds_many:
  assumes "st \<noteq> S_good" "st \<noteq> S_bad"
    and "\<And>low r ch. Q r \<Longrightarrow> P ch \<Longrightarrow> consume st low r ch = Inr (st, f low ch, g r ch) \<and> Q (g r ch)"
    and "list_all P input" and "Q r"
  shows "feeds consume (st, low, r) input (st, foldl f low input, foldl g r input)"
  using assms(4,5)
proof (induction input arbitrary: low r)
  case (Cons ch input)
  then have step: "consume st low r ch = Inr (st, f low ch, g r ch)" "Q (g r ch)" using assms(3)[of r ch low] by simp_all
  have "feeds consume (st, f low ch, g r ch) input (st, foldl f (f low ch) input, foldl g (g r ch) input)"
    using Cons.IH[OF _ step(2)] Cons.prems(1) by simp
  then show ?case using feeds_Cons[where consume = consume, OF assms(1,2) step(1)] by simp
qed (simp add: feeds_Nil)

section \<open>The number of a version\<close>

lemma add_digit_nat:
  assumes "d < 10" and "n * 10 + d + 48 < 2 ^ 31"
  shows "add_digit (word_of_nat n) (digit_char d) = Inr (word_of_nat (n * 10 + d))"
proof -
  have c: "(of_char (digit_char d) :: int) = 48 + int d" using of_digit_char[OF assms(1)] by (metis of_nat_add of_nat_numeral of_nat_of_char)
  have z: "of_char (CHR ''0'') = (48 :: int)" by simp
  have "int n < 2 ^ 31" using assms(2) by simp
  then have "sint (word_of_int (int n) :: s32) = int n" by (simp only: sint_sbintrunc') (simp add: signed_take_bit_int_eq_self)
  then have n: "sint (word_of_nat n :: s32) = int n" by (simp only: of_int_of_nat_eq)
  have v: "int n * 10 + (48 + int d) - 48 = int (n * 10 + d)" by simp
  have "fits_int (int n * 10)" "fits_int (int n * 10 + (48 + int d))" "fits_int (int (n * 10 + d))"
    using assms(2) by (simp_all add: fits_int_def)
  then show ?thesis unfolding add_digit_def Let_def n c z v by (simp only: simp_thms if_True of_int_of_nat_eq)
qed

lemma printed_version: "0 \<le>s (v :: s32) \<Longrightarrow> int_to_string (sint v) = nat_to_string (unat v)"
proof -
  assume "0 \<le>s v"
  then have "0 \<le> sint v" by (simp add: word_sle_eq)
  then have b: "\<not> bit v 31" by (simp add: sint_uint bit_simps)
  then have "sint v = take_bit 31 (uint v)" by (simp add: sint_uint signed_take_bit_eq_if_positive bit_uint_iff)
  also have "take_bit 31 (uint v) = take_bit (Suc 31) (uint v)" unfolding take_bit_Suc_from_most using b by (simp add: bit_uint_iff)
  also have "\<dots> = uint v" using uint_lt2p[of v] by (simp add: take_bit_int_eq_self)
  finally have "sint v = uint v" .
  then show ?thesis unfolding uint_nat by (simp only: int_to_string_nat)
qed


text \<open>Numbers that are printed without a sign and read back without overflow, the subtraction of the character \<open>0\<close> coming last.\<close>

definition printable_number :: "s32 \<Rightarrow> bool" where
  "printable_number v \<longleftrightarrow> v < 2147483600"

lemma printable_number_less: "printable_number v \<Longrightarrow> unat v + 48 < 2 ^ 31"
  by (simp add: printable_number_def word_less_nat_alt)

lemma printed_number_sign: "unat v + 48 < 2 ^ 31 \<Longrightarrow> 0 \<le>s (v :: s32)"
proof -
  assume "unat v + 48 < 2 ^ 31"
  then have "unat v < 2 ^ 31" by simp
  moreover have "bit v 31 = bit (unat v) 31" by (simp add: bit_unsigned_iff)
  ultimately have "\<not> bit v 31" by (simp add: bit_iff_odd)
  then show ?thesis by (simp add: word_sle_eq sint_uint signed_take_bit_eq_if_positive bit_uint_iff)
qed

section \<open>What the two parsers share\<close>

definition header_state :: "parser_state \<Rightarrow> bool" where
  "header_state st \<longleftrightarrow> st \<in> {S_expecting_newline_1, S_header_line_start, S_header_lws, S_header_name, S_space_before_header_value,
     S_header_value, S_expecting_newline_2, S_expecting_newline_3}"

text \<open>The fields of a message that are set to what a version and a list of headers say.\<close>

definition is_token :: "string \<Rightarrow> bool" where
  "is_token s \<longleftrightarrow> s \<noteq> [] \<and> list_all (\<lambda>ch. \<not> not_token ch) s"

definition is_value :: "string \<Rightarrow> bool" where
  "is_value s \<longleftrightarrow> list_all (\<lambda>ch. \<not> is_ctl ch) s"

lemma special_chars: "not_token (CHR 0x0D)" "not_token (CHR '' '')" "not_token (CHR 0x09)" "not_token (CHR '':'')"
  by code_simp+

definition lower_header :: "header \<Rightarrow> header" where
  "lower_header h = \<lparr>h_name = map to_lower (h_name h), h_value = map to_lower (h_value h)\<rparr>"

locale http_parser =
  fixes consume :: "parser_state \<Rightarrow> header \<Rightarrow> 'm http_message_scheme \<Rightarrow> char \<Rightarrow> (parser_state \<times> header \<times> 'm http_message_scheme) result"
    and ready :: "'m ready_header"
  assumes consume_header: "header_state st \<Longrightarrow> consume st low m ch = header_step ready st low m ch"
    and consume_version: "version_step st m ch = Some r \<Longrightarrow> consume st low m ch = bindR r (\<lambda>(st', m'). Inr (st', low, m'))"
    and consume_minor: "is_digit ch \<Longrightarrow> consume S_http_version_minor low m ch = bindR (add_minor ch m) (\<lambda>m'. Inr (S_http_version_minor, low, m'))"
begin

lemma name_run:
  assumes "list_all (\<lambda>ch. \<not> not_token ch) ns"
  shows "feeds consume (S_header_name, low, m\<lparr>headers := hs @ [h]\<rparr>) ns
    (S_header_name, low\<lparr>h_name := h_name low @ map to_lower ns\<rparr>, m\<lparr>headers := hs @ [h\<lparr>h_name := h_name h @ ns\<rparr>]\<rparr>)"
  using assms
proof (induction ns arbitrary: low h)
  case (Cons ch ns)
  have colon: "ch \<noteq> CHR '':''" using Cons.prems special_chars by auto
  have "consume S_header_name low (m\<lparr>headers := hs @ [h]\<rparr>) ch =
      Inr (S_header_name, add_name (to_lower ch) low, m\<lparr>headers := hs @ [add_name ch h]\<rparr>)"
    using Cons.prems colon by (simp add: consume_header header_state_def update_back_def)
  then show ?case using feeds_Cons[where consume = consume, OF _ _ _ Cons.IH[of "add_name (to_lower ch) low" "add_name ch h"]] Cons.prems
    by (simp add: add_name_def)
qed (simp add: feeds_Nil)

lemma value_run:
  assumes "is_value vs"
  shows "feeds consume (S_header_value, low, m\<lparr>headers := hs @ [h]\<rparr>) vs
    (S_header_value, low\<lparr>h_value := h_value low @ map to_lower vs\<rparr>, m\<lparr>headers := hs @ [h\<lparr>h_value := h_value h @ vs\<rparr>]\<rparr>)"
  using assms unfolding is_value_def
proof (induction vs arbitrary: low h)
  case (Cons ch vs)
  have cr: "ch \<noteq> CHR 0x0D" using Cons.prems by (auto simp: is_ctl_def)
  have "consume S_header_value low (m\<lparr>headers := hs @ [h]\<rparr>) ch =
      Inr (S_header_value, add_value (to_lower ch) low, m\<lparr>headers := hs @ [add_value ch h]\<rparr>)"
    using Cons.prems cr by (simp add: consume_header header_state_def update_back_def)
  then show ?case using feeds_Cons[where consume = consume, OF _ _ _ Cons.IH[of "add_value (to_lower ch) low" "add_value ch h"]] Cons.prems
    by (simp add: add_value_def)
qed (simp add: feeds_Nil)

lemma header_line:
  assumes "is_token (h_name h)" and "is_value (h_value h)"
    and ready: "ready (lower_header h) (m\<lparr>headers := headers m @ [h]\<rparr>) = Inr (Some m')"
  shows "feeds consume (S_header_line_start, no_header, m) (print_header h) (S_header_line_start, no_header, m')"
proof -
  obtain ch ns where n: "h_name h = ch # ns" "\<not> not_token ch" "list_all (\<lambda>ch. \<not> not_token ch) ns"
    using assms(1) unfolding is_token_def by (cases "h_name h") simp_all
  let ?h1 = "add_name ch no_header" and ?low1 = "add_name (to_lower ch) no_header"
  let ?h2 = "?h1\<lparr>h_name := h_name ?h1 @ ns\<rparr>" and ?low2 = "?low1\<lparr>h_name := h_name ?low1 @ map to_lower ns\<rparr>"
  let ?m = "\<lambda>h. m\<lparr>headers := headers m @ [h]\<rparr>"
  have "ch \<noteq> CHR 0x0D" "ch \<noteq> CHR '' ''" "ch \<noteq> CHR 0x09" using n(2) special_chars by auto
  then have "consume S_header_line_start no_header m ch = Inr (S_header_name, ?low1, ?m ?h1)"
    using n(2) by (simp add: consume_header header_state_def)
  then have f1: "feeds consume (S_header_line_start, no_header, m) (h_name h) (S_header_name, ?low2, ?m ?h2)"
    unfolding n(1) by (rule feeds_Cons[where consume = consume, OF _ _ _ name_run[OF n(3)], rotated 2]) simp_all
  have f2: "feeds consume (S_header_name, ?low2, ?m ?h2) '': '' (S_header_value, ?low2, ?m ?h2)"
    by (rule feeds_two[of consume _ _ _ _ S_space_before_header_value ?low2 "?m ?h2"]) (simp_all add: consume_header header_state_def)
  have h: "\<lparr>h_name = ch # ns, h_value = h_value h\<rparr> = h" using n(1) by (cases h) simp
  have f3: "feeds consume (S_header_value, ?low2, ?m ?h2) (h_value h) (S_header_value, lower_header h, ?m h)"
    using value_run[OF assms(2), of ?low2 "headers m" ?h2 m] n(1) h by (simp add: lower_header_def add_name_def no_header_def)
  have f4: "feeds consume (S_header_value, lower_header h, ?m h) CRLF (S_header_line_start, no_header, m')"
    unfolding CRLF_def
    by (rule feeds_two[of consume _ _ _ _ S_expecting_newline_2 no_header m']) (simp_all add: consume_header header_state_def ready)
  show ?thesis unfolding print_header_def
    using feeds_append[OF f1 feeds_append[OF f2 feeds_append[OF f3 f4]]] by simp
qed

lemma last_line: "feeds consume (S_header_line_start, no_header, m) CRLF (S_good, no_header, m)"
  unfolding CRLF_def
  by (rule feeds_two[of consume _ _ _ _ S_expecting_newline_3 no_header m]) (simp_all add: consume_header header_state_def)

lemma newline_run: "feeds consume (S_expecting_newline_1, low, m) [CHR 0x0A] (S_header_line_start, low, m)"
  by (rule feeds_char) (simp_all add: consume_header header_state_def)

text \<open>Headers that are kept as they are.\<close>

lemma header_lines:
  assumes "\<forall>h \<in> set hs. is_token (h_name h) \<and> is_value (h_value h) \<and> (\<forall>m. ready (lower_header h) m = Inr (Some m))"
  shows "feeds consume (S_header_line_start, no_header, m) (concat (map print_header hs))
    (S_header_line_start, no_header, m\<lparr>headers := headers m @ hs\<rparr>)"
  using assms
proof (induction hs arbitrary: m)
  case (Cons h hs)
  have "feeds consume (S_header_line_start, no_header, m) (print_header h) (S_header_line_start, no_header, m\<lparr>headers := headers m @ [h]\<rparr>)"
    using Cons.prems by (intro header_line) simp_all
  from feeds_append[OF this Cons.IH] show ?case using Cons.prems by simp
qed (simp add: feeds_Nil)

text \<open>A number is read digit by digit: \<open>f v\<close> is the message in which the number has the value \<open>v\<close>.\<close>

lemma digits_run:
  assumes "\<And>d. d < 10 \<Longrightarrow> consume st0 low (f 0) (digit_char d) = Inr (st1, low, f (word_of_nat d))"
    and "\<And>k d. d < 10 \<Longrightarrow> k * 10 + d + 48 < 2 ^ 31 \<Longrightarrow> consume st1 low (f (word_of_nat k)) (digit_char d) = Inr (st1, low, f (word_of_nat (k * 10 + d)))"
    and "st0 \<notin> {S_good, S_bad}" "st1 \<notin> {S_good, S_bad}"
  shows "n + 48 < 2 ^ 31 \<Longrightarrow> feeds consume (st0, low, f (0 :: s32)) (nat_to_string n) (st1, low, f (word_of_nat n))"
proof (induction n rule: less_induct)
  case (less n)
  show ?case
  proof (cases "n < 10")
    case True
    then have "nat_to_string n = [digit_char n]" by (subst nat_to_string_rec) simp
    moreover have "feeds consume (st0, low, f 0) [digit_char n] (st1, low, f (word_of_nat n))"
      by (rule feeds_char) (use assms(1)[OF True] assms(3) in auto)
    ultimately show ?thesis by simp
  next
    case False
    then have r: "nat_to_string n = nat_to_string (n div 10) @ [digit_char (n mod 10)]" by (subst nat_to_string_rec) simp
    have f1: "feeds consume (st0, low, f 0) (nat_to_string (n div 10)) (st1, low, f (word_of_nat (n div 10)))"
      using less.IH[of "n div 10"] less.prems False by simp
    have "n div 10 * 10 + n mod 10 = n" by simp
    then have "consume st1 low (f (word_of_nat (n div 10))) (digit_char (n mod 10)) = Inr (st1, low, f (word_of_nat n))"
      using assms(2)[of "n mod 10" "n div 10"] less.prems by simp
    then have f2: "feeds consume (st1, low, f (word_of_nat (n div 10))) [digit_char (n mod 10)] (st1, low, f (word_of_nat n))"
      by (intro feeds_char) (use assms(4) in auto)
    show ?thesis unfolding r by (rule feeds_append[OF f1 f2])
  qed
qed

lemma version_run:
  assumes "printable_number major" and "printable_number minor" and m: "http_version_major m = 0" "http_version_minor m = 0"
  shows "feeds consume (S_http_version_h, low, m) (''HTTP/'' @ int_to_string (sint major) @ ''.'' @ int_to_string (sint minor))
    (S_http_version_minor, low, m\<lparr>http_version_major := major, http_version_minor := minor\<rparr>)"
proof -
  note small = assms(1,2)[THEN printable_number_less]
  have f0: "feeds consume (S_http_version_h, low, m) ''HTTP/'' (S_http_version_major_start, low, m)"
  proof -
    have f1: "feeds consume (S_http_version_h, low, m) ''HT'' (S_http_version_t_2, low, m)"
      by (rule feeds_two[of consume _ _ _ _ S_http_version_t_1 low m]) (simp_all add: consume_version)
    have f2: "feeds consume (S_http_version_t_2, low, m) ''TP'' (S_http_version_slash, low, m)"
      by (rule feeds_two[of consume _ _ _ _ S_http_version_p low m]) (simp_all add: consume_version)
    have "feeds consume (S_http_version_slash, low, m) ''/'' (S_http_version_major_start, low, m)"
      by (rule feeds_char) (simp_all add: consume_version)
    from feeds_append[OF f1 feeds_append[OF f2 this]] show ?thesis by simp
  qed
  have dot: "d < 10 \<Longrightarrow> digit_char d \<noteq> CHR ''.''" for d using of_digit_char[of d] by (auto simp del: of_digit_char)
  let ?maj = "\<lambda>v. m\<lparr>http_version_major := v\<rparr>" and ?min = "\<lambda>v. m\<lparr>http_version_major := major, http_version_minor := v\<rparr>"
  have z: "?maj 0 = m" "?min 0 = ?maj major" "word_of_nat (unat v) = v" for v :: s32 using m by simp_all
  have add0: "add_digit 0 (digit_char d) = Inr (word_of_nat d)" if "d < 10" for d using add_digit_nat[of d 0] that by simp
  have f1: "feeds consume (S_http_version_major_start, low, ?maj 0) (nat_to_string (unat major)) (S_http_version_major, low, ?maj (word_of_nat (unat major)))"
    by (rule digits_run[where f = ?maj]) (use small in \<open>simp_all add: consume_version add_major_def add0 add_digit_nat dot\<close>)
  have f2: "feeds consume (S_http_version_major, low, ?maj major) ''.'' (S_http_version_minor_start, low, ?maj major)"
    by (rule feeds_char) (simp_all add: consume_version)
  have f3: "feeds consume (S_http_version_minor_start, low, ?min 0) (nat_to_string (unat minor)) (S_http_version_minor, low, ?min (word_of_nat (unat minor)))"
    by (rule digits_run[where f = ?min]) (use small in \<open>simp_all add: consume_version consume_minor add_minor_def add0 add_digit_nat\<close>)
  have sg: "0 \<le>s major" "0 \<le>s minor" using small printed_number_sign by blast+
  show ?thesis unfolding printed_version[OF sg(1)] printed_version[OF sg(2)]
    using feeds_append[OF f0 feeds_append[OF f1[unfolded z] feeds_append[OF f2 f3[unfolded z]]]] by simp
qed

end


lemma header_state_version: "header_state st \<Longrightarrow> version_step st m ch = None"
  by (auto simp: header_state_def)

lemma digit_not_special: "is_digit ch \<Longrightarrow> ch \<noteq> CHR 0x0D \<and> ch \<noteq> CHR '' ''"
  by (auto simp: is_digit_def)

interpretation request_parser: http_parser "request_consume lexical_cast" "request_ready_header lexical_cast"
proof
  show "header_state st \<Longrightarrow> request_consume lexical_cast st low m ch = header_step (request_ready_header lexical_cast) st low m ch" for st low m ch
    by (auto simp: request_consume_def header_state_def)
qed (auto simp: request_consume_def dest: digit_not_special)

interpretation response_parser: http_parser "response_consume lexical_cast" "response_ready_header lexical_cast"
proof
  show "header_state st \<Longrightarrow> response_consume lexical_cast st low m ch = header_step (response_ready_header lexical_cast) st low m ch" for st low m ch
    by (auto simp: response_consume_def header_state_def)
qed (auto simp: response_consume_def dest: digit_not_special)

section \<open>No undefined access\<close>

text \<open>In the states that use the last header there is one.\<close>

definition has_header :: "parser_state \<Rightarrow> 'm http_message_scheme \<Rightarrow> bool" where
  "has_header st m \<longleftrightarrow> (st \<in> {S_header_lws, S_header_name, S_space_before_header_value, S_header_value} \<longrightarrow> headers m \<noteq> [])"

definition same_version :: "'m http_message_scheme \<Rightarrow> 'm http_message_scheme \<Rightarrow> bool" where
  "same_version m m' \<longleftrightarrow> http_version_major m' = http_version_major m \<and> http_version_minor m' = http_version_minor m"

lemma header_step_total:
  assumes "has_header st m" and "\<And>low. headers m \<noteq> [] \<Longrightarrow> \<exists>r. ready low m = Inr r"
    and "\<And>low m'. ready low m = Inr (Some m') \<Longrightarrow> same_version m m'"
  shows "\<exists>st' low' m'. header_step ready st low m ch = Inr (st', low', m') \<and> has_header st' m' \<and> same_version m m' \<and>
    (header_state st' \<or> st' = S_good \<or> st' = S_bad)"
proof -
  obtain r where "headers m \<noteq> [] \<longrightarrow> ready low m = Inr r" using assms(2)[of low] by (cases "headers m = []") auto
  then show ?thesis using assms(1,3)
    by (cases st) (auto simp: has_header_def header_state_def same_version_def update_back_def split: option.splits)
qed

lemma ready_headers_total:
  "headers m \<noteq> [] \<Longrightarrow> \<exists>r. request_ready_header lexical_cast low m = Inr r"
  "headers p \<noteq> [] \<Longrightarrow> \<exists>r. response_ready_header lexical_cast low p = Inr r"
  by (auto simp: request_ready_header_def response_ready_header_def pop_header_def split: option.splits)

lemma ready_headers_version:
  "request_ready_header lexical_cast low m = Inr (Some m') \<Longrightarrow> same_version m m'"
  "response_ready_header lexical_cast low p = Inr (Some p') \<Longrightarrow> same_version p p'"
  by (auto simp: request_ready_header_def response_ready_header_def pop_header_def same_version_def bindR_eq_Inr_iff split: option.splits if_splits)

text \<open>
  The numbers start at zero and do not get negative. The state before a version number is complete is the only one in which a
  digit can overflow it: the three digits of a status cannot.
\<close>

definition numbers_ok :: "parser_state \<Rightarrow> 'm http_message_scheme \<Rightarrow> bool" where
  "numbers_ok st m \<longleftrightarrow> 0 \<le> sint (http_version_major m) \<and> 0 \<le> sint (http_version_minor m) \<and>
     (st \<in> {S_method_start, S_method, S_uri, S_http_version_h, S_http_version_t_1, S_http_version_t_2, S_http_version_p, S_http_version_slash,
        S_http_version_major_start} \<longrightarrow> http_version_major m = 0) \<and>
     (st \<in> {S_method_start, S_method, S_uri, S_http_version_h, S_http_version_t_1, S_http_version_t_2, S_http_version_p, S_http_version_slash,
        S_http_version_major_start, S_http_version_major, S_http_version_minor_start} \<longrightarrow> http_version_minor m = 0)"

definition status_ok :: "parser_state \<Rightarrow> response \<Rightarrow> bool" where
  "status_ok st r \<longleftrightarrow>
     (st \<in> {S_http_version_h, S_http_version_t_1, S_http_version_t_2, S_http_version_p, S_http_version_slash, S_http_version_major_start,
        S_http_version_major, S_http_version_minor_start, S_http_version_minor, S_status_code_1} \<longrightarrow> status r = 0) \<and>
     (st = S_status_code_2 \<longrightarrow> 0 \<le> sint (status r) \<and> sint (status r) < 10) \<and>
     (st = S_status_code_3 \<longrightarrow> 0 \<le> sint (status r) \<and> sint (status r) < 100) \<and>
     st \<notin> {S_method_start, S_method, S_uri}"

lemma add_digit_cases:
  assumes "is_digit ch" and "0 \<le> sint n"
  shows "(2 ^ 31 \<le> sint n * 10 + of_char ch \<longrightarrow> add_digit n ch = Inl Undefined) \<and>
    (sint n * 10 + of_char ch < 2 ^ 31 \<longrightarrow> (\<exists>v. add_digit n ch = Inr v \<and> sint v = sint n * 10 + of_char ch - 48 \<and> 0 \<le> sint v))"
proof -
  have "(48 :: nat) \<le> of_char ch" "of_char ch \<le> (57 :: nat)" using assms(1) by (simp_all add: is_digit_def Let_def)
  then have c: "48 \<le> (of_char ch :: int)" "of_char ch \<le> (57 :: int)" using of_nat_of_char[of ch, where ?'a = int] by (metis of_nat_le_iff of_nat_numeral)+
  have z: "of_char (CHR ''0'') = (48 :: int)" by simp
  have "sint (word_of_int (sint n * 10 + of_char ch - 48) :: s32) = sint n * 10 + of_char ch - 48" if "sint n * 10 + of_char ch < 2 ^ 31"
    by (simp only: sint_sbintrunc') (rule signed_take_bit_int_eq_self; use that c assms(2) in simp)
  then show ?thesis using c assms(2) by (auto simp: add_digit_def Let_def z fits_int_def)
qed

text \<open>The next digit of a version does not fit.\<close>

definition digit_overflows :: "parser_state \<Rightarrow> 'm http_message_scheme \<Rightarrow> char \<Rightarrow> bool" where
  "digit_overflows st m ch \<longleftrightarrow> is_digit ch \<and>
     (st = S_http_version_major \<and> 2 ^ 31 \<le> sint (http_version_major m) * 10 + of_char ch \<or>
      st = S_http_version_minor \<and> 2 ^ 31 \<le> sint (http_version_minor m) * 10 + of_char ch)"

lemma first_digit_fits: "is_digit ch \<Longrightarrow> \<not> 2 ^ 31 \<le> (0 :: int) * 10 + of_char ch"
proof -
  assume "is_digit ch"
  then have "of_char ch \<le> (57 :: nat)" by (simp add: is_digit_def Let_def)
  then have "of_char ch \<le> (57 :: int)" using of_nat_of_char[of ch, where ?'a = int] by (metis of_nat_le_iff of_nat_numeral)
  then show ?thesis by simp
qed

text \<open>What every step keeps.\<close>

definition request_ok :: "parser_state \<Rightarrow> request \<Rightarrow> bool" where
  "request_ok st r \<longleftrightarrow> has_header st r \<and> numbers_ok st r"

definition response_ok :: "parser_state \<Rightarrow> response \<Rightarrow> bool" where
  "response_ok st r \<longleftrightarrow> has_header st r \<and> numbers_ok st r \<and> status_ok st r"

lemma add_version_ok:
  assumes "is_digit ch" and "0 \<le> sint (http_version_major m)" and "0 \<le> sint (http_version_minor m)"
  shows "sint (http_version_major m) * 10 + of_char ch < 2 ^ 31 \<Longrightarrow> \<exists>v. add_major ch m = Inr (m\<lparr>http_version_major := v\<rparr>) \<and> 0 \<le> sint v"
    and "sint (http_version_minor m) * 10 + of_char ch < 2 ^ 31 \<Longrightarrow> \<exists>v. add_minor ch m = Inr (m\<lparr>http_version_minor := v\<rparr>) \<and> 0 \<le> sint v"
    and "2 ^ 31 \<le> sint (http_version_major m) * 10 + of_char ch \<Longrightarrow> add_major ch m = Inl Undefined"
    and "2 ^ 31 \<le> sint (http_version_minor m) * 10 + of_char ch \<Longrightarrow> add_minor ch m = Inl Undefined"
  using add_digit_cases[OF assms(1,2)] add_digit_cases[OF assms(1,3)] by (auto simp: add_major_def add_minor_def)

lemma header_state_numbers: "header_state st' \<or> st' = S_good \<or> st' = S_bad \<Longrightarrow> same_version m m' \<Longrightarrow> numbers_ok st m \<Longrightarrow> numbers_ok st' m'"
  by (cases st') (simp_all add: header_state_def same_version_def numbers_ok_def)

definition only_version :: "'m http_message_scheme \<Rightarrow> 'm http_message_scheme \<Rightarrow> bool" where
  "only_version m m' \<longleftrightarrow> (\<exists>a b. m' = m\<lparr>http_version_major := a, http_version_minor := b\<rparr>)"

lemma only_version_simps [simp]: "only_version m m" "only_version m (m\<lparr>http_version_major := x\<rparr>)" "only_version m (m\<lparr>http_version_minor := x\<rparr>)"
  unfolding only_version_def
  by (rule exI[of _ "http_version_major m"], rule exI[of _ "http_version_minor m"], simp,
      rule exI[of _ x], rule exI[of _ "http_version_minor m"], simp,
      rule exI[of _ "http_version_major m"], rule exI[of _ x], simp)

lemma version_step_total:
  assumes "has_header st m" "numbers_ok st m" and v: "version_step st m ch = Some r"
  shows "if digit_overflows st m ch then r = Inl Undefined
    else \<exists>st' m'. r = Inr (st', m') \<and> has_header st' m' \<and> numbers_ok st' m' \<and> only_version m m' \<and>
      st' \<in> {S_bad, S_http_version_t_1, S_http_version_t_2, S_http_version_p, S_http_version_slash, S_http_version_major_start,
        S_http_version_major, S_http_version_minor_start, S_http_version_minor}"
proof -
  have n: "0 \<le> sint (http_version_major m)" "0 \<le> sint (http_version_minor m)" using assms(2) by (simp_all add: numbers_ok_def)
  show ?thesis
  proof (cases "st \<in> {S_http_version_major_start, S_http_version_major, S_http_version_minor_start}")
    case False
    then have "\<not> digit_overflows st m ch" using v by (cases st) (simp_all add: digit_overflows_def)
    moreover have "\<exists>st'. r = Inr (st', m) \<and> st' \<in> {S_bad, S_http_version_t_1, S_http_version_t_2, S_http_version_p, S_http_version_slash, S_http_version_major_start}"
      using False v by (cases st) auto
    moreover have "numbers_ok st' m" "has_header st' m"
      if "st' \<in> {S_bad, S_http_version_t_1, S_http_version_t_2, S_http_version_p, S_http_version_slash, S_http_version_major_start}" for st'
    proof -
      have "st \<in> {S_http_version_h, S_http_version_t_1, S_http_version_t_2, S_http_version_p, S_http_version_slash}" using False v by (cases st) simp_all
      then have "http_version_major m = 0" "http_version_minor m = 0" using assms(2) by (auto simp: numbers_ok_def)
      then show "numbers_ok st' m" by (simp add: numbers_ok_def)
      show "has_header st' m" using that by (auto simp: has_header_def)
    qed
    ultimately show ?thesis by auto
  next
    case True
    show ?thesis
    proof (cases "is_digit ch")
      case False
      then have "\<exists>st'. r = Inr (st', m) \<and> st' \<in> {S_bad, S_http_version_minor_start}" 
        using True v by (elim insertE emptyE) (auto split: if_splits)
      moreover have "numbers_ok st' m" "has_header st' m" if "st' \<in> {S_bad, S_http_version_minor_start}" for st'
      proof -
        have "http_version_minor m = 0" using True assms(2) by (elim insertE emptyE) (simp_all add: numbers_ok_def)
        then show "numbers_ok st' m" using that n by (elim insertE emptyE) (simp_all add: numbers_ok_def)
        show "has_header st' m" using that by (elim insertE emptyE) (simp_all add: has_header_def)
      qed
      moreover have "\<not> digit_overflows st m ch" using False by (simp add: digit_overflows_def)
      ultimately show ?thesis by auto
    next
      case dig: True
      have dot: "ch \<noteq> CHR ''.''" using dig by (auto simp: is_digit_def)
      note add = add_version_ok[OF dig n]
      have z: "sint (0 :: s32) * 10 + of_char ch < 2 ^ 31" using first_digit_fits[OF dig] by simp
      consider (a) "st = S_http_version_major_start" | (b) "st = S_http_version_major" | (c) "st = S_http_version_minor_start" using True by blast
      then show ?thesis
      proof cases
        case a
        then obtain x where "add_major ch m = Inr (m\<lparr>http_version_major := x\<rparr>)" "0 \<le> sint x" using add(1) z assms(2) by (auto simp: numbers_ok_def)
        then show ?thesis using a v dig assms(2) by (auto simp: has_header_def numbers_ok_def digit_overflows_def)
      next
        case b
        show ?thesis
        proof (cases "2 ^ 31 \<le> sint (http_version_major m) * 10 + of_char ch")
          case True
          then show ?thesis using add(3)[OF True] b v dig dot by (simp add: digit_overflows_def)
        next
          case False
          then obtain x where "add_major ch m = Inr (m\<lparr>http_version_major := x\<rparr>)" "0 \<le> sint x" using add(1) by auto
          then show ?thesis using False b v dig dot assms(2) by (auto simp: has_header_def numbers_ok_def digit_overflows_def)
        qed
      next
        case c
        then obtain x where "add_minor ch m = Inr (m\<lparr>http_version_minor := x\<rparr>)" "0 \<le> sint x" using add(2) z assms(2) by (auto simp: numbers_ok_def)
        then show ?thesis using c v dig assms(2) by (auto simp: has_header_def numbers_ok_def digit_overflows_def)
      qed
    qed
  qed
qed

text \<open>The last state of the version.\<close>

lemma minor_digit:
  assumes "numbers_ok S_http_version_minor m" and "is_digit ch"
  shows "if digit_overflows S_http_version_minor m ch then add_minor ch m = Inl Undefined
    else \<exists>v. add_minor ch m = Inr (m\<lparr>http_version_minor := v\<rparr>) \<and> numbers_ok S_http_version_minor (m\<lparr>http_version_minor := v\<rparr>)"
proof -
  have n: "0 \<le> sint (http_version_major m)" "0 \<le> sint (http_version_minor m)" using assms(1) by (simp_all add: numbers_ok_def)
  note add = add_version_ok[OF assms(2) n]
  show ?thesis
  proof (cases "2 ^ 31 \<le> sint (http_version_minor m) * 10 + of_char ch")
    case True
    then show ?thesis using add(4) assms(2) by (simp add: digit_overflows_def)
  next
    case False
    then obtain v where "add_minor ch m = Inr (m\<lparr>http_version_minor := v\<rparr>)" "0 \<le> sint v" using add(2) by auto
    then show ?thesis using False n by (auto simp: digit_overflows_def numbers_ok_def)
  qed
qed

lemma request_consume_cases:
  assumes "request_ok st r" and "st \<noteq> S_good" "st \<noteq> S_bad"
  shows "if digit_overflows st r ch then request_consume lexical_cast st low r ch = Inl Undefined
    else \<exists>st' low' r'. request_consume lexical_cast st low r ch = Inr (st', low', r') \<and> request_ok st' r'"
proof -
  have ok: "has_header st r" "numbers_ok st r" using assms(1) by (simp_all add: request_ok_def)
  show ?thesis
  proof (cases "version_step st r ch")
    case (Some p)
    then have c: "request_consume lexical_cast st low r ch = bindR p (\<lambda>(st', m'). Inr (st', low, m'))" by (simp add: request_consume_def)
    show ?thesis using version_step_total[OF ok Some] unfolding c by (auto simp: request_ok_def split: if_splits)
  next
    case None
    show ?thesis
    proof (cases "header_state st")
      case True
      then have no: "\<not> digit_overflows st r ch" by (auto simp: header_state_def digit_overflows_def)
      obtain st' low' r' where h: "header_step (request_ready_header lexical_cast) st low r ch = Inr (st', low', r')" "has_header st' r'"
          "same_version r r'" "header_state st' \<or> st' = S_good \<or> st' = S_bad"
        using header_step_total[OF ok(1), of "request_ready_header lexical_cast" low ch] ready_headers_total(1) ready_headers_version(1) by blast
      have "request_consume lexical_cast st low r ch = Inr (st', low', r')"
        using h(1) request_parser.consume_header[OF True] by simp
      moreover have "request_ok st' r'" unfolding request_ok_def using h(2) header_state_numbers[OF h(4,3) ok(2)] by blast
      ultimately show ?thesis using no by (simp only: if_False) blast
    next
      case False
      show ?thesis
      proof (cases "st = S_http_version_minor")
        case True
        then show ?thesis using minor_digit[of r ch] ok digit_not_special[of ch]
          by (auto simp: request_consume_def request_ok_def has_header_def digit_overflows_def numbers_ok_def split: if_splits)
      next
        case other: False
        then show ?thesis using False None ok assms(2,3)
          by (cases st) (auto simp: header_state_def request_consume_def request_ok_def has_header_def digit_overflows_def numbers_ok_def)
      qed
    qed
  qed
qed

lemma response_consume_cases:
  assumes "response_ok st r" and "st \<noteq> S_good" "st \<noteq> S_bad"
  shows "if digit_overflows st r ch then response_consume lexical_cast st low r ch = Inl Undefined
    else \<exists>st' low' r'. response_consume lexical_cast st low r ch = Inr (st', low', r') \<and> response_ok st' r'"
proof -
  have ok: "has_header st r" "numbers_ok st r" "status_ok st r" using assms(1) by (simp_all add: response_ok_def)
  show ?thesis
  proof (cases "version_step st r ch")
    case (Some p)
    then have c: "response_consume lexical_cast st low r ch = bindR p (\<lambda>(st', m'). Inr (st', low, m'))" by (simp add: response_consume_def)
    have "st \<in> {S_http_version_h, S_http_version_t_1, S_http_version_t_2, S_http_version_p, S_http_version_slash, S_http_version_major_start,
        S_http_version_major, S_http_version_minor_start}" using Some by (cases st) simp_all
    then have "status r = 0" using ok(3) by (auto simp: status_ok_def)
    then show ?thesis using version_step_total[OF ok(1,2) Some] unfolding c by (auto simp: response_ok_def status_ok_def only_version_def split: if_splits)
  next
    case None
    show ?thesis
    proof (cases "header_state st")
      case True
      then have no: "\<not> digit_overflows st r ch" by (auto simp: header_state_def digit_overflows_def)
      obtain st' low' r' where h: "header_step (response_ready_header lexical_cast) st low r ch = Inr (st', low', r')" "has_header st' r'"
          "same_version r r'" "header_state st' \<or> st' = S_good \<or> st' = S_bad"
        using header_step_total[OF ok(1), of "response_ready_header lexical_cast" low ch] ready_headers_total(2) ready_headers_version(2) by blast
      have "response_consume lexical_cast st low r ch = Inr (st', low', r')"
        using h(1) response_parser.consume_header[OF True] by simp
      moreover have "response_ok st' r'" unfolding response_ok_def
        using h(2,4) header_state_numbers[OF h(4,3) ok(2)] by (auto simp: status_ok_def header_state_def)
      ultimately show ?thesis using no by (simp only: if_False) blast
    next
      case False
      show ?thesis
      proof (cases "st \<in> {S_http_version_minor, S_status_code_1, S_status_code_2, S_status_code_3}")
        case other: False
        then show ?thesis using False None ok assms(2,3)
          by (cases st) (simp_all add: header_state_def response_consume_def response_ok_def has_header_def digit_overflows_def numbers_ok_def status_ok_def)
      next
        case True
        show ?thesis
        proof (cases "st = S_http_version_minor")
          case True
          then show ?thesis using minor_digit[of r ch] ok digit_not_special[of ch]
            by (auto simp: response_consume_def response_ok_def has_header_def digit_overflows_def numbers_ok_def status_ok_def split: if_splits)
        next
          case code: False
          then have s: "0 \<le> sint (status r)" "sint (status r) < 100" "st = S_status_code_1 \<longrightarrow> sint (status r) < 1" "st = S_status_code_2 \<longrightarrow> sint (status r) < 10"
            using True code ok(3) by (elim insertE emptyE; simp add: status_ok_def)+
          have no: "\<not> digit_overflows st r ch" using code True by (auto simp: digit_overflows_def)
          show ?thesis
          proof (cases "is_digit ch")
            case False
            moreover have "0 \<le> sint (http_version_major r)" "0 \<le> sint (http_version_minor r)" using ok(2) by (simp_all add: numbers_ok_def)
            moreover have "st = S_status_code_1 \<or> st = S_status_code_2 \<or> st = S_status_code_3" using True code by blast
            ultimately show ?thesis using no
              by (elim disjE) (simp_all add: response_consume_def response_ok_def has_header_def numbers_ok_def status_ok_def)
          next
            case dig: True
            have "of_char ch \<le> (57 :: nat)" using dig by (simp add: is_digit_def Let_def)
            then have c: "of_char ch \<le> (57 :: int)" using of_nat_of_char[of ch, where ?'a = int] by (metis of_nat_le_iff of_nat_numeral)
            then obtain v where v: "add_digit (status r) ch = Inr v" "sint v = sint (status r) * 10 + of_char ch - 48" "0 \<le> sint v"
              using add_digit_cases[OF dig s(1)] s(2) by auto
            have "st = S_status_code_1 \<longrightarrow> sint v < 10" "st = S_status_code_2 \<longrightarrow> sint v < 100" using v(2) s(3,4) c by auto
            moreover have "0 \<le> sint (http_version_major r)" "0 \<le> sint (http_version_minor r)" using ok(2) by (simp_all add: numbers_ok_def)
            moreover have "st = S_status_code_1 \<or> st = S_status_code_2 \<or> st = S_status_code_3" using True code by blast
            ultimately show ?thesis using no dig v(1,3)
              by (elim disjE) (simp_all add: response_consume_def add_status_def response_ok_def has_header_def numbers_ok_def status_ok_def)
          qed
        qed
      qed
    qed
  qed
qed

section \<open>Printed messages are parsed back\<close>

text \<open>What \<open>boost::lexical_cast\<close> is relied on for.\<close>

definition reads_numbers :: "(string \<Rightarrow> u64 option) \<Rightarrow> bool" where
  "reads_numbers lexical_cast \<longleftrightarrow> (\<forall>n. lexical_cast (nat_to_string (unat n)) = Some n)"

definition ordinary_header :: "string list \<Rightarrow> header \<Rightarrow> bool" where
  "ordinary_header special h \<longleftrightarrow> is_token (h_name h) \<and> is_value (h_value h) \<and> map to_lower (h_name h) \<notin> set special"

text \<open>What a reader takes the connection to be: 1.1 keeps it, 1.0 can ask for it; nothing else is printed.\<close>

definition announced_keep_alive :: "'m http_message_scheme \<Rightarrow> bool" where
  "announced_keep_alive m \<longleftrightarrow> http_1_1 m \<or> http_version_major m = 1 \<and> http_version_minor m = 0 \<and> keep_alive m"

definition well_versioned :: "'m http_message_scheme \<Rightarrow> bool" where
  "well_versioned m \<longleftrightarrow> printable_number (http_version_major m) \<and> printable_number (http_version_minor m)"

definition no_blank_ends :: "string \<Rightarrow> bool" where
  "no_blank_ends s \<longleftrightarrow> s \<noteq> [] \<longrightarrow> hd s \<notin> {CHR '' '', CHR 0x09} \<and> last s \<notin> {CHR '' '', CHR 0x09}"

definition printable_request :: "request \<Rightarrow> bool" where
  "printable_request r \<longleftrightarrow>
     is_token (req_method r) \<and> list_all (\<lambda>ch. ch \<noteq> CHR '' '' \<and> \<not> is_ctl ch) (req_uri r) \<and> well_versioned r \<and>
     (\<forall>h \<in> set (headers r). ordinary_header [''content-length'', ''host'', ''connection'', ''authorization''] h) \<and>
     is_value (host r) \<and> is_value (basic_authorization r) \<and> no_blank_ends (basic_authorization r)"

definition printable_response :: "response \<Rightarrow> bool" where
  "printable_response r \<longleftrightarrow>
     (100 \<le> unat (status r) \<and> unat (status r) < 1000) \<and> is_value (status_text r) \<and> well_versioned r \<and>
     (\<forall>h \<in> set (headers r). ordinary_header [''content-length'', ''connection''] h)"

text \<open>What is read back: the host in lower case, the connection as announced, and the standard text of the status for an empty one.\<close>

definition reread_request :: "request \<Rightarrow> request" where
  "reread_request q = q\<lparr>keep_alive := announced_keep_alive q, host := map to_lower (host q)\<rparr>"

definition printed_status_text :: "response \<Rightarrow> string" where
  "printed_status_text r = (if status_text r = [] then status_to_string (sint (status r)) else status_text r)"

definition reread_response :: "response \<Rightarrow> response" where
  "reread_response r = r\<lparr>keep_alive := announced_keep_alive r, status_text := printed_status_text r\<rparr>"

lemma is_value_simps [simp]: "is_value []" "is_value (a @ b) \<longleftrightarrow> is_value a \<and> is_value b"
  by (simp_all add: is_value_def)

lemma digits_are_value: "list_all is_digit s \<Longrightarrow> is_value s"
  by (auto simp: is_value_def list_all_iff is_digit_def is_ctl_def Let_def)

lemma lower_digits: "list_all is_digit s \<Longrightarrow> map to_lower s = s"
  by (induction s) (auto simp: to_lower_def is_digit_def Let_def)

lemma special_names:
  "is_token ''Host''" "is_token ''Content-Length''" "is_token ''Connection''" "is_token ''Authorization''" "is_value ''keep-alive''" "is_value ''Basic ''"
  "map to_lower ''Host'' = ''host''" "map to_lower ''Content-Length'' = ''content-length''" "map to_lower ''Connection'' = ''connection''"
  "map to_lower ''Authorization'' = ''authorization''" "map to_lower ''Basic '' = ''basic ''" "map to_lower ''keep-alive'' = ''keep-alive''"
  by code_simp+

text \<open>The end of every message: the connection and the length.\<close>

definition set_length :: "u64 \<Rightarrow> 'm http_message_scheme \<Rightarrow> 'm http_message_scheme" where
  "set_length n m = m\<lparr>content_length := n\<rparr>"

lemma print_header_text: "name @ '': '' @ value @ CRLF = print_header \<lparr>h_name = name, h_value = value\<rparr>"
  by (simp add: print_header_def)

context http_parser
begin

lemma end_run:
  assumes conn: "\<And>m. ready \<lparr>h_name = ''connection'', h_value = ''keep-alive''\<rparr> (m\<lparr>headers := headers m @ [\<lparr>h_name = ''Connection'', h_value = ''keep-alive''\<rparr>]\<rparr>) =
      Inr (Some (m\<lparr>keep_alive := True\<rparr>))"
    and len: "\<And>m n. ready \<lparr>h_name = ''content-length'', h_value = nat_to_string (unat n)\<rparr>
      (m\<lparr>headers := headers m @ [\<lparr>h_name = ''Content-Length'', h_value = nat_to_string (unat n)\<rparr>]\<rparr>) = Inr (Some (m\<lparr>content_length := n\<rparr>))"
    and m: "keep_alive m = http_1_1 r" "content_length m = - 1"
  shows "feeds consume (S_header_line_start, no_header, m) (print_connection r @ print_length r)
    (S_good, no_header, m\<lparr>keep_alive := announced_keep_alive r, content_length := content_length r\<rparr>)"
proof -
  let ?m1 = "m\<lparr>keep_alive := announced_keep_alive r\<rparr>"
  have c: "feeds consume (S_header_line_start, no_header, m) (print_connection r) (S_header_line_start, no_header, ?m1)"
  proof (cases "http_version_major r = 1 \<and> http_version_minor r = 0 \<and> keep_alive r")
    case True
    have "feeds consume (S_header_line_start, no_header, m) (print_header \<lparr>h_name = ''Connection'', h_value = ''keep-alive''\<rparr>)
        (S_header_line_start, no_header, m\<lparr>keep_alive := True\<rparr>)"
      by (rule header_line) (simp_all only: special_names lower_header_def header.simps conn)
    then show ?thesis using True by (simp add: print_connection_def print_header_def announced_keep_alive_def)
  next
    case False
    then have "keep_alive m = announced_keep_alive r" using m(1) by (auto simp: announced_keep_alive_def)
    then have "?m1 = m" by simp
    then show ?thesis using False feeds_Nil by (auto simp: print_connection_def)
  qed
  have l: "feeds consume (S_header_line_start, no_header, ?m1) (print_length r) (S_good, no_header, ?m1\<lparr>content_length := content_length r\<rparr>)"
  proof (cases "has_content_length r")
    case True
    let ?h = "\<lparr>h_name = ''Content-Length'', h_value = nat_to_string (unat (content_length r))\<rparr>"
    have "feeds consume (S_header_line_start, no_header, ?m1) (print_header ?h)
        (S_header_line_start, no_header, ?m1\<lparr>content_length := content_length r\<rparr>)"
      by (rule header_line)
        (simp_all only: special_names lower_header_def header.simps digits_are_value[OF nat_to_string_digits] lower_digits[OF nat_to_string_digits] len)
    from feeds_append[OF this last_line] show ?thesis using True by (simp add: print_length_def print_header_def)
  next
    case False
    then have "?m1\<lparr>content_length := content_length r\<rparr> = ?m1" using m(2) by (simp add: has_content_length_def)
    then show ?thesis using False last_line[of ?m1] by (simp add: print_length_def)
  qed
  show ?thesis using feeds_append[OF c l] by simp
qed

end


lemma request_ends:
  assumes "reads_numbers lexical_cast"
  shows "request_ready_header lexical_cast \<lparr>h_name = ''connection'', h_value = ''keep-alive''\<rparr> (m\<lparr>headers := headers m @ [h]\<rparr>) = Inr (Some (m\<lparr>keep_alive := True\<rparr>))"
    and "request_ready_header lexical_cast \<lparr>h_name = ''content-length'', h_value = nat_to_string (unat n)\<rparr> (m\<lparr>headers := headers m @ [h]\<rparr>) =
      Inr (Some (m\<lparr>content_length := n\<rparr>))"
    and "request_ready_header lexical_cast \<lparr>h_name = ''host'', h_value = v\<rparr> (m\<lparr>headers := headers m @ [h]\<rparr>) = Inr (Some (m\<lparr>host := v\<rparr>))"
  using assms by (simp_all add: request_ready_header_def pop_header_def reads_numbers_def)

lemma response_ends:
  assumes "reads_numbers lexical_cast"
  shows "response_ready_header lexical_cast \<lparr>h_name = ''connection'', h_value = ''keep-alive''\<rparr> (m\<lparr>headers := headers m @ [h]\<rparr>) = Inr (Some (m\<lparr>keep_alive := True\<rparr>))"
    and "response_ready_header lexical_cast \<lparr>h_name = ''content-length'', h_value = nat_to_string (unat n)\<rparr> (m\<lparr>headers := headers m @ [h]\<rparr>) =
      Inr (Some (m\<lparr>content_length := n\<rparr>))"
  using assms by (simp_all add: response_ready_header_def pop_header_def reads_numbers_def)

lemma dropWhile_hd: "xs \<noteq> [] \<Longrightarrow> \<not> P (hd xs) \<Longrightarrow> dropWhile P xs = xs"
  by (cases xs) simp_all

lemma strip_basic_printed: "no_blank_ends s \<Longrightarrow> s \<noteq> [] \<Longrightarrow> strip_basic (''Basic '' @ s) = s"
proof -
  assume n: "no_blank_ends s" "s \<noteq> []"
  have d: "dropWhile (\<lambda>ch. ch = CHR '' '' \<or> ch = CHR 0x09) s = s" using n by (intro dropWhile_hd) (auto simp: no_blank_ends_def)
  have r: "dropWhile (\<lambda>ch. ch = CHR '' '' \<or> ch = CHR 0x09) (rev s) = rev s" using n by (intro dropWhile_hd) (auto simp: no_blank_ends_def hd_rev)
  show ?thesis using d r by (simp add: strip_basic_def)
qed

lemma ordinary_request_header: "ordinary_header [''content-length'', ''host'', ''connection'', ''authorization''] h \<Longrightarrow>
    is_token (h_name h) \<and> is_value (h_value h) \<and> (\<forall>m. request_ready_header lexical_cast (lower_header h) m = Inr (Some m))"
  by (simp add: ordinary_header_def request_ready_header_def lower_header_def)

lemma ordinary_response_header: "ordinary_header [''content-length'', ''connection''] h \<Longrightarrow>
    is_token (h_name h) \<and> is_value (h_value h) \<and> (\<forall>m. response_ready_header lexical_cast (lower_header h) m = Inr (Some m))"
  by (simp add: ordinary_header_def response_ready_header_def lower_header_def)

lemma first_line_run:
  assumes "is_token (req_method r)" and "list_all (\<lambda>ch. ch \<noteq> CHR '' '' \<and> \<not> is_ctl ch) (req_uri r)" and "well_versioned r"
  shows "feeds (request_consume lexical_cast) (S_method_start, no_header, new_request)
    (req_method r @ '' '' @ req_uri r @ '' '' @ print_version r @ CRLF)
    (S_header_line_start, no_header, new_request\<lparr>req_method := req_method r, req_uri := req_uri r, http_version_major := http_version_major r,
       http_version_minor := http_version_minor r, keep_alive := http_1_1 r\<rparr>)"
proof -
  let ?c = "request_consume lexical_cast"
  let ?meth = "\<lambda>r ch. r\<lparr>req_method := req_method r @ [ch]\<rparr>" and ?uri = "\<lambda>r ch. r\<lparr>req_uri := req_uri r @ [ch]\<rparr>"
  have meths: "foldl ?meth q s = q\<lparr>req_method := req_method q @ s\<rparr>" for q :: request and s by (induction s arbitrary: q) simp_all
  have uris: "foldl ?uri q s = q\<lparr>req_uri := req_uri q @ s\<rparr>" for q :: request and s by (induction s arbitrary: q) simp_all
  have first: "foldl (\<lambda>low ch. low) l ds = l" for l :: header and ds :: string by (induction ds) simp_all
  obtain ch s where s: "req_method r = ch # s" "\<not> not_token ch" "list_all (\<lambda>ch. \<not> not_token ch) s"
    using assms(1) unfolding is_token_def by (cases "req_method r") simp_all
  have blank: "\<not> not_token ch \<Longrightarrow> ch \<noteq> CHR '' ''" for ch using special_chars by auto
  let ?r1 = "new_request\<lparr>req_method := req_method r\<rparr>" and ?r2 = "new_request\<lparr>req_method := req_method r, req_uri := req_uri r\<rparr>"
  let ?r3 = "?r2\<lparr>http_version_major := http_version_major r, http_version_minor := http_version_minor r\<rparr>"
  have "feeds ?c (S_method, no_header, ?meth new_request ch) s (S_method, foldl (\<lambda>low ch. low) no_header s, foldl ?meth (?meth new_request ch) s)"
    by (rule feeds_many[where Q = "\<lambda>_. True"]) (use s(3) blank in \<open>auto simp: request_consume_def\<close>)
  then have "feeds ?c (S_method_start, no_header, new_request) (ch # s) (S_method, no_header, foldl ?meth new_request (ch # s))"
    unfolding first by (intro feeds_Cons[where consume = ?c]) (use s(2) in \<open>auto simp: request_consume_def\<close>)
  then have f1: "feeds ?c (S_method_start, no_header, new_request) (req_method r) (S_method, no_header, ?r1)"
    unfolding meths s(1) by (simp add: new_request_def)
  have f2: "feeds ?c (S_method, no_header, ?r1) '' '' (S_uri, no_header, ?r1)"
    by (rule feeds_char) (simp_all add: request_consume_def)
  have "feeds ?c (S_uri, no_header, ?r1) (req_uri r) (S_uri, foldl (\<lambda>low ch. low) no_header (req_uri r), foldl ?uri ?r1 (req_uri r))"
    by (rule feeds_many[where Q = "\<lambda>_. True" and P = "\<lambda>ch. ch \<noteq> CHR '' '' \<and> \<not> is_ctl ch"]) (use assms(2) in \<open>auto simp: request_consume_def\<close>)
  then have f3: "feeds ?c (S_uri, no_header, ?r1) (req_uri r) (S_uri, no_header, ?r2)"
    unfolding first uris by (simp add: new_request_def)
  have f4: "feeds ?c (S_uri, no_header, ?r2) '' '' (S_http_version_h, no_header, ?r2)"
    by (rule feeds_char) (simp_all add: request_consume_def)
  have f5: "feeds ?c (S_http_version_h, no_header, ?r2) (print_version r) (S_http_version_minor, no_header, ?r3)"
    unfolding print_version_def by (rule request_parser.version_run) (use assms(3) in \<open>simp_all add: well_versioned_def new_request_def\<close>)
  have k: "?r3\<lparr>keep_alive := http_1_1 ?r3\<rparr> = ?r3\<lparr>keep_alive := http_1_1 r\<rparr>" by (simp add: http_1_1_def)
  have f6: "feeds ?c (S_http_version_minor, no_header, ?r3) CRLF (S_header_line_start, no_header, ?r3\<lparr>keep_alive := http_1_1 r\<rparr>)"
    unfolding CRLF_def k[symmetric]
    by (rule feeds_two[of ?c _ _ _ _ S_expecting_newline_1 no_header "?r3\<lparr>keep_alive := http_1_1 ?r3\<rparr>"]) (simp_all add: request_consume_def)
  show ?thesis
    using feeds_append[OF f1 feeds_append[OF f2 feeds_append[OF f3 feeds_append[OF f4 feeds_append[OF f5 f6]]]]] by (simp add: new_request_def)
qed

lemma request_parsed_back:
  assumes p: "printable_request r" and lex: "reads_numbers lexical_cast"
  shows "feeds (request_consume lexical_cast) (S_method_start, no_header, new_request) (request_to_string r) (S_good, no_header, reread_request r)"
proof -
  let ?c = "request_consume lexical_cast" and ?start = "\<lambda>q. (S_header_line_start, no_header, q)"
  let ?r1 = "new_request\<lparr>req_method := req_method r, req_uri := req_uri r, http_version_major := http_version_major r,
       http_version_minor := http_version_minor r, keep_alive := http_1_1 r\<rparr>"
  let ?r2 = "?r1\<lparr>host := map to_lower (host r)\<rparr>" let ?r3 = "?r2\<lparr>headers := headers r\<rparr>" let ?r4 = "?r3\<lparr>basic_authorization := basic_authorization r\<rparr>"
  have f1: "feeds ?c (S_method_start, no_header, new_request) (req_method r @ '' '' @ req_uri r @ '' '' @ print_version r @ CRLF) (?start ?r1)"
    by (rule first_line_run) (use p in \<open>simp_all add: printable_request_def\<close>)
  have f2: "feeds ?c (?start ?r1) (if host r \<noteq> [] then ''Host: '' @ host r @ CRLF else []) (?start ?r2)"
  proof (cases "host r = []")
    case True
    then have "?r2 = ?r1" by (simp add: new_request_def)
    then show ?thesis using True feeds_Nil by simp
  next
    case False
    have "feeds ?c (?start ?r1) (print_header \<lparr>h_name = ''Host'', h_value = host r\<rparr>) (?start ?r2)"
    proof (rule request_parser.header_line)
      show "request_ready_header lexical_cast (lower_header \<lparr>h_name = ''Host'', h_value = host r\<rparr>)
          (?r1\<lparr>headers := headers ?r1 @ [\<lparr>h_name = ''Host'', h_value = host r\<rparr>]\<rparr>) = Inr (Some ?r2)"
        unfolding lower_header_def header.simps special_names by (simp add: request_ready_header_def pop_header_def)
    qed (use p special_names in \<open>simp_all add: printable_request_def\<close>)
    then show ?thesis using False by (simp add: print_header_def)
  qed
  have f3: "feeds ?c (?start ?r2) (concat (map print_header (headers r))) (?start ?r3)"
  proof -
    have "feeds ?c (?start ?r2) (concat (map print_header (headers r))) (?start (?r2\<lparr>headers := headers ?r2 @ headers r\<rparr>))"
      by (rule request_parser.header_lines) (use p ordinary_request_header in \<open>auto simp: printable_request_def\<close>)
    then show ?thesis by (simp add: new_request_def)
  qed
  have f4: "feeds ?c (?start ?r3) (if basic_authorization r \<noteq> [] then ''Authorization: Basic '' @ basic_authorization r @ CRLF else []) (?start ?r4)"
  proof (cases "basic_authorization r = []")
    case True
    then have "?r4 = ?r3" by (simp add: new_request_def)
    then show ?thesis using True feeds_Nil by simp
  next
    case False
    let ?h = "\<lparr>h_name = ''Authorization'', h_value = ''Basic '' @ basic_authorization r\<rparr>"
    have "feeds ?c (?start ?r3) (print_header ?h) (?start ?r4)"
    proof (rule request_parser.header_line)
      have "strip_basic (''Basic '' @ basic_authorization r) = basic_authorization r"
        using strip_basic_printed False p by (simp add: printable_request_def)
      then show "request_ready_header lexical_cast (lower_header ?h) (?r3\<lparr>headers := headers ?r3 @ [?h]\<rparr>) = Inr (Some ?r4)"
        unfolding lower_header_def header.simps special_names map_append by (simp add: request_ready_header_def pop_header_def)
      show "is_value (h_value ?h)" using p special_names(6) by (simp only: header.simps is_value_simps printable_request_def)
    qed (simp add: special_names)
    then show ?thesis using False by (simp add: print_header_def)
  qed
  have f5: "feeds ?c (?start ?r4) (print_connection r @ print_length r)
      (S_good, no_header, ?r4\<lparr>keep_alive := announced_keep_alive r, content_length := content_length r\<rparr>)"
    by (rule request_parser.end_run[OF request_ends(1)[OF lex] request_ends(2)[OF lex]])
      (use p in \<open>simp_all add: printable_request_def http_1_1_def new_request_def\<close>)
  have eq: "?r4\<lparr>keep_alive := announced_keep_alive r, content_length := content_length r\<rparr> = reread_request r"
    by (simp add: new_request_def reread_request_def)
  show ?thesis unfolding request_to_string_def
    using feeds_append[OF f1 feeds_append[OF f2 feeds_append[OF f3 feeds_append[OF f4 f5[unfolded eq]]]]] by simp
qed


lemma three_digits:
  assumes "100 \<le> n" and "n < 1000"
  shows "nat_to_string n = [digit_char (n div 100), digit_char (n div 10 mod 10), digit_char (n mod 10)]"
proof -
  have "nat_to_string n = nat_to_string (n div 10) @ [digit_char (n mod 10)]" using assms by (subst nat_to_string_rec) simp
  moreover have "nat_to_string (n div 10) = nat_to_string (n div 10 div 10) @ [digit_char (n div 10 mod 10)]"
    using assms by (subst nat_to_string_rec) simp
  moreover have "nat_to_string (n div 10 div 10) = [digit_char (n div 100)]"
    using assms by (subst nat_to_string_rec) (simp add: div_mult2_eq[symmetric])
  ultimately show ?thesis by simp
qed

lemma status_texts: "is_value (status_to_string n)"
proof (cases "find (\<lambda>m. fst m = n) smappings")
  case None
  have "is_value ''Unknown''" by code_simp
  then show ?thesis using None by (simp add: status_to_string_def)
next
  case (Some m)
  then have "m \<in> set smappings" by (auto simp: find_Some_iff in_set_conv_nth)
  moreover have "list_all (\<lambda>m. is_value (snd m)) smappings" by code_simp
  ultimately show ?thesis using Some by (simp add: status_to_string_def list_all_iff)
qed

lemma status_line_run:
  assumes "100 \<le> unat (status r)" and "unat (status r) < 1000" and "is_value text" and "well_versioned r"
  shows "feeds (response_consume lexical_cast) (S_http_version_h, no_header, new_response)
    (print_version r @ '' '' @ int_to_string (sint (status r)) @ '' '' @ text @ CRLF)
    (S_header_line_start, no_header, new_response\<lparr>http_version_major := http_version_major r,
       http_version_minor := http_version_minor r, keep_alive := http_1_1 r, status := status r, status_text := text\<rparr>)"
proof -
  let ?c = "response_consume lexical_cast" and ?n = "unat (status r)"
  let ?r1 = "new_response\<lparr>http_version_major := http_version_major r, http_version_minor := http_version_minor r\<rparr>"
  let ?r2 = "?r1\<lparr>keep_alive := http_1_1 r\<rparr>" let ?r3 = "?r2\<lparr>status := status r\<rparr>" let ?r4 = "?r3\<lparr>status_text := text\<rparr>"
  have f1: "feeds ?c (S_http_version_h, no_header, new_response) (print_version r) (S_http_version_minor, no_header, ?r1)"
    unfolding print_version_def by (rule response_parser.version_run) (use assms(4) in \<open>simp_all add: well_versioned_def new_response_def\<close>)
  have k: "?r1\<lparr>keep_alive := http_1_1 ?r1\<rparr> = ?r2" by (simp add: http_1_1_def)
  have f2: "feeds ?c (S_http_version_minor, no_header, ?r1) '' '' (S_status_code_1, no_header, ?r2)"
    by (rule feeds_char) (use k in \<open>simp_all add: response_consume_def\<close>)
  have nn: "0 \<le>s status r" by (rule printed_number_sign) (use assms(2) in simp)
  let ?a = "?n div 100" and ?b = "?n div 10 mod 10" and ?d = "?n mod 10"
  have dig: "?a < 10" "?b < 10" "?d < 10" using assms(2) by auto
  have sum: "?a * 10 + ?b = ?n div 10" "?n div 10 * 10 + ?d = ?n"
  proof -
    have "?n div 10 div 10 * 10 + ?b = ?n div 10" by (rule div_mult_mod_eq)
    then show "?a * 10 + ?b = ?n div 10" by (simp add: div_mult2_eq[symmetric])
  qed simp
  let ?s = "\<lambda>m. ?r2\<lparr>status := word_of_nat m\<rparr>"
  have ad: "add_digit 0 (digit_char ?a) = Inr (word_of_nat ?a)" "add_digit (word_of_nat ?a) (digit_char ?b) = Inr (word_of_nat (?n div 10))"
    "add_digit (word_of_nat (?n div 10)) (digit_char ?d) = Inr (status r)"
    using add_digit_nat[OF dig(1), of 0] add_digit_nat[OF dig(2), of ?a] add_digit_nat[OF dig(3), of "?n div 10"] assms(2) unfolding sum by simp_all
  have s0: "status ?r2 = 0" by (simp add: new_response_def)
  have f3: "feeds ?c (S_status_code_1, no_header, ?r2) [digit_char ?a, digit_char ?b] (S_status_code_3, no_header, ?s (?n div 10))"
    by (rule feeds_two[of ?c _ _ _ _ S_status_code_2 no_header "?s ?a"]) (use dig ad s0 in \<open>simp_all add: response_consume_def add_status_def\<close>)
  have f4: "feeds ?c (S_status_code_3, no_header, ?s (?n div 10)) [digit_char ?d, CHR '' ''] (S_status_text, no_header, ?r3)"
    by (rule feeds_two[of ?c _ _ _ _ S_status_code_space no_header ?r3]) (use dig ad in \<open>simp_all add: response_consume_def add_status_def\<close>)
  let ?text = "\<lambda>q ch. q\<lparr>status_text := status_text q @ [ch]\<rparr>"
  have texts: "foldl ?text q s = q\<lparr>status_text := status_text q @ s\<rparr>" for q :: response and s by (induction s arbitrary: q) simp_all
  have first: "foldl (\<lambda>low ch. low) l ds = l" for l :: header and ds :: string by (induction ds) simp_all
  have cr: "\<not> is_ctl ch \<Longrightarrow> ch \<noteq> CHR 0x0D" for ch by (auto simp: is_ctl_def)
  have "feeds ?c (S_status_text, no_header, ?r3) text (S_status_text, foldl (\<lambda>low ch. low) no_header text, foldl ?text ?r3 text)"
    by (rule feeds_many[where Q = "\<lambda>_. True" and P = "\<lambda>ch. \<not> is_ctl ch"]) (use assms(3) cr in \<open>auto simp: response_consume_def is_value_def\<close>)
  then have f5: "feeds ?c (S_status_text, no_header, ?r3) text (S_status_text, no_header, ?r4)"
    unfolding first texts by (simp add: new_response_def)
  have f6: "feeds ?c (S_status_text, no_header, ?r4) CRLF (S_header_line_start, no_header, ?r4)"
    unfolding CRLF_def by (rule feeds_two[of ?c _ _ _ _ S_expecting_newline_1 no_header ?r4]) (simp_all add: response_consume_def)
  show ?thesis unfolding printed_version[OF nn] three_digits[OF assms(1,2)]
    using feeds_append[OF f1 feeds_append[OF f2 feeds_append[OF f3 feeds_append[OF f4 feeds_append[OF f5 f6]]]]] by simp
qed

lemma response_parsed_back:
  assumes p: "printable_response r" and lex: "reads_numbers lexical_cast"
  shows "feeds (response_consume lexical_cast) (S_http_version_h, no_header, new_response) (response_to_string r) (S_good, no_header, reread_response r)"
proof -
  let ?c = "response_consume lexical_cast" and ?start = "\<lambda>q. (S_header_line_start, no_header, q)"
  let ?r1 = "new_response\<lparr>http_version_major := http_version_major r, http_version_minor := http_version_minor r, keep_alive := http_1_1 r,
      status := status r, status_text := printed_status_text r\<rparr>"
  let ?r2 = "?r1\<lparr>headers := headers r\<rparr>"
  have f1: "feeds ?c (S_http_version_h, no_header, new_response)
      (print_version r @ '' '' @ int_to_string (sint (status r)) @ '' '' @ printed_status_text r @ CRLF) (?start ?r1)"
    by (rule status_line_run) (use p status_texts in \<open>simp_all add: printable_response_def printed_status_text_def\<close>)
  have f2: "feeds ?c (?start ?r1) (concat (map print_header (headers r))) (?start ?r2)"
  proof -
    have "feeds ?c (?start ?r1) (concat (map print_header (headers r))) (?start (?r1\<lparr>headers := headers ?r1 @ headers r\<rparr>))"
      by (rule response_parser.header_lines) (use p ordinary_response_header in \<open>auto simp: printable_response_def\<close>)
    then show ?thesis by (simp add: new_response_def)
  qed
  have f3: "feeds ?c (?start ?r2) (print_connection r @ print_length r)
      (S_good, no_header, ?r2\<lparr>keep_alive := announced_keep_alive r, content_length := content_length r\<rparr>)"
    by (rule response_parser.end_run[OF response_ends(1)[OF lex] response_ends(2)[OF lex]])
      (use p in \<open>simp_all add: printable_response_def http_1_1_def new_response_def\<close>)
  have eq: "?r2\<lparr>keep_alive := announced_keep_alive r, content_length := content_length r\<rparr> = reread_response r"
    by (simp add: new_response_def reread_response_def)
  show ?thesis unfolding response_to_string_def
    using feeds_append[OF f1 feeds_append[OF f2 f3[unfolded eq]]] by (simp add: printed_status_text_def)
qed


lemma parse_loop_good [simp]: "parse_loop consume S_good low m input = Inr (S_good, low, m, input)"
  by (cases input) simp_all

section \<open>Deviations\<close>

text \<open>An answer to a request of version 1.1 that is not to keep the connection does not say so.\<close>

lemma close_not_announced:
  "response_to_string (new_response\<lparr>http_version_major := 1, http_version_minor := 1, status := 200, keep_alive := False, content_length := 0\<rparr>) =
   ''HTTP/1.1 200 OK'' @ CRLF @ ''Content-Length: 0'' @ CRLF @ CRLF"
proof -
  have n: "nat_to_string 0 = ''0''" "nat_to_string 1 = ''1''" "nat_to_string 200 = ''200''" "nat_to_string (Suc 0) = ''1''"
    by (simp_all add: nat_to_string.simps; code_simp)+
  show ?thesis
    by (simp add: response_to_string_def print_version_def print_connection_def print_length_def has_content_length_def new_response_def int_to_string_def n
        status_to_string_def smappings_def)
qed

text \<open>The digits of a version are added without a bound.\<close>

lemma long_version_overflows:
  "parse_request lexical_cast S_method_start no_header new_request ''GET / HTTP/2147483648'' = Inl Undefined"
  by code_simp

section \<open>Properties\<close>

text \<open>The input arrives in pieces; each call of \<open>parse\<close> continues where the last one stopped, until a piece is not used up.\<close>

fun parse_pieces :: "(parser_state \<Rightarrow> header \<Rightarrow> 'r \<Rightarrow> string \<Rightarrow> (parser_state \<times> header \<times> 'r \<times> string) result) \<Rightarrow>
    parser_state \<Rightarrow> header \<Rightarrow> 'r \<Rightarrow> string list \<Rightarrow> (parser_state \<times> header \<times> 'r \<times> string) result" where
  "parse_pieces parse st low r [] = Inr (st, low, r, [])"
| "parse_pieces parse st low r (p # ps) =
     bindR (parse st low r p) (\<lambda>(st', low', r', rest).
       if rest = [] then parse_pieces parse st' low' r' ps else Inr (st', low', r', rest @ concat ps))"

lemma parse_loop_pieces: "parse_loop consume st low r (concat ps) = parse_pieces (parse_loop consume) st low r ps"
  by (induction ps arbitrary: st low r) (auto simp: parse_loop_append intro!: bindR_cong split: prod.splits)

text \<open>Somewhere in the input the version number read so far, times ten and with the next digit, is beyond \<open>int\<close>.\<close>

definition version_overflows :: "(parser_state \<Rightarrow> header \<Rightarrow> 'm http_message_scheme \<Rightarrow> string \<Rightarrow>
    (parser_state \<times> header \<times> 'm http_message_scheme \<times> string) result) \<Rightarrow> parser_state \<Rightarrow> header \<Rightarrow> 'm http_message_scheme \<Rightarrow> string \<Rightarrow> bool" where
  "version_overflows parse st low m input \<longleftrightarrow>
     (\<exists>pre ch suf st' low' m'. input = pre @ ch # suf \<and> parse st low m pre = Inr (st', low', m', []) \<and> digit_overflows st' m' ch)"

lemma parse_loop_robust:
  assumes "\<And>st low m ch. ok st m \<Longrightarrow> st \<noteq> S_good \<Longrightarrow> st \<noteq> S_bad \<Longrightarrow>
      if digit_overflows st m ch then consume st low m ch = Inl Undefined
      else \<exists>st' low' m'. consume st low m ch = Inr (st', low', m') \<and> ok st' m'"
    and "ok st m"
  shows "if version_overflows (parse_loop consume) st low m input then parse_loop consume st low m input = Inl Undefined
    else \<exists>st' low' m' rest. parse_loop consume st low m input = Inr (st', low', m', rest) \<and> (rest = [] \<or> st' = S_good \<or> st' = S_bad)"
  using assms(2)
proof (induction input arbitrary: st low m)
  case Nil
  then show ?case by (simp add: version_overflows_def)
next
  case (Cons ch input)
  let ?V = "version_overflows (parse_loop consume)"
  show ?case
  proof (cases "st = S_good \<or> st = S_bad")
    case True
    have "\<not> ?V st low m (ch # input)"
    proof
      assume "?V st low m (ch # input)"
      then obtain pre c suf st' low' m' where v: "parse_loop consume st low m pre = Inr (st', low', m', [])" "digit_overflows st' m' c"
        unfolding version_overflows_def by blast
      have "st' = st" using v(1) True by (cases pre) auto
      then show False using v(2) True by (auto simp: digit_overflows_def)
    qed
    then show ?thesis using True by auto
  next
    case False
    then have st: "st \<noteq> S_good" "st \<noteq> S_bad" by auto
    note step = assms(1)[OF Cons.prems st, of ch low]
    show ?thesis
    proof (cases "digit_overflows st m ch")
      case True
      have "?V st low m (ch # input)" unfolding version_overflows_def
        by (intro exI[of _ "[]"] exI[of _ ch] exI[of _ input] exI[of _ st] exI[of _ low] exI[of _ m]) (simp add: True)
      then show ?thesis using True step st by simp
    next
      case no: False
      then obtain st1 low1 m1 where c: "consume st low m ch = Inr (st1, low1, m1)" "ok st1 m1" using step by auto
      have loop: "parse_loop consume st low m (ch # xs) = parse_loop consume st1 low1 m1 xs" for xs using c(1) st by simp
      have "?V st low m (ch # input) \<longleftrightarrow> ?V st1 low1 m1 input"
      proof
        assume "?V st low m (ch # input)"
        then obtain pre d suf st' low' m' where v: "ch # input = pre @ d # suf" "parse_loop consume st low m pre = Inr (st', low', m', [])"
            "digit_overflows st' m' d" unfolding version_overflows_def by blast
        then obtain pre' where p: "pre = ch # pre'" "input = pre' @ d # suf" using no by (cases pre) auto
        then show "?V st1 low1 m1 input" unfolding version_overflows_def using v(2)[unfolded p(1) loop] v(3) p(2) by blast
      next
        assume "?V st1 low1 m1 input"
        then obtain pre d suf st' low' m' where v: "input = pre @ d # suf" "parse_loop consume st1 low1 m1 pre = Inr (st', low', m', [])"
            "digit_overflows st' m' d" unfolding version_overflows_def by blast
        then show "?V st low m (ch # input)" unfolding version_overflows_def
          by (intro exI[of _ "ch # pre"] exI[of _ d] exI[of _ suf] exI[of _ st'] exI[of _ low'] exI[of _ m']) (simp add: loop del: parse_loop.simps)
      qed
      then show ?thesis using Cons.IH[OF c(2), of low1] unfolding loop by simp
    qed
  qed
qed

text \<open>
  C32: the parsers of requests and responses, from any state, give the same result whatever the number of pieces in which the input
  arrives and wherever it is cut. From the start, on any input, a parser never uses a header that is not there and stops only at the end of the
  input, of the message, or at an error; the one exception is a version number that does not fit \<open>int\<close>, where the code overflows: the model is undefined
  exactly when the digits read so far, times ten and with the character of the next digit, reach \<open>2 ^ 31\<close>.
\<close>

theorem http_parsers_robust:
  "(\<forall>st low q pieces. parse_request lexical_cast st low q (concat pieces) = parse_pieces (parse_request lexical_cast) st low q pieces) \<and>
   (\<forall>st low r pieces. parse_response lexical_cast st low r (concat pieces) = parse_pieces (parse_response lexical_cast) st low r pieces) \<and>
   (if version_overflows (parse_request lexical_cast) S_method_start no_header new_request input
    then parse_request lexical_cast S_method_start no_header new_request input = Inl Undefined
    else \<exists>st low q rest. parse_request lexical_cast S_method_start no_header new_request input = Inr (st, low, q, rest) \<and>
      (rest = [] \<or> st = S_good \<or> st = S_bad)) \<and>
   (if version_overflows (parse_response lexical_cast) S_http_version_h no_header new_response input
    then parse_response lexical_cast S_http_version_h no_header new_response input = Inl Undefined
    else \<exists>st low r rest. parse_response lexical_cast S_http_version_h no_header new_response input = Inr (st, low, r, rest) \<and>
      (rest = [] \<or> st = S_good \<or> st = S_bad))"
proof (intro conjI allI)
  show "parse_request lexical_cast st low q (concat pieces) = parse_pieces (parse_request lexical_cast) st low q pieces" for st low q pieces
    unfolding parse_request_def by (rule parse_loop_pieces)
  show "parse_response lexical_cast st low r (concat pieces) = parse_pieces (parse_response lexical_cast) st low r pieces" for st low r pieces
    unfolding parse_response_def by (rule parse_loop_pieces)
  have "request_ok S_method_start new_request" by (simp add: request_ok_def has_header_def numbers_ok_def new_request_def)
  from parse_loop_robust[where ok = request_ok, OF request_consume_cases this]
  show "if version_overflows (parse_request lexical_cast) S_method_start no_header new_request input
    then parse_request lexical_cast S_method_start no_header new_request input = Inl Undefined
    else \<exists>st low q rest. parse_request lexical_cast S_method_start no_header new_request input = Inr (st, low, q, rest) \<and>
      (rest = [] \<or> st = S_good \<or> st = S_bad)" unfolding parse_request_def .
  have "response_ok S_http_version_h new_response" by (simp add: response_ok_def has_header_def numbers_ok_def status_ok_def new_response_def)
  from parse_loop_robust[where ok = response_ok, OF response_consume_cases this]
  show "if version_overflows (parse_response lexical_cast) S_http_version_h no_header new_response input
    then parse_response lexical_cast S_http_version_h no_header new_response input = Inl Undefined
    else \<exists>st low r rest. parse_response lexical_cast S_http_version_h no_header new_response input = Inr (st, low, r, rest) \<and>
      (rest = [] \<or> st = S_good \<or> st = S_bad)" unfolding parse_response_def .
qed

text \<open>
  C30: a request or a response that is printed is parsed back, with the bytes of its body left unread, to the same message up to what the text does not
  carry: the host comes back in lower case, an empty status text as the standard text of the status, and the connection as the version announces it (for 1.1 it is
  kept, also when the message is not to keep it; 1.0 can ask for it). The method is a token, the target has no space or control character, the other texts no control
  characters, the authorization no blank at its ends; the status has three digits, the version numbers are below \<open>2 ^ 31 - 48\<close>; and no other header has one
  of the names that the parser interprets. \<open>boost::lexical_cast\<close> reads the numbers that are printed.
\<close>

theorem http_messages_read_back:
  assumes "reads_numbers lexical_cast" and "printable_request q" and "printable_response r"
  shows "parse_request lexical_cast S_method_start no_header new_request (request_to_string q @ body) = Inr (S_good, no_header, reread_request q, body) \<and>
    parse_response lexical_cast S_http_version_h no_header new_response (response_to_string r @ body) = Inr (S_good, no_header, reread_response r, body)"
  using request_parsed_back[OF assms(2,1)] response_parsed_back[OF assms(3,1)]
  by (simp add: feeds_def parse_request_def parse_response_def)

definition sample_request :: request where
  "sample_request = \<lparr>http_version_major = 1, http_version_minor = 1, headers = [\<lparr>h_name = ''Accept'', h_value = ''*/*''\<rparr>], keep_alive = False,
     content_length = 2, req_method = ''POST'', req_uri = ''/json_rpc'', basic_authorization = ''dXNlcg=='', host = ''Localhost''\<rparr>"

definition sample_response :: response where
  "sample_response = \<lparr>http_version_major = 1, http_version_minor = 0, headers = [\<lparr>h_name = ''Expires'', h_value = ''0''\<rparr>], keep_alive = True,
     content_length = 2, status = 404, status_text = []\<rparr>"

theorem http_messages_read_back_witness:
  "\<exists>lexical_cast. reads_numbers lexical_cast \<and>
     parse_request lexical_cast S_method_start no_header new_request (request_to_string sample_request @ ''{}'') =
       Inr (S_good, no_header, sample_request\<lparr>keep_alive := True, host := ''localhost''\<rparr>, ''{}'') \<and>
     parse_response lexical_cast S_http_version_h no_header new_response (response_to_string sample_response @ ''{}'') =
       Inr (S_good, no_header, sample_response\<lparr>status_text := ''Not found''\<rparr>, ''{}'')"
proof -
  let ?lex = "\<lambda>s. Some (word_of_nat (digits_value s))"
  have lex: "reads_numbers ?lex" by (simp add: reads_numbers_def)
  have p: "printable_request sample_request" "printable_response sample_response" by code_simp+
  have "reread_request sample_request = sample_request\<lparr>keep_alive := True, host := ''localhost''\<rparr>"
    "reread_response sample_response = sample_response\<lparr>status_text := ''Not found''\<rparr>" by code_simp+
  then show ?thesis using http_messages_read_back[OF lex p, of "''{}''"] lex by auto
qed

end
