(* ===== verification/Json.thy ===== *)
theory Json
  imports TextTools
begin

text \<open>
  JSON values: \<open>src/src/common/JsonValue.*\<close>. A value is a tree whose objects are maps ordered by key; the printer and the parser
  of the standard streams, with the state bits that decide when a read fails. The type of floating point numbers, their
  printing and their reading are arguments.
\<close>

section \<open>Values\<close>

type_synonym s64 = "64 word"

datatype 'd json =
    JArray "'d json list"
  | JBool bool
  | JInteger s64
  | JUnsigned u64
  | JNil
  | JObject "(string \<times> 'd json) list"
  | JDouble 'd
  | JString string

text \<open>The order of the keys of a \<open>std::map\<close> of strings, and its operations on the list of the entries in that order.\<close>

fun key_before :: "string \<Rightarrow> string \<Rightarrow> bool" where
  "key_before _ [] \<longleftrightarrow> False"
| "key_before [] (_ # _) \<longleftrightarrow> True"
| "key_before (a # s) (b # t) \<longleftrightarrow> (of_char a :: nat) < of_char b \<or> a = b \<and> key_before s t"

fun map_put :: "string \<Rightarrow> 'a \<Rightarrow> (string \<times> 'a) list \<Rightarrow> (string \<times> 'a) list" where
  "map_put k v [] = [(k, v)]"
| "map_put k v ((k', v') # es) =
     (if k = k' then (k, v) # es else if key_before k k' then (k, v) # (k', v') # es else (k', v') # map_put k v es)"

subsection \<open>Access\<close>

definition get_array :: "'d json \<Rightarrow> 'd json list result" where
  "get_array j = (case j of JArray vs \<Rightarrow> Inr vs | _ \<Rightarrow> Inl (RuntimeError ''JsonValue type is not ARRAY''))"

definition get_bool :: "'d json \<Rightarrow> bool result" where
  "get_bool j = (case j of JBool b \<Rightarrow> Inr b | _ \<Rightarrow> Inl (RuntimeError ''JsonValue type is not BOOL''))"

definition get_integer :: "'d json \<Rightarrow> s64 result" where
  "get_integer j = (case j of JInteger i \<Rightarrow> Inr i | JUnsigned u \<Rightarrow> Inr u | _ \<Rightarrow> Inl (RuntimeError ''JsonValue type is not INTEGER''))"

definition get_unsigned :: "'d json \<Rightarrow> u64 result" where
  "get_unsigned j = (case j of JInteger i \<Rightarrow> Inr i | JUnsigned u \<Rightarrow> Inr u | _ \<Rightarrow> Inl (RuntimeError ''JsonValue type is not INTEGER''))"

definition get_object :: "'d json \<Rightarrow> (string \<times> 'd json) list result" where
  "get_object j = (case j of JObject es \<Rightarrow> Inr es | _ \<Rightarrow> Inl (RuntimeError ''JsonValue type is not OBJECT''))"

definition get_double :: "'d json \<Rightarrow> 'd result" where
  "get_double j = (case j of JDouble d \<Rightarrow> Inr d | _ \<Rightarrow> Inl (RuntimeError ''JsonValue type is not REAL''))"

definition get_string :: "'d json \<Rightarrow> string result" where
  "get_string j = (case j of JString s \<Rightarrow> Inr s | _ \<Rightarrow> Inl (RuntimeError ''JsonValue type is not STRING''))"

definition json_size :: "'d json \<Rightarrow> nat result" where
  "json_size j = (case j of JArray vs \<Rightarrow> Inr (length vs) | JObject es \<Rightarrow> Inr (length es)
     | _ \<Rightarrow> Inl (RuntimeError ''JsonValue type is not ARRAY or OBJECT''))"

definition json_index :: "'d json \<Rightarrow> nat \<Rightarrow> 'd json result" where
  "json_index j i = bindR (get_array j) (\<lambda>vs. if i < length vs then Inr (vs ! i) else Inl OutOfRange)"

definition json_push_back :: "'d json \<Rightarrow> 'd json \<Rightarrow> 'd json result" where
  "json_push_back j v = bindR (get_array j) (\<lambda>vs. Inr (JArray (vs @ [v])))"

definition json_at :: "'d json \<Rightarrow> string \<Rightarrow> 'd json result" where
  "json_at j k = bindR (get_object j) (\<lambda>es. case map_of es k of None \<Rightarrow> Inl OutOfRange | Some v \<Rightarrow> Inr v)"

definition json_contains :: "'d json \<Rightarrow> string \<Rightarrow> bool result" where
  "json_contains j k = bindR (get_object j) (\<lambda>es. Inr (map_of es k \<noteq> None))"

text \<open>\<open>insert\<close> leaves an entry that exists as it is.\<close>

definition json_insert :: "'d json \<Rightarrow> string \<Rightarrow> 'd json \<Rightarrow> 'd json result" where
  "json_insert j k v = bindR (get_object j) (\<lambda>es. Inr (JObject (if map_of es k \<noteq> None then es else map_put k v es)))"

definition json_set :: "'d json \<Rightarrow> string \<Rightarrow> 'd json \<Rightarrow> 'd json result" where
  "json_set j k v = bindR (get_object j) (\<lambda>es. Inr (JObject (map_put k v es)))"

definition json_erase :: "'d json \<Rightarrow> string \<Rightarrow> ('d json \<times> nat) result" where
  "json_erase j k = bindR (get_object j) (\<lambda>es.
     Inr (JObject (filter (\<lambda>e. fst e \<noteq> k) es), length (filter (\<lambda>e. fst e = k) es)))"

section \<open>Printing\<close>

definition escape_table :: "string list" where
  "escape_table = map (\<lambda>e. CHR 0x5C # e)
     [''u0000'', ''u0001'', ''u0002'', ''u0003'', ''u0004'', ''u0005'', ''u0006'', ''u0007'', ''b'', ''t'', ''n'', ''u000B'', ''f'', ''r'',
      ''u000E'', ''u000F'', ''u0010'', ''u0011'', ''u0012'', ''u0013'', ''u0014'', ''u0015'', ''u0016'', ''u0017'', ''u0018'', ''u0019'',
      ''u001A'', ''u001B'', ''u001C'', ''u001D'', ''u001E'', ''u001F'']"

definition quote :: char where
  "quote = CHR 0x22"

definition backslash :: char where
  "backslash = CHR 0x5C"

definition escape_char :: "char \<Rightarrow> string" where
  "escape_char ch =
     (if ch = backslash \<or> ch = quote then [backslash, ch]
      else if of_char ch < (of_char (CHR '' '') :: nat) then escape_table ! of_char ch
      else [ch])"

definition escape_string :: "string \<Rightarrow> string" where
  "escape_string str = concat (map escape_char str)"

text \<open>The zeros at the end of a number with a fixed count of decimals are cut off, one is kept behind the point.\<close>

function cut_zeros :: "string \<Rightarrow> string" where
  "cut_zeros value =
     (if 1 < length value \<and> value ! (length value - 2) \<noteq> CHR ''.'' \<and> value ! (length value - 1) = CHR ''0''
      then cut_zeros (take (length value - 1) value) else value)"
  by pat_completeness auto
termination
  by (relation "measure length") auto

declare cut_zeros.simps [simp del]

fun separated :: "string list \<Rightarrow> string" where
  "separated [] = []"
| "separated [s] = s"
| "separated (s # t # ss) = s @ '','' @ separated (t # ss)"

fun to_string :: "('d \<Rightarrow> string) \<Rightarrow> 'd json \<Rightarrow> string" where
  "to_string print_fixed (JArray vs) = ''['' @ separated (map (to_string print_fixed) vs) @ '']''"
| "to_string print_fixed (JBool b) = (if b then ''true'' else ''false'')"
| "to_string print_fixed (JInteger i) = int_to_string (sint i)"
| "to_string print_fixed (JUnsigned u) = nat_to_string (unat u)"
| "to_string print_fixed JNil = ''null''"
| "to_string print_fixed (JObject es) =
     ''{'' @ separated (map (\<lambda>(k, v). quote # escape_string k @ [quote] @ '':'' @ to_string print_fixed v) es) @ ''}''"
| "to_string print_fixed (JDouble d) = cut_zeros (print_fixed d)"
| "to_string print_fixed (JString s) = quote # escape_string s @ [quote]"

section \<open>Parsing\<close>

subsection \<open>The stream\<close>

record istream =
  in_rest :: string
  in_eof :: bool
  in_fail :: bool

definition good :: "istream \<Rightarrow> bool" where
  "good st \<longleftrightarrow> \<not> in_eof st \<and> \<not> in_fail st"

definition parse_error :: "'a result" where
  "parse_error = Inl (RuntimeError ''Unable to parse'')"

text \<open>\<open>in >> c\<close> skips white space; at the end it sets both bits.\<close>

definition read_char :: "istream \<Rightarrow> (char \<times> istream) result" where
  "read_char st =
     (if \<not> good st then parse_error
      else case dropWhile is_space (in_rest st) of [] \<Rightarrow> parse_error | ch # rest \<Rightarrow> Inr (ch, st\<lparr>in_rest := rest\<rparr>))"

text \<open>The loop on white space of \<open>read_non_ws_char\<close> ends at once, because the stream has skipped it.\<close>

definition read_non_ws_char :: "istream \<Rightarrow> (char \<times> istream) result" where
  "read_non_ws_char st = read_char st"

text \<open>\<open>peek\<close> at the end sets the bit for the end; once that is set, it fails.\<close>

definition peek :: "istream \<Rightarrow> char option \<times> istream" where
  "peek st =
     (if \<not> good st then (None, st\<lparr>in_fail := True\<rparr>)
      else case in_rest st of [] \<Rightarrow> (None, st\<lparr>in_eof := True\<rparr>) | ch # _ \<Rightarrow> (Some ch, st))"

definition skip1 :: "istream \<Rightarrow> istream" where
  "skip1 st = st\<lparr>in_rest := tl (in_rest st)\<rparr>"

definition putback :: "char \<Rightarrow> istream \<Rightarrow> istream" where
  "putback ch st = st\<lparr>in_rest := ch # in_rest st, in_eof := False\<rparr>"

text \<open>
  The words: \<open>read\<close> of a fixed count. Where the input ends within the word, the buffer holds bytes that were never
  written, and the comparison either throws or leaves a stream that has failed; both are errors in the end.
\<close>

definition read_word :: "string \<Rightarrow> istream \<Rightarrow> istream result" where
  "read_word w st =
     (if good st \<and> take (length w) (in_rest st) = w then Inr (st\<lparr>in_rest := drop (length w) (in_rest st)\<rparr>) else parse_error)"

subsection \<open>Strings\<close>

definition is_cntrl :: "char \<Rightarrow> bool" where
  "is_cntrl ch \<longleftrightarrow> of_char ch < (32 :: nat) \<or> of_char ch = (127 :: nat)"

text \<open>The bytes that are appended for a code point; above 0x7F they come in the reverse of the order of UTF-8.\<close>

definition code_point_bytes :: "u32 \<Rightarrow> string result" where
  "code_point_bytes cp =
     (if 0xD800 \<le> cp \<and> cp \<le> 0xDFFF \<or> 0xFFFE \<le> cp then parse_error
      else if cp < 0x80 then Inr [char_of (unat cp)]
      else if cp < 0x800 then Inr [char_of (unat (0x80 OR (cp AND 0x3F))), char_of (unat (0xC0 OR drop_bit 6 cp))]
      else Inr [char_of (unat (0x80 OR (cp AND 0x3F))), char_of (unat (0x80 OR (drop_bit 6 cp AND 0x3F))), char_of (unat (0xE0 OR drop_bit 12 cp))])"

definition escaped_code :: "char \<Rightarrow> char \<Rightarrow> char \<Rightarrow> char \<Rightarrow> string result" where
  "escaped_code c0 c1 c2 c3 =
     (case (from_hex_char_bool c0, from_hex_char_bool c1, from_hex_char_bool c2, from_hex_char_bool c3) of
        (Some v0, Some v1, Some v2, Some v3) \<Rightarrow> code_point_bytes (ucast v0 * 4096 + ucast v1 * 256 + ucast v2 * 16 + ucast v3)
      | _ \<Rightarrow> parse_error)"

definition simple_escape :: "char \<Rightarrow> char option" where
  "simple_escape ch =
     (if ch = backslash then Some backslash else if ch = CHR ''/'' then Some (CHR ''/'') else if ch = quote then Some quote
      else if ch = CHR ''n'' then Some (CHR 0x0A) else if ch = CHR ''r'' then Some (CHR 0x0D) else if ch = CHR ''t'' then Some (CHR 0x09)
      else if ch = CHR ''b'' then Some (CHR 0x08) else if ch = CHR ''f'' then Some (CHR 0x0C) else None)"

text \<open>What follows a backslash: the bytes it stands for and the rest.\<close>

fun escape_part :: "string \<Rightarrow> (string \<times> string) result" where
  "escape_part [] = parse_error"
| "escape_part (e # rest) =
     (case simple_escape e of
        Some x \<Rightarrow> Inr ([x], rest)
      | None \<Rightarrow>
          if e \<noteq> CHR ''u'' then parse_error
          else case rest of
                 c0 # c1 # c2 # c3 # rest' \<Rightarrow> bindR (escaped_code c0 c1 c2 c3) (\<lambda>bs. Inr (bs, rest'))
               | _ \<Rightarrow> parse_error)"

lemma escape_part_less: "escape_part s = Inr (bs, rest) \<Longrightarrow> length rest < length s"
  by (cases s) (auto simp: parse_error_def bindR_eq_Inr_iff split: if_splits list.splits option.splits)

function string_token :: "string \<Rightarrow> string \<Rightarrow> (string \<times> string) result" where
  "string_token value [] = parse_error"
| "string_token value (ch # rest) =
     (if is_cntrl ch then parse_error
      else if ch = quote then Inr (value, rest)
      else if ch \<noteq> backslash then string_token (value @ [ch]) rest
      else bindR (escape_part rest) (\<lambda>(bs, rest'). string_token (value @ bs) rest'))"
  by pat_completeness auto
termination
  by (relation "measure (\<lambda>(v, s). length s)") (auto dest: escape_part_less)

definition read_string_token :: "istream \<Rightarrow> (string \<times> istream) result" where
  "read_string_token st = bindR (string_token [] (in_rest st)) (\<lambda>(value, rest). Inr (value, st\<lparr>in_rest := rest\<rparr>))"

subsection \<open>Numbers\<close>

text \<open>Digits and points, until another character is seen; their text, the count of points and the stream after the last peek.\<close>

function read_digits :: "string \<Rightarrow> nat \<Rightarrow> istream \<Rightarrow> string \<times> nat \<times> istream" where
  "read_digits t dots st =
     (case peek st of
        (Some i, st1) \<Rightarrow>
          if is_digit i then read_digits (t @ [i]) dots (skip1 st1)
          else if i = CHR ''.'' then read_digits (t @ [i]) (dots + 1) (skip1 st1)
          else (t, dots, st1)
      | (None, st1) \<Rightarrow> (t, dots, st1))"
  by pat_completeness auto
termination
  by (relation "measure (\<lambda>(t, dots, st). length (in_rest st))") (auto simp: peek_def skip1_def split: list.splits if_splits)

declare read_digits.simps [simp del]

text \<open>The digits of an exponent, after the first has been seen.\<close>

function read_exponent :: "string \<Rightarrow> istream \<Rightarrow> string \<times> istream" where
  "read_exponent t st =
     (case peek st of
        (Some i, st1) \<Rightarrow> if is_digit i then read_exponent (t @ [i]) (skip1 st1) else (t, st1)
      | (None, st1) \<Rightarrow> (t, st1))"
  by pat_completeness auto
termination
  by (relation "measure (\<lambda>(t, st). length (in_rest st))") (auto simp: peek_def skip1_def split: list.splits if_splits)

declare read_exponent.simps [simp del]

text \<open>
  Reading an integer from its text with \<open>>>\<close>: a value out of range becomes the nearest one in range, a text without
  digits becomes 0; that the conversion failed is not looked at.
\<close>

definition text_unsigned :: "string \<Rightarrow> u64" where
  "text_unsigned t = (let v = digits_value t in if t = [] \<or> \<not> list_all is_digit t then 0 else if v < 2 ^ 64 then word_of_nat v else - 1)"

definition text_negative :: "string \<Rightarrow> s64" where
  "text_negative digits = (let v = digits_value digits in if v \<le> 2 ^ 63 then - word_of_nat v else 0x8000000000000000)"

definition is_exp :: "char option \<Rightarrow> bool" where
  "is_exp p \<longleftrightarrow> p = Some (CHR ''e'') \<or> p = Some (CHR ''E'')"

text \<open>The exponent, if there is one; the text is extended.\<close>

definition read_exp_part :: "string \<Rightarrow> char option \<Rightarrow> istream \<Rightarrow> (string \<times> istream) result" where
  "read_exp_part t pee st =
     (if \<not> is_exp pee then Inr (t, st)
      else let t1 = t @ [the pee];
               (i, st1) = peek (skip1 st);
               sign = (i = Some (CHR ''+'') \<or> i = Some (CHR ''-''));
               t2 = (if sign then t1 @ [the i] else t1);
               (i2, st2) = (if sign then peek (skip1 st1) else (i, st1))
           in case i2 of
                Some d \<Rightarrow> if is_digit d then Inr (read_exponent (t2 @ [d]) (skip1 st2)) else parse_error
              | None \<Rightarrow> parse_error)"

definition read_number :: "(string \<Rightarrow> 'd) \<Rightarrow> char \<Rightarrow> istream \<Rightarrow> ('d json \<times> istream) result" where
  "read_number read_double ch st =
     (let (t, dots, st1) = read_digits [ch] 0 st;
          (pee, st2) = peek st1
      in if 0 < dots \<or> is_exp pee then
           (if 1 < dots then parse_error
            else bindR (read_exp_part t pee st2) (\<lambda>(t', st3). Inr (JDouble (read_double t'), st3)))
         else if 1 < length t \<and> (hd t = CHR ''0'' \<or> hd t = CHR ''-'' \<and> t ! 1 = CHR ''0'') then parse_error
         else if 1 < length t \<and> hd t = CHR ''-'' then Inr (JInteger (text_negative (tl t)), st2)
         else Inr (JUnsigned (text_unsigned t), st2))"

subsection \<open>Values\<close>

text \<open>
  The recursion of \<open>operator>>\<close>, \<open>read_array\<close> and \<open>read_object\<close>. Each step consumes a character, so that the fuel of
  \<open>from_string\<close> is never used up; \<open>Undefined\<close> would say that it is.
\<close>

fun read_value :: "(string \<Rightarrow> 'd) \<Rightarrow> nat \<Rightarrow> istream \<Rightarrow> ('d json \<times> istream) result"
  and read_elements :: "(string \<Rightarrow> 'd) \<Rightarrow> nat \<Rightarrow> 'd json list \<Rightarrow> istream \<Rightarrow> ('d json \<times> istream) result"
  and read_members :: "(string \<Rightarrow> 'd) \<Rightarrow> nat \<Rightarrow> (string \<times> 'd json) list \<Rightarrow> char \<Rightarrow> istream \<Rightarrow> ('d json \<times> istream) result" where
  "read_value rd 0 st = Inl Undefined"
| "read_value rd (Suc n) st =
     bindR (read_non_ws_char st) (\<lambda>(ch, st1).
       if ch = CHR ''['' then
         bindR (read_non_ws_char st1) (\<lambda>(c2, st2).
           if c2 = CHR '']'' then Inr (JArray [], st2) else read_elements rd n [] (putback c2 st2))
       else if ch = CHR ''t'' then bindR (read_word ''rue'' st1) (\<lambda>st2. Inr (JBool True, st2))
       else if ch = CHR ''f'' then bindR (read_word ''alse'' st1) (\<lambda>st2. Inr (JBool False, st2))
       else if ch = CHR ''-'' \<or> is_digit ch then read_number rd ch st1
       else if ch = CHR ''n'' then bindR (read_word ''ull'' st1) (\<lambda>st2. Inr (JNil, st2))
       else if ch = CHR ''{'' then
         bindR (read_non_ws_char st1) (\<lambda>(c2, st2).
           if c2 = CHR ''}'' then Inr (JObject [], st2) else read_members rd n [] c2 st2)
       else if ch = quote then bindR (read_string_token st1) (\<lambda>(s, st2). Inr (JString s, st2))
       else parse_error)"
| "read_elements rd 0 acc st = Inl Undefined"
| "read_elements rd (Suc n) acc st =
     bindR (read_value rd n st) (\<lambda>(v, st1). bindR (read_non_ws_char st1) (\<lambda>(ch, st2).
       if ch = CHR '']'' then Inr (JArray (acc @ [v]), st2)
       else if ch \<noteq> CHR '','' then parse_error
       else read_elements rd n (acc @ [v]) st2))"
| "read_members rd 0 acc ch st = Inl Undefined"
| "read_members rd (Suc n) acc ch st =
     (if ch \<noteq> quote then parse_error
      else bindR (read_string_token st) (\<lambda>(name, st1). bindR (read_non_ws_char st1) (\<lambda>(c1, st2).
        if c1 \<noteq> CHR '':'' then parse_error
        else bindR (read_value rd n st2) (\<lambda>(v, st3). bindR (read_non_ws_char st3) (\<lambda>(c2, st4).
          if c2 = CHR ''}'' then Inr (JObject (map_put name v acc), st4)
          else if c2 \<noteq> CHR '','' then parse_error
          else bindR (read_non_ws_char st4) (\<lambda>(c3, st5). read_members rd n (map_put name v acc) c3 st5))))))"

definition from_string :: "(string \<Rightarrow> 'd) \<Rightarrow> string \<Rightarrow> 'd json result" where
  "from_string rd source =
     bindR (read_value rd (2 * length source + 2) \<lparr>in_rest = source, in_eof = False, in_fail = False\<rparr>) (\<lambda>(j, st).
       if in_fail st then Inl (RuntimeError ''Unable to parse JsonValue'')
       else if list_all is_space (in_rest st) then Inr j
       else Inl (RuntimeError ''Extra characters at end of stream''))"


section \<open>Reading ends\<close>

lemma read_non_ws_less: "read_non_ws_char st = Inr (ch, st') \<Longrightarrow> length (in_rest st') < length (in_rest st)"
  using length_dropWhile_le[of is_space "in_rest st"]
  by (auto simp: read_non_ws_char_def read_char_def parse_error_def split: list.splits if_splits)

lemma string_token_less: "string_token u s = Inr (v, rest) \<Longrightarrow> length rest < length s"
proof (induction u s rule: string_token.induct)
  case (2 u ch s)
  consider "is_cntrl ch" | "\<not> is_cntrl ch" "ch = quote" | "\<not> is_cntrl ch" "ch \<noteq> quote" "ch \<noteq> backslash" | "\<not> is_cntrl ch" "ch \<noteq> quote" "ch = backslash"
    by blast
  then show ?case
  proof cases
    case 4
    then obtain bs s' where "escape_part s = Inr (bs, s')" "string_token (u @ bs) s' = Inr (v, rest)"
      using "2.prems" by (auto simp: bindR_eq_Inr_iff)
    then show ?thesis using "2.IH"(2)[OF 4(1,2), of "(bs, s')" bs s'] 4 escape_part_less[of s bs s'] by simp
  qed (use 2 in \<open>auto simp: parse_error_def\<close>)
qed (simp add: parse_error_def)

lemma read_string_less: "read_string_token st = Inr (s, st') \<Longrightarrow> length (in_rest st') < length (in_rest st)"
  using string_token_less by (fastforce simp: read_string_token_def bindR_eq_Inr_iff)

lemma read_word_le: "read_word w st = Inr st' \<Longrightarrow> length (in_rest st') \<le> length (in_rest st)"
  by (auto simp: read_word_def parse_error_def split: if_splits)

lemma peek_rest: "in_rest (snd (peek st)) = in_rest st"
  by (simp add: peek_def split: list.splits)

lemma peek_eq_rest: "peek st = (p, st') \<Longrightarrow> in_rest st' = in_rest st"
  using peek_rest[of st] by simp

lemma read_digits_le: "read_digits t dots st = (t', dots', st') \<Longrightarrow> length (in_rest st') \<le> length (in_rest st)"
proof (induction t dots st rule: read_digits.induct)
  case (1 t dots st)
  obtain p st1 where p: "peek st = (p, st1)" by (cases "peek st")
  then show ?case
  proof (cases p)
    case None
    then show ?thesis using "1.prems" p peek_eq_rest[OF p] by (subst (asm) read_digits.simps) simp
  next
    case (Some i)
    have tl: "length (in_rest (skip1 st1)) \<le> length (in_rest st)" using peek_eq_rest[OF p] by (simp add: skip1_def)
    show ?thesis
      using "1.prems" "1.IH"(1)[OF p[symmetric] Some] "1.IH"(2)[OF p[symmetric] Some] p Some tl peek_eq_rest[OF p]
      by (subst (asm) read_digits.simps) (auto split: if_splits)
  qed
qed

lemma read_exponent_le: "read_exponent t st = (t', st') \<Longrightarrow> length (in_rest st') \<le> length (in_rest st)"
proof (induction t st rule: read_exponent.induct)
  case (1 t st)
  obtain p st1 where p: "peek st = (p, st1)" by (cases "peek st")
  then show ?case
  proof (cases p)
    case None
    then show ?thesis using "1.prems" p peek_eq_rest[OF p] by (subst (asm) read_exponent.simps) simp
  next
    case (Some i)
    have tl: "length (in_rest (skip1 st1)) \<le> length (in_rest st)" using peek_eq_rest[OF p] by (simp add: skip1_def)
    show ?thesis
      using "1.prems" "1.IH"[OF p[symmetric] Some] p Some tl peek_eq_rest[OF p]
      by (subst (asm) read_exponent.simps) (auto split: if_splits)
  qed
qed

lemma skip1_le: "length (in_rest (skip1 st)) \<le> length (in_rest st)"
  by (simp add: skip1_def)

lemma read_exp_part_le: "read_exp_part t pee st = Inr (t', st') \<Longrightarrow> length (in_rest st') \<le> length (in_rest st)"
proof (cases "is_exp pee")
  case True
  assume r: "read_exp_part t pee st = Inr (t', st')"
  obtain i st1 where p1: "peek (skip1 st) = (i, st1)" by (cases "peek (skip1 st)")
  define sign where "sign = (i = Some (CHR ''+'') \<or> i = Some (CHR ''-''))"
  obtain i2 st2 where p2: "(if sign then peek (skip1 st1) else (i, st1)) = (i2, st2)" by fastforce
  have l1: "length (in_rest st1) \<le> length (in_rest st)" using peek_eq_rest[OF p1] skip1_le[of st] by simp
  have l2: "length (in_rest st2) \<le> length (in_rest st1)"
    using p2 peek_eq_rest[of "skip1 st1" i2 st2] skip1_le[of st1] by (auto split: if_splits)
  obtain d t2 where "read_exponent t2 (skip1 st2) = (t', st')"
    using r True p1 p2 unfolding read_exp_part_def sign_def[symmetric] Let_def
    by (auto simp: parse_error_def sign_def[symmetric] split: option.splits if_splits)
  then show ?thesis using read_exponent_le[of t2 "skip1 st2" t' st'] skip1_le[of st2] l1 l2 by linarith
next
  case False
  assume "read_exp_part t pee st = Inr (t', st')"
  then show ?thesis using False by (simp add: read_exp_part_def)
qed

lemma read_number_le: "read_number rd ch st = Inr (j, st') \<Longrightarrow> length (in_rest st') \<le> length (in_rest st)"
proof -
  assume r: "read_number rd ch st = Inr (j, st')"
  obtain t dots st1 where d: "read_digits [ch] 0 st = (t, dots, st1)" by (cases "read_digits [ch] 0 st")
  obtain pee st2 where p: "peek st1 = (pee, st2)" by (cases "peek st1")
  have l: "length (in_rest st2) \<le> length (in_rest st)" using read_digits_le[OF d] peek_eq_rest[OF p] by simp
  show ?thesis
  proof (cases "0 < dots \<or> is_exp pee")
    case True
    then obtain t' where "read_exp_part t pee st2 = Inr (t', st')"
      using r unfolding read_number_def d p Let_def by (auto simp: parse_error_def bindR_eq_Inr_iff p split: if_splits)
    then show ?thesis using read_exp_part_le l by fastforce
  next
    case False
    then have "st' = st2" using r unfolding read_number_def d Let_def by (auto simp: parse_error_def p split: if_splits)
    then show ?thesis using l by simp
  qed
qed

lemma not_undefined: "parse_error \<noteq> Inl Undefined" "read_non_ws_char st \<noteq> Inl Undefined" "read_word w st \<noteq> Inl Undefined"
  by (auto simp: parse_error_def read_non_ws_char_def read_char_def read_word_def split: list.splits)

lemma escaped_code_defined: "escaped_code c0 c1 c2 c3 \<noteq> Inl Undefined"
  by (simp add: escaped_code_def code_point_bytes_def parse_error_def split: option.splits)

lemma string_token_defined: "string_token u s \<noteq> Inl Undefined"
proof (induction u s rule: string_token.induct)
  case (2 u ch s)
  have "escape_part s \<noteq> Inl Undefined"
    by (cases s) (auto simp: parse_error_def bindR_def escaped_code_defined split: list.splits option.splits sum.splits)
  then show ?case using 2 by (cases "escape_part s") (auto simp: parse_error_def split: prod.splits)
qed (simp add: parse_error_def)

lemma read_string_defined: "read_string_token st \<noteq> Inl Undefined"
  using string_token_defined[of "[]" "in_rest st"] by (cases "string_token [] (in_rest st)") (auto simp: read_string_token_def)

lemma read_number_defined: "read_number rd ch st \<noteq> Inl Undefined"
  by (simp add: read_number_def read_exp_part_def parse_error_def bindR_def Let_def split: prod.splits option.splits sum.splits)

text \<open>A result that is not out of fuel and leaves fewer characters.\<close>

definition proper :: "nat \<Rightarrow> ('d json \<times> istream) result \<Rightarrow> bool" where
  "proper n r \<longleftrightarrow> r \<noteq> Inl Undefined \<and> (\<forall>j st. r = Inr (j, st) \<longrightarrow> length (in_rest st) < n)"

lemma proper_bind: "r \<noteq> Inl Undefined \<Longrightarrow> (\<And>x. r = Inr x \<Longrightarrow> proper n (f x)) \<Longrightarrow> proper n (bindR r f)"
  by (cases r) (auto simp: proper_def)

lemma proper_error: "proper n parse_error"
  by (simp add: proper_def parse_error_def)

lemma proper_mono: "proper m r \<Longrightarrow> m \<le> n \<Longrightarrow> proper n r"
  by (fastforce simp: proper_def)


lemma proper_Inr: "length (in_rest st) < n \<Longrightarrow> proper n (Inr (j, st))"
  by (simp add: proper_def)

lemma proper_if: "(b \<Longrightarrow> proper n x) \<Longrightarrow> (\<not> b \<Longrightarrow> proper n y) \<Longrightarrow> proper n (if b then x else y)"
  by simp

lemma proper_char:
  "(\<And>ch st'. length (in_rest st') < length (in_rest st) \<Longrightarrow> proper n (f (ch, st'))) \<Longrightarrow> proper n (bindR (read_non_ws_char st) f)"
  by (rule proper_bind[OF not_undefined(2)]) (use read_non_ws_less[of st] in auto)

lemma proper_word:
  "(\<And>st'. length (in_rest st') \<le> length (in_rest st) \<Longrightarrow> proper n (f st')) \<Longrightarrow> proper n (bindR (read_word w st) f)"
  by (rule proper_bind[OF not_undefined(3)]) (use read_word_le[of w st] in auto)

lemma proper_string:
  "(\<And>v st'. length (in_rest st') < length (in_rest st) \<Longrightarrow> proper n (f (v, st'))) \<Longrightarrow> proper n (bindR (read_string_token st) f)"
  by (rule proper_bind[OF read_string_defined]) (use read_string_less[of st] in auto)

lemma proper_value:
  "proper k r \<Longrightarrow> (\<And>j st'. length (in_rest st') < k \<Longrightarrow> proper n (f (j, st'))) \<Longrightarrow> proper n (bindR r f)"
  by (rule proper_bind) (auto simp: proper_def)

lemma proper_number: "length (in_rest st) < n \<Longrightarrow> proper n (read_number rd ch st)"
  using read_number_defined[of rd ch st] read_number_le[of rd ch st] by (fastforce simp: proper_def)

text \<open>Every function needs no more fuel than the characters allow.\<close>

lemma read_value_proper:
  assumes "\<And>st acc. 2 * length (in_rest st) + 2 \<le> n \<Longrightarrow> proper (length (in_rest st)) (read_elements rd n acc st)"
    and "\<And>st es ch. 2 * length (in_rest st) + 2 \<le> n \<Longrightarrow> proper (length (in_rest st)) (read_members rd n es ch st)"
    and "2 * length (in_rest st) + 1 \<le> Suc n"
  shows "proper (length (in_rest st)) (read_value rd (Suc n) st)"
proof -
  have arr: "proper (length (in_rest st)) (read_elements rd n [] (putback c2 st2))" if "length (in_rest st2) + 1 < length (in_rest st)" for c2 st2
    by (rule proper_mono[OF assms(1)]) (use that assms(3) in \<open>simp_all add: putback_def\<close>)
  have obj: "proper (length (in_rest st)) (read_members rd n [] c2 st2)" if "length (in_rest st2) + 1 < length (in_rest st)" for c2 st2
    by (rule proper_mono[OF assms(2)]) (use that assms(3) in simp_all)
  show ?thesis unfolding read_value.simps
    by (rule proper_char; unfold prod.case; intro proper_if; rule proper_char proper_word proper_string proper_number proper_error;
        (unfold prod.case)?; (intro proper_if)?; (rule proper_Inr arr obj)?; linarith?)
qed

lemma read_elements_proper:
  assumes "\<And>st. 2 * length (in_rest st) + 1 \<le> n \<Longrightarrow> proper (length (in_rest st)) (read_value rd n st)"
    and "\<And>st acc. 2 * length (in_rest st) + 2 \<le> n \<Longrightarrow> proper (length (in_rest st)) (read_elements rd n acc st)"
    and "2 * length (in_rest st) + 2 \<le> Suc n"
  shows "proper (length (in_rest st)) (read_elements rd (Suc n) acc st)"
proof -
  have rest: "proper (length (in_rest st)) (read_elements rd n acc' st2)" if "length (in_rest st2) + 1 < length (in_rest st)" for acc' st2
    by (rule proper_mono[OF assms(2)]) (use that assms(3) in simp_all)
  show ?thesis unfolding read_elements.simps
    by (rule proper_value[OF assms(1)]) (use assms(3) in \<open>auto intro!: proper_char proper_error proper_Inr rest\<close>)
qed

lemma read_members_proper:
  assumes "\<And>st. 2 * length (in_rest st) + 1 \<le> n \<Longrightarrow> proper (length (in_rest st)) (read_value rd n st)"
    and "\<And>st es ch. 2 * length (in_rest st) + 2 \<le> n \<Longrightarrow> proper (length (in_rest st)) (read_members rd n es ch st)"
    and "2 * length (in_rest st) + 2 \<le> Suc n"
  shows "proper (length (in_rest st)) (read_members rd (Suc n) es ch st)"
proof -
  have rest: "proper (length (in_rest st)) (read_members rd n es' c3 st5)" if "length (in_rest st5) + 1 < length (in_rest st)" for es' c3 st5
    by (rule proper_mono[OF assms(2)]) (use that assms(3) in simp_all)
  have v: "proper (length (in_rest st)) (bindR (read_value rd n st2) f)"
    if "length (in_rest st2) < length (in_rest st)" "\<And>j st'. length (in_rest st') < length (in_rest st2) \<Longrightarrow> proper (length (in_rest st)) (f (j, st'))" for st2 f
    by (rule proper_value[OF assms(1)]) (use that assms(3) in simp_all)
  show ?thesis unfolding read_members.simps
    by (auto intro!: proper_string proper_char proper_error proper_Inr rest v)
qed

lemma read_proper:
  "2 * length (in_rest st) + 1 \<le> n \<Longrightarrow> proper (length (in_rest st)) (read_value rd n st)"
  "2 * length (in_rest st) + 2 \<le> n \<Longrightarrow> proper (length (in_rest st)) (read_elements rd n acc st)"
  "2 * length (in_rest st) + 2 \<le> n \<Longrightarrow> proper (length (in_rest st)) (read_members rd n es ch st)"
proof (induction n arbitrary: st acc es ch)
  case (Suc n)
  { case 1 show ?case by (rule read_value_proper) (use Suc.IH 1 in blast)+
  next case 2 show ?case by (rule read_elements_proper) (use Suc.IH 2 in blast)+
  next case 3 show ?case by (rule read_members_proper) (use Suc.IH 3 in blast)+ }
qed simp_all


section \<open>Printed values are parsed back\<close>

subsection \<open>Strings\<close>

definition plain_string :: "string \<Rightarrow> bool" where
  "plain_string s \<longleftrightarrow> CHR 0x7F \<notin> set s"

text \<open>An escape sequence is read back to one character.\<close>

definition escape_reads :: "string \<Rightarrow> char \<Rightarrow> bool" where
  "escape_reads e ch \<longleftrightarrow>
     (case e of
        [b, x] \<Rightarrow> b = backslash \<and> simple_escape x = Some ch
      | [b, x, c0, c1, c2, c3] \<Rightarrow> b = backslash \<and> x = CHR ''u'' \<and> escaped_code c0 c1 c2 c3 = Inr [ch]
      | _ \<Rightarrow> False)"

lemma escape_reads_token:
  assumes "escape_reads e ch"
  shows "string_token v (e @ rest) = string_token (v @ [ch]) rest"
proof -
  have b: "\<not> is_cntrl backslash" "backslash \<noteq> quote" by (simp_all add: is_cntrl_def backslash_def quote_def)
  have u: "simple_escape (CHR ''u'') = None" by (simp add: simple_escape_def backslash_def quote_def)
  consider x where "e = [backslash, x]" "simple_escape x = Some ch"
    | c0 c1 c2 c3 where "e = [backslash, CHR ''u'', c0, c1, c2, c3]" "escaped_code c0 c1 c2 c3 = Inr [ch]"
    using assms unfolding escape_reads_def by (simp split: list.splits)
  then show ?thesis
  proof cases
    case 1
    then show ?thesis using b by simp
  next
    case 2
    then show ?thesis using b u by simp
  qed
qed

lemma hex_values:
  "from_hex_char_bool (CHR ''0'') = Some 0" "from_hex_char_bool (CHR ''1'') = Some 1" "from_hex_char_bool (CHR ''2'') = Some 2"
  "from_hex_char_bool (CHR ''3'') = Some 3" "from_hex_char_bool (CHR ''4'') = Some 4" "from_hex_char_bool (CHR ''5'') = Some 5"
  "from_hex_char_bool (CHR ''6'') = Some 6" "from_hex_char_bool (CHR ''7'') = Some 7" "from_hex_char_bool (CHR ''8'') = Some 8"
  "from_hex_char_bool (CHR ''9'') = Some 9" "from_hex_char_bool (CHR ''A'') = Some 10" "from_hex_char_bool (CHR ''B'') = Some 11"
  "from_hex_char_bool (CHR ''C'') = Some 12" "from_hex_char_bool (CHR ''D'') = Some 13" "from_hex_char_bool (CHR ''E'') = Some 14"
  "from_hex_char_bool (CHR ''F'') = Some 15"
  by (simp_all add: from_hex_char_bool_def character_values_nth)

lemma some_chars: "char_of (8 :: nat) = CHR 0x08" "char_of (9 :: nat) = CHR 0x09" "char_of (10 :: nat) = CHR 0x0A" "char_of (12 :: nat) = CHR 0x0C"
  "char_of (13 :: nat) = CHR 0x0D" "char_of (127 :: nat) = CHR 0x7F" "digit_char 0 = CHR ''0''"
  by code_simp+

lemma low_code: "cp < 0x80 \<Longrightarrow> code_point_bytes cp = Inr [char_of (unat cp)]"
proof -
  assume cp: "cp < 0x80"
  then have "\<not> 0xD800 \<le> cp" "\<not> 0xFFFE \<le> cp" by (auto simp: not_le intro: less_trans)
  then show ?thesis using cp by (simp add: code_point_bytes_def)
qed

lemma control_escapes: "n < 32 \<Longrightarrow> escape_reads (escape_table ! n) (char_of n)"
proof -
  have u: "[0..<32] = [0, 1, 2, 3, 4, 5, 6, 7, 8, 9, 10, 11, 12, 13, 14, 15, 16, 17, 18, 19, 20, 21, 22, 23, 24, 25, 26, 27, 28, 29, 30, 31]" by code_simp
  have "list_all2 escape_reads escape_table (map char_of [0..<32])" unfolding u
    by (simp add: escape_table_def escape_reads_def escaped_code_def hex_values low_code some_chars simple_escape_def backslash_def quote_def)
  from list_all2_nthD2[OF this, of n] show "n < 32 \<Longrightarrow> escape_reads (escape_table ! n) (char_of n)" by simp
qed

lemma escape_char_token:
  assumes "ch \<noteq> CHR 0x7F"
  shows "string_token v (escape_char ch @ rest) = string_token (v @ [ch]) rest"
proof -
  consider "ch = backslash \<or> ch = quote" | "ch \<noteq> backslash" "ch \<noteq> quote" "of_char ch < (32 :: nat)" | "ch \<noteq> backslash" "ch \<noteq> quote" "\<not> of_char ch < (32 :: nat)"
    by blast
  then show ?thesis
  proof cases
    case 1
    then have "escape_reads (escape_char ch) ch" by (auto simp: escape_reads_def escape_char_def simple_escape_def)
    then show ?thesis by (rule escape_reads_token)
  next
    case 2
    then have "escape_reads (escape_char ch) ch" using control_escapes[of "of_char ch"] by (simp add: escape_char_def)
    then show ?thesis by (rule escape_reads_token)
  next
    case 3
    have "of_char ch \<noteq> (127 :: nat)"
    proof
      assume "of_char ch = (127 :: nat)"
      then have "char_of (of_char ch :: nat) = (char_of (127 :: nat) :: char)" by (rule arg_cong)
      then have "ch = CHR 0x7F" by (simp add: some_chars)
      then show False using assms by simp
    qed
    then have "\<not> is_cntrl ch" using 3 by (simp add: is_cntrl_def)
    then show ?thesis using 3 by (simp add: escape_char_def)
  qed
qed

lemma escape_string_token: "plain_string s \<Longrightarrow> string_token v (escape_string s @ quote # rest) = Inr (v @ s, rest)"
proof (induction s arbitrary: v)
  case Nil
  have "\<not> is_cntrl quote" by (simp add: is_cntrl_def quote_def)
  then show ?case by (simp add: escape_string_def)
next
  case (Cons ch s)
  have "ch \<noteq> CHR 0x7F" "plain_string s" using Cons.prems by (auto simp: plain_string_def)
  then show ?case using escape_char_token[of ch v "escape_string s @ quote # rest"] Cons.IH[of "v @ [ch]"]
    by (simp add: escape_string_def)
qed

subsection \<open>Streams that are good\<close>

definition at :: "string \<Rightarrow> istream" where
  "at s = \<lparr>in_rest = s, in_eof = False, in_fail = False\<rparr>"

lemma at_simps [simp]: "in_rest (at s) = s" "good (at s)" "(at s)\<lparr>in_rest := r\<rparr> = at r" "skip1 (at (ch # s)) = at s" "putback ch (at s) = at (ch # s)"
  by (simp_all add: at_def good_def skip1_def putback_def)

lemma peek_at [simp]: "peek (at (ch # s)) = (Some ch, at (ch # s))"
  by (simp add: peek_def)

lemma read_non_ws_at: "\<not> is_space ch \<Longrightarrow> read_non_ws_char (at (ch # s)) = Inr (ch, at s)"
  by (simp add: read_non_ws_char_def read_char_def)

lemma read_word_at [simp]: "read_word w (at (w @ s)) = Inr (at s)"
  by (simp add: read_word_def)

lemma read_string_at: "plain_string s \<Longrightarrow> read_string_token (at (escape_string s @ quote # rest)) = Inr (s, at rest)"
  by (simp add: read_string_token_def escape_string_token)

subsection \<open>Numbers\<close>

text \<open>What may follow a number.\<close>

definition number_end :: "string \<Rightarrow> bool" where
  "number_end s \<longleftrightarrow> s \<noteq> [] \<and> \<not> is_digit (hd s) \<and> hd s \<notin> {CHR ''.'', CHR ''e'', CHR ''E''}"

lemma read_digits_run:
  "list_all is_digit ds \<Longrightarrow> read_digits t dots (at (ds @ rest)) = read_digits (t @ ds) dots (at rest)"
  by (induction ds arbitrary: t) (simp_all add: read_digits.simps[of _ _ "at (_ # _)"])

lemma read_digits_end: "number_end rest \<Longrightarrow> read_digits t dots (at rest) = (t, dots, at rest)"
  by (cases rest) (auto simp: number_end_def read_digits.simps)

lemma read_digits_dot: "read_digits t dots (at (CHR ''.'' # rest)) = read_digits (t @ ''.'') (dots + 1) (at rest)"
  by (subst read_digits.simps) (simp add: is_digit_def)

lemma nat_to_string_first: "hd (nat_to_string n) = CHR ''0'' \<Longrightarrow> n = 0"
proof (induction n rule: less_induct)
  case (less n)
  note c = some_chars(7)[symmetric]
  show ?case
  proof (cases "n < 10")
    case True
    then have "digit_char n = digit_char 0" using less.prems c by (subst (asm) nat_to_string_rec) simp
    then have "(of_char (digit_char n) :: nat) = of_char (digit_char 0)" by simp
    then show ?thesis using True by simp
  next
    case False
    then have "hd (nat_to_string (n div 10)) = CHR ''0''" using less.prems by (subst (asm) nat_to_string_rec) simp
    then have "n div 10 = 0" using less.IH[of "n div 10"] False by simp
    then show ?thesis using False by simp
  qed
qed

lemma nat_to_string_Cons: "\<exists>d ds. nat_to_string n = d # ds \<and> is_digit d \<and> list_all is_digit ds"
  using nat_to_string_digits[of n] by (cases "nat_to_string n") simp_all

lemma read_unsigned_at:
  assumes "number_end rest" and d: "nat_to_string (unat u) = d # ds"
  shows "read_number rd d (at (ds @ rest)) = Inr (JUnsigned u, at rest)"
proof -
  have digits: "is_digit d" "list_all is_digit ds" using nat_to_string_digits[of "unat u"] d by simp_all
  have run: "read_digits [d] 0 (at (ds @ rest)) = (d # ds, 0, at rest)" using digits(2) assms(1) by (simp add: read_digits_run read_digits_end)
  obtain r rs where r: "rest = r # rs" "r \<notin> {CHR ''e'', CHR ''E''}" using assms(1) by (cases rest) (auto simp: number_end_def)
  have neg: "d \<noteq> CHR ''-''" using digits(1) by (auto simp: is_digit_def)
  have zero: "d = CHR ''0'' \<Longrightarrow> ds = []"
  proof -
    assume "d = CHR ''0''"
    then have "unat u = 0" using nat_to_string_first[of "unat u"] d by simp
    then have "d # ds = nat_to_string 0" using d by simp
    then show "ds = []" by (subst (asm) nat_to_string_rec) simp
  qed
  have "text_unsigned (d # ds) = u"
    using digits digits_value_nat_to_string[of "unat u"] d by (simp add: text_unsigned_def)
  moreover have "\<not> (1 < length (d # ds) \<and> (hd (d # ds) = CHR ''0'' \<or> hd (d # ds) = CHR ''-'' \<and> (d # ds) ! 1 = CHR ''0''))"
    using neg zero by auto
  ultimately show ?thesis using run r neg by (auto simp: read_number_def is_exp_def)
qed

lemma read_negative_at:
  assumes "number_end rest" and "sint (i :: s64) < 0"
  shows "read_number rd (CHR ''-'') (at (nat_to_string (nat (- sint i)) @ rest)) = Inr (JInteger i, at rest)"
proof -
  let ?n = "nat (- sint i)"
  obtain d ds where d: "nat_to_string ?n = d # ds" "is_digit d" "list_all is_digit ds" using nat_to_string_Cons by blast
  have run: "read_digits ''-'' 0 (at (d # ds @ rest)) = (CHR ''-'' # d # ds, 0, at rest)"
    using read_digits_run[of "d # ds" "''-''" 0 rest] d assms(1) by (simp add: read_digits_end)
  obtain r rs where r: "rest = r # rs" "r \<notin> {CHR ''e'', CHR ''E''}" using assms(1) by (cases rest) (auto simp: number_end_def)
  have "?n \<noteq> 0" using assms(2) by simp
  then have zero: "d \<noteq> CHR ''0''" using nat_to_string_first[of ?n] d by auto
  have low: "- (2 ^ 63) \<le> sint i" using sint_greater_eq[of i] by simp
  have "digits_value (d # ds) = ?n" using digits_value_nat_to_string[of ?n] d by simp
  moreover have "?n \<le> 2 ^ 63" using low by simp
  moreover have "- word_of_nat ?n = i"
  proof -
    have "(word_of_nat ?n :: s64) = word_of_int (int ?n)" by (rule of_int_of_nat_eq[symmetric])
    also have "int ?n = - sint i" using assms(2) by simp
    finally show ?thesis by simp
  qed
  ultimately have "text_negative (d # ds) = i" by (simp add: text_negative_def)
  then show ?thesis using run r zero d by (simp add: read_number_def is_exp_def)
qed


text \<open>The text of a floating point number: digits, a point and digits, after a sign or a digit.\<close>

definition double_text :: "string \<Rightarrow> bool" where
  "double_text t \<longleftrightarrow>
     (\<exists>ch ds es. t = ch # ds @ CHR ''.'' # es \<and> (ch = CHR ''-'' \<or> is_digit ch) \<and> list_all is_digit ds \<and> list_all is_digit es)"

lemma read_double_at:
  assumes "number_end rest" and "list_all is_digit ds" "list_all is_digit es"
  shows "read_number rd ch (at (ds @ CHR ''.'' # es @ rest)) = Inr (JDouble (rd (ch # ds @ CHR ''.'' # es)), at rest)"
proof -
  have run: "read_digits [ch] 0 (at (ds @ CHR ''.'' # es @ rest)) = (ch # ds @ CHR ''.'' # es, 1, at rest)"
    using assms by (simp add: read_digits_run read_digits_dot read_digits_end)
  obtain r rs where r: "rest = r # rs" "r \<notin> {CHR ''e'', CHR ''E''}" using assms(1) by (cases rest) (auto simp: number_end_def)
  then show ?thesis using run by (simp add: read_number_def read_exp_part_def is_exp_def)
qed

subsection \<open>Values\<close>

text \<open>
  The values whose text is parsed: no string holds the character 0x7F, objects are in the order of their keys, and floating point
  numbers are printed as digits with a point (they are finite). What comes back: a signed integer that is not negative as an unsigned one, and a floating
  point number as the one that \<open>rd\<close> reads from its text with the trailing zeros cut off.
\<close>

fun printable :: "('d \<Rightarrow> string) \<Rightarrow> 'd json \<Rightarrow> bool" where
  "printable pd (JArray vs) \<longleftrightarrow> (\<forall>v\<in>set vs. printable pd v)"
| "printable pd (JBool _) \<longleftrightarrow> True"
| "printable pd (JInteger _) \<longleftrightarrow> True"
| "printable pd (JUnsigned _) \<longleftrightarrow> True"
| "printable pd JNil \<longleftrightarrow> True"
| "printable pd (JObject es) \<longleftrightarrow>
     sorted_wrt key_before (map fst es) \<and> (\<forall>e\<in>set es. plain_string (fst e) \<and> printable pd (snd e))"
| "printable pd (JDouble d) \<longleftrightarrow> double_text (cut_zeros (pd d))"
| "printable pd (JString s) \<longleftrightarrow> plain_string s"

fun reread :: "(string \<Rightarrow> 'd) \<Rightarrow> ('d \<Rightarrow> string) \<Rightarrow> 'd json \<Rightarrow> 'd json" where
  "reread rd pd (JArray vs) = JArray (map (reread rd pd) vs)"
| "reread rd pd (JInteger i) = (if sint i < 0 then JInteger i else JUnsigned i)"
| "reread rd pd (JObject es) = JObject (map (\<lambda>e. (fst e, reread rd pd (snd e))) es)"
| "reread rd pd (JDouble d) = JDouble (rd (cut_zeros (pd d)))"
| "reread rd pd j = j"

definition is_number :: "'d json \<Rightarrow> bool" where
  "is_number j \<longleftrightarrow> (case j of JInteger _ \<Rightarrow> True | JUnsigned _ \<Rightarrow> True | JDouble _ \<Rightarrow> True | _ \<Rightarrow> False)"

text \<open>The reader takes the text of a value, whatever follows it (no digit may follow a number).\<close>

definition reads_back :: "(string \<Rightarrow> 'd) \<Rightarrow> ('d \<Rightarrow> string) \<Rightarrow> 'd json \<Rightarrow> bool" where
  "reads_back rd pd j \<longleftrightarrow>
     (\<forall>n rest. (is_number j \<longrightarrow> number_end rest) \<longrightarrow> 2 * length (to_string pd j) + 1 \<le> n \<longrightarrow>
        read_value rd n (at (to_string pd j @ rest)) = Inr (reread rd pd j, at rest))"

lemma reads_backD:
  "reads_back rd pd j \<Longrightarrow> number_end rest \<Longrightarrow> 2 * length (to_string pd j) + 1 \<le> n \<Longrightarrow>
     read_value rd n (at (to_string pd j @ rest)) = Inr (reread rd pd j, at rest)"
  by (simp add: reads_back_def)

lemma number_end_marks: "number_end (CHR '','' # s)" "number_end (CHR '']'' # s)" "number_end (CHR ''}'' # s)"
  by (simp_all add: number_end_def is_digit_def)

lemma digit_not_space: "is_digit ch \<Longrightarrow> \<not> is_space ch"
  by (auto simp: is_digit_def is_space_def Let_def)

lemma char_not_space: "\<not> is_space (CHR ''['')" "\<not> is_space (CHR '']'')" "\<not> is_space (CHR ''{'')" "\<not> is_space (CHR ''}'')" "\<not> is_space quote"
  "\<not> is_space (CHR '','')" "\<not> is_space (CHR '':'')" "\<not> is_space (CHR ''t'')" "\<not> is_space (CHR ''f'')" "\<not> is_space (CHR ''n'')" "\<not> is_space (CHR ''-'')"
  by (simp_all add: is_space_def quote_def)

lemma mark_not_digit [simp]: "\<not> is_digit (CHR ''{'')" "\<not> is_digit (CHR ''['')" "\<not> is_digit quote" "\<not> is_digit (CHR ''n'')"
  "quote \<noteq> CHR ''{''" "quote \<noteq> CHR ''[''" "quote \<noteq> CHR ''n''" "quote \<noteq> CHR ''t''" "quote \<noteq> CHR ''f''" "quote \<noteq> CHR ''-''" "quote \<noteq> CHR ''}''"
  by (simp_all add: is_digit_def quote_def)

lemma printed_first:
  assumes "printable pd j"
  obtains c cs where "to_string pd j = c # cs" "\<not> is_space c" "c \<noteq> CHR '']''"
proof (cases j)
  case (JInteger i)
  show ?thesis
  proof (cases "sint i < 0")
    case True
    then show ?thesis using JInteger that[of "CHR ''-''"] by (simp add: int_to_string_def char_not_space)
  next
    case False
    obtain d ds where d: "nat_to_string (nat (sint i)) = d # ds" "is_digit d" using nat_to_string_Cons by blast
    then have "d \<noteq> CHR '']''" by (auto simp: is_digit_def)
    moreover have "to_string pd j = d # ds" using JInteger False d(1) by (simp add: int_to_string_def)
    ultimately show ?thesis using that[of d ds] d(2) by (simp add: digit_not_space)
  qed
next
  case (JUnsigned u)
  obtain d ds where "nat_to_string (unat u) = d # ds" "is_digit d" using nat_to_string_Cons by blast
  then show ?thesis using JUnsigned that[of d ds] by (cases "d = CHR '']''") (auto simp: digit_not_space is_digit_def)
next
  case (JDouble d)
  then obtain ch t where "cut_zeros (pd d) = ch # t" "ch = CHR ''-'' \<or> is_digit ch" using assms by (auto simp: double_text_def)
  moreover from this(2) have "\<not> is_space ch" "ch \<noteq> CHR '']''" by (auto simp: digit_not_space char_not_space) (simp add: is_digit_def)
  ultimately show ?thesis using JDouble that[of ch t] by simp
next
  case (JBool b)
  then show ?thesis using that by (cases b) (simp_all add: char_not_space)
qed (use that in \<open>simp_all add: char_not_space quote_def[symmetric]\<close>, simp_all add: quote_def)


lemma read_elements_at:
  assumes "vs \<noteq> []" and "\<forall>v\<in>set vs. reads_back rd pd v" and "2 * length (separated (map (to_string pd) vs)) + 4 \<le> n"
  shows "read_elements rd n acc (at (separated (map (to_string pd) vs) @ CHR '']'' # rest)) = Inr (JArray (acc @ map (reread rd pd) vs), at rest)"
  using assms
proof (induction vs arbitrary: n acc)
  case (Cons v vs)
  obtain m where n: "n = Suc m" using Cons.prems(3) by (cases n) simp_all
  have v: "reads_back rd pd v" using Cons.prems(2) by simp
  show ?case
  proof (cases vs)
    case Nil
    have "read_value rd m (at (to_string pd v @ CHR '']'' # rest)) = Inr (reread rd pd v, at (CHR '']'' # rest))"
      by (rule reads_backD[OF v number_end_marks(2)]) (use Cons.prems(3) n Nil in simp)
    then show ?thesis using Nil n by (simp add: read_non_ws_at char_not_space)
  next
    case (Cons w ws)
    let ?s = "separated (map (to_string pd) vs)"
    have sep: "separated (map (to_string pd) (v # vs)) = to_string pd v @ CHR '','' # ?s" using Cons by simp
    have "read_value rd m (at (to_string pd v @ CHR '','' # ?s @ CHR '']'' # rest)) = Inr (reread rd pd v, at (CHR '','' # ?s @ CHR '']'' # rest))"
      by (rule reads_backD[OF v number_end_marks(1)]) (use Cons.prems(3) n sep in simp)
    moreover have "read_elements rd m (acc @ [reread rd pd v]) (at (?s @ CHR '']'' # rest)) = Inr (JArray ((acc @ [reread rd pd v]) @ map (reread rd pd) vs), at rest)"
      by (rule Cons.IH) (use Cons Cons.prems sep n in simp_all)
    ultimately show ?thesis unfolding sep using n by (simp add: read_non_ws_at char_not_space)
  qed
qed simp

text \<open>The entries of an object, without the quote that begins the first one.\<close>

definition entry_tail :: "('d \<Rightarrow> string) \<Rightarrow> string \<times> 'd json \<Rightarrow> string" where
  "entry_tail pd e = escape_string (fst e) @ quote # CHR '':'' # to_string pd (snd e)"

lemma to_string_object: "to_string pd (JObject es) = ''{'' @ separated (map (\<lambda>e. quote # entry_tail pd e) es) @ ''}''"
proof -
  have "(\<lambda>(k, v). quote # escape_string k @ [quote] @ '':'' @ to_string pd v) = (\<lambda>e. quote # entry_tail pd e)"
    by (simp add: entry_tail_def fun_eq_iff)
  then show ?thesis by (simp only: to_string.simps)
qed

lemma key_before_antisym: "key_before a b \<Longrightarrow> \<not> key_before b a \<and> a \<noteq> b"
  by (induction a b rule: key_before.induct) auto

lemma map_put_last: "\<forall>e\<in>set es. key_before (fst e) k \<Longrightarrow> map_put k v es = es @ [(k, v)]"
proof (induction es)
  case (Cons e es)
  then have "\<not> key_before k (fst e)" "k \<noteq> fst e" using key_before_antisym[of "fst e" k] by auto
  then show ?case using Cons by (cases e) simp
qed simp

lemma read_members_at:
  assumes "sorted_wrt key_before (map fst (acc @ (k, v) # es))"
    and "\<forall>e\<in>set ((k, v) # es). plain_string (fst e) \<and> reads_back rd pd (snd e)"
    and "2 * length (separated (map (\<lambda>e. quote # entry_tail pd e) ((k, v) # es))) + 4 \<le> n"
  shows "read_members rd n acc quote (at (tl (separated (map (\<lambda>e. quote # entry_tail pd e) ((k, v) # es))) @ CHR ''}'' # rest))
    = Inr (JObject (acc @ map (\<lambda>e. (fst e, reread rd pd (snd e))) ((k, v) # es)), at rest)"
  using assms
proof (induction es arbitrary: n acc k v)
  case Nil
  obtain m where n: "n = Suc m" using Nil.prems(3) by (cases n) simp_all
  have v: "reads_back rd pd v" "plain_string k" using Nil.prems(2) by simp_all
  have "read_value rd m (at (to_string pd v @ CHR ''}'' # rest)) = Inr (reread rd pd v, at (CHR ''}'' # rest))"
    by (rule reads_backD[OF v(1) number_end_marks(3)]) (use Nil.prems(3) n in \<open>simp add: entry_tail_def\<close>)
  moreover have "map_put k (reread rd pd v) acc = acc @ [(k, reread rd pd v)]" by (rule map_put_last) (use Nil.prems(1) in \<open>auto simp: sorted_wrt_append\<close>)
  ultimately show ?case using n v(2) by (simp add: entry_tail_def read_string_at read_non_ws_at char_not_space)
next
  case (Cons e es)
  obtain k' v' where e: "e = (k', v')" by (cases e)
  obtain m where n: "n = Suc m" using Cons.prems(3) by (cases n) simp_all
  have v: "reads_back rd pd v" "plain_string k" using Cons.prems(2) by simp_all
  let ?s = "separated (map (\<lambda>e. quote # entry_tail pd e) ((k', v') # es))"
  have sep: "separated (map (\<lambda>e. quote # entry_tail pd e) ((k, v) # e # es)) = quote # entry_tail pd (k, v) @ CHR '','' # ?s"
    using e by simp
  obtain x where x: "?s = quote # x" by (cases es) simp_all
  have "read_value rd m (at (to_string pd v @ CHR '','' # ?s @ CHR ''}'' # rest)) = Inr (reread rd pd v, at (CHR '','' # ?s @ CHR ''}'' # rest))"
    by (rule reads_backD[OF v(1) number_end_marks(1)]) (use Cons.prems(3) n sep in \<open>simp add: entry_tail_def\<close>)
  moreover have "map_put k (reread rd pd v) acc = acc @ [(k, reread rd pd v)]" by (rule map_put_last) (use Cons.prems(1) in \<open>auto simp: sorted_wrt_append\<close>)
  moreover have "read_members rd m (acc @ [(k, reread rd pd v)]) quote (at (tl ?s @ CHR ''}'' # rest)) =
      Inr (JObject ((acc @ [(k, reread rd pd v)]) @ map (\<lambda>e. (fst e, reread rd pd (snd e))) ((k', v') # es)), at rest)"
    by (rule Cons.IH) (use Cons.prems e sep n in \<open>simp_all add: entry_tail_def\<close>)
  ultimately show ?case unfolding sep using n v(2) x e
    by (simp add: entry_tail_def read_string_at read_non_ws_at char_not_space)
qed


lemma reads_back_number:
  assumes "is_number j" and t: "to_string pd j = ch # t" "\<not> is_space ch" "ch = CHR ''-'' \<or> is_digit ch"
    and r: "\<And>rest. number_end rest \<Longrightarrow> read_number rd ch (at (t @ rest)) = Inr (reread rd pd j, at rest)"
  shows "reads_back rd pd j"
  unfolding reads_back_def
proof (intro allI impI)
  fix n rest
  assume e: "is_number j \<longrightarrow> number_end rest" and n: "2 * length (to_string pd j) + 1 \<le> n"
  then obtain m where m: "n = Suc m" by (cases n) simp_all
  have "ch \<noteq> CHR ''[''" "ch \<noteq> CHR ''t''" "ch \<noteq> CHR ''f''" using t(3) by (auto simp: is_digit_def)
  then show "read_value rd n (at (to_string pd j @ rest)) = Inr (reread rd pd j, at rest)"
    using e assms(1) r[of rest] t m by (auto simp: read_non_ws_at)
qed

lemma reads_back_other:
  assumes "\<not> is_number j"
    and "\<And>m rest. 2 * length (to_string pd j) \<le> m \<Longrightarrow> read_value rd (Suc m) (at (to_string pd j @ rest)) = Inr (reread rd pd j, at rest)"
  shows "reads_back rd pd j"
  unfolding reads_back_def
proof (intro allI impI)
  fix n rest
  assume "2 * length (to_string pd j) + 1 \<le> n"
  then show "read_value rd n (at (to_string pd j @ rest)) = Inr (reread rd pd j, at rest)"
    using assms(2)[of "n - 1" rest] by (cases n) simp_all
qed

lemma sint_nonneg_unat: "\<not> sint (i :: s64) < 0 \<Longrightarrow> sint i = int (unat i)"
proof -
  assume "\<not> sint i < 0"
  then have b: "\<not> bit i 63" by (simp add: sint_uint bit_simps)
  then have "sint i = take_bit 63 (uint i)" by (simp add: sint_uint signed_take_bit_eq_if_positive bit_uint_iff)
  also have "take_bit 63 (uint i) = take_bit (Suc 63) (uint i)" unfolding take_bit_Suc_from_most using b by (simp add: bit_uint_iff)
  also have "\<dots> = uint i" using uint_lt2p[of i] by (simp add: take_bit_int_eq_self)
  finally show ?thesis by (simp only: uint_nat)
qed

lemma read_word_char: "read_word w (at (w @ s)) = Inr (at s)"
  by simp

lemma reads_back_printed: "printable pd j \<Longrightarrow> reads_back rd pd j"
proof (induction j rule: json.induct)
  case (JArray vs)
  show ?case
  proof (rule reads_back_other)
    fix m rest
    assume m: "2 * length (to_string pd (JArray vs)) \<le> m"
    show "read_value rd (Suc m) (at (to_string pd (JArray vs) @ rest)) = Inr (reread rd pd (JArray vs), at rest)"
    proof (cases vs)
      case Nil
      then show ?thesis by (simp add: read_non_ws_at char_not_space)
    next
      case (Cons v ws)
      have "printable pd v" using JArray.prems Cons by simp
      then obtain c cs where c: "to_string pd v = c # cs" "\<not> is_space c" "c \<noteq> CHR '']''" by (rule printed_first)
      obtain x where x: "separated (map (to_string pd) vs) = c # x" using Cons c(1) by (cases ws) simp_all
      have "read_elements rd m [] (at (separated (map (to_string pd) vs) @ CHR '']'' # rest)) = Inr (JArray ([] @ map (reread rd pd) vs), at rest)"
        by (rule read_elements_at) (use Cons m JArray in simp_all)
      then show ?thesis using x c(2,3) by (simp add: read_non_ws_at char_not_space)
    qed
  qed (simp add: is_number_def)
next
  case (JObject es)
  show ?case
  proof (rule reads_back_other)
    fix m rest
    assume m: "2 * length (to_string pd (JObject es)) \<le> m"
    show "read_value rd (Suc m) (at (to_string pd (JObject es) @ rest)) = Inr (reread rd pd (JObject es), at rest)"
    proof (cases es)
      case Nil
      then show ?thesis by (simp add: read_non_ws_at char_not_space)
    next
      case (Cons e es')
      obtain k v where e: "e = (k, v)" by (cases e)
      let ?s = "separated (map (\<lambda>e. quote # entry_tail pd e) es)"
      have all: "\<forall>e\<in>set es. plain_string (fst e) \<and> reads_back rd pd (snd e)"
        using JObject.prems JObject.IH by (auto simp: snds.simps)
      have len: "2 * length ?s + 4 \<le> m" using m unfolding to_string_object by simp
      have "sorted_wrt key_before (map fst ([] @ es))" using JObject.prems by simp
      then have "read_members rd m [] quote (at (tl ?s @ CHR ''}'' # rest)) = Inr (JObject ([] @ map (\<lambda>e. (fst e, reread rd pd (snd e))) es), at rest)"
        unfolding Cons e by (rule read_members_at) (use all len in \<open>unfold Cons e\<close>)
      then have "read_members rd m [] quote (at (tl ?s @ CHR ''}'' # rest)) = Inr (reread rd pd (JObject es), at rest)" by simp
      moreover obtain x where "?s = quote # x" using Cons by (cases es') simp_all
      ultimately show ?thesis unfolding to_string_object by (simp add: read_non_ws_at char_not_space)
    qed
  qed (simp add: is_number_def)
next
  case (JInteger i)
  show ?case
  proof (cases "sint i < 0")
    case True
    then have "to_string pd (JInteger i) = CHR ''-'' # nat_to_string (nat (- sint i))" by (simp add: int_to_string_def)
    then show ?thesis by (rule reads_back_number[rotated]) (use True in \<open>simp_all add: is_number_def char_not_space read_negative_at\<close>)
  next
    case False
    then have n: "nat (sint i) = unat i" using sint_nonneg_unat[of i] by simp
    obtain d ds where d: "nat_to_string (unat i) = d # ds" "is_digit d" using nat_to_string_Cons by blast
    then have "to_string pd (JInteger i) = d # ds" using False n by (simp add: int_to_string_def)
    then show ?thesis
      by (rule reads_back_number[rotated]) (use False d in \<open>simp_all add: is_number_def digit_not_space read_unsigned_at\<close>)
  qed
next
  case (JUnsigned u)
  obtain d ds where d: "nat_to_string (unat u) = d # ds" "is_digit d" using nat_to_string_Cons by blast
  then have "to_string pd (JUnsigned u) = d # ds" by simp
  then show ?case
    by (rule reads_back_number[rotated]) (use d in \<open>simp_all add: is_number_def digit_not_space read_unsigned_at\<close>)
next
  case (JDouble x)
  obtain ch ds es where t: "cut_zeros (pd x) = ch # ds @ CHR ''.'' # es" "ch = CHR ''-'' \<or> is_digit ch" "list_all is_digit ds" "list_all is_digit es"
    using JDouble by (auto simp: double_text_def)
  then have "to_string pd (JDouble x) = ch # ds @ CHR ''.'' # es" by simp
  then show ?case
    by (rule reads_back_number[rotated])
      (use t JDouble in \<open>auto simp: is_number_def digit_not_space char_not_space read_double_at\<close>)
next
  case (JString s)
  show ?case
    by (rule reads_back_other)
      (use JString in \<open>simp_all add: is_number_def read_non_ws_at char_not_space read_string_at\<close>)
next
  case (JBool b)
  show ?case
  proof (rule reads_back_other)
    fix m rest
    show "read_value rd (Suc m) (at (to_string pd (JBool b) @ rest)) = Inr (reread rd pd (JBool b), at rest)"
      using read_word_char[of "''rue''" rest] read_word_char[of "''alse''" rest] by (cases b) (simp_all add: read_non_ws_at char_not_space)
  qed (simp add: is_number_def)
next
  case JNil
  show ?case
  proof (rule reads_back_other)
    fix m rest
    show "read_value rd (Suc m) (at (to_string pd JNil @ rest)) = Inr (reread rd pd JNil, at rest)"
      using read_word_char[of "''ull''" rest] by (simp add: read_non_ws_at char_not_space is_digit_def)
  qed (simp add: is_number_def)
qed


subsection \<open>Whole texts\<close>

lemma from_string_at: "from_string rd s = bindR (read_value rd (2 * length s + 2) (at s)) (\<lambda>(j, st).
       if in_fail st then Inl (RuntimeError ''Unable to parse JsonValue'')
       else if list_all is_space (in_rest st) then Inr j
       else Inl (RuntimeError ''Extra characters at end of stream''))"
  by (simp add: from_string_def at_def)

lemma at_in_fail [simp]: "\<not> in_fail (at s)"
  by (simp add: at_def)

lemma from_string_printed:
  assumes "printable pd j" and "\<not> is_number j"
  shows "from_string rd (to_string pd j) = Inr (reread rd pd j)"
proof -
  have "read_value rd (2 * length (to_string pd j) + 2) (at (to_string pd j @ [])) = Inr (reread rd pd j, at [])"
    using reads_back_printed[OF assms(1)] assms(2) unfolding reads_back_def by (metis add_leD1 le_add1 add.assoc one_add_one)
  then show ?thesis by (simp add: from_string_at)
qed

text \<open>A number that ends the text: the second \<open>peek\<close> at the end makes the stream fail.\<close>

lemma read_digits_at_end: "read_digits t dots (at []) = (t, dots, (at [])\<lparr>in_eof := True\<rparr>)"
  by (subst read_digits.simps) (simp add: peek_def)

lemma unsigned_alone_fails: "from_string rd (to_string pd (JUnsigned u)) = Inl (RuntimeError ''Unable to parse JsonValue'') \<or>
    from_string rd (to_string pd (JUnsigned u)) = parse_error"
proof -
  obtain d ds where d: "nat_to_string (unat u) = d # ds" "is_digit d" "list_all is_digit ds" using nat_to_string_Cons by blast
  have run: "read_digits [d] 0 (at ds) = (d # ds, 0, (at [])\<lparr>in_eof := True\<rparr>)"
    using read_digits_run[of ds "[d]" 0 "[]"] d(3) by (simp add: read_digits_at_end)
  have pk: "peek ((at [])\<lparr>in_eof := True\<rparr>) = (None, (at [])\<lparr>in_eof := True, in_fail := True\<rparr>)" by (simp add: peek_def good_def at_def)
  have neg: "d \<noteq> CHR ''-''" "d \<noteq> CHR ''[''" "d \<noteq> CHR ''t''" "d \<noteq> CHR ''f''" using d(2) by (auto simp: is_digit_def)
  have "read_number rd d (at ds) = parse_error \<or> (\<exists>v. read_number rd d (at ds) = Inr (v, (at [])\<lparr>in_eof := True, in_fail := True\<rparr>))"
    using neg(1) by (auto simp: read_number_def run pk is_exp_def)
  moreover have "read_value rd (2 * length (d # ds) + 2) (at (d # ds)) = read_number rd d (at ds)"
    using neg d(2) by (simp add: read_non_ws_at digit_not_space)
  ultimately show ?thesis using d(1) by (auto simp: from_string_at parse_error_def)
qed

section \<open>Objects stay in the order of their keys\<close>

lemma char_eq_of_char: "(of_char a :: nat) = of_char b \<Longrightarrow> a = b"
  by simp

lemma key_before_total: "a \<noteq> b \<Longrightarrow> \<not> key_before a b \<Longrightarrow> key_before b a"
proof (induction a b rule: key_before.induct)
  case (3 a s b t)
  then show ?case by (cases "a = b") (auto dest: char_eq_of_char simp: not_less le_less)
next
  case (1 s)
  then show ?case by (cases s) simp_all
qed simp

lemma key_before_trans: "key_before a b \<Longrightarrow> key_before b c \<Longrightarrow> key_before a c"
proof (induction a b arbitrary: c rule: key_before.induct)
  case (2 b t)
  then show ?case by (cases c) simp_all
next
  case (3 a s b t)
  then obtain d u where "c = d # u" by (cases c) simp_all
  then show ?case using 3 by auto
qed simp

text \<open>The invariant of a value: the entries of every object in it are in the order of their keys, each key once.\<close>

fun wf_json :: "'d json \<Rightarrow> bool" where
  "wf_json (JArray vs) \<longleftrightarrow> (\<forall>v\<in>set vs. wf_json v)"
| "wf_json (JObject es) \<longleftrightarrow> sorted_wrt key_before (map fst es) \<and> (\<forall>e\<in>set es. wf_json (snd e))"
| "wf_json _ \<longleftrightarrow> True"

lemma set_map_put: "set (map_put k v es) \<subseteq> insert (k, v) (set es)"
proof (induction es)
  case (Cons e es)
  then show ?case by (cases e) auto
qed simp

lemma sorted_map_put: "sorted_wrt key_before (map fst es) \<Longrightarrow> sorted_wrt key_before (map fst (map_put k v es))"
proof (induction es)
  case (Cons e es)
  obtain k' v' where e: "e = (k', v')" by (cases e)
  consider "k = k'" | "k \<noteq> k'" "key_before k k'" | "k \<noteq> k'" "\<not> key_before k k'" by blast
  then show ?case
  proof cases
    case 1
    then show ?thesis using Cons.prems e by simp
  next
    case 2
    then show ?thesis using Cons.prems e by (auto intro: key_before_trans)
  next
    case 3
    then have "key_before k' k" using key_before_total by blast
    then show ?thesis using Cons 3 e set_map_put[of k v es] by auto
  qed
qed simp

lemma wf_map_put: "wf_json (JObject es) \<Longrightarrow> wf_json v \<Longrightarrow> wf_json (JObject (map_put k v es))"
  using set_map_put[of k v es] by (auto simp: sorted_map_put)

lemma map_of_map_put: "sorted_wrt key_before (map fst es) \<Longrightarrow> map_of (map_put k v es) = (map_of es)(k \<mapsto> v)"
  by (induction es) (auto simp: fun_eq_iff)

lemma read_number_wf: "read_number rd ch st = Inr (j, st') \<Longrightarrow> wf_json j"
  by (auto simp: read_number_def parse_error_def bindR_eq_Inr_iff Let_def split: prod.splits if_splits)

text \<open>A result whose value has the invariant.\<close>

definition sound :: "('d json \<times> istream) result \<Rightarrow> bool" where
  "sound r \<longleftrightarrow> (\<forall>j st. r = Inr (j, st) \<longrightarrow> wf_json j)"

lemma sound_bind: "(\<And>x. r = Inr x \<Longrightarrow> sound (f x)) \<Longrightarrow> sound (bindR r f)"
  by (cases r) (auto simp: sound_def)

lemma sound_value: "sound r \<Longrightarrow> (\<And>j st. wf_json j \<Longrightarrow> sound (f (j, st))) \<Longrightarrow> sound (bindR r f)"
proof (rule sound_bind)
  fix x
  assume r: "sound r" "\<And>j st. wf_json j \<Longrightarrow> sound (f (j, st))" "r = Inr x"
  obtain j st where x: "x = (j, st)" by (cases x)
  then have "wf_json j" using r(1,3) unfolding sound_def by blast
  then show "sound (f x)" unfolding x by (rule r(2))
qed

lemma sound_if: "(b \<Longrightarrow> sound x) \<Longrightarrow> (\<not> b \<Longrightarrow> sound y) \<Longrightarrow> sound (if b then x else y)"
  by simp

lemma sound_any: "(\<And>x st. sound (f (x, st))) \<Longrightarrow> sound (bindR r f)"
  by (rule sound_bind) (metis surj_pair)

lemma sound_simps [simp]: "sound (Inr (j, st)) \<longleftrightarrow> wf_json j" "sound parse_error" "sound (Inl e)" "sound (read_number rd ch st)"
  by (auto simp: sound_def parse_error_def dest: read_number_wf)

lemma read_value_wf:
  assumes "\<And>st acc. list_all wf_json acc \<Longrightarrow> sound (read_elements rd n acc st)"
    and "\<And>st es ch. wf_json (JObject es) \<Longrightarrow> sound (read_members rd n es ch st)"
  shows "sound (read_value rd (Suc n) st)"
  unfolding read_value.simps
  by (rule sound_any; unfold prod.case; intro sound_if; (rule sound_any | rule sound_bind)?; (unfold prod.case)?; (intro sound_if)?;
      (rule assms)?; simp)

lemma read_elements_wf:
  assumes "\<And>st. sound (read_value rd n st)" and "\<And>st acc. list_all wf_json acc \<Longrightarrow> sound (read_elements rd n acc st)"
    and "list_all wf_json acc"
  shows "sound (read_elements rd (Suc n) acc st)"
  unfolding read_elements.simps
proof (rule sound_value[OF assms(1)], unfold prod.case, rule sound_any, unfold prod.case, intro sound_if)
  fix j :: "'a json" and x :: char and sta :: istream
  assume "wf_json j"
  then have acc: "list_all wf_json (acc @ [j])" using assms(3) by simp
  then show "sound (Inr (JArray (acc @ [j]), sta))" by (simp add: list_all_iff)
  show "sound (read_elements rd n (acc @ [j]) sta)" by (rule assms(2)[OF acc])
qed simp_all

lemma read_members_wf:
  assumes "\<And>st. sound (read_value rd n st)" and "\<And>st es ch. wf_json (JObject es) \<Longrightarrow> sound (read_members rd n es ch st)"
    and "wf_json (JObject es)"
  shows "sound (read_members rd (Suc n) es ch st)"
proof -
  have put: "wf_json (JObject (map_put k v es))" if "wf_json v" for k v by (rule wf_map_put[OF assms(3) that])
  show ?thesis
    unfolding read_members.simps
    by (intro sound_if sound_any sound_value[OF assms(1)] | unfold prod.case | rule assms(2) put | simp only: sound_simps)+
qed

lemma read_wf:
  "sound (read_value rd n st)"
  "list_all wf_json acc \<Longrightarrow> sound (read_elements rd n acc st)"
  "wf_json (JObject es) \<Longrightarrow> sound (read_members rd n es ch st)"
proof (induction n arbitrary: st acc es ch)
  case (Suc n)
  { case 1 show ?case by (rule read_value_wf) (use Suc.IH in blast)+
  next case 2 show ?case by (rule read_elements_wf) (use Suc.IH 2 in blast)+
  next case 3 show ?case by (rule read_members_wf) (use Suc.IH 3 in blast)+ }
qed simp_all


section \<open>Properties\<close>

lemma from_string_wf: "from_string rd s = Inr j \<Longrightarrow> wf_json j"
proof -
  assume "from_string rd s = Inr j"
  then obtain x where x: "read_value rd (2 * length s + 2) (at s) = Inr x"
      "(case x of (j, st) \<Rightarrow> if in_fail st then Inl (RuntimeError ''Unable to parse JsonValue'')
         else if list_all is_space (in_rest st) then Inr j else Inl (RuntimeError ''Extra characters at end of stream'')) = Inr j"
    unfolding from_string_at bindR_eq_Inr_iff by blast
  then obtain st where "read_value rd (2 * length s + 2) (at s) = Inr (j, st)" by (cases x) (simp split: if_splits)
  then show "wf_json j" using read_wf(1)[of rd "2 * length s + 2" "at s"] unfolding sound_def by blast
qed

lemma from_string_defined: "from_string rd s \<noteq> Inl Undefined"
proof -
  have "proper (length s) (read_value rd (2 * length s + 2) (at s))" using read_proper(1)[of "at s" "2 * length s + 2" rd] by (simp only: at_simps)
  then have "read_value rd (2 * length s + 2) (at s) \<noteq> Inl Undefined" unfolding proper_def by blast
  then show ?thesis unfolding from_string_at by (cases "read_value rd (2 * length s + 2) (at s)") (auto simp del: read_value.simps split: if_splits)
qed

lemma wf_json_erase: "wf_json (JObject es) \<Longrightarrow> wf_json (JObject (filter P es))"
proof (induction es)
  case (Cons e es)
  then show ?case by auto
qed simp

lemma get_object_cases: "get_object j = Inr es \<longleftrightarrow> j = JObject es"
  by (cases j) (simp_all add: get_object_def)

lemma get_array_cases: "get_array j = Inr vs \<longleftrightarrow> j = JArray vs"
  by (cases j) (simp_all add: get_array_def)

lemma map_of_without: "map_of (filter (\<lambda>e. fst e \<noteq> k) es) = (map_of es)(k := None)"
  by (induction es) (auto simp: fun_eq_iff)

text \<open>
  C37: (json_text_read_back) What comes back when a JSON value is printed and the text is parsed: the value itself, except that
  a signed integer that is not negative comes back unsigned, and that a floating point number comes back as what \<open>rd\<close> reads from the digits that \<open>pd\<close>
  prints, less the zeros at their end. Nothing else is lost and nothing is left over. Excluded are a number as the whole text, which
  the parser rejects, strings and keys with the character 0x7F, which it does not accept, and floating point numbers without a decimal text; the entries of an object are in the order of their
  keys, as a \<open>std::map\<close> keeps them.
\<close>

theorem json_text_read_back:
  assumes "printable pd j" and "\<not> is_number j"
  shows "from_string rd (to_string pd j) = Inr (reread rd pd j)"
  by (rule from_string_printed[OF assms])

definition sample_json :: "string json" where
  "sample_json = JObject [(''a'', JArray [JBool True, JInteger (- 5), JInteger 7, JNil]), (''b'', JString [CHR ''x'', CHR 0x0A, quote]), (''c'', JDouble ''1.500'')]"

lemma sample_double: "cut_zeros ''1.500'' = ''1.5''" "double_text ''1.5''"
proof -
  show "cut_zeros ''1.500'' = ''1.5''" by (subst cut_zeros.simps, simp)+
  have "''1.5'' = CHR ''1'' # [] @ CHR ''.'' # ''5'' \<and> is_digit (CHR ''1'') \<and> list_all is_digit ''5''" by (simp add: is_digit_def)
  then show "double_text ''1.5''" unfolding double_text_def by (metis list.pred_inject(1))
qed

lemma sample_printable: "printable (\<lambda>t. t) sample_json" "\<not> is_number sample_json"
  by (simp_all add: sample_json_def sample_double plain_string_def quote_def is_number_def)

theorem json_text_read_back_witness:
  "from_string (\<lambda>t. t) (to_string (\<lambda>t. t) sample_json) =
     Inr (JObject [(''a'', JArray [JBool True, JInteger (- 5), JUnsigned 7, JNil]), (''b'', JString [CHR ''x'', CHR 0x0A, quote]), (''c'', JDouble ''1.5'')])"
  using json_text_read_back[OF sample_printable, of "\<lambda>t. t"] by (simp add: sample_json_def sample_double)

text \<open>
  C39: (json_values_well_formed) The parser ends on every text, with a value or an exception. In every value that it returns the
  entries of objects are in the order of their keys, each key once, and assigning, inserting, erasing and appending keep this. After an
  assignment \<open>at\<close> finds the new value, inserting does not replace an entry, after erasing the key is out of range, and
  all other entries are as before.
\<close>

theorem json_values_well_formed:
  "from_string rd s \<noteq> Inl Undefined \<and> (from_string rd s = Inr j \<longrightarrow> wf_json j) \<and>
   (wf_json j \<longrightarrow> wf_json v \<longrightarrow>
      (json_set j k v = Inr j1 \<longrightarrow> wf_json j1 \<and> json_at j1 k = Inr v \<and> (\<forall>k'. k' \<noteq> k \<longrightarrow> json_at j1 k' = json_at j k')) \<and>
      (json_insert j k v = Inr j2 \<longrightarrow> wf_json j2 \<and> (\<forall>k'. json_at j2 k' = (if k' = k \<and> json_at j k = Inl OutOfRange then Inr v else json_at j k'))) \<and>
      (json_erase j k = Inr (j3, n) \<longrightarrow> wf_json j3 \<and> json_at j3 k = Inl OutOfRange \<and> (\<forall>k'. k' \<noteq> k \<longrightarrow> json_at j3 k' = json_at j k')) \<and>
      (json_push_back j v = Inr j4 \<longrightarrow> wf_json j4))"
proof (intro conjI impI)
  assume wf: "wf_json j" "wf_json v"
  { assume s: "json_set j k v = Inr j1"
    then obtain es where es: "j = JObject es" "j1 = JObject (map_put k v es)" by (auto simp: json_set_def bindR_eq_Inr_iff get_object_cases)
    then show "wf_json j1" using wf_map_put wf by simp
    show "json_at j1 k = Inr v" "\<forall>k'. k' \<noteq> k \<longrightarrow> json_at j1 k' = json_at j k'"
      using wf(1) es by (simp_all add: json_at_def get_object_def map_of_map_put) }
  { assume i: "json_insert j k v = Inr j2"
    then obtain es where es: "j = JObject es" "j2 = JObject (if map_of es k \<noteq> None then es else map_put k v es)"
      by (auto simp: json_insert_def bindR_eq_Inr_iff get_object_cases)
    then show "wf_json j2" using wf_map_put[of es v k] wf by (cases "map_of es k = None") simp_all
    show "\<forall>k'. json_at j2 k' = (if k' = k \<and> json_at j k = Inl OutOfRange then Inr v else json_at j k')"
      using wf(1) es by (auto simp: json_at_def get_object_def map_of_map_put split: option.splits) }
  { assume e: "json_erase j k = Inr (j3, n)"
    then obtain es where es: "j = JObject es" "j3 = JObject (filter (\<lambda>e. fst e \<noteq> k) es)"
      by (auto simp: json_erase_def bindR_eq_Inr_iff get_object_cases)
    then show "wf_json j3" using wf_json_erase wf(1) by blast
    show "json_at j3 k = Inl OutOfRange" "\<forall>k'. k' \<noteq> k \<longrightarrow> json_at j3 k' = json_at j k'"
      using es by (simp_all add: json_at_def get_object_def map_of_without) }
  show "wf_json j4" if "json_push_back j v = Inr j4"
    using that wf by (auto simp: json_push_back_def bindR_eq_Inr_iff get_array_cases)
qed (rule from_string_defined, rule from_string_wf)

theorem json_values_well_formed_witness:
  "\<exists>j1. json_set (JObject [(''a'', JNil :: string json)]) ''b'' (JBool True) = Inr j1 \<and> wf_json j1 \<and> json_at j1 ''b'' = Inr (JBool True)"
proof -
  let ?j = "JObject [(''a'', JNil :: string json)]"
  let ?j1 = "JObject (map_put ''b'' (JBool True) [(''a'', JNil :: string json)])"
  have s: "json_set ?j ''b'' (JBool True) = Inr ?j1" by (simp add: json_set_def get_object_def)
  have "wf_json ?j1 \<and> json_at ?j1 ''b'' = Inr (JBool True)"
    using json_values_well_formed[of "\<lambda>t. t" "''[]''" ?j "JBool True" "''b''" ?j1 ?j ?j 0 ?j] s by simp
  then show ?thesis using s by blast
qed

subsection \<open>Texts that are read in a surprising way\<close>

lemma spaces: "is_space (CHR '' '')" "is_digit (CHR ''5'')" "is_digit (CHR ''9'')" "\<not> is_space (CHR ''5'')"
  by (simp_all add: is_space_def is_digit_def)

lemma lone_number_rejected:
  "from_string rd ''5'' = Inl (RuntimeError ''Unable to parse JsonValue'')" "from_string rd ''5 '' = Inr (JUnsigned 5)"
proof -
  have five: "text_unsigned ''5'' = 5" by (simp add: text_unsigned_def spaces digits_value_def)
  have end_fail: "peek ((at [])\<lparr>in_eof := True\<rparr>) = (None, (at [])\<lparr>in_eof := True, in_fail := True\<rparr>)" by (simp add: peek_def good_def at_def)
  show "from_string rd ''5'' = Inl (RuntimeError ''Unable to parse JsonValue'')"
    by (simp add: from_string_at eval_nat_numeral read_non_ws_at spaces read_number_def read_digits_at_end end_fail is_exp_def)
  have "number_end '' ''" by (simp add: number_end_def is_digit_def)
  then show "from_string rd ''5 '' = Inr (JUnsigned 5)"
    by (simp add: from_string_at eval_nat_numeral read_non_ws_at spaces read_number_def read_digits_end is_exp_def five)
qed

lemma lone_minus_is_zero: "from_string rd ''[-]'' = Inr (JArray [JUnsigned 0])"
proof -
  have "text_unsigned ''-'' = 0" by (simp add: text_unsigned_def is_digit_def)
  then show ?thesis
    by (simp add: from_string_at eval_nat_numeral read_non_ws_at char_not_space read_number_def read_digits_end number_end_marks is_exp_def)
qed

lemma large_integer_saturates: "from_string rd ''[99999999999999999999]'' = Inr (JArray [JUnsigned (- 1)])"
proof -
  have t: "text_unsigned ''99999999999999999999'' = - 1" by (simp add: text_unsigned_def spaces digits_value_def)
  have "read_digits ''9'' 0 (at (''9999999999999999999'' @ '']'')) = (''9'' @ ''9999999999999999999'', 0, at '']'')"
    by (subst read_digits_run) (simp_all add: spaces read_digits_end number_end_marks)
  then show ?thesis
    by (simp add: from_string_at eval_nat_numeral read_non_ws_at char_not_space spaces digit_not_space read_number_def is_exp_def t)
qed

lemma code_point_bytes_reversed: "code_point_bytes 0xE9 = Inr [CHR 0xA9, CHR 0xC3]"
  by code_simp

lemma delete_not_read_back: "from_string rd (to_string pd (JString [CHR 0x7F])) = parse_error"
proof -
  have "escape_string [CHR 0x7F] = [CHR 0x7F]" by (simp add: escape_string_def escape_char_def backslash_def quote_def)
  then show ?thesis
    by (simp add: from_string_at eval_nat_numeral read_non_ws_at char_not_space read_string_token_def is_cntrl_def) (simp add: parse_error_def)
qed

end
