(* ===== verification/Limbs.thy ===== *)
theory Limbs
  imports Prelude
begin

text \<open>
  Arithmetic on numbers in limbs, as \<open>src/src/crypto/crypto-ops.c\<close> writes it: straight-line code on variables of type
  \<open>int64_t\<close>, in which every line is one of two steps. A carry moves the upper bits of one limb to another; a fold adds a
  multiple of an upper limb to lower ones. The code of a function is a list of such steps.

  The steps are given on 64-bit words, as the code has them, and on unbounded integers, where a result out of the range of
  \<open>int64_t\<close> is an error. An analysis of ranges computes bounds of all limbs; where it succeeds, no overflow occurs, and the
  words are the integers. The number that the limbs stand for is preserved modulo a number that is checked step by step.
\<close>

section \<open>Steps\<close>

text \<open>
  \<open>Carry r b i j m\<close>: the bits of limb \<open>i\<close> above \<open>b\<close>, rounded to the nearest if \<open>r\<close>, times \<open>m\<close> go to limb \<open>j\<close>.
  \<open>Fold i ms\<close>: limb \<open>i\<close> times \<open>m\<close> goes to limb \<open>j\<close> for each \<open>(j, m)\<close>. The code clears the folded limb or does not read it again.
\<close>

datatype step =
    Carry bool nat nat nat int
  | Fold nat "(nat \<times> int) list"

definition rounding :: "bool \<Rightarrow> nat \<Rightarrow> int" where
  "rounding r b = (if r then 2 ^ (b - 1) else 0)"

fun add_multiples :: "64 word \<Rightarrow> 64 word list \<Rightarrow> (nat \<times> int) list \<Rightarrow> 64 word list" where
  "add_multiples x s [] = s"
| "add_multiples x s ((j, m) # ms) = add_multiples x (s[j := s ! j + x * word_of_int m]) ms"

fun run_step :: "64 word list \<Rightarrow> step \<Rightarrow> 64 word list" where
  "run_step s (Carry r b i j m) =
     (let c = signed_drop_bit b (s ! i + word_of_int (rounding r b))
      in s[j := s ! j + c * word_of_int m, i := s ! i - push_bit b c])"
| "run_step s (Fold i ms) = (add_multiples (s ! i) s ms)[i := 0]"

definition run_steps :: "step list \<Rightarrow> 64 word list \<Rightarrow> 64 word list" where
  "run_steps sts s = foldl run_step s sts"

section \<open>The steps on integers\<close>

definition fits :: "int \<Rightarrow> bool" where
  "fits x \<longleftrightarrow> - (2 ^ 63) \<le> x \<and> x < 2 ^ 63"

fun int_multiples :: "int \<Rightarrow> int list \<Rightarrow> (nat \<times> int) list \<Rightarrow> int list option" where
  "int_multiples x s [] = Some s"
| "int_multiples x s ((j, m) # ms) =
     (if j < length s \<and> fits (x * m) \<and> fits (s ! j + x * m) then int_multiples x (s[j := s ! j + x * m]) ms else None)"

fun int_step :: "int list \<Rightarrow> step \<Rightarrow> int list option" where
  "int_step s (Carry r b i j m) =
     (let t = s ! i + rounding r b; c = t div 2 ^ b
      in if i < length s \<and> j < length s \<and> i \<noteq> j \<and> fits t \<and> fits (c * m) \<and> fits (s ! j + c * m) \<and> fits (c * 2 ^ b) \<and> fits (s ! i - c * 2 ^ b)
         then Some (s[j := s ! j + c * m, i := s ! i - c * 2 ^ b]) else None)"
| "int_step s (Fold i ms) =
     (if i < length s \<and> list_all (\<lambda>(j, m). j \<noteq> i) ms then map_option (\<lambda>s'. s'[i := 0]) (int_multiples (s ! i) s ms) else None)"

fun int_steps :: "int list \<Rightarrow> step list \<Rightarrow> int list option" where
  "int_steps s [] = Some s"
| "int_steps s (st # sts) = Option.bind (int_step s st) (\<lambda>s'. int_steps s' sts)"

text \<open>Where the integers stay in range, the words are the integers.\<close>

lemma sint_word_of_int_fits: "fits x \<Longrightarrow> sint (word_of_int x :: 64 word) = x"
  by (simp add: fits_def sint_sbintrunc' signed_take_bit_int_eq_self)

lemma signed_drop_bit_fits: "fits x \<Longrightarrow> signed_drop_bit b (word_of_int x :: 64 word) = word_of_int (x div 2 ^ b)"
proof -
  assume "fits x"
  then have "sint (signed_drop_bit b (word_of_int x :: 64 word)) = x div 2 ^ b"
    by (simp add: sint_signed_drop_bit_eq sint_word_of_int_fits drop_bit_eq_div)
  moreover have "w = word_of_int (sint w)" for w :: "64 word" by transfer simp
  ultimately show ?thesis by metis
qed

lemma add_multiples_int:
  "int_multiples x s ms = Some s' \<Longrightarrow> add_multiples (word_of_int x) (map word_of_int s) ms = map word_of_int s'"
  by (induction x s ms rule: int_multiples.induct) (auto simp: map_update split: if_splits)

lemma run_step_int: "int_step s st = Some s' \<Longrightarrow> run_step (map word_of_int s) st = map word_of_int s'"
proof (induction s st rule: int_step.induct)
  case (1 s r b i j m)
  let ?t = "s ! i + rounding r b"
  have ok: "i < length s" "j < length s" "i \<noteq> j" "fits ?t" "s' = s[j := s ! j + ?t div 2 ^ b * m, i := s ! i - ?t div 2 ^ b * 2 ^ b]"
    using 1 by (auto simp: Let_def split: if_splits)
  have c: "signed_drop_bit b (word_of_int (s ! i) + word_of_int (rounding r b) :: 64 word) = word_of_int (?t div 2 ^ b)"
    using signed_drop_bit_fits[OF ok(4)] by simp
  have p: "push_bit b (word_of_int (?t div 2 ^ b) :: 64 word) = word_of_int (?t div 2 ^ b * 2 ^ b)"
    by (simp add: push_bit_eq_mult)
  show ?case using ok(1,2,3) by (simp add: Let_def c p ok(5) map_update)
next
  case (2 s i ms)
  then obtain s'' where "i < length s" "int_multiples (s ! i) s ms = Some s''" "s' = s''[i := 0]" by (auto split: if_splits)
  then show ?case using add_multiples_int[of "s ! i" s ms s''] by (simp add: map_update)
qed

lemma run_steps_int: "int_steps s sts = Some s' \<Longrightarrow> run_steps sts (map word_of_int s) = map word_of_int s'"
proof (induction sts arbitrary: s)
  case (Cons st sts)
  then obtain s1 where "int_step s st = Some s1" "int_steps s1 sts = Some s'" by (auto simp: bind_eq_Some_conv)
  then show ?case using Cons.IH[of s1] run_step_int[of s st s1] by (simp add: run_steps_def)
qed (simp add: run_steps_def)

lemma int_steps_append: "int_steps s (xs @ ys) = Option.bind (int_steps s xs) (\<lambda>s'. int_steps s' ys)"
  by (induction xs arbitrary: s) (simp_all add: Option.bind_assoc)

lemma length_int_multiples: "int_multiples x s ms = Some s' \<Longrightarrow> length s' = length s"
  by (induction x s ms rule: int_multiples.induct) (auto split: if_splits)

lemma length_int_step: "int_step s st = Some s' \<Longrightarrow> length s' = length s"
  by (cases st) (auto simp: Let_def dest: length_int_multiples split: if_splits)

lemma length_int_steps: "int_steps s sts = Some s' \<Longrightarrow> length s' = length s"
  by (induction sts arbitrary: s) (auto simp: bind_eq_Some_conv dest: length_int_step)

section \<open>The number that the limbs stand for\<close>

definition limb_value :: "nat list \<Rightarrow> int list \<Rightarrow> int" where
  "limb_value ws s = sum_list (map2 (\<lambda>w x. x * 2 ^ w) ws s)"

lemma limb_value_simps [simp]:
  "limb_value [] s = 0" "limb_value ws [] = 0" "limb_value (w # ws) (x # s) = x * 2 ^ w + limb_value ws s"
  by (simp_all add: limb_value_def)

lemma limb_value_update:
  "length ws = length s \<Longrightarrow> i < length s \<Longrightarrow> limb_value ws (s[i := y]) = limb_value ws s + (y - s ! i) * 2 ^ (ws ! i)"
proof (induction ws s arbitrary: i rule: list_induct2)
  case (Cons w ws x s)
  then show ?case by (cases i) (simp_all add: algebra_simps)
qed simp

text \<open>A step that preserves the number modulo \<open>M\<close>.\<close>

definition multiples_value :: "nat list \<Rightarrow> (nat \<times> int) list \<Rightarrow> int" where
  "multiples_value ws ms = sum_list (map (\<lambda>(j, m). m * 2 ^ (ws ! j)) ms)"

fun step_preserves :: "nat list \<Rightarrow> int \<Rightarrow> step \<Rightarrow> bool" where
  "step_preserves ws M (Carry r b i j m) \<longleftrightarrow> (m * 2 ^ (ws ! j) - 2 ^ (ws ! i + b)) mod M = 0"
| "step_preserves ws M (Fold i ms) \<longleftrightarrow> (multiples_value ws ms - 2 ^ (ws ! i)) mod M = 0"

lemma int_multiples_value:
  "int_multiples x s ms = Some s' \<Longrightarrow> length ws = length s \<Longrightarrow> limb_value ws s' = limb_value ws s + x * multiples_value ws ms"
  by (induction x s ms rule: int_multiples.induct) (auto simp: multiples_value_def limb_value_update algebra_simps split: if_splits)

lemma int_multiples_other:
  "int_multiples x s ms = Some s' \<Longrightarrow> list_all (\<lambda>(j, m). j \<noteq> i) ms \<Longrightarrow> s' ! i = s ! i"
  by (induction x s ms rule: int_multiples.induct) (auto split: if_splits)

lemma fold_value:
  assumes "int_step s (Fold i ms) = Some s'" "length ws = length s"
  shows "limb_value ws s' = limb_value ws s + s ! i * (multiples_value ws ms - 2 ^ (ws ! i))"
proof -
  obtain s1 where s1: "i < length s" "list_all (\<lambda>(j, m). j \<noteq> i) ms" "int_multiples (s ! i) s ms = Some s1" "s' = s1[i := 0]"
    using assms(1) by (auto split: if_splits)
  show ?thesis
    using int_multiples_value[OF s1(3) assms(2)] int_multiples_other[OF s1(3,2)] length_int_multiples[OF s1(3)] assms(2) s1(1)
    by (simp add: s1(4) limb_value_update algebra_simps)
qed

lemma int_step_value:
  assumes "int_step s st = Some s'" "length ws = length s" "step_preserves ws M st"
  shows "limb_value ws s' mod M = limb_value ws s mod M"
proof (cases st)
  case (Carry r b i j m)
  let ?c = "(s ! i + rounding r b) div 2 ^ b"
  have ok: "i < length s" "j < length s" "i \<noteq> j" "s' = s[j := s ! j + ?c * m, i := s ! i - ?c * 2 ^ b]"
    using assms(1) by (auto simp: Carry Let_def split: if_splits)
  have "limb_value ws s' = limb_value ws s + ?c * (m * 2 ^ (ws ! j) - 2 ^ (ws ! i + b))"
    using ok(1-3) assms(2) by (simp add: ok(4) limb_value_update power_add algebra_simps)
  moreover have "M dvd m * 2 ^ (ws ! j) - 2 ^ (ws ! i + b)" using assms(3) by (simp add: Carry dvd_eq_mod_eq_0)
  ultimately show ?thesis by (simp add: mod_eq_dvd_iff)
next
  case (Fold i ms)
  have "limb_value ws s' = limb_value ws s + s ! i * (multiples_value ws ms - 2 ^ (ws ! i))"
    using fold_value[of s i ms s' ws] assms(1,2) Fold by simp
  moreover have "M dvd multiples_value ws ms - 2 ^ (ws ! i)" using assms(3) by (simp add: Fold dvd_eq_mod_eq_0)
  ultimately show ?thesis by (simp add: mod_eq_dvd_iff)
qed

lemma int_steps_value:
  "int_steps s sts = Some s' \<Longrightarrow> length ws = length s \<Longrightarrow> list_all (step_preserves ws M) sts \<Longrightarrow>
     limb_value ws s' mod M = limb_value ws s mod M"
proof (induction sts arbitrary: s)
  case (Cons st sts)
  then obtain s1 where s1: "int_step s st = Some s1" "int_steps s1 sts = Some s'" by (auto simp: bind_eq_Some_conv)
  then show ?case using Cons.IH[OF s1(2)] int_step_value[OF s1(1) Cons.prems(2)] Cons.prems length_int_step[OF s1(1)] by simp
qed simp

section \<open>The analysis of ranges\<close>

definition within :: "int list \<Rightarrow> (int \<times> int) list \<Rightarrow> bool" where
  "within s rs \<longleftrightarrow> list_all2 (\<lambda>x r. fst r \<le> x \<and> x \<le> snd r) s rs"

definition range_fits :: "int \<times> int \<Rightarrow> bool" where
  "range_fits r \<longleftrightarrow> fits (fst r) \<and> fits (snd r)"

definition range_times :: "int \<times> int \<Rightarrow> int \<Rightarrow> int \<times> int" where
  "range_times r m = (if 0 \<le> m then (fst r * m, snd r * m) else (snd r * m, fst r * m))"

definition range_plus :: "int \<times> int \<Rightarrow> int \<times> int \<Rightarrow> int \<times> int" where
  "range_plus r q = (fst r + fst q, snd r + snd q)"

fun range_multiples :: "int \<times> int \<Rightarrow> (int \<times> int) list \<Rightarrow> (nat \<times> int) list \<Rightarrow> (int \<times> int) list option" where
  "range_multiples x rs [] = Some rs"
| "range_multiples x rs ((j, m) # ms) =
     (let p = range_times x m; y = range_plus (rs ! j) p
      in if j < length rs \<and> range_fits p \<and> range_fits y then range_multiples x (rs[j := y]) ms else None)"

fun range_step :: "(int \<times> int) list \<Rightarrow> step \<Rightarrow> (int \<times> int) list option" where
  "range_step rs (Carry r b i j m) =
     (let h = rounding r b; t = range_plus (rs ! i) (h, h); c = (fst t div 2 ^ b, snd t div 2 ^ b); p = range_times c m;
          y = range_plus (rs ! j) p; z = (- h, 2 ^ b - 1 - h)
      in if i < length rs \<and> j < length rs \<and> i \<noteq> j \<and> range_fits t \<and> range_fits p \<and> range_fits y \<and> range_fits (range_times c (2 ^ b)) \<and> range_fits z
         then Some (rs[j := y, i := z]) else None)"
| "range_step rs (Fold i ms) =
     (if i < length rs \<and> list_all (\<lambda>(j, m). j \<noteq> i) ms then map_option (\<lambda>rs'. rs'[i := (0, 0)]) (range_multiples (rs ! i) rs ms) else None)"

fun range_steps :: "(int \<times> int) list \<Rightarrow> step list \<Rightarrow> (int \<times> int) list option" where
  "range_steps rs [] = Some rs"
| "range_steps rs (st # sts) = (case range_step rs st of None \<Rightarrow> None | Some rs' \<Rightarrow> range_steps rs' sts)"

lemma fits_range: "range_fits r \<Longrightarrow> fst r \<le> x \<Longrightarrow> x \<le> snd r \<Longrightarrow> fits x"
  by (simp add: range_fits_def fits_def)

lemma within_range_times: "fst r \<le> x \<Longrightarrow> x \<le> snd r \<Longrightarrow> fst (range_times r m) \<le> x * m \<and> x * m \<le> snd (range_times r m)"
  by (simp add: range_times_def mult_right_mono mult_right_mono_neg)

lemma within_range_plus:
  "fst r \<le> x \<Longrightarrow> x \<le> snd r \<Longrightarrow> fst q \<le> y \<Longrightarrow> y \<le> snd q \<Longrightarrow> fst (range_plus r q) \<le> x + y \<and> x + y \<le> snd (range_plus r q)"
  by (simp add: range_plus_def)

lemma withinD: "within s rs \<Longrightarrow> i < length s \<Longrightarrow> fst (rs ! i) \<le> s ! i \<and> s ! i \<le> snd (rs ! i)"
  by (auto simp: within_def list_all2_conv_all_nth)

lemma within_length: "within s rs \<Longrightarrow> length rs = length s"
  by (simp add: within_def list_all2_lengthD)

lemma within_update: "within s rs \<Longrightarrow> fst r \<le> x \<Longrightarrow> x \<le> snd r \<Longrightarrow> within (s[i := x]) (rs[i := r])"
  by (simp add: within_def list_all2_update_cong)

lemma range_multiples_sound:
  "range_multiples r rs ms = Some rs' \<Longrightarrow> within s rs \<Longrightarrow> fst r \<le> x \<Longrightarrow> x \<le> snd r \<Longrightarrow>
     \<exists>s'. int_multiples x s ms = Some s' \<and> within s' rs'"
proof (induction r rs ms arbitrary: s rule: range_multiples.induct)
  case (2 r rs j m ms)
  let ?p = "range_times r m"
  let ?y = "range_plus (rs ! j) ?p"
  have ok: "j < length rs" "range_fits ?p" "range_fits ?y" "range_multiples r (rs[j := ?y]) ms = Some rs'"
    using "2.prems"(1) by (auto simp: Let_def split: if_splits)
  have j: "j < length s" using ok(1) within_length[OF "2.prems"(2)] by simp
  have p: "fst ?p \<le> x * m" "x * m \<le> snd ?p" using within_range_times "2.prems"(3,4) by blast+
  have y: "fst ?y \<le> s ! j + x * m" "s ! j + x * m \<le> snd ?y" using within_range_plus[OF _ _ p] withinD[OF "2.prems"(2) j] by blast+
  have "\<exists>s'. int_multiples x (s[j := s ! j + x * m]) ms = Some s' \<and> within s' rs'"
    by (rule "2.IH") (use ok within_update[OF "2.prems"(2) y] "2.prems"(3,4) in simp_all)
  then show ?case using j fits_range[OF ok(2) p] fits_range[OF ok(3) y] by simp
qed simp

lemma range_step_sound:
  assumes "range_step rs st = Some rs'" "within s rs"
  shows "\<exists>s'. int_step s st = Some s' \<and> within s' rs'"
proof (cases st)
  case (Carry r b i j m)
  let ?h = "rounding r b"
  let ?t = "range_plus (rs ! i) (?h, ?h)"
  let ?c = "(fst ?t div 2 ^ b, snd ?t div 2 ^ b)"
  let ?p = "range_times ?c m"
  let ?y = "range_plus (rs ! j) ?p"
  let ?z = "(- ?h, 2 ^ b - 1 - ?h)"
  let ?d = "(s ! i + ?h) div 2 ^ b"
  have ok: "i < length rs" "j < length rs" "i \<noteq> j" "range_fits ?t" "range_fits ?p" "range_fits ?y" "range_fits (range_times ?c (2 ^ b))"
      "range_fits ?z" "rs' = rs[j := ?y, i := ?z]"
    using assms(1) by (auto simp: Carry Let_def split: if_splits)
  have l: "i < length s" "j < length s" using ok(1,2) within_length[OF assms(2)] by simp_all
  have t: "fst ?t \<le> s ! i + ?h" "s ! i + ?h \<le> snd ?t"
    using within_range_plus[of "rs ! i" "s ! i" "(?h, ?h)" ?h] withinD[OF assms(2) l(1)] by simp_all
  have c: "fst ?c \<le> ?d" "?d \<le> snd ?c" using t by (simp_all add: zdiv_mono1)
  have p: "fst ?p \<le> ?d * m" "?d * m \<le> snd ?p" using within_range_times[OF c] by blast+
  have q: "fst (range_times ?c (2 ^ b)) \<le> ?d * 2 ^ b" "?d * 2 ^ b \<le> snd (range_times ?c (2 ^ b))" using within_range_times[OF c] by blast+
  have y: "fst ?y \<le> s ! j + ?d * m" "s ! j + ?d * m \<le> snd ?y" using within_range_plus[OF _ _ p] withinD[OF assms(2) l(2)] by blast+
  have "(s ! i + ?h) - ?d * 2 ^ b = (s ! i + ?h) mod 2 ^ b" by (rule minus_div_mult_eq_mod)
  moreover have "0 \<le> (s ! i + ?h) mod 2 ^ b" "(s ! i + ?h) mod 2 ^ b < 2 ^ b" by simp_all
  ultimately have z: "fst ?z \<le> s ! i - ?d * 2 ^ b" "s ! i - ?d * 2 ^ b \<le> snd ?z" unfolding fst_conv snd_conv by linarith+
  have "within (s[j := s ! j + ?d * m, i := s ! i - ?d * 2 ^ b]) rs'"
    unfolding ok(9) by (intro within_update assms(2) y z)
  then show ?thesis
    using ok(3) l fits_range[OF ok(4) t] fits_range[OF ok(5) p] fits_range[OF ok(6) y] fits_range[OF ok(7) q] fits_range[OF ok(8) z]
    by (simp add: Carry Let_def)
next
  case (Fold i ms)
  obtain rs1 where r: "i < length rs" "list_all (\<lambda>(j, m). j \<noteq> i) ms" "range_multiples (rs ! i) rs ms = Some rs1" "rs' = rs1[i := (0, 0)]"
    using assms(1) by (auto simp: Fold split: if_splits)
  have l: "i < length s" using r(1) within_length[OF assms(2)] by simp
  then obtain s1 where "int_multiples (s ! i) s ms = Some s1" "within s1 rs1"
    using range_multiples_sound[OF r(3) assms(2)] withinD[OF assms(2) l] by blast
  then show ?thesis using l r(2,4) within_update[of s1 rs1 "(0, 0)" 0 i] by (simp add: Fold)
qed

lemma range_steps_sound:
  "range_steps rs sts = Some rs' \<Longrightarrow> within s rs \<Longrightarrow> \<exists>s'. int_steps s sts = Some s' \<and> within s' rs'"
proof (induction sts arbitrary: s rs)
  case (Cons st sts)
  then obtain rs1 where r: "range_step rs st = Some rs1" "range_steps rs1 sts = Some rs'" by (auto split: option.splits)
  then obtain s1 where s1: "int_step s st = Some s1" "within s1 rs1" using range_step_sound Cons.prems(2) by blast
  then show ?case using Cons.IH[OF r(2) s1(2)] by simp
qed simp


section \<open>Little-endian strings\<close>

fun le_to_nat :: "bytes \<Rightarrow> nat" where
  "le_to_nat [] = 0"
| "le_to_nat (b # bs) = unat b + 256 * le_to_nat bs"

fun nat_to_le :: "nat \<Rightarrow> nat \<Rightarrow> bytes" where
  "nat_to_le 0 n = []"
| "nat_to_le (Suc k) n = word_of_nat (n mod 256) # nat_to_le k (n div 256)"

lemma length_nat_to_le [simp]: "length (nat_to_le k n) = k"
  by (induction k arbitrary: n) simp_all

lemma le_to_nat_nat_to_le: "le_to_nat (nat_to_le k n) = n mod 256 ^ k"
proof (induction k arbitrary: n)
  case (Suc k)
  have "n mod (256 * 256 ^ k) = 256 * (n div 256 mod 256 ^ k) + n mod 256" by (rule mod_mult2_eq)
  then show ?case using Suc by simp
qed simp

lemma le_to_nat_less: "le_to_nat bs < 256 ^ length bs"
proof (induction bs)
  case (Cons b bs)
  have "unat b + 1 \<le> 256" using unat_byte_less[of b] by linarith
  moreover have "256 * (le_to_nat bs + 1) \<le> 256 * 256 ^ length bs" using Cons by simp
  ultimately show ?case unfolding le_to_nat.simps list.size power_Suc by (simp add: power_add)
qed simp

lemma nat_to_le_inject: "length as = length bs \<Longrightarrow> le_to_nat as = le_to_nat bs \<Longrightarrow> as = bs"
proof (induction as bs rule: list_induct2)
  case (Cons a as b bs)
  have "unat a < 256" "unat b < 256" by simp_all
  moreover have "x < 256 \<Longrightarrow> y < 256 \<Longrightarrow> x + 256 * n = y + 256 * m \<Longrightarrow> x = y \<and> n = m" for x y n m :: nat
    by (metis add_left_cancel mod_less mod_mult_self2 mult_cancel1 zero_neq_numeral)
  ultimately have "unat a = unat b \<and> le_to_nat as = le_to_nat bs" using Cons.prems unfolding le_to_nat.simps by blast
  then show ?case using Cons.IH by (simp add: word_unat_eq_iff)
qed simp

lemma nat_to_leI: "length bs = k \<Longrightarrow> n = le_to_nat bs \<Longrightarrow> bs = nat_to_le k n"
  using le_to_nat_less[of bs] by (intro nat_to_le_inject) (simp_all add: le_to_nat_nat_to_le)

lemma le_to_nat_div: "le_to_nat s div 2 ^ (8 * k) = le_to_nat (drop k s)"
proof (induction k arbitrary: s)
  case (Suc k)
  show ?case
  proof (cases s)
    case (Cons b bs)
    have "(unat b + 256 * le_to_nat bs) div 256 = le_to_nat bs" using div_mult_self2[of 256 "unat b" "le_to_nat bs"] by simp
    moreover have "(2 :: nat) ^ (8 * Suc k) = 256 * 2 ^ (8 * k)" by (simp add: power_add)
    ultimately show ?thesis using Suc[of bs] Cons by (simp only: le_to_nat.simps div_mult2_eq drop_Suc_Cons)
  qed simp
qed simp

lemma le_to_nat_take: "le_to_nat (take k s) = le_to_nat s mod 2 ^ (8 * k)"
proof (induction k arbitrary: s)
  case (Suc k)
  show ?case
  proof (cases s)
    case (Cons b bs)
    have d: "(unat b + 256 * le_to_nat bs) div 256 = le_to_nat bs" "(unat b + 256 * le_to_nat bs) mod 256 = unat b" by simp_all
    have "(unat b + 256 * le_to_nat bs) mod (256 * 2 ^ (8 * k)) = 256 * (le_to_nat bs mod 2 ^ (8 * k)) + unat b"
      using mod_mult2_eq[of "unat b + 256 * le_to_nat bs" 256 "2 ^ (8 * k)"] d by simp
    moreover have "(2 :: nat) ^ (8 * Suc k) = 256 * 2 ^ (8 * k)" by (simp add: power_add)
    ultimately show ?thesis using Suc[of bs] Cons by (simp only: le_to_nat.simps take_Suc_Cons add.commute)
  qed simp
qed simp

section \<open>Loading\<close>

definition load_3 :: "bytes \<Rightarrow> nat \<Rightarrow> 64 word" where
  "load_3 s k = (ucast (s ! k) OR push_bit 8 (ucast (s ! (k + 1)))) OR push_bit 16 (ucast (s ! (k + 2)))"

definition load_4 :: "bytes \<Rightarrow> nat \<Rightarrow> 64 word" where
  "load_4 s k = ((ucast (s ! k) OR push_bit 8 (ucast (s ! (k + 1)))) OR push_bit 16 (ucast (s ! (k + 2)))) OR push_bit 24 (ucast (s ! (k + 3)))"

lemma unat_ucast_byte: "unat (ucast (b :: byte) :: 64 word) = unat b"
  by (rule unat_ucast_less) (rule less_trans[OF unat_byte_less], simp)

lemma or_byte:
  assumes "unat (x :: 64 word) < 2 ^ n" and "n \<le> 56"
  shows "unat (x OR push_bit n (ucast (b :: byte))) = unat x + unat b * 2 ^ n \<and> unat x + unat b * 2 ^ n < 2 ^ (n + 8)"
proof -
  have l: "unat x + unat b * 2 ^ n < 2 ^ (n + 8)" by (rule add_mult_pow2_less[OF assms(1)]) (use unat_byte_less[of b] in \<open>simp del: unat_byte_less\<close>)
  have "(2 :: nat) ^ (n + 8) \<le> 2 ^ 64" using assms(2) by (intro power_increasing) simp_all
  then have "unat b * 2 ^ n < 2 ^ LENGTH(64)" using l by simp
  then show ?thesis using l unat_or_push_bit[OF assms(1), of "ucast b"] by (simp add: unat_ucast_byte)
qed

lemma unat_load_3_less:
  "unat (load_3 s k) = unat (s ! k) + unat (s ! (k + 1)) * 2 ^ 8 + unat (s ! (k + 2)) * 2 ^ 16 \<and>
   unat (s ! k) + unat (s ! (k + 1)) * 2 ^ 8 + unat (s ! (k + 2)) * 2 ^ 16 < 2 ^ 24"
proof -
  have 1: "unat (ucast (s ! k) :: 64 word) < 2 ^ 8" using unat_byte_less[of "s ! k"] by (simp add: unat_ucast_byte del: unat_byte_less)
  note 2 = or_byte[OF 1, of "s ! (k + 1)", simplified unat_ucast_byte]
  then have "unat (ucast (s ! k) OR push_bit 8 (ucast (s ! (k + 1))) :: 64 word) < 2 ^ 16" by simp
  from or_byte[OF this, of "s ! (k + 2)"] 2 show ?thesis unfolding load_3_def by simp
qed

lemma unat_load_3: "unat (load_3 s k) = unat (s ! k) + unat (s ! (k + 1)) * 2 ^ 8 + unat (s ! (k + 2)) * 2 ^ 16"
  using unat_load_3_less by blast

lemma unat_load_4:
  "unat (load_4 s k) = unat (s ! k) + unat (s ! (k + 1)) * 2 ^ 8 + unat (s ! (k + 2)) * 2 ^ 16 + unat (s ! (k + 3)) * 2 ^ 24"
proof -
  have "unat (load_3 s k) < 2 ^ 24" using unat_load_3_less[of s k] by simp
  from or_byte[OF this, of "s ! (k + 3)"] show ?thesis unfolding load_4_def load_3_def[symmetric] by (simp add: unat_load_3)
qed

lemma take_drop_3: "k + 3 \<le> length s \<Longrightarrow> take 3 (drop k s) = [s ! k, s ! (k + 1), s ! (k + 2)]"
  by (rule nth_equalityI) (auto simp: less_Suc_eq numeral_3_eq_3 nth_Cons split: nat.splits)

lemma take_drop_4: "k + 4 \<le> length s \<Longrightarrow> take 4 (drop k s) = [s ! k, s ! (k + 1), s ! (k + 2), s ! (k + 3)]"
  by (rule nth_equalityI) (auto simp: less_Suc_eq eval_nat_numeral nth_Cons split: nat.splits)

lemma load_3_value: "k + 3 \<le> length s \<Longrightarrow> unat (load_3 s k) = le_to_nat s div 2 ^ (8 * k) mod 2 ^ 24"
  using le_to_nat_take[of 3 "drop k s"] take_drop_3[of k s] by (simp add: le_to_nat_div unat_load_3)

lemma load_4_value: "k + 4 \<le> length s \<Longrightarrow> unat (load_4 s k) = le_to_nat s div 2 ^ (8 * k) mod 2 ^ 32"
  using le_to_nat_take[of 4 "drop k s"] take_drop_4[of k s] by (simp add: le_to_nat_div unat_load_4)

lemma div_mod_field: "r + k \<le> m \<Longrightarrow> (x :: nat) mod 2 ^ m div 2 ^ r mod 2 ^ k = x div 2 ^ r mod 2 ^ k"
  by (simp flip: take_bit_eq_mod drop_bit_eq_div add: drop_bit_take_bit min_absorb1)

lemma div_mod_top: "(x :: nat) < 2 ^ m \<Longrightarrow> x mod 2 ^ m div 2 ^ r = x div 2 ^ r"
  by simp

lemma load_field:
  assumes "unat w = N div 2 ^ a mod 2 ^ m" and "r + k \<le> m"
  shows "unat (mask k AND drop_bit r (w :: 64 word)) = N div 2 ^ (a + r) mod 2 ^ k"
proof -
  have "unat (mask k AND drop_bit r w) = unat (drop_bit r w) mod 2 ^ k" by (subst and.commute) (rule unat_and_mask_eq_mod)
  also have "\<dots> = N div 2 ^ a mod 2 ^ m div 2 ^ r mod 2 ^ k" by (simp add: unat_drop_bit assms(1))
  also have "\<dots> = N div 2 ^ a div 2 ^ r mod 2 ^ k" by (rule div_mod_field[OF assms(2)])
  also have "\<dots> = N div 2 ^ (a + r) mod 2 ^ k" by (simp add: power_add div_mult2_eq)
  finally show ?thesis .
qed

end
