(* ===== verification/Scalar.thy ===== *)
theory Scalar
  imports Limbs
begin

text \<open>
  Scalars of the elliptic curve: \<open>sc_reduce\<close>, \<open>sc_reduce32\<close>, \<open>sc_add\<close>, \<open>sc_sub\<close>, \<open>sc_mulsub\<close>, \<open>sc_0\<close>,
  \<open>sc_isvalid_vartime\<close> and \<open>sc_iszero\<close> of \<open>src/src/crypto/crypto-ops.c\<close>, with \<open>sodium_is_zero\<close> of \<open>crypto-util.c\<close>. A
  scalar is a string of 32 bytes; the code works on limbs of 21 bits in variables of type \<open>int64_t\<close>. The theorems show
  that no overflow occurs and that the results are the reduced numbers modulo the order of the group.
\<close>

definition group_order :: int where
  "group_order = 2 ^ 252 + 27742317777372353535851937790883648493"

section \<open>The code\<close>

subsection \<open>Loading and storing limbs\<close>

definition low_limb :: "nat \<Rightarrow> 64 word \<Rightarrow> 64 word" where
  "low_limb r w = 2097151 AND drop_bit r w"

definition load_limbs :: "bytes \<Rightarrow> 64 word list" where
  "load_limbs s =
     [low_limb 0 (load_3 s 0), low_limb 5 (load_4 s 2), low_limb 2 (load_3 s 5), low_limb 7 (load_4 s 7), low_limb 4 (load_4 s 10),
      low_limb 1 (load_3 s 13), low_limb 6 (load_4 s 15), low_limb 3 (load_3 s 18), low_limb 0 (load_3 s 21), low_limb 5 (load_4 s 23),
      low_limb 2 (load_3 s 26), drop_bit 7 (load_4 s 28)]"

definition load_wide_limbs :: "bytes \<Rightarrow> 64 word list" where
  "load_wide_limbs s =
     [low_limb 0 (load_3 s 0), low_limb 5 (load_4 s 2), low_limb 2 (load_3 s 5), low_limb 7 (load_4 s 7), low_limb 4 (load_4 s 10),
      low_limb 1 (load_3 s 13), low_limb 6 (load_4 s 15), low_limb 3 (load_3 s 18), low_limb 0 (load_3 s 21), low_limb 5 (load_4 s 23),
      low_limb 2 (load_3 s 26), low_limb 7 (load_4 s 28), low_limb 4 (load_4 s 31), low_limb 1 (load_3 s 34), low_limb 6 (load_4 s 36),
      low_limb 3 (load_3 s 39), low_limb 0 (load_3 s 42), low_limb 5 (load_4 s 44), low_limb 2 (load_3 s 47), low_limb 7 (load_4 s 49),
      low_limb 4 (load_4 s 52), low_limb 1 (load_3 s 55), low_limb 6 (load_4 s 57), drop_bit 3 (load_4 s 60)]"

text \<open>A byte out of one limb, or out of the upper bits of one and the lower bits of the next.\<close>

definition low_byte :: "64 word \<Rightarrow> nat \<Rightarrow> byte" where
  "low_byte x r = ucast (signed_drop_bit r x)"

definition join_byte :: "64 word \<Rightarrow> nat \<Rightarrow> 64 word \<Rightarrow> nat \<Rightarrow> byte" where
  "join_byte x r y k = ucast (signed_drop_bit r x OR push_bit k y)"

definition pack_limbs :: "64 word list \<Rightarrow> bytes" where
  "pack_limbs s =
     [low_byte (s ! 0) 0, low_byte (s ! 0) 8, join_byte (s ! 0) 16 (s ! 1) 5, low_byte (s ! 1) 3, low_byte (s ! 1) 11,
      join_byte (s ! 1) 19 (s ! 2) 2, low_byte (s ! 2) 6, join_byte (s ! 2) 14 (s ! 3) 7, low_byte (s ! 3) 1, low_byte (s ! 3) 9,
      join_byte (s ! 3) 17 (s ! 4) 4, low_byte (s ! 4) 4, low_byte (s ! 4) 12, join_byte (s ! 4) 20 (s ! 5) 1, low_byte (s ! 5) 7,
      join_byte (s ! 5) 15 (s ! 6) 6, low_byte (s ! 6) 2, low_byte (s ! 6) 10, join_byte (s ! 6) 18 (s ! 7) 3, low_byte (s ! 7) 5,
      low_byte (s ! 7) 13, low_byte (s ! 8) 0, low_byte (s ! 8) 8, join_byte (s ! 8) 16 (s ! 9) 5, low_byte (s ! 9) 3, low_byte (s ! 9) 11,
      join_byte (s ! 9) 19 (s ! 10) 2, low_byte (s ! 10) 6, join_byte (s ! 10) 14 (s ! 11) 7, low_byte (s ! 11) 1, low_byte (s ! 11) 9,
      low_byte (s ! 11) 17]"

subsection \<open>Steps\<close>

definition round_limb :: "nat \<Rightarrow> step" where
  "round_limb i = Carry True 21 i (i + 1) 1"

definition carry_limb :: "nat \<Rightarrow> step" where
  "carry_limb i = Carry False 21 i (i + 1) 1"

definition fold_limb :: "nat \<Rightarrow> step" where
  "fold_limb i = Fold i [(i - 12, 666643), (i - 11, 470296), (i - 10, 654183), (i - 9, - 997805), (i - 8, 136657), (i - 7, - 683901)]"

definition final_steps :: "step list" where
  "final_steps =
     map carry_limb [0, 1, 2, 3, 4, 5, 6, 7, 8, 9, 10, 11] @ [fold_limb 12] @ map carry_limb [0, 1, 2, 3, 4, 5, 6, 7, 8, 9, 10]"

definition short_steps :: "step list" where
  "short_steps = map round_limb [0, 2, 4, 6, 8, 10] @ map round_limb [1, 3, 5, 7, 9, 11] @ [fold_limb 12]"

definition wide_steps :: "step list" where
  "wide_steps =
     map fold_limb [23, 22, 21, 20, 19, 18] @ map round_limb [6, 8, 10, 12, 14, 16] @ map round_limb [7, 9, 11, 13, 15] @
     map fold_limb [17, 16, 15, 14, 13, 12] @ short_steps"

definition product_steps :: "step list" where
  "product_steps =
     map round_limb [0, 2, 4, 6, 8, 10, 12, 14, 16, 18, 20, 22] @ map round_limb [1, 3, 5, 7, 9, 11, 13, 15, 17, 19, 21] @ wide_steps"

subsection \<open>Operations\<close>

definition sc_0 :: bytes where
  "sc_0 = replicate 32 0"

definition sc_reduce :: "bytes \<Rightarrow> bytes" where
  "sc_reduce s = pack_limbs (run_steps (wide_steps @ final_steps) (load_wide_limbs s))"

definition sc_reduce32 :: "bytes \<Rightarrow> bytes" where
  "sc_reduce32 s = pack_limbs (run_steps (short_steps @ final_steps) (load_limbs s @ [0]))"

definition sc_add :: "bytes \<Rightarrow> bytes \<Rightarrow> bytes" where
  "sc_add a b = pack_limbs (run_steps (short_steps @ final_steps) (map2 (+) (load_limbs a) (load_limbs b) @ [0]))"

definition sc_sub :: "bytes \<Rightarrow> bytes \<Rightarrow> bytes" where
  "sc_sub a b = pack_limbs (run_steps (short_steps @ final_steps) (map2 (-) (load_limbs a) (load_limbs b) @ [0]))"

text \<open>The sum of the products of limbs that belong to limb \<open>k\<close> of a product: \<open>a0*bk + a1*b(k-1) + ...\<close>.\<close>

definition limb_products :: "64 word list \<Rightarrow> 64 word list \<Rightarrow> nat \<Rightarrow> 64 word" where
  "limb_products a b k = sum_list (map (\<lambda>i. a ! i * b ! (k - i)) [k - 11..<min (k + 1) 12])"

definition difference_limbs :: "bytes \<Rightarrow> bytes \<Rightarrow> bytes \<Rightarrow> 64 word list" where
  "difference_limbs aa bb cc =
     (let a = load_limbs aa; b = load_limbs bb; c = load_limbs cc
      in map (\<lambda>k. c ! k - limb_products a b k) [0..<12] @ map (\<lambda>k. - limb_products a b k) [12..<23] @ [0])"

definition sc_mulsub :: "bytes \<Rightarrow> bytes \<Rightarrow> bytes \<Rightarrow> bytes" where
  "sc_mulsub aa bb cc = pack_limbs (run_steps (product_steps @ final_steps) (difference_limbs aa bb cc))"

definition signum :: "64 word \<Rightarrow> 64 word" where
  "signum a = signed_drop_bit 63 a - signed_drop_bit 63 (- a)"

definition sc_isvalid_vartime :: "bytes \<Rightarrow> bool" where
  "sc_isvalid_vartime s \<longleftrightarrow>
     (let s0 = load_4 s 0; s1 = load_4 s 4; s2 = load_4 s 8; s3 = load_4 s 12; s4 = load_4 s 16; s5 = load_4 s 20; s6 = load_4 s 24; s7 = load_4 s 28
      in (signed_drop_bit 8
           (signum (1559614444 - s0) + push_bit 1 (signum (1477600026 - s1)) + push_bit 2 (signum (2734136534 - s2)) +
            push_bit 3 (signum (350157278 - s3)) + push_bit 4 (signum (- s4)) + push_bit 5 (signum (- s5)) + push_bit 6 (signum (- s6)) +
            push_bit 7 (signum (268435456 - s7))) :: 64 word) = 0)"

definition sodium_is_zero :: "bytes \<Rightarrow> bool" where
  "sodium_is_zero n = (let d = foldl (OR) 0 n in (1 :: 32 word) AND signed_drop_bit 8 (ucast d - 1) \<noteq> 0)"

definition sc_iszero :: "bytes \<Rightarrow> bool" where
  "sc_iszero s = sodium_is_zero s"

section \<open>Loading and storing\<close>

definition limb_of :: "nat \<Rightarrow> nat \<Rightarrow> int" where
  "limb_of N k = int (N div 2 ^ (21 * k) mod 2 ^ 21)"

lemma mask_21: "(2097151 :: 64 word) = mask 21"
  by (simp add: mask_eq_exp_minus_1)

lemma word_unat_int: "unat w = n \<Longrightarrow> w = word_of_int (int n)"
  by auto

lemma low_limb_3:
  assumes "k + 3 \<le> length s" "r \<le> 3" "8 * k + r = 21 * i"
  shows "low_limb r (load_3 s k) = word_of_int (limb_of (le_to_nat s) i)"
  unfolding low_limb_def limb_of_def mask_21
  by (rule word_unat_int) (use load_field[OF load_3_value[OF assms(1)], of r 21] assms(2,3) in simp)

lemma low_limb_4:
  assumes "k + 4 \<le> length s" "r \<le> 11" "8 * k + r = 21 * i"
  shows "low_limb r (load_4 s k) = word_of_int (limb_of (le_to_nat s) i)"
  unfolding low_limb_def limb_of_def mask_21
  by (rule word_unat_int) (use load_field[OF load_4_value[OF assms(1)], of r 21] assms(2,3) in simp)

lemma top_limb:
  assumes "length s = k + 4" "8 * k + r = i"
  shows "drop_bit r (load_4 s k) = word_of_int (int (le_to_nat s div 2 ^ i))"
proof (rule word_unat_int)
  have "le_to_nat s < 2 ^ (8 * (k + 4))" using le_to_nat_less[of s] assms(1) by (simp only: power_mult) simp
  then have "le_to_nat s div 2 ^ (8 * k) < 2 ^ 32" by (simp add: less_mult_imp_div_less power_add mult.commute)
  then have "unat (load_4 s k) = le_to_nat s div 2 ^ (8 * k)" using load_4_value[of k s] assms(1) by simp
  then show "unat (drop_bit r (load_4 s k)) = le_to_nat s div 2 ^ i"
    unfolding assms(2)[symmetric] by (simp add: unat_drop_bit power_add div_mult2_eq)
qed

definition int_limbs :: "nat \<Rightarrow> int list" where
  "int_limbs N = map (limb_of N) [0, 1, 2, 3, 4, 5, 6, 7, 8, 9, 10] @ [int (N div 2 ^ 231)]"

definition int_wide_limbs :: "nat \<Rightarrow> int list" where
  "int_wide_limbs N = map (limb_of N) [0, 1, 2, 3, 4, 5, 6, 7, 8, 9, 10, 11, 12, 13, 14, 15, 16, 17, 18, 19, 20, 21, 22] @ [int (N div 2 ^ 483)]"

lemma load_limbs_int: "length s = 32 \<Longrightarrow> load_limbs s = map word_of_int (int_limbs (le_to_nat s))"
  unfolding load_limbs_def int_limbs_def by (simp add: low_limb_3 low_limb_4 top_limb)

lemma load_wide_limbs_int: "length s = 64 \<Longrightarrow> load_wide_limbs s = map word_of_int (int_wide_limbs (le_to_nat s))"
  unfolding load_wide_limbs_def int_wide_limbs_def by (simp add: low_limb_3 low_limb_4 top_limb)


text \<open>The number that limbs of 21 bits stand for.\<close>

definition weights :: "nat list" where
  "weights = [0, 21, 42, 63, 84, 105, 126, 147, 168, 189, 210, 231, 252]"

definition wide_weights :: "nat list" where
  "wide_weights = weights @ [273, 294, 315, 336, 357, 378, 399, 420, 441, 462, 483]"

lemma split_limb: "int (N div 2 ^ a) = int (N div 2 ^ a mod 2 ^ 21) + 2 ^ 21 * int (N div 2 ^ (a + 21))"
proof -
  have "N div 2 ^ a = N div 2 ^ a mod 2 ^ 21 + 2 ^ 21 * (N div 2 ^ a div 2 ^ 21)" by simp
  also have "N div 2 ^ a div 2 ^ 21 = N div 2 ^ (a + 21)" by (simp add: power_add div_mult2_eq)
  finally have "int (N div 2 ^ a) = int (N div 2 ^ a mod 2 ^ 21 + 2 ^ 21 * (N div 2 ^ (a + 21)))" by (rule arg_cong)
  then show ?thesis by simp
qed

lemma horner_limb: "int (N div 2 ^ (21 * k)) = limb_of N k + 2 ^ 21 * int (N div 2 ^ (21 * (k + 1)))"
  using split_limb[of N "21 * k"] by (simp add: limb_of_def add.commute)

lemma limb_sum: "sum_list (map (\<lambda>k. limb_of N k * 2 ^ (21 * k)) [0..<n]) + int (N div 2 ^ (21 * n)) * 2 ^ (21 * n) = int N"
proof (induction n)
  case (Suc n)
  have "int (N div 2 ^ (21 * n)) * 2 ^ (21 * n) = limb_of N n * 2 ^ (21 * n) + int (N div 2 ^ (21 * Suc n)) * 2 ^ (21 * Suc n)"
    using horner_limb[of N n] by (simp add: power_add algebra_simps)
  then show ?case using Suc by simp
qed simp

lemma int_limbs_value: "limb_value weights (int_limbs N @ [0]) = int N"
proof -
  have u: "[0..<11] = [0, 1, 2, 3, 4, 5, 6, 7, 8, 9, 10]" by code_simp
  show ?thesis using limb_sum[of N 11] unfolding weights_def int_limbs_def u by simp
qed

lemma int_wide_limbs_value: "limb_value wide_weights (int_wide_limbs N) = int N"
proof -
  have u: "[0..<23] = [0, 1, 2, 3, 4, 5, 6, 7, 8, 9, 10, 11, 12, 13, 14, 15, 16, 17, 18, 19, 20, 21, 22]" by code_simp
  show ?thesis using limb_sum[of N 23] unfolding weights_def wide_weights_def int_wide_limbs_def u by simp
qed

section \<open>The final steps reduce\<close>

text \<open>
  What the analysis of ranges has to show of the steps before the final ones: no overflow, the number preserved, and
  limbs whose number is at least \<open>- 2 ^ 252\<close> and below \<open>2 ^ 252\<close>. The final steps then add the order at most once.
\<close>

definition low_value :: "int list \<Rightarrow> int" where
  "low_value s = limb_value weights (take 12 s)"

definition settled :: "(int \<times> int) list \<Rightarrow> bool" where
  "settled rs \<longleftrightarrow>
     - (2 ^ 252) \<le> low_value (map fst rs) \<and> low_value (map snd rs) < 2 ^ 252 \<and> list_all (\<lambda>r. r = (0, 0)) (drop 12 rs)"

definition digits_range :: "nat \<Rightarrow> (int \<times> int) list \<Rightarrow> bool" where
  "digits_range k rs \<longleftrightarrow> list_all (\<lambda>r. 0 \<le> fst r \<and> snd r < 2 ^ 21) (take k rs)"

definition carries :: "step list" where
  "carries = map carry_limb [0, 1, 2, 3, 4, 5, 6, 7, 8, 9, 10]"

lemma final_steps_eq: "final_steps = carries @ [carry_limb 11] @ [fold_limb 12] @ carries"
  by (simp add: final_steps_def carries_def)

definition good_code :: "nat list \<Rightarrow> (int \<times> int) list \<Rightarrow> step list \<Rightarrow> bool" where
  "good_code ws rs sts \<longleftrightarrow>
     take 13 ws = weights \<and> length rs = length ws \<and> list_all (step_preserves ws group_order) sts \<and>
     (case range_steps rs sts of None \<Rightarrow> False
      | Some r1 \<Rightarrow> settled r1 \<and>
         (case range_steps r1 (carries @ [carry_limb 11]) of None \<Rightarrow> False
          | Some r2 \<Rightarrow> digits_range 12 r2 \<and> list_all (\<lambda>r. r = (0, 0)) (drop 13 r2) \<and>
             (case range_steps r2 [fold_limb 12] of None \<Rightarrow> False
              | Some r3 \<Rightarrow> list_all (\<lambda>r. r = (0, 0)) (drop 12 r3) \<and>
                 (case range_steps r3 carries of None \<Rightarrow> False
                  | Some r4 \<Rightarrow> digits_range 11 r4 \<and> list_all (\<lambda>r. r = (0, 0)) (drop 12 r4)))))"

text \<open>The number of limbs whose upper ones are zero.\<close>

lemma limb_value_take: "list_all (\<lambda>x. x = 0) (drop k s) \<Longrightarrow> limb_value ws s = limb_value (take k ws) (take k s)"
proof (induction ws arbitrary: k s)
  case (Cons w ws)
  show ?case
  proof (cases s)
    case s: (Cons x xs)
    show ?thesis
    proof (cases k)
      case 0
      have z: "list_all (\<lambda>x. x = 0) ys \<Longrightarrow> limb_value vs ys = 0" for vs and ys :: "int list"
        by (induction vs arbitrary: ys; case_tac ys) simp_all
      show ?thesis using z[of s "w # ws"] Cons.prems 0 by simp
    next
      case (Suc k')
      then show ?thesis using Cons.IH[of k' xs] Cons.prems s by simp
    qed
  qed simp
qed simp

lemma limb_value_mono: "within s rs \<Longrightarrow> limb_value ws (map fst rs) \<le> limb_value ws s \<and> limb_value ws s \<le> limb_value ws (map snd rs)"
  unfolding within_def
proof (induction s rs arbitrary: ws rule: list_all2_induct)
  case (Cons x s r rs)
  then show ?case by (cases ws) (auto intro!: add_mono mult_right_mono)
qed simp

lemma within_take: "within s rs \<Longrightarrow> within (take k s) (take k rs)"
  by (simp add: within_def list_all2_takeI)

lemma within_zero: "within s rs \<Longrightarrow> list_all (\<lambda>r. r = (0, 0)) (drop k rs) \<Longrightarrow> list_all (\<lambda>x. x = 0) (drop k s)"
  unfolding within_def list_all_length list_all2_conv_all_nth
  by (clarsimp, drule_tac x = "k + n" in spec, fastforce)

lemma within_digits: "within s rs \<Longrightarrow> digits_range k rs \<Longrightarrow> list_all (\<lambda>x. 0 \<le> x \<and> x < 2 ^ 21) (take k s)"
  by (fastforce simp: within_def digits_range_def list_all_length list_all2_conv_all_nth)

lemma carries_exact: "take 13 ws = weights \<Longrightarrow> list_all (step_preserves ws 0) (carries @ [carry_limb 11])"
proof -
  assume w: "take 13 ws = weights"
  have "ws ! i = weights ! i" if "i < 13" for i using that w by (metis nth_take)
  then show ?thesis by (simp add: carries_def carry_limb_def weights_def)
qed

lemma digits_value_bounds:
  assumes "length s = 12" "list_all (\<lambda>x. 0 \<le> x \<and> x < 2 ^ 21) s"
  shows "0 \<le> limb_value weights s \<and> limb_value weights s < 2 ^ 252"
proof -
  have w: "within s (replicate 12 (0, 2 ^ 21 - 1))" using assms by (auto simp: within_def list_all2_conv_all_nth list_all_length)
  have "limb_value weights (map fst (replicate 12 (0, 2 ^ 21 - 1 :: int))) = 0" by code_simp
  moreover have "limb_value weights (map snd (replicate 12 (0, 2 ^ 21 - 1 :: int))) < 2 ^ 252" by code_simp
  ultimately show ?thesis using limb_value_mono[OF w, of weights] by simp
qed


lemma limb_value_take_weights: "limb_value ws (take k s) = limb_value (take k ws) (take k s)"
proof (induction ws arbitrary: k s)
  case (Cons w ws)
  then show ?case by (cases k; cases s) simp_all
qed simp

lemma limb_value_append: "length ws = length s \<Longrightarrow> limb_value (ws @ ws') (s @ s') = limb_value ws s + limb_value ws' s'"
  by (induction ws s rule: list_induct2) simp_all

lemma low_value_zero:
  assumes "take 13 ws = weights" "list_all (\<lambda>x. x = 0) (drop 12 s)"
  shows "limb_value ws s = low_value s"
proof -
  have "limb_value ws s = limb_value (take 12 ws) (take 12 s)" by (rule limb_value_take[OF assms(2)])
  also have "take 12 ws = take 12 weights" using arg_cong[OF assms(1), of "take 12"] by simp
  finally show ?thesis unfolding low_value_def limb_value_take_weights[of weights 12 s] .
qed

lemma low_value_last:
  assumes "12 \<le> length s"
  shows "low_value s = limb_value weights (take 11 s) + s ! 11 * 2 ^ 231"
proof -
  have "take 12 s = take 11 s @ [s ! 11]" using take_Suc_conv_app_nth[of 11 s] assms by simp
  moreover have "take 12 weights = take 11 weights @ [231]" by (simp add: weights_def)
  ultimately have "low_value s = limb_value (take 11 weights @ [231]) (take 11 s @ [s ! 11])"
    unfolding low_value_def limb_value_take_weights[of weights 12 s] by simp
  also have "\<dots> = limb_value (take 11 weights) (take 11 s) + s ! 11 * 2 ^ 231"
    using assms by (subst limb_value_append) (simp_all add: weights_def)
  finally show ?thesis unfolding limb_value_take_weights[of weights 11 s] .
qed

lemma top_value:
  assumes "take 13 ws = weights" "13 \<le> length s" "list_all (\<lambda>x. x = 0) (drop 13 s)"
  shows "limb_value ws s = low_value s + s ! 12 * 2 ^ 252"
proof -
  have "limb_value ws s = limb_value weights (take 13 s)" using limb_value_take[OF assms(3)] assms(1) by simp
  moreover have "take 13 s = take 12 s @ [s ! 12]" using take_Suc_conv_app_nth[of 12 s] assms(2) by simp
  moreover have "weights = take 12 weights @ [252]" by (simp add: weights_def)
  ultimately have "limb_value ws s = limb_value (take 12 weights @ [252]) (take 12 s @ [s ! 12])" by simp
  also have "\<dots> = limb_value (take 12 weights) (take 12 s) + s ! 12 * 2 ^ 252"
    using assms(2) by (subst limb_value_append) (simp_all add: weights_def)
  finally show ?thesis unfolding low_value_def limb_value_take_weights[of weights 12 s] .
qed

lemma low_digits_bounds:
  assumes "list_all (\<lambda>x. 0 \<le> x \<and> x < 2 ^ 21) (take 11 s)" "11 \<le> length s"
  shows "0 \<le> limb_value weights (take 11 s) \<and> limb_value weights (take 11 s) < 2 ^ 231"
proof -
  have w: "within (take 11 s) (replicate 11 (0, 2 ^ 21 - 1))" using assms by (auto simp: within_def list_all2_conv_all_nth list_all_length)
  have "limb_value weights (map fst (replicate 11 (0, 2 ^ 21 - 1 :: int))) = 0" by code_simp
  moreover have "limb_value weights (map snd (replicate 11 (0, 2 ^ 21 - 1 :: int))) < 2 ^ 231" by code_simp
  ultimately show ?thesis using limb_value_mono[OF w, of weights] by simp
qed

text \<open>Limbs of 21 bits, only the last of which may be a little longer: what \<open>pack_limbs\<close> stores without loss.\<close>

definition packable :: "int list \<Rightarrow> bool" where
  "packable s \<longleftrightarrow> 12 \<le> length s \<and> list_all (\<lambda>x. 0 \<le> x \<and> x < 2 ^ 21) (take 11 s) \<and> 0 \<le> s ! 11 \<and> s ! 11 < 2 ^ 25"

theorem good_code_reduces:
  assumes "good_code ws rs sts" and "within s rs"
  shows "\<exists>s'. int_steps s (sts @ final_steps) = Some s' \<and> packable s' \<and> low_value s' = limb_value ws s mod group_order"
proof -
  have g: "take 13 ws = weights" "length rs = length ws" "list_all (step_preserves ws group_order) sts" using assms(1) by (simp_all add: good_code_def)
  obtain r1 where r1: "range_steps rs sts = Some r1" "settled r1" using assms(1) by (auto simp: good_code_def split: option.splits)
  obtain r2 where r2: "range_steps r1 (carries @ [carry_limb 11]) = Some r2" "digits_range 12 r2" "list_all (\<lambda>r. r = (0, 0)) (drop 13 r2)"
    using assms(1) r1 by (auto simp: good_code_def split: option.splits)
  obtain r3 where r3: "range_steps r2 [fold_limb 12] = Some r3" "list_all (\<lambda>r. r = (0, 0)) (drop 12 r3)"
    using assms(1) r1 r2 by (simp add: good_code_def split: option.splits)
  obtain r4 where r4: "range_steps r3 carries = Some r4" "digits_range 11 r4" "list_all (\<lambda>r. r = (0, 0)) (drop 12 r4)"
    using assms(1) r1 r2 r3 by (simp add: good_code_def split: option.splits)
  obtain s1 where s1: "int_steps s sts = Some s1" "within s1 r1" using range_steps_sound[OF r1(1) assms(2)] by blast
  obtain s2 where s2: "int_steps s1 (carries @ [carry_limb 11]) = Some s2" "within s2 r2" using range_steps_sound[OF r2(1) s1(2)] by blast
  obtain s3 where s3: "int_steps s2 [fold_limb 12] = Some s3" "within s3 r3" using range_steps_sound[OF r3(1) s2(2)] by blast
  obtain s4 where s4: "int_steps s3 carries = Some s4" "within s4 r4" using range_steps_sound[OF r4(1) s3(2)] by blast
  have "13 \<le> length ws" using arg_cong[OF g(1), of length] by (simp add: weights_def min_def split: if_splits)
  then have len: "length s = length ws" "length s1 = length ws" "length s2 = length ws" "length s3 = length ws" "length s4 = length ws" "13 \<le> length ws"
    using length_int_steps[OF s1(1)] length_int_steps[OF s2(1)] length_int_steps[OF s3(1)] length_int_steps[OF s4(1)] within_length[OF assms(2)] g(2)
    by simp_all
  have ex: "list_all (step_preserves ws 0) (carries @ [carry_limb 11])" by (rule carries_exact[OF g(1)])
  let ?V = "limb_value ws s1"
  have V: "?V mod group_order = limb_value ws s mod group_order" using int_steps_value[OF s1(1) _ g(3)] len by simp
  have Vl: "?V = low_value s1"
    by (rule low_value_zero[OF g(1) within_zero[OF s1(2)]]) (use r1(2) in \<open>simp add: settled_def\<close>)
  have "low_value (map fst r1) \<le> low_value s1 \<and> low_value s1 \<le> low_value (map snd r1)"
    using limb_value_mono[OF within_take[OF s1(2)], of weights 12] by (simp add: low_value_def take_map)
  then have Vb: "- (2 ^ 252) \<le> ?V" "?V < 2 ^ 252" using r1(2) Vl by (simp_all add: settled_def)
  have V2: "limb_value ws s2 = ?V" using int_steps_value[OF s2(1) _ ex] len by simp
  have t2: "?V = low_value s2 + s2 ! 12 * 2 ^ 252"
    using top_value[OF g(1) _ within_zero[OF s2(2) r2(3)]] len V2 by simp
  have W: "0 \<le> low_value s2 \<and> low_value s2 < 2 ^ 252"
    unfolding low_value_def by (rule digits_value_bounds) (use len within_digits[OF s2(2) r2(2)] in simp_all)
  have "(- 2) * 2 ^ 252 < s2 ! 12 * 2 ^ 252" "s2 ! 12 * 2 ^ 252 < 1 * 2 ^ 252" using W t2 Vb by linarith+
  then have "- 2 < s2 ! 12" "s2 ! 12 < 1" by (simp_all only: mult_less_cancel_right) simp_all
  then have q: "s2 ! 12 = 0 \<or> s2 ! 12 = - 1" by linarith
  have fold: "int_step s2 (fold_limb 12) = Some s3" using s3(1) by (simp add: bind_eq_Some_conv)
  have w12: "ws ! 12 = 252" "ws ! 0 = 0" "ws ! 1 = 21" "ws ! 2 = 42" "ws ! 3 = 63" "ws ! 4 = 84" "ws ! 5 = 105"
    using arg_cong[OF g(1), of "\<lambda>l. l ! 12"] arg_cong[OF g(1), of "\<lambda>l. l ! 0"] arg_cong[OF g(1), of "\<lambda>l. l ! 1"] arg_cong[OF g(1), of "\<lambda>l. l ! 2"]
      arg_cong[OF g(1), of "\<lambda>l. l ! 3"] arg_cong[OF g(1), of "\<lambda>l. l ! 4"] arg_cong[OF g(1), of "\<lambda>l. l ! 5"] by (simp_all add: weights_def)
  have mv: "multiples_value ws [(12 - 12, 666643), (12 - 11, 470296), (12 - 10, 654183), (12 - 9, - 997805), (12 - 8, 136657), (12 - 7, - 683901)]
      - 2 ^ (ws ! 12) = - group_order"
    using w12 by (simp add: multiples_value_def group_order_def)
  have V3: "limb_value ws s3 = ?V - s2 ! 12 * group_order"
    using fold_value[OF fold[unfolded fold_limb_def], of ws, unfolded mv] len V2 by simp
  have V4: "limb_value ws s4 = limb_value ws s3" using int_steps_value[OF s4(1), of ws 0] ex len by simp
  have l4: "limb_value ws s4 = low_value s4" by (rule low_value_zero[OF g(1) within_zero[OF s4(2) r4(3)]])
  have range: "0 \<le> low_value s4 \<and> low_value s4 < group_order"
  proof (cases "s2 ! 12 = 0")
    case True
    then have "low_value s4 = low_value s2" using t2 V3 V4 l4 by simp
    moreover have "(2 :: int) ^ 252 \<le> group_order" by (simp add: group_order_def)
    ultimately show ?thesis using W by linarith
  next
    case False
    then have "low_value s4 = low_value s2 - 2 ^ 252 + group_order" using q t2 V3 V4 l4 by simp
    moreover have "(2 :: int) ^ 252 \<le> group_order" by (simp add: group_order_def)
    ultimately show ?thesis using W by linarith
  qed
  have "low_value s4 mod group_order = limb_value ws s mod group_order" 
  proof -
    have "low_value s4 = ?V + (- (s2 ! 12)) * group_order" using V3 V4 l4 by simp
    then show ?thesis unfolding V[symmetric] by (simp only: mod_mult_self1)
  qed
  then have res: "low_value s4 = limb_value ws s mod group_order" using range by simp
  have low: "list_all (\<lambda>x. 0 \<le> x \<and> x < 2 ^ 21) (take 11 s4)" by (rule within_digits[OF s4(2) r4(2)])
  have "0 \<le> limb_value weights (take 11 s4) \<and> limb_value weights (take 11 s4) < 2 ^ 231" by (rule low_digits_bounds[OF low]) (use len in simp)
  moreover have "low_value s4 = limb_value weights (take 11 s4) + s4 ! 11 * 2 ^ 231" by (rule low_value_last) (use len in simp)
  moreover have "group_order < 2 ^ 25 * 2 ^ 231" by (simp add: group_order_def)
  ultimately have "(- 1) * 2 ^ 231 < s4 ! 11 * 2 ^ 231" "s4 ! 11 * 2 ^ 231 < 2 ^ 25 * 2 ^ 231" using range by linarith+
  then have "0 \<le> s4 ! 11" "s4 ! 11 < 2 ^ 25" by (simp_all only: mult_less_cancel_right) simp_all
  then have "packable s4" using low len by (simp add: packable_def)
  moreover have "int_steps s (sts @ final_steps) = Some s4"
  proof -
    have "int_steps s (sts @ final_steps) = int_steps s1 ((carries @ [carry_limb 11]) @ ([fold_limb 12] @ carries))"
      unfolding int_steps_append[of s sts] s1(1) final_steps_eq by simp
    also have "\<dots> = int_steps s2 ([fold_limb 12] @ carries)" unfolding int_steps_append[of s1 "carries @ [carry_limb 11]"] s2(1) by simp
    also have "\<dots> = int_steps s3 carries" unfolding int_steps_append[of s2] s3(1) by simp
    finally show ?thesis using s4(1) by simp
  qed
  ultimately show ?thesis using res by blast
qed


section \<open>Storing\<close>

lemma nat_to_le_nth: "nat_to_le k n = map (\<lambda>j. word_of_nat (n div 2 ^ (8 * j) mod 256)) [0..<k]"
proof (induction k arbitrary: n)
  case (Suc k)
  have "map (\<lambda>j. word_of_nat (n div 2 ^ (8 * j) mod 256) :: byte) [0..<Suc k]
      = word_of_nat (n mod 256) # map (\<lambda>j. word_of_nat (n div 2 ^ (8 * Suc j) mod 256)) [0..<k]"
    by (simp only: upt_conv_Cons[OF zero_less_Suc] map_Suc_upt[symmetric] list.map map_map o_def) simp
  moreover have "n div 2 ^ (8 * Suc j) = n div 256 div 2 ^ (8 * j)" for j by (simp add: power_add div_mult2_eq)
  ultimately show ?case by (simp only: nat_to_le.simps Suc)
qed simp

lemma byte_of_int: "(word_of_nat (nat v mod 256) :: byte) = word_of_int v" if "0 \<le> v"
proof -
  have "(word_of_nat (nat v mod 256) :: byte) = word_of_nat (nat v)" by (rule word_unat_eq_iff[THEN iffD2]) (simp add: unat_of_nat)
  then show ?thesis using that by simp
qed

text \<open>Horner's rule on the limbs, and the bits from position \<open>r\<close> of the first limb on.\<close>

fun horner :: "int list \<Rightarrow> int" where
  "horner [] = 0"
| "horner (x # xs) = x + 2 ^ 21 * horner xs"

lemma horner_value: "length s = 12 \<Longrightarrow> low_value s = horner s"
  by (simp add: low_value_def weights_def length_Suc_conv eval_nat_numeral) auto


lemma horner_div:
  "i \<le> length s \<Longrightarrow> list_all (\<lambda>x. 0 \<le> x \<and> x < 2 ^ 21) (take i s) \<Longrightarrow> horner s div 2 ^ (21 * i) = horner (drop i s)"
proof (induction i arbitrary: s)
  case (Suc i)
  then obtain x xs where s: "s = x # xs" by (cases s) simp_all
  have "0 \<le> x \<and> x < 2 ^ 21" using Suc.prems(2) s by simp
  then have "(x + 2 ^ 21 * horner xs) div 2 ^ 21 = horner xs" by (simp add: div_pos_pos_trivial)
  moreover have "horner s div 2 ^ (21 * Suc i) = (x + 2 ^ 21 * horner xs) div 2 ^ 21 div 2 ^ (21 * i)"
    unfolding s by (simp add: power_add zdiv_zmult2_eq del: One_nat_def)
  ultimately show ?case using Suc.IH[of xs] Suc.prems s by simp
qed simp

lemma ucast_word_of_int: "(ucast (word_of_int x :: 64 word) :: byte) = word_of_int x"
  by transfer simp

lemma low_byte_int: "fits x \<Longrightarrow> low_byte (word_of_int x) r = word_of_int (x div 2 ^ r)"
  by (simp add: low_byte_def signed_drop_bit_fits ucast_word_of_int)

lemma div_less_bound: "x < b * c \<Longrightarrow> 0 < c \<Longrightarrow> x div c < (b :: int)"
proof -
  assume x: "x < b * c" and c: "0 < c"
  have "x div c * c \<le> x" using div_mult_mod_eq[of x c] pos_mod_sign[OF c, of x] by linarith
  then have "x div c * c < b * c" using x by linarith
  then show ?thesis using c by (simp add: mult_less_cancel_right)
qed

lemma join_byte_int:
  assumes "0 \<le> x" "x < 2 ^ 21" "r + k = 21"
  shows "join_byte (word_of_int x) r (word_of_int y) k = word_of_int (x div 2 ^ r + 2 ^ k * y)"
proof -
  have f: "fits x" using assms by (simp add: fits_def)
  have d: "0 \<le> x div 2 ^ r" using assms(1) by (simp add: pos_imp_zdiv_nonneg_iff)
  have "x < 2 ^ k * 2 ^ r" using assms(2,3) by (simp flip: power_add add: add.commute)
  then have l: "x div 2 ^ r < 2 ^ k" by (rule div_less_bound[OF _ zero_less_power]) simp_all
  have k: "k \<le> 21" using assms(3) by simp
  have "(2 :: int) ^ k \<le> 2 ^ 21" by (rule power_increasing[OF k]) simp
  then have "unat (word_of_int (x div 2 ^ r) :: 64 word) = nat (x div 2 ^ r)"
    using d l by (simp add: unat_eq_nat_uint uint_word_of_int_eq take_bit_int_eq_self)
  moreover have "nat (x div 2 ^ r) < 2 ^ k" using l by (simp add: nat_less_iff)
  ultimately have "unat (word_of_int (x div 2 ^ r) :: 64 word) < 2 ^ k" by simp
  then have "word_of_int (x div 2 ^ r) AND push_bit k (word_of_int y :: 64 word) = 0" by (rule and_push_bit_eq_0)
  then have "word_of_int (x div 2 ^ r) OR push_bit k (word_of_int y :: 64 word) = word_of_int (x div 2 ^ r) + push_bit k (word_of_int y)"
    by (simp add: disjunctive_add_eq_or)
  also have "\<dots> = word_of_int (x div 2 ^ r + 2 ^ k * y)" by (simp add: push_bit_eq_mult mult.commute)
  finally show ?thesis unfolding join_byte_def signed_drop_bit_fits[OF f] by (simp only: ucast_word_of_int)
qed

lemma byte_multiple: "8 \<le> k \<Longrightarrow> (word_of_int (x + 2 ^ k * y) :: byte) = word_of_int x"
proof -
  assume "8 \<le> k"
  then have "(2 :: int) ^ k = 2 ^ 8 * 2 ^ (k - 8)" unfolding power_add[symmetric] by simp
  then have "(word_of_int (2 ^ k * y) :: byte) = word_of_int (2 ^ 8) * word_of_int (2 ^ (k - 8) * y)"
    by (simp only: mult.assoc of_int_mult)
  also have "word_of_int (2 ^ 8) = (0 :: byte)" by code_simp
  finally show ?thesis by (simp only: of_int_add mult_zero_left add_0_right)
qed

lemma div_two_limbs: "r \<le> k \<Longrightarrow> (x + 2 ^ k * (y :: int)) div 2 ^ r = x div 2 ^ r + 2 ^ (k - r) * y"
proof -
  assume "r \<le> k"
  then have "(2 :: int) ^ k = 2 ^ r * 2 ^ (k - r)" by (simp flip: power_add)
  then show ?thesis using div_mult_self2[of "2 ^ r" x "2 ^ (k - r) * y"] by (simp add: mult.assoc)
qed


text \<open>Each byte that is stored is the byte of the number.\<close>

lemma horner_at:
  assumes "packable s" "length s = 12" "i < 12"
  shows "horner s div 2 ^ (21 * i) = s ! i + 2 ^ 21 * horner (drop (Suc i) s)"
proof -
  have "take i s = take i (take 11 s)" using assms(3) by (simp add: min_def)
  then have "list_all (\<lambda>x. 0 \<le> x \<and> x < 2 ^ 21) (take i s)"
    using assms(1) unfolding packable_def by (metis append_take_drop_id list_all_append)
  then have "horner s div 2 ^ (21 * i) = horner (drop i s)" using horner_div[of i s] assms(2,3) by simp
  then show ?thesis using assms(2,3) by (simp add: Cons_nth_drop_Suc[symmetric])
qed

lemma packable_nth: "packable s \<Longrightarrow> i < 12 \<Longrightarrow> 0 \<le> s ! i \<and> s ! i < 2 ^ 25 \<and> (i < 11 \<longrightarrow> s ! i < 2 ^ 21)"
  by (cases "i < 11") (auto simp: packable_def list_all_length dest!: spec[of _ i] simp: less_Suc_eq numeral_eq_Suc)

lemma low_byte_at:
  assumes p: "packable s" "length s = 12" and i: "i < 12" "r + 8 \<le> 21 \<or> i = 11" "21 * i + r = 8 * j"
  shows "low_byte (word_of_int (s ! i)) r = word_of_nat (nat (horner s) div 2 ^ (8 * j) mod 256)"
proof -
  have x: "0 \<le> s ! i" "s ! i < 2 ^ 25" using packable_nth[OF p(1) i(1)] by simp_all
  have "fits (s ! i)" using x by (simp add: fits_def)
  then have "low_byte (word_of_int (s ! i)) r = word_of_int (s ! i div 2 ^ r)" by (rule low_byte_int)
  also have "\<dots> = word_of_int (horner s div 2 ^ (8 * j))"
  proof -
    have "horner s div 2 ^ (8 * j) = (s ! i + 2 ^ 21 * horner (drop (Suc i) s)) div 2 ^ r"
      unfolding i(3)[symmetric] power_add by (simp add: zdiv_zmult2_eq horner_at[OF p i(1)])
    moreover have "(word_of_int ((s ! i + 2 ^ 21 * horner (drop (Suc i) s)) div 2 ^ r) :: byte) = word_of_int (s ! i div 2 ^ r)"
    proof (cases "i = 11")
      case True
      then show ?thesis using p(2) by simp
    next
      case False
      then have r: "r \<le> 21" "8 \<le> 21 - r" using i(2) by simp_all
      show ?thesis unfolding div_two_limbs[OF r(1)] by (rule byte_multiple[OF r(2)])
    qed
    ultimately show ?thesis by simp
  qed
  also have "\<dots> = word_of_nat (nat (horner s div 2 ^ (8 * j)) mod 256)"
  proof (rule byte_of_int[symmetric])
    have "0 \<le> xs ! k" if "k < length xs" "list_all (\<lambda>x. 0 \<le> x) xs" for xs :: "int list" and k using that by (simp add: list_all_length)
    have n: "list_all (\<lambda>x. 0 \<le> x) xs \<Longrightarrow> 0 \<le> horner xs" for xs by (induction xs) simp_all
    have "list_all (\<lambda>x. 0 \<le> x) s" using packable_nth[OF p(1)] p(2) by (simp add: list_all_length)
    then show "0 \<le> horner s div 2 ^ (8 * j)" using n by (simp add: pos_imp_zdiv_nonneg_iff)
  qed
  also have "nat (horner s div 2 ^ (8 * j)) = nat (horner s) div 2 ^ (8 * j)"
    by (simp add: nat_div_distrib' nat_power_eq)
  finally show ?thesis .
qed


lemma horner_nonneg: "list_all (\<lambda>x. 0 \<le> x) xs \<Longrightarrow> 0 \<le> horner xs"
  by (induction xs) simp_all

lemma packable_nonneg: "packable s \<Longrightarrow> length s = 12 \<Longrightarrow> 0 \<le> horner s"
  by (rule horner_nonneg) (use packable_nth in \<open>simp add: list_all_length\<close>)

lemma join_byte_at:
  assumes p: "packable s" "length s = 12" and i: "i < 11" "r + k = 21" "8 \<le> k + 21" "21 * i + r = 8 * j"
  shows "join_byte (word_of_int (s ! i)) r (word_of_int (s ! Suc i)) k = word_of_nat (nat (horner s) div 2 ^ (8 * j) mod 256)"
proof -
  have x: "0 \<le> s ! i" "s ! i < 2 ^ 21" using packable_nth[OF p(1), of i] i(1) by simp_all
  have i12: "i < 12" "Suc i < 12" using i(1) by simp_all
  let ?H = "horner (drop (Suc (Suc i)) s)"
  have "horner (drop (Suc i) s) = s ! Suc i + 2 ^ 21 * ?H" using i(1) p(2) by (simp add: Cons_nth_drop_Suc[symmetric])
  moreover have "horner s div 2 ^ (8 * j) = (s ! i + 2 ^ 21 * horner (drop (Suc i) s)) div 2 ^ r"
    unfolding i(4)[symmetric] power_add by (simp add: zdiv_zmult2_eq horner_at[OF p i12(1)])
  moreover have "(s ! i + 2 ^ 21 * horner (drop (Suc i) s)) div 2 ^ r = s ! i div 2 ^ r + 2 ^ k * horner (drop (Suc i) s)"
    using div_two_limbs[of r 21 "s ! i"] i(2) by (metis add_diff_cancel_left' le_add1)
  ultimately have h: "horner s div 2 ^ (8 * j) = (s ! i div 2 ^ r + 2 ^ k * s ! Suc i) + 2 ^ (k + 21) * ?H"
    by (simp add: algebra_simps power_add)
  have "join_byte (word_of_int (s ! i)) r (word_of_int (s ! Suc i)) k = word_of_int (s ! i div 2 ^ r + 2 ^ k * s ! Suc i)"
    by (rule join_byte_int[OF x i(2)])
  also have "\<dots> = word_of_int (horner s div 2 ^ (8 * j))" unfolding h by (rule byte_multiple[OF i(3), symmetric])
  also have "\<dots> = word_of_nat (nat (horner s div 2 ^ (8 * j)) mod 256)"
    using packable_nonneg[OF p] by (intro byte_of_int[symmetric]) (simp add: pos_imp_zdiv_nonneg_iff)
  also have "nat (horner s div 2 ^ (8 * j)) = nat (horner s) div 2 ^ (8 * j)" by (simp add: nat_div_distrib' nat_power_eq)
  finally show ?thesis .
qed

lemma pack_limbs_int:
  assumes p: "packable s" "length s = 12"
  shows "pack_limbs (map word_of_int s) = nat_to_le 32 (nat (horner s))"
proof -
  have n: "map word_of_int s ! i = word_of_int (s ! i)" if "i < 12" for i using that p(2) by simp
  have u: "[0..<32] = [0, 1, 2, 3, 4, 5, 6, 7, 8, 9, 10, 11, 12, 13, 14, 15, 16, 17, 18, 19, 20, 21, 22, 23, 24, 25, 26, 27, 28, 29, 30, 31]"
    by code_simp
  note lo = low_byte_at[OF p] and jo = join_byte_at[OF p]
  show ?thesis unfolding nat_to_le_nth u pack_limbs_def
    by (simp add: n eval_nat_numeral(3)[symmetric] lo[of 0 0 0, simplified] lo[of 0 8 1, simplified] jo[of 0 16 5 2, simplified] lo[of 1 3 3, simplified] lo[of 1 11 4, simplified]
      jo[of 1 19 2 5, simplified, folded numeral_2_eq_2] lo[of 2 6 6, simplified] jo[of 2 14 7 7, simplified] lo[of 3 1 8, simplified] lo[of 3 9 9, simplified]
      jo[of 3 17 4 10, simplified] lo[of 4 4 11, simplified] lo[of 4 12 12, simplified] jo[of 4 20 1 13, simplified] lo[of 5 7 14, simplified]
      jo[of 5 15 6 15, simplified] lo[of 6 2 16, simplified] lo[of 6 10 17, simplified] jo[of 6 18 3 18, simplified] lo[of 7 5 19, simplified]
      lo[of 7 13 20, simplified] lo[of 8 0 21, simplified] lo[of 8 8 22, simplified] jo[of 8 16 5 23, simplified] lo[of 9 3 24, simplified]
      lo[of 9 11 25, simplified] jo[of 9 19 2 26, simplified] lo[of 10 6 27, simplified] jo[of 10 14 7 28, simplified] lo[of 11 1 29, simplified]
      lo[of 11 9 30, simplified] lo[of 11 17 31, simplified])
qed


section \<open>The operations compute modulo the order\<close>

text \<open>Words that are integers in the analysed ranges: what the code stores is the number of its limbs modulo the order.\<close>

lemma int_steps_12: "int_steps s sts = Some s' \<Longrightarrow> packable s' \<Longrightarrow> pack_limbs (map word_of_int s') = nat_to_le 32 (nat (low_value s'))"
proof -
  assume p: "packable s'"
  have "pack_limbs (map word_of_int s') = pack_limbs (map word_of_int (take 12 s'))"
  proof -
    have "map word_of_int s' ! i = (map word_of_int (take 12 s') ! i :: 64 word)" if "i < 12" for i
      using p that by (simp add: packable_def)
    then show ?thesis unfolding pack_limbs_def by simp
  qed
  also have "\<dots> = nat_to_le 32 (nat (horner (take 12 s')))"
    by (rule pack_limbs_int) (use p in \<open>simp_all add: packable_def min_def\<close>)
  also have "horner (take 12 s') = low_value (take 12 s')"
    by (rule horner_value[symmetric]) (use p in \<open>simp add: packable_def\<close>)
  finally show ?thesis by (simp add: low_value_def)
qed

theorem good_code_stores:
  assumes "good_code ws rs sts" and "within s rs"
  shows "pack_limbs (run_steps (sts @ final_steps) (map word_of_int s)) = nat_to_le 32 (nat (limb_value ws s mod group_order))"
proof -
  obtain s' where s': "int_steps s (sts @ final_steps) = Some s'" "packable s'" "low_value s' = limb_value ws s mod group_order"
    using good_code_reduces[OF assms] by blast
  show ?thesis using run_steps_int[OF s'(1)] int_steps_12[OF s'(1,2)] s'(3) by simp
qed

definition limb_range :: "int \<times> int" where
  "limb_range = (0, 2 ^ 21 - 1)"

definition short_ranges :: "(int \<times> int) list" where
  "short_ranges = replicate 11 limb_range @ [(0, 2 ^ 25 - 1)]"

lemma good_reduce32: "good_code weights (short_ranges @ [(0, 0)]) short_steps"
  by code_simp

lemma good_add: "good_code weights (map (\<lambda>r. (0, 2 * snd r)) short_ranges @ [(0, 0)]) short_steps"
  by code_simp

lemma good_sub: "good_code weights (map (\<lambda>r. (- snd r, snd r)) short_ranges @ [(0, 0)]) short_steps"
  by code_simp

lemma good_reduce: "good_code wide_weights (replicate 23 limb_range @ [(0, 2 ^ 29 - 1)]) wide_steps"
  by code_simp

lemma good_mulsub: "good_code wide_weights (replicate 23 (- (2 ^ 54), 2 ^ 54) @ [(0, 0)]) product_steps"
  by code_simp


lemma limb_of_within: "0 \<le> limb_of N k \<and> limb_of N k \<le> 2 ^ 21 - 1"
proof -
  have "N div 2 ^ (21 * k) mod 2 ^ 21 < (2 :: nat) ^ 21" by simp
  then have "int (N div 2 ^ (21 * k) mod 2 ^ 21) < int (2 ^ 21)" by (simp only: of_nat_less_iff)
  then show ?thesis by (simp add: limb_of_def)
qed

lemma top_within: "N < 2 ^ (a + b) \<Longrightarrow> int (N div 2 ^ a) \<le> 2 ^ b - 1"
proof -
  assume "N < 2 ^ (a + b)"
  then have "N div 2 ^ a < 2 ^ b" by (simp add: less_mult_imp_div_less power_add mult.commute)
  then have "int (N div 2 ^ a) < int (2 ^ b)" by (simp only: of_nat_less_iff)
  then show ?thesis by simp
qed

lemma within_map: "(\<And>k. k \<in> set ks \<Longrightarrow> fst r \<le> f k \<and> f k \<le> snd r) \<Longrightarrow> within (map f ks) (replicate (length ks) r)"
  by (simp add: within_def list_all2_conv_all_nth)

lemma within_append: "within s rs \<Longrightarrow> within s' rs' \<Longrightarrow> within (s @ s') (rs @ rs')"
  by (simp add: within_def list_all2_appendI)

lemma limbs_within: "length ks = m \<Longrightarrow> within (map (limb_of N) ks) (replicate m limb_range)"
  using within_map[of ks limb_range "limb_of N"] limb_of_within[of N] by (simp add: limb_range_def)

lemma int_limbs_within: "N < 2 ^ 256 \<Longrightarrow> within (int_limbs N) short_ranges"
proof -
  assume "N < 2 ^ 256"
  then have "within [int (N div 2 ^ 231)] [(0, 2 ^ 25 - 1)]" using top_within[of N 231 25] by (simp add: within_def)
  moreover have "within (map (limb_of N) [0, 1, 2, 3, 4, 5, 6, 7, 8, 9, 10]) (replicate 11 limb_range)"
    by (rule limbs_within) simp
  ultimately show ?thesis unfolding int_limbs_def short_ranges_def by (intro within_append)
qed

lemma int_wide_limbs_within: "N < 2 ^ 512 \<Longrightarrow> within (int_wide_limbs N) (replicate 23 limb_range @ [(0, 2 ^ 29 - 1)])"
proof -
  assume "N < 2 ^ 512"
  then have "within [int (N div 2 ^ 483)] [(0, 2 ^ 29 - 1)]" using top_within[of N 483 29] by (simp add: within_def)
  moreover have "within (map (limb_of N) [0, 1, 2, 3, 4, 5, 6, 7, 8, 9, 10, 11, 12, 13, 14, 15, 16, 17, 18, 19, 20, 21, 22]) (replicate 23 limb_range)"
    by (rule limbs_within) simp
  ultimately show ?thesis unfolding int_wide_limbs_def by (intro within_append)
qed

definition scalar_of :: "int \<Rightarrow> bytes" where
  "scalar_of x = nat_to_le 32 (nat (x mod group_order))"

lemma bytes_less: "length s = n \<Longrightarrow> le_to_nat s < 2 ^ (8 * n)"
  using le_to_nat_less[of s] by (simp add: power_mult)

lemma sc_reduce32_value: "length s = 32 \<Longrightarrow> sc_reduce32 s = scalar_of (int (le_to_nat s))"
proof -
  assume s: "length s = 32"
  have "within (int_limbs (le_to_nat s) @ [0]) (short_ranges @ [(0, 0)])"
    by (intro within_append int_limbs_within) (use bytes_less[OF s] in \<open>simp_all add: within_def\<close>)
  from good_code_stores[OF good_reduce32 this] show ?thesis
    by (simp add: sc_reduce32_def load_limbs_int[OF s] int_limbs_value scalar_of_def)
qed

lemma sc_reduce_value: "length s = 64 \<Longrightarrow> sc_reduce s = scalar_of (int (le_to_nat s))"
proof -
  assume s: "length s = 64"
  have "within (int_wide_limbs (le_to_nat s)) (replicate 23 limb_range @ [(0, 2 ^ 29 - 1)])"
    by (rule int_wide_limbs_within) (use bytes_less[OF s] in simp)
  from good_code_stores[OF good_reduce this] show ?thesis
    by (simp add: sc_reduce_def load_wide_limbs_int[OF s] int_wide_limbs_value scalar_of_def)
qed


lemma limb_value_map2:
  "length a = length b \<Longrightarrow> limb_value ws (map2 (+) a b) = limb_value ws a + limb_value ws b"
  "length a = length b \<Longrightarrow> limb_value ws (map2 (-) a b) = limb_value ws a - limb_value ws b"
proof -
  show "limb_value ws (map2 (+) a b) = limb_value ws a + limb_value ws b" if "length a = length b"
    using that by (induction a b arbitrary: ws rule: list_induct2) (simp, case_tac ws, simp_all add: algebra_simps)
  show "limb_value ws (map2 (-) a b) = limb_value ws a - limb_value ws b" if "length a = length b"
    using that by (induction a b arbitrary: ws rule: list_induct2) (simp, case_tac ws, simp_all add: algebra_simps)
qed

lemma limb_value_zero: "limb_value ws (s @ [0]) = limb_value ws s"
proof (induction s arbitrary: ws)
  case Nil
  then show ?case by (cases ws) simp_all
next
  case (Cons x s)
  then show ?case by (cases ws) simp_all
qed

lemma length_int_limbs [simp]: "length (int_limbs N) = 12"
  by (simp add: int_limbs_def)

lemma within_map2:
  assumes "within a rs" "within b rs" "list_all (\<lambda>r. fst r = 0) rs"
  shows "within (map2 (+) a b) (map (\<lambda>r. (0, 2 * snd r)) rs)" "within (map2 (-) a b) (map (\<lambda>r. (- snd r, snd r)) rs)"
proof -
  have l: "length a = length rs" "length b = length rs" using assms(1,2) by (simp_all add: within_def list_all2_lengthD)
  have n: "0 \<le> a ! i \<and> a ! i \<le> snd (rs ! i) \<and> 0 \<le> b ! i \<and> b ! i \<le> snd (rs ! i)" if "i < length rs" for i
    using assms that l withinD[OF assms(1), of i] withinD[OF assms(2), of i] by (simp add: list_all_length)
  show "within (map2 (+) a b) (map (\<lambda>r. (0, 2 * snd r)) rs)"
    unfolding within_def list_all2_conv_all_nth using l n by fastforce
  show "within (map2 (-) a b) (map (\<lambda>r. (- snd r, snd r)) rs)"
    unfolding within_def list_all2_conv_all_nth using l n by fastforce
qed

lemma short_ranges_low: "list_all (\<lambda>r. fst r = 0) short_ranges"
  by code_simp

lemma map2_word: "map2 (+) (map word_of_int a) (map word_of_int b) = (map word_of_int (map2 (+) a b) :: 64 word list)"
  "map2 (-) (map word_of_int a) (map word_of_int b) = (map word_of_int (map2 (-) a b) :: 64 word list)"
  by (simp_all add: zip_map1 zip_map2 map_zip_map case_prod_beta o_def)

lemma sc_add_value: "length a = 32 \<Longrightarrow> length b = 32 \<Longrightarrow> sc_add a b = scalar_of (int (le_to_nat a) + int (le_to_nat b))"
proof -
  assume l: "length a = 32" "length b = 32"
  let ?s = "map2 (+) (int_limbs (le_to_nat a)) (int_limbs (le_to_nat b))"
  have "within (?s @ [0]) (map (\<lambda>r. (0, 2 * snd r)) short_ranges @ [(0, 0)])"
    by (intro within_append within_map2 int_limbs_within short_ranges_low) (use bytes_less[OF l(1)] bytes_less[OF l(2)] in \<open>simp_all add: within_def\<close>)
  from good_code_stores[OF good_add this] show ?thesis
    using int_limbs_value[of "le_to_nat a"] int_limbs_value[of "le_to_nat b"]
    by (simp add: sc_add_def load_limbs_int l map2_word limb_value_zero limb_value_map2 scalar_of_def)
qed

lemma sc_sub_value: "length a = 32 \<Longrightarrow> length b = 32 \<Longrightarrow> sc_sub a b = scalar_of (int (le_to_nat a) - int (le_to_nat b))"
proof -
  assume l: "length a = 32" "length b = 32"
  let ?s = "map2 (-) (int_limbs (le_to_nat a)) (int_limbs (le_to_nat b))"
  have "within (?s @ [0]) (map (\<lambda>r. (- snd r, snd r)) short_ranges @ [(0, 0)])"
    by (intro within_append within_map2 int_limbs_within short_ranges_low) (use bytes_less[OF l(1)] bytes_less[OF l(2)] in \<open>simp_all add: within_def\<close>)
  from good_code_stores[OF good_sub this] show ?thesis
    using int_limbs_value[of "le_to_nat a"] int_limbs_value[of "le_to_nat b"]
    by (simp add: sc_sub_def load_limbs_int l map2_word limb_value_zero limb_value_map2 scalar_of_def)
qed

subsection \<open>Products\<close>

lemma limb_value_sum: "length s = n \<Longrightarrow> limb_value (map (\<lambda>k. 21 * k) [0..<n]) s = (\<Sum>k<n. s ! k * 2 ^ (21 * k))"
proof (induction n arbitrary: s)
  case (Suc n)
  obtain t x where s: "s = t @ [x]" "length t = n" using Suc.prems by (cases s rule: rev_cases) auto
  have "limb_value (map (\<lambda>k. 21 * k) [0..<Suc n]) s = limb_value (map (\<lambda>k. 21 * k) [0..<n]) t + x * 2 ^ (21 * n)"
    unfolding s(1) using s(2) by (simp add: limb_value_append)
  also have "limb_value (map (\<lambda>k. 21 * k) [0..<n]) t = (\<Sum>k<n. s ! k * 2 ^ (21 * k))"
    unfolding Suc.IH[OF s(2)] by (rule sum.cong) (simp_all add: s nth_append)
  finally show ?case using s by (simp add: nth_append)
qed simp

lemma product_sum:
  fixes a b :: "nat \<Rightarrow> int"
  shows "(\<Sum>k<23. (\<Sum>i\<in>{k - 11..<min (k + 1) 12}. a i * b (k - i)) * B ^ k) = (\<Sum>i<12. a i * B ^ i) * (\<Sum>j<12. b j * B ^ j)"
proof -
  have "(\<Sum>k<23. (\<Sum>i\<in>{k - 11..<min (k + 1) 12}. a i * b (k - i)) * B ^ k)
      = (\<Sum>k<23. \<Sum>i\<in>{k - 11..<min (k + 1) 12}. a i * b (k - i) * B ^ k)" by (simp only: sum_distrib_right)
  also have "\<dots> = (\<Sum>(k, i)\<in>(SIGMA k:{..<23}. {k - 11..<min (k + 1) 12}). a i * b (k - i) * B ^ k)" by (rule sum.Sigma) simp_all
  also have "\<dots> = (\<Sum>(i, j)\<in>{..<12} \<times> {..<12}. a i * b j * B ^ (i + j))"
    by (rule sum.reindex_bij_witness[where i = "\<lambda>(i, j). (i + j, i)" and j = "\<lambda>(k, i). (i, k - i)"]) auto
  also have "\<dots> = (\<Sum>i<12. \<Sum>j<12. (a i * B ^ i) * (b j * B ^ j))" by (simp add: sum.cartesian_product power_add algebra_simps)
  also have "\<dots> = (\<Sum>i<12. a i * B ^ i) * (\<Sum>j<12. b j * B ^ j)" by (rule sum_product[symmetric])
  finally show ?thesis .
qed

lemma weights_upt: "weights = map (\<lambda>k. 21 * k) [0..<13]" "wide_weights = map (\<lambda>k. 21 * k) [0..<24]"
  by code_simp+

lemma int_limbs_sum: "(\<Sum>i<12. int_limbs N ! i * (2 ^ 21) ^ i) = int N"
proof -
  have l: "length (int_limbs N @ [0]) = 13" and e: "(13 :: nat) = Suc 12" by simp_all
  have "int N = (\<Sum>k<13. (int_limbs N @ [0]) ! k * 2 ^ (21 * k))"
    using int_limbs_value[of N] unfolding weights_upt(1) limb_value_sum[OF l] by (rule sym)
  also have "\<dots> = (\<Sum>k<12. (int_limbs N @ [0]) ! k * 2 ^ (21 * k)) + (int_limbs N @ [0]) ! 12 * 2 ^ (21 * 12)"
    unfolding e sum.lessThan_Suc ..
  also have "(int_limbs N @ [0]) ! 12 * 2 ^ (21 * 12) = 0" by (simp add: nth_append)
  also have "(\<Sum>k<12. (int_limbs N @ [0]) ! k * 2 ^ (21 * k)) = (\<Sum>k<12. int_limbs N ! k * (2 ^ 21) ^ k)"
    by (rule sum.cong) (simp_all add: nth_append power_mult)
  finally show ?thesis by (simp only: add_0_right)
qed

definition int_products :: "int list \<Rightarrow> int list \<Rightarrow> nat \<Rightarrow> int" where
  "int_products a b k = (\<Sum>i\<in>{k - 11..<min (k + 1) 12}. a ! i * b ! (k - i))"

lemma limb_products_int:
  assumes "length a = 12" "length b = 12" "k < 23"
  shows "limb_products (map word_of_int a) (map word_of_int b) k = word_of_int (int_products a b k)"
proof -
  have "limb_products (map word_of_int a) (map word_of_int b) k
      = (\<Sum>i\<in>{k - 11..<min (k + 1) 12}. map word_of_int a ! i * map word_of_int b ! (k - i) :: 64 word)"
    unfolding limb_products_def by (simp only: sum_list_distinct_conv_sum_set[OF distinct_upt] set_upt)
  also have "\<dots> = (\<Sum>i\<in>{k - 11..<min (k + 1) 12}. word_of_int (a ! i * b ! (k - i)))"
    by (rule sum.cong) (use assms in auto)
  finally show ?thesis by (simp only: int_products_def of_int_sum)
qed

lemma int_limbs_less: "N < 2 ^ 256 \<Longrightarrow> i < 12 \<Longrightarrow> 0 \<le> int_limbs N ! i \<and> int_limbs N ! i \<le> 2 ^ 25"
proof -
  assume a: "N < 2 ^ 256" "i < 12"
  have "list_all (\<lambda>r. fst r = 0 \<and> snd r \<le> 2 ^ 25) short_ranges" by code_simp
  moreover have "length short_ranges = 12" by code_simp
  ultimately have "fst (short_ranges ! i) = 0 \<and> snd (short_ranges ! i) \<le> 2 ^ 25" using a(2) unfolding list_all_length by simp
  moreover have "fst (short_ranges ! i) \<le> int_limbs N ! i \<and> int_limbs N ! i \<le> snd (short_ranges ! i)"
    by (rule withinD[OF int_limbs_within[OF a(1)]]) (use a(2) in simp)
  ultimately show ?thesis by linarith
qed

lemma int_products_bounds:
  assumes "N < 2 ^ 256" "M < 2 ^ 256"
  shows "0 \<le> int_products (int_limbs N) (int_limbs M) k \<and> int_products (int_limbs N) (int_limbs M) k \<le> 12 * 2 ^ 50"
proof -
  have t: "0 \<le> int_limbs N ! i * int_limbs M ! (k - i) \<and> int_limbs N ! i * int_limbs M ! (k - i) \<le> 2 ^ 50"
    if "i \<in> {k - 11..<min (k + 1) 12}" for i
  proof -
    have i: "i < 12" "k - i < 12" using that by auto
    have "int_limbs N ! i * int_limbs M ! (k - i) \<le> 2 ^ 25 * 2 ^ 25"
      by (rule mult_mono) (use int_limbs_less[OF assms(1) i(1)] int_limbs_less[OF assms(2) i(2)] in auto)
    then show ?thesis using int_limbs_less[OF assms(1) i(1)] int_limbs_less[OF assms(2) i(2)] by simp
  qed
  have "int_products (int_limbs N) (int_limbs M) k \<le> of_nat (card {k - 11..<min (k + 1) 12}) * 2 ^ 50"
    unfolding int_products_def by (rule sum_bounded_above) (use t in blast)
  also have "\<dots> \<le> 12 * 2 ^ 50" by (intro mult_right_mono) auto
  finally have "int_products (int_limbs N) (int_limbs M) k \<le> 12 * 2 ^ 50" .
  moreover have "0 \<le> int_products (int_limbs N) (int_limbs M) k"
    unfolding int_products_def by (rule sum_nonneg) (use t in blast)
  ultimately show ?thesis by blast
qed

lemma nth_parts: "m \<le> n \<Longrightarrow> k < n \<Longrightarrow> (map f [0..<m] @ map g [m..<n] @ r) ! k = (if k < m then f k else g k)"
  by (cases "k < m") (simp_all add: nth_append diff_less_mono not_less)

lemma nth_last_part: "m \<le> n \<Longrightarrow> (map f [0..<m] @ map g [m..<n] @ [x]) ! n = x"
  by (simp add: nth_append)

definition int_differences :: "int list \<Rightarrow> int list \<Rightarrow> int list \<Rightarrow> int list" where
  "int_differences a b c =
     map (\<lambda>k. c ! k - int_products a b k) [0..<12] @ map (\<lambda>k. - int_products a b k) [12..<23] @ [0]"

lemma difference_limbs_int:
  assumes "length a = 32" "length b = 32" "length c = 32"
  defines "s \<equiv> int_differences (int_limbs (le_to_nat a)) (int_limbs (le_to_nat b)) (int_limbs (le_to_nat c))"
  shows "difference_limbs a b c = map word_of_int s \<and> within s (replicate 23 (- (2 ^ 54), 2 ^ 54) @ [(0, 0)]) \<and>
     limb_value wide_weights s = int (le_to_nat c) - int (le_to_nat a) * int (le_to_nat b)"
proof -
  let ?a = "int_limbs (le_to_nat a)" and ?b = "int_limbs (le_to_nat b)" and ?c = "int_limbs (le_to_nat c)"
  let ?P = "int_products ?a ?b"
  let ?s = "map (\<lambda>k. ?c ! k - ?P k) [0..<12] @ map (\<lambda>k. - ?P k) [12..<23] @ [0]"
  have less: "le_to_nat a < 2 ^ 256" "le_to_nat b < 2 ^ 256" "le_to_nat c < 2 ^ 256" using bytes_less[OF assms(1)] bytes_less[OF assms(2)] bytes_less[OF assms(3)] by simp_all
  have P: "0 \<le> ?P k \<and> ?P k \<le> 12 * 2 ^ 50" for k by (rule int_products_bounds[OF less(1,2)])
  have w: "map (\<lambda>k. load_limbs c ! k - limb_products (load_limbs a) (load_limbs b) k) [0..<12] @
      map (\<lambda>k. - limb_products (load_limbs a) (load_limbs b) k) [12..<23] @ [0] = map word_of_int ?s"
    by (simp add: load_limbs_int assms limb_products_int)
  have "within (map (\<lambda>k. ?c ! k - ?P k) [0..<12]) (replicate (length [0..<12]) (- (2 ^ 54), 2 ^ 54))"
  proof (rule within_map)
    fix k
    assume "k \<in> set [0..<12]"
    then have "0 \<le> ?c ! k \<and> ?c ! k \<le> 2 ^ 25" using int_limbs_less[OF less(3)] by simp
    then show "fst (- (2 ^ 54), 2 ^ 54) \<le> ?c ! k - ?P k \<and> ?c ! k - ?P k \<le> snd (- (2 ^ 54), 2 ^ 54)" using P[of k] by simp
  qed
  moreover have "within (map (\<lambda>k. - ?P k) [12..<23]) (replicate (length [12..<23]) (- (2 ^ 54), 2 ^ 54))"
  proof (rule within_map)
    fix k
    show "fst (- (2 ^ 54), 2 ^ 54) \<le> - ?P k \<and> - ?P k \<le> snd (- (2 ^ 54), 2 ^ 54)" using P[of k] by simp
  qed
  ultimately have "within ?s (replicate (length [0..<12]) (- (2 ^ 54), 2 ^ 54) @ replicate (length [12..<23]) (- (2 ^ 54), 2 ^ 54) @ [(0, 0)])"
    by (intro within_append) (simp_all add: within_def)
  moreover have "replicate (length [0..<12]) (- (2 ^ 54) :: int, 2 ^ 54 :: int) @ replicate (length [12..<23]) (- (2 ^ 54), 2 ^ 54) @ [(0, 0)]
      = replicate 23 (- (2 ^ 54), 2 ^ 54) @ [(0, 0)]"
    unfolding append_assoc[symmetric] replicate_add[symmetric] by simp
  ultimately have within: "within ?s (replicate 23 (- (2 ^ 54), 2 ^ 54) @ [(0, 0)])" by (simp only:)
  have nth: "?s ! k = (if k < 12 then ?c ! k else 0) - ?P k" if "k < 23" for k
    using that by (subst nth_parts) auto
  have last: "?s ! 23 = 0" by (rule nth_last_part) simp
  have "limb_value wide_weights ?s = (\<Sum>k<24. ?s ! k * 2 ^ (21 * k))"
    unfolding weights_upt(2) by (rule limb_value_sum) simp
  also have "\<dots> = (\<Sum>k<Suc 23. ?s ! k * 2 ^ (21 * k))" by (rule sum.cong[OF _ refl]) simp
  also have "\<dots> = (\<Sum>k<23. ?s ! k * 2 ^ (21 * k))" by (simp only: sum.lessThan_Suc last mult_zero_left add_0_right)
  also have "\<dots> = (\<Sum>k<23. (if k < 12 then ?c ! k * (2 ^ 21) ^ k else 0) - ?P k * (2 ^ 21) ^ k)"
  proof (rule sum.cong[OF refl])
    fix k :: nat
    assume "k \<in> {..<23}"
    then have "k < 23" by simp
    then show "?s ! k * 2 ^ (21 * k) = (if k < 12 then ?c ! k * (2 ^ 21) ^ k else 0) - ?P k * (2 ^ 21) ^ k"
      unfolding nth[OF \<open>k < 23\<close>] power_mult by (simp only: if_distrib[of "\<lambda>x. x * _"] left_diff_distrib mult_zero_left)
  qed
  also have "\<dots> = (\<Sum>k<23. if k < 12 then ?c ! k * (2 ^ 21) ^ k else 0) - (\<Sum>k<23. ?P k * (2 ^ 21) ^ k)" by (rule sum_subtractf)
  also have "(\<Sum>k<23. if k < 12 then ?c ! k * (2 ^ 21) ^ k else 0) = (\<Sum>k<12. ?c ! k * (2 ^ 21) ^ k)"
    by (rule sum.mono_neutral_cong_right) auto
  also have "(\<Sum>k<23. ?P k * (2 ^ 21) ^ k) = int (le_to_nat a) * int (le_to_nat b)"
    unfolding int_products_def product_sum int_limbs_sum ..
  finally have v: "limb_value wide_weights ?s = int (le_to_nat c) - int (le_to_nat a) * int (le_to_nat b)" by (simp only: int_limbs_sum)
  show ?thesis using w within v unfolding s_def int_differences_def difference_limbs_def Let_def by blast
qed

lemma sc_mulsub_value:
  assumes "length a = 32" "length b = 32" "length c = 32"
  shows "sc_mulsub a b c = scalar_of (int (le_to_nat c) - int (le_to_nat a) * int (le_to_nat b))"
proof -
  note s = difference_limbs_int[OF assms, THEN conjunct1] difference_limbs_int[OF assms, THEN conjunct2, THEN conjunct1]
    difference_limbs_int[OF assms, THEN conjunct2, THEN conjunct2]
  show ?thesis using good_code_stores[OF good_mulsub s(2)] unfolding sc_mulsub_def s(1,3) scalar_of_def .
qed

subsection \<open>Comparisons\<close>

lemma signum_int: "fits x \<Longrightarrow> fits (- x) \<Longrightarrow> signum (word_of_int x) = word_of_int (sgn x)"
proof -
  assume f: "fits x" "fits (- x)"
  have "y div 2 ^ 63 = (if y < 0 then - 1 else 0)" if "fits y" for y :: int
  proof (cases "y < 0")
    case True
    have "y div 2 ^ 63 = (y + 1 * 2 ^ 63) div 2 ^ 63 - 1" by (subst div_mult_self1) simp_all
    moreover have "(y + 1 * 2 ^ 63) div 2 ^ 63 = 0" by (rule div_pos_pos_trivial) (use that True in \<open>simp_all add: fits_def\<close>)
    ultimately show ?thesis using True by simp
  next
    case False
    then have "y div 2 ^ 63 = 0" by (intro div_pos_pos_trivial) (use that in \<open>simp_all add: fits_def\<close>)
    then show ?thesis using False by simp
  qed
  then show ?thesis using f signed_drop_bit_fits[OF f(1), of 63] signed_drop_bit_fits[OF f(2), of 63]
    by (auto simp: signum_def sgn_if simp flip: of_int_minus)
qed

fun digits_number :: "int list \<Rightarrow> int" where
  "digits_number [] = 0"
| "digits_number (x # xs) = x + 2 ^ 32 * digits_number xs"

fun digits_sign :: "int list \<Rightarrow> int" where
  "digits_sign [] = 0"
| "digits_sign (x # xs) = sgn x + 2 * digits_sign xs"

lemma digits_sign_number:
  "list_all (\<lambda>x. - (2 ^ 32) < x \<and> x < 2 ^ 32) xs \<Longrightarrow>
     (0 \<le> digits_number xs \<longleftrightarrow> 0 \<le> digits_sign xs) \<and> (digits_number xs = 0 \<longleftrightarrow> digits_sign xs = 0)"
proof (induction xs)
  case (Cons x xs)
  then have IH: "(0 \<le> digits_number xs \<longleftrightarrow> 0 \<le> digits_sign xs) \<and> (digits_number xs = 0 \<longleftrightarrow> digits_sign xs = 0)" by simp
  have x: "- (2 ^ 32) < x" "x < 2 ^ 32" using Cons.prems by simp_all
  have s: "- 1 \<le> sgn x" "sgn x \<le> 1" by (simp_all add: sgn_if)
  consider "digits_number xs = 0" | "1 \<le> digits_number xs" | "digits_number xs \<le> - 1" by linarith
  then show ?case
  proof cases
    case 1
    then show ?thesis using IH by (auto simp: sgn_if)
  next
    case 2
    then have "1 \<le> digits_sign xs" using IH by linarith
    then show ?thesis using 2 x s by simp
  next
    case 3
    then have "digits_sign xs \<le> - 1" using IH by linarith
    then show ?thesis using 3 x s by simp
  qed
qed simp

lemma digits_sign_bounds: "- (2 ^ length xs) < digits_sign xs \<and> digits_sign xs < 2 ^ length xs"
proof (induction xs)
  case (Cons x xs)
  have "- 1 \<le> sgn x" "sgn x \<le> 1" by (simp_all add: sgn_if)
  then show ?case using Cons by simp
qed simp

lemma limb_32: "k < 8 \<Longrightarrow> length s = 32 \<Longrightarrow> load_4 s (4 * k) = word_of_int (int (le_to_nat s div 2 ^ (32 * k) mod 2 ^ 32))"
  by (rule word_unat_int) (use load_4_value[of "4 * k" s] in simp)

lemma horner_32: "int (N div 2 ^ (32 * k)) = int (N div 2 ^ (32 * k) mod 2 ^ 32) + 2 ^ 32 * int (N div 2 ^ (32 * Suc k))"
proof -
  have "N div 2 ^ (32 * k) = N div 2 ^ (32 * k) mod 2 ^ 32 + 2 ^ 32 * (N div 2 ^ (32 * k) div 2 ^ 32)" by simp
  also have "N div 2 ^ (32 * k) div 2 ^ 32 = N div 2 ^ (32 * k + 32)" by (simp only: power_add div_mult2_eq)
  also have "32 * k + 32 = 32 * Suc k" by simp
  finally have "int (N div 2 ^ (32 * k)) = int (N div 2 ^ (32 * k) mod 2 ^ 32 + 2 ^ 32 * (N div 2 ^ (32 * Suc k)))" by (rule arg_cong)
  then show ?thesis by simp
qed

definition order_digits :: "int list" where
  "order_digits = [1559614444, 1477600026, 2734136534, 350157278, 0, 0, 0, 268435456]"

lemma sc_isvalid_value: "length s = 32 \<Longrightarrow> sc_isvalid_vartime s \<longleftrightarrow> int (le_to_nat s) < group_order"
proof -
  assume l: "length s = 32"
  define d where "d k = int (le_to_nat s div 2 ^ (32 * k) mod 2 ^ 32)" for k
  have load: "load_4 s 0 = word_of_int (d 0)" "load_4 s 4 = word_of_int (d 1)" "load_4 s 8 = word_of_int (d 2)" "load_4 s 12 = word_of_int (d 3)"
    "load_4 s 16 = word_of_int (d 4)" "load_4 s 20 = word_of_int (d 5)" "load_4 s 24 = word_of_int (d 6)" "load_4 s 28 = word_of_int (d 7)"
    using limb_32[of 0 s] limb_32[of 1 s] limb_32[of 2 s] limb_32[of 3 s] limb_32[of 4 s] limb_32[of 5 s] limb_32[of 6 s] limb_32[of 7 s] l
    by (simp_all add: d_def)
  have d: "0 \<le> d k \<and> d k < 2 ^ 32" for k
  proof -
    have "le_to_nat s div 2 ^ (32 * k) mod 2 ^ 32 < (2 :: nat) ^ 32" by simp
    then have "int (le_to_nat s div 2 ^ (32 * k) mod 2 ^ 32) < int (2 ^ 32)" by (simp only: of_nat_less_iff)
    then show ?thesis by (simp add: d_def)
  qed
  let ?x = "[1559614444 - d 0, 1477600026 - d 1, 2734136534 - d 2, 350157278 - d 3, - d 4, - d 5, - d 6, 268435456 - d 7]"
  have sg: "signum (word_of_int c - word_of_int (d k)) = word_of_int (sgn (c - d k))" if "0 \<le> c" "c < 2 ^ 32" for c k
    using signum_int[of "c - d k"] d[of k] that by (simp add: fits_def)
  have num: "digits_number ?x = group_order - 1 - int (le_to_nat s)"
  proof -
    have "le_to_nat s < 2 ^ 256" using bytes_less[OF l] by simp
    then have top: "le_to_nat s div 2 ^ (32 * 8) = 0" by simp
    define M where "M k = int (le_to_nat s div 2 ^ (32 * k))" for k
    have h: "M k = d k + 2 ^ 32 * M (Suc k)" for k unfolding M_def d_def by (rule horner_32)
    have "M 0 = d 0 + 2 ^ 32 * M 1" "M 1 = d 1 + 2 ^ 32 * M 2" "M 2 = d 2 + 2 ^ 32 * M 3" "M 3 = d 3 + 2 ^ 32 * M 4" "M 4 = d 4 + 2 ^ 32 * M 5"
      "M 5 = d 5 + 2 ^ 32 * M 6" "M 6 = d 6 + 2 ^ 32 * M 7" "M 7 = d 7 + 2 ^ 32 * M 8"
      using h[of 0] h[of 1] h[of 2] h[of 3] h[of 4] h[of 5] h[of 6] h[of 7] by (simp_all only: Suc_numeral One_nat_def[symmetric] Suc_1 semiring_norm)
    moreover have "M 0 = int (le_to_nat s)" "M 8 = 0" unfolding M_def top by simp_all
    ultimately have "int (le_to_nat s) = d 0 + 2 ^ 32 * (d 1 + 2 ^ 32 * (d 2 + 2 ^ 32 * (d 3 + 2 ^ 32 * (d 4 + 2 ^ 32 * (d 5 + 2 ^ 32 * (d 6 + 2 ^ 32 * d 7))))))"
      by (simp only: mult_zero_right add_0_right)
    then show ?thesis by (simp add: group_order_def)
  qed
  have small: "list_all (\<lambda>x. - (2 ^ 32) < x \<and> x < 2 ^ 32) ?x"
    using d[of 0] d[of 1] d[of 2] d[of 3] d[of 4] d[of 5] d[of 6] d[of 7] by simp
  let ?T = "digits_sign ?x"
  have T: "- 256 < ?T \<and> ?T < 256" using digits_sign_bounds[of ?x] by (simp only: list.size) simp
  have sum: "signum (1559614444 - word_of_int (d 0)) + push_bit 1 (signum (1477600026 - word_of_int (d 1))) +
      push_bit 2 (signum (2734136534 - word_of_int (d 2))) + push_bit 3 (signum (350157278 - word_of_int (d 3))) +
      push_bit 4 (signum (- word_of_int (d 4))) + push_bit 5 (signum (- word_of_int (d 5))) + push_bit 6 (signum (- word_of_int (d 6))) +
      push_bit 7 (signum (268435456 - word_of_int (d 7))) = word_of_int ?T"
    using sg[of 1559614444 0] sg[of 1477600026 1] sg[of 2734136534 2] sg[of 350157278 3] sg[of 0 4] sg[of 0 5] sg[of 0 6] sg[of 268435456 7]
    by (simp add: push_bit_eq_mult algebra_simps)
  have "- (2 ^ 63) \<le> (- 256 :: int)" "(256 :: int) \<le> 2 ^ 63" by simp_all
  then have f: "fits ?T" using T unfolding fits_def by linarith
  have "sc_isvalid_vartime s \<longleftrightarrow> signed_drop_bit 8 (word_of_int ?T :: 64 word) = 0"
    unfolding sc_isvalid_vartime_def Let_def load sum ..
  also have "\<dots> \<longleftrightarrow> (word_of_int (?T div 2 ^ 8) :: 64 word) = 0" unfolding signed_drop_bit_fits[OF f] ..
  also have "\<dots> \<longleftrightarrow> 0 \<le> ?T"
  proof (cases "0 \<le> ?T")
    case True
    then have "?T div 2 ^ 8 = 0" by (intro div_pos_pos_trivial) (use T in simp_all)
    then show ?thesis using True by simp
  next
    case False
    have "?T div 2 ^ 8 = (?T + 1 * 2 ^ 8) div 2 ^ 8 - 1" by (subst div_mult_self1) simp_all
    also have "(?T + 1 * 2 ^ 8) div 2 ^ 8 = 0" by (rule div_pos_pos_trivial) (use T False in simp_all)
    finally show ?thesis using False by simp
  qed
  also have "\<dots> \<longleftrightarrow> 0 \<le> digits_number ?x" using digits_sign_number[OF small] by blast
  finally show ?thesis unfolding num by linarith
qed

lemma or_zero: "foldl (OR) d n = 0 \<longleftrightarrow> d = 0 \<and> list_all (\<lambda>b. b = 0) (n :: bytes)"
  by (induction n arbitrary: d) (auto simp: or_eq_0_iff)

lemma sodium_is_zero_value: "sodium_is_zero n \<longleftrightarrow> list_all (\<lambda>b. b = 0) n"
proof -
  let ?d = "foldl (OR) 0 n"
  have "(1 :: 32 word) AND signed_drop_bit 8 (ucast d - 1) \<noteq> 0 \<longleftrightarrow> d = 0" for d :: byte
  proof (cases "d = 0")
    case True
    have "(1 :: 32 word) AND signed_drop_bit 8 (- 1) = 1" by code_simp
    then show ?thesis using True by simp
  next
    case False
    let ?w = "ucast d - 1 :: 32 word"
    have "unat d \<noteq> 0" using False by (simp add: unat_eq_0)
    then have "1 \<le> int (unat d)" "int (unat d) \<le> 255" using unat_byte_less[of d] by linarith+
    then have u: "1 \<le> uint d" "uint d \<le> 255" by simp_all
    have small: "1 \<le> x \<Longrightarrow> x \<le> 255 \<Longrightarrow> sint (word_of_int (x - 1) :: 32 word) = x - 1" for x :: int
      by (simp add: sint_sbintrunc' signed_take_bit_int_eq_self del: of_int_diff)
    have "?w = word_of_int (uint d - 1)" by simp
    then have "sint ?w = uint d - 1" by (simp only: small[OF u])
    then have "sint (signed_drop_bit 8 ?w) = (uint d - 1) div 2 ^ 8" by (simp only: sint_signed_drop_bit_eq drop_bit_eq_div)
    also have "\<dots> = 0" using u by (intro div_pos_pos_trivial) simp_all
    finally have "sint (signed_drop_bit 8 ?w) = 0" .
    moreover have "w = word_of_int (sint w)" for w :: "32 word" by transfer simp
    ultimately have "signed_drop_bit 8 ?w = 0" by (metis of_int_0)
    then show ?thesis using False by simp
  qed
  then show ?thesis by (simp add: sodium_is_zero_def or_zero)
qed

lemma sc_iszero_value: "sc_iszero s \<longleftrightarrow> le_to_nat s = 0"
  unfolding sc_iszero_def sodium_is_zero_value by (induction s) (auto simp: unat_eq_0)

section \<open>Properties\<close>

lemma group_order_pos: "0 < group_order"
  by (simp add: group_order_def)

lemma length_scalar_of [simp]: "length (scalar_of x) = 32"
  by (simp add: scalar_of_def)

lemma scalar_of_value [simp]: "int (le_to_nat (scalar_of x)) = x mod group_order"
proof -
  have "0 \<le> x mod group_order" "x mod group_order < 256 ^ 32"
    using pos_mod_bound[OF group_order_pos, of x] group_order_pos by (simp_all add: group_order_def)
  then show ?thesis by (simp add: scalar_of_def le_to_nat_nat_to_le nat_less_iff)
qed

lemma scalar_of_mod [simp]: "scalar_of (x mod group_order) = scalar_of x"
  by (simp add: scalar_of_def)

lemma scalar_of_le: "length s = 32 \<Longrightarrow> int (le_to_nat s) < group_order \<Longrightarrow> scalar_of (int (le_to_nat s)) = s"
  by (rule nat_to_le_inject) (simp_all add: scalar_of_def le_to_nat_nat_to_le nat_less_iff group_order_def)

text \<open>
  C12: (scalar_arithmetic_correct) The operations on scalars compute in the integers modulo the order of the group: the straight-line
  code on limbs of 21 bits gives the one reduced string of 32 bytes for the sum, the difference, the difference with a
  product and the remainder, for all byte strings of the length the code reads, reduced or not.
\<close>

theorem scalar_arithmetic_correct:
  "(length a = 32 \<longrightarrow> length b = 32 \<longrightarrow> length c = 32 \<longrightarrow> length w = 64 \<longrightarrow>
     sc_reduce32 a = scalar_of (int (le_to_nat a)) \<and>
     sc_reduce w = scalar_of (int (le_to_nat w)) \<and>
     sc_add a b = scalar_of (int (le_to_nat a) + int (le_to_nat b)) \<and>
     sc_sub a b = scalar_of (int (le_to_nat a) - int (le_to_nat b)) \<and>
     sc_mulsub a b c = scalar_of (int (le_to_nat c) - int (le_to_nat a) * int (le_to_nat b)) \<and>
     (sc_isvalid_vartime a \<longleftrightarrow> int (le_to_nat a) < group_order) \<and>
     (sc_iszero a \<longleftrightarrow> le_to_nat a = 0)) \<and>
   le_to_nat sc_0 = 0"
  by (simp add: sc_reduce32_value sc_reduce_value sc_add_value sc_sub_value sc_mulsub_value sc_isvalid_value sc_iszero_value)
    (simp add: sc_0_def eval_nat_numeral)

section \<open>No overflow\<close>

text \<open>
  The same computations on unbounded integers, from the signed values of the limbs that are loaded, with every intermediate result
  checked against the range of \<open>int64_t\<close>: the sums and differences limb by limb; the products of limbs, each added to the ones before it,
  and the differences from the sum; the steps (\<open>int_steps\<close>, where the shifts to the left are multiplications). The limbs that are stored
  are shifted to the left by at most seven bits.
\<close>

definition checked_all :: "int list \<Rightarrow> int list option" where
  "checked_all s = (if list_all fits s then Some s else None)"

fun checked_sum :: "int \<Rightarrow> int list \<Rightarrow> int option" where
  "checked_sum s [] = Some s"
| "checked_sum s (x # xs) = (if fits x \<and> fits (s + x) then checked_sum (s + x) xs else None)"

definition checked_products :: "int list \<Rightarrow> int list \<Rightarrow> nat \<Rightarrow> int option" where
  "checked_products a b k = checked_sum 0 (map (\<lambda>i. a ! i * b ! (k - i)) [k - 11..<min (k + 1) 12])"

definition checked_differences :: "int list \<Rightarrow> int list \<Rightarrow> int list \<Rightarrow> int list option" where
  "checked_differences a b c =
     (if list_all (\<lambda>k. checked_products a b k \<noteq> None) [0..<23]
      then checked_all (map (\<lambda>k. c ! k - the (checked_products a b k)) [0..<12] @ map (\<lambda>k. - the (checked_products a b k)) [12..<23] @ [0])
      else None)"

definition shiftable :: "int list \<Rightarrow> bool" where
  "shiftable s \<longleftrightarrow> list_all (\<lambda>x. 0 \<le> x \<and> fits (x * 2 ^ 7)) (take 12 s)"

definition no_overflow :: "step list \<Rightarrow> 64 word list \<Rightarrow> bool" where
  "no_overflow sts w \<longleftrightarrow>
     int_steps (map sint w) sts = Some (map sint (run_steps sts w)) \<and> shiftable (map sint (run_steps sts w))"

text \<open>The results of checked steps are in range, and then the words are the integers.\<close>

lemma fits_0 [simp]: "fits 0"
  by (simp add: fits_def)

lemma int_multiples_fits: "int_multiples x s ms = Some s' \<Longrightarrow> list_all fits s \<Longrightarrow> list_all fits s'"
  by (induction x s ms rule: int_multiples.induct) (auto simp: list_all_length nth_list_update split: if_splits)

lemma int_step_fits: "int_step s st = Some s' \<Longrightarrow> list_all fits s \<Longrightarrow> list_all fits s'"
proof (induction s st rule: int_step.induct)
  case (1 s r b i j m)
  then show ?case by (auto simp: Let_def list_all_length nth_list_update split: if_splits)
next
  case (2 s i ms)
  then obtain t where t: "int_multiples (s ! i) s ms = Some t" "s' = t[i := 0]" by (auto split: if_splits)
  have "fits (t[i := 0] ! n)" if "n < length t" for n
    using int_multiples_fits[OF t(1) 2(2)] that by (cases "n = i") (simp_all add: list_all_length)
  then show ?case by (simp add: t(2) list_all_length)
qed

lemma int_steps_fits: "int_steps s sts = Some s' \<Longrightarrow> list_all fits s \<Longrightarrow> list_all fits s'"
  by (induction sts arbitrary: s) (auto simp: bind_eq_Some_conv dest: int_step_fits)

lemma map_sint_fits: "list_all fits s \<Longrightarrow> map sint (map word_of_int s :: 64 word list) = s"
  by (induction s) (simp_all add: sint_word_of_int_fits)

lemma packable_shiftable: "packable s \<Longrightarrow> shiftable s"
proof -
  assume p: "packable s"
  have "0 \<le> s ! i \<and> fits (s ! i * 2 ^ 7)" if "i < 12" for i
    using packable_nth[OF p that] by (simp add: fits_def)
  then show ?thesis by (simp add: shiftable_def list_all_length)
qed

lemma no_overflow_code:
  assumes "good_code ws rs sts" and "within s rs" and "list_all fits s"
  shows "no_overflow (sts @ final_steps) (map word_of_int s)"
proof -
  obtain s' where s': "int_steps s (sts @ final_steps) = Some s'" "packable s'" using good_code_reduces[OF assms(1,2)] by blast
  show ?thesis unfolding no_overflow_def
    using s'(1) packable_shiftable[OF s'(2)] by (simp only: run_steps_int[OF s'(1)] map_sint_fits[OF assms(3)] map_sint_fits[OF int_steps_fits[OF s'(1) assms(3)]])
qed

lemma within_fits: "within s rs \<Longrightarrow> list_all range_fits rs \<Longrightarrow> list_all fits s"
proof -
  assume w: "within s rs" and r: "list_all range_fits rs"
  have "fits (s ! i)" if "i < length s" for i
  proof (rule fits_range)
    show "range_fits (rs ! i)" using r that within_length[OF w] by (simp add: list_all_length)
  qed (use withinD[OF w that] in simp_all)
  then show ?thesis by (simp add: list_all_length)
qed

lemma ranges_fit:
  "list_all range_fits short_ranges"
  "list_all range_fits (map (\<lambda>r. (0, 2 * snd r)) short_ranges)"
  "list_all range_fits (map (\<lambda>r. (- snd r, snd r)) short_ranges)"
  "list_all range_fits (replicate 23 limb_range @ [(0, 2 ^ 29 - 1)])"
  "list_all range_fits (replicate 23 (- (2 ^ 54), 2 ^ 54) @ [(0, 0)])"
  by code_simp+

lemma checked_sum_small:
  "list_all (\<lambda>x. 0 \<le> x \<and> x \<le> 2 ^ 50) xs \<Longrightarrow> 0 \<le> s \<Longrightarrow> s + int (length xs) * 2 ^ 50 < 2 ^ 63 \<Longrightarrow> checked_sum s xs = Some (s + sum_list xs)"
proof (induction xs arbitrary: s)
  case (Cons x xs)
  have "0 \<le> int (length xs) * 2 ^ 50" by simp
  then have "fits x" "fits (s + x)" "s + x + int (length xs) * 2 ^ 50 < 2 ^ 63" using Cons.prems by (simp_all add: fits_def algebra_simps)
  then show ?case using Cons.IH[of "s + x"] Cons.prems by (simp add: add.assoc)
qed simp

lemma checked_products_limbs:
  assumes "N < 2 ^ 256" "M < 2 ^ 256"
  shows "checked_products (int_limbs N) (int_limbs M) k = Some (int_products (int_limbs N) (int_limbs M) k)"
proof -
  let ?xs = "map (\<lambda>i. int_limbs N ! i * int_limbs M ! (k - i)) [k - 11..<min (k + 1) 12]"
  have "0 \<le> int_limbs N ! i * int_limbs M ! (k - i) \<and> int_limbs N ! i * int_limbs M ! (k - i) \<le> 2 ^ 50"
    if "i \<in> {k - 11..<min (k + 1) 12}" for i
  proof -
    have i: "i < 12" "k - i < 12" using that by auto
    have "int_limbs N ! i * int_limbs M ! (k - i) \<le> 2 ^ 25 * 2 ^ 25"
      by (rule mult_mono) (use int_limbs_less[OF assms(1) i(1)] int_limbs_less[OF assms(2) i(2)] in auto)
    then show ?thesis using int_limbs_less[OF assms(1) i(1)] int_limbs_less[OF assms(2) i(2)] by simp
  qed
  then have "list_all (\<lambda>x. 0 \<le> x \<and> x \<le> 2 ^ 50) ?xs" by (auto simp: list_all_iff)
  moreover have "0 + int (length ?xs) * 2 ^ 50 < 2 ^ 63"
  proof -
    have "length ?xs \<le> 12" by (simp, linarith)
    then have "int (length ?xs) * 2 ^ 50 \<le> 12 * 2 ^ 50" by (intro mult_right_mono) simp_all
    also have "\<dots> < (2 :: int) ^ 63" by simp
    finally show ?thesis by (simp only: add_0_left)
  qed
  ultimately have "checked_sum 0 ?xs = Some (0 + sum_list ?xs)" by (intro checked_sum_small) simp_all
  then show ?thesis unfolding checked_products_def int_products_def
    by (simp only: add_0_left sum_list_distinct_conv_sum_set[OF distinct_upt] set_upt)
qed

lemma load_limbs_sint:
  assumes "length s = 32"
  shows "map sint (load_limbs s) = int_limbs (le_to_nat s)" "map uint (load_limbs s) = int_limbs (le_to_nat s)"
proof -
  have less: "le_to_nat s < 2 ^ 256" using bytes_less[OF assms] by simp
  have w: "within (int_limbs (le_to_nat s)) short_ranges" by (rule int_limbs_within[OF less])
  show "map sint (load_limbs s) = int_limbs (le_to_nat s)"
    unfolding load_limbs_int[OF assms] by (rule map_sint_fits[OF within_fits[OF w ranges_fit(1)]])
  have "uint (word_of_int x :: 64 word) = x" if "x \<in> set (int_limbs (le_to_nat s))" for x
  proof -
    obtain i where "i < 12" "x = int_limbs (le_to_nat s) ! i" using \<open>x \<in> _\<close> by (auto simp: in_set_conv_nth)
    then have "0 \<le> x \<and> x \<le> 2 ^ 25" using int_limbs_less[OF less] by blast
    then show ?thesis by (simp add: uint_word_of_int)
  qed
  then show "map uint (load_limbs s) = int_limbs (le_to_nat s)"
    unfolding load_limbs_int[OF assms] by (simp add: map_idI)
qed

text \<open>
  C14: (scalar_code_has_no_overflow) In \<open>sc_reduce\<close>, \<open>sc_reduce32\<close>, \<open>sc_add\<close>, \<open>sc_sub\<close> and \<open>sc_mulsub\<close> no variable and no
  intermediate result of type \<open>int64_t\<close> overflows, on any scalars: the limbs that are loaded keep their unsigned value, and the computation on integers that checks every
  sum, product, partial sum and step against the range of the type, begun with the signed values of the loaded limbs, succeeds and gives at each stage the signed
  values of the words of the code; the stored limbs can be shifted. (\<open>sc_isvalid_vartime\<close> is not part of this.)
\<close>

theorem scalar_code_has_no_overflow:
  assumes "length a = 32" "length b = 32" "length c = 32" "length w = 64"
  shows "map sint (load_limbs a) = map uint (load_limbs a) \<and> map sint (load_wide_limbs w) = map uint (load_wide_limbs w) \<and>
     no_overflow (short_steps @ final_steps) (load_limbs a @ [0]) \<and>
     no_overflow (wide_steps @ final_steps) (load_wide_limbs w) \<and>
     checked_all (map2 (+) (map sint (load_limbs a)) (map sint (load_limbs b))) = Some (map sint (map2 (+) (load_limbs a) (load_limbs b))) \<and>
     no_overflow (short_steps @ final_steps) (map2 (+) (load_limbs a) (load_limbs b) @ [0]) \<and>
     checked_all (map2 (-) (map sint (load_limbs a)) (map sint (load_limbs b))) = Some (map sint (map2 (-) (load_limbs a) (load_limbs b))) \<and>
     no_overflow (short_steps @ final_steps) (map2 (-) (load_limbs a) (load_limbs b) @ [0]) \<and>
     checked_differences (map sint (load_limbs a)) (map sint (load_limbs b)) (map sint (load_limbs c)) = Some (map sint (difference_limbs a b c)) \<and>
     no_overflow (product_steps @ final_steps) (difference_limbs a b c)"
proof -
  note l = assms
  let ?A = "int_limbs (le_to_nat a)" and ?B = "int_limbs (le_to_nat b)" and ?C = "int_limbs (le_to_nat c)" and ?W = "int_wide_limbs (le_to_nat w)"
  have less: "le_to_nat a < 2 ^ 256" "le_to_nat b < 2 ^ 256" "le_to_nat w < 2 ^ 512"
    using bytes_less[OF l(1)] bytes_less[OF l(2)] bytes_less[OF l(4)] by simp_all
  have z: "within [0] [(0, 0)]" by (simp add: within_def)
  note wa = int_limbs_within[OF less(1)] and wb = int_limbs_within[OF less(2)] and ww = int_wide_limbs_within[OF less(3)]
  note wp = within_map2(1)[OF wa wb short_ranges_low] and wm = within_map2(2)[OF wa wb short_ranges_low]
  note fa = within_fits[OF wa ranges_fit(1)] and fw = within_fits[OF ww ranges_fit(4)]
    and fp = within_fits[OF wp ranges_fit(2)] and fm = within_fits[OF wm ranges_fit(3)]
  note d = difference_limbs_int[OF l(1-3), THEN conjunct1] difference_limbs_int[OF l(1-3), THEN conjunct2, THEN conjunct1]
  note fd = within_fits[OF d(2) ranges_fit(5)]
  note words = load_limbs_int[OF l(1)] load_limbs_int[OF l(2)] load_wide_limbs_int[OF l(4)]
  have W: "map sint (load_wide_limbs w) = map uint (load_wide_limbs w)"
  proof -
    have "uint (word_of_int x :: 64 word) = x" if "x \<in> set ?W" for x
    proof -
      have "list_all (\<lambda>r. 0 \<le> fst r \<and> snd r < 2 ^ 64) (replicate 23 limb_range @ [(0, 2 ^ 29 - 1)])" by code_simp
      then have "0 \<le> x \<and> x < 2 ^ 64" using ww that
        by (force simp: within_def list_all_length list_all2_conv_all_nth in_set_conv_nth)
      then show ?thesis by (simp add: uint_word_of_int)
    qed
    then show ?thesis unfolding words(3) map_sint_fits[OF fw] by (simp add: map_idI)
  qed
  have s1: "no_overflow (short_steps @ final_steps) (load_limbs a @ [0])"
    using no_overflow_code[OF good_reduce32 within_append[OF wa z]] fa by (simp add: words)
  have s2: "no_overflow (wide_steps @ final_steps) (load_wide_limbs w)"
    using no_overflow_code[OF good_reduce ww fw] by (simp only: words)
  have p: "map2 (+) (load_limbs a) (load_limbs b) = map word_of_int (map2 (+) ?A ?B)"
    and m: "map2 (-) (load_limbs a) (load_limbs b) = map word_of_int (map2 (-) ?A ?B)"
    by (simp_all only: words map2_word)
  have s3: "no_overflow (short_steps @ final_steps) (map2 (+) (load_limbs a) (load_limbs b) @ [0])"
    using no_overflow_code[OF good_add within_append[OF wp z]] fp unfolding p by simp
  have s4: "no_overflow (short_steps @ final_steps) (map2 (-) (load_limbs a) (load_limbs b) @ [0])"
    using no_overflow_code[OF good_sub within_append[OF wm z]] fm unfolding m by simp
  have "checked_differences ?A ?B ?C = Some (int_differences ?A ?B ?C)"
    unfolding checked_differences_def checked_products_limbs[OF less(1,2)]
    using fd[unfolded int_differences_def] by (simp add: checked_all_def int_differences_def list_all_iff del: upt_rec_numeral)
  then show ?thesis using W s1 s2 s3 s4 no_overflow_code[OF good_mulsub d(2) fd] load_limbs_sint(2)[OF l(1)] fp fm
    unfolding p m d(1) load_limbs_sint(1)[OF l(1)] load_limbs_sint(1)[OF l(2)] load_limbs_sint(1)[OF l(3)]
    by (simp only: map_sint_fits[OF fp] map_sint_fits[OF fm] map_sint_fits[OF fd] checked_all_def if_True simp_thms)
qed

text \<open>Both theorems at concrete scalars: the order itself reduces to zero, and is not a valid scalar.\<close>

definition order_bytes :: bytes where
  "order_bytes = nat_to_le 32 (nat group_order)"

lemma order_bytes_value: "length order_bytes = 32" "le_to_nat order_bytes = nat group_order"
proof -
  show "length order_bytes = 32" by (simp only: order_bytes_def length_nat_to_le)
  have "nat group_order < 256 ^ 32" by (simp add: group_order_def)
  then show "le_to_nat order_bytes = nat group_order" by (simp only: order_bytes_def le_to_nat_nat_to_le mod_less)
qed

theorem scalar_arithmetic_correct_witness:
  "sc_reduce32 order_bytes = scalar_of 0 \<and> \<not> sc_isvalid_vartime order_bytes"
  using scalar_arithmetic_correct[of order_bytes order_bytes order_bytes "replicate 64 0"] order_bytes_value group_order_pos
  by (simp add: scalar_of_def)

theorem scalar_code_has_no_overflow_witness:
  "checked_differences (map sint (load_limbs order_bytes)) (map sint (load_limbs order_bytes)) (map sint (load_limbs order_bytes)) =
     Some (map sint (difference_limbs order_bytes order_bytes order_bytes)) \<and>
   no_overflow (product_steps @ final_steps) (difference_limbs order_bytes order_bytes order_bytes)"
  using scalar_code_has_no_overflow[of order_bytes order_bytes order_bytes "replicate 64 0"] order_bytes_value(1) by simp

end
