(* ===== verification/Crypto.thy ===== *)
theory Crypto
  imports Scalar Keccak Varint
begin

text \<open>
  Keys and signatures: \<open>src/src/crypto/crypto.cpp\<close>, over the scalars of \<^verbatim>\<open>Scalar\<close> and the hash of \<^verbatim>\<open>Keccak\<close>. The points of the
  curve and the operations on them (\<open>ge_*\<close> of \<open>crypto-ops.c\<close>) are the fields of a record; the conversions
  between the representations of a point do not change it. The laws that the theorems need of them are those of
  a commutative group of points with an encoding. The source of random bytes is an argument with its own state.

  The assertions on arguments are modelled; \<open>assert(false)\<close> on a corrupted key, where the functions have just reported the
  corruption to the caller, is that of the release build, which goes on to return \<open>false\<close>.
\<close>

record 'p curve =
  ge_frombytes :: "bytes \<Rightarrow> 'p option"
  ge_tobytes :: "'p \<Rightarrow> bytes"
  ge_scalarmult_base :: "bytes \<Rightarrow> 'p"
  ge_scalarmult :: "bytes \<Rightarrow> 'p \<Rightarrow> 'p"
  ge_mul8 :: "'p \<Rightarrow> 'p"
  ge_add :: "'p \<Rightarrow> 'p \<Rightarrow> 'p"
  ge_sub :: "'p \<Rightarrow> 'p \<Rightarrow> 'p"
  ge_double_scalarmult_base :: "bytes \<Rightarrow> 'p \<Rightarrow> bytes \<Rightarrow> 'p"
  ge_double_scalarmult_precomp :: "bytes \<Rightarrow> 'p \<Rightarrow> bytes \<Rightarrow> 'p \<Rightarrow> 'p"
  ge_check_subgroup :: "'p \<Rightarrow> bool"
  ge_fromfe_frombytes :: "bytes \<Rightarrow> 'p"

type_synonym 'g random = "nat \<Rightarrow> 'g \<Rightarrow> bytes \<times> 'g"

section \<open>The code\<close>

subsection \<open>Keys\<close>

definition random_scalar :: "'g random \<Rightarrow> 'g \<Rightarrow> bytes \<times> 'g" where
  "random_scalar rand g = (let (tmp, g') = rand 64 g in (sc_reduce tmp, g'))"

definition hash_to_scalar :: "bytes \<Rightarrow> bytes" where
  "hash_to_scalar data = sc_reduce32 (cn_fast_hash data)"

definition random_keypair :: "'p curve \<Rightarrow> 'g random \<Rightarrow> 'g \<Rightarrow> (bytes \<times> bytes) \<times> 'g" where
  "random_keypair C rand g = (let (sec, g') = random_scalar rand g in ((ge_tobytes C (ge_scalarmult_base C sec), sec), g'))"

definition key_isvalid :: "'p curve \<Rightarrow> bytes \<Rightarrow> bool" where
  "key_isvalid C key \<longleftrightarrow> ge_frombytes C key \<noteq> None"

definition secret_key_to_public_key :: "'p curve \<Rightarrow> bytes \<Rightarrow> bytes option" where
  "secret_key_to_public_key C sec =
     (if \<not> sc_isvalid_vartime sec then None else Some (ge_tobytes C (ge_scalarmult_base C sec)))"

definition keys_match :: "'p curve \<Rightarrow> bytes \<Rightarrow> bytes \<Rightarrow> bool" where
  "keys_match C secret_key expected_public_key \<longleftrightarrow> secret_key_to_public_key C secret_key = Some expected_public_key"

definition generate_key_derivation :: "'p curve \<Rightarrow> bytes \<Rightarrow> bytes \<Rightarrow> bytes option result" where
  "generate_key_derivation C key1 key2 =
     (if \<not> sc_isvalid_vartime key2 then Inl AssertFailed
      else case ge_frombytes C key1 of
             None \<Rightarrow> Inr None
           | Some point \<Rightarrow> Inr (Some (ge_tobytes C (ge_mul8 C (ge_scalarmult C key2 point)))))"

text \<open>The copy of \<open>write_varint\<close> in this file.\<close>

function write_index :: "u64 \<Rightarrow> bytes" where
  "write_index i = (if 0x80 \<le> i then ((ucast i AND 0x7f) OR 0x80) # write_index (drop_bit 7 i) else [ucast i])"
  by pat_completeness auto
termination
  by (relation "measure unat") (auto simp: unat_drop_bit word_le_nat_alt)

declare write_index.simps [simp del]

definition derivation_to_scalar :: "bytes \<Rightarrow> u64 \<Rightarrow> bytes" where
  "derivation_to_scalar derivation output_index = hash_to_scalar (derivation @ write_index output_index)"

definition derivation_to_scalar_suffix :: "bytes \<Rightarrow> u64 \<Rightarrow> bytes \<Rightarrow> bytes result" where
  "derivation_to_scalar_suffix derivation output_index suffix =
     (if 32 < length suffix then Inl AssertFailed else Inr (hash_to_scalar (derivation @ write_index output_index @ suffix)))"

definition derive_public_key :: "'p curve \<Rightarrow> bytes \<Rightarrow> u64 \<Rightarrow> bytes \<Rightarrow> bytes option" where
  "derive_public_key C derivation output_index base =
     (case ge_frombytes C base of
        None \<Rightarrow> None
      | Some point1 \<Rightarrow>
          let scalar = derivation_to_scalar derivation output_index
          in Some (ge_tobytes C (ge_add C point1 (ge_scalarmult_base C scalar))))"

definition derive_public_key_suffix :: "'p curve \<Rightarrow> bytes \<Rightarrow> u64 \<Rightarrow> bytes \<Rightarrow> bytes \<Rightarrow> bytes option result" where
  "derive_public_key_suffix C derivation output_index base suffix =
     (case ge_frombytes C base of
        None \<Rightarrow> Inr None
      | Some point1 \<Rightarrow>
          bindR (derivation_to_scalar_suffix derivation output_index suffix) (\<lambda>scalar.
            Inr (Some (ge_tobytes C (ge_add C point1 (ge_scalarmult_base C scalar))))))"

definition underive_public_key_and_get_scalar :: "'p curve \<Rightarrow> bytes \<Rightarrow> u64 \<Rightarrow> bytes \<Rightarrow> (bytes \<times> bytes) option" where
  "underive_public_key_and_get_scalar C derivation output_index derived_key =
     (case ge_frombytes C derived_key of
        None \<Rightarrow> None
      | Some point1 \<Rightarrow>
          let hashed_derivation = derivation_to_scalar derivation output_index
          in Some (ge_tobytes C (ge_sub C point1 (ge_scalarmult_base C hashed_derivation)), hashed_derivation))"

definition derive_secret_key :: "bytes \<Rightarrow> u64 \<Rightarrow> bytes \<Rightarrow> bytes result" where
  "derive_secret_key derivation output_index base =
     (if \<not> sc_isvalid_vartime base then Inl AssertFailed
      else Inr (sc_add base (derivation_to_scalar derivation output_index)))"

definition derive_secret_key_suffix :: "bytes \<Rightarrow> u64 \<Rightarrow> bytes \<Rightarrow> bytes \<Rightarrow> bytes result" where
  "derive_secret_key_suffix derivation output_index base suffix =
     (if \<not> sc_isvalid_vartime base then Inl AssertFailed
      else bindR (derivation_to_scalar_suffix derivation output_index suffix) (\<lambda>scalar. Inr (sc_add base scalar)))"

definition underive_public_key :: "'p curve \<Rightarrow> bytes \<Rightarrow> u64 \<Rightarrow> bytes \<Rightarrow> bytes option" where
  "underive_public_key C derivation output_index derived_key =
     (case ge_frombytes C derived_key of
        None \<Rightarrow> None
      | Some point1 \<Rightarrow>
          let scalar = derivation_to_scalar derivation output_index
          in Some (ge_tobytes C (ge_sub C point1 (ge_scalarmult_base C scalar))))"

definition underive_public_key_suffix :: "'p curve \<Rightarrow> bytes \<Rightarrow> u64 \<Rightarrow> bytes \<Rightarrow> bytes \<Rightarrow> bytes option result" where
  "underive_public_key_suffix C derivation output_index derived_key suffix =
     (case ge_frombytes C derived_key of
        None \<Rightarrow> Inr None
      | Some point1 \<Rightarrow>
          bindR (derivation_to_scalar_suffix derivation output_index suffix) (\<lambda>scalar.
            Inr (Some (ge_tobytes C (ge_sub C point1 (ge_scalarmult_base C scalar))))))"

subsection \<open>Signatures\<close>

record signature =
  sig_c :: bytes
  sig_r :: bytes

definition signature_bytes :: "signature \<Rightarrow> bytes" where
  "signature_bytes sig = sig_c sig @ sig_r sig"

definition signature_of_bytes :: "bytes \<Rightarrow> signature" where
  "signature_of_bytes bs = \<lparr>sig_c = take 32 bs, sig_r = drop 32 bs\<rparr>"

definition s_comm :: "bytes \<Rightarrow> bytes \<Rightarrow> bytes \<Rightarrow> bytes" where
  "s_comm h key comm = h @ key @ comm"

definition generate_signature :: "'p curve \<Rightarrow> 'g random \<Rightarrow> bytes \<Rightarrow> bytes \<Rightarrow> bytes \<Rightarrow> 'g \<Rightarrow> (signature \<times> 'g) result" where
  "generate_signature C rand prefix_hash pub sec g =
     (if \<not> sc_isvalid_vartime sec \<or> pub \<noteq> ge_tobytes C (ge_scalarmult_base C sec) then Inl AssertFailed
      else let (k, g') = random_scalar rand g;
               c = hash_to_scalar (s_comm prefix_hash pub (ge_tobytes C (ge_scalarmult_base C k)))
           in Inr (\<lparr>sig_c = c, sig_r = sc_mulsub c sec k\<rparr>, g'))"

text \<open>The result and the flag \<open>key_corrupted\<close>.\<close>

definition check_signature :: "'p curve \<Rightarrow> bytes \<Rightarrow> bytes \<Rightarrow> signature \<Rightarrow> bool \<times> bool" where
  "check_signature C prefix_hash pub sig =
     (case ge_frombytes C pub of
        None \<Rightarrow> (False, True)
      | Some tmp3 \<Rightarrow>
          if \<not> sc_isvalid_vartime (sig_c sig) \<or> \<not> sc_isvalid_vartime (sig_r sig) then (False, False)
          else let tmp2 = ge_double_scalarmult_base C (sig_c sig) tmp3 (sig_r sig);
                   c = hash_to_scalar (s_comm prefix_hash pub (ge_tobytes C tmp2))
               in (sc_iszero (sc_sub c (sig_c sig)), False))"

definition hash_to_ec_point :: "'p curve \<Rightarrow> bytes \<Rightarrow> 'p" where
  "hash_to_ec_point C key = ge_mul8 C (ge_fromfe_frombytes C (cn_fast_hash key))"

definition hash_to_ec :: "'p curve \<Rightarrow> bytes \<Rightarrow> bytes" where
  "hash_to_ec C key = ge_tobytes C (hash_to_ec_point C key)"

definition generate_key_image :: "'p curve \<Rightarrow> bytes \<Rightarrow> bytes \<Rightarrow> bytes result" where
  "generate_key_image C pub sec =
     (if \<not> sc_isvalid_vartime sec then Inl AssertFailed else Inr (ge_tobytes C (ge_scalarmult C sec (hash_to_ec_point C pub))))"

subsection \<open>Ring signatures\<close>

text \<open>The two commitments of a key of the ring that is checked or simulated.\<close>

definition ring_commitments :: "'p curve \<Rightarrow> 'p \<Rightarrow> bytes \<Rightarrow> 'p \<Rightarrow> signature \<Rightarrow> bytes" where
  "ring_commitments C image_unp pub tmp3 sig =
     ge_tobytes C (ge_double_scalarmult_base C (sig_c sig) tmp3 (sig_r sig)) @
     ge_tobytes C (ge_double_scalarmult_precomp C (sig_r sig) (hash_to_ec_point C pub) (sig_c sig) image_unp)"

text \<open>The loop of \<open>generate_ring_signature\<close> from index \<open>i\<close>: the buffer, the signatures, the sum of the \<open>c\<close> and \<open>k\<close>.\<close>

fun generate_ring_loop ::
  "'p curve \<Rightarrow> 'g random \<Rightarrow> 'p \<Rightarrow> nat \<Rightarrow> nat \<Rightarrow> bytes list \<Rightarrow> bytes \<times> signature list \<times> bytes \<times> bytes \<Rightarrow> 'g \<Rightarrow>
     ((bytes \<times> signature list \<times> bytes \<times> bytes) \<times> 'g) option" where
  "generate_ring_loop C rand image_unp sec_index i [] st g = Some (st, g)"
| "generate_ring_loop C rand image_unp sec_index i (pub # pubs) (buf, sigs, csum, k) g =
     (if i = sec_index then
        let (k', g1) = random_scalar rand g;
            a = ge_tobytes C (ge_scalarmult_base C k');
            b = ge_tobytes C (ge_scalarmult C k' (hash_to_ec_point C pub))
        in generate_ring_loop C rand image_unp sec_index (i + 1) pubs (buf @ a @ b, sigs @ [\<lparr>sig_c = [], sig_r = []\<rparr>], csum, k') g1
      else
        let (c, g1) = random_scalar rand g; (r, g2) = random_scalar rand g1; sig = \<lparr>sig_c = c, sig_r = r\<rparr>
        in case ge_frombytes C pub of
             None \<Rightarrow> None
           | Some tmp3 \<Rightarrow>
               generate_ring_loop C rand image_unp sec_index (i + 1) pubs
                 (buf @ ring_commitments C image_unp pub tmp3 sig, sigs @ [sig], sc_add csum c, k) g2)"

definition generate_ring_signature ::
  "'p curve \<Rightarrow> 'g random \<Rightarrow> bytes \<Rightarrow> bytes \<Rightarrow> bytes list \<Rightarrow> bytes \<Rightarrow> nat \<Rightarrow> 'g \<Rightarrow> (signature list \<times> 'g) option result" where
  "generate_ring_signature C rand prefix_hash key_image pubs sec sec_index g =
     (if length pubs \<le> sec_index then Inr None
      else if \<not> sc_isvalid_vartime sec \<or> pubs ! sec_index \<noteq> ge_tobytes C (ge_scalarmult_base C sec) then Inl AssertFailed
      else bindR (generate_key_image C (pubs ! sec_index) sec) (\<lambda>t3.
        if key_image \<noteq> t3 then Inl AssertFailed
        else case ge_frombytes C key_image of
               None \<Rightarrow> Inr None
             | Some image_unp \<Rightarrow>
                 (case generate_ring_loop C rand image_unp sec_index 0 pubs (prefix_hash, [], sc_0, []) g of
                    None \<Rightarrow> Inr None
                  | Some ((buf, sigs, csum, k), g') \<Rightarrow>
                      let h = hash_to_scalar buf; c = sc_sub h csum; r = sc_mulsub c sec k
                      in Inr (Some (sigs[sec_index := \<lparr>sig_c = c, sig_r = r\<rparr>], g')))))"

text \<open>The loop of \<open>check_ring_signature\<close>: \<open>Inl\<close> the flag \<open>key_corrupted\<close> of a rejection, or the buffer and the sum.\<close>

fun check_ring_loop :: "'p curve \<Rightarrow> 'p \<Rightarrow> (bytes \<times> signature) list \<Rightarrow> bytes \<times> bytes \<Rightarrow> bool + bytes \<times> bytes" where
  "check_ring_loop C image_unp [] st = Inr st"
| "check_ring_loop C image_unp ((pub, sig) # ps) (buf, csum) =
     (if \<not> sc_isvalid_vartime (sig_c sig) \<or> \<not> sc_isvalid_vartime (sig_r sig) then Inl False
      else case ge_frombytes C pub of
             None \<Rightarrow> Inl True
           | Some tmp3 \<Rightarrow> check_ring_loop C image_unp ps (buf @ ring_commitments C image_unp pub tmp3 sig, sc_add csum (sig_c sig)))"

definition check_ring_signature :: "'p curve \<Rightarrow> bytes \<Rightarrow> bytes \<Rightarrow> bytes list \<Rightarrow> signature list \<Rightarrow> bool \<Rightarrow> bool \<times> bool" where
  "check_ring_signature C prefix_hash key_image pubs sigs check_key_image =
     (case ge_frombytes C key_image of
        None \<Rightarrow> (False, False)
      | Some image_unp \<Rightarrow>
          if check_key_image \<and> \<not> ge_check_subgroup C image_unp then (False, False)
          else case check_ring_loop C image_unp (zip pubs sigs) (prefix_hash, sc_0) of
                 Inl key_corrupted \<Rightarrow> (False, key_corrupted)
               | Inr (buf, csum) \<Rightarrow> (sc_iszero (sc_sub (hash_to_scalar buf) csum), False))"

subsection \<open>Proofs of sending\<close>

definition sp_comm :: "bytes \<Rightarrow> bytes \<Rightarrow> bytes \<Rightarrow> bytes \<Rightarrow> bytes \<Rightarrow> bytes \<Rightarrow> bytes" where
  "sp_comm message_hash txkey receiver_view_key derivation a b = message_hash @ txkey @ receiver_view_key @ derivation @ a @ b"

definition generate_sendproof ::
  "'p curve \<Rightarrow> 'g random \<Rightarrow> bytes \<Rightarrow> bytes \<Rightarrow> bytes \<Rightarrow> bytes \<Rightarrow> bytes \<Rightarrow> 'g \<Rightarrow> (signature \<times> 'g) option" where
  "generate_sendproof C rand txkey_pub txkey_sec receiver_view_key_pub derivation message_hash g =
     (case ge_frombytes C receiver_view_key_pub of
        None \<Rightarrow> None
      | Some tmp3 \<Rightarrow>
          let (k, g') = random_scalar rand g;
              a = ge_tobytes C (ge_scalarmult_base C k);
              b = ge_tobytes C (ge_mul8 C (ge_scalarmult C k tmp3));
              c = hash_to_scalar (sp_comm message_hash txkey_pub receiver_view_key_pub derivation a b)
          in Some (\<lparr>sig_c = c, sig_r = sc_mulsub c txkey_sec k\<rparr>, g'))"

definition check_sendproof :: "'p curve \<Rightarrow> bytes \<Rightarrow> bytes \<Rightarrow> bytes \<Rightarrow> bytes \<Rightarrow> signature \<Rightarrow> bool" where
  "check_sendproof C txkey_pub receiver_view_key_pub derivation message_hash proof =
     (if \<not> sc_isvalid_vartime (sig_c proof) \<or> \<not> sc_isvalid_vartime (sig_r proof) then False
      else case ge_frombytes C txkey_pub of
             None \<Rightarrow> False
           | Some txkey \<Rightarrow>
               let a = ge_tobytes C (ge_double_scalarmult_base C (sig_c proof) txkey (sig_r proof))
               in case ge_frombytes C derivation of
                    None \<Rightarrow> False
                  | Some dsmp \<Rightarrow>
                      if \<not> ge_check_subgroup C dsmp then False
                      else case ge_frombytes C receiver_view_key_pub of
                             None \<Rightarrow> False
                           | Some view \<Rightarrow>
                               let b = ge_tobytes C (ge_double_scalarmult_precomp C (sig_r proof) (ge_mul8 C view) (sig_c proof) dsmp);
                                   h = hash_to_scalar (sp_comm message_hash txkey_pub receiver_view_key_pub derivation a b)
                               in sc_iszero (sc_sub h (sig_c proof)))"

section \<open>Laws of the group\<close>

definition nsmul :: "nat \<Rightarrow> 'p::ab_group_add \<Rightarrow> 'p" where
  "nsmul n P = ((+) P ^^ n) 0"

lemma nsmul_simps [simp]: "nsmul 0 P = 0" "nsmul (Suc n) P = P + nsmul n P"
  by (simp_all add: nsmul_def)

lemma nsmul_add: "nsmul (m + n) P = nsmul m P + nsmul n P"
  by (induction m) (simp_all add: add.assoc)

lemma nsmul_zero [simp]: "nsmul n 0 = 0"
  by (induction n) simp_all

lemma nsmul_plus: "nsmul n (P + Q) = nsmul n P + nsmul n Q"
  by (induction n) (simp_all add: algebra_simps)

lemma nsmul_nsmul: "nsmul m (nsmul n P) = nsmul (m * n) P"
  by (induction m) (simp_all add: nsmul_add)

lemma nsmul_mod: "nsmul L P = 0 \<Longrightarrow> nsmul (n mod L) P = nsmul n P"
proof -
  assume L: "nsmul L P = 0"
  have "nsmul n P = nsmul (n div L * L + n mod L) P" by simp
  also have "\<dots> = nsmul (n div L) (nsmul L P) + nsmul (n mod L) P" by (simp only: nsmul_add nsmul_nsmul)
  finally show ?thesis using L by simp
qed

text \<open>A valid scalar: 32 bytes with a number below the order.\<close>

definition valid_scalar :: "bytes \<Rightarrow> bool" where
  "valid_scalar s \<longleftrightarrow> length s = 32 \<and> int (le_to_nat s) < group_order"

text \<open>
  What is documented of the points: \<open>B\<close> generates a group of the order of the scalars, eight times any point is in the
  subgroup of that order, a point is read back from its encoding, and the functions are the operations of the group.
\<close>

definition curve_laws :: "'p::ab_group_add curve \<Rightarrow> 'p \<Rightarrow> bool" where
  "curve_laws C B \<longleftrightarrow>
     nsmul (nat group_order) B = 0 \<and>
     (\<forall>P :: 'p. nsmul (nat group_order) (nsmul 8 P) = 0) \<and>
     (\<forall>P. ge_frombytes C (ge_tobytes C P) = Some P) \<and>
     (\<forall>s. valid_scalar s \<longrightarrow> ge_scalarmult_base C s = nsmul (le_to_nat s) B) \<and>
     (\<forall>s P. valid_scalar s \<longrightarrow> ge_scalarmult C s P = nsmul (le_to_nat s) P) \<and>
     (\<forall>P. ge_mul8 C P = nsmul 8 P) \<and>
     (\<forall>P Q. ge_add C P Q = P + Q) \<and>
     (\<forall>P Q. ge_sub C P Q = P - Q) \<and>
     (\<forall>a P b. valid_scalar a \<longrightarrow> valid_scalar b \<longrightarrow>
        ge_double_scalarmult_base C a P b = nsmul (le_to_nat a) P + nsmul (le_to_nat b) B) \<and>
     (\<forall>a P b Q. valid_scalar a \<longrightarrow> valid_scalar b \<longrightarrow>
        ge_double_scalarmult_precomp C a P b Q = nsmul (le_to_nat a) P + nsmul (le_to_nat b) Q) \<and>
     (\<forall>P. ge_check_subgroup C P \<longleftrightarrow> nsmul (nat group_order) P = 0)"


lemma curve_lawsD:
  assumes "curve_laws C B"
  shows "nsmul (nat group_order) B = 0" "nsmul (nat group_order) (nsmul 8 P) = 0" "ge_frombytes C (ge_tobytes C P) = Some P"
    "valid_scalar s \<Longrightarrow> ge_scalarmult_base C s = nsmul (le_to_nat s) B" "valid_scalar s \<Longrightarrow> ge_scalarmult C s P = nsmul (le_to_nat s) P"
    "ge_mul8 C P = nsmul 8 P" "ge_add C P Q = P + Q" "ge_sub C P Q = P - Q"
    "valid_scalar a \<Longrightarrow> valid_scalar b \<Longrightarrow> ge_double_scalarmult_base C a P b = nsmul (le_to_nat a) P + nsmul (le_to_nat b) B"
    "valid_scalar a \<Longrightarrow> valid_scalar b \<Longrightarrow> ge_double_scalarmult_precomp C a P b Q = nsmul (le_to_nat a) P + nsmul (le_to_nat b) Q"
    "ge_check_subgroup C P \<longleftrightarrow> nsmul (nat group_order) P = 0"
  using assms unfolding curve_laws_def by blast+

text \<open>A source of random bytes gives as many as it is asked for.\<close>

definition random_ok :: "'g random \<Rightarrow> bool" where
  "random_ok rand \<longleftrightarrow> (\<forall>n g. length (fst (rand n g)) = n)"

section \<open>Scalars in proofs\<close>

lemma valid_scalar_of [simp]: "valid_scalar (scalar_of x)"
  by (simp add: valid_scalar_def group_order_pos)

lemma valid_length: "valid_scalar s \<Longrightarrow> length s = 32"
  by (simp add: valid_scalar_def)

lemma sc_isvalid_iff: "valid_scalar s \<Longrightarrow> sc_isvalid_vartime s"
  by (simp add: valid_scalar_def sc_isvalid_value)

lemma sc_add_valid: "length a = 32 \<Longrightarrow> length b = 32 \<Longrightarrow> valid_scalar (sc_add a b)"
  by (simp add: sc_add_value)

lemma sc_sub_valid: "length a = 32 \<Longrightarrow> length b = 32 \<Longrightarrow> valid_scalar (sc_sub a b)"
  by (simp add: sc_sub_value)

lemma sc_mulsub_valid: "length a = 32 \<Longrightarrow> length b = 32 \<Longrightarrow> length c = 32 \<Longrightarrow> valid_scalar (sc_mulsub a b c)"
  by (simp add: sc_mulsub_value)

lemma hash_to_scalar_valid: "valid_scalar (hash_to_scalar d)"
  by (simp add: hash_to_scalar_def sc_reduce32_value)

lemma random_scalar_valid: "random_ok rand \<Longrightarrow> random_scalar rand g = (s, g') \<Longrightarrow> valid_scalar s"
proof -
  assume "random_ok rand" "random_scalar rand g = (s, g')"
  then have "s = sc_reduce (fst (rand 64 g))" "length (fst (rand 64 g)) = 64" by (auto simp: random_scalar_def random_ok_def split: prod.splits)
  then show ?thesis by (simp add: sc_reduce_value)
qed

lemma sc_0_valid: "valid_scalar sc_0" "le_to_nat sc_0 = 0"
proof -
  have z: "le_to_nat (replicate n 0) = 0" for n by (induction n) simp_all
  then show "le_to_nat sc_0 = 0" by (simp add: sc_0_def)
  then show "valid_scalar sc_0" by (simp add: valid_scalar_def group_order_pos) (simp add: sc_0_def)
qed

lemma iszero_sub: "length a = 32 \<Longrightarrow> length b = 32 \<Longrightarrow> sc_iszero (sc_sub a b) \<longleftrightarrow> int (le_to_nat a) mod group_order = int (le_to_nat b) mod group_order"
proof -
  assume l: "length a = 32" "length b = 32"
  have "sc_iszero (sc_sub a b) \<longleftrightarrow> int (le_to_nat (sc_sub a b)) = 0" by (simp add: sc_iszero_value)
  then show ?thesis by (simp add: sc_sub_value l mod_eq_dvd_iff dvd_eq_mod_eq_0)
qed

lemma nsmul_cong:
  assumes "nsmul (nat group_order) P = 0" "int a mod group_order = int b mod group_order"
  shows "nsmul a P = nsmul b P"
proof -
  have "int (a mod nat group_order) = int (b mod nat group_order)" using assms(2) group_order_pos by (simp add: zmod_int)
  then have "a mod nat group_order = b mod nat group_order" by simp
  then show ?thesis using nsmul_mod[OF assms(1), of a] nsmul_mod[OF assms(1), of b] by simp
qed

text \<open>The response of a proof of knowledge cancels the challenge.\<close>

lemma response_cancels:
  assumes "nsmul (nat group_order) P = 0" "length c = 32" "length x = 32" "length k = 32"
  shows "nsmul (le_to_nat c) (nsmul (le_to_nat x) P) + nsmul (le_to_nat (sc_mulsub c x k)) P = nsmul (le_to_nat k) P"
proof -
  have "nsmul (le_to_nat c) (nsmul (le_to_nat x) P) + nsmul (le_to_nat (sc_mulsub c x k)) P
      = nsmul (le_to_nat c * le_to_nat x + le_to_nat (sc_mulsub c x k)) P" by (simp add: nsmul_nsmul nsmul_add)
  also have "\<dots> = nsmul (le_to_nat k) P"
    by (rule nsmul_cong[OF assms(1)]) (use assms(2-4) in \<open>simp add: sc_mulsub_value mod_add_right_eq\<close>)
  finally show ?thesis .
qed

lemma torsion_nsmul: "nsmul (nat group_order) P = 0 \<Longrightarrow> nsmul (nat group_order) (nsmul n P) = 0"
proof -
  assume "nsmul (nat group_order) P = 0"
  moreover have "nsmul (nat group_order) (nsmul n P) = nsmul n (nsmul (nat group_order) P)" by (simp add: nsmul_nsmul mult.commute)
  ultimately show ?thesis by simp
qed

section \<open>Signatures are accepted\<close>

lemma signature_accepted:
  assumes "curve_laws C B" "random_ok rand" "valid_scalar sec"
    and g: "generate_signature C rand prefix_hash pub sec g = Inr (sig, g')"
  shows "check_signature C prefix_hash pub sig = (True, False)"
proof -
  note law = curve_lawsD[OF assms(1)]
  obtain k g1 where k: "random_scalar rand g = (k, g1)" by (cases "random_scalar rand g")
  have kv: "valid_scalar k" by (rule random_scalar_valid[OF assms(2) k])
  define c where "c = hash_to_scalar (s_comm prefix_hash pub (ge_tobytes C (ge_scalarmult_base C k)))"
  have pub: "pub = ge_tobytes C (nsmul (le_to_nat sec) B)"
    using g by (auto simp: generate_signature_def law(4)[OF assms(3)] split: if_splits)
  have sig: "sig = \<lparr>sig_c = c, sig_r = sc_mulsub c sec k\<rparr>"
    using g k by (auto simp: generate_signature_def Let_def c_def split: if_splits)
  have c: "valid_scalar c" unfolding c_def by (rule hash_to_scalar_valid)
  note len = valid_length[OF c] valid_length[OF assms(3)] valid_length[OF kv]
  have r: "valid_scalar (sc_mulsub c sec k)" by (rule sc_mulsub_valid[OF len])
  have "ge_double_scalarmult_base C c (nsmul (le_to_nat sec) B) (sc_mulsub c sec k) = ge_scalarmult_base C k"
    unfolding law(9)[OF c r] law(4)[OF kv] by (rule response_cancels[OF law(1) len])
  then show ?thesis
    using c r len law(3)[of "nsmul (le_to_nat sec) B", folded pub]
    by (simp add: check_signature_def sig sc_isvalid_iff iszero_sub c_def[symmetric])
qed

section \<open>Ring signatures are accepted\<close>

lemma ring_loop_key:
  assumes "random_ok rand" "generate_ring_loop C rand image_unp s i pubs (buf, sigs, csum, k) g = Some ((buf', sigs', csum', k'), g')"
  shows "(s < i \<longrightarrow> k' = k) \<and> (i \<le> s \<and> s < i + length pubs \<longrightarrow> valid_scalar k') \<and> (valid_scalar csum \<longrightarrow> valid_scalar csum')"
  using assms(2)
proof (induction pubs arbitrary: i buf sigs csum k g)
  case Nil
  then show ?case by auto
next
  case (Cons pub pubs)
  show ?case
  proof (cases "i = s")
    case True
    obtain k1 g1 where "random_scalar rand g = (k1, g1)" by (cases "random_scalar rand g")
    then show ?thesis using Cons.IH Cons.prems True random_scalar_valid[OF assms(1)] by (force simp: Let_def)
  next
    case False
    obtain c g1 where c: "random_scalar rand g = (c, g1)" by (cases "random_scalar rand g")
    then obtain buf1 sigs1 g2 where
      "generate_ring_loop C rand image_unp s (i + 1) pubs (buf1, sigs1, sc_add csum c, k) g2 = Some ((buf', sigs', csum', k'), g')"
      using Cons.prems False by (auto simp: Let_def split: prod.splits option.splits)
    from Cons.IH[OF this] False show ?thesis
      using sc_add_valid[of csum c] valid_length random_scalar_valid[OF assms(1) c] by auto
  qed
qed

lemma sum_steps:
  fixes x y a b n :: int
  shows "((x + y) mod n + a - b) mod n = (x + a - b + y) mod n"
    "((x + y) mod n + a - (b + y) mod n + c) mod n = (x + a - b + c) mod n"
proof -
  have "((x + y) mod n + a - b) mod n = (x + y + (a - b)) mod n" by (metis add_diff_eq mod_add_left_eq)
  then show "((x + y) mod n + a - b) mod n = (x + a - b + y) mod n" by (simp add: algebra_simps)
  have "((x + y) mod n + a - (b + y) mod n + c) mod n = ((x + y) mod n - (b + y) mod n + (a + c)) mod n" by (simp add: algebra_simps)
  also have "\<dots> = ((x + y) - (b + y) + (a + c)) mod n" by (metis mod_diff_eq mod_add_left_eq)
  finally show "((x + y) mod n + a - (b + y) mod n + c) mod n = (x + a - b + c) mod n" by (simp add: algebra_simps)
qed

text \<open>
  The check of the ring follows its generation: at the place of the signer stands any valid signature \<open>sig0\<close> with the
  same commitments, whose \<open>c\<close> is then a summand more.
\<close>

lemma ring_loop_checks:
  assumes rand: "random_ok rand" and v0: "valid_scalar (sig_c sig0)" "valid_scalar (sig_r sig0)"
  shows "generate_ring_loop C rand image_unp s i pubs (buf, sigs, csum, k) g = Some ((buf', sigs', csum', k'), g') \<Longrightarrow>
    valid_scalar csum \<Longrightarrow> valid_scalar csum2 \<Longrightarrow>
    (i \<le> s \<and> s < i + length pubs \<longrightarrow> (\<exists>P. ge_frombytes C (pubs ! (s - i)) = Some P \<and> ring_commitments C image_unp (pubs ! (s - i)) P sig0 =
       ge_tobytes C (ge_scalarmult_base C k') @ ge_tobytes C (ge_scalarmult C k' (hash_to_ec_point C (pubs ! (s - i)))))) \<Longrightarrow>
    \<exists>ts csum2'. sigs' = sigs @ ts \<and> length ts = length pubs \<and> valid_scalar csum' \<and> valid_scalar csum2' \<and>
      check_ring_loop C image_unp (zip pubs (if i \<le> s then ts[s - i := sig0] else ts)) (buf, csum2) = Inr (buf', csum2') \<and>
      int (le_to_nat csum2') mod group_order =
        (int (le_to_nat csum2) + int (le_to_nat csum') - int (le_to_nat csum) +
          (if i \<le> s \<and> s < i + length pubs then int (le_to_nat (sig_c sig0)) else 0)) mod group_order"
proof (induction pubs arbitrary: i buf sigs csum k g csum2)
  case Nil
  then show ?case by simp
next
  case (Cons pub pubs)
  note len = valid_length[OF Cons.prems(2)] valid_length[OF Cons.prems(3)]
  show ?case
  proof (cases "i = s")
    case True
    obtain k1 g1 where r1: "random_scalar rand g = (k1, g1)" by (cases "random_scalar rand g")
    let ?a = "ge_tobytes C (ge_scalarmult_base C k1)"
    let ?b = "ge_tobytes C (ge_scalarmult C k1 (hash_to_ec_point C pub))"
    have run: "generate_ring_loop C rand image_unp s (i + 1) pubs (buf @ ?a @ ?b, sigs @ [\<lparr>sig_c = [], sig_r = []\<rparr>], csum, k1) g1
        = Some ((buf', sigs', csum', k'), g')" using Cons.prems(1) r1 True by (simp add: Let_def)
    have "k' = k1" using ring_loop_key[OF rand run] True by simp
    then obtain P where P: "ge_frombytes C pub = Some P" "ring_commitments C image_unp pub P sig0 = ?a @ ?b"
      using Cons.prems(4) True by auto
    have v2: "valid_scalar (sc_add csum2 (sig_c sig0))" using sc_add_valid len(2) valid_length[OF v0(1)] by blast
    obtain ts csum2' where IH: "sigs' = (sigs @ [\<lparr>sig_c = [], sig_r = []\<rparr>]) @ ts" "length ts = length pubs" "valid_scalar csum'" "valid_scalar csum2'"
      "check_ring_loop C image_unp (zip pubs ts) (buf @ ?a @ ?b, sc_add csum2 (sig_c sig0)) = Inr (buf', csum2')"
      "int (le_to_nat csum2') mod group_order =
        (int (le_to_nat (sc_add csum2 (sig_c sig0))) + int (le_to_nat csum') - int (le_to_nat csum)) mod group_order"
      using Cons.IH[OF run Cons.prems(2) v2] True by auto
    show ?thesis
    proof (intro exI conjI)
      show "sigs' = sigs @ (\<lparr>sig_c = [], sig_r = []\<rparr> # ts)" "length (\<lparr>sig_c = [], sig_r = []\<rparr> # ts) = length (pub # pubs)"
        "valid_scalar csum'" "valid_scalar csum2'" using IH by simp_all
      show "check_ring_loop C image_unp (zip (pub # pubs) (if i \<le> s then (\<lparr>sig_c = [], sig_r = []\<rparr> # ts)[s - i := sig0] else \<lparr>sig_c = [], sig_r = []\<rparr> # ts)) (buf, csum2) = Inr (buf', csum2')"
        using IH(5) P v0 True by (simp add: sc_isvalid_iff)
      show "int (le_to_nat csum2') mod group_order =
        (int (le_to_nat csum2) + int (le_to_nat csum') - int (le_to_nat csum) +
          (if i \<le> s \<and> s < i + length (pub # pubs) then int (le_to_nat (sig_c sig0)) else 0)) mod group_order"
        using IH(6) True len(2) valid_length[OF v0(1)] by (simp add: sc_add_value sum_steps)
    qed
  next
    case False
    obtain c g1 where r1: "random_scalar rand g = (c, g1)" by (cases "random_scalar rand g")
    obtain r g2 where r2: "random_scalar rand g1 = (r, g2)" by (cases "random_scalar rand g1")
    let ?sig = "\<lparr>sig_c = c, sig_r = r\<rparr>"
    have v: "valid_scalar c" "valid_scalar r" using random_scalar_valid[OF rand] r1 r2 by auto
    obtain P where P: "ge_frombytes C pub = Some P" and
      run: "generate_ring_loop C rand image_unp s (i + 1) pubs (buf @ ring_commitments C image_unp pub P ?sig, sigs @ [?sig], sc_add csum c, k) g2
        = Some ((buf', sigs', csum', k'), g')" using Cons.prems(1) r1 r2 False by (auto simp: Let_def split: option.splits)
    have va: "valid_scalar (sc_add csum c)" "valid_scalar (sc_add csum2 c)" using sc_add_valid len valid_length[OF v(1)] by blast+
    have at: "i + 1 \<le> s \<and> s < i + 1 + length pubs \<longrightarrow> (\<exists>P. ge_frombytes C (pubs ! (s - (i + 1))) = Some P \<and>
        ring_commitments C image_unp (pubs ! (s - (i + 1))) P sig0 =
        ge_tobytes C (ge_scalarmult_base C k') @ ge_tobytes C (ge_scalarmult C k' (hash_to_ec_point C (pubs ! (s - (i + 1))))))"
      using Cons.prems(4) by (auto simp: nth_Cons' Suc_le_eq)
    obtain ts csum2' where IH: "sigs' = (sigs @ [?sig]) @ ts" "length ts = length pubs" "valid_scalar csum'" "valid_scalar csum2'"
      "check_ring_loop C image_unp (zip pubs (if i + 1 \<le> s then ts[s - (i + 1) := sig0] else ts))
         (buf @ ring_commitments C image_unp pub P ?sig, sc_add csum2 c) = Inr (buf', csum2')"
      "int (le_to_nat csum2') mod group_order =
        (int (le_to_nat (sc_add csum2 c)) + int (le_to_nat csum') - int (le_to_nat (sc_add csum c)) +
          (if i + 1 \<le> s \<and> s < i + 1 + length pubs then int (le_to_nat (sig_c sig0)) else 0)) mod group_order"
      using Cons.IH[OF run va at] by auto
    have here: "(if i \<le> s then (?sig # ts)[s - i := sig0] else ?sig # ts) = ?sig # (if i + 1 \<le> s then ts[s - (i + 1) := sig0] else ts)"
      using False Suc_diff_Suc[of i s, symmetric] by (cases "i < s") auto
    show ?thesis
    proof (intro exI conjI)
      show "sigs' = sigs @ (?sig # ts)" "length (?sig # ts) = length (pub # pubs)" "valid_scalar csum'" "valid_scalar csum2'" using IH by simp_all
      show "check_ring_loop C image_unp (zip (pub # pubs) (if i \<le> s then (?sig # ts)[s - i := sig0] else ?sig # ts)) (buf, csum2) = Inr (buf', csum2')"
        unfolding here using IH(5) P v by (simp add: sc_isvalid_iff)
      show "int (le_to_nat csum2') mod group_order =
        (int (le_to_nat csum2) + int (le_to_nat csum') - int (le_to_nat csum) +
          (if i \<le> s \<and> s < i + length (pub # pubs) then int (le_to_nat (sig_c sig0)) else 0)) mod group_order"
        unfolding IH(6) using False len valid_length[OF v(1)] by (simp add: sc_add_value sum_steps)
    qed
  qed
qed

lemma hash_to_ec_torsion: "curve_laws C B \<Longrightarrow> nsmul (nat group_order) (hash_to_ec_point C key) = 0"
  by (simp add: hash_to_ec_point_def curve_lawsD)

lemma ring_signature_accepted:
  assumes "curve_laws C B" "random_ok rand" "valid_scalar sec"
    and g: "generate_ring_signature C rand prefix_hash key_image pubs sec s g = Inr (Some (sigs, g'))"
  shows "length sigs = length pubs \<and> generate_key_image C (pubs ! s) sec = Inr key_image \<and>
    check_ring_signature C prefix_hash key_image pubs sigs True = (True, False)"
proof -
  note law = curve_lawsD[OF assms(1)]
  let ?H = "hash_to_ec_point C (pubs ! s)"
  let ?I = "nsmul (le_to_nat sec) ?H"
  let ?P = "nsmul (le_to_nat sec) B"
  have s: "s < length pubs" and pub: "pubs ! s = ge_tobytes C ?P"
    and image: "generate_key_image C (pubs ! s) sec = Inr key_image" "key_image = ge_tobytes C ?I"
    using g assms(3) by (auto simp: generate_ring_signature_def generate_key_image_def law(4,5) sc_isvalid_iff split: if_splits)
  have unp: "ge_frombytes C key_image = Some ?I" unfolding image(2) by (rule law(3))
  have frompub: "ge_frombytes C (pubs ! s) = Some ?P" unfolding pub by (rule law(3))
  obtain buf sigs1 csum k where run: "generate_ring_loop C rand ?I s 0 pubs (prefix_hash, [], sc_0, []) g = Some ((buf, sigs1, csum, k), g')"
    and sigs: "sigs = sigs1[s := \<lparr>sig_c = sc_sub (hash_to_scalar buf) csum, sig_r = sc_mulsub (sc_sub (hash_to_scalar buf) csum) sec k\<rparr>]"
  proof (cases "generate_ring_loop C rand ?I s 0 pubs (prefix_hash, [], sc_0, []) g")
    case None
    then show ?thesis using g unp s image(1) pub by (simp add: generate_ring_signature_def split: if_splits)
  next
    case (Some st)
    obtain buf sigs1 csum k g1 where st: "st = ((buf, sigs1, csum, k), g1)" by (cases st) auto
    show ?thesis using g unp s image(1) pub Some that by (simp add: generate_ring_signature_def st Let_def split: if_splits)
  qed
  have kv: "valid_scalar k" and csum: "valid_scalar csum" using ring_loop_key[OF assms(2) run] s sc_0_valid(1) by simp_all
  define h where "h = hash_to_scalar buf"
  define c where "c = sc_sub h csum"
  define r where "r = sc_mulsub c sec k"
  note len = valid_length[OF assms(3)] valid_length[OF kv] valid_length[OF csum]
  have hv: "valid_scalar h" unfolding h_def by (rule hash_to_scalar_valid)
  have cv: "valid_scalar c" unfolding c_def by (rule sc_sub_valid[OF valid_length[OF hv] len(3)])
  have rv: "valid_scalar r" unfolding r_def by (rule sc_mulsub_valid[OF valid_length[OF cv] len(1,2)])
  have "ge_double_scalarmult_base C c ?P r = ge_scalarmult_base C k"
    unfolding law(9)[OF cv rv] unfolding law(4)[OF kv] r_def by (rule response_cancels[OF law(1) valid_length[OF cv] len(1,2)])
  moreover have "ge_double_scalarmult_precomp C r ?H c ?I = ge_scalarmult C k ?H"
    unfolding law(10)[OF rv cv] unfolding law(5)[OF kv] r_def add.commute[of "nsmul (le_to_nat (sc_mulsub c sec k)) ?H"]
    by (rule response_cancels[OF hash_to_ec_torsion[OF assms(1)] valid_length[OF cv] len(1,2)])
  ultimately have same: "ring_commitments C ?I (pubs ! s) ?P \<lparr>sig_c = c, sig_r = r\<rparr> =
      ge_tobytes C (ge_scalarmult_base C k) @ ge_tobytes C (ge_scalarmult C k ?H)" by (simp add: ring_commitments_def)
  obtain csum2 where check: "length sigs1 = length pubs" "valid_scalar csum2" "check_ring_loop C ?I (zip pubs sigs) (prefix_hash, sc_0) = Inr (buf, csum2)"
    "int (le_to_nat csum2) mod group_order = (int (le_to_nat csum) + int (le_to_nat c)) mod group_order"
    using ring_loop_checks[OF assms(2) _ _ run sc_0_valid(1) sc_0_valid(1), of "\<lparr>sig_c = c, sig_r = r\<rparr>"] cv rv same frompub s
    by (auto simp: sigs c_def r_def h_def)
  have "ge_check_subgroup C ?I" unfolding law(11) by (rule torsion_nsmul[OF hash_to_ec_torsion[OF assms(1)]])
  moreover have "sc_iszero (sc_sub h csum2)"
    unfolding iszero_sub[OF valid_length[OF hv] valid_length[OF check(2)]] check(4)
    using len(3) valid_length[OF hv] by (simp add: c_def sc_sub_value mod_simps)
  ultimately show ?thesis
    using check(1,3) unp image(1) by (simp add: check_ring_signature_def sigs h_def)
qed

section \<open>One-time keys\<close>

lemma write_index_varint: "write_index i = write_varint i"
proof (induction i rule: write_index.induct)
  case (1 i)
  then show ?case by (simp add: write_index.simps[of i] write_varint.simps[of i] word_le_nat_alt)
qed

text \<open>Sender and receiver compute the same derivation: one from the view key and the secret key of the transaction, the other the
other way around.\<close>

lemma derivations_agree:
  assumes laws: "curve_laws C B" and v: "valid_scalar a" "valid_scalar b"
  shows "generate_key_derivation C (ge_tobytes C (ge_scalarmult_base C a)) b = generate_key_derivation C (ge_tobytes C (ge_scalarmult_base C b)) a"
  using sc_isvalid_iff[OF v(1)] sc_isvalid_iff[OF v(2)]
  by (simp add: generate_key_derivation_def curve_lawsD[OF laws] v nsmul_nsmul mult.commute)

lemma derivation_to_scalar_valid: "valid_scalar (derivation_to_scalar d i)"
  by (simp add: derivation_to_scalar_def hash_to_scalar_valid)

lemma scalarmult_base_add:
  assumes laws: "curve_laws C B" and v: "valid_scalar a" "valid_scalar b"
  shows "ge_scalarmult_base C (sc_add a b) = ge_scalarmult_base C a + ge_scalarmult_base C b"
proof -
  note law = curve_lawsD[OF laws]
  have s: "valid_scalar (sc_add a b)" by (rule sc_add_valid[OF valid_length[OF v(1)] valid_length[OF v(2)]])
  have "nsmul (le_to_nat (sc_add a b)) B = nsmul (le_to_nat a + le_to_nat b) B"
    by (rule nsmul_cong[OF law(1)]) (simp add: sc_add_value valid_length v)
  then show ?thesis by (simp add: law(4) s v nsmul_add)
qed

text \<open>The derived public key is the public key of the derived secret key.\<close>

lemma derived_keys_match:
  assumes laws: "curve_laws C B" and v: "valid_scalar spend"
  shows "\<exists>derived. derive_secret_key d i spend = Inr derived \<and> valid_scalar derived \<and>
    derive_public_key C d i (ge_tobytes C (ge_scalarmult_base C spend)) = Some (ge_tobytes C (ge_scalarmult_base C derived))"
  using sc_isvalid_iff[OF v] sc_add_valid[OF valid_length[OF v] valid_length[OF derivation_to_scalar_valid[of d i]]]
  by (simp add: derive_secret_key_def derive_public_key_def curve_lawsD(3,7)[OF laws] scalarmult_base_add[OF laws v derivation_to_scalar_valid])

text \<open>The receiver recovers the spend key from the output's key.\<close>

lemma underive_inverts_derive:
  assumes laws: "curve_laws C B" and base: "ge_frombytes C base = Some P" "ge_tobytes C P = base"
    and d: "derive_public_key C d i base = Some key"
  shows "underive_public_key C d i key = Some base \<and> underive_public_key_and_get_scalar C d i key = Some (base, derivation_to_scalar d i)"
  using d base(1)
  by (auto simp: underive_public_key_def underive_public_key_and_get_scalar_def derive_public_key_def curve_lawsD(3,7,8)[OF laws]
      base(2) Let_def)

lemma underive_suffix_inverts_derive:
  assumes laws: "curve_laws C B" and base: "ge_frombytes C base = Some P" "ge_tobytes C P = base"
    and d: "derive_public_key_suffix C d i base suffix = Inr (Some key)"
  shows "underive_public_key_suffix C d i key suffix = Inr (Some base)"
  using d base(1)
  by (auto simp: underive_public_key_suffix_def derive_public_key_suffix_def curve_lawsD(3,7,8)[OF laws] base(2) bindR_def
      split: sum.splits)

section \<open>Proofs of sending are accepted\<close>

text \<open>The proof shows the receiver's derivation, that of the transaction's secret key and the receiver's view key.\<close>

lemma sendproof_accepted:
  assumes "curve_laws C B" "random_ok rand" "valid_scalar sec"
    and d: "generate_key_derivation C view_pub sec = Inr (Some derivation)"
    and g: "generate_sendproof C rand (ge_tobytes C (ge_scalarmult_base C sec)) sec view_pub derivation message_hash g = Some (proof, g')"
  shows "check_sendproof C (ge_tobytes C (ge_scalarmult_base C sec)) view_pub derivation message_hash proof"
proof -
  note law = curve_lawsD[OF assms(1)]
  let ?X = "ge_tobytes C (ge_scalarmult_base C sec)"
  obtain V where V: "ge_frombytes C view_pub = Some V" using g by (auto simp: generate_sendproof_def split: option.splits)
  have der: "derivation = ge_tobytes C (nsmul (le_to_nat sec) (nsmul 8 V))"
    using d V assms(3) by (simp add: generate_key_derivation_def law nsmul_nsmul mult.commute split: if_splits)
  obtain k g1 where k: "random_scalar rand g = (k, g1)" by (cases "random_scalar rand g")
  have kv: "valid_scalar k" by (rule random_scalar_valid[OF assms(2) k])
  define a where "a = ge_tobytes C (ge_scalarmult_base C k)"
  define b where "b = ge_tobytes C (ge_mul8 C (ge_scalarmult C k V))"
  define c where "c = hash_to_scalar (sp_comm message_hash ?X view_pub derivation a b)"
  define r where "r = sc_mulsub c sec k"
  have p: "proof = \<lparr>sig_c = c, sig_r = r\<rparr>"
    using g k V by (simp add: generate_sendproof_def a_def b_def c_def r_def Let_def)
  have cv: "valid_scalar c" unfolding c_def by (rule hash_to_scalar_valid)
  note len = valid_length[OF cv] valid_length[OF assms(3)] valid_length[OF kv]
  have rv: "valid_scalar r" unfolding r_def by (rule sc_mulsub_valid[OF len])
  have "ge_double_scalarmult_base C c (ge_scalarmult_base C sec) r = ge_scalarmult_base C k"
    unfolding law(9)[OF cv rv] unfolding law(4)[OF kv] law(4)[OF assms(3)] r_def by (rule response_cancels[OF law(1) len])
  then have A: "ge_tobytes C (ge_double_scalarmult_base C c (ge_scalarmult_base C sec) r) = a" by (simp add: a_def)
  have "ge_double_scalarmult_precomp C r (nsmul 8 V) c (nsmul (le_to_nat sec) (nsmul 8 V)) = nsmul (le_to_nat k) (nsmul 8 V)"
    unfolding law(10)[OF rv cv] unfolding r_def add.commute[of "nsmul (le_to_nat (sc_mulsub c sec k)) (nsmul 8 V)"]
    by (rule response_cancels[OF law(2) len])
  also have "\<dots> = ge_mul8 C (ge_scalarmult C k V)" by (simp add: law kv nsmul_nsmul mult.commute)
  finally have Bc: "ge_tobytes C (ge_double_scalarmult_precomp C r (nsmul 8 V) c (nsmul (le_to_nat sec) (nsmul 8 V))) = b" by (simp add: b_def)
  have sub: "ge_check_subgroup C (nsmul (le_to_nat sec) (nsmul 8 V))" unfolding law(11) by (rule torsion_nsmul[OF law(2)])
  have "sc_iszero (sc_sub c c)" by (simp add: iszero_sub len)
  moreover have "ge_frombytes C derivation = Some (nsmul (le_to_nat sec) (nsmul 8 V))" unfolding der by (rule law(3))
  ultimately show ?thesis
    using sub sc_isvalid_iff[OF cv] sc_isvalid_iff[OF rv]
    by (simp add: check_sendproof_def p law(3) law(6) V Let_def A Bc c_def[symmetric])
qed

section \<open>What is generated is accepted\<close>

lemma generate_ring_loop_total:
  "\<forall>p \<in> set pubs. key_isvalid C p \<Longrightarrow> \<exists>st' g'. generate_ring_loop C rand image_unp s i pubs st g = Some (st', g')"
proof (induction pubs arbitrary: i st g)
  case Nil
  show ?case by (cases st) simp
next
  case (Cons pub pubs)
  obtain P where "ge_frombytes C pub = Some P" using Cons.prems by (auto simp: key_isvalid_def)
  moreover obtain buf sigs csum k where "st = (buf, sigs, csum, k)" using prod_cases4 by blast
  ultimately show ?case using Cons by (auto simp: Let_def split: prod.splits)
qed

lemma generate_ring_signature_total:
  assumes "curve_laws C B" "valid_scalar sec" "s < length pubs" "pubs ! s = ge_tobytes C (ge_scalarmult_base C sec)"
    "\<forall>p \<in> set pubs. key_isvalid C p" "generate_key_image C (pubs ! s) sec = Inr ki"
  shows "\<exists>sigs g'. generate_ring_signature C rand h ki pubs sec s g = Inr (Some (sigs, g'))"
proof -
  have "ge_frombytes C ki = Some (ge_scalarmult C sec (hash_to_ec_point C (pubs ! s)))"
    using assms(6) curve_lawsD(3)[OF assms(1)] by (auto simp: generate_key_image_def split: if_splits)
  moreover obtain buf sigs csum k g' where "generate_ring_loop C rand (ge_scalarmult C sec (hash_to_ec_point C (pubs ! s))) s 0 pubs (h, [], sc_0, []) g
      = Some ((buf, sigs, csum, k), g')" using generate_ring_loop_total[OF assms(5)] by (metis surj_pair)
  ultimately show ?thesis using assms(2-4,6) sc_isvalid_iff[OF assms(2)] by (simp add: generate_ring_signature_def Let_def)
qed

lemma generate_key_image_total: "valid_scalar sec \<Longrightarrow> \<exists>ki. generate_key_image C pub sec = Inr ki"
  by (simp add: generate_key_image_def sc_isvalid_iff)

section \<open>A group with the laws\<close>

text \<open>The residues modulo the group order, the generator 1 and a residue written as a scalar: the laws can hold.\<close>

typedef residue = "{0 ..< group_order}"
  using group_order_pos by (intro exI[of _ 0]) simp

setup_lifting type_definition_residue

instantiation residue :: ab_group_add
begin

lift_definition zero_residue :: residue is 0
  using group_order_pos by simp

lift_definition plus_residue :: "residue \<Rightarrow> residue \<Rightarrow> residue" is "\<lambda>a b. (a + b) mod group_order"
  using group_order_pos by simp

lift_definition minus_residue :: "residue \<Rightarrow> residue \<Rightarrow> residue" is "\<lambda>a b. (a - b) mod group_order"
  using group_order_pos by simp

lift_definition uminus_residue :: "residue \<Rightarrow> residue" is "\<lambda>a. (- a) mod group_order"
  using group_order_pos by simp

instance
  by standard (transfer, use group_order_pos in \<open>simp add: mod_simps algebra_simps\<close>)+

end

lift_definition residue_of :: "int \<Rightarrow> residue" is "\<lambda>a. a mod group_order"
  using group_order_pos by simp

lift_definition residue_int :: "residue \<Rightarrow> int" is "\<lambda>a. a" .

definition residue_curve :: "residue curve" where
  "residue_curve = \<lparr>ge_frombytes = (\<lambda>b. if valid_scalar b then Some (residue_of (int (le_to_nat b))) else None),
     ge_tobytes = (\<lambda>P. scalar_of (residue_int P)),
     ge_scalarmult_base = (\<lambda>s. residue_of (int (le_to_nat s))),
     ge_scalarmult = (\<lambda>s P. residue_of (int (le_to_nat s) * residue_int P)),
     ge_mul8 = (\<lambda>P. residue_of (8 * residue_int P)),
     ge_add = (+), ge_sub = (-),
     ge_double_scalarmult_base = (\<lambda>a P b. residue_of (int (le_to_nat a) * residue_int P + int (le_to_nat b))),
     ge_double_scalarmult_precomp = (\<lambda>a P b Q. residue_of (int (le_to_nat a) * residue_int P + int (le_to_nat b) * residue_int Q)),
     ge_check_subgroup = (\<lambda>_. True),
     ge_fromfe_frombytes = (\<lambda>b. residue_of (int (le_to_nat b)))\<rparr>"

lemma residue_of_add: "residue_of (a + b) = residue_of a + residue_of b"
  by transfer (simp add: mod_simps)

lemma residue_of_int: "residue_of (residue_int P) = P"
  by transfer simp

lemma residue_of_0: "residue_of 0 = 0"
  by transfer simp

lemma residue_of_order: "residue_of group_order = 0"
  by transfer simp

lemma residue_nsmul: "nsmul n P = residue_of (int n * residue_int P)"
proof (induction n)
  case 0
  then show ?case by (simp add: residue_of_0)
next
  case (Suc n)
  then show ?case by (simp add: distrib_right residue_of_add residue_of_int)
qed

lemma residue_int_of: "residue_int (residue_of a) = a mod group_order"
  by transfer simp

lemma residue_int_less: "0 \<le> residue_int P" "residue_int P < group_order"
  by (transfer, simp)+

lemma residue_laws: "curve_laws residue_curve (residue_of 1)"
proof -
  have L: "int (nat group_order) = group_order" using group_order_pos by simp
  have any: "nsmul (nat group_order) P = 0" for P :: residue
    unfolding residue_nsmul L by (simp flip: residue_of_0) (transfer, simp)
  have one: "residue_int (residue_of 1) = 1" unfolding residue_int_of using group_order_def by simp
  have dec: "ge_frombytes residue_curve (ge_tobytes residue_curve P) = Some P" for P
    using residue_int_less[of P] by (simp add: residue_curve_def residue_of_int)
  show ?thesis
    unfolding curve_laws_def using any dec any[of "residue_of 1"] by (simp add: residue_curve_def residue_nsmul one residue_of_0 residue_of_order flip: residue_of_add)
qed


section \<open>Properties\<close>

definition sample_random :: "nat random" where
  "sample_random n g = (replicate n (of_nat g), g + 1)"

lemma sample_random_ok: "random_ok sample_random"
  by (simp add: random_ok_def sample_random_def)

lemma key_isvalid_encoding: "curve_laws C B \<Longrightarrow> key_isvalid C (ge_tobytes C P)"
  by (simp add: key_isvalid_def curve_lawsD)

text \<open>C9: For every ring of valid keys that has the signer's public key at its index and a key image made with
\<open>generate_key_image\<close>, \<open>generate_ring_signature\<close> gives a signature for each key, whatever random bytes it draws, and \<open>check_ring_signature\<close> with
the check of the key image accepts them.\<close>

theorem ring_signatures_accepted:
  assumes "curve_laws C B" "random_ok rand" "valid_scalar sec" "s < length pubs" "pubs ! s = ge_tobytes C (ge_scalarmult_base C sec)"
    and "\<forall>p \<in> set pubs. key_isvalid C p"
  shows "\<exists>ki sigs g'. generate_key_image C (pubs ! s) sec = Inr ki \<and>
    generate_ring_signature C rand prefix_hash ki pubs sec s g = Inr (Some (sigs, g')) \<and>
    length sigs = length pubs \<and> check_ring_signature C prefix_hash ki pubs sigs True = (True, False)"
proof -
  obtain ki where ki: "generate_key_image C (pubs ! s) sec = Inr ki" using generate_key_image_total[OF assms(3)] by blast
  obtain sigs g' where g: "generate_ring_signature C rand prefix_hash ki pubs sec s g = Inr (Some (sigs, g'))"
    using generate_ring_signature_total[OF assms(1,3,4,5,6) ki, of rand prefix_hash g] by blast
  show ?thesis using ki g ring_signature_accepted[OF assms(1-3) g] by blast
qed

theorem ring_signatures_accepted_witness:
  "\<exists>ki sigs g'. generate_key_image residue_curve (scalar_of 5) (scalar_of 5) = Inr ki \<and>
    generate_ring_signature residue_curve sample_random (replicate 32 7) ki [scalar_of 9, scalar_of 5, scalar_of 11] (scalar_of 5) 1 0
      = Inr (Some (sigs, g')) \<and>
    length sigs = 3 \<and> check_ring_signature residue_curve (replicate 32 7) ki [scalar_of 9, scalar_of 5, scalar_of 11] sigs True = (True, False)"
proof -
  have key: "ge_tobytes residue_curve (ge_scalarmult_base residue_curve (scalar_of 5)) = scalar_of 5"
    by (simp add: residue_curve_def residue_int_of)
  have valid: "key_isvalid residue_curve (scalar_of x)" for x by (simp add: key_isvalid_def residue_curve_def)
  show ?thesis
    using ring_signatures_accepted[OF residue_laws sample_random_ok, of "scalar_of 5" 1 "[scalar_of 9, scalar_of 5, scalar_of 11]" "replicate 32 7" 0]
    by (simp only: key valid list.set ball_simps insert_iff list.size nth_Cons_Suc nth_Cons_0 One_nat_def numeral_3_eq_3 valid_scalar_of) auto
qed

text \<open>C21: An output sent to an address is found and can be spent by its owner only with the secret keys: the sender's derivation, from
the view key and the secret key of the transaction, is the one the owner gets from the transaction's public key and the view secret; the
owner recovers the spend key from the output's key, and the derived secret key is the secret of the output's key and gives a key image.\<close>

theorem one_time_keys_recovered:
  assumes laws: "curve_laws C B" and v: "valid_scalar tx_sec" "valid_scalar view_sec" "valid_scalar spend_sec"
  shows "\<exists>d key derived ki.
    generate_key_derivation C (ge_tobytes C (ge_scalarmult_base C view_sec)) tx_sec = Inr (Some d) \<and>
    generate_key_derivation C (ge_tobytes C (ge_scalarmult_base C tx_sec)) view_sec = Inr (Some d) \<and>
    derive_public_key C d i (ge_tobytes C (ge_scalarmult_base C spend_sec)) = Some key \<and>
    underive_public_key C d i key = Some (ge_tobytes C (ge_scalarmult_base C spend_sec)) \<and>
    derive_secret_key d i spend_sec = Inr derived \<and> keys_match C derived key \<and> generate_key_image C key derived = Inr ki"
proof -
  let ?S = "ge_tobytes C (ge_scalarmult_base C spend_sec)"
  obtain d where d: "generate_key_derivation C (ge_tobytes C (ge_scalarmult_base C view_sec)) tx_sec = Inr (Some d)"
    using sc_isvalid_iff[OF v(1)] by (simp add: generate_key_derivation_def curve_lawsD(3)[OF laws])
  obtain derived where x: "derive_secret_key d i spend_sec = Inr derived" "valid_scalar derived"
    "derive_public_key C d i ?S = Some (ge_tobytes C (ge_scalarmult_base C derived))" using derived_keys_match[OF laws v(3)] by blast
  obtain ki where ki: "generate_key_image C (ge_tobytes C (ge_scalarmult_base C derived)) derived = Inr ki"
    using generate_key_image_total[OF x(2)] by blast
  have "keys_match C derived (ge_tobytes C (ge_scalarmult_base C derived))"
    using sc_isvalid_iff[OF x(2)] by (simp add: keys_match_def secret_key_to_public_key_def)
  moreover have "underive_public_key C d i (ge_tobytes C (ge_scalarmult_base C derived)) = Some ?S"
    using underive_inverts_derive[OF laws curve_lawsD(3)[OF laws] refl x(3)] by blast
  ultimately show ?thesis using d derivations_agree[OF laws v(1,2)] x ki by auto
qed

theorem one_time_keys_recovered_witness:
  "\<exists>d key derived ki.
    generate_key_derivation residue_curve (scalar_of 4) (scalar_of 3) = Inr (Some d) \<and>
    generate_key_derivation residue_curve (scalar_of 3) (scalar_of 4) = Inr (Some d) \<and>
    derive_public_key residue_curve d 1 (scalar_of 5) = Some key \<and>
    underive_public_key residue_curve d 1 key = Some (scalar_of 5) \<and>
    derive_secret_key d 1 (scalar_of 5) = Inr derived \<and> keys_match residue_curve derived key \<and> generate_key_image residue_curve key derived = Inr ki"
proof -
  have key: "ge_tobytes residue_curve (ge_scalarmult_base residue_curve (scalar_of x)) = scalar_of x" for x
    by (simp add: residue_curve_def residue_int_of)
  show ?thesis
    using one_time_keys_recovered[OF residue_laws valid_scalar_of valid_scalar_of valid_scalar_of, of 4 3 1 5] unfolding key by blast
qed

end
