(* ===== verification/TxBuilder.thy ===== *)
theory TxBuilder
  imports Crypto ChainState "HOL-Library.Multiset"
begin

text \<open>
  Building and signing a transaction: the class \<open>TransactionBuilder\<close> of \<open>src/src/Core/TransactionBuilder.cpp\<close>, over the keys and
  signatures of \<^verbatim>\<open>Crypto\<close>. The algorithms of the C++ library whose result the standard leaves open are arguments: \<open>std::sort\<close> (the
  order of equal elements) and \<open>std::shuffle\<close>. The theorems show that the inputs of a transaction built here pass the
  checks of the chain state.
\<close>

section \<open>Definitions\<close>

record api_output =
  ao_amount :: u64
  ao_public_key :: bytes
  ao_global_index :: u32
  ao_unlock_time :: u64
  ao_index_in_transaction :: u32
  ao_height :: u32
  ao_key_image :: bytes
  ao_transaction_public_key :: bytes
  ao_address :: string
  ao_dust :: bool

record account_keys =
  ak_address :: account_public_address
  ak_spend_secret_key :: bytes
  ak_view_secret_key :: bytes

record key_pair =
  kp_public_key :: bytes
  kp_secret_key :: bytes

text \<open>The member \<open>input\<close> of an \<open>InputDesc\<close> by its three fields, that of an output by its amount and address.\<close>

record input_desc =
  idesc_outputs :: "api_output list"
  idesc_real_output_index :: nat
  idesc_eph_keys :: key_pair
  idesc_amount :: u64
  idesc_output_indexes :: "u32 list"
  idesc_key_image :: bytes

record output_desc =
  odesc_amount :: u64
  odesc_addr :: account_public_address

record transaction_builder =
  tb_transaction :: transaction
  tb_input_descs :: "input_desc list"
  tb_output_descs :: "output_desc list"
  tb_extra :: "extra_field list"
  tb_outputs_amount :: u64
  tb_inputs_amount :: u64

record 'g algorithms =
  std_sort :: "api_output list \<Rightarrow> api_output list"
  std_shuffle_outputs :: "output_desc list \<Rightarrow> 'g \<Rightarrow> output_desc list \<times> 'g"
  std_shuffle_inputs :: "input_desc list \<Rightarrow> 'g \<Rightarrow> input_desc list \<times> 'g"

subsection \<open>The class TransactionExtra\<close>

definition same_field_type :: "extra_field \<Rightarrow> extra_field \<Rightarrow> bool" where
  "same_field_type f g =
     (case (f, g) of
        (ExtraPadding _, ExtraPadding _) \<Rightarrow> True
      | (ExtraPublicKey _, ExtraPublicKey _) \<Rightarrow> True
      | (ExtraNonce _, ExtraNonce _) \<Rightarrow> True
      | (ExtraMergeMiningTag _ _, ExtraMergeMiningTag _ _) \<Rightarrow> True
      | _ \<Rightarrow> False)"

fun extra_set :: "extra_field list \<Rightarrow> extra_field \<Rightarrow> extra_field list" where
  "extra_set [] v = [v]"
| "extra_set (f # fs) v = (if same_field_type v f then v # fs else f # extra_set fs v)"

definition extra_serialize :: "extra_field list \<Rightarrow> bytes" where
  "extra_serialize flds = snd (write_transaction_extra [] flds)"

subsection \<open>Building\<close>

definition new_builder :: "currency \<Rightarrow> u64 \<Rightarrow> transaction_builder" where
  "new_builder c ut =
     \<lparr>tb_transaction = \<lparr>version = current_transaction_version c, unlock_time = ut, inputs = [], outputs = [], extra = [], signatures = []\<rparr>,
      tb_input_descs = [], tb_output_descs = [], tb_extra = [], tb_outputs_amount = 0, tb_inputs_amount = 0\<rparr>"

definition set_extra_nonce :: "bytes \<Rightarrow> transaction_builder \<Rightarrow> transaction_builder" where
  "set_extra_nonce extra_nonce B =
     (let e = extra_set (tb_extra B) (ExtraNonce extra_nonce)
      in B\<lparr>tb_extra := e, tb_transaction := (tb_transaction B)\<lparr>extra := extra_serialize e\<rparr>\<rparr>)"

definition set_payment_id :: "bytes \<Rightarrow> transaction_builder \<Rightarrow> transaction_builder" where
  "set_payment_id hash B = set_extra_nonce (set_payment_id_to_transaction_extra_nonce hash) B"

definition add_output :: "u64 \<Rightarrow> account_public_address \<Rightarrow> transaction_builder \<Rightarrow> nat \<times> transaction_builder" where
  "add_output amount to B =
     (let B' = B\<lparr>tb_outputs_amount := tb_outputs_amount B + amount,
                tb_output_descs := tb_output_descs B @ [\<lparr>odesc_amount = amount, odesc_addr = to\<rparr>]\<rparr>
      in (length (tb_output_descs B') - 1, B'))"

text \<open>\<open>None\<close> is the result \<open>false\<close>.\<close>

definition generate_key_image_helper :: "'p curve \<Rightarrow> account_keys \<Rightarrow> bytes \<Rightarrow> u64 \<Rightarrow> (key_pair \<times> bytes) option result" where
  "generate_key_image_helper C ack tx_public_key real_output_index =
     bindR (generate_key_derivation C tx_public_key (ak_view_secret_key ack)) (\<lambda>r. case r of
       None \<Rightarrow> Inr None
     | Some recv_derivation \<Rightarrow>
         (case derive_public_key C recv_derivation real_output_index (spend_public_key (ak_address ack)) of
            None \<Rightarrow> Inr None
          | Some pub \<Rightarrow>
              bindR (derive_secret_key recv_derivation real_output_index (ak_spend_secret_key ack)) (\<lambda>sec.
              bindR (generate_key_image C pub sec) (\<lambda>ki. Inr (Some (\<lparr>kp_public_key = pub, kp_secret_key = sec\<rparr>, ki))))))"

definition absolute_output_offsets_to_relative :: "u32 list \<Rightarrow> u32 list" where
  "absolute_output_offsets_to_relative off = map (\<lambda>i. if i < 1 then off ! i else off ! i - off ! (i - 1)) [0 ..< length off]"

text \<open>\<open>std::lower_bound\<close> on a sorted range.\<close>

definition lower_bound_index :: "api_output list \<Rightarrow> api_output \<Rightarrow> nat" where
  "lower_bound_index outs v = length (takeWhile (\<lambda>a. ao_global_index a < ao_global_index v) outs)"

definition add_input ::
  "'p curve \<Rightarrow> 'g algorithms \<Rightarrow> account_keys \<Rightarrow> api_output \<Rightarrow> api_output list \<Rightarrow> transaction_builder \<Rightarrow> (nat \<times> transaction_builder) result" where
  "add_input C A sender_keys real_output mix_outputs B =
     (let outs = std_sort A mix_outputs;
          n = lower_bound_index outs real_output;
          outs' = take n outs @ [real_output] @ drop n outs
      in bindR (generate_key_image_helper C sender_keys (ao_transaction_public_key real_output) (ucast (ao_index_in_transaction real_output))) (\<lambda>r.
           case r of
             None \<Rightarrow> Inl (RuntimeError ''generating key_image failed'')
           | Some (eph_keys, ki) \<Rightarrow>
               if ki \<noteq> ao_key_image real_output then Inl (RuntimeError ''generated key_image does not match input'')
               else if list_ex (\<lambda>out. ao_amount out \<noteq> ao_amount real_output) outs'
               then Inl (RuntimeError ''Mixin outputs with different amounts is not allowed'')
               else
                 let desc = \<lparr>idesc_outputs = outs', idesc_real_output_index = n, idesc_eph_keys = eph_keys,
                             idesc_amount = ao_amount real_output,
                             idesc_output_indexes = absolute_output_offsets_to_relative (map ao_global_index outs'), idesc_key_image = ki\<rparr>;
                     B' = B\<lparr>tb_inputs_amount := tb_inputs_amount B + ao_amount real_output, tb_input_descs := tb_input_descs B @ [desc]\<rparr>
                 in Inr (length (tb_input_descs B') - 1, B')))"

subsection \<open>Signing\<close>

definition derive_output_key :: "'p curve \<Rightarrow> account_public_address \<Rightarrow> bytes \<Rightarrow> u64 \<Rightarrow> bytes option result" where
  "derive_output_key C to tx_key output_index =
     bindR (generate_key_derivation C (view_public_key to) tx_key) (\<lambda>r. case r of
       None \<Rightarrow> Inr None
     | Some derivation \<Rightarrow> Inr (derive_public_key C derivation output_index (spend_public_key to)))"

text \<open>The public key stays zero when the secret is not valid.\<close>

definition deterministic_keys_from_hash :: "'p curve \<Rightarrow> bytes \<Rightarrow> bytes \<Rightarrow> key_pair" where
  "deterministic_keys_from_hash C tx_inputs_hash tx_derivation_seed =
     (let sec = hash_to_scalar (tx_inputs_hash @ tx_derivation_seed)
      in \<lparr>kp_public_key = (case secret_key_to_public_key C sec of None \<Rightarrow> replicate 32 0 | Some pub \<Rightarrow> pub), kp_secret_key = sec\<rparr>)"

definition deterministic_keys_from_seed :: "'p curve \<Rightarrow> 'z transaction_prefix_scheme \<Rightarrow> bytes \<Rightarrow> key_pair" where
  "deterministic_keys_from_seed C tx tx_derivation_seed = deterministic_keys_from_hash C (get_transaction_inputs_hash tx) tx_derivation_seed"

fun sign_outputs :: "'p curve \<Rightarrow> bytes \<Rightarrow> nat \<Rightarrow> output_desc list \<Rightarrow> transaction_output list result" where
  "sign_outputs C tx_key i [] = Inr []"
| "sign_outputs C tx_key i (d # ds) =
     bindR (derive_output_key C (odesc_addr d) tx_key (word_of_nat i)) (\<lambda>r. case r of
       None \<Rightarrow> Inl (RuntimeError ''output keys detected as corrupted during output key derivation'')
     | Some key \<Rightarrow>
         bindR (sign_outputs C tx_key (i + 1) ds) (\<lambda>outs. Inr (\<lparr>out_amount = odesc_amount d, out_target = KeyOutput key\<rparr> # outs)))"

fun sign_inputs :: "'p curve \<Rightarrow> 'g random \<Rightarrow> bytes \<Rightarrow> input_desc list \<Rightarrow> 'g \<Rightarrow> (bytes list list \<times> 'g) result" where
  "sign_inputs C rand hash [] g = Inr ([], g)"
| "sign_inputs C rand hash (d # ds) g =
     bindR (generate_ring_signature C rand hash (idesc_key_image d) (map ao_public_key (idesc_outputs d)) (kp_secret_key (idesc_eph_keys d))
              (idesc_real_output_index d) g) (\<lambda>r. case r of
       None \<Rightarrow> Inl (RuntimeError ''output keys detected as corrupted during ring signing'')
     | Some (sigs, g1) \<Rightarrow>
         bindR (sign_inputs C rand hash ds g1) (\<lambda>(rest, g2). Inr (map signature_bytes sigs # rest, g2)))"

definition desc_input :: "input_desc \<Rightarrow> transaction_input" where
  "desc_input d = KeyInput (idesc_amount d) (idesc_output_indexes d) (idesc_key_image d)"

definition sign :: "'p curve \<Rightarrow> 'g random \<Rightarrow> 'g algorithms \<Rightarrow> bytes \<Rightarrow> transaction_builder \<Rightarrow> 'g \<Rightarrow> (transaction \<times> 'g) result" where
  "sign C rand A tx_derivation_seed B g =
     (let (odescs1, g1) = std_shuffle_outputs A (tb_output_descs B) g;
          (idescs1, g2) = std_shuffle_inputs A (tb_input_descs B) g1;
          odescs = sort_key odesc_amount odescs1;
          idescs = sort_key idesc_amount idescs1;
          tx1 = (tb_transaction B)\<lparr>inputs := map desc_input idescs\<rparr>;
          tx_keys = deterministic_keys_from_seed C tx1 tx_derivation_seed;
          e = extra_set (tb_extra B) (ExtraPublicKey (kp_public_key tx_keys));
          tx2 = tx1\<lparr>extra := extra_serialize e\<rparr>
      in bindR (sign_outputs C (kp_secret_key tx_keys) 0 odescs) (\<lambda>outs.
           let tx3 = tx2\<lparr>outputs := outs\<rparr>; hash = get_transaction_prefix_hash tx3
           in bindR (sign_inputs C rand hash idescs g2) (\<lambda>(sigs, g3). Inr (tx3\<lparr>signatures := sigs\<rparr>, g3))))"

section \<open>Relative indexes\<close>

fun differences :: "u32 \<Rightarrow> u32 list \<Rightarrow> u32 list" where
  "differences p [] = []"
| "differences p (x # xs) = (x - p) # differences x xs"

lemma differences_nth: "i < length xs \<Longrightarrow> differences p xs ! i = xs ! i - (if i = 0 then p else xs ! (i - 1))"
  by (induction p xs arbitrary: i rule: differences.induct) (auto simp: nth_Cons')

lemma length_differences [simp]: "length (differences p xs) = length xs"
  by (induction p xs rule: differences.induct) auto

lemma relative_differences: "absolute_output_offsets_to_relative off = differences 0 off"
  by (rule nth_equalityI) (auto simp: absolute_output_offsets_to_relative_def differences_nth)

lemma absolute_differences: "absolute_indexes p (differences p xs) = xs"
  by (induction p xs rule: differences.induct) auto

lemma absolute_relative: "absolute_indexes 0 (absolute_output_offsets_to_relative off) = off"
  by (simp add: relative_differences absolute_differences)

lemma length_relative [simp]: "length (absolute_output_offsets_to_relative off) = length off"
  by (simp add: relative_differences)

section \<open>Signatures as bytes\<close>

definition valid_signature :: "signature \<Rightarrow> bool" where
  "valid_signature s \<longleftrightarrow> valid_scalar (sig_c s) \<and> valid_scalar (sig_r s)"

lemma signature_bytes_back: "valid_signature s \<Longrightarrow> signature_of_bytes (signature_bytes s) = s"
  by (simp add: valid_signature_def signature_of_bytes_def signature_bytes_def valid_length)

lemma length_signature_bytes: "valid_signature s \<Longrightarrow> length (signature_bytes s) = 64"
  by (simp add: valid_signature_def signature_bytes_def valid_length)

lemma ring_loop_valid:
  assumes rand: "random_ok rand"
  shows "generate_ring_loop C rand image_unp s i pubs (buf, sigs, csum, k) g = Some ((buf', sigs', csum', k'), g') \<Longrightarrow>
    length sigs = i \<Longrightarrow> \<forall>j < length sigs. j \<noteq> s \<longrightarrow> valid_signature (sigs ! j) \<Longrightarrow>
    length sigs' = i + length pubs \<and> (\<forall>j < length sigs'. j \<noteq> s \<longrightarrow> valid_signature (sigs' ! j))"
proof (induction pubs arbitrary: i buf sigs csum k g)
  case Nil
  then show ?case by auto
next
  case (Cons pub pubs)
  show ?case
  proof (cases "i = s")
    case True
    obtain k1 g1 buf1 where run: "generate_ring_loop C rand image_unp s (i + 1) pubs (buf1, sigs @ [\<lparr>sig_c = [], sig_r = []\<rparr>], csum, k1) g1
        = Some ((buf', sigs', csum', k'), g')" using Cons.prems(1) True by (auto simp: Let_def split: prod.splits)
    have "\<forall>j < length (sigs @ [\<lparr>sig_c = [], sig_r = []\<rparr>]). j \<noteq> s \<longrightarrow> valid_signature ((sigs @ [\<lparr>sig_c = [], sig_r = []\<rparr>]) ! j)"
      using Cons.prems(2,3) True by (auto simp: nth_append)
    from Cons.IH[OF run _ this] Cons.prems(2) show ?thesis by simp
  next
    case False
    obtain c g1 where r1: "random_scalar rand g = (c, g1)" by (cases "random_scalar rand g")
    obtain r g2 where r2: "random_scalar rand g1 = (r, g2)" by (cases "random_scalar rand g1")
    let ?sig = "\<lparr>sig_c = c, sig_r = r\<rparr>"
    have v: "valid_signature ?sig" using random_scalar_valid[OF rand] r1 r2 by (auto simp: valid_signature_def)
    obtain buf1 csum1 where run: "generate_ring_loop C rand image_unp s (i + 1) pubs (buf1, sigs @ [?sig], csum1, k) g2
        = Some ((buf', sigs', csum', k'), g')" using Cons.prems(1) r1 r2 False by (auto simp: Let_def split: option.splits)
    have "\<forall>j < length (sigs @ [?sig]). j \<noteq> s \<longrightarrow> valid_signature ((sigs @ [?sig]) ! j)"
      using Cons.prems(2,3) v by (auto simp: nth_append less_Suc_eq)
    from Cons.IH[OF run _ this] Cons.prems(2) show ?thesis by simp
  qed
qed

lemma ring_signature_valid:
  assumes rand: "random_ok rand" "valid_scalar sec"
    and g: "generate_ring_signature C rand h ki pubs sec s g = Inr (Some (sigs, g'))"
  shows "\<forall>x \<in> set sigs. valid_signature x"
proof -
  obtain image_unp buf sigs1 csum k where s: "s < length pubs"
    and run: "generate_ring_loop C rand image_unp s 0 pubs (h, [], sc_0, []) g = Some ((buf, sigs1, csum, k), g')"
    and sigs: "sigs = sigs1[s := \<lparr>sig_c = sc_sub (hash_to_scalar buf) csum, sig_r = sc_mulsub (sc_sub (hash_to_scalar buf) csum) sec k\<rparr>]"
    using g by (auto simp: generate_ring_signature_def Let_def bindR_eq_Inr_iff split: if_splits option.splits prod.splits)
  have v1: "valid_scalar k" "valid_scalar csum" using ring_loop_key[OF rand(1) run] s sc_0_valid(1) by simp_all
  have c: "valid_scalar (sc_sub (hash_to_scalar buf) csum)" by (rule sc_sub_valid[OF valid_length[OF hash_to_scalar_valid] valid_length[OF v1(2)]])
  have "valid_scalar (sc_mulsub (sc_sub (hash_to_scalar buf) csum) sec k)"
    by (rule sc_mulsub_valid[OF valid_length[OF c] valid_length[OF rand(2)] valid_length[OF v1(1)]])
  then show ?thesis
    using ring_loop_valid[OF rand(1) run] s c by (auto simp: sigs in_set_conv_nth nth_list_update valid_signature_def)
qed

section \<open>The chain's view of the inputs\<close>

text \<open>The implementation of \<open>crypto_lib\<close> that the chain state is run with.\<close>

definition crypto_of :: "'p curve \<Rightarrow> crypto_lib" where
  "crypto_of C = \<lparr>c_key_isvalid = key_isvalid C,
     c_check_ring_signature = (\<lambda>h ki keys sigs. check_ring_signature C h ki keys (map signature_of_bytes sigs) True)\<rparr>"

text \<open>An output that the chain has, unlocked, with the key the builder was told.\<close>

definition chain_has :: "currency \<Rightarrow> state_reads \<Rightarrow> u32 \<Rightarrow> u32 \<Rightarrow> api_output \<Rightarrow> bool" where
  "chain_has c P height ts o' \<longleftrightarrow>
     (\<exists>x. rd_amount_output P (ao_amount o') (ao_global_index o') = Inr (Some x) \<and> od_public_key x = ao_public_key o' \<and>
          is_transaction_spend_time_unlocked c (od_unlock_time x) height ts)"

lemma ring_keys_of_chain:
  "\<forall>o' \<in> set outs. ao_amount o' = amount \<and> chain_has c P height ts o' \<Longrightarrow>
    \<exists>cf. ring_keys c P height ts amount conflict (map ao_global_index outs) = Inr (Inr (map ao_public_key outs, cf))"
proof (induction outs arbitrary: conflict)
  case Nil
  then show ?case by simp
next
  case (Cons o' outs)
  obtain x where x: "rd_amount_output P amount (ao_global_index o') = Inr (Some x)" "od_public_key x = ao_public_key o'"
    "is_transaction_spend_time_unlocked c (od_unlock_time x) height ts" using Cons.prems by (auto simp: chain_has_def)
  obtain cf where "ring_keys c P height ts amount (max conflict (od_height x)) (map ao_global_index outs) = Inr (Inr (map ao_public_key outs, cf))"
    using Cons.IH[of "max conflict (od_height x)"] Cons.prems by auto
  then show ?case using x by (simp add: Let_def)
qed

section \<open>Builders\<close>

text \<open>A description of an input that can be signed: the member of the ring at the real index is the key of the secret, and the key image is its image.\<close>

definition desc_ok :: "'p curve \<Rightarrow> input_desc \<Rightarrow> bool" where
  "desc_ok C d \<longleftrightarrow>
     valid_scalar (kp_secret_key (idesc_eph_keys d)) \<and> idesc_real_output_index d < length (idesc_outputs d) \<and>
     map ao_public_key (idesc_outputs d) ! idesc_real_output_index d = ge_tobytes C (ge_scalarmult_base C (kp_secret_key (idesc_eph_keys d))) \<and>
     (\<forall>o' \<in> set (idesc_outputs d). key_isvalid C (ao_public_key o') \<and> ao_amount o' = idesc_amount d) \<and>
     idesc_output_indexes d = absolute_output_offsets_to_relative (map ao_global_index (idesc_outputs d)) \<and>
     generate_key_image C (map ao_public_key (idesc_outputs d) ! idesc_real_output_index d) (kp_secret_key (idesc_eph_keys d)) = Inr (idesc_key_image d)"

definition builder_ok :: "'p curve \<Rightarrow> transaction_builder \<Rightarrow> bool" where
  "builder_ok C B \<longleftrightarrow>
     (\<forall>d \<in> set (tb_input_descs B). desc_ok C d) \<and>
     (\<forall>d \<in> set (tb_output_descs B). key_isvalid C (view_public_key (odesc_addr d)) \<and> key_isvalid C (spend_public_key (odesc_addr d)))"

text \<open>An output of the wallet with the given keys: its key and key image are those derived from the transaction's key.\<close>

definition owned :: "'p curve \<Rightarrow> account_keys \<Rightarrow> api_output \<Rightarrow> bool" where
  "owned C keys o' \<longleftrightarrow>
     valid_scalar (ak_view_secret_key keys) \<and> valid_scalar (ak_spend_secret_key keys) \<and>
     spend_public_key (ak_address keys) = ge_tobytes C (ge_scalarmult_base C (ak_spend_secret_key keys)) \<and>
     (\<exists>d x. generate_key_derivation C (ao_transaction_public_key o') (ak_view_secret_key keys) = Inr (Some d) \<and>
        derive_secret_key d (ucast (ao_index_in_transaction o')) (ak_spend_secret_key keys) = Inr x \<and>
        ao_public_key o' = ge_tobytes C (ge_scalarmult_base C x) \<and> generate_key_image C (ao_public_key o') x = Inr (ao_key_image o'))"

definition algorithms_ok :: "'g algorithms \<Rightarrow> bool" where
  "algorithms_ok A \<longleftrightarrow>
     (\<forall>xs. mset (std_sort A xs) = mset xs \<and> sorted (map ao_global_index (std_sort A xs))) \<and>
     (\<forall>xs g. mset (fst (std_shuffle_outputs A xs g)) = mset xs) \<and> (\<forall>xs g. mset (fst (std_shuffle_inputs A xs g)) = mset xs)"

lemma generate_key_image_helper_owned:
  assumes laws: "curve_laws C B" and "owned C keys o'"
  shows "\<exists>x. generate_key_image_helper C keys (ao_transaction_public_key o') (ucast (ao_index_in_transaction o'))
      = Inr (Some (\<lparr>kp_public_key = ao_public_key o', kp_secret_key = x\<rparr>, ao_key_image o')) \<and>
    valid_scalar x \<and> ao_public_key o' = ge_tobytes C (ge_scalarmult_base C x) \<and> generate_key_image C (ao_public_key o') x = Inr (ao_key_image o')"
proof -
  obtain d x where o': "valid_scalar (ak_spend_secret_key keys)" "spend_public_key (ak_address keys) = ge_tobytes C (ge_scalarmult_base C (ak_spend_secret_key keys))"
    "generate_key_derivation C (ao_transaction_public_key o') (ak_view_secret_key keys) = Inr (Some d)"
    "derive_secret_key d (ucast (ao_index_in_transaction o')) (ak_spend_secret_key keys) = Inr x"
    "ao_public_key o' = ge_tobytes C (ge_scalarmult_base C x)" "generate_key_image C (ao_public_key o') x = Inr (ao_key_image o')"
    using assms(2) by (auto simp: owned_def)
  have "valid_scalar x \<and> derive_public_key C d (ucast (ao_index_in_transaction o')) (spend_public_key (ak_address keys)) = Some (ao_public_key o')"
    using derived_keys_match[OF laws o'(1), of d "ucast (ao_index_in_transaction o')"] o'(2,4,5) by auto
  then show ?thesis using o' by (simp add: generate_key_image_helper_def)
qed

lemma lower_bound_le: "lower_bound_index outs v \<le> length outs"
  by (simp add: lower_bound_index_def length_takeWhile_le)

lemma add_input_owned:
  assumes laws: "curve_laws C B0" and A: "algorithms_ok A" and B: "builder_ok C B" and own: "owned C keys o'"
    and mix: "\<forall>m \<in> set mix. ao_amount m = ao_amount o' \<and> key_isvalid C (ao_public_key m)"
  shows "\<exists>B' d. add_input C A keys o' mix B = Inr (length (tb_input_descs B), B') \<and> builder_ok C B' \<and>
    tb_input_descs B' = tb_input_descs B @ [d] \<and> mset (idesc_outputs d) = add_mset o' (mset mix) \<and>
    sorted (map ao_global_index (idesc_outputs d)) \<and>
    tb_inputs_amount B' = tb_inputs_amount B + ao_amount o' \<and> tb_output_descs B' = tb_output_descs B"
proof -
  let ?outs = "std_sort A mix"
  let ?n = "lower_bound_index ?outs o'"
  let ?outs' = "take ?n ?outs @ [o'] @ drop ?n ?outs"
  obtain x where x: "generate_key_image_helper C keys (ao_transaction_public_key o') (ucast (ao_index_in_transaction o'))
      = Inr (Some (\<lparr>kp_public_key = ao_public_key o', kp_secret_key = x\<rparr>, ao_key_image o'))"
    "valid_scalar x" "ao_public_key o' = ge_tobytes C (ge_scalarmult_base C x)" "generate_key_image C (ao_public_key o') x = Inr (ao_key_image o')"
    using generate_key_image_helper_owned[OF laws own] by blast
  have set: "set ?outs = set mix" and sorted: "sorted (map ao_global_index ?outs)" and perm: "mset ?outs = mset mix"
    using A mset_eq_setD[of "std_sort A mix" mix] by (auto simp: algorithms_ok_def)
  have set': "set ?outs' = insert o' (set mix)"
    using set by (metis Un_insert_right append.simps(1,2) append_take_drop_id list.simps(15) set_append)
  have amounts: "\<not> list_ex (\<lambda>out. ao_amount out \<noteq> ao_amount o') ?outs'" using set' mix by (auto simp: list_ex_iff)
  have n: "?n \<le> length ?outs" by (rule lower_bound_le)
  have less: "\<forall>a \<in> set (take ?n ?outs). ao_global_index a \<le> ao_global_index o'"
    by (auto simp: lower_bound_index_def takeWhile_eq_take[symmetric] dest!: set_takeWhileD)
  have greater: "\<forall>a \<in> set (drop ?n ?outs). ao_global_index o' \<le> ao_global_index a"
  proof
    fix a assume a: "a \<in> set (drop ?n ?outs)"
    have d: "drop ?n ?outs = dropWhile (\<lambda>a. ao_global_index a < ao_global_index o') ?outs"
      by (simp add: lower_bound_index_def dropWhile_eq_drop)
    then have ne: "dropWhile (\<lambda>a. ao_global_index a < ao_global_index o') ?outs \<noteq> []" using a by (metis empty_iff empty_set)
    have "\<not> ao_global_index (hd (drop ?n ?outs)) < ao_global_index o'" using hd_dropWhile[OF ne] d by simp
    moreover have "sorted (map ao_global_index (drop ?n ?outs))" using sorted by (simp add: drop_map[symmetric] sorted_wrt_drop)
    then have "ao_global_index (hd (drop ?n ?outs)) \<le> ao_global_index a" using a by (cases "drop ?n ?outs") auto
    ultimately show "ao_global_index o' \<le> ao_global_index a" by simp
  qed
  have "sorted (map ao_global_index (take ?n ?outs))" "sorted (map ao_global_index (drop ?n ?outs))"
    using sorted by (simp_all add: drop_map[symmetric] take_map[symmetric] sorted_wrt_drop sorted_wrt_take)
  then have sorted': "sorted (map ao_global_index ?outs')"
    using less greater by (auto simp: sorted_append intro: order_trans)
  have perm': "mset ?outs' = add_mset o' (mset mix)"
    using perm by (metis append_take_drop_id mset.simps(2) mset_append union_mset_add_mset_right append_Cons append_Nil)
  let ?d = "\<lparr>idesc_outputs = ?outs', idesc_real_output_index = ?n, idesc_eph_keys = \<lparr>kp_public_key = ao_public_key o', kp_secret_key = x\<rparr>,
     idesc_amount = ao_amount o', idesc_output_indexes = absolute_output_offsets_to_relative (map ao_global_index ?outs'), idesc_key_image = ao_key_image o'\<rparr>"
  have at: "map ao_public_key ?outs' ! ?n = ao_public_key o'" using n by (simp add: nth_append)
  have valid: "key_isvalid C (ao_public_key o')" unfolding x(3) by (rule key_isvalid_encoding[OF laws])
  have d_ok: "desc_ok C ?d"
    unfolding desc_ok_def using x at n set' mix valid by (auto simp: nth_append)
  let ?B' = "B\<lparr>tb_inputs_amount := tb_inputs_amount B + ao_amount o', tb_input_descs := tb_input_descs B @ [?d]\<rparr>"
  have "builder_ok C ?B'"
    using B d_ok by (auto simp: builder_ok_def)
  moreover have "add_input C A keys o' mix B =
      Inr (length (tb_input_descs B), ?B')"
    using x(1) amounts by (simp add: add_input_def Let_def)
  ultimately show ?thesis using perm' sorted' by (intro exI[of _ ?B'] exI[of _ ?d] conjI) simp_all
qed

lemma add_output_ok:
  assumes "builder_ok C B" "key_isvalid C (view_public_key to)" "key_isvalid C (spend_public_key to)"
  shows "builder_ok C (snd (add_output amount to B))"
  using assms by (auto simp: builder_ok_def add_output_def)

lemma new_builder_ok: "builder_ok C (new_builder c ut)"
  by (simp add: builder_ok_def new_builder_def)

section \<open>Signing\<close>

lemma derive_output_key_total:
  assumes laws: "curve_laws C B" and "valid_scalar x" "key_isvalid C (view_public_key to)" "key_isvalid C (spend_public_key to)"
  shows "\<exists>k. derive_output_key C to x i = Inr (Some k) \<and> key_isvalid C k"
proof -
  obtain V S where "ge_frombytes C (view_public_key to) = Some V" "ge_frombytes C (spend_public_key to) = Some S"
    using assms by (auto simp: key_isvalid_def)
  then show ?thesis
    using sc_isvalid_iff[OF assms(2)] by (simp add: derive_output_key_def generate_key_derivation_def derive_public_key_def key_isvalid_encoding[OF laws])
qed

lemma sign_outputs_total:
  assumes laws: "curve_laws C B" "valid_scalar x"
  shows "\<forall>d \<in> set ds. key_isvalid C (view_public_key (odesc_addr d)) \<and> key_isvalid C (spend_public_key (odesc_addr d)) \<Longrightarrow>
    \<exists>outs. sign_outputs C x i ds = Inr outs \<and> map out_amount outs = map odesc_amount ds \<and>
      (\<forall>v \<in> set outs. key_isvalid C (out_key (out_target v)))"
proof (induction ds arbitrary: i)
  case Nil
  then show ?case by simp
next
  case (Cons d ds)
  obtain k where "derive_output_key C (odesc_addr d) x (word_of_nat i) = Inr (Some k)" "key_isvalid C k"
    using derive_output_key_total[OF laws, of "odesc_addr d"] Cons.prems by auto
  moreover obtain outs where "sign_outputs C x (i + 1) ds = Inr outs" "map out_amount outs = map odesc_amount ds"
    "\<forall>v \<in> set outs. key_isvalid C (out_key (out_target v))" using Cons.IH[of "i + 1"] Cons.prems by auto
  ultimately show ?case by simp
qed

lemma sign_inputs_total:
  assumes laws: "curve_laws C B" and rand: "random_ok rand"
  shows "\<forall>d \<in> set ds. desc_ok C d \<Longrightarrow> \<exists>sigs g'. sign_inputs C rand hash ds g = Inr (sigs, g') \<and>
    list_all2 (\<lambda>d s. length s = length (idesc_outputs d) \<and> (\<forall>x \<in> set s. length x = 64) \<and>
      check_ring_signature C hash (idesc_key_image d) (map ao_public_key (idesc_outputs d)) (map signature_of_bytes s) True = (True, False)) ds sigs"
proof (induction ds arbitrary: g)
  case Nil
  then show ?case by simp
next
  case (Cons d ds)
  have d: "valid_scalar (kp_secret_key (idesc_eph_keys d))" "idesc_real_output_index d < length (map ao_public_key (idesc_outputs d))"
    "map ao_public_key (idesc_outputs d) ! idesc_real_output_index d = ge_tobytes C (ge_scalarmult_base C (kp_secret_key (idesc_eph_keys d)))"
    "\<forall>p \<in> set (map ao_public_key (idesc_outputs d)). key_isvalid C p"
    "generate_key_image C (map ao_public_key (idesc_outputs d) ! idesc_real_output_index d) (kp_secret_key (idesc_eph_keys d)) = Inr (idesc_key_image d)"
    using Cons.prems by (auto simp: desc_ok_def)
  obtain sigs1 g1 where g: "generate_ring_signature C rand hash (idesc_key_image d) (map ao_public_key (idesc_outputs d))
      (kp_secret_key (idesc_eph_keys d)) (idesc_real_output_index d) g = Inr (Some (sigs1, g1))"
    using generate_ring_signature_total[OF laws d, of rand hash g] by blast
  have v: "\<forall>x \<in> set sigs1. valid_signature x" by (rule ring_signature_valid[OF rand d(1) g])
  then have read_back: "map signature_of_bytes (map signature_bytes sigs1) = sigs1" by (induction sigs1) (auto simp: signature_bytes_back)
  obtain sigs g' where "sign_inputs C rand hash ds g1 = Inr (sigs, g')"
    "list_all2 (\<lambda>d s. length s = length (idesc_outputs d) \<and> (\<forall>x \<in> set s. length x = 64) \<and>
      check_ring_signature C hash (idesc_key_image d) (map ao_public_key (idesc_outputs d)) (map signature_of_bytes s) True = (True, False)) ds sigs"
    using Cons.IH[of g1] Cons.prems by auto
  then show ?case
    using g ring_signature_accepted[OF laws rand d(1) g] read_back v by (auto simp: length_signature_bytes simp del: map_map)
qed

section \<open>The rules hold for what is signed\<close>

lemma zero_not_in_differences: "sorted_wrt (<) (p # xs) \<Longrightarrow> 0 \<notin> set (differences p xs)"
  by (induction p xs rule: differences.induct) auto

lemma validate_inputs_succeeds:
  "unat s + sum_list (map (\<lambda>d. unat (idesc_amount d)) ds) < 2 ^ 64 \<Longrightarrow> distinct (map idesc_key_image ds) \<Longrightarrow>
    set (map idesc_key_image ds) \<inter> set seen = {} \<Longrightarrow>
    \<forall>d \<in> set ds. desc_ok C d \<and> sorted_wrt (<) (map ao_global_index (idesc_outputs d)) \<Longrightarrow>
    \<exists>t. validate_inputs False s seen (map desc_input ds) = Inr t"
proof (induction ds arbitrary: s seen)
  case Nil
  then show ?case by simp
next
  case (Cons d ds)
  then have sum: "unat (s + idesc_amount d) = unat s + unat (idesc_amount d)" by (simp add: unat_word_ariths)
  have g: "\<not> - 1 - idesc_amount d < s" using Cons.prems(1) by (simp add: no_overflow_guard)
  have d: "desc_ok C d" "sorted_wrt (<) (map ao_global_index (idesc_outputs d))" using Cons.prems(4) by auto
  obtain o1 os where os: "idesc_outputs d = o1 # os" using d(1) by (cases "idesc_outputs d") (auto simp: desc_ok_def)
  have idx: "idesc_output_indexes d \<noteq> []" "0 \<notin> set (tl (idesc_output_indexes d))"
    using d zero_not_in_differences[of "ao_global_index o1" "map ao_global_index os"] by (auto simp: desc_ok_def relative_differences os)
  have "\<exists>t. validate_inputs False (s + idesc_amount d) (idesc_key_image d # seen) (map desc_input ds) = Inr t"
    using Cons.IH[of "s + idesc_amount d" "idesc_key_image d # seen"] Cons.prems sum by auto
  moreover have "validate_input False seen (desc_input d) = Inr (idesc_amount d, idesc_key_image d # seen)"
    using idx Cons.prems(3) by (simp add: validate_input_def desc_input_def)
  ultimately show ?case using g by auto
qed

lemma check_input_succeeds:
  assumes "desc_ok C d" and "\<forall>o' \<in> set (idesc_outputs d). chain_has c P height ts o'" and "rd_keyimage P (idesc_key_image d) = Inr None"
    and "i < length sigs" and "check_ring_signature C h (idesc_key_image d) (map ao_public_key (idesc_outputs d)) (map signature_of_bytes (sigs ! i)) True = (True, False)"
  shows "\<exists>cf. check_input (crypto_of C) c P height ts h sigs i conflict (idesc_amount d) (idesc_output_indexes d) (idesc_key_image d) = Inr (Inr cf)"
proof -
  have ok: "\<forall>o' \<in> set (idesc_outputs d). ao_amount o' = idesc_amount d \<and> chain_has c P height ts o'" using assms(1,2) by (simp add: desc_ok_def)
  obtain cf where "ring_keys c P height ts (idesc_amount d) conflict (map ao_global_index (idesc_outputs d)) = Inr (Inr (map ao_public_key (idesc_outputs d), cf))"
    using ring_keys_of_chain[OF ok] by blast
  moreover have "idesc_output_indexes d = absolute_output_offsets_to_relative (map ao_global_index (idesc_outputs d))"
    "idesc_output_indexes d \<noteq> []" using assms(1) by (auto simp: desc_ok_def relative_differences neq_Nil_conv) (cases "idesc_outputs d"; simp)
  ultimately show ?thesis using assms(3-5) by (simp add: check_input_def absolute_relative crypto_of_def)
qed

lemma outputs_total_amounts: "outputs_total outs = amounts_sum (map out_amount outs)"
  by (simp add: outputs_total_def comp_def)

lemma inputs_total_descs: "inputs_total (map desc_input ds) = amounts_sum (map idesc_amount ds)"
  by (simp add: inputs_total_def desc_input_def comp_def)

lemma amounts_sum_mset: "mset xs = mset ys \<Longrightarrow> amounts_sum (map f xs) = amounts_sum (map f ys)"
  by (metis mset_map sum_mset_sum_list)

lemma signed_transaction_ok:
  assumes laws: "curve_laws C B0" and rand: "random_ok rand" and A: "algorithms_ok A" and B: "builder_ok C B"
    and ins: "tb_input_descs B \<noteq> []" "distinct (map idesc_key_image (tb_input_descs B))"
      "\<forall>d \<in> set (tb_input_descs B). sorted_wrt (<) (map ao_global_index (idesc_outputs d))"
    and outs: "\<forall>d \<in> set (tb_output_descs B). odesc_amount d \<noteq> 0"
    and sums: "amounts_sum (map idesc_amount (tb_input_descs B)) < 2 ^ 64"
      "amounts_sum (map odesc_amount (tb_output_descs B)) \<le> amounts_sum (map idesc_amount (tb_input_descs B))"
  shows "\<exists>tx g' ids. sign C rand A seed B g = Inr (tx, g') \<and> mset ids = mset (tb_input_descs B) \<and> inputs tx = map desc_input ids \<and>
    mset (map out_amount (outputs tx)) = mset (map odesc_amount (tb_output_descs B)) \<and>
    (\<exists>fee. validate_semantic (crypto_of C) False tx True = Inr fee \<and>
       unat fee = amounts_sum (map idesc_amount (tb_input_descs B)) - amounts_sum (map odesc_amount (tb_output_descs B))) \<and>
    list_all2 (\<lambda>d s. length s = length (idesc_outputs d) \<and> (\<forall>x \<in> set s. length x = 64) \<and>
      check_ring_signature C (get_transaction_prefix_hash tx) (idesc_key_image d) (map ao_public_key (idesc_outputs d)) (map signature_of_bytes s) True = (True, False))
      ids (signatures tx)"
proof -
  obtain od1 g1 where o1: "std_shuffle_outputs A (tb_output_descs B) g = (od1, g1)" by (cases "std_shuffle_outputs A (tb_output_descs B) g")
  obtain id1 g2 where i1: "std_shuffle_inputs A (tb_input_descs B) g1 = (id1, g2)" by (cases "std_shuffle_inputs A (tb_input_descs B) g1")
  define ods ids where "ods = sort_key odesc_amount od1" and "ids = sort_key idesc_amount id1"
  have mo: "mset ods = mset (tb_output_descs B)" and mi: "mset ids = mset (tb_input_descs B)"
    using A o1 i1 unfolding algorithms_ok_def ods_def ids_def by (metis fst_conv mset_sort)+
  note so = mset_eq_setD[OF mo] and si = mset_eq_setD[OF mi]
  let ?tx1 = "(tb_transaction B)\<lparr>inputs := map desc_input ids\<rparr>"
  let ?keys = "deterministic_keys_from_seed C ?tx1 seed"
  let ?tx2 = "?tx1\<lparr>extra := extra_serialize (extra_set (tb_extra B) (ExtraPublicKey (kp_public_key ?keys)))\<rparr>"
  have keyv: "valid_scalar (kp_secret_key ?keys)"
    by (simp add: deterministic_keys_from_seed_def deterministic_keys_from_hash_def hash_to_scalar_valid Let_def)
  obtain os where os: "sign_outputs C (kp_secret_key ?keys) 0 ods = Inr os" "map out_amount os = map odesc_amount ods"
    "\<forall>v \<in> set os. key_isvalid C (out_key (out_target v))"
    using sign_outputs_total[OF laws keyv, of ods 0] B so by (auto simp: builder_ok_def)
  let ?tx3 = "?tx2\<lparr>outputs := os\<rparr>"
  obtain sigs g3 where sigs: "sign_inputs C rand (get_transaction_prefix_hash ?tx3) ids g2 = Inr (sigs, g3)"
    "list_all2 (\<lambda>d s. length s = length (idesc_outputs d) \<and> (\<forall>x \<in> set s. length x = 64) \<and>
      check_ring_signature C (get_transaction_prefix_hash ?tx3) (idesc_key_image d) (map ao_public_key (idesc_outputs d)) (map signature_of_bytes s) True = (True, False)) ids sigs"
    using sign_inputs_total[OF laws rand, of ids "get_transaction_prefix_hash ?tx3" g2] B si by (auto simp: builder_ok_def)
  let ?tx = "?tx3\<lparr>signatures := sigs\<rparr>"
  have signed: "sign C rand A seed B g = Inr (?tx, g3)"
    using o1 i1 os(1) sigs(1) by (simp add: sign_def Let_def ods_def[symmetric] ids_def[symmetric])
  have same_hash: "get_transaction_prefix_hash ?tx = get_transaction_prefix_hash ?tx3"
    by (simp add: get_transaction_prefix_hash_def write_prefix_def)
  have total_in: "amounts_sum (map idesc_amount ids) = amounts_sum (map idesc_amount (tb_input_descs B))"
    and total_out: "amounts_sum (map out_amount os) = amounts_sum (map odesc_amount (tb_output_descs B))"
    unfolding os(2) by (rule amounts_sum_mset[OF mi] amounts_sum_mset[OF mo])+
  have "map out_amount os = map odesc_amount ods" by (rule os(2))
  then have nz: "\<forall>v \<in> set os. out_amount v \<noteq> 0" using outs so by (metis (no_types, lifting) imageE list.set_map image_eqI)
  obtain ov where ov: "validate_outputs (crypto_of C) True 0 os = Inr ov" "unat ov = amounts_sum (map out_amount os)"
    using validate_outputs_pass[of os "crypto_of C" 0 True] nz os(3) sums total_out by (auto simp: crypto_of_def)
  have "distinct (map idesc_key_image ids)" using ins(2) mi by (metis mset_eq_imp_distinct_iff mset_map)
  then obtain iv where iv: "validate_inputs False 0 [] (map desc_input ids) = Inr iv"
    using validate_inputs_succeeds[of 0 ids "[]" C] B ins(3) si sums(1) total_in by (auto simp: builder_ok_def comp_def)
  then have ivv: "unat iv = amounts_sum (map idesc_amount ids)" using validate_inputs_total[OF iv] by (simp add: inputs_total_descs)
  have le: "unat ov \<le> unat iv" using ov(2) ivv total_in total_out sums(2) by simp
  have "length sigs = length ids" using list_all2_lengthD[OF sigs(2)] by simp
  moreover have "ids \<noteq> []" using ins(1) mi by auto
  ultimately have "validate_semantic (crypto_of C) False ?tx True = Inr (iv - ov)"
    using ov(1) iv le by (simp add: validate_semantic_def word_less_nat_alt)
  moreover have "unat (iv - ov) = amounts_sum (map idesc_amount (tb_input_descs B)) - amounts_sum (map odesc_amount (tb_output_descs B))"
    using le ov(2) ivv total_in total_out by (simp add: unat_sub word_le_nat_alt)
  moreover have "mset (map out_amount os) = mset (map odesc_amount (tb_output_descs B))" unfolding os(2) by (simp add: mo)
  ultimately show ?thesis
    using signed mi sigs(2) by (intro exI[of _ ?tx] exI[of _ g3] exI[of _ ids] conjI exI[of _ "iv - ov"]) (simp_all add: same_hash)
qed

section \<open>Properties\<close>

text \<open>C5: A transaction signed from well-formed descriptions of inputs and outputs is one the chain takes: \<open>sign\<close> succeeds for any order the
shuffles choose, \<open>validate_semantic\<close> accepts the transaction with the fee that inputs and outputs leave, and every input, whose ring the chain
has and whose key image is unspent, passes the check of \<open>redo_transaction_get_error\<close>.\<close>

theorem signed_transaction_accepted:
  assumes "curve_laws C B0" "random_ok rand" "algorithms_ok A" "builder_ok C B"
    and "tb_input_descs B \<noteq> []" "distinct (map idesc_key_image (tb_input_descs B))"
    and "\<forall>d \<in> set (tb_input_descs B). sorted_wrt (<) (map ao_global_index (idesc_outputs d))"
    and "\<forall>d \<in> set (tb_output_descs B). odesc_amount d \<noteq> 0"
    and "amounts_sum (map idesc_amount (tb_input_descs B)) < 2 ^ 64"
    and "amounts_sum (map odesc_amount (tb_output_descs B)) \<le> amounts_sum (map idesc_amount (tb_input_descs B))"
    and "\<forall>d \<in> set (tb_input_descs B). rd_keyimage P (idesc_key_image d) = Inr None \<and> (\<forall>o' \<in> set (idesc_outputs d). chain_has c P height ts o')"
  shows "\<exists>tx g' fee. sign C rand A seed B g = Inr (tx, g') \<and> validate_semantic (crypto_of C) False tx True = Inr fee \<and>
    unat fee = amounts_sum (map idesc_amount (tb_input_descs B)) - amounts_sum (map odesc_amount (tb_output_descs B)) \<and>
    (\<forall>i < length (inputs tx). \<exists>amount idx ki cf. inputs tx ! i = KeyInput amount idx ki \<and>
       check_input (crypto_of C) c P height ts (get_transaction_prefix_hash tx) (signatures tx) i conflict amount idx ki = Inr (Inr cf))"
proof -
  obtain tx g' ids fee where tx: "sign C rand A seed B g = Inr (tx, g')" "mset ids = mset (tb_input_descs B)" "inputs tx = map desc_input ids"
    "validate_semantic (crypto_of C) False tx True = Inr fee"
    "unat fee = amounts_sum (map idesc_amount (tb_input_descs B)) - amounts_sum (map odesc_amount (tb_output_descs B))"
    and sigs: "list_all2 (\<lambda>d s. length s = length (idesc_outputs d) \<and> (\<forall>x \<in> set s. length x = 64) \<and>
      check_ring_signature C (get_transaction_prefix_hash tx) (idesc_key_image d) (map ao_public_key (idesc_outputs d)) (map signature_of_bytes s) True = (True, False))
      ids (signatures tx)"
    using signed_transaction_ok[OF assms(1-10), of seed g] by blast
  have "\<exists>amount idx ki cf. inputs tx ! i = KeyInput amount idx ki \<and>
      check_input (crypto_of C) c P height ts (get_transaction_prefix_hash tx) (signatures tx) i conflict amount idx ki = Inr (Inr cf)"
    if i: "i < length (inputs tx)" for i
  proof -
    have d: "ids ! i \<in> set (tb_input_descs B)" 
    proof -
      have "i < length ids" using i unfolding tx(3) by simp
      then have "ids ! i \<in> set ids" by (rule nth_mem)
      then show ?thesis unfolding mset_eq_setD[OF tx(2)] .
    qed
    then have ok: "desc_ok C (ids ! i)" using assms(4) by (simp add: builder_ok_def)
    have len: "i < length (signatures tx)" using i tx(3) list_all2_lengthD[OF sigs] by simp
    have check: "check_ring_signature C (get_transaction_prefix_hash tx) (idesc_key_image (ids ! i)) (map ao_public_key (idesc_outputs (ids ! i)))
        (map signature_of_bytes (signatures tx ! i)) True = (True, False)" using list_all2_nthD[OF sigs, of i] i tx(3) by simp
    have free: "\<forall>o' \<in> set (idesc_outputs (ids ! i)). chain_has c P height ts o'" "rd_keyimage P (idesc_key_image (ids ! i)) = Inr None"
      using assms(11) d by blast+
    have "inputs tx ! i = KeyInput (idesc_amount (ids ! i)) (idesc_output_indexes (ids ! i)) (idesc_key_image (ids ! i))"
      using i by (simp add: tx(3) desc_input_def)
    then show ?thesis using check_input_succeeds[OF ok free len check, of conflict] by blast
  qed
  then show ?thesis using tx(1,4,5) by blast
qed

definition sample_output :: "u32 \<Rightarrow> int \<Rightarrow> api_output" where
  "sample_output gi x = \<lparr>ao_amount = 1000, ao_public_key = scalar_of x, ao_global_index = gi, ao_unlock_time = 0, ao_index_in_transaction = 0,
     ao_height = 1, ao_key_image = [], ao_transaction_public_key = [], ao_address = [], ao_dust = False\<rparr>"

definition sample_builder :: transaction_builder where
  "sample_builder = (new_builder (mk_currency False (replicate 32 0) []) 0)
     \<lparr>tb_input_descs := [\<lparr>idesc_outputs = [sample_output 3 9, sample_output 7 5], idesc_real_output_index = 1,
        idesc_eph_keys = \<lparr>kp_public_key = scalar_of 5, kp_secret_key = scalar_of 5\<rparr>, idesc_amount = 1000,
        idesc_output_indexes = absolute_output_offsets_to_relative [3, 7],
        idesc_key_image = ge_tobytes residue_curve (ge_scalarmult residue_curve (scalar_of 5) (hash_to_ec_point residue_curve (scalar_of 5)))\<rparr>],
      tb_output_descs := [\<lparr>odesc_amount = 900, odesc_addr = \<lparr>spend_public_key = scalar_of 3, view_public_key = scalar_of 4\<rparr>\<rparr>]\<rparr>"

definition sample_reads :: state_reads where
  "sample_reads = \<lparr>rd_keyimage = (\<lambda>_. Inr None), rd_next_global_index = (\<lambda>_. Inr 9),
     rd_amount_output = (\<lambda>a gi. Inr (Some \<lparr>od_unlock_time = 0, od_public_key = scalar_of (if gi = 3 then 9 else 5), od_height = 1, od_spent = False\<rparr>))\<rparr>"

definition sample_algorithms :: "nat algorithms" where
  "sample_algorithms = \<lparr>std_sort = sort_key ao_global_index, std_shuffle_outputs = (\<lambda>xs g. (rev xs, g)), std_shuffle_inputs = (\<lambda>xs g. (rev xs, g + 1))\<rparr>"


lemma sample_key: "ge_tobytes residue_curve (ge_scalarmult_base residue_curve (scalar_of x)) = scalar_of x"
  by (simp add: residue_curve_def residue_int_of)

lemma sample_key_valid: "key_isvalid residue_curve (scalar_of x)"
  by (simp add: key_isvalid_def residue_curve_def)

theorem signed_transaction_accepted_witness:
  "\<exists>tx g' fee. sign residue_curve sample_random sample_algorithms (replicate 32 8) sample_builder 0 = Inr (tx, g') \<and>
    validate_semantic (crypto_of residue_curve) False tx True = Inr fee \<and> unat fee = 100 \<and>
    (\<forall>i < length (inputs tx). \<exists>amount idx ki cf. inputs tx ! i = KeyInput amount idx ki \<and>
       check_input (crypto_of residue_curve) (mk_currency False (replicate 32 0) []) sample_reads 10 1000 (get_transaction_prefix_hash tx) (signatures tx) i 0
         amount idx ki = Inr (Inr cf))"
proof -
  let ?c = "mk_currency False (replicate 32 0) []"
  have alg: "algorithms_ok sample_algorithms" by (simp add: algorithms_ok_def sample_algorithms_def)
  have has: "chain_has ?c sample_reads 10 1000 (sample_output 3 9)" "chain_has ?c sample_reads 10 1000 (sample_output 7 5)"
    by (simp_all add: chain_has_def sample_reads_def sample_output_def is_transaction_spend_time_unlocked_def mk_currency_def)
  have ok: "builder_ok residue_curve sample_builder"
    by (simp add: builder_ok_def sample_builder_def desc_ok_def sample_key sample_key_valid sample_output_def generate_key_image_def sc_isvalid_iff)
  have amounts: "amounts_sum (map idesc_amount (tb_input_descs sample_builder)) = 1000"
    "amounts_sum (map odesc_amount (tb_output_descs sample_builder)) = 900" by (simp_all add: sample_builder_def)
  have rest: "tb_input_descs sample_builder \<noteq> []" "distinct (map idesc_key_image (tb_input_descs sample_builder))"
    "\<forall>d \<in> set (tb_input_descs sample_builder). sorted_wrt (<) (map ao_global_index (idesc_outputs d))"
    "\<forall>d \<in> set (tb_output_descs sample_builder). odesc_amount d \<noteq> 0"
    by (simp_all add: sample_builder_def sample_output_def)
  have chain: "\<forall>d \<in> set (tb_input_descs sample_builder). rd_keyimage sample_reads (idesc_key_image d) = Inr None \<and>
      (\<forall>o' \<in> set (idesc_outputs d). chain_has ?c sample_reads 10 1000 o')"
    using has by (simp add: sample_builder_def sample_reads_def)
  show ?thesis
    using signed_transaction_accepted[OF residue_laws sample_random_ok alg ok rest _ _ chain, of "replicate 32 8" 0 0] unfolding amounts by simp
qed

end
