(* ===== verification/CoinSelection.thy ===== *)
theory CoinSelection
  imports TxBuilder
begin

text \<open>
  The choice of the outputs a payment spends: the class \<open>UnspentSelector\<close> of \<open>src/src/Core/TransactionBuilder.cpp\<close>. The maps
  of the code (\<open>std::map\<close>) are association lists in the order of the keys; \<open>back()\<close> of an empty vector and the use of an
  erased entry are \<open>Inl Undefined\<close>. The log lines are left out. The theorems show that coins are neither lost nor invented, that nothing undefined
  happens, when the funds are enough, and that the loop over the fee ends.
\<close>

section \<open>Definitions\<close>

subsection \<open>Ordered maps\<close>

fun om_put :: "'k::linorder \<Rightarrow> 'v \<Rightarrow> ('k \<times> 'v) list \<Rightarrow> ('k \<times> 'v) list" where
  "om_put k v [] = [(k, v)]"
| "om_put k v ((k', v') # m) = (if k < k' then (k, v) # (k', v') # m else if k = k' then (k, v) # m else (k', v') # om_put k v m)"

definition om_del :: "'k \<Rightarrow> ('k \<times> 'v) list \<Rightarrow> ('k \<times> 'v) list" where
  "om_del k m = filter (\<lambda>p. fst p \<noteq> k) m"

definition om_lower_bound :: "'k::linorder \<Rightarrow> ('k \<times> 'v) list \<Rightarrow> ('k \<times> 'v) option" where
  "om_lower_bound k m = List.find (\<lambda>p. k \<le> fst p) m"

subsection \<open>State\<close>

text \<open>Per number of digits, per leading digit, the outputs; the dust by its amount.\<close>

type_synonym coin_map = "(u64 \<times> api_output list) list"
type_synonym have_map = "(nat \<times> coin_map) list"

record selector =
  us_unspents :: "api_output list"
  us_used_unspents :: "api_output list"
  us_optimization_unspents :: "api_output list"
  us_used_total :: u64
  us_inputs_count :: u64
  us_ra_amounts :: "u64 list"

text \<open>The selector together with the maps that the operations take by pointer.\<close>

record selection = selector +
  us_have_coins :: have_map
  us_dust_coins :: coin_map

definition new_selector :: "api_output list \<Rightarrow> selector" where
  "new_selector unspents = \<lparr>us_unspents = unspents, us_used_unspents = [], us_optimization_unspents = [], us_used_total = 0,
     us_inputs_count = 0, us_ra_amounts = []\<rparr>"

definition reset_selector :: "api_output list \<Rightarrow> selector \<Rightarrow> selector" where
  "reset_selector unspents S = S\<lparr>us_unspents := unspents, us_used_unspents := [], us_optimization_unspents := [], us_used_total := 0,
     us_inputs_count := 0, us_ra_amounts := []\<rparr>"

text \<open>The loop that counts the digits and leaves the leading one.\<close>

function leading_digit :: "nat \<Rightarrow> u64 \<Rightarrow> nat \<times> u64" where
  "leading_digit digit am = (if 9 < am then leading_digit (digit + 1) (am div 10) else (digit, am))"
  by pat_completeness auto
termination
  by (relation "measure (\<lambda>(digit, am). unat am)") (auto simp: unat_div_distrib word_less_nat_alt)

declare leading_digit.simps [simp del]

definition put_have :: "api_output \<Rightarrow> have_map \<Rightarrow> have_map" where
  "put_have un hc =
     (let (digit, am) = leading_digit 0 (ao_amount un);
          inner = (case map_of hc digit of None \<Rightarrow> [] | Some m \<Rightarrow> m);
          uns = (case map_of inner am of None \<Rightarrow> [] | Some l \<Rightarrow> l)
      in om_put digit (om_put am (uns @ [un]) inner) hc)"

definition put_dust :: "api_output \<Rightarrow> coin_map \<Rightarrow> coin_map" where
  "put_dust un dc = om_put (ao_amount un) ((case map_of dc (ao_amount un) of None \<Rightarrow> [] | Some l \<Rightarrow> l) @ [un]) dc"

text \<open>One output of the loop of \<open>create_have_coins\<close>, and the loop in the reverse order of the unspents.\<close>

definition sort_coin :: "currency \<Rightarrow> u32 \<Rightarrow> u32 \<Rightarrow> u32 \<Rightarrow> api_output \<Rightarrow> have_map \<times> coin_map \<times> nat \<Rightarrow> have_map \<times> coin_map \<times> nat" where
  "sort_coin c block_height block_time confirmed_height un acc =
     (case acc of (hc, dc, max_digit) \<Rightarrow>
        if confirmed_height \<le> ao_height un then acc
        else if \<not> is_transaction_spend_time_unlocked c (ao_unlock_time un) block_height block_time then acc
        else if \<not> is_dust (ao_amount un) then (put_have un hc, dc, max max_digit (fst (leading_digit 0 (ao_amount un))))
        else (hc, put_dust un dc, max_digit))"

definition create_have_coins :: "currency \<Rightarrow> u32 \<Rightarrow> u32 \<Rightarrow> u32 \<Rightarrow> api_output list \<Rightarrow> have_map \<times> coin_map \<times> nat" where
  "create_have_coins c block_height block_time confirmed_height unspents =
     fold (sort_coin c block_height block_time confirmed_height) (rev unspents) ([], [], 0)"

definition combine_optimized_unspents :: "selection \<Rightarrow> selection" where
  "combine_optimized_unspents S =
     S\<lparr>us_ra_amounts := us_ra_amounts S @ map ao_amount (us_optimization_unspents S),
       us_used_unspents := us_used_unspents S @ us_optimization_unspents S, us_optimization_unspents := []\<rparr>"

definition put_back :: "api_output \<Rightarrow> selection \<Rightarrow> selection" where
  "put_back un S =
     (let S1 = S\<lparr>us_used_total := us_used_total S - ao_amount un, us_inputs_count := us_inputs_count S - 1\<rparr>
      in if \<not> ao_dust un then S1\<lparr>us_have_coins := put_have un (us_have_coins S1)\<rparr> else S1\<lparr>us_dust_coins := put_dust un (us_dust_coins S1)\<rparr>)"

definition unoptimize_amounts :: "selection \<Rightarrow> selection" where
  "unoptimize_amounts S = (fold put_back (us_optimization_unspents S) S)\<lparr>us_optimization_unspents := []\<rparr>"

subsection \<open>Taking a coin\<close>

definition use_coin :: "api_output \<Rightarrow> selection \<Rightarrow> selection" where
  "use_coin un S = S\<lparr>us_optimization_unspents := us_optimization_unspents S @ [un], us_used_total := us_used_total S + ao_amount un,
     us_inputs_count := us_inputs_count S + 1\<rparr>"

text \<open>The last output of the vector at a key, which is erased when it gets empty.\<close>

definition pop_coin :: "u64 \<Rightarrow> coin_map \<Rightarrow> (api_output \<times> coin_map) result" where
  "pop_coin k m =
     (case map_of m k of
        None \<Rightarrow> Inl Undefined
      | Some uns \<Rightarrow>
          if uns = [] then Inl Undefined
          else Inr (last uns, if butlast uns = [] then om_del k m else om_put k (butlast uns) m))"

definition take_have :: "nat \<Rightarrow> u64 \<Rightarrow> selection \<Rightarrow> selection result" where
  "take_have digit am S =
     (case map_of (us_have_coins S) digit of
        None \<Rightarrow> Inl Undefined
      | Some inner \<Rightarrow>
          bindR (pop_coin am inner) (\<lambda>(un, inner').
            Inr ((use_coin un S)\<lparr>us_have_coins := (if inner' = [] then om_del digit (us_have_coins S) else om_put digit inner' (us_have_coins S))\<rparr>)))"

definition take_dust :: "u64 \<Rightarrow> selection \<Rightarrow> selection result" where
  "take_dust amount S = bindR (pop_coin amount (us_dust_coins S)) (\<lambda>(un, dc). Inr ((use_coin un S)\<lparr>us_dust_coins := dc\<rparr>))"

subsection \<open>Optimisation of the digits\<close>

definition fake_large :: u64 where "fake_large = 1000000000000000000"
definition OPTIMIZATIONS_PER_TX :: nat where "OPTIMIZATIONS_PER_TX = 50"
definition OPTIMIZATIONS_PER_TX_AGGRESSIVE :: nat where "OPTIMIZATIONS_PER_TX_AGGRESSIVE = 200"
definition MEDIAN_PERCENT :: u64 where "MEDIAN_PERCENT = 12"
definition MEDIAN_PERCENT_AGGRESSIVE :: u64 where "MEDIAN_PERCENT_AGGRESSIVE = 30"
definition STACK_OPTIMIZATION_THRESHOLD :: nat where "STACK_OPTIMIZATION_THRESHOLD = 20"
definition TWO_THRESHOLD :: nat where "TWO_THRESHOLD = 10"

text \<open>The best pair of leading digits and its weight: the two nested loops as one over the pairs in their order.\<close>

definition best_two_step :: "u64 \<Rightarrow> ((u64 \<times> api_output list) \<times> u64 \<times> api_output list) \<Rightarrow> (u64 \<times> u64) \<times> nat \<Rightarrow> (u64 \<times> u64) \<times> nat" where
  "best_two_step am p best =
     (case p of (ait, bt) \<Rightarrow>
        if (fst ait + fst bt + am) mod 10 = 0 \<and> (TWO_THRESHOLD \<le> length (snd ait) \<or> TWO_THRESHOLD \<le> length (snd bt)) \<and>
           snd best < length (snd ait) + length (snd bt)
        then ((fst ait, fst bt), length (snd ait) + length (snd bt)) else best)"

definition best_two :: "u64 \<Rightarrow> coin_map \<Rightarrow> (u64 \<times> u64) \<times> nat" where
  "best_two am inner = fold (best_two_step am) (concat (map (\<lambda>ait. map (Pair ait) inner) inner)) ((0, 0), 0)"

fun best_single :: "u64 \<Rightarrow> coin_map \<Rightarrow> u64 \<Rightarrow> nat \<Rightarrow> u64" where
  "best_single am [] best weight = best"
| "best_single am (ait # r) best weight =
     (if (fst ait + am) mod 10 = 0 then fst ait
      else if 10 - am < fst ait \<and> weight < length (snd ait) then best_single am r (fst ait) (length (snd ait))
      else best_single am r best weight)"

definition optimize_digit :: "nat \<Rightarrow> u64 \<Rightarrow> u64 \<Rightarrow> selection \<Rightarrow> selection result" where
  "optimize_digit digit digit_amount total_amount S =
     (let am = 10 - ((fake_large + total_amount + digit_amount - 1 - us_used_total S) div digit_amount) mod 10
      in case map_of (us_have_coins S) digit of
           None \<Rightarrow> Inr S
         | Some inner \<Rightarrow>
             let ((a, b), best_weight) = best_two am inner
             in if best_weight \<noteq> 0 then bindR (take_have digit a S) (take_have digit b)
                else if am = 10 then Inr S
                else let best = best_single am inner 0 0 in if best \<noteq> 0 then take_have digit best S else Inr S)"

text \<open>The loop over the digits, with the number of digits left.\<close>

fun optimize_digits :: "nat \<Rightarrow> nat \<Rightarrow> u64 \<Rightarrow> u64 \<Rightarrow> selection \<Rightarrow> selection result" where
  "optimize_digits 0 digit digit_amount total_amount S = Inr S"
| "optimize_digits (Suc n) digit digit_amount total_amount S =
     (if total_amount \<le> us_used_total S \<and> us_used_total S < digit_amount then Inr S
      else bindR (optimize_digit digit digit_amount total_amount S) (optimize_digits n (digit + 1) (digit_amount * 10) total_amount))"

definition optimize_amounts :: "nat \<Rightarrow> u64 \<Rightarrow> selection \<Rightarrow> selection result" where
  "optimize_amounts max_digit total_amount S = optimize_digits (max_digit + 1) 0 1 total_amount S"

subsection \<open>Selecting for an amount\<close>

text \<open>The dust is used only without mixing: first one large enough, then the largest ones.\<close>

fun dust_loop :: "nat \<Rightarrow> u64 \<Rightarrow> selection \<Rightarrow> (selection \<times> nat) result" where
  "dust_loop 0 total_amount S = Inr (S, 0)"
| "dust_loop (Suc n) total_amount S =
     (if us_used_total S < total_amount \<and> us_dust_coins S \<noteq> []
      then bindR (take_dust (fst (last (us_dust_coins S))) S) (dust_loop n total_amount)
      else Inr (S, Suc n))"

definition select_dust :: "u64 \<Rightarrow> nat \<Rightarrow> selection \<Rightarrow> (selection \<times> nat) result" where
  "select_dust total_amount optimization_count S =
     bindR (if us_used_total S < total_amount
            then case om_lower_bound (total_amount - us_used_total S) (us_dust_coins S) of
                   None \<Rightarrow> Inr S
                 | Some (k, _) \<Rightarrow> take_dust k S
            else Inr S)
       (dust_loop optimization_count total_amount)"

text \<open>The fullest stack, and ten coins taken from it; here the code leaves out the erasure.\<close>

definition best_stack :: "have_map \<Rightarrow> (nat \<times> u64) option \<times> nat" where
  "best_stack hc =
     fold (\<lambda>(digit, ait) best. if snd best < length (snd ait) then (Some (digit, fst ait), length (snd ait)) else best)
       (concat (map (\<lambda>(digit, inner). map (Pair digit) inner) hc)) (None, STACK_OPTIMIZATION_THRESHOLD)"

definition take_stack :: "nat \<Rightarrow> u64 \<Rightarrow> selection \<Rightarrow> selection result" where
  "take_stack digit am S =
     (case map_of (us_have_coins S) digit of
        None \<Rightarrow> Inl Undefined
      | Some inner \<Rightarrow>
          (case map_of inner am of
             None \<Rightarrow> Inl Undefined
           | Some uns \<Rightarrow>
               if uns = [] then Inl Undefined
               else Inr ((use_coin (last uns) S)\<lparr>us_have_coins := om_put digit (om_put am (butlast uns) inner) (us_have_coins S)\<rparr>)))"

fun take_stack_times :: "nat \<Rightarrow> nat \<Rightarrow> u64 \<Rightarrow> selection \<Rightarrow> selection result" where
  "take_stack_times 0 digit am S = Inr S"
| "take_stack_times (Suc n) digit am S = bindR (take_stack digit am S) (take_stack_times n digit am)"

function stack_loop :: "nat \<Rightarrow> selection \<Rightarrow> selection result" where
  "stack_loop optimization_count S =
     (if optimization_count < 10 then Inr S
      else case fst (best_stack (us_have_coins S)) of
             None \<Rightarrow> Inr S
           | Some (digit, am) \<Rightarrow> bindR (take_stack_times 10 digit am S) (stack_loop (optimization_count - 10)))"
  by pat_completeness auto
termination
  by (relation "measure fst") auto

declare stack_loop.simps [simp del]

text \<open>The first coin, in the order of the digits, that is large enough for what is missing.\<close>

fun find_single :: "nat \<Rightarrow> nat \<Rightarrow> u64 \<Rightarrow> u64 \<Rightarrow> have_map \<Rightarrow> (nat \<times> u64) option" where
  "find_single 0 digit digit_amount missing hc = None"
| "find_single (Suc n) digit digit_amount missing hc =
     (case map_of hc digit of
        None \<Rightarrow> find_single n (digit + 1) (digit_amount * 10) missing hc
      | Some inner \<Rightarrow>
          (case List.find (\<lambda>ait. snd ait \<noteq> [] \<and> missing \<le> fst ait * digit_amount) inner of
             None \<Rightarrow> find_single n (digit + 1) (digit_amount * 10) missing hc
           | Some ait \<Rightarrow> Some (digit, fst ait)))"

text \<open>The loop that fills up with the largest coins, with its verdict.\<close>

definition coin_count :: "selection \<Rightarrow> nat" where
  "coin_count S = sum_list (map (\<lambda>(d, inner). sum_list (map (\<lambda>(a, uns). Suc (length uns)) inner)) (us_have_coins S)) +
     length (us_have_coins S) + sum_list (map (\<lambda>(a, uns). Suc (length uns)) (us_dust_coins S))"

partial_function (option) fill_loop :: "nat \<Rightarrow> u64 \<Rightarrow> selection \<Rightarrow> ((selection \<times> bool) result) option" where
  "fill_loop anonymity total_amount S =
     (if \<not> us_used_total S < total_amount then Some (Inr (S, True))
      else if us_have_coins S = [] \<and> (anonymity \<noteq> 0 \<or> us_dust_coins S = []) then Some (Inr (S, False))
      else
        let dit = last (us_have_coins S); ait = last (snd dit); duit = last (us_dust_coins S);
            ha_amount = (if us_have_coins S \<noteq> [] then ao_amount (last (snd ait)) else 0);
            du_amount = (if anonymity = 0 \<and> us_dust_coins S \<noteq> [] then ao_amount (last (snd duit)) else 0)
        in if (us_have_coins S \<noteq> [] \<and> (snd dit = [] \<or> snd ait = [])) \<or> (anonymity = 0 \<and> us_dust_coins S \<noteq> [] \<and> snd duit = [])
           then Some (Inl Undefined)
           else if du_amount < ha_amount
           then (case take_have (fst dit) (fst ait) S of Inl e \<Rightarrow> Some (Inl e) | Inr S' \<Rightarrow> fill_loop anonymity total_amount S')
           else if us_dust_coins S = [] then Some (Inl Undefined)
           else (case take_dust (fst duit) S of Inl e \<Rightarrow> Some (Inl e) | Inr S' \<Rightarrow> fill_loop anonymity total_amount S'))"

definition select_for_amount :: "nat \<Rightarrow> u64 \<Rightarrow> nat \<Rightarrow> nat \<Rightarrow> selection \<Rightarrow> ((selection \<times> bool) result) option" where
  "select_for_amount max_digit total_amount anonymity optimization_count S =
     (case bindR (if anonymity = 0 then select_dust total_amount optimization_count S else Inr (S, optimization_count)) (\<lambda>(S1, oc).
           bindR (stack_loop oc S1) (optimize_amounts max_digit total_amount)) of
        Inl e \<Rightarrow> Some (Inl e)
      | Inr S2 \<Rightarrow>
          if total_amount \<le> us_used_total S2 then Some (Inr (S2, True))
          else (case (case find_single (max_digit + 1) 0 1 (total_amount - us_used_total S2) (us_have_coins S2) of
                        None \<Rightarrow> Inr S2
                      | Some (digit, am) \<Rightarrow> take_have digit am S2) of
                  Inl e \<Rightarrow> Some (Inl e)
                | Inr S3 \<Rightarrow>
                    if total_amount \<le> us_used_total S3 then Some (Inr (S3, True))
                    else (case fill_loop anonymity total_amount (unoptimize_amounts S3) of
                            None \<Rightarrow> None
                          | Some (Inl e) \<Rightarrow> Some (Inl e)
                          | Some (Inr (S4, False)) \<Rightarrow> Some (Inr (S4, False))
                          | Some (Inr (S4, True)) \<Rightarrow>
                              Some (bindR (optimize_amounts max_digit total_amount S4) (\<lambda>S5. Inr (S5, True))))))"

subsection \<open>Selecting with the fee\<close>

definition tx_size_for :: "selection \<Rightarrow> nat \<Rightarrow> nat \<Rightarrow> u64" where
  "tx_size_for S total_outputs anonymity = word_of_nat (get_maximum_tx_size (unat (us_inputs_count S)) (total_outputs + 8) anonymity)"

text \<open>The endless loop: the error text, empty on success, and the change, which is set only on success.\<close>

partial_function (option) fee_loop ::
  "currency \<Rightarrow> u64 \<Rightarrow> u64 \<Rightarrow> nat \<Rightarrow> nat \<Rightarrow> u64 \<Rightarrow> nat \<Rightarrow> u64 \<Rightarrow> u64 \<Rightarrow> nat \<Rightarrow> selection \<Rightarrow> ((selection \<times> string \<times> u64 option) result) option" where
  "fee_loop c effective_median_size optimization_median max_digit anonymity total_amount total_outputs fee_rate fee optimizations S =
     (case select_for_amount max_digit (total_amount + fee) anonymity optimizations S of
        None \<Rightarrow> None
      | Some r \<Rightarrow> case r of
        Inl e \<Rightarrow> Some (Inl e)
      | Inr p \<Rightarrow> case p of (S1, found) \<Rightarrow>
          if \<not> found then Some (Inr (S1, ''NOT_ENOUGH_FUNDS'', None))
          else if default_dust_threshold c = 0 then Some (Inl Undefined)
          else
            let change_dust_fee = (us_used_total S1 - total_amount - fee) mod default_dust_threshold c;
                tx_size = tx_size_for S1 total_outputs anonymity
            in if optimization_median < tx_size \<and> 0 < optimizations
               then fee_loop c effective_median_size optimization_median max_digit anonymity total_amount total_outputs fee_rate fee
                      (if optimizations div 2 < 10 then 0 else optimizations div 2) (unoptimize_amounts S1)
               else if effective_median_size < tx_size then Some (Inr (S1, ''TRANSACTION_DOES_NOT_FIT_IN_BLOCK'', None))
               else
                 let size_fee = fee_rate * tx_size
                 in if size_fee \<le> fee + change_dust_fee
                    then Some (Inr (combine_optimized_unspents S1, [], Some (us_used_total S1 - total_amount - fee - change_dust_fee)))
                    else fee_loop c effective_median_size optimization_median max_digit anonymity total_amount total_outputs fee_rate
                           (((size_fee - change_dust_fee + default_dust_threshold c - 1) div default_dust_threshold c) * default_dust_threshold c)
                           optimizations (unoptimize_amounts S1))"

definition initial_optimizations :: "string \<Rightarrow> nat" where
  "initial_optimizations optimization_level =
     (if optimization_level = ''aggressive'' then OPTIMIZATIONS_PER_TX_AGGRESSIVE
      else if optimization_level = ''minimal'' then 9 else OPTIMIZATIONS_PER_TX)"

definition select_optimal_outputs ::
  "currency \<Rightarrow> u32 \<Rightarrow> u32 \<Rightarrow> u32 \<Rightarrow> u64 \<Rightarrow> nat \<Rightarrow> u64 \<Rightarrow> nat \<Rightarrow> u64 \<Rightarrow> string \<Rightarrow> selector \<Rightarrow> ((selection \<times> string \<times> u64 option) result) option" where
  "select_optimal_outputs c block_height block_time confirmed_height effective_median_size anonymity total_amount total_outputs fee_rate
     optimization_level S =
     (let ems = (120 * effective_median_size) div 100;
          (hc, dc, max_digit) = create_have_coins c block_height block_time confirmed_height (us_unspents S);
          percent = (if optimization_level = ''aggressive'' then MEDIAN_PERCENT_AGGRESSIVE else MEDIAN_PERCENT)
      in fee_loop c ems (ems * percent div 100) max_digit anonymity total_amount total_outputs fee_rate (minimum_fee c)
           (initial_optimizations optimization_level) (selector.extend S (selection.fields hc dc)))"

section \<open>Ordered maps of coins\<close>

definition om_sorted :: "('k::linorder \<times> 'v) list \<Rightarrow> bool" where
  "om_sorted m \<longleftrightarrow> sorted_wrt (<) (map fst m)"

lemma om_sorted_Cons: "om_sorted (p # m) \<longleftrightarrow> (\<forall>q \<in> set m. fst p < fst q) \<and> om_sorted m"
  by (auto simp: om_sorted_def)

lemma om_sorted_Nil [simp]: "om_sorted []"
  by (simp add: om_sorted_def)

lemma set_om_put: "om_sorted m \<Longrightarrow> set (om_put k v m) = insert (k, v) {p \<in> set m. fst p \<noteq> k}"
proof (induction k v m rule: om_put.induct)
  case (2 k v k' v' m)
  then have less: "\<forall>q \<in> set m. k' < fst q" and m: "om_sorted m" by (auto simp: om_sorted_Cons)
  consider "k < k'" | "k = k'" | "\<not> k < k'" "k \<noteq> k'" by blast
  then show ?case
  proof cases
    case 1
    then have "fst q \<noteq> k" if "q \<in> set m" for q using less that by fastforce
    then show ?thesis using 1 by auto
  next
    case 2
    then have "fst q \<noteq> k" if "q \<in> set m" for q using less that by fastforce
    then show ?thesis using 2 by auto
  next
    case 3
    then show ?thesis using 2 m by auto
  qed
qed simp

lemma om_sorted_put: "om_sorted m \<Longrightarrow> om_sorted (om_put k v m)"
  by (induction k v m rule: om_put.induct) (auto simp: om_sorted_Cons set_om_put intro: order.strict_trans)

lemma om_sorted_del: "om_sorted m \<Longrightarrow> om_sorted (om_del k m)"
  by (induction m) (auto simp: om_sorted_Cons om_del_def)

lemma om_sorted_map_of: "om_sorted m \<Longrightarrow> map_of m k = Some v \<longleftrightarrow> (k, v) \<in> set m"
  by (rule map_of_eq_Some_iff) (induction m; auto simp: om_sorted_Cons)

lemma map_of_om_put: "om_sorted m \<Longrightarrow> map_of (om_put k v m) x = (if x = k then Some v else map_of m x)"
  by (induction k v m rule: om_put.induct) (auto simp: om_sorted_Cons)

lemma map_of_om_del: "map_of (om_del k m) x = (if x = k then None else map_of m x)"
  by (induction m) (auto simp: om_del_def)

text \<open>The coins of a map, for any measure of its values.\<close>

definition om_sum :: "('v \<Rightarrow> 'a multiset) \<Rightarrow> ('k \<times> 'v) list \<Rightarrow> 'a multiset" where
  "om_sum f m = sum_list (map (\<lambda>p. f (snd p)) m)"

lemma om_sum_simps [simp]: "om_sum f [] = {#}" "om_sum f (p # m) = f (snd p) + om_sum f m"
  by (simp_all add: om_sum_def)

lemma om_sum_put:
  "om_sorted m \<Longrightarrow> om_sum f (om_put k v m) + (case map_of m k of None \<Rightarrow> {#} | Some w \<Rightarrow> f w) = om_sum f m + f v"
proof (induction k v m rule: om_put.induct)
  case (2 k v k' v' m)
  have "map_of m k = None" if "k < k'" using that 2(2) by (auto simp: om_sorted_Cons map_of_eq_None_iff)
  then show ?case using 2 by (auto simp: om_sorted_Cons ac_simps split: option.splits)
qed simp

lemma om_del_absent: "map_of m k = None \<Longrightarrow> om_del k m = m"
  by (induction m) (auto simp: om_del_def split: if_splits)

lemma om_sum_del: "om_sorted m \<Longrightarrow> map_of m k = Some w \<Longrightarrow> om_sum f (om_del k m) + f w = om_sum f m"
proof (induction m)
  case (Cons p m)
  show ?case
  proof (cases "fst p = k")
    case True
    then have "map_of m k = None" using Cons.prems(1) by (auto simp: om_sorted_Cons map_of_eq_None_iff)
    then show ?thesis using True Cons.prems(2) om_del_absent[of m k] by (auto simp: om_del_def ac_simps)
  next
    case False
    then have "om_sum f (om_del k m) + f w = om_sum f m" using Cons by (auto simp: om_sorted_Cons)
    moreover have "om_del k (p # m) = p # om_del k m" using False by (simp add: om_del_def)
    ultimately show ?thesis by (simp add: ac_simps)
  qed
qed simp

lemma om_sum_member: "map_of m k = Some w \<Longrightarrow> f w \<subseteq># om_sum f m"
proof (induction m)
  case (Cons p m)
  then show ?case by (cases "fst p = k") (auto intro: subset_mset.add_increasing)
qed simp

definition coin_map_ok :: "coin_map \<Rightarrow> bool" where
  "coin_map_ok m \<longleftrightarrow> om_sorted m \<and> (\<forall>p \<in> set m. snd p \<noteq> [])"

definition coins :: "coin_map \<Rightarrow> api_output multiset" where
  "coins m = om_sum mset m"

definition have_ok :: "have_map \<Rightarrow> bool" where
  "have_ok hc \<longleftrightarrow> om_sorted hc \<and> (\<forall>p \<in> set hc. snd p \<noteq> [] \<and> coin_map_ok (snd p))"

definition have_list :: "have_map \<Rightarrow> api_output multiset" where
  "have_list hc = om_sum coins hc"

lemma om_put_not_Nil [simp]: "om_put k v m \<noteq> []"
  by (cases m) (auto split: if_splits)

lemma coin_map_put: "coin_map_ok m \<Longrightarrow> v \<noteq> [] \<Longrightarrow> coin_map_ok (om_put k v m)"
  by (auto simp: coin_map_ok_def om_sorted_put set_om_put)

lemma coins_append:
  "coin_map_ok m \<Longrightarrow> coins (om_put k ((case map_of m k of None \<Rightarrow> [] | Some l \<Rightarrow> l) @ [un]) m) = add_mset un (coins m)"
  using om_sum_put[of m mset k "(case map_of m k of None \<Rightarrow> [] | Some l \<Rightarrow> l) @ [un]"]
  by (auto simp: coins_def coin_map_ok_def split: option.splits)

lemma put_dust_ok: "coin_map_ok m \<Longrightarrow> coin_map_ok (put_dust un m)"
  by (simp add: put_dust_def coin_map_put)

lemma put_dust_coins: "coin_map_ok m \<Longrightarrow> coins (put_dust un m) = add_mset un (coins m)"
  by (simp add: put_dust_def coins_append)

lemma pop_coin_ok:
  assumes m: "coin_map_ok m" and k: "map_of m k = Some uns"
  shows "\<exists>m'. pop_coin k m = Inr (last uns, m') \<and> coin_map_ok m' \<and> coins m = add_mset (last uns) (coins m') \<and>
    map_of m' = (if butlast uns = [] then (map_of m)(k := None) else (map_of m)(k \<mapsto> butlast uns))"
proof -
  have s: "om_sorted m" and ne: "uns \<noteq> []" using m k by (auto simp: coin_map_ok_def om_sorted_map_of dest!: map_of_SomeD)
  then have split: "mset uns = add_mset (last uns) (mset (butlast uns))"
    by (metis add_mset_add_single append_butlast_last_id mset.simps(1) mset.simps(2) mset_append union_commute)
  show ?thesis
  proof (cases "butlast uns = []")
    case True
    have "coins m = add_mset (last uns) (coins (om_del k m))"
      using om_sum_del[OF s k, of mset] split True by (simp add: coins_def flip: k)
    moreover have "coin_map_ok (om_del k m)" using m by (auto simp: coin_map_ok_def om_sorted_del) (auto simp: om_del_def)
    ultimately show ?thesis using True k ne by (auto simp: pop_coin_def map_of_om_del fun_eq_iff)
  next
    case False
    have "coins (om_put k (butlast uns) m) + mset uns = coins m + mset (butlast uns)"
      using om_sum_put[OF s, of mset k "butlast uns"] k by (simp add: coins_def)
    then have "coins m = add_mset (last uns) (coins (om_put k (butlast uns) m))" using split by simp
    then show ?thesis using False k ne coin_map_put[OF m False] by (auto simp: pop_coin_def map_of_om_put[OF s] fun_eq_iff)
  qed
qed

lemma have_put_ok: "have_ok hc \<Longrightarrow> coin_map_ok inner \<Longrightarrow> inner \<noteq> [] \<Longrightarrow> have_ok (om_put d inner hc)"
  by (auto simp: have_ok_def om_sorted_put set_om_put)

lemma have_member_ok: "have_ok hc \<Longrightarrow> map_of hc d = Some inner \<Longrightarrow> coin_map_ok inner \<and> inner \<noteq> []"
  by (auto simp: have_ok_def dest!: map_of_SomeD)

lemma put_have_ok:
  assumes "have_ok hc"
  shows "have_ok (put_have un hc) \<and> have_list (put_have un hc) = add_mset un (have_list hc)"
proof -
  obtain d a where l: "leading_digit 0 (ao_amount un) = (d, a)" by (cases "leading_digit 0 (ao_amount un)")
  define inner where "inner = (case map_of hc d of None \<Rightarrow> [] | Some m \<Rightarrow> m)"
  have inner: "coin_map_ok inner" using have_member_ok[OF assms, of d] by (cases "map_of hc d") (simp_all add: inner_def coin_map_ok_def)
  define uns where "uns = (case map_of inner a of None \<Rightarrow> [] | Some l \<Rightarrow> l) @ [un]"
  have p: "put_have un hc = om_put d (om_put a uns inner) hc" by (simp add: put_have_def l inner_def uns_def Let_def)
  have "have_ok (put_have un hc)"
    unfolding p by (rule have_put_ok[OF assms coin_map_put[OF inner]]) (simp_all add: uns_def)
  moreover have "coins (om_put a uns inner) = add_mset un (coins inner)" unfolding uns_def by (rule coins_append[OF inner])
  then have "have_list (put_have un hc) = add_mset un (have_list hc)"
    using om_sum_put[of hc coins d "om_put a uns inner"] assms unfolding p have_list_def
    by (auto simp: have_ok_def inner_def coins_def split: option.splits)
  ultimately show ?thesis by blast
qed

section \<open>The invariant of a selection\<close>

definition total_of :: "api_output list \<Rightarrow> u64" where
  "total_of uns = sum_list (map ao_amount uns)"

text \<open>\<open>all\<close> are the coins the selection started from.\<close>

definition selection_ok :: "nat \<Rightarrow> api_output multiset \<Rightarrow> selection \<Rightarrow> bool" where
  "selection_ok anonymity all S \<longleftrightarrow>
     have_ok (us_have_coins S) \<and> coin_map_ok (us_dust_coins S) \<and>
     have_list (us_have_coins S) + coins (us_dust_coins S) + mset (us_optimization_unspents S) = all \<and>
     (\<forall>un \<in># have_list (us_have_coins S). \<not> ao_dust un) \<and> (\<forall>un \<in># coins (us_dust_coins S). ao_dust un) \<and>
     (anonymity \<noteq> 0 \<longrightarrow> (\<forall>un \<in> set (us_optimization_unspents S). \<not> ao_dust un)) \<and>
     us_used_unspents S = [] \<and> us_used_total S = total_of (us_optimization_unspents S) \<and>
     us_inputs_count S = word_of_nat (length (us_optimization_unspents S))"

lemma selection_ok_D:
  assumes "selection_ok n all S"
  shows "have_ok (us_have_coins S)" "coin_map_ok (us_dust_coins S)"
    "have_list (us_have_coins S) + coins (us_dust_coins S) + mset (us_optimization_unspents S) = all"
    "\<forall>un \<in># have_list (us_have_coins S). \<not> ao_dust un" "\<forall>un \<in># coins (us_dust_coins S). ao_dust un"
    "n \<noteq> 0 \<longrightarrow> (\<forall>un \<in> set (us_optimization_unspents S). \<not> ao_dust un)" "us_used_unspents S = []"
    "us_used_total S = total_of (us_optimization_unspents S)" "us_inputs_count S = word_of_nat (length (us_optimization_unspents S))"
  using assms unfolding selection_ok_def by blast+

definition amounts_of :: "api_output multiset \<Rightarrow> nat" where
  "amounts_of M = sum_mset (image_mset (\<lambda>un. unat (ao_amount un)) M)"

lemma amounts_of_simps [simp]:
  "amounts_of {#} = 0" "amounts_of (add_mset un M) = unat (ao_amount un) + amounts_of M" "amounts_of (M + N) = amounts_of M + amounts_of N"
  by (simp_all add: amounts_of_def)

text \<open>The 64-bit total is the sum of the amounts when all of them together fit.\<close>

lemma total_of_fits: "amounts_of (mset uns) < 2 ^ 64 \<Longrightarrow> unat (total_of uns) = amounts_of (mset uns)"
proof (induction uns)
  case (Cons un uns)
  then have "unat (total_of uns) = amounts_of (mset uns)" by simp
  then show ?case using Cons.prems by (simp add: total_of_def unat_word_ariths)
qed (simp add: total_of_def)

lemma used_total_value:
  assumes "selection_ok n all S" "amounts_of all < 2 ^ 64"
  shows "unat (us_used_total S) = amounts_of (mset (us_optimization_unspents S))"
  unfolding selection_ok_D(8)[OF assms(1)]
  by (rule total_of_fits) (use assms(2) in \<open>simp flip: selection_ok_D(3)[OF assms(1)]\<close>)

lemma total_of_snoc: "total_of (uns @ [un]) = total_of uns + ao_amount un"
  by (simp add: total_of_def)

text \<open>A step that uses more coins.\<close>

definition uses_more :: "nat \<Rightarrow> api_output multiset \<Rightarrow> selection \<Rightarrow> selection \<Rightarrow> bool" where
  "uses_more n all S S' \<longleftrightarrow> selection_ok n all S' \<and> us_unspents S' = us_unspents S \<and> us_ra_amounts S' = us_ra_amounts S \<and>
     (\<exists>uns. us_optimization_unspents S' = us_optimization_unspents S @ uns)"

lemma uses_more_refl: "selection_ok n all S \<Longrightarrow> uses_more n all S S"
  by (simp add: uses_more_def)

lemma uses_more_ok: "uses_more n all S S' \<Longrightarrow> selection_ok n all S'"
  by (simp add: uses_more_def)

lemma uses_more_trans: "uses_more n all S S' \<Longrightarrow> uses_more n all S' S'' \<Longrightarrow> uses_more n all S S''"
  by (auto simp: uses_more_def)

lemma uses_more_total:
  assumes "uses_more n all S S'" "selection_ok n all S" "amounts_of all < 2 ^ 64"
  shows "us_used_total S \<le> us_used_total S'"
proof -
  obtain uns where "us_optimization_unspents S' = us_optimization_unspents S @ uns" and ok: "selection_ok n all S'"
    using assms(1) by (auto simp: uses_more_def)
  then have "unat (us_used_total S) \<le> unat (us_used_total S')"
    using used_total_value[OF assms(2,3)] used_total_value[OF ok assms(3)] by simp
  then show ?thesis by (simp add: word_le_nat_alt)
qed

lemma take_have_ok:
  assumes S: "selection_ok n all S" and m: "map_of (us_have_coins S) d = Some inner" "map_of inner a = Some uns"
  shows "\<exists>S'. take_have d a S = Inr S' \<and> uses_more n all S S' \<and> us_optimization_unspents S' = us_optimization_unspents S @ [last uns] \<and>
    us_dust_coins S' = us_dust_coins S \<and>
    (\<forall>b vs. map_of inner b = Some vs \<longrightarrow> (b \<noteq> a \<or> 2 \<le> length vs) \<longrightarrow>
       (\<exists>inner' vs'. map_of (us_have_coins S') d = Some inner' \<and> map_of inner' b = Some vs'))"
proof -
  note S' = selection_ok_D[OF S]
  have inner: "coin_map_ok inner" using have_member_ok[OF S'(1) m(1)] by simp
  obtain inner' where p: "pop_coin a inner = Inr (last uns, inner')" "coin_map_ok inner'" "coins inner = add_mset (last uns) (coins inner')"
    "map_of inner' = (if butlast uns = [] then (map_of inner)(a := None) else (map_of inner)(a \<mapsto> butlast uns))"
    using pop_coin_ok[OF inner m(2)] by blast
  define hc where "hc = (if inner' = [] then om_del d (us_have_coins S) else om_put d inner' (us_have_coins S))"
  let ?S' = "(use_coin (last uns) S)\<lparr>us_have_coins := hc\<rparr>"
  have sorted: "om_sorted (us_have_coins S)" using S'(1) by (simp add: have_ok_def)
  have hok: "have_ok hc"
    using have_put_ok[OF S'(1) p(2), of d] S'(1) by (auto simp: hc_def have_ok_def om_sorted_del) (auto simp: om_del_def)
  have hl: "have_list (us_have_coins S) = add_mset (last uns) (have_list hc)"
  proof (cases "inner' = []")
    case True
    then show ?thesis using om_sum_del[OF sorted m(1), of coins] p(3) by (simp add: hc_def have_list_def coins_def)
  next
    case False
    then show ?thesis using om_sum_put[OF sorted, of coins d inner'] m(1) p(3) by (simp add: hc_def have_list_def)
  qed
  have "selection_ok n all ?S'"
    unfolding selection_ok_def
    using hok hl S' by (auto simp: use_coin_def total_of_snoc)
  then have "uses_more n all S ?S'" by (simp add: uses_more_def use_coin_def)
  moreover have "\<exists>inner' vs'. map_of hc d = Some inner' \<and> map_of inner' b = Some vs'"
    if b: "map_of inner b = Some vs" "b \<noteq> a \<or> 2 \<le> length vs" for b vs
  proof -
    have "map_of inner' b \<noteq> None"
    proof (cases "b = a")
      case True
      then have "uns = vs" "2 \<le> length uns" using b m(2) by auto
      then have "butlast uns \<noteq> []" by (cases uns rule: rev_cases) auto
      then show ?thesis using True p(4) by simp
    qed (use b p(4) in simp)
    moreover from this have "inner' \<noteq> []" by auto
    ultimately show ?thesis using map_of_om_put[OF sorted] by (auto simp: hc_def)
  qed
  ultimately show ?thesis
    using m(1) p(1) by (intro exI[of _ ?S']) (simp add: take_have_def use_coin_def hc_def)
qed

lemma take_dust_ok:
  assumes S: "selection_ok 0 all S" and m: "map_of (us_dust_coins S) k = Some uns"
  shows "\<exists>S'. take_dust k S = Inr S' \<and> uses_more 0 all S S' \<and> us_optimization_unspents S' = us_optimization_unspents S @ [last uns]"
proof -
  note S' = selection_ok_D[OF S]
  obtain dc where p: "pop_coin k (us_dust_coins S) = Inr (last uns, dc)" "coin_map_ok dc" "coins (us_dust_coins S) = add_mset (last uns) (coins dc)"
    using pop_coin_ok[OF S'(2) m] by blast
  have "selection_ok 0 all ((use_coin (last uns) S)\<lparr>us_dust_coins := dc\<rparr>)"
    unfolding selection_ok_def using p S' by (auto simp: use_coin_def total_of_snoc)
  then show ?thesis using p(1) by (simp add: take_dust_def uses_more_def use_coin_def)
qed

section \<open>Each step uses coins that are there\<close>

lemma fold_best:
  assumes "P b" and "\<And>x b. x \<in> set xs \<Longrightarrow> P b \<Longrightarrow> P (f x b)"
  shows "P (fold f xs b)"
  using assms by (induction xs arbitrary: b) auto

lemma best_two_keys:
  assumes "coin_map_ok inner" "best_two am inner = ((a, b), w)" "w \<noteq> 0"
  shows "\<exists>va vb. map_of inner a = Some va \<and> map_of inner b = Some vb \<and> (TWO_THRESHOLD \<le> length va \<or> TWO_THRESHOLD \<le> length vb)"
proof -
  let ?P = "\<lambda>p :: (u64 \<times> u64) \<times> nat. snd p \<noteq> 0 \<longrightarrow>
    (\<exists>va vb. map_of inner (fst (fst p)) = Some va \<and> map_of inner (snd (fst p)) = Some vb \<and> (TWO_THRESHOLD \<le> length va \<or> TWO_THRESHOLD \<le> length vb))"
  have s: "om_sorted inner" using assms(1) by (simp add: coin_map_ok_def)
  have "?P (best_two am inner)"
    unfolding best_two_def
  proof (rule fold_best)
    fix x p assume x: "x \<in> set (concat (map (\<lambda>ait. map (Pair ait) inner) inner))" and p: "?P p"
    obtain ait bt where ab: "x = (ait, bt)" "ait \<in> set inner" "bt \<in> set inner" using x by auto
    then have "map_of inner (fst ait) = Some (snd ait)" "map_of inner (fst bt) = Some (snd bt)" using om_sorted_map_of[OF s] by auto
    then show "?P (best_two_step am x p)" using p by (simp add: best_two_step_def ab(1))
  qed simp
  then show ?thesis using assms(2,3) by simp
qed

lemma best_single_key: "best_single am inner best w = best \<or> best_single am inner best w \<in> fst ` set inner"
proof (induction am inner best w rule: best_single.induct)
  case (2 am ait r best weight)
  consider "(fst ait + am) mod 10 = 0" | "(fst ait + am) mod 10 \<noteq> 0" "10 - am < fst ait \<and> weight < length (snd ait)"
    | "(fst ait + am) mod 10 \<noteq> 0" "\<not> (10 - am < fst ait \<and> weight < length (snd ait))" by blast
  then show ?case
  proof cases
    case 2
    then show ?thesis using "2.IH"(1) by auto
  next
    case 3
    then show ?thesis using "2.IH"(2) by auto
  qed simp
qed simp

lemma optimize_digit_ok:
  assumes S: "selection_ok n all S"
  shows "\<exists>S'. optimize_digit digit digit_amount total_amount S = Inr S' \<and> uses_more n all S S'"
proof -
  define am where "am = 10 - ((fake_large + total_amount + digit_amount - 1 - us_used_total S) div digit_amount) mod 10"
  show ?thesis
  proof (cases "map_of (us_have_coins S) digit")
    case None
    then show ?thesis using uses_more_refl[OF S] by (simp add: optimize_digit_def Let_def)
  next
    case (Some inner)
    have ok: "coin_map_ok inner" using have_member_ok[OF selection_ok_D(1)[OF S] Some] by simp
    obtain a b w where two: "best_two am inner = ((a, b), w)" by (cases "best_two am inner") auto
    show ?thesis
    proof (cases "w = 0")
      case False
      obtain va vb where v: "map_of inner a = Some va" "map_of inner b = Some vb" "TWO_THRESHOLD \<le> length va \<or> TWO_THRESHOLD \<le> length vb"
        using best_two_keys[OF ok two False] by blast
      obtain S1 where S1: "take_have digit a S = Inr S1" "uses_more n all S S1"
        "\<forall>b vs. map_of inner b = Some vs \<longrightarrow> (b \<noteq> a \<or> 2 \<le> length vs) \<longrightarrow>
          (\<exists>inner' vs'. map_of (us_have_coins S1) digit = Some inner' \<and> map_of inner' b = Some vs')"
        using take_have_ok[OF S Some v(1)] by blast
      have "b \<noteq> a \<or> 2 \<le> length vb" using v by (auto simp: TWO_THRESHOLD_def)
      then obtain inner' vs' where m: "map_of (us_have_coins S1) digit = Some inner'" "map_of inner' b = Some vs'" using S1(3) v(2) by blast
      obtain S2 where "take_have digit b S1 = Inr S2" "uses_more n all S1 S2"
        using take_have_ok[OF _ m] S1(2) unfolding uses_more_def by blast
      then show ?thesis
        using Some False S1(1) uses_more_trans[OF S1(2)] two by (simp add: optimize_digit_def am_def[symmetric])
    next
      case True
      define best where "best = best_single am inner 0 0"
      show ?thesis
      proof (cases "am = 10 \<or> best = 0")
        case True
        then show ?thesis using Some two \<open>w = 0\<close> uses_more_refl[OF S] by (auto simp: optimize_digit_def am_def[symmetric] best_def[symmetric])
      next
        case False
        then obtain uns where "map_of inner best = Some uns"
          using best_single_key[of am inner 0 0] ok by (auto simp: best_def coin_map_ok_def om_sorted_map_of)
        then obtain S1 where "take_have digit best S = Inr S1" "uses_more n all S S1" using take_have_ok[OF S Some] by blast
        then show ?thesis using Some two \<open>w = 0\<close> False by (auto simp: optimize_digit_def am_def[symmetric] best_def[symmetric])
      qed
    qed
  qed
qed

lemma optimize_digits_ok:
  "selection_ok n all S \<Longrightarrow> \<exists>S'. optimize_digits m digit digit_amount total_amount S = Inr S' \<and> uses_more n all S S'"
proof (induction m arbitrary: digit digit_amount S)
  case 0
  then show ?case using uses_more_refl by simp
next
  case (Suc m)
  obtain S1 where S1: "optimize_digit digit digit_amount total_amount S = Inr S1" "uses_more n all S S1"
    using optimize_digit_ok[OF Suc.prems] by blast
  then obtain S2 where "optimize_digits m (digit + 1) (digit_amount * 10) total_amount S1 = Inr S2" "uses_more n all S1 S2"
    using Suc.IH unfolding uses_more_def by blast
  then show ?case using S1 uses_more_trans[OF S1(2)] uses_more_refl[OF Suc.prems] by auto
qed

lemma dust_loop_ok:
  "selection_ok 0 all S \<Longrightarrow> \<exists>S' oc. dust_loop m total_amount S = Inr (S', oc) \<and> uses_more 0 all S S'"
proof (induction m arbitrary: S)
  case 0
  then show ?case using uses_more_refl by simp
next
  case (Suc m)
  show ?case
  proof (cases "us_used_total S < total_amount \<and> us_dust_coins S \<noteq> []")
    case True
    have "om_sorted (us_dust_coins S)" using selection_ok_D(2)[OF Suc.prems] by (simp add: coin_map_ok_def)
    then have "map_of (us_dust_coins S) (fst (last (us_dust_coins S))) = Some (snd (last (us_dust_coins S)))"
      using om_sorted_map_of True last_in_set by (metis prod.collapse)
    then obtain S1 where S1: "take_dust (fst (last (us_dust_coins S))) S = Inr S1" "uses_more 0 all S S1" using take_dust_ok[OF Suc.prems] by blast
    then obtain S2 oc where "dust_loop m total_amount S1 = Inr (S2, oc)" "uses_more 0 all S1 S2" using Suc.IH unfolding uses_more_def by blast
    then show ?thesis using True S1 uses_more_trans[OF S1(2)] by simp
  next
    case False
    then show ?thesis using uses_more_refl[OF Suc.prems] by auto
  qed
qed

lemma select_dust_ok:
  assumes S: "selection_ok 0 all S"
  shows "\<exists>S' oc. select_dust total_amount m S = Inr (S', oc) \<and> uses_more 0 all S S'"
proof -
  have "\<exists>S1. (if us_used_total S < total_amount
      then case om_lower_bound (total_amount - us_used_total S) (us_dust_coins S) of None \<Rightarrow> Inr S | Some (k, _) \<Rightarrow> take_dust k S
      else Inr S) = Inr S1 \<and> uses_more 0 all S S1"
  proof (cases "us_used_total S < total_amount")
    case True
    show ?thesis
    proof (cases "om_lower_bound (total_amount - us_used_total S) (us_dust_coins S)")
      case (Some p)
      then have "p \<in> set (us_dust_coins S)" by (auto simp: om_lower_bound_def find_Some_iff)
      then have "map_of (us_dust_coins S) (fst p) = Some (snd p)"
        using selection_ok_D(2)[OF S] om_sorted_map_of unfolding coin_map_ok_def by (metis prod.collapse)
      then obtain S1 where "take_dust (fst p) S = Inr S1" "uses_more 0 all S S1" using take_dust_ok[OF S] by blast
      then show ?thesis using Some True by (simp add: case_prod_beta)
    qed (use uses_more_refl[OF S] in simp)
  qed (use uses_more_refl[OF S] in simp)
  then obtain S1 where S1: "(if us_used_total S < total_amount
      then case om_lower_bound (total_amount - us_used_total S) (us_dust_coins S) of None \<Rightarrow> Inr S | Some (k, _) \<Rightarrow> take_dust k S
      else Inr S) = Inr S1" "uses_more 0 all S S1" by blast
  then obtain S2 oc where "dust_loop m total_amount S1 = Inr (S2, oc)" "uses_more 0 all S1 S2"
    using dust_loop_ok unfolding uses_more_def by blast
  then show ?thesis using uses_more_trans[OF S1(2)] unfolding select_dust_def S1(1) by auto
qed

lemma best_stack_key:
  assumes "have_ok hc" "fst (best_stack hc) = Some (d, a)"
  shows "\<exists>inner uns. map_of hc d = Some inner \<and> map_of inner a = Some uns \<and> STACK_OPTIMIZATION_THRESHOLD < length uns"
proof -
  let ?P = "\<lambda>b :: (nat \<times> u64) option \<times> nat. STACK_OPTIMIZATION_THRESHOLD \<le> snd b \<and> (\<forall>d a. fst b = Some (d, a) \<longrightarrow>
    (\<exists>inner uns. map_of hc d = Some inner \<and> map_of inner a = Some uns \<and> STACK_OPTIMIZATION_THRESHOLD < length uns))"
  have "?P (best_stack hc)"
    unfolding best_stack_def
  proof (rule fold_best)
    fix x b assume x: "x \<in> set (concat (map (\<lambda>(digit, inner). map (Pair digit) inner) hc))" and b: "?P b"
    obtain digit inner ait where e: "x = (digit, ait)" "(digit, inner) \<in> set hc" "ait \<in> set inner" using x by auto
    have "map_of hc digit = Some inner" using e(2) assms(1) by (simp add: have_ok_def om_sorted_map_of)
    moreover have "coin_map_ok inner" using have_member_ok[OF assms(1) calculation] by simp
    then have "map_of inner (fst ait) = Some (snd ait)" using e(3) by (simp add: coin_map_ok_def om_sorted_map_of)
    ultimately show "?P ((\<lambda>(digit, ait) best. if snd best < length (snd ait) then (Some (digit, fst ait), length (snd ait)) else best) x b)"
      using b e(1) by auto
  qed simp
  then show ?thesis using assms(2) by simp
qed

lemma take_stack_ok:
  assumes S: "selection_ok n all S" and m: "map_of (us_have_coins S) d = Some inner" "map_of inner a = Some uns" and len: "2 \<le> length uns"
  shows "\<exists>S' inner'. take_stack d a S = Inr S' \<and> uses_more n all S S' \<and>
    map_of (us_have_coins S') d = Some inner' \<and> map_of inner' a = Some (butlast uns)"
proof -
  note S' = selection_ok_D[OF S]
  have inner: "coin_map_ok inner" using have_member_ok[OF S'(1) m(1)] by simp
  have ne: "butlast uns \<noteq> []" "uns \<noteq> []" using len by (cases uns rule: rev_cases; auto)+
  let ?inner = "om_put a (butlast uns) inner"
  have io: "coin_map_ok ?inner" by (rule coin_map_put[OF inner ne(1)])
  have split: "mset uns = add_mset (last uns) (mset (butlast uns))"
    using ne(2) by (metis add_mset_add_single append_butlast_last_id mset.simps(1) mset.simps(2) mset_append union_commute)
  have "coins ?inner + mset uns = coins inner + mset (butlast uns)"
    using om_sum_put[of inner mset a "butlast uns"] inner m(2) by (simp add: coins_def coin_map_ok_def)
  then have ci: "coins inner = add_mset (last uns) (coins ?inner)" using split by simp
  let ?hc = "om_put d ?inner (us_have_coins S)"
  have sorted: "om_sorted (us_have_coins S)" using S'(1) by (simp add: have_ok_def)
  have hl: "have_list (us_have_coins S) = add_mset (last uns) (have_list ?hc)"
    using om_sum_put[OF sorted, of coins d ?inner] m(1) ci by (simp add: have_list_def)
  have hok: "have_ok ?hc" by (rule have_put_ok[OF S'(1) io]) simp
  let ?S' = "(use_coin (last uns) S)\<lparr>us_have_coins := ?hc\<rparr>"
  have "selection_ok n all ?S'" unfolding selection_ok_def using hok hl S' by (auto simp: use_coin_def total_of_snoc)
  then have "uses_more n all S ?S'" by (simp add: uses_more_def use_coin_def)
  moreover have "map_of ?hc d = Some ?inner" "map_of ?inner a = Some (butlast uns)"
    using inner by (simp_all add: map_of_om_put sorted coin_map_ok_def)
  ultimately show ?thesis using m ne(2) by (intro exI[of _ ?S'] exI[of _ ?inner]) (simp add: take_stack_def)
qed

lemma take_stack_times_ok:
  "selection_ok n all S \<Longrightarrow> map_of (us_have_coins S) d = Some inner \<Longrightarrow> map_of inner a = Some uns \<Longrightarrow> m < length uns \<Longrightarrow>
    \<exists>S'. take_stack_times m d a S = Inr S' \<and> uses_more n all S S'"
proof (induction m arbitrary: S inner uns)
  case 0
  then show ?case using uses_more_refl by simp
next
  case (Suc m)
  obtain S1 inner1 where S1: "take_stack d a S = Inr S1" "uses_more n all S S1" "map_of (us_have_coins S1) d = Some inner1" "map_of inner1 a = Some (butlast uns)"
    using take_stack_ok[OF Suc.prems(1-3)] Suc.prems(4) by auto
  have len: "m < length (butlast uns)" unfolding length_butlast using Suc.prems(4) by linarith
  obtain S2 where "take_stack_times m d a S1 = Inr S2" "uses_more n all S1 S2"
    using Suc.IH[OF uses_more_ok[OF S1(2)] S1(3,4) len] by blast
  then show ?case using S1 uses_more_trans[OF S1(2)] by simp
qed

lemma stack_loop_ok: "selection_ok n all S \<Longrightarrow> \<exists>S'. stack_loop oc S = Inr S' \<and> uses_more n all S S'"
proof (induction oc S rule: stack_loop.induct)
  case (1 oc S)
  show ?case
  proof (cases "oc < 10 \<or> fst (best_stack (us_have_coins S)) = None")
    case True
    then show ?thesis using uses_more_refl[OF "1.prems"] by (auto simp: stack_loop.simps[of oc S])
  next
    case False
    then obtain d a where b: "\<not> oc < 10" "fst (best_stack (us_have_coins S)) = Some (d, a)" by auto
    obtain inner uns where m: "map_of (us_have_coins S) d = Some inner" "map_of inner a = Some uns" "STACK_OPTIMIZATION_THRESHOLD < length uns"
      using best_stack_key[OF selection_ok_D(1)[OF "1.prems"] b(2)] by blast
    have "10 < length uns" using m(3) by (simp add: STACK_OPTIMIZATION_THRESHOLD_def)
    then obtain S1 where S1: "take_stack_times 10 d a S = Inr S1" "uses_more n all S S1" using take_stack_times_ok[OF "1.prems" m(1,2)] by blast
    obtain S2 where "stack_loop (oc - 10) S1 = Inr S2" "uses_more n all S1 S2"
      using "1.IH"[OF b(1,2) refl S1(1) uses_more_ok[OF S1(2)]] by blast
    then show ?thesis using S1 b uses_more_trans[OF S1(2)] by (simp add: stack_loop.simps[of oc S])
  qed
qed

lemma find_single_key:
  "have_ok hc \<Longrightarrow> find_single m digit digit_amount missing hc = Some (d, a) \<Longrightarrow>
    \<exists>inner uns. map_of hc d = Some inner \<and> map_of inner a = Some uns"
proof (induction m arbitrary: digit digit_amount)
  case (Suc m)
  show ?case
  proof (cases "map_of hc digit")
    case None
    then show ?thesis using Suc by auto
  next
    case (Some inner)
    show ?thesis
    proof (cases "List.find (\<lambda>ait. snd ait \<noteq> [] \<and> missing \<le> fst ait * digit_amount) inner")
      case None
      then show ?thesis using Suc Some by auto
    next
      case (Some ait)
      then have "ait \<in> set inner" by (auto simp: find_Some_iff)
      moreover have "d = digit" "a = fst ait" using Suc.prems(2) Some \<open>map_of hc digit = Some inner\<close> by auto
      ultimately show ?thesis using \<open>map_of hc digit = Some inner\<close> have_member_ok[OF Suc.prems(1)] om_sorted_map_of
        unfolding coin_map_ok_def by (metis prod.collapse)
    qed
  qed
qed simp

section \<open>Putting coins back\<close>

lemma put_back_fold:
  "have_ok (us_have_coins T) \<Longrightarrow> coin_map_ok (us_dust_coins T) \<Longrightarrow>
   \<forall>un \<in># have_list (us_have_coins T). \<not> ao_dust un \<Longrightarrow> \<forall>un \<in># coins (us_dust_coins T). ao_dust un \<Longrightarrow>
   have_ok (us_have_coins (fold put_back uns T)) \<and> coin_map_ok (us_dust_coins (fold put_back uns T)) \<and>
   (\<forall>un \<in># have_list (us_have_coins (fold put_back uns T)). \<not> ao_dust un) \<and> (\<forall>un \<in># coins (us_dust_coins (fold put_back uns T)). ao_dust un) \<and>
   have_list (us_have_coins (fold put_back uns T)) + coins (us_dust_coins (fold put_back uns T)) =
     have_list (us_have_coins T) + coins (us_dust_coins T) + mset uns \<and>
   us_used_total (fold put_back uns T) = us_used_total T - total_of uns \<and>
   us_inputs_count (fold put_back uns T) = us_inputs_count T - word_of_nat (length uns) \<and>
   us_used_unspents (fold put_back uns T) = us_used_unspents T \<and> us_unspents (fold put_back uns T) = us_unspents T \<and>
   us_ra_amounts (fold put_back uns T) = us_ra_amounts T"
proof (induction uns arbitrary: T)
  case (Cons un uns)
  have ok: "have_ok (us_have_coins (put_back un T))" "coin_map_ok (us_dust_coins (put_back un T))"
    "\<forall>un \<in># have_list (us_have_coins (put_back un T)). \<not> ao_dust un" "\<forall>un \<in># coins (us_dust_coins (put_back un T)). ao_dust un"
    and same: "have_list (us_have_coins (put_back un T)) + coins (us_dust_coins (put_back un T)) =
      add_mset un (have_list (us_have_coins T) + coins (us_dust_coins T))"
    using Cons.prems put_have_ok[OF Cons.prems(1), of un] put_dust_ok[OF Cons.prems(2), of un] put_dust_coins[OF Cons.prems(2), of un]
    by (auto simp: put_back_def Let_def)
  have rest: "us_used_total (put_back un T) = us_used_total T - ao_amount un" "us_inputs_count (put_back un T) = us_inputs_count T - 1"
    "us_used_unspents (put_back un T) = us_used_unspents T" "us_unspents (put_back un T) = us_unspents T" "us_ra_amounts (put_back un T) = us_ra_amounts T"
    by (simp_all add: put_back_def Let_def)
  have sums: "us_used_total T - ao_amount un - total_of uns = us_used_total T - total_of (un # uns)"
    "us_inputs_count T - 1 - word_of_nat (length uns) = us_inputs_count T - word_of_nat (length (un # uns))"
    by (simp_all add: total_of_def diff_diff_eq)
  show ?case using Cons.IH[OF ok] unfolding fold.simps o_apply same rest sums by simp
qed (simp add: total_of_def)

lemma unoptimize_ok:
  assumes S: "selection_ok n all S"
  shows "selection_ok n all (unoptimize_amounts S) \<and> us_optimization_unspents (unoptimize_amounts S) = [] \<and>
    us_unspents (unoptimize_amounts S) = us_unspents S \<and> us_ra_amounts (unoptimize_amounts S) = us_ra_amounts S"
proof -
  note S' = selection_ok_D[OF S]
  show ?thesis
    using put_back_fold[OF S'(1,2,4,5), of "us_optimization_unspents S"] S'
    by (simp add: selection_ok_def unoptimize_amounts_def total_of_def)
qed

section \<open>Filling up with the largest coins\<close>

text \<open>The coins that may be used: without mixing all of them, with mixing those that are not dust.\<close>

definition usable :: "nat \<Rightarrow> api_output multiset \<Rightarrow> api_output multiset" where
  "usable anonymity all = filter_mset (\<lambda>un. anonymity = 0 \<or> \<not> ao_dust un) all"

lemma filter_mset_none: "\<forall>x \<in># M. \<not> P x \<Longrightarrow> filter_mset P M = {#}"
  by (induction M) auto

lemma optimization_usable: "selection_ok n all S \<Longrightarrow> mset (us_optimization_unspents S) \<subseteq># usable n all"
proof -
  assume S: "selection_ok n all S"
  have "usable n (mset (us_optimization_unspents S)) = mset (us_optimization_unspents S)"
    using selection_ok_D(6)[OF S] by (auto simp: usable_def filter_mset_eq_conv)
  then show ?thesis
    using selection_ok_D(3)[OF S] by (metis filter_union_mset mset_subset_eq_add_right usable_def)
qed

text \<open>Coins that are not dust have an amount.\<close>

definition worth :: "api_output multiset \<Rightarrow> bool" where
  "worth all \<longleftrightarrow> amounts_of all < 2 ^ 64 \<and> (\<forall>un \<in># all. \<not> ao_dust un \<longrightarrow> ao_amount un \<noteq> 0)"

lemma coins_empty: "coin_map_ok m \<Longrightarrow> coins m = {#} \<longleftrightarrow> m = []"
  by (cases m) (auto simp: coins_def coin_map_ok_def om_sorted_Cons)

lemma have_list_empty: "have_ok hc \<Longrightarrow> have_list hc = {#} \<longleftrightarrow> hc = []"
  by (cases hc) (auto simp: have_list_def have_ok_def om_sorted_Cons coins_empty)

lemma last_have:
  assumes "have_ok hc" "hc \<noteq> []"
  defines "inner \<equiv> snd (last hc)" and "d \<equiv> fst (last hc)"
  shows "map_of hc d = Some inner" "inner \<noteq> []" "map_of inner (fst (last inner)) = Some (snd (last inner))" "snd (last inner) \<noteq> []"
    "last (snd (last inner)) \<in># have_list hc"
proof -
  show m: "map_of hc d = Some inner"
    using assms(1) last_in_set[OF assms(2)] by (simp add: inner_def d_def have_ok_def om_sorted_map_of)
  show ne: "inner \<noteq> []" using have_member_ok[OF assms(1) m] by simp
  have ok: "coin_map_ok inner" using have_member_ok[OF assms(1) m] by simp
  show m2: "map_of inner (fst (last inner)) = Some (snd (last inner))"
    using ok last_in_set[OF ne] by (simp add: coin_map_ok_def om_sorted_map_of)
  show ne2: "snd (last inner) \<noteq> []" using ok last_in_set[OF ne] by (simp add: coin_map_ok_def)
  have "mset (snd (last inner)) \<subseteq># coins inner" unfolding coins_def by (rule om_sum_member[OF m2])
  moreover have "coins inner \<subseteq># have_list hc" unfolding have_list_def by (rule om_sum_member[OF m])
  moreover have "last (snd (last inner)) \<in># mset (snd (last inner))" using ne2 by simp
  ultimately show "last (snd (last inner)) \<in># have_list hc" by (meson mset_subset_eqD)
qed

lemma last_dust:
  assumes "coin_map_ok m" "m \<noteq> []"
  shows "map_of m (fst (last m)) = Some (snd (last m))" "snd (last m) \<noteq> []"
  using assms last_in_set[OF assms(2)] by (simp_all add: coin_map_ok_def om_sorted_map_of)

text \<open>The loop returns: either enough is used, or everything usable is and it is too little.\<close>

lemma fill_loop_ok:
  assumes "worth all"
  shows "selection_ok n all S \<Longrightarrow> \<exists>S' found. fill_loop n amount S = Some (Inr (S', found)) \<and> uses_more n all S S' \<and>
    (if found then amount \<le> us_used_total S' else amounts_of (usable n all) < unat amount)"
proof (induction "size all - length (us_optimization_unspents S)" arbitrary: S rule: less_induct)
  case less
  note S' = selection_ok_D[OF less.prems]
  have step: ?case
    if take: "fill_loop n amount S = fill_loop n amount S1" "uses_more n all S S1" "us_optimization_unspents S1 = us_optimization_unspents S @ [un]" for S1 un
  proof -
    have "size all = size (have_list (us_have_coins S1) + coins (us_dust_coins S1)) + length (us_optimization_unspents S1)"
      using selection_ok_D(3)[OF uses_more_ok[OF take(2)]] by (metis size_mset size_union)
    then have "size all - length (us_optimization_unspents S1) < size all - length (us_optimization_unspents S)" using take(3) by simp
    from less.hyps[OF this uses_more_ok[OF take(2)]] show ?thesis using take(1) uses_more_trans[OF take(2)] by metis
  qed
  show ?case
  proof (cases "us_used_total S < amount")
    case False
    then have "fill_loop n amount S = Some (Inr (S, True))" by (subst fill_loop.simps) simp
    then show ?thesis using uses_more_refl[OF less.prems] False by (intro exI[of _ S] exI[of _ True]) simp
  next
    case True
    show ?thesis
    proof (cases "us_have_coins S = [] \<and> (n \<noteq> 0 \<or> us_dust_coins S = [])")
      case empty: True
      have "usable n (coins (us_dust_coins S)) = {#}"
        using S'(5) empty by (cases "n = 0") (simp_all add: usable_def filter_mset_none coins_def)
      moreover have "usable n (mset (us_optimization_unspents S)) = mset (us_optimization_unspents S)"
        using S'(6) by (auto simp: usable_def filter_mset_eq_conv)
      ultimately have "usable n all = mset (us_optimization_unspents S)"
        unfolding S'(3)[symmetric] using empty by (simp add: usable_def have_list_def)
      then have "amounts_of (usable n all) < unat amount"
        using True used_total_value[OF less.prems] assms by (simp add: worth_def word_less_nat_alt)
      moreover have "fill_loop n amount S = Some (Inr (S, False))" using True empty by (subst fill_loop.simps) simp
      ultimately show ?thesis using uses_more_refl[OF less.prems] by (intro exI[of _ S] exI[of _ False]) simp
    next
      case some: False
      define ait where "ait = last (snd (last (us_have_coins S)))"
      define ha where "ha = (if us_have_coins S \<noteq> [] then ao_amount (last (snd ait)) else 0)"
      define du where "du = (if n = 0 \<and> us_dust_coins S \<noteq> [] then ao_amount (last (snd (last (us_dust_coins S)))) else 0)"
      have fine: "\<not> ((us_have_coins S \<noteq> [] \<and> (snd (last (us_have_coins S)) = [] \<or> snd ait = [])) \<or>
          (n = 0 \<and> us_dust_coins S \<noteq> [] \<and> snd (last (us_dust_coins S)) = []))"
        using last_have[OF S'(1)] last_dust[OF S'(2)] by (auto simp: ait_def)
      have loop: "fill_loop n amount S =
         (if du < ha then (case take_have (fst (last (us_have_coins S))) (fst ait) S of Inl e \<Rightarrow> Some (Inl e) | Inr S' \<Rightarrow> fill_loop n amount S')
          else if us_dust_coins S = [] then Some (Inl Undefined)
          else (case take_dust (fst (last (us_dust_coins S))) S of Inl e \<Rightarrow> Some (Inl e) | Inr S' \<Rightarrow> fill_loop n amount S'))"
        using True some fine
        by (subst fill_loop.simps) (simp only: Let_def ait_def[symmetric] ha_def[symmetric] du_def[symmetric] if_True if_False not_True_eq_False not_False_eq_True)
      show ?thesis
      proof (cases "du < ha")
        case big: True
        then have ne: "us_have_coins S \<noteq> []" by (auto simp: ha_def split: if_splits)
        obtain S1 where S1: "take_have (fst (last (us_have_coins S))) (fst ait) S = Inr S1" "uses_more n all S S1"
          "us_optimization_unspents S1 = us_optimization_unspents S @ [last (snd ait)]"
          using take_have_ok[OF less.prems last_have(1,3)[OF S'(1) ne]] unfolding ait_def by blast
        have "fill_loop n amount S = fill_loop n amount S1"
          using big S1(1) by (simp add: loop)
        then show ?thesis using step S1(2,3) by blast
      next
        case small: False
        have dust: "n = 0 \<and> us_dust_coins S \<noteq> []"
        proof (rule ccontr)
          assume no: "\<not> (n = 0 \<and> us_dust_coins S \<noteq> [])"
          then have ne: "us_have_coins S \<noteq> []" using some by auto
          have "last (snd ait) \<in># have_list (us_have_coins S)" unfolding ait_def by (rule last_have(5)[OF S'(1) ne])
          then have "\<not> ao_dust (last (snd ait))" "last (snd ait) \<in># all" using S'(4) unfolding S'(3)[symmetric] by auto
          then have "ha \<noteq> 0" using assms ne by (simp add: worth_def ha_def)
          then show False using small no by (simp add: du_def word_gt_0)
        qed
        obtain S1 where S1: "take_dust (fst (last (us_dust_coins S))) S = Inr S1" "uses_more n all S S1"
          "us_optimization_unspents S1 = us_optimization_unspents S @ [last (snd (last (us_dust_coins S)))]"
          using take_dust_ok[of all S] less.prems last_dust(1)[OF S'(2)] dust by blast
        have "fill_loop n amount S = fill_loop n amount S1"
          using small S1(1) dust[THEN conjunct2] by (simp add: loop)
        then show ?thesis using step S1(2,3) by blast
      qed
    qed
  qed
qed

section \<open>Selecting for an amount\<close>

lemma select_first_part_ok:
  assumes S: "selection_ok n all S"
  shows "\<exists>S'. bindR (if n = 0 then select_dust amount oc S else Inr (S, oc)) (\<lambda>(S1, oc).
      bindR (stack_loop oc S1) (optimize_amounts max_digit amount)) = Inr S' \<and> uses_more n all S S'"
proof -
  obtain S1 oc' where S1: "(if n = 0 then select_dust amount oc S else Inr (S, oc)) = Inr (S1, oc')" "uses_more n all S S1"
  proof (cases "n = 0")
    case True
    then obtain S1 oc' where "select_dust amount oc S = Inr (S1, oc')" "uses_more 0 all S S1" using select_dust_ok[of all S] S by blast
    then show ?thesis using that True by simp
  qed (use uses_more_refl[OF S] that in simp)
  obtain S2 where S2: "stack_loop oc' S1 = Inr S2" "uses_more n all S1 S2" using stack_loop_ok[OF uses_more_ok[OF S1(2)]] by blast
  obtain S3 where S3: "optimize_amounts max_digit amount S2 = Inr S3" "uses_more n all S2 S3"
    unfolding optimize_amounts_def using optimize_digits_ok[OF uses_more_ok[OF S2(2)]] by blast
  show ?thesis unfolding S1(1) using S2(1) S3(1) uses_more_trans[OF S1(2) uses_more_trans[OF S2(2) S3(2)]] by simp
qed

lemma select_for_amount_ok:
  assumes "worth all" and S: "selection_ok n all S"
  shows "\<exists>S' found. select_for_amount max_digit amount n oc S = Some (Inr (S', found)) \<and> selection_ok n all S' \<and>
    us_unspents S' = us_unspents S \<and> us_ra_amounts S' = us_ra_amounts S \<and>
    (if found then amount \<le> us_used_total S' else amounts_of (usable n all) < unat amount)"
proof -
  have fits: "amounts_of all < 2 ^ 64" using assms(1) by (simp add: worth_def)
  obtain S2 where S2: "bindR (if n = 0 then select_dust amount oc S else Inr (S, oc)) (\<lambda>(S1, oc).
      bindR (stack_loop oc S1) (optimize_amounts max_digit amount)) = Inr S2" "uses_more n all S S2" using select_first_part_ok[OF S] by blast
  note ok2 = uses_more_ok[OF S2(2)]
  show ?thesis
  proof (cases "amount \<le> us_used_total S2")
    case True
    then show ?thesis using S2 ok2 by (intro exI[of _ S2] exI[of _ True]) (simp add: select_for_amount_def uses_more_def)
  next
    case first: False
    obtain S3 where S3: "(case find_single (max_digit + 1) 0 1 (amount - us_used_total S2) (us_have_coins S2) of
        None \<Rightarrow> Inr S2 | Some (digit, am) \<Rightarrow> take_have digit am S2) = Inr S3" "uses_more n all S2 S3"
    proof (cases "find_single (max_digit + 1) 0 1 (amount - us_used_total S2) (us_have_coins S2)")
      case None
      then show ?thesis using that[of S2] uses_more_refl[OF ok2] by simp
    next
      case (Some p)
      obtain d a where p: "p = (d, a)" by (cases p)
      obtain inner uns where "map_of (us_have_coins S2) d = Some inner" "map_of inner a = Some uns"
        using find_single_key[OF selection_ok_D(1)[OF ok2]] Some unfolding p by blast
      then obtain S3 where "take_have d a S2 = Inr S3" "uses_more n all S2 S3" using take_have_ok[OF ok2] by blast
      then show ?thesis using that[of S3] Some p by simp
    qed
    have S3ok: "uses_more n all S S3" by (rule uses_more_trans[OF S2(2) S3(2)])
    show ?thesis
    proof (cases "amount \<le> us_used_total S3")
      case True
      then show ?thesis using S2(1) first S3(1) S3ok by (intro exI[of _ S3] exI[of _ True]) (simp add: select_for_amount_def uses_more_def)
    next
      case second: False
      have un: "selection_ok n all (unoptimize_amounts S3)" "us_unspents (unoptimize_amounts S3) = us_unspents S"
        "us_ra_amounts (unoptimize_amounts S3) = us_ra_amounts S"
        using unoptimize_ok[OF uses_more_ok[OF S3ok]] S3ok by (auto simp: uses_more_def)
      obtain S4 found where S4: "fill_loop n amount (unoptimize_amounts S3) = Some (Inr (S4, found))" "uses_more n all (unoptimize_amounts S3) S4"
        "if found then amount \<le> us_used_total S4 else amounts_of (usable n all) < unat amount" using fill_loop_ok[OF assms(1) un(1)] by blast
      note ok4 = uses_more_ok[OF S4(2)]
      show ?thesis
      proof (cases found)
        case True
        obtain S5 where S5: "optimize_amounts max_digit amount S4 = Inr S5" "uses_more n all S4 S5"
          unfolding optimize_amounts_def using optimize_digits_ok[OF ok4] by blast
        have "amount \<le> us_used_total S5" using S4(3) True uses_more_total[OF S5(2) ok4 fits] by simp
        then show ?thesis
          using S2(1) first S3(1) second S4(1,2) True S5 un(2,3) by (intro exI[of _ S5] exI[of _ True]) (simp add: select_for_amount_def uses_more_def)
      next
        case False
        then show ?thesis using S2(1) first S3(1) second S4 un(2,3) by (intro exI[of _ S4] exI[of _ False]) (simp add: select_for_amount_def uses_more_def)
      qed
    qed
  qed
qed

section \<open>The loop over the fee\<close>

definition no_overflow :: "currency \<Rightarrow> u64 \<Rightarrow> u64 \<Rightarrow> u64 \<Rightarrow> u64 \<Rightarrow> bool" where
  "no_overflow c effective_median_size amount fee_rate fee \<longleftrightarrow>
     unat amount + max (unat fee) (unat fee_rate * unat effective_median_size + unat (default_dust_threshold c)) +
       unat (default_dust_threshold c) < 2 ^ 64"

text \<open>What the loop promises about a result.\<close>

definition selected_for :: "currency \<Rightarrow> nat \<Rightarrow> api_output multiset \<Rightarrow> u64 \<Rightarrow> nat \<Rightarrow> u64 \<Rightarrow> selection \<Rightarrow> u64 \<Rightarrow> bool" where
  "selected_for c anonymity all amount total_outputs fee_rate S change \<longleftrightarrow>
     mset (us_used_unspents S) \<subseteq># usable anonymity all \<and> us_optimization_unspents S = [] \<and>
     us_ra_amounts S = map ao_amount (us_used_unspents S) \<and>
     (\<exists>fee. amounts_of (mset (us_used_unspents S)) = unat amount + fee + unat change \<and> unat (minimum_fee c) \<le> fee \<and>
        unat (fee_rate * tx_size_for S total_outputs anonymity) \<le> fee)"

lemma fee_rounded_up:
  fixes x thr :: u64
  assumes "0 < thr" "unat x + unat thr \<le> 2 ^ 64"
  shows "unat x \<le> unat ((x + thr - 1) div thr * thr)" "unat ((x + thr - 1) div thr * thr) < unat x + unat thr"
proof -
  have t: "0 < unat thr" using assms(1) by (simp add: unat_gt_0 word_gt_0)
  have "unat (x + thr - 1) = unat x + unat thr - 1"
  proof (cases "unat x + unat thr < 2 ^ 64")
    case True
    then have "unat (x + thr) = unat x + unat thr" by (simp add: unat_word_ariths)
    moreover have "1 \<le> x + thr" using calculation t by (simp add: word_le_nat_alt)
    ultimately show ?thesis by (simp add: unat_sub)
  next
    case False
    then have s: "unat x + unat thr = 2 ^ 64" using assms(2) by simp
    then have "x + thr = 0" by (simp add: word_unat_eq_iff unat_word_ariths)
    then show ?thesis using s by (simp add: unsigned_minus_1_eq_mask mask_eq_exp_minus_1)
  qed
  then have d: "unat ((x + thr - 1) div thr) = (unat x + unat thr - 1) div unat thr" by (simp add: unat_div_distrib)
  have "(unat x + unat thr - 1) div unat thr * unat thr \<le> unat x + unat thr - 1" by simp
  then have fit: "(unat x + unat thr - 1) div unat thr * unat thr < 2 ^ 64" using assms(2) t by linarith
  have e: "unat ((x + thr - 1) div thr * thr) = (unat x + unat thr - 1) div unat thr * unat thr"
    unfolding unat_word_ariths(2) d using fit by simp
  show "unat ((x + thr - 1) div thr * thr) < unat x + unat thr" unfolding e using t by (meson div_times_less_eq_dividend le_less_trans diff_less zero_less_one add_pos_nonneg le0 add_gr_0)
  have "unat x + unat thr - 1 = (unat x + unat thr - 1) div unat thr * unat thr + (unat x + unat thr - 1) mod unat thr" by simp
  moreover have "(unat x + unat thr - 1) mod unat thr < unat thr" using t by simp
  ultimately show "unat x \<le> unat ((x + thr - 1) div thr * thr)" unfolding e by linarith
qed


lemma fee_loop_ok:
  assumes w: "worth all" and thr: "0 < default_dust_threshold c"
  shows "selection_ok n all S \<Longrightarrow> us_ra_amounts S = [] \<Longrightarrow> unat (minimum_fee c) \<le> unat fee \<Longrightarrow>
    no_overflow c effective_median_size amount fee_rate fee \<Longrightarrow>
    unat fee \<le> max (unat (minimum_fee c)) (unat fee_rate * unat effective_median_size + unat (default_dust_threshold c)) \<Longrightarrow>
    \<exists>S' err change. fee_loop c effective_median_size optimization_median max_digit n amount total_outputs fee_rate fee oc S = Some (Inr (S', err, change)) \<and>
      (case change of Some ch \<Rightarrow> err = [] \<and> selected_for c n all amount total_outputs fee_rate S' ch
       | None \<Rightarrow> err = ''TRANSACTION_DOES_NOT_FIT_IN_BLOCK'' \<or> err = ''NOT_ENOUGH_FUNDS'' \<and> amounts_of (usable n all) <
           unat amount + max (unat (minimum_fee c)) (unat fee_rate * unat effective_median_size + unat (default_dust_threshold c)))"
proof (induction "(2 ^ 64 - unat fee) + oc" arbitrary: fee oc S rule: less_induct)
  case less
  let ?thr = "default_dust_threshold c"
  let ?loop = "fee_loop c effective_median_size optimization_median max_digit n amount total_outputs fee_rate"
  have fits: "amounts_of all < 2 ^ 64" using w by (simp add: worth_def)
  have no: "unat amount + unat fee + unat ?thr < 2 ^ 64"
    "unat amount + (unat fee_rate * unat effective_median_size + unat ?thr) + unat ?thr < 2 ^ 64"
    using less.prems(4) by (auto simp: no_overflow_def)
  have af: "unat (amount + fee) = unat amount + unat fee" using no(1) by (simp add: unat_word_ariths)
  obtain S1 found where S1: "select_for_amount max_digit (amount + fee) n oc S = Some (Inr (S1, found))" "selection_ok n all S1"
    "us_ra_amounts S1 = us_ra_amounts S" "if found then amount + fee \<le> us_used_total S1 else amounts_of (usable n all) < unat (amount + fee)"
    using select_for_amount_ok[OF w less.prems(1)] by blast
  show ?case
  proof (cases found)
    case False
    then have "?loop fee oc S = Some (Inr (S1, ''NOT_ENOUGH_FUNDS'', None))" by (subst fee_loop.simps) (simp add: S1(1))
    then show ?thesis using S1(4) False less.prems(5) by (simp add: af)
  next
    case True
    define cdf where "cdf = (us_used_total S1 - amount - fee) mod ?thr"
    define size where "size = tx_size_for S1 total_outputs n"
    note un = unoptimize_ok[OF S1(2)]
    have unra: "us_ra_amounts (unoptimize_amounts S1) = []" using un S1(3) less.prems(2) by simp
    have used: "unat (us_used_total S1) = amounts_of (mset (us_optimization_unspents S1))" by (rule used_total_value[OF S1(2) fits])
    have enough: "unat amount + unat fee \<le> unat (us_used_total S1)" using S1(4) True af by (simp add: word_le_nat_alt)
    have left: "unat (us_used_total S1 - amount - fee) = unat (us_used_total S1) - unat amount - unat fee"
      using enough by (simp add: unat_sub word_le_nat_alt)
    have cdfv: "unat cdf = (unat (us_used_total S1) - unat amount - unat fee) mod unat ?thr" by (simp add: cdf_def unat_mod_distrib left)
    have thr0: "0 < unat ?thr" using thr by (simp add: unat_gt_0 word_gt_0)
    then have cdf_less: "unat cdf < unat ?thr" by (simp add: cdfv)
    have loop: "?loop fee oc S =
       (if optimization_median < size \<and> 0 < oc then ?loop fee (if oc div 2 < 10 then 0 else oc div 2) (unoptimize_amounts S1)
        else if effective_median_size < size then Some (Inr (S1, ''TRANSACTION_DOES_NOT_FIT_IN_BLOCK'', None))
        else if fee_rate * size \<le> fee + cdf
             then Some (Inr (combine_optimized_unspents S1, [], Some (us_used_total S1 - amount - fee - cdf)))
             else ?loop (((fee_rate * size - cdf + ?thr - 1) div ?thr) * ?thr) oc (unoptimize_amounts S1))"
      by (subst fee_loop.simps) (use thr True in \<open>simp add: S1(1) Let_def cdf_def[symmetric] size_def[symmetric] word_gt_0\<close>)
    consider (halve) "optimization_median < size" "0 < oc" | (big) "\<not> (optimization_median < size \<and> 0 < oc)" "effective_median_size < size"
      | (paid) "\<not> (optimization_median < size \<and> 0 < oc)" "\<not> effective_median_size < size" "fee_rate * size \<le> fee + cdf"
      | (again) "\<not> (optimization_median < size \<and> 0 < oc)" "\<not> effective_median_size < size" "\<not> fee_rate * size \<le> fee + cdf" by blast
    then show ?thesis
    proof cases
      case halve
      let ?oc = "if oc div 2 < 10 then 0 else oc div 2"
      have "?oc < oc" using halve(2) by auto
      then have "(2 ^ 64 - unat fee) + ?oc < (2 ^ 64 - unat fee) + oc" by simp
      from less.hyps[OF this un[THEN conjunct1] unra less.prems(3-5)] show ?thesis unfolding loop using halve by simp
    next
      case big
      then show ?thesis unfolding loop if_not_P[OF big(1)] by simp
    next
      case paid
      let ?S = "combine_optimized_unspents S1"
      have S: "us_used_unspents ?S = us_optimization_unspents S1" "us_optimization_unspents ?S = []"
        "us_ra_amounts ?S = map ao_amount (us_optimization_unspents S1)" "us_inputs_count ?S = us_inputs_count S1"
        using selection_ok_D(7)[OF S1(2)] S1(3) less.prems(2) by (simp_all add: combine_optimized_unspents_def)
      have sub: "mset (us_optimization_unspents S1) \<subseteq># usable n all" by (rule optimization_usable[OF S1(2)])
      have fc: "unat (fee + cdf) = unat fee + unat cdf" using no(1) cdf_less by (simp add: unat_word_ariths)
      have "unat cdf \<le> unat (us_used_total S1) - unat amount - unat fee" unfolding cdfv by simp
      then have ch: "unat (us_used_total S1 - amount - fee - cdf) = unat (us_used_total S1) - unat amount - unat fee - unat cdf"
        using left by (simp add: unat_sub word_le_nat_alt)
      have "selected_for c n all amount total_outputs fee_rate ?S (us_used_total S1 - amount - fee - cdf)"
        unfolding selected_for_def
      proof (intro conjI exI[of _ "unat fee + unat cdf"])
        show "amounts_of (mset (us_used_unspents ?S)) = unat amount + (unat fee + unat cdf) + unat (us_used_total S1 - amount - fee - cdf)"
          using used enough \<open>unat cdf \<le> _\<close> ch by (simp add: S)
        show "unat (fee_rate * tx_size_for ?S total_outputs n) \<le> unat fee + unat cdf"
          using paid(3) fc by (simp add: size_def word_le_nat_alt tx_size_for_def S)
        show "unat (minimum_fee c) \<le> unat fee + unat cdf" using less.prems(3) by simp
      qed (use S sub in simp_all)
      then show ?thesis unfolding loop if_not_P[OF paid(1)] if_not_P[OF paid(2)] using paid(3) by simp
    next
      case again
      let ?x = "fee_rate * size - cdf"
      let ?fee = "((?x + ?thr - 1) div ?thr) * ?thr"
      have sz: "unat size \<le> unat effective_median_size" using again(2) by (simp add: not_less word_le_nat_alt)
      have le: "unat fee_rate * unat size \<le> unat fee_rate * unat effective_median_size" by (rule mult_le_mono2[OF sz])
      then have "unat fee_rate * unat size < 2 ^ 64" using no(2) by linarith
      then have rs: "unat (fee_rate * size) = unat fee_rate * unat size" unfolding unat_word_ariths(2) by simp
      have fc: "unat (fee + cdf) = unat fee + unat cdf" using no(1) cdf_less by (simp add: unat_word_ariths)
      have more: "unat fee + unat cdf < unat fee_rate * unat size" "unat fee_rate * unat size \<le> unat fee_rate * unat effective_median_size"
        using again(3) le rs fc by (simp_all add: not_le word_less_nat_alt)
      have x: "unat ?x = unat fee_rate * unat size - unat cdf" using more(1) rs by (simp add: unat_sub word_le_nat_alt)
      have "unat ?x + unat ?thr \<le> 2 ^ 64" using x more no(2) by linarith
      note up = fee_rounded_up[OF thr this]
      have grows: "unat fee < unat ?fee" using up(1) x more(1) by linarith
      have bound: "unat ?fee \<le> unat fee_rate * unat effective_median_size + unat ?thr" using up(2) x more by linarith
      have f64: "unat fee < 2 ^ 64" using no(1) by linarith
      have less: "(2 ^ 64 - unat ?fee) + oc < (2 ^ 64 - unat fee) + oc"
        by (rule add_less_mono1[OF diff_less_mono2[OF grows f64]])
      have "no_overflow c effective_median_size amount fee_rate ?fee" using bound no(2) by (simp add: no_overflow_def)
      from less.hyps[OF less un[THEN conjunct1] unra _ this] show ?thesis unfolding loop if_not_P[OF again(1)] if_not_P[OF again(2)] if_not_P[OF again(3)] using grows bound less.prems(3) by simp
    qed
  qed
qed

section \<open>The coins at the start\<close>

definition eligible :: "currency \<Rightarrow> u32 \<Rightarrow> u32 \<Rightarrow> u32 \<Rightarrow> api_output \<Rightarrow> bool" where
  "eligible c block_height block_time confirmed_height un \<longleftrightarrow>
     ao_height un < confirmed_height \<and> is_transaction_spend_time_unlocked c (ao_unlock_time un) block_height block_time"

lemma sort_coin_ok:
  assumes "have_ok hc" "coin_map_ok dc" and s: "sort_coin c h t ch un (hc, dc, m) = (hc', dc', m')"
  shows "have_ok hc' \<and> coin_map_ok dc' \<and>
    have_list hc' = (if eligible c h t ch un \<and> \<not> is_dust (ao_amount un) then {#un#} else {#}) + have_list hc \<and>
    coins dc' = (if eligible c h t ch un \<and> is_dust (ao_amount un) then {#un#} else {#}) + coins dc"
  using assms put_have_ok[OF assms(1), of un] put_dust_ok[OF assms(2), of un] put_dust_coins[OF assms(2), of un]
  by (auto simp: sort_coin_def eligible_def not_le split: if_splits)

lemma sort_coins_ok:
  "have_ok hc \<Longrightarrow> coin_map_ok dc \<Longrightarrow> fold (sort_coin c h t ch) uns (hc, dc, m) = (hc', dc', m') \<Longrightarrow>
    have_ok hc' \<and> coin_map_ok dc' \<and>
    have_list hc' = filter_mset (\<lambda>un. eligible c h t ch un \<and> \<not> is_dust (ao_amount un)) (mset uns) + have_list hc \<and>
    coins dc' = filter_mset (\<lambda>un. eligible c h t ch un \<and> is_dust (ao_amount un)) (mset uns) + coins dc"
proof (induction uns arbitrary: hc dc m)
  case (Cons un uns)
  obtain hc1 dc1 m1 where s: "sort_coin c h t ch un (hc, dc, m) = (hc1, dc1, m1)" using prod_cases3 by blast
  note one = sort_coin_ok[OF Cons.prems(1,2) s]
  show ?case using Cons.IH[of hc1 dc1 m1] Cons.prems(3) s one by auto
qed auto

lemma not_dust_amount: "\<not> is_dust a \<Longrightarrow> a \<noteq> 0"
  by (auto simp: is_dust_def split: option.splits)

lemma create_have_coins_ok:
  assumes "create_have_coins c h t ch uns = (hc, dc, m)"
  shows "have_ok hc \<and> coin_map_ok dc \<and> have_list hc + coins dc = filter_mset (eligible c h t ch) (mset uns) \<and>
    (\<forall>un \<in># have_list hc. \<not> is_dust (ao_amount un)) \<and> (\<forall>un \<in># coins dc. is_dust (ao_amount un))"
proof -
  have split: "filter_mset (\<lambda>un. P un \<and> \<not> Q un) M + filter_mset (\<lambda>un. P un \<and> Q un) M = filter_mset P M" for P Q and M :: "api_output multiset"
    by (induction M) auto
  have start: "have_ok []" "coin_map_ok []" "have_list [] = {#}" "coins [] = {#}" by (simp_all add: have_ok_def coin_map_ok_def have_list_def coins_def)
  show ?thesis
    using sort_coins_ok[OF start(1,2) assms[unfolded create_have_coins_def]] start(3,4)
      split[of "eligible c h t ch" "\<lambda>un. is_dust (ao_amount un)" "mset uns"] by auto
qed

section \<open>Property\<close>

text \<open>C10: The choice of outputs for a payment always ends, without undefined behaviour. On success the chosen outputs are among the eligible
ones of the wallet, each once and without dust when the payment is mixed; they pay the amount, a fee that covers the size of the transaction, and
exactly the change that is returned. It gives up for lack of funds only when the eligible outputs do not cover the amount and the largest
fee.\<close>

theorem select_optimal_outputs_correct:
  assumes dust: "\<forall>un \<in> set unspents. ao_dust un = is_dust (ao_amount un)"
    and fits: "amounts_of (mset unspents) < 2 ^ 64" and thr: "0 < default_dust_threshold c"
    and no: "no_overflow c (120 * median div 100) amount fee_rate (minimum_fee c)"
  shows "\<exists>S' err change.
    select_optimal_outputs c h t ch median anonymity amount total_outputs fee_rate opt_level (new_selector unspents) = Some (Inr (S', err, change)) \<and>
    (case change of
       Some ch' \<Rightarrow> err = [] \<and> selected_for c anonymity (filter_mset (eligible c h t ch) (mset unspents)) amount total_outputs fee_rate S' ch'
     | None \<Rightarrow> err = ''TRANSACTION_DOES_NOT_FIT_IN_BLOCK'' \<or> err = ''NOT_ENOUGH_FUNDS'' \<and>
         amounts_of (usable anonymity (filter_mset (eligible c h t ch) (mset unspents))) <
           unat amount + max (unat (minimum_fee c)) (unat fee_rate * unat (120 * median div 100) + unat (default_dust_threshold c)))"
proof -
  obtain hc dc m where cr: "create_have_coins c h t ch unspents = (hc, dc, m)" by (cases "create_have_coins c h t ch unspents")
  note start = create_have_coins_ok[OF cr]
  let ?all = "filter_mset (eligible c h t ch) (mset unspents)"
  let ?S = "selector.extend (new_selector unspents) (selection.fields hc dc)"
  have fields: "us_have_coins ?S = hc" "us_dust_coins ?S = dc" "us_optimization_unspents ?S = []" "us_used_unspents ?S = []"
    "us_used_total ?S = 0" "us_inputs_count ?S = 0" "us_ra_amounts ?S = []"
    by (simp_all add: new_selector_def selector.defs selection.defs)
  have member: "un \<in> set unspents" if "un \<in># ?all" for un using that by auto
  have flags: "(\<forall>un \<in># have_list hc. \<not> ao_dust un)" "(\<forall>un \<in># coins dc. ao_dust un)"
    using start dust member by (metis union_iff)+
  have "selection_ok anonymity ?all ?S"
    using start flags by (simp add: selection_ok_def fields total_of_def)
  moreover have "worth ?all"
  proof -
    have "amounts_of (filter_mset P M) \<le> amounts_of M" for P M by (induction M) auto
    then have "amounts_of ?all < 2 ^ 64" using fits by (meson le_less_trans)
    moreover have "ao_amount un \<noteq> 0" if "un \<in># ?all" "\<not> ao_dust un" for un
      using not_dust_amount[of "ao_amount un"] dust member[OF that(1)] that(2) by metis
    ultimately show ?thesis unfolding worth_def by blast
  qed
  ultimately show ?thesis
    using fee_loop_ok[of ?all c anonymity ?S "minimum_fee c" "120 * median div 100" amount fee_rate] thr no cr
    by (simp add: select_optimal_outputs_def Let_def new_selector_def fields[unfolded new_selector_def])
qed

definition sample_coin :: "u64 \<Rightarrow> u32 \<Rightarrow> bool \<Rightarrow> api_output" where
  "sample_coin amount gi d = \<lparr>ao_amount = amount, ao_public_key = [], ao_global_index = gi, ao_unlock_time = 0, ao_index_in_transaction = 0,
     ao_height = 1, ao_key_image = [], ao_transaction_public_key = [], ao_address = [], ao_dust = d\<rparr>"

theorem select_optimal_outputs_correct_witness:
  "\<exists>S' err change.
    select_optimal_outputs (mk_currency False [] []) 100 1000 90 100000 0 5000000 1 100 ''normal''
      (new_selector [sample_coin 20000000 3 False, sample_coin 7 9 True]) = Some (Inr (S', err, change)) \<and>
    (case change of
       Some ch' \<Rightarrow> err = [] \<and> selected_for (mk_currency False [] []) 0 (filter_mset (eligible (mk_currency False [] []) 100 1000 90)
           (mset [sample_coin 20000000 3 False, sample_coin 7 9 True])) 5000000 1 100 S' ch'
     | None \<Rightarrow> err = ''TRANSACTION_DOES_NOT_FIT_IN_BLOCK'')"
proof -
  let ?c = "mk_currency False [] []"
  let ?us = "[sample_coin 20000000 3 False, sample_coin 7 9 True]"
  have d: "is_dust 20000000 = False" by (simp add: is_dust_def PRETTY_AMOUNTS_def upt_rec) code_simp
  have d7: "is_dust 7 = True" by (simp add: is_dust_def split: option.split)
  have c: "default_dust_threshold ?c = 1000000" "minimum_fee ?c = 1000000" by (simp_all add: mk_currency_def Let_def)
  have m: "120 * (100000 :: u64) div 100 = 120000" by simp
  have e: "eligible ?c 100 1000 90 (sample_coin 20000000 3 False)" "eligible ?c 100 1000 90 (sample_coin 7 9 True)"
    by (simp_all add: eligible_def sample_coin_def is_transaction_spend_time_unlocked_def mk_currency_def Let_def)
  have "amounts_of (usable 0 (filter_mset (eligible ?c 100 1000 90) (mset ?us))) = 20000007"
    using e by (simp add: usable_def sample_coin_def)
  then show ?thesis
    using select_optimal_outputs_correct[of ?us ?c 100000 5000000 100 100 1000 90 0 1 "''normal''"] d d7
    by (simp add: c m no_overflow_def sample_coin_def cong: option.case_cong)
qed

end
