(* ===== verification/Spec2Isabelle.thy ===== *)
theory Spec2Isabelle
  imports Base58 Streams BlockSeria Currency KVStore MemPool BlockChain ChainTree Ledger ChainState RingChecker Consensus NodeState Mining ChainLedger TextTools Http Json Scalar Crypto TxBuilder CoinSelection
begin

text \<open>
  The core of the CryoNero node, a cryptocurrency of the CryptoNote family written in C++ (all paths are
  below \<open>src/src/\<close>).

  \<^bold>\<open>The program.\<close> The daemon keeps a database of blocks that form a tree. One branch is the main chain; the effect
  of its blocks is a ledger of spent key images and of outputs numbered per amount. \<open>Core/BlockChain.cpp\<close> stores
  blocks, compares cumulative difficulties and switches branches by undoing and redoing blocks;
  \<open>Core/BlockChainState.cpp\<close> derives from it, checks blocks against the rules of consensus, keeps the ledger and the
  memory pool; \<open>Core/Currency.cpp\<close> holds the monetary rules; \<open>Core/RingCheckerMulticore.cpp\<close> checks ring signatures in
  threads. Around them stand the binary formats (\<open>seria/\<close>, \<open>Core/rpc_api_serialization.cpp\<close>,
  \<open>Core/TransactionExtra.cpp\<close>, \<open>common/Varint.*\<close>, \<open>common/Base58.cpp\<close>) and the hashes
  (\<open>crypto/keccak.c\<close>, \<open>crypto/tree-hash.c\<close>, \<open>Core/Difficulty.cpp\<close>).

  \<^bold>\<open>Conventions.\<close> Unsigned C++ integers are words of their width and wrap as in the code; \<open>size_t\<close> counts of bytes in
  memory are naturals where no claim depends on the width. A string of bytes is a list of 8-bit words. Every
  exception, failed \<open>invariant\<close> and failed \<open>assert\<close> is a value \<open>Inl e\<close> of the type \<open>result\<close> of \<^verbatim>\<open>Prelude\<close>; an operation that
  changes state returns the new state, and the state at a failure is not observed because the callers let the
  exception end the process. Ordered maps and sets are the red-black trees of the library, so that loops over
  them have the order of the code. Loops that need not end are partial functions into \<open>option\<close>, and their
  termination is a theorem where the code's data guarantee it.

  \<^bold>\<open>Theories.\<close>
  \<^item> \<^verbatim>\<open>Prelude\<close>: results, bytes and words, shared lemmas. \<^verbatim>\<open>Codec\<close>: the locale of a pair of a writer and a reader that
    round-trip, which the formats interpret.
  \<^item> \<^verbatim>\<open>Varint\<close> (\<open>common/Varint.*\<close>, \<open>common/Streams.cpp\<close>), \<^verbatim>\<open>IntUtil\<close> (\<open>crypto/int-util.h\<close>, \<open>common/Int128.hpp\<close>,
    \<open>Core/Difficulty.cpp\<close>), \<^verbatim>\<open>Keccak\<close>, \<^verbatim>\<open>Base58\<close>, \<^verbatim>\<open>TreeHash\<close> (\<open>crypto/tree-hash.c\<close>), \<^verbatim>\<open>Streams\<close> (memory streams and the
    circular buffer of the network code).
  \<^item> \<^verbatim>\<open>BinarySeria\<close> (transactions), \<^verbatim>\<open>TransactionExtra\<close>, \<^verbatim>\<open>BlockSeria\<close> (headers, merge mining, block hashes).
  \<^item> \<^verbatim>\<open>Currency\<close>: rewards, penalties, difficulty, versions, checkpoints, coinbase transactions, addresses.
  \<^item> \<^verbatim>\<open>KVStore\<close> (\<open>platform/DBsqlite3.*\<close>): the ordered key-value table. \<^verbatim>\<open>BlockChain\<close>: the operations of
    \<open>Core/BlockChain.cpp\<close> over it, with the virtual methods a record of functions. \<^verbatim>\<open>ChainTree\<close>: their theorems.
  \<^item> \<^verbatim>\<open>MemPool\<close>, \<^verbatim>\<open>Ledger\<close>, \<^verbatim>\<open>ChainState\<close>, \<^verbatim>\<open>Consensus\<close>, \<^verbatim>\<open>NodeState\<close>, \<^verbatim>\<open>Mining\<close>: \<open>Core/BlockChainState.cpp\<close>, by the state each part
    uses: the pool, the two implementations of \<open>IBlockChainState\<close>, the application and undoing of blocks, the rules of
    consensus, and the operations the node calls; \<^verbatim>\<open>Mining\<close>: the block template of the miner. \<^verbatim>\<open>RingChecker\<close>: the threads.
    \<^verbatim>\<open>ChainLedger\<close>: runs of the node, with the stack of the applied blocks as history.
  \<^item> \<^verbatim>\<open>TextBase\<close>, \<^verbatim>\<open>TextTools\<close> (\<open>common/StringTools.*\<close>, \<open>common/Base64.cpp\<close>, \<open>common/Ipv4Address.cpp\<close>): numbers, hexadecimal text,
    base 64 and addresses as strings. \<^verbatim>\<open>Http\<close> (\<open>http/request_parser.cpp\<close>, \<open>http/response_parser.cpp\<close>, \<open>http/types.cpp\<close>): the
    state machines that parse messages, and their printers. \<^verbatim>\<open>Json\<close> (\<open>common/JsonValue.*\<close>): values, printer and parser.
  \<^item> \<^verbatim>\<open>Limbs\<close>, \<^verbatim>\<open>Scalar\<close> (the \<open>sc_*\<close> functions of \<open>crypto/crypto-ops.c\<close>): straight-line code on limbs as lists of carry and fold
    steps, run on 64-bit words, with the analysis of the intervals of the limbs that excludes overflow. \<^verbatim>\<open>Crypto\<close> (\<open>crypto/crypto.cpp\<close>): keys,
    signatures, ring signatures and proofs of sending over a record of point operations.
  \<^item> \<^verbatim>\<open>TxBuilder\<close>, \<^verbatim>\<open>CoinSelection\<close> (\<open>Core/TransactionBuilder.cpp\<close>): building and signing a transaction, and the choice of the outputs
    it spends.

  \<^bold>\<open>What the lemmas show.\<close> Of the formats: reading inverts writing, and where the code is canonical, only written
  data are read. Of the ledger: the database with its cache of indexes and the in-memory delta both implement the
  abstract ledger (locales \<open>ledger_store\<close> and \<open>ledger_spender\<close>, interpreted for both), so that applying a block
  changes the ledger exactly as its transactions say, with no double spend, and undoing it restores the ledger; in every run the database holds the ledger of the
  blocks applied, and undoing a block that marked each output once never fails.
  Of the tree: the index of the main chain stays consistent, the fork point is found, and the header cache cannot be
  observed. Of the monetary rules: no transaction and no accepted block creates more than it may. Of the threads:
  under every interleaving the verdict is that of the rings submitted. Of the pool: it stays consistent and prefers
  fees, no transaction makes it fail, and after a reorganisation it holds nothing that is spent. Of the miner: its
  block templates pass the checks of the validator. Of the keys: the arithmetic of scalars is that of the integers modulo the group order, what is
  signed is accepted, and a one-time key is recovered by its owner alone with the secret keys. Of the wallet's transactions: the choice of outputs ends and
  conserves coins, and a signed transaction passes the checks of the chain.

  \<^bold>\<open>Bounds and fuel.\<close> Loops over integers of 64 bits in 7-bit groups have as many steps as the type has groups; the
  attempts of \<open>get_random_outputs\<close> are the twentyfold count of the code, those of the coinbase the ten of the code. No theorem needs a bound on the input beyond
  the stated hypotheses, which name the widths (32-byte hashes, counts below \<open>2 ^ 32\<close>).

  \<^bold>\<open>Arguments of the model.\<close> The operations on points of the elliptic curve (\<open>ge_*\<close> of \<open>crypto/crypto-ops.c\<close>), the slow proof-of-work
  hashes, the clock, random bytes, shuffles and the unspecified order of \<open>std::sort\<close>. The chain state takes the checks of keys and rings as a record, and
  \<open>crypto_of\<close> in \<^verbatim>\<open>TxBuilder\<close> is its instance. Nothing is assumed of them unless a
  theorem says so; the assumptions are \<open>curve_laws\<close> (the points form a
  commutative group of which the base point generates a subgroup of the order of the scalars, with an encoding), shown to hold for the residues, and
  that shuffles and sorting permute.

  \<^bold>\<open>Not modelled.\<close> Sockets, files, threads other than the ring checker's, logging, configuration and start-up
  (\<open>p2p/\<close>, the server and agent of \<open>http/\<close>, \<open>platform/\<close>, \<open>logging/\<close>, \<open>main_*.cpp\<close>): input and output around the parts above. Vendored cryptography
  (the points in \<open>crypto/crypto-ops*\<close>, \<open>skein.c\<close>, \<open>groestl.c\<close>, \<open>jh.c\<close>, \<open>oaes_lib.c\<close>). The files and tables of the wallet, JSON streams, the key-value format of the
  peer-to-peer messages are left for later extensions.
\<close>

end
